(* ===== verification/Prelude.thy ===== *)
theory Prelude
  imports Main "HOL-Library.Word"
begin

text \<open>
  The vocabulary the components share: the machine's integer types, the byte-addressed
  memory with its little-endian loads and stores, address spans, and the outcome type of code
  that may end the program (\<open>BlCrash\<close>) or never return.
\<close>

unbundle bit_operations_syntax

named_theorems run_simps "evaluation of the outcome combinators"
named_theorems mem_simps "loads after stores"

type_synonym u8 = "8 word"
type_synonym u16 = "16 word"
type_synonym u32 = "32 word"
type_synonym u64 = "64 word"

section \<open>Outcomes\<close>

text \<open>
  \<open>None\<close>: the code does not return. \<open>Some (Inl msg)\<close>: it ended the program through
  \<open>BlCrash\<close> with this message. \<open>Some (Inr x)\<close>: it returned \<open>x\<close>.
\<close>

type_synonym 'a run = "(string + 'a) option"

definition ret :: "'a \<Rightarrow> 'a run" where
  "ret x = Some (Inr x)"

definition crash :: "string \<Rightarrow> 'a run" where
  "crash msg = Some (Inl msg)"

definition bind_run :: "'a run \<Rightarrow> ('a \<Rightarrow> 'b run) \<Rightarrow> 'b run" where
  "bind_run r f = Option.bind r (\<lambda>x. case x of Inl msg \<Rightarrow> Some (Inl msg) | Inr y \<Rightarrow> f y)"

lemma bind_run_simps [simp, run_simps]:
  "bind_run None f = None"
  "bind_run (ret x) f = f x"
  "bind_run (crash msg) f = crash msg"
  by (simp_all add: bind_run_def ret_def crash_def)

lemma ret_neq_crash [simp, run_simps]:
  "ret x \<noteq> crash msg" "crash msg \<noteq> ret x" "ret x \<noteq> None" "crash msg \<noteq> None"
  "None \<noteq> ret x" "None \<noteq> (crash msg :: 'a run)"
  "ret x = ret y \<longleftrightarrow> x = y" "(crash msg :: 'a run) = crash msg' \<longleftrightarrow> msg = msg'"
  by (simp_all add: ret_def crash_def)

lemma run_cases [case_names diverges crashes returns]:
  obtains "r = None" | msg where "r = crash msg" | x where "r = ret x"
proof (cases r)
  case None
  then show ?thesis using that by blast
next
  case (Some y)
  then show ?thesis using that by (cases y) (auto simp: ret_def crash_def)
qed

lemma bind_run_eq_ret: "bind_run r f = ret y \<longleftrightarrow> (\<exists>x. r = ret x \<and> f x = ret y)"
  by (cases r rule: run_cases) auto

lemma bind_run_mono [partial_function_mono]:
  assumes "mono_option B" and "\<And>y. mono_option (C y)"
  shows "mono_option (\<lambda>f. bind_run (B f) (\<lambda>y. C y f))"
proof -
  have "mono_option (\<lambda>f. case y of Inl msg \<Rightarrow> Some (Inl msg) | Inr z \<Rightarrow> C z f)" for y
    by (cases y) (simp_all add: assms(2) option.const_mono)
  with assms(1) show ?thesis
    unfolding bind_run_def by (rule bind_mono)
qed

section \<open>Byte-addressed memory\<close>

text \<open>
  The 32-bit address space as a function from addresses to bytes. Multi-byte accesses are
  little-endian, the byte order of the target.
\<close>

type_synonym mem = "u32 \<Rightarrow> u8"

definition load32 :: "mem \<Rightarrow> u32 \<Rightarrow> u32" where
  "load32 m a = ucast (m a) OR push_bit 8 (ucast (m (a + 1)))
     OR push_bit 16 (ucast (m (a + 2))) OR push_bit 24 (ucast (m (a + 3)))"

definition store32 :: "mem \<Rightarrow> u32 \<Rightarrow> u32 \<Rightarrow> mem" where
  "store32 m a v = m(a := ucast v, a + 1 := ucast (drop_bit 8 v),
     a + 2 := ucast (drop_bit 16 v), a + 3 := ucast (drop_bit 24 v))"

definition load_bytes :: "mem \<Rightarrow> u32 \<Rightarrow> nat \<Rightarrow> u8 list" where
  "load_bytes m a n = map (\<lambda>i. m (a + of_nat i)) [0..<n]"

definition store_bytes :: "mem \<Rightarrow> u32 \<Rightarrow> u8 list \<Rightarrow> mem" where
  "store_bytes m a bs = (\<lambda>x. if unat (x - a) < length bs then bs ! unat (x - a) else m x)"

text \<open>The \<open>n\<close> addresses from \<open>a\<close> on, and two areas that do not meet.\<close>

definition span :: "u32 \<Rightarrow> nat \<Rightarrow> u32 set" where
  "span a n = {x. unat (x - a) < n}"

definition same_on :: "u32 set \<Rightarrow> mem \<Rightarrow> mem \<Rightarrow> bool" where
  "same_on A m m' \<longleftrightarrow> (\<forall>x\<in>A. m' x = m x)"

abbreviation same_outside :: "u32 set \<Rightarrow> mem \<Rightarrow> mem \<Rightarrow> bool" where
  "same_outside A m m' \<equiv> same_on (- A) m m'"

text \<open>An object of \<open>n\<close> bytes at \<open>a\<close> that does not run past the end of memory.\<close>

definition fits :: "u32 \<Rightarrow> nat \<Rightarrow> bool" where
  "fits a n \<longleftrightarrow> unat a + n \<le> 2 ^ 32"

lemma load32_store32_same [simp, mem_simps]: "load32 (store32 m a v) a = v"
proof -
  have "a + 1 \<noteq> a" "a + 2 \<noteq> a" "a + 3 \<noteq> a" "a + 2 \<noteq> a + 1" "a + 3 \<noteq> a + 1" "a + 3 \<noteq> a + 2"
    by simp_all
  then have "load32 (store32 m a v) a =
      ucast (ucast v :: u8) OR push_bit 8 (ucast (ucast (drop_bit 8 v) :: u8))
      OR push_bit 16 (ucast (ucast (drop_bit 16 v) :: u8))
      OR push_bit 24 (ucast (ucast (drop_bit 24 v) :: u8))"
    unfolding load32_def store32_def by simp
  also have "\<dots> = v"
  proof (rule bit_word_eqI)
    fix n
    assume "n < LENGTH(32)"
    then consider "n < 8" | "8 \<le> n" "n < 16" | "16 \<le> n" "n < 24" | "24 \<le> n" "n < 32"
      by (simp, linarith)
    then show "bit (ucast (ucast v :: u8) OR push_bit 8 (ucast (ucast (drop_bit 8 v) :: u8))
        OR push_bit 16 (ucast (ucast (drop_bit 16 v) :: u8))
        OR push_bit 24 (ucast (ucast (drop_bit 24 v) :: u8)) :: u32) n = bit v n"
      by cases (auto simp: bit_simps)
  qed
  finally show ?thesis .
qed

lemma unat_lt32: "unat (x :: u32) < 2 ^ 32"
  using unsigned_less [of x] by simp

lemma span_iff: "x \<in> span a n \<longleftrightarrow> unat (x - a) < n"
  by (simp add: span_def)

lemma span_fits: "fits a n \<Longrightarrow> x \<in> span a n \<longleftrightarrow> unat a \<le> unat x \<and> unat x < unat a + n"
  unfolding span_def fits_def mem_Collect_eq by (unat_arith; auto)

lemma span_off: "i < n \<Longrightarrow> n \<le> 2 ^ 32 \<Longrightarrow> a + of_nat i \<in> span a n"
  by (simp add: span_def unat_of_nat take_bit_eq_mod)

lemma span_offE:
  assumes "x \<in> span a n"
  obtains i where "i < n" "x = a + of_nat i"
proof
  show "unat (x - a) < n" using assms by (simp add: span_def)
  show "x = a + of_nat (unat (x - a))" by simp
qed

lemma span_sub:
  assumes "i + k \<le> n" "n \<le> 2 ^ 32"
  shows "span (a + of_nat i) k \<subseteq> span a n"
proof
  fix x
  assume "x \<in> span (a + of_nat i) k"
  then obtain j where j: "j < k" "x = a + of_nat i + of_nat j" by (rule span_offE)
  then have "x = a + of_nat (i + j)" by (simp add: add.assoc)
  then show "x \<in> span a n" using j assms span_off [of "i + j" n a] by (simp add: add.assoc)
qed

lemma span_sub_numeral:
  "numeral i + k \<le> n \<Longrightarrow> n \<le> 2 ^ 32 \<Longrightarrow> span (a + numeral i) k \<subseteq> span a n"
  using span_sub [of "numeral i" k n a] by simp

lemma span_mono: "k \<le> n \<Longrightarrow> span a k \<subseteq> span a n"
  by (auto simp: span_def)

lemma span_empty [simp]: "span a 0 = {}"
  by (simp add: span_def)

lemma span_self [simp]: "a \<in> span a n \<longleftrightarrow> 0 < n"
  by (simp add: span_def)

lemma span_disjoint:
  assumes "fits a n" "fits b k" "unat a + n \<le> unat b"
  shows "span a n \<inter> span b k = {}"
  using assms by (auto simp: span_fits)

lemma span_disjoint_off:
  assumes "i + k \<le> j" "j + l \<le> 2 ^ 32"
  shows "span (a + of_nat i) k \<inter> span (a + of_nat j) l = {}"
proof -
  have "False" if x1: "x \<in> span (a + of_nat i) k" and x2: "x \<in> span (a + of_nat j) l" for x
  proof -
    obtain c where c: "c < k" "x = a + of_nat i + of_nat c" using x1 by (rule span_offE)
    obtain d where d: "d < l" "x = a + of_nat j + of_nat d" using x2 by (rule span_offE)
    have "of_nat (i + c) = (of_nat (j + d) :: u32)" using c(2) d(2) by simp
    then have "unat (of_nat (i + c) :: u32) = unat (of_nat (j + d) :: u32)" by simp
    then have "(i + c) mod 2 ^ 32 = (j + d) mod 2 ^ 32"
      by (simp only: unat_of_nat take_bit_eq_mod) simp
    with c(1) d(1) assms show False by simp
  qed
  then show ?thesis by blast
qed

lemma same_on_refl [simp]: "same_on A m m"
  by (simp add: same_on_def)

lemma same_on_trans: "same_on A m m' \<Longrightarrow> same_on A m' m'' \<Longrightarrow> same_on A m m''"
  by (simp add: same_on_def)

lemma same_on_sym: "same_on A m m' \<Longrightarrow> same_on A m' m"
  by (simp add: same_on_def)

lemma same_on_mono: "same_on B m m' \<Longrightarrow> A \<subseteq> B \<Longrightarrow> same_on A m m'"
  by (auto simp: same_on_def)

lemma same_outside_mono: "same_outside A m m' \<Longrightarrow> A \<subseteq> B \<Longrightarrow> same_outside B m m'"
  by (auto simp: same_on_def)

lemma same_outside_on: "same_outside A m m' \<Longrightarrow> A \<inter> B = {} \<Longrightarrow> same_on B m m'"
  by (auto simp: same_on_def)

lemma load32_same_on:
  assumes "same_on (span a 4) m m'"
  shows "load32 m' a = load32 m a"
proof -
  have "m' (a + of_nat i) = m (a + of_nat i)" if "i < 4" for i
    using assms span_off [of i 4 a] that by (simp add: same_on_def)
  from this [of 0] this [of 1] this [of 2] this [of 3] show ?thesis by (simp add: load32_def)
qed

lemma store32_same_outside [simp, intro]: "same_outside (span a 4) m (store32 m a v)"
proof -
  have "a + of_nat i \<in> span a 4" if "i < 4" for i using that by (simp add: span_off)
  from this [of 0] this [of 1] this [of 2] this [of 3] show ?thesis
    by (auto simp: same_on_def store32_def)
qed

lemma store8_same_outside [simp, intro]: "same_outside (span a (Suc 0)) m (m(a := v))"
  by (auto simp: same_on_def)

lemma load32_store32_disjoint: "span a 4 \<inter> span b 4 = {} \<Longrightarrow> load32 (store32 m a v) b = load32 m b"
  by (rule load32_same_on, rule same_outside_on, rule store32_same_outside)

lemma load32_store8_disjoint: "a \<notin> span b 4 \<Longrightarrow> load32 (m(a := v)) b = load32 m b"
  by (rule load32_same_on) (auto simp: same_on_def)

lemma store32_apply_other: "x \<notin> span a 4 \<Longrightarrow> store32 m a v x = m x"
  using store32_same_outside [of a m v] by (auto simp: same_on_def)

text \<open>Byte strings in memory: what was stored is loaded back, elsewhere nothing changes.\<close>

lemma length_load_bytes [simp]: "length (load_bytes m a n) = n"
  by (simp add: load_bytes_def)

lemma nth_load_bytes [simp]: "i < n \<Longrightarrow> load_bytes m a n ! i = m (a + of_nat i)"
  by (simp add: load_bytes_def)

lemma load_bytes_0 [simp]: "load_bytes m a 0 = []"
  by (simp add: load_bytes_def)

lemma load_bytes_Suc: "load_bytes m a (Suc n) = m a # load_bytes m (a + 1) n"
  by (simp add: load_bytes_def map_upt_Suc add.assoc del: upt_Suc)

lemma load_bytes_add: "load_bytes m a (n + k) = load_bytes m a n @ load_bytes m (a + of_nat n) k"
  by (induction n arbitrary: a) (simp_all add: load_bytes_Suc algebra_simps)

lemma store_bytes_Nil [simp]: "store_bytes m a [] = m"
  by (simp add: store_bytes_def)

lemma store_bytes_same_outside [simp, intro]: "same_outside (span a (length bs)) m (store_bytes m a bs)"
  by (auto simp: same_on_def store_bytes_def span_def)

lemma load_store_bytes:
  "length bs \<le> 2 ^ 32 \<Longrightarrow> load_bytes (store_bytes m a bs) a (length bs) = bs"
  by (rule nth_equalityI) (auto simp: store_bytes_def unat_of_nat take_bit_eq_mod)

lemma load_bytes_same_on:
  assumes "same_on (span a n) m m'" "n \<le> 2 ^ 32"
  shows "load_bytes m' a n = load_bytes m a n"
proof (rule nth_equalityI)
  fix i assume "i < length (load_bytes m' a n)"
  then show "load_bytes m' a n ! i = load_bytes m a n ! i"
    using assms span_off [of i n a] by (simp add: same_on_def)
qed simp

lemma store_bytes_Cons:
  assumes "length bs < 2 ^ 32"
  shows "store_bytes m a (b # bs) = store_bytes (m(a := b)) (a + 1) bs"
proof
  fix x
  show "store_bytes m a (b # bs) x = store_bytes (m(a := b)) (a + 1) bs x"
  proof (cases "x = a")
    case True
    have "unat (- 1 :: u32) = 2 ^ 32 - 1"
      by (simp add: unsigned_minus_1_eq_mask mask_eq_exp_minus_1)
    with True assms show ?thesis by (simp add: store_bytes_def)
  next
    case False
    then have "unat (x - a) \<noteq> 0" by (simp add: unat_eq_0)
    moreover have "unat (x - (a + 1)) = unat (x - a) - 1"
      using \<open>unat (x - a) \<noteq> 0\<close> by (metis diff_diff_eq unat_eq_0 unat_minus_one)
    ultimately show ?thesis using False by (auto simp: store_bytes_def nth_Cons')
  qed
qed

section \<open>Other widths\<close>

definition load16 :: "mem \<Rightarrow> u32 \<Rightarrow> u16" where
  "load16 m a = ucast (m a) OR push_bit 8 (ucast (m (a + 1)))"

definition store16 :: "mem \<Rightarrow> u32 \<Rightarrow> u16 \<Rightarrow> mem" where
  "store16 m a v = m(a := ucast v, a + 1 := ucast (drop_bit 8 v))"

definition load64 :: "mem \<Rightarrow> u32 \<Rightarrow> u64" where
  "load64 m a = ucast (load32 m a) OR push_bit 32 (ucast (load32 m (a + 4)))"

definition store64 :: "mem \<Rightarrow> u32 \<Rightarrow> u64 \<Rightarrow> mem" where
  "store64 m a v = store32 (store32 m a (ucast v)) (a + 4) (ucast (drop_bit 32 v))"

lemma load16_store16_same [simp, mem_simps]: "load16 (store16 m a v) a = v"
proof -
  have "load16 (store16 m a v) a = ucast (ucast v :: u8) OR push_bit 8 (ucast (ucast (drop_bit 8 v) :: u8))"
    by (simp add: load16_def store16_def)
  also have "\<dots> = v"
  proof (rule bit_word_eqI)
    fix n assume "n < LENGTH(16)"
    then show "bit (ucast (ucast v :: u8) OR push_bit 8 (ucast (ucast (drop_bit 8 v) :: u8)) :: u16) n = bit v n"
      by (cases "n < 8") (auto simp: bit_simps)
  qed
  finally show ?thesis .
qed

lemma span_8_parts: "span a 4 \<subseteq> span a 8" "span (a + 4) 4 \<subseteq> span a 8" "span a 4 \<inter> span (a + 4) 4 = {}"
  using span_sub [of 4 4 8 a] span_disjoint_off [of 0 4 4 4 a] by (simp_all add: span_mono)

lemma load64_store64_same [simp, mem_simps]: "load64 (store64 m a v) a = v"
proof -
  have "load64 (store64 m a v) a = ucast (ucast v :: u32) OR push_bit 32 (ucast (ucast (drop_bit 32 v) :: u32))"
    using span_8_parts(3) [of a] by (simp add: load64_def store64_def load32_store32_disjoint Int_commute)
  also have "\<dots> = v"
  proof (rule bit_word_eqI)
    fix n assume "n < LENGTH(64)"
    then show "bit (ucast (ucast v :: u32) OR push_bit 32 (ucast (ucast (drop_bit 32 v) :: u32)) :: u64) n = bit v n"
      by (cases "n < 32") (auto simp: bit_simps)
  qed
  finally show ?thesis .
qed

lemma store64_same_outside [simp, intro]: "same_outside (span a 8) m (store64 m a v)"
  unfolding store64_def
  by (rule same_on_trans [OF same_outside_mono [OF store32_same_outside] same_outside_mono [OF store32_same_outside]])
    (rule span_8_parts)+

lemma load64_same_on:
  assumes "same_on (span a 8) m m'"
  shows "load64 m' a = load64 m a"
  using load32_same_on [OF same_on_mono [OF assms span_8_parts(1)]]
    load32_same_on [OF same_on_mono [OF assms span_8_parts(2)]] by (simp add: load64_def)

lemma load16_same_on: "same_on (span a 2) m m' \<Longrightarrow> load16 m' a = load16 m a"
  using span_off [of 0 2 a] span_off [of 1 2 a] by (simp add: load16_def same_on_def)

section \<open>Structures\<close>

text \<open>A packed C structure as its fields in order, each with its size in bytes.\<close>

type_synonym struct = "(string \<times> nat) list"

definition struct_size :: "struct \<Rightarrow> u32" where
  "struct_size fields = of_nat (sum_list (map snd fields))"

fun field_offset :: "struct \<Rightarrow> string \<Rightarrow> u32" where
  "field_offset [] name = 0"
| "field_offset ((f, n) # fields) name = (if f = name then 0 else of_nat n + field_offset fields name)"

end
