(* ===== verification/Compiler.thy ===== *)
theory Compiler
  imports Prelude
begin

text \<open>
  The arithmetic of \<^verbatim>\<open>bootloader/compiler.h\<close>: alignment, minimum and maximum,
  container pointers, byte swapping and the count of trailing zeroes. The target is
  little-endian, so the \<open>BL_LE\<close> macros are the identity and the \<open>BL_BE\<close> macros swap.
\<close>

named_theorems align_simps "alignment to a power of two, read as natural numbers"

section \<open>Definitions\<close>

definition BL_ALIGN_UP :: "'a::len word \<Rightarrow> 'a word \<Rightarrow> 'a word" where
  "BL_ALIGN_UP x y = (x + (y - 1)) AND NOT (y - 1)"

definition BL_ALIGN_DOWN :: "'a::len word \<Rightarrow> 'a word \<Rightarrow> 'a word" where
  "BL_ALIGN_DOWN x y = x AND NOT (y - 1)"

definition BL_MIN :: "'a::len word \<Rightarrow> 'a word \<Rightarrow> 'a word" where
  "BL_MIN x y = (if x \<le> y then x else y)"

definition BL_MAX :: "'a::len word \<Rightarrow> 'a word \<Rightarrow> 'a word" where
  "BL_MAX x y = (if x \<ge> y then x else y)"

text \<open>The macro's \<open>type\<close> and \<open>name\<close> arguments are the offset of the member.\<close>

definition BL_CONTAINER :: "u32 \<Rightarrow> u32 \<Rightarrow> u32" where
  "BL_CONTAINER offset ptr = (if ptr \<noteq> 0 then ptr - offset else 0)"

definition BlSwap16 :: "u16 \<Rightarrow> u16" where
  "BlSwap16 x = drop_bit 8 x OR push_bit 8 (x AND 0xff)"

definition BlSwap32 :: "u32 \<Rightarrow> u32" where
  "BlSwap32 x = drop_bit 24 x OR push_bit 24 (x AND 0xff) OR push_bit 8 (x AND 0xff00)
     OR drop_bit 8 (x AND 0xff0000)"

definition BlSwap64 :: "u64 \<Rightarrow> u64" where
  "BlSwap64 x = drop_bit 56 x OR push_bit 56 (x AND 0xff) OR push_bit 40 (x AND 0xff00)
     OR drop_bit 40 (x AND 0xff0000000000) OR push_bit 24 (x AND 0xff0000)
     OR drop_bit 24 (x AND 0xff000000000000) OR push_bit 8 (x AND 0xff000000)
     OR drop_bit 8 (x AND 0xff00000000)"

definition BL_LE16 :: "u16 \<Rightarrow> u16" where "BL_LE16 x = x"
definition BL_LE32 :: "u32 \<Rightarrow> u32" where "BL_LE32 x = x"
definition BL_LE64 :: "u64 \<Rightarrow> u64" where "BL_LE64 x = x"
definition BL_BE16 :: "u16 \<Rightarrow> u16" where "BL_BE16 x = BlSwap16 x"
definition BL_BE32 :: "u32 \<Rightarrow> u32" where "BL_BE32 x = BlSwap32 x"
definition BL_BE64 :: "u64 \<Rightarrow> u64" where "BL_BE64 x = BlSwap64 x"

definition BlCountTrailingZeroes :: "u32 \<Rightarrow> int" where
  "BlCountTrailingZeroes value =
     (let count = 0;
          (count, value) = (if value AND 0xffff = 0 then (count + 16, drop_bit 16 value) else (count, value));
          (count, value) = (if value AND 0xff = 0 then (count + 8, drop_bit 8 value) else (count, value));
          (count, value) = (if value AND 0xf = 0 then (count + 4, drop_bit 4 value) else (count, value));
          (count, value) = (if value AND 3 = 0 then (count + 2, drop_bit 2 value) else (count, value))
      in if value AND 1 = 0 then count + 1 else count)"

section \<open>Alignment\<close>

lemma BL_ALIGN_UP_DOWN: "BL_ALIGN_UP x y = BL_ALIGN_DOWN (x + (y - 1)) y"
  by (simp add: BL_ALIGN_UP_def BL_ALIGN_DOWN_def)

lemma and_not_pow2: "(x :: 'a::len word) AND NOT (2 ^ k - 1) = push_bit k (drop_bit k x)"
  by (rule bit_word_eqI)
     (auto simp: bit_simps simp flip: mask_eq_exp_minus_1 dest: bit_imp_le_length)

lemma unat_BL_ALIGN_DOWN [align_simps]:
  "k < LENGTH('a) \<Longrightarrow> unat (BL_ALIGN_DOWN (x :: 'a::len word) (2 ^ k)) = unat x div 2 ^ k * 2 ^ k"
proof -
  have "unat (push_bit k (drop_bit k x)) = take_bit LENGTH('a) (unat x div 2 ^ k * 2 ^ k)"
    by (simp only: unsigned_push_bit_eq unsigned_drop_bit_eq)
       (simp add: push_bit_eq_mult drop_bit_eq_div take_bit_eq_mod unsigned_less)
  moreover have "unat x div 2 ^ k * 2 ^ k < 2 ^ LENGTH('a)"
    by (rule le_less_trans [OF div_times_less_eq_dividend unsigned_less])
  ultimately show ?thesis
    by (simp add: BL_ALIGN_DOWN_def and_not_pow2 take_bit_eq_mod)
qed

lemma unat_pow2: "k < LENGTH('a) \<Longrightarrow> unat (2 ^ k :: 'a::len word) = 2 ^ k"
  using unat_of_nat [of "2 ^ k", where 'a = 'a] by (simp add: take_bit_eq_mod)

lemma unat_BL_ALIGN_UP [align_simps]:
  assumes "k < LENGTH('a)" "unat x + (2 ^ k - 1) < 2 ^ LENGTH('a)"
  shows "unat (BL_ALIGN_UP (x :: 'a::len word) (2 ^ k)) = (unat x + (2 ^ k - 1)) div 2 ^ k * 2 ^ k"
proof -
  have "unat (2 ^ k - 1 :: 'a word) = 2 ^ k - 1"
    using assms(1) by (simp add: unat_sub word_le_nat_alt unat_pow2)
  then have "unat (x + (2 ^ k - 1)) = unat x + (2 ^ k - 1)"
    using assms(2) by (simp add: unat_word_ariths)
  then show ?thesis
    using assms(1) by (simp add: BL_ALIGN_UP_DOWN unat_BL_ALIGN_DOWN)
qed

lemma BL_ALIGN_UP_wraps:
  assumes "k < LENGTH('a)" "\<not> unat x + (2 ^ k - 1) < 2 ^ LENGTH('a)"
  shows "BL_ALIGN_UP (x :: 'a::len word) (2 ^ k) = 0"
proof -
  have "unat (2 ^ k - 1 :: 'a word) = 2 ^ k - 1"
    using assms(1) by (simp add: unat_sub word_le_nat_alt unat_pow2)
  then have "unat (x + (2 ^ k - 1)) = (unat x + (2 ^ k - 1)) mod 2 ^ LENGTH('a)"
    by (simp only: unat_word_ariths)
  also have "\<dots> = unat x + (2 ^ k - 1) - 2 ^ LENGTH('a)"
  proof -
    have "(2::nat) ^ k < 2 ^ LENGTH('a)" using assms(1) by (rule power_strict_increasing) simp
    moreover have "unat x < 2 ^ LENGTH('a)" by (rule unsigned_less)
    ultimately have "unat x + (2 ^ k - 1) - 2 ^ LENGTH('a) < 2 ^ LENGTH('a)" by linarith
    then show ?thesis using assms(2) by (simp only: not_less le_mod_geq mod_less)
  qed
  finally have sum: "unat (x + (2 ^ k - 1)) = unat x + (2 ^ k - 1) - 2 ^ LENGTH('a)" .
  have "unat x < 2 ^ LENGTH('a)" "0 < (2::nat) ^ k" by (rule unsigned_less) simp
  with sum have "unat (x + (2 ^ k - 1)) < 2 ^ k" by linarith
  then have "unat (BL_ALIGN_UP x (2 ^ k)) = 0"
    using assms(1) by (simp add: BL_ALIGN_UP_DOWN unat_BL_ALIGN_DOWN)
  then show ?thesis by (simp add: unat_eq_0)
qed

lemma align_nat_props:
  fixes n :: nat
  assumes "0 < q"
  shows "q dvd (n + (q - 1)) div q * q" "n \<le> (n + (q - 1)) div q * q"
    "(n + (q - 1)) div q * q < n + q"
    "q dvd z \<Longrightarrow> n \<le> z \<Longrightarrow> (n + (q - 1)) div q * q \<le> z"
proof -
  show "q dvd (n + (q - 1)) div q * q" by simp
  have "(n + (q - 1)) div q * q + (n + (q - 1)) mod q = n + (q - 1)" by simp
  moreover have "(n + (q - 1)) mod q < q" using assms by simp
  ultimately show "n \<le> (n + (q - 1)) div q * q" "(n + (q - 1)) div q * q < n + q"
    using assms by linarith+
  assume "q dvd z" "n \<le> z"
  then obtain t where "z = q * t" by (auto elim: dvdE)
  then have "n + (q - 1) < q * (t + 1)" using \<open>n \<le> z\<close> assms by simp
  then have "(n + (q - 1)) div q < t + 1"
    using less_mult_imp_div_less [of "n + (q - 1)" "t + 1" q] by (simp add: mult.commute)
  then show "(n + (q - 1)) div q * q \<le> z"
    using \<open>z = q * t\<close> by (metis Suc_eq_plus1 less_Suc_eq_le mult.commute mult_le_mono2)
qed

section \<open>Bits\<close>

text \<open>Swapping sends bit \<open>j\<close> of byte \<open>i\<close> to bit \<open>j\<close> of the mirrored byte.\<close>

lemma byte_masks:
  "(0xff :: 'a::len word) = mask 8"
  "(0xff00 :: 'a::len word) = push_bit 8 (mask 8)"
  "(0xff0000 :: 'a::len word) = push_bit 16 (mask 8)"
  by (simp_all add: mask_eq_exp_minus_1 push_bit_eq_mult)

lemma bit_and_byte:
  "bit ((x :: 'a::len word) AND push_bit s (mask 8)) n \<longleftrightarrow> bit x n \<and> s \<le> n \<and> n < s + 8"
  "bit (x AND mask 8) n \<longleftrightarrow> bit x n \<and> n < 8"
  by (auto simp: bit_simps dest: bit_imp_le_length)

lemma bit_push_word:
  "bit (push_bit k (x :: 'a::len word)) n \<longleftrightarrow> k \<le> n \<and> n < LENGTH('a) \<and> bit x (n - k)"
  by (auto simp: bit_simps)

lemmas swap_bits = bit_or_iff bit_drop_bit_eq bit_push_word bit_and_byte o_def

lemma byte_index:
  assumes "n < 8 * k"
  obtains i j :: nat where "n = 8 * i + j" "i < k" "j < 8"
proof
  show "n = 8 * (n div 8) + n mod 8" by simp
  show "n div 8 < k" using assms by (simp add: less_mult_imp_div_less mult.commute)
qed simp

lemma less_4_cases: "i < (4::nat) \<Longrightarrow> i = 0 \<or> i = 1 \<or> i = 2 \<or> i = 3"
  by arith

lemma bit_BlSwap16: "i < 2 \<Longrightarrow> j < 8 \<Longrightarrow> bit (BlSwap16 x) (8 * i + j) = bit x (8 * (1 - i) + j)"
  unfolding BlSwap16_def byte_masks swap_bits
  by (cases i) (auto simp: less_Suc_eq numeral_2_eq_2 dest: bit_imp_le_length)

lemma bit_BlSwap32: "i < 4 \<Longrightarrow> j < 8 \<Longrightarrow> bit (BlSwap32 x) (8 * i + j) = bit x (8 * (3 - i) + j)"
  unfolding BlSwap32_def byte_masks swap_bits
  by (drule less_4_cases, elim disjE) (auto dest: bit_imp_le_length)

lemma BlSwap16_involution [simp]: "BlSwap16 (BlSwap16 x) = x"
proof (rule bit_word_eqI)
  fix n assume "n < LENGTH(16)"
  then obtain i j where "n = 8 * i + j" "i < 2" "j < 8" by (auto intro: byte_index [of n 2])
  then show "bit (BlSwap16 (BlSwap16 x)) n = bit x n" by (simp add: bit_BlSwap16)
qed

lemma BlSwap32_involution [simp]: "BlSwap32 (BlSwap32 x) = x"
proof (rule bit_word_eqI)
  fix n assume "n < LENGTH(32)"
  then obtain i j where "n = 8 * i + j" "i < 4" "j < 8" by (auto intro: byte_index [of n 4])
  then show "bit (BlSwap32 (BlSwap32 x)) n = bit x n" by (simp add: bit_BlSwap32)
qed

text \<open>The lowest set bit, and one halving step of the count.\<close>

definition lowest_bit :: "u32 \<Rightarrow> nat \<Rightarrow> bool" where
  "lowest_bit v c \<longleftrightarrow> bit v c \<and> (\<forall>i<c. \<not> bit v i)"

lemma lowest_bit_exists:
  assumes "v \<noteq> 0"
  obtains c where "lowest_bit v c"
proof -
  have "\<exists>n. bit v n"
    using assms by (metis bit_eq_iff bit_0_eq bot_apply bot_bool_def)
  then show thesis
    using that unfolding lowest_bit_def by (metis exists_least_iff)
qed

lemma lowest_bit_less: "lowest_bit v c \<Longrightarrow> c < 32"
  using bit_imp_le_length [of v c] by (simp add: lowest_bit_def)

lemma ctz_step:
  assumes low: "lowest_bit v c"
    and step: "(if v AND mask n = 0 then (count + k, drop_bit n v) else (count, v)) = (count', v')"
    and k: "k = int n"
    and bound: "c < 2 * n"
  shows "\<exists>c'. lowest_bit v' c' \<and> count' + int c' = count + int c \<and> c' < n"
proof (cases "v AND mask n = 0")
  case True
  then have zero: "\<not> bit v i" if "i < n" for i
    using that by (metis bit_and_iff bit_mask_iff bit_0_eq bot_apply bot_bool_def
        bit_imp_le_length possible_bit_def possible_bit_word not_le)
  then have "n \<le> c" using low by (auto simp: lowest_bit_def not_less [symmetric])
  then have "lowest_bit (drop_bit n v) (c - n)"
    using low by (auto simp: lowest_bit_def bit_drop_bit_eq)
  then show ?thesis using True step bound k \<open>n \<le> c\<close> by (intro exI [of _ "c - n"]) auto
next
  case False
  then have "\<exists>i. bit (v AND mask n) i"
    by (metis bit_eq_iff bit_0_eq bot_apply bot_bool_def)
  then obtain i where "i < n" "bit v i" by (auto simp: bit_simps)
  then have "c < n" using low by (metis lowest_bit_def not_less_iff_gr_or_eq order.strict_trans)
  then show ?thesis using False step low by auto
qed

lemma drop_bit_1_low: "v AND mask (Suc 0) = 0 \<longleftrightarrow> \<not> bit v 0"
  by (auto simp: and_one_eq even_iff_mod_2_eq_zero bit_0 mask_Suc_0)

lemma BlCountTrailingZeroes_lowest:
  assumes low: "lowest_bit v c"
  shows "BlCountTrailingZeroes v = int c"
proof -
  obtain n1 v1 where s1: "(if v AND mask 16 = 0 then ((0::int) + 16, drop_bit 16 v) else (0, v)) = (n1, v1)"
    by (metis surj_pair)
  obtain n2 v2 where s2: "(if v1 AND mask 8 = 0 then (n1 + 8, drop_bit 8 v1) else (n1, v1)) = (n2, v2)"
    by (metis surj_pair)
  obtain n3 v3 where s3: "(if v2 AND mask 4 = 0 then (n2 + 4, drop_bit 4 v2) else (n2, v2)) = (n3, v3)"
    by (metis surj_pair)
  obtain n4 v4 where s4: "(if v3 AND mask 2 = 0 then (n3 + 2, drop_bit 2 v3) else (n3, v3)) = (n4, v4)"
    by (metis surj_pair)
  obtain c1 where c1: "lowest_bit v1 c1" "n1 + int c1 = int c" "c1 < 16"
    using ctz_step [OF low s1] lowest_bit_less [OF low] by auto
  obtain c2 where c2: "lowest_bit v2 c2" "n2 + int c2 = int c" "c2 < 8"
    using ctz_step [OF c1(1) s2] c1 by auto
  obtain c3 where c3: "lowest_bit v3 c3" "n3 + int c3 = int c" "c3 < 4"
    using ctz_step [OF c2(1) s3] c2 by auto
  obtain c4 where c4: "lowest_bit v4 c4" "n4 + int c4 = int c" "c4 < 2"
    using ctz_step [OF c3(1) s4] c3 by auto
  have "c4 = 0 \<longleftrightarrow> bit v4 0"
    using c4(1) by (auto simp: lowest_bit_def)
  then have last: "(if v4 AND 1 = 0 then n4 + 1 else n4) = int c"
    using c4(2,3) by (auto simp: and_one_eq bit_0 even_iff_mod_2_eq_zero)
  have masks: "(0xffff :: u32) = mask 16" "(0xff :: u32) = mask 8" "(0xf :: u32) = mask 4" "(3 :: u32) = mask 2"
    by (simp_all add: mask_eq_exp_minus_1)
  show ?thesis
    unfolding BlCountTrailingZeroes_def masks Let_def s1 s2 s3 s4 prod.case by (rule last)
qed

lemma BlCountTrailingZeroes_0: "BlCountTrailingZeroes 0 = 31"
  by (simp add: BlCountTrailingZeroes_def)

section \<open>Properties\<close>

text \<open>
  C30. Aligning up to a power of two gives the least multiple that is not below the value; where
  that multiple is not representable the result is 0, which callers that add no check of their
  own take for a valid size or address.
\<close>

theorem BL_ALIGN_UP_least:
  assumes "k < LENGTH('a::len)"
  shows "if unat (x :: 'a word) + (2 ^ k - 1) < 2 ^ LENGTH('a)
    then 2 ^ k dvd unat (BL_ALIGN_UP x (2 ^ k)) \<and> unat x \<le> unat (BL_ALIGN_UP x (2 ^ k))
      \<and> (\<forall>z. 2 ^ k dvd z \<and> unat x \<le> z \<longrightarrow> unat (BL_ALIGN_UP x (2 ^ k)) \<le> z)
    else BL_ALIGN_UP x (2 ^ k) = 0"
proof (cases "unat x + (2 ^ k - 1) < 2 ^ LENGTH('a)")
  case True
  have pos: "0 < (2 :: nat) ^ k" by simp
  show ?thesis
    unfolding unat_BL_ALIGN_UP [OF assms True] if_P [OF True]
    using align_nat_props [where n = "unat x", OF pos] by blast
qed (simp add: BL_ALIGN_UP_wraps assms)

theorem BL_ALIGN_UP_least_witness:
  "unat (BL_ALIGN_UP (4097 :: u32) (2 ^ 12)) = 8192 \<and> BL_ALIGN_UP (0xfffffffe :: u32) (2 ^ 2) = 0
    \<and> 2 ^ 12 dvd unat (BL_ALIGN_UP (4097 :: u32) (2 ^ 12))"
  using BL_ALIGN_UP_least [where 'a = 32, of 12 4097] BL_ALIGN_UP_least [where 'a = 32, of 2 "0xfffffffe"]
  by (simp add: BL_ALIGN_UP_def)

text \<open>
  C31. The staged count of trailing zeroes is the index of the lowest set bit; zero, which has
  none, counts as 31.
\<close>

theorem BlCountTrailingZeroes_correct:
  "BlCountTrailingZeroes v = (if v = 0 then 31 else int (LEAST i. bit v i))"
proof (cases "v = 0")
  case False
  then obtain c where c: "lowest_bit v c" by (rule lowest_bit_exists)
  then have "(LEAST i. bit v i) = c"
    unfolding lowest_bit_def by (intro Least_equality) (auto simp: not_less [symmetric])
  with c False show ?thesis by (simp add: BlCountTrailingZeroes_lowest)
qed (simp add: BlCountTrailingZeroes_0)

end
