(* ===== verification/Intrinsics.thy ===== *)
theory Intrinsics
  imports Compiler
begin

text \<open>
  The memory and string routines of \<^verbatim>\<open>bootloader/intrinsics.c\<close> over the byte memory, one
  recursion per loop. Pointers and counts are 32-bit words and wrap as the code's do. The two
  string loops stop only at a terminator, so they are partial.
\<close>

section \<open>Definitions\<close>

lemma unat_pred_less [termination_simp]: "(c :: u32) \<noteq> 0 \<Longrightarrow> unat (c - 1) < unat c"
  by (metis diff_less unat_gt_0 unat_minus_one zero_less_one)

function memcmp :: "mem \<Rightarrow> u32 \<Rightarrow> u32 \<Rightarrow> u32 \<Rightarrow> int" where
  "memcmp m b1 b2 count =
     (if count = 0 then 0
      else let diff = uint (m b1) - uint (m b2)
           in if diff \<noteq> 0 then diff else memcmp m (b1 + 1) (b2 + 1) (count - 1))"
  by pat_completeness auto
termination
  by (relation "measure (\<lambda>(m, b1, b2, count). unat count)") (auto simp: unat_pred_less)

function copy_up :: "mem \<Rightarrow> u32 \<Rightarrow> u32 \<Rightarrow> u32 \<Rightarrow> mem" where
  "copy_up m d s count =
     (if count = 0 then m else copy_up (m(d := m s)) (d + 1) (s + 1) (count - 1))"
  by pat_completeness auto
termination
  by (relation "measure (\<lambda>(m, d, s, count). unat count)") (auto simp: unat_pred_less)

function copy_down :: "mem \<Rightarrow> u32 \<Rightarrow> u32 \<Rightarrow> u32 \<Rightarrow> mem" where
  "copy_down m d s count =
     (if count = 0 then m else copy_down (m(d - 1 := m (s - 1))) (d - 1) (s - 1) (count - 1))"
  by pat_completeness auto
termination
  by (relation "measure (\<lambda>(m, d, s, count). unat count)") (auto simp: unat_pred_less)

definition memcpy :: "mem \<Rightarrow> u32 \<Rightarrow> u32 \<Rightarrow> u32 \<Rightarrow> mem" where
  "memcpy m dest src count = copy_up m dest src count"

definition memmove :: "mem \<Rightarrow> u32 \<Rightarrow> u32 \<Rightarrow> u32 \<Rightarrow> mem" where
  "memmove m dest src count =
     (if dest < src then copy_up m dest src count
      else copy_down m (dest + count) (src + count) count)"

function fill_up :: "mem \<Rightarrow> u32 \<Rightarrow> u8 \<Rightarrow> u32 \<Rightarrow> mem" where
  "fill_up m d f count = (if count = 0 then m else fill_up (m(d := f)) (d + 1) f (count - 1))"
  by pat_completeness auto
termination
  by (relation "measure (\<lambda>(m, d, f, count). unat count)") (auto simp: unat_pred_less)

definition memset :: "mem \<Rightarrow> u32 \<Rightarrow> u32 \<Rightarrow> u32 \<Rightarrow> mem" where
  "memset m dest value count = fill_up m dest (ucast value) count"

partial_function (option) strcmp :: "mem \<Rightarrow> u32 \<Rightarrow> u32 \<Rightarrow> int option" where
  "strcmp m s1 s2 =
     (let c1 = uint (m s1); c2 = uint (m s2); diff = c1 - c2
      in if diff \<noteq> 0 then Some diff else if c1 = 0 then Some 0 else strcmp m (s1 + 1) (s2 + 1))"

partial_function (option) strlen_from :: "mem \<Rightarrow> u32 \<Rightarrow> u32 \<Rightarrow> u32 option" where
  "strlen_from m str len =
     (if m str \<noteq> 0 then strlen_from m (str + 1) (len + 1) else Some len)"

definition strlen :: "mem \<Rightarrow> u32 \<Rightarrow> u32 option" where
  "strlen m str = strlen_from m str 0"

text \<open>The boot loader's own names for these routines (\<^verbatim>\<open>compiler.h\<close>).\<close>

definition BlCompareMemory :: "mem \<Rightarrow> u32 \<Rightarrow> u32 \<Rightarrow> u32 \<Rightarrow> int" where
  "BlCompareMemory m s1 s2 count = memcmp m s1 s2 count"

definition BlCopyMemory :: "mem \<Rightarrow> u32 \<Rightarrow> u32 \<Rightarrow> u32 \<Rightarrow> mem" where
  "BlCopyMemory m dest src count = memcpy m dest src count"

definition BlCopyMemoryOverlapping :: "mem \<Rightarrow> u32 \<Rightarrow> u32 \<Rightarrow> u32 \<Rightarrow> mem" where
  "BlCopyMemoryOverlapping m dest src count = memmove m dest src count"

definition BlCompareStrings :: "mem \<Rightarrow> u32 \<Rightarrow> u32 \<Rightarrow> int option" where
  "BlCompareStrings m s1 s2 = strcmp m s1 s2"

definition BlFillMemory :: "mem \<Rightarrow> u32 \<Rightarrow> u8 \<Rightarrow> u32 \<Rightarrow> mem" where
  "BlFillMemory m dest value count = memset m dest (ucast value) count"

definition BlStringLength :: "mem \<Rightarrow> u32 \<Rightarrow> u32 option" where
  "BlStringLength m str = strlen m str"

declare memcmp.simps [simp del] copy_up.simps [simp del] copy_down.simps [simp del]
  fill_up.simps [simp del]

section \<open>Copying and filling\<close>

lemma of_nat_Suc_neq_0: "Suc n < 2 ^ 32 \<Longrightarrow> (of_nat (Suc n) :: u32) \<noteq> 0"
  by (simp add: word_of_nat_eq_0_iff dvd_imp_le nat_dvd_not_less del: of_nat_Suc)

lemma of_nat_Suc_pred: "(of_nat (Suc n) :: u32) - 1 = of_nat n"
  by simp

text \<open>
  Copying upwards is right when no byte is overwritten before it is read: the destination's
  first byte is not among the source bytes still to come.
\<close>

lemma copy_up_store:
  "n < 2 ^ 32 \<Longrightarrow> n \<le> Suc (unat (d - s - 1)) \<Longrightarrow>
    copy_up m d s (of_nat n) = store_bytes m d (load_bytes m s n)"
proof (induction n arbitrary: m d s)
  case 0
  then show ?case by (simp add: copy_up.simps)
next
  case (Suc n)
  have "d \<notin> span (s + 1) n"
    using Suc.prems(2) by (simp add: span_def diff_diff_eq)
  then have src: "load_bytes (m(d := m s)) (s + 1) n = load_bytes m (s + 1) n"
    using Suc.prems(1) by (intro load_bytes_same_on) (auto simp: same_on_def)
  have "copy_up m d s (of_nat (Suc n)) = copy_up (m(d := m s)) (d + 1) (s + 1) (of_nat n)"
    using of_nat_Suc_neq_0 [OF Suc.prems(1)] of_nat_Suc_pred [of n]
    by (subst copy_up.simps) (simp del: of_nat_Suc)
  also have "\<dots> = store_bytes (m(d := m s)) (d + 1) (load_bytes m (s + 1) n)"
    using Suc.IH [of "d + 1" "s + 1" "m(d := m s)"] Suc.prems src by (simp del: fun_upd_apply)
  also have "\<dots> = store_bytes m d (load_bytes m s (Suc n))"
    using Suc.prems(1) by (simp add: store_bytes_Cons load_bytes_Suc)
  finally show ?case .
qed

lemma store_bytes_snoc:
  assumes "length bs < 2 ^ 32"
  shows "store_bytes (m(a + of_nat (length bs) := b)) a bs = store_bytes m a (bs @ [b])"
proof
  fix x
  show "store_bytes (m(a + of_nat (length bs) := b)) a bs x = store_bytes m a (bs @ [b]) x"
  proof (cases "x = a + of_nat (length bs)")
    case True
    then have "unat (x - a) = length bs" using assms by (simp add: unat_of_nat take_bit_eq_mod)
    with True show ?thesis by (simp add: store_bytes_def)
  next
    case False
    have "unat (x - a) \<noteq> length bs"
    proof
      assume "unat (x - a) = length bs"
      moreover have "x = a + of_nat (unat (x - a))" by simp
      ultimately have "x = a + of_nat (length bs)" by simp
      with False show False by simp
    qed
    with False show ?thesis by (simp add: store_bytes_def nth_append)
  qed
qed

lemma store_bytes_upd:
  assumes "length bs < 2 ^ 32"
  shows "(store_bytes m a bs)(a + of_nat (length bs) := b) = store_bytes m a (bs @ [b])"
  unfolding store_bytes_snoc [OF assms, symmetric]
  using assms by (intro ext) (auto simp: store_bytes_def unat_of_nat take_bit_eq_mod)

lemma load_bytes_snoc: "load_bytes m a (Suc n) = load_bytes m a n @ [m (a + of_nat n)]"
  by (simp add: load_bytes_def)

lemma copy_down_store:
  "n < 2 ^ 32 \<Longrightarrow> unat (d - s) + n \<le> 2 ^ 32 \<Longrightarrow>
    copy_down m (d + of_nat n) (s + of_nat n) (of_nat n) = store_bytes m d (load_bytes m s n)"
proof (induction n arbitrary: m)
  case 0
  then show ?case by (simp add: copy_down.simps)
next
  case (Suc n)
  let ?m = "m(d + of_nat n := m (s + of_nat n))"
  have "d + of_nat n \<notin> span s n"
  proof -
    have "unat (d - s + of_nat n) = unat (d - s) + n"
      using Suc.prems by (simp add: unat_word_ariths unat_of_nat take_bit_eq_mod)
    then show ?thesis by (simp add: span_def algebra_simps)
  qed
  then have src: "load_bytes ?m s n = load_bytes m s n"
    using Suc.prems(1) by (intro load_bytes_same_on) (auto simp: same_on_def)
  have "copy_down m (d + of_nat (Suc n)) (s + of_nat (Suc n)) (of_nat (Suc n))
      = copy_down ?m (d + of_nat n) (s + of_nat n) (of_nat n)"
    using of_nat_Suc_neq_0 [OF Suc.prems(1)] of_nat_Suc_pred [of n]
    by (subst copy_down.simps) (simp add: algebra_simps)
  also have "\<dots> = store_bytes ?m d (load_bytes m s n)"
    using Suc.IH [of ?m] Suc.prems src by (simp del: fun_upd_apply)
  also have "\<dots> = store_bytes m d (load_bytes m s (Suc n))"
    using Suc.prems(1) store_bytes_snoc [of "load_bytes m s n" m d "m (s + of_nat n)"]
    by (simp add: load_bytes_snoc)
  finally show ?case .
qed

lemma unat_diff_le: "(b :: u32) \<le> a \<Longrightarrow> unat (a - b) = unat a - unat b"
  by (simp add: unat_sub)

lemma memmove_store_bytes:
  assumes "fits dest (unat count)" "fits src (unat count)"
  shows "memmove m dest src count = store_bytes m dest (load_bytes m src (unat count))"
proof (cases "dest < src")
  case True
  have "unat (src - dest) + unat count \<le> 2 ^ 32"
    using True assms(2) by (simp add: unat_diff_le fits_def)
  moreover have "unat (dest - src - 1) = 2 ^ 32 - 1 - unat (src - dest)"
  proof -
    have flip: "dest - src - 1 = - 1 - (src - dest)" by simp
    have "unat (- 1 - (src - dest)) = unat (- 1 :: u32) - unat (src - dest)"
      by (rule unat_sub) simp
    then show ?thesis
      unfolding flip by (simp only: unsigned_minus_1_eq_mask) (simp add: mask_eq_exp_minus_1)
  qed
  ultimately have "unat count \<le> Suc (unat (dest - src - 1))" by linarith
  then have "copy_up m dest src (of_nat (unat count)) = store_bytes m dest (load_bytes m src (unat count))"
    using unat_lt32 [of count] by (intro copy_up_store) simp_all
  with True show ?thesis by (simp add: memmove_def)
next
  case False
  have "unat (dest - src) + unat count \<le> 2 ^ 32"
    using False assms(1) by (simp add: unat_diff_le fits_def)
  then have "copy_down m (dest + of_nat (unat count)) (src + of_nat (unat count)) (of_nat (unat count))
      = store_bytes m dest (load_bytes m src (unat count))"
    using unat_lt32 [of count] by (intro copy_down_store) simp_all
  with False show ?thesis by (simp add: memmove_def)
qed

lemma memcpy_store_bytes:
  assumes "fits dest (unat count)" "fits src (unat count)"
    and "span dest (unat count) \<inter> span src (unat count) = {}"
  shows "memcpy m dest src count = store_bytes m dest (load_bytes m src (unat count))"
proof (cases "count = 0")
  case False
  then have "dest \<in> span dest (unat count)" by (simp add: unat_gt_0)
  with assms(3) have "dest \<notin> span src (unat count)" by blast
  then have "unat (dest - src) \<ge> unat count" by (simp add: span_def)
  moreover have "unat (dest - src - 1) = unat (dest - src) - 1"
    using False calculation by (metis le_zero_eq unat_eq_0 unat_minus_one)
  ultimately have "unat count \<le> Suc (unat (dest - src - 1))" by linarith
  then have "copy_up m dest src (of_nat (unat count)) = store_bytes m dest (load_bytes m src (unat count))"
    using unat_lt32 [of count] by (intro copy_up_store) simp_all
  then show ?thesis by (simp add: memcpy_def)
qed (simp add: memcpy_def copy_up.simps)

lemma fill_up_store:
  "n < 2 ^ 32 \<Longrightarrow> fill_up m d f (of_nat n) = store_bytes m d (replicate n f)"
proof (induction n arbitrary: m d)
  case (Suc n)
  then show ?case
    using of_nat_Suc_neq_0 [OF Suc.prems] of_nat_Suc_pred [of n]
    by (subst fill_up.simps) (simp add: store_bytes_Cons)
qed (simp add: fill_up.simps)

lemma BlFillMemory_store_bytes: "BlFillMemory m d f count = store_bytes m d (replicate (unat count) f)"
proof -
  have "ucast (ucast f :: u32) = f" by (rule bit_word_eqI) (auto simp: bit_simps)
  then show ?thesis
    using fill_up_store [of "unat count" m d f] unat_lt32 [of count]
    by (simp add: BlFillMemory_def memset_def)
qed

section \<open>Comparing, and strings\<close>

text \<open>A terminated string at an address, its bytes without the terminator.\<close>

fun c_string :: "mem \<Rightarrow> u32 \<Rightarrow> u8 list \<Rightarrow> bool" where
  "c_string m a [] \<longleftrightarrow> m a = 0"
| "c_string m a (b # bs) \<longleftrightarrow> b \<noteq> 0 \<and> m a = b \<and> c_string m (a + 1) bs"

lemma uint_diff_iff:
  "uint (x :: u8) - uint y = 0 \<longleftrightarrow> x = y" "uint x - uint y < 0 \<longleftrightarrow> x < y"
  "uint x = uint y \<longleftrightarrow> x = y" "uint x < uint y \<longleftrightarrow> x < y"
  by (auto simp: word_less_def word_uint_eq_iff)

lemma memcmp_load_bytes:
  "n < 2 ^ 32 \<Longrightarrow>
    (memcmp m a b (of_nat n) = 0 \<longleftrightarrow> load_bytes m a n = load_bytes m b n)
    \<and> (memcmp m a b (of_nat n) < 0 \<longleftrightarrow> ord_class.lexordp (load_bytes m a n) (load_bytes m b n))"
proof (induction n arbitrary: a b)
  case 0
  then show ?case by (simp add: memcmp.simps)
next
  case (Suc n)
  have step: "memcmp m a b (of_nat (Suc n)) =
      (if m a \<noteq> m b then uint (m a) - uint (m b) else memcmp m (a + 1) (b + 1) (of_nat n))"
    using of_nat_Suc_neq_0 [OF Suc.prems] of_nat_Suc_pred [of n]
    by (subst memcmp.simps) (simp add: Let_def uint_diff_iff del: of_nat_Suc)
  show ?case
    unfolding step load_bytes_Suc using Suc.IH [of "a + 1" "b + 1"] Suc.prems
    by (auto simp: uint_diff_iff)
qed

lemma strlen_from_c_string: "c_string m a bs \<Longrightarrow> strlen_from m a k = Some (k + of_nat (length bs))"
  by (induction bs arbitrary: a k) (simp_all add: strlen_from.simps add.assoc)

lemma BlStringLength_c_string: "c_string m a bs \<Longrightarrow> BlStringLength m a = Some (of_nat (length bs))"
  by (simp add: BlStringLength_def strlen_def strlen_from_c_string)

lemma c_string_load_bytes: "c_string m a bs \<Longrightarrow> load_bytes m a (length bs) = bs"
  by (induction bs arbitrary: a) (simp_all add: load_bytes_Suc)

lemma strcmp_c_string:
  "c_string m a bs \<Longrightarrow> c_string m b cs \<Longrightarrow>
    \<exists>r. strcmp m a b = Some r \<and> (r = 0 \<longleftrightarrow> bs = cs) \<and> (r < 0 \<longleftrightarrow> ord_class.lexordp bs cs)"
proof (induction bs arbitrary: a b cs)
  case Nil
  then show ?case
    by (cases cs) (auto simp: strcmp.simps [of m a b] word_neq_0_conv word_less_def Let_def)
next
  case (Cons x xs)
  show ?case
  proof (cases cs)
    case Nil
    with Cons.prems show ?thesis
      by (auto simp: strcmp.simps [of m a b] word_neq_0_conv word_less_def Let_def)
  next
    case (Cons y ys)
    show ?thesis
    proof (cases "x = y")
      case True
      with Cons.prems Cons have "c_string m (a + 1) xs" "c_string m (b + 1) ys"
        and step: "strcmp m a b = strcmp m (a + 1) (b + 1)"
        by (auto simp: strcmp.simps [of m a b] word_neq_0_conv word_less_def Let_def)
      from Cons.IH [OF this(1,2)] show ?thesis using True Cons step by auto
    next
      case False
      with Cons.prems Cons show ?thesis
        by (auto simp: strcmp.simps [of m a b] uint_diff_iff Let_def)
    qed
  qed
qed

section \<open>Properties\<close>

text \<open>
  C28. \<open>memmove\<close> moves the source bytes to the destination whichever way the two areas
  overlap, and changes nothing else; \<open>memcpy\<close> does so for areas that do not overlap.
\<close>

theorem memmove_correct:
  assumes "fits dest (unat count)" "fits src (unat count)"
  shows "load_bytes (memmove m dest src count) dest (unat count) = load_bytes m src (unat count)
    \<and> same_outside (span dest (unat count)) m (memmove m dest src count)
    \<and> (span dest (unat count) \<inter> span src (unat count) = {}
        \<longrightarrow> memcpy m dest src count = memmove m dest src count)"
  using load_store_bytes [of "load_bytes m src (unat count)" m dest] unat_lt32 [of count]
    store_bytes_same_outside [of dest "load_bytes m src (unat count)" m] assms
  by (simp add: memmove_store_bytes memcpy_store_bytes)

theorem memmove_correct_witness:
  "let m = (\<lambda>x. ucast x) :: mem
   in load_bytes (memmove m 12 10 4) 12 4 = [10, 11, 12, 13]
     \<and> load_bytes (memmove m 8 10 4) 8 4 = [10, 11, 12, 13]"
  using memmove_correct [of 12 4 10 "\<lambda>x. ucast x"] memmove_correct [of 8 4 10 "\<lambda>x. ucast x"]
  by (simp add: fits_def load_bytes_def upt_rec)

text \<open>
  C29. \<open>memcmp\<close> and \<open>strcmp\<close> order byte strings lexicographically by unsigned bytes (a
  negative result is "before", zero is "equal"), and \<open>strlen\<close> counts the bytes before the
  terminator; on terminated strings both string routines return.
\<close>

theorem compare_correct:
  assumes "c_string m a bs" "c_string m b cs"
  shows "(\<exists>r. BlCompareStrings m a b = Some r \<and> (r = 0 \<longleftrightarrow> bs = cs) \<and> (r < 0 \<longleftrightarrow> ord_class.lexordp bs cs))
    \<and> BlStringLength m a = Some (of_nat (length bs))
    \<and> (\<forall>x y n. (BlCompareMemory m x y n = 0 \<longleftrightarrow> load_bytes m x (unat n) = load_bytes m y (unat n))
        \<and> (BlCompareMemory m x y n < 0 \<longleftrightarrow> ord_class.lexordp (load_bytes m x (unat n)) (load_bytes m y (unat n))))"
proof (intro conjI allI)
  fix x y n
  from memcmp_load_bytes [OF unat_lt32 [of n], of m x y]
  show "BlCompareMemory m x y n = 0 \<longleftrightarrow> load_bytes m x (unat n) = load_bytes m y (unat n)"
    and "BlCompareMemory m x y n < 0 \<longleftrightarrow> ord_class.lexordp (load_bytes m x (unat n)) (load_bytes m y (unat n))"
    by (simp_all add: BlCompareMemory_def)
qed (use assms strcmp_c_string BlStringLength_c_string in \<open>auto simp: BlCompareStrings_def\<close>)

theorem compare_correct_witness:
  "let m = store_bytes (\<lambda>_. 0) 16 [97, 98, 0, 97, 200]
   in (\<exists>r. BlCompareStrings m 16 19 = Some r \<and> r < 0) \<and> BlStringLength m 16 = Some 2"
proof -
  let ?m = "store_bytes (\<lambda>_. 0) 16 [97, 98, 0, 97, 200]"
  have "c_string ?m 16 [97, 98]" "c_string ?m 19 [97, 200]" by (simp_all add: store_bytes_def)
  from compare_correct [OF this] show ?thesis by (auto simp: Let_def)
qed

end
