(* ===== verification/Linked_List.thy ===== *)
theory Linked_List
  imports Intrinsics
begin

text \<open>
  The intrusive doubly linked list of \<^verbatim>\<open>bootloader/list.h\<close>. A node is two pointers in
  memory (\<open>Prev\<close> at its address, \<open>Next\<close> four bytes on); a list is a pair of pointers. The
  interface locale \<open>node_list\<close> states what the operations promise over a sequence of node
  addresses, and the model of the code interprets it.
\<close>

section \<open>Definitions\<close>

record BlList =
  Head :: u32
  Tail :: u32

definition NodePrev :: "mem \<Rightarrow> u32 \<Rightarrow> u32" where "NodePrev m n = load32 m n"
definition NodeNext :: "mem \<Rightarrow> u32 \<Rightarrow> u32" where "NodeNext m n = load32 m (n + 4)"
definition set_NodePrev :: "mem \<Rightarrow> u32 \<Rightarrow> u32 \<Rightarrow> mem" where "set_NodePrev m n v = store32 m n v"
definition set_NodeNext :: "mem \<Rightarrow> u32 \<Rightarrow> u32 \<Rightarrow> mem" where "set_NodeNext m n v = store32 m (n + 4) v"

definition BlListInit :: BlList where
  "BlListInit = \<lparr>Head = 0, Tail = 0\<rparr>"

definition BlListInsertBefore :: "BlList \<Rightarrow> u32 \<Rightarrow> u32 \<Rightarrow> mem \<Rightarrow> BlList \<times> mem" where
  "BlListInsertBefore list anchor node m =
     (let m = set_NodeNext m node anchor;
          (list, m) =
            (if anchor \<noteq> 0
             then let m = set_NodePrev m node (NodePrev m anchor); m = set_NodePrev m anchor node
                  in (list, m)
             else let m = set_NodePrev m node (Tail list) in (list\<lparr>Tail := node\<rparr>, m))
      in if NodePrev m node \<noteq> 0 then (list, set_NodeNext m (NodePrev m node) node)
         else (list\<lparr>Head := node\<rparr>, m))"

definition BlListInsertAfter :: "BlList \<Rightarrow> u32 \<Rightarrow> u32 \<Rightarrow> mem \<Rightarrow> BlList \<times> mem" where
  "BlListInsertAfter list anchor node m =
     (let m = set_NodePrev m node anchor;
          (list, m) =
            (if anchor \<noteq> 0
             then let m = set_NodeNext m node (NodeNext m anchor); m = set_NodeNext m anchor node
                  in (list, m)
             else let m = set_NodeNext m node (Head list) in (list\<lparr>Head := node\<rparr>, m))
      in if NodeNext m node \<noteq> 0 then (list, set_NodePrev m (NodeNext m node) node)
         else (list\<lparr>Tail := node\<rparr>, m))"

definition BlListRemove :: "BlList \<Rightarrow> u32 \<Rightarrow> mem \<Rightarrow> BlList \<times> mem" where
  "BlListRemove list node m =
     (let (list, m) =
            (if NodePrev m node \<noteq> 0 then (list, set_NodeNext m (NodePrev m node) (NodeNext m node))
             else (list\<lparr>Head := NodeNext m node\<rparr>, m))
      in if NodeNext m node \<noteq> 0 then (list, set_NodePrev m (NodeNext m node) (NodePrev m node))
         else (list\<lparr>Tail := NodePrev m node\<rparr>, m))"

section \<open>The sequence a list stands for\<close>

definition head_or :: "u32 list \<Rightarrow> u32 \<Rightarrow> u32" where
  "head_or ns q = (if ns = [] then q else hd ns)"

definition last_or :: "u32 \<Rightarrow> u32 list \<Rightarrow> u32" where
  "last_or p ns = (if ns = [] then p else last ns)"

fun links :: "mem \<Rightarrow> u32 \<Rightarrow> u32 list \<Rightarrow> u32 \<Rightarrow> bool" where
  "links m p [] q \<longleftrightarrow> True"
| "links m p (n # ns) q \<longleftrightarrow> NodePrev m n = p \<and> NodeNext m n = head_or ns q \<and> links m n ns q"

definition node_span :: "u32 set \<Rightarrow> u32 set" where
  "node_span N = (\<Union>n\<in>N. span n 8)"

definition nodes_apart :: "u32 set \<Rightarrow> bool" where
  "nodes_apart N \<longleftrightarrow> 0 \<notin> N \<and> (\<forall>a\<in>N. \<forall>b\<in>N. a \<noteq> b \<longrightarrow> span a 8 \<inter> span b 8 = {})"

definition list_rep :: "mem \<Rightarrow> BlList \<Rightarrow> u32 list \<Rightarrow> bool" where
  "list_rep m l ns \<longleftrightarrow> distinct ns \<and> nodes_apart (set ns)
     \<and> Head l = head_or ns 0 \<and> Tail l = last_or 0 ns \<and> links m 0 ns 0"

text \<open>The abstract operations; the anchor 0 stands for the list's end.\<close>

fun ins_after :: "u32 \<Rightarrow> u32 \<Rightarrow> u32 list \<Rightarrow> u32 list" where
  "ins_after a n [] = [n]"
| "ins_after a n (x # xs) = (if a = 0 then n # x # xs else if x = a then x # n # xs else x # ins_after a n xs)"

fun ins_before :: "u32 \<Rightarrow> u32 \<Rightarrow> u32 list \<Rightarrow> u32 list" where
  "ins_before a n [] = [n]"
| "ins_before a n (x # xs) = (if x = a then n # x # xs else x # ins_before a n xs)"

lemma head_or_simps [simp]: "head_or [] q = q" "head_or (n # ns) q = n" "head_or (xs @ ys) q = head_or xs (head_or ys q)"
  by (simp_all add: head_or_def)

lemma last_or_simps [simp]: "last_or p [] = p" "last_or p (n # ns) = last_or n ns"
    "last_or p (xs @ ys) = last_or (last_or p xs) ys"
  by (simp_all add: last_or_def)

lemma last_or_in: "ns \<noteq> [] \<Longrightarrow> last_or p ns \<in> set ns"
  by (simp add: last_or_def)

lemma head_or_in: "ns \<noteq> [] \<Longrightarrow> head_or ns q \<in> set ns"
  by (simp add: head_or_def)

lemma links_append [simp]:
  "links m p (xs @ ys) q \<longleftrightarrow> links m p xs (head_or ys q) \<and> links m (last_or p xs) ys q"
  by (induction xs arbitrary: p) auto

lemma links_cong:
  "\<forall>n\<in>set ns. NodePrev m' n = NodePrev m n \<and> NodeNext m' n = NodeNext m n \<Longrightarrow> links m' p ns q = links m p ns q"
  by (induction ns arbitrary: p) auto

section \<open>Field updates over a set of nodes that do not overlap\<close>

lemma span_node_fields: "span n 4 \<subseteq> span n 8" "span (n + 4) 4 \<subseteq> span n 8"
  using span_sub_numeral [of "num.Bit0 (num.Bit0 num.One)" 4 8 n] by (simp_all add: span_mono)

lemma span_fields_disjoint: "span n 4 \<inter> span (n + 4) 4 = {}"
  using span_disjoint_off [of 0 4 4 4 n] by simp

lemma nodes_apart_mono: "nodes_apart N \<Longrightarrow> N' \<subseteq> N \<Longrightarrow> nodes_apart N'"
  unfolding nodes_apart_def by (blast dest: subsetD)

lemma node_fields:
  assumes "nodes_apart N" "a \<in> N" "b \<in> N"
  shows "NodePrev (set_NodePrev m a v) b = (if b = a then v else NodePrev m b)"
    and "NodeNext (set_NodeNext m a v) b = (if b = a then v else NodeNext m b)"
    and "NodePrev (set_NodeNext m a v) b = NodePrev m b"
    and "NodeNext (set_NodePrev m a v) b = NodeNext m b"
proof -
  have apart: "span a 8 \<inter> span b 8 = {}" if "a \<noteq> b"
    using assms that by (simp add: nodes_apart_def)
  have "span a 4 \<inter> span b 4 = {}" "span (a + 4) 4 \<inter> span (b + 4) 4 = {}" if "a \<noteq> b"
    using apart [OF that] span_node_fields [of a] span_node_fields [of b] by blast+
  then show "NodePrev (set_NodePrev m a v) b = (if b = a then v else NodePrev m b)"
    and "NodeNext (set_NodeNext m a v) b = (if b = a then v else NodeNext m b)"
    by (auto simp: NodePrev_def NodeNext_def set_NodePrev_def set_NodeNext_def load32_store32_disjoint)
  have "span a 4 \<inter> span (b + 4) 4 = {}" "span (a + 4) 4 \<inter> span b 4 = {}"
    using apart span_fields_disjoint [of a] span_node_fields [of a] span_node_fields [of b]
    by (cases "a = b"; blast)+
  then show "NodePrev (set_NodeNext m a v) b = NodePrev m b"
    and "NodeNext (set_NodePrev m a v) b = NodeNext m b"
    by (simp_all add: NodePrev_def NodeNext_def set_NodePrev_def set_NodeNext_def load32_store32_disjoint)
qed

lemma set_node_same_outside:
  "a \<in> N \<Longrightarrow> same_outside (node_span N) m (set_NodePrev m a v)"
  "a \<in> N \<Longrightarrow> same_outside (node_span N) m (set_NodeNext m a v)"
proof -
  assume "a \<in> N"
  then have "span a 8 \<subseteq> node_span N" by (auto simp: node_span_def)
  with span_node_fields [of a]
  show "same_outside (node_span N) m (set_NodePrev m a v)"
    and "same_outside (node_span N) m (set_NodeNext m a v)"
    unfolding set_NodePrev_def set_NodeNext_def
    by (blast intro: same_outside_mono [OF store32_same_outside])+
qed

lemma set_node_same_outside_trans:
  assumes "same_outside (node_span N) m m'" "a \<in> N"
  shows "same_outside (node_span N) m (set_NodePrev m' a v)"
    and "same_outside (node_span N) m (set_NodeNext m' a v)"
  using assms by (blast intro: same_on_trans set_node_same_outside)+

lemma node_fields_same_on:
  assumes "same_on (node_span N) m m'" "n \<in> N"
  shows "NodePrev m' n = NodePrev m n" "NodeNext m' n = NodeNext m n"
  unfolding NodePrev_def NodeNext_def
  by (rule load32_same_on, rule same_on_mono [OF assms(1)],
      use span_node_fields [of n] assms(2) in \<open>auto simp: node_span_def\<close>)+

lemma list_rep_same_on: "list_rep m l ns \<Longrightarrow> same_on (node_span (set ns)) m m' \<Longrightarrow> list_rep m' l ns"
  unfolding list_rep_def
  by (simp add: node_fields_same_on links_cong [where m = m and m' = m'])

lemma ins_after_0 [simp]: "ins_after 0 n ns = n # ns"
  by (cases ns) auto

lemma ins_after_split: "a \<noteq> 0 \<Longrightarrow> a \<notin> set xs \<Longrightarrow> ins_after a n (xs @ a # ys) = xs @ a # n # ys"
  by (induction xs) auto

lemma ins_before_0: "0 \<notin> set ns \<Longrightarrow> ins_before 0 n ns = ns @ [n]"
  by (induction ns) auto

lemma ins_before_split: "a \<notin> set xs \<Longrightarrow> ins_before a n (xs @ a # ys) = xs @ n # a # ys"
  by (induction xs) auto

lemma set_ins_after [simp]: "set (ins_after a n ns) = insert n (set ns)"
  by (induction ns) auto

lemma set_ins_before [simp]: "set (ins_before a n ns) = insert n (set ns)"
  by (induction ns) auto

lemma distinct_ins_after [simp]: "n \<notin> set ns \<Longrightarrow> distinct (ins_after a n ns) = distinct ns"
  by (induction ns) auto

lemma distinct_ins_before [simp]: "n \<notin> set ns \<Longrightarrow> distinct (ins_before a n ns) = distinct ns"
  by (induction ns) auto

section \<open>The code refines the abstract operations\<close>

text \<open>A node that can be added: not null, and its bytes are not those of a node of the list.\<close>

definition addable :: "u32 \<Rightarrow> u32 list \<Rightarrow> bool" where
  "addable n ns \<longleftrightarrow> n \<notin> set ns \<and> nodes_apart (insert n (set ns))"

lemma BlListInsertAfter_rep:
  assumes rep: "list_rep m l ns" and new: "addable node ns" and anchor: "anchor = 0 \<or> anchor \<in> set ns"
    and op: "BlListInsertAfter l anchor node m = (l', m')"
  shows "list_rep m' l' (ins_after anchor node ns)
    \<and> same_outside (node_span (insert node (set ns))) m m'"
proof -
  let ?N = "insert node (set ns)"
  have apart: "nodes_apart ?N" and node: "node \<notin> set ns" "node \<noteq> 0"
    using new by (auto simp: addable_def nodes_apart_def)
  have N0: "0 \<notin> set ns" and dist: "distinct ns" and lnk: "links m 0 ns 0"
    and ends: "Head l = head_or ns 0" "Tail l = last_or 0 ns"
    using rep by (auto simp: list_rep_def nodes_apart_def)
  note F = node_fields [OF apart] and O = set_node_same_outside_trans
  show ?thesis
  proof (cases "anchor = 0")
    case True
    show ?thesis
    proof (cases ns)
      case Nil
      then show ?thesis
        using op True ends node apart
        by (auto simp: BlListInsertAfter_def Let_def list_rep_def F [unfolded Nil] intro!: O)
    next
      case (Cons y ys)
      have "links m' y ys 0"
        using lnk op True dist node Cons ends N0
        by (subst links_cong [where m = m]) (auto simp: BlListInsertAfter_def Let_def F [unfolded Cons])
      then show ?thesis
        using op True ends node apart lnk dist Cons N0
        by (auto simp: BlListInsertAfter_def Let_def list_rep_def F [unfolded Cons]
            intro!: O)
    qed
  next
    case False
    with anchor obtain xs ys where ns: "ns = xs @ anchor # ys" by (auto dest: split_list)
    have ins: "ins_after anchor node ns = xs @ anchor # node # ys"
      using dist ns False by (simp add: ins_after_split)
    have xs: "links m' 0 xs anchor"
      using lnk op False dist node ends N0 ns
      by (subst links_cong [where m = m])
        (cases ys, auto simp: BlListInsertAfter_def Let_def F [unfolded ns])
    show ?thesis
    proof (cases ys)
      case Nil
      then show ?thesis
        unfolding ins using op False ends node apart lnk dist ns N0 xs
        by (auto simp: BlListInsertAfter_def Let_def list_rep_def insert_commute F [unfolded ns]
            intro!: O)
    next
      case (Cons y ys')
      have "links m' y ys' 0"
        using lnk op False dist node Cons ns N0
        by (subst links_cong [where m = m]) (auto simp: BlListInsertAfter_def Let_def F [unfolded ns])
      then show ?thesis
        unfolding ins using op False ends node apart lnk dist ns Cons N0 xs
        by (auto simp: BlListInsertAfter_def Let_def list_rep_def insert_commute F [unfolded ns]
            intro!: O)
    qed
  qed
qed

lemma BlListInsertBefore_rep:
  assumes rep: "list_rep m l ns" and new: "addable node ns" and anchor: "anchor = 0 \<or> anchor \<in> set ns"
    and op: "BlListInsertBefore l anchor node m = (l', m')"
  shows "list_rep m' l' (ins_before anchor node ns)
    \<and> same_outside (node_span (insert node (set ns))) m m'"
proof -
  let ?N = "insert node (set ns)"
  have apart: "nodes_apart ?N" and node: "node \<notin> set ns" "node \<noteq> 0"
    using new by (auto simp: addable_def nodes_apart_def)
  have N0: "0 \<notin> set ns" and dist: "distinct ns" and lnk: "links m 0 ns 0"
    and ends: "Head l = head_or ns 0" "Tail l = last_or 0 ns"
    using rep by (auto simp: list_rep_def nodes_apart_def)
  note F = node_fields [OF apart] and O = set_node_same_outside_trans
  show ?thesis
  proof (cases "anchor = 0")
    case True
    show ?thesis
    proof (cases ns rule: rev_cases)
      case Nil
      then show ?thesis
        using op True ends node apart
        by (auto simp: BlListInsertBefore_def Let_def list_rep_def F [unfolded Nil] intro!: O)
    next
      case (snoc zs z)
      have "links m' 0 zs z"
        using lnk op True dist node snoc ends N0
        by (subst links_cong [where m = m]) (auto simp: BlListInsertBefore_def Let_def F [unfolded snoc])
      then show ?thesis
        using op True ends node apart lnk dist snoc N0
        by (auto simp: BlListInsertBefore_def Let_def list_rep_def ins_before_0 insert_commute F [unfolded snoc]
            intro!: O)
    qed
  next
    case False
    with anchor obtain xs ys where ns: "ns = xs @ anchor # ys" by (auto dest: split_list)
    have ins: "ins_before anchor node ns = xs @ node # anchor # ys"
      using dist ns by (simp add: ins_before_split)
    have ys: "links m' anchor ys 0"
      using lnk op False dist node ends N0 ns
      by (subst links_cong [where m = m])
        (cases xs rule: rev_cases, auto simp: BlListInsertBefore_def Let_def F [unfolded ns])
    show ?thesis
    proof (cases xs rule: rev_cases)
      case Nil
      then show ?thesis
        unfolding ins using op False ends node apart lnk dist ns N0 ys
        by (auto simp: BlListInsertBefore_def Let_def list_rep_def insert_commute F [unfolded ns]
            intro!: O)
    next
      case (snoc zs z)
      have "links m' 0 zs z"
        using lnk op False dist node snoc ns N0
        by (subst links_cong [where m = m]) (auto simp: BlListInsertBefore_def Let_def F [unfolded ns])
      then show ?thesis
        unfolding ins using op False ends node apart lnk dist ns snoc N0 ys
        by (auto simp: BlListInsertBefore_def Let_def list_rep_def insert_commute F [unfolded ns]
            intro!: O)
    qed
  qed
qed

lemma BlListRemove_rep:
  assumes rep: "list_rep m l ns" and node: "node \<in> set ns" and op: "BlListRemove l node m = (l', m')"
  shows "list_rep m' l' (remove1 node ns) \<and> same_outside (node_span (set ns)) m m'"
proof -
  have apart: "nodes_apart (set ns)" and dist: "distinct ns" and lnk: "links m 0 ns 0"
    and ends: "Head l = head_or ns 0" "Tail l = last_or 0 ns"
    using rep by (auto simp: list_rep_def)
  then have N0: "0 \<notin> set ns" by (simp add: nodes_apart_def)
  note F = node_fields [OF apart] and O = set_node_same_outside_trans
  from node obtain xs ys where ns: "ns = xs @ node # ys" by (auto dest: split_list)
  have rem: "remove1 node ns = xs @ ys" using dist ns by (simp add: remove1_append)
  have sub: "nodes_apart (set xs \<union> set ys)" using apart ns by (auto simp: nodes_apart_def)
  show ?thesis
  proof (cases xs rule: rev_cases; cases ys)
    assume "xs = []" "ys = []"
    then show ?thesis
      using op ends lnk ns rem by (auto simp: BlListRemove_def Let_def list_rep_def nodes_apart_def)
  next
    fix y ys' assume xs: "xs = []" and ys: "ys = y # ys'"
    have "links m' y ys' 0"
      using lnk op dist xs ys ns N0
      by (subst links_cong [where m = m]) (auto simp: BlListRemove_def Let_def F [unfolded ns])
    then show ?thesis
      using op ends lnk dist ns rem xs ys N0 sub
      by (auto simp: BlListRemove_def Let_def list_rep_def insert_commute F [unfolded ns] intro!: O)
  next
    fix zs z assume xs: "xs = zs @ [z]" and ys: "ys = []"
    have "links m' 0 zs z"
      using lnk op dist xs ys ns N0
      by (subst links_cong [where m = m]) (auto simp: BlListRemove_def Let_def F [unfolded ns])
    then show ?thesis
      using op ends lnk dist ns rem xs ys N0 sub
      by (auto simp: BlListRemove_def Let_def list_rep_def insert_commute F [unfolded ns] intro!: O)
  next
    fix zs z y ys' assume xs: "xs = zs @ [z]" and ys: "ys = y # ys'"
    have "links m' 0 zs z" "links m' y ys' 0"
      using lnk op dist xs ys ns N0
      by (subst links_cong [where m = m]; auto simp: BlListRemove_def Let_def F [unfolded ns])+
    then show ?thesis
      using op ends lnk dist ns rem xs ys N0 sub
      by (auto simp: BlListRemove_def Let_def list_rep_def insert_commute F [unfolded ns] intro!: O)
  qed
qed

lemma BlListInit_rep: "list_rep m BlListInit []"
  by (simp add: list_rep_def BlListInit_def nodes_apart_def)

section \<open>The interface\<close>

text \<open>
  What a client may rely on: the sequence a list stands for depends only on the bytes of its
  nodes, the operations act on that sequence as named, and they write nothing but node bytes.
\<close>

locale node_list =
  fixes rep :: "mem \<Rightarrow> 'l \<Rightarrow> u32 list \<Rightarrow> bool"
    and insert_after :: "'l \<Rightarrow> u32 \<Rightarrow> u32 \<Rightarrow> mem \<Rightarrow> 'l \<times> mem"
    and insert_before :: "'l \<Rightarrow> u32 \<Rightarrow> u32 \<Rightarrow> mem \<Rightarrow> 'l \<times> mem"
    and remove :: "'l \<Rightarrow> u32 \<Rightarrow> mem \<Rightarrow> 'l \<times> mem"
  assumes rep_frame: "rep m l ns \<Longrightarrow> same_on (node_span (set ns)) m m' \<Longrightarrow> rep m' l ns"
    and rep_nodes: "rep m l ns \<Longrightarrow> distinct ns \<and> nodes_apart (set ns)"
    and insert_after_law: "rep m l ns \<Longrightarrow> addable node ns \<Longrightarrow> anchor = 0 \<or> anchor \<in> set ns \<Longrightarrow>
      insert_after l anchor node m = (l', m') \<Longrightarrow>
      rep m' l' (ins_after anchor node ns) \<and> same_outside (node_span (insert node (set ns))) m m'"
    and insert_before_law: "rep m l ns \<Longrightarrow> addable node ns \<Longrightarrow> anchor = 0 \<or> anchor \<in> set ns \<Longrightarrow>
      insert_before l anchor node m = (l', m') \<Longrightarrow>
      rep m' l' (ins_before anchor node ns) \<and> same_outside (node_span (insert node (set ns))) m m'"
    and remove_law: "rep m l ns \<Longrightarrow> node \<in> set ns \<Longrightarrow> remove l node m = (l', m') \<Longrightarrow>
      rep m' l' (remove1 node ns) \<and> same_outside (node_span (set ns)) m m'"
begin

lemma rep_frame_outside:
  "rep m l ns \<Longrightarrow> same_outside A m m' \<Longrightarrow> A \<inter> node_span (set ns) = {} \<Longrightarrow> rep m' l ns"
  by (rule rep_frame) (auto intro: same_outside_on)

text \<open>Pushing and appending keep any other list whose nodes lie elsewhere.\<close>

lemma push:
  assumes "rep m l ns" "addable node ns" "insert_after l 0 node m = (l', m')"
  shows "rep m' l' (node # ns)" "same_outside (node_span (insert node (set ns))) m m'"
  using insert_after_law [OF assms(1,2) _ assms(3)] by simp_all

lemma append:
  assumes "rep m l ns" "addable node ns" "insert_before l 0 node m = (l', m')"
  shows "rep m' l' (ns @ [node])" "same_outside (node_span (insert node (set ns))) m m'"
proof -
  have "0 \<notin> set ns" using rep_nodes [OF assms(1)] by (simp add: nodes_apart_def)
  then show "rep m' l' (ns @ [node])" "same_outside (node_span (insert node (set ns))) m m'"
    using insert_before_law [OF assms(1,2) _ assms(3)] by (simp_all add: ins_before_0)
qed

lemma insert_after_other:
  assumes "rep m l ns" "addable node ns" "anchor = 0 \<or> anchor \<in> set ns"
    and "insert_after l anchor node m = (l', m')"
    and "rep m k ks" "node_span (insert node (set ns)) \<inter> node_span (set ks) = {}"
  shows "rep m' k ks"
  using insert_after_law [OF assms(1-4)] assms(5,6) by (blast intro: rep_frame_outside)

lemma remove_other:
  assumes "rep m l ns" "node \<in> set ns" "remove l node m = (l', m')"
    and "rep m k ks" "node_span (set ns) \<inter> node_span (set ks) = {}"
  shows "rep m' k ks"
  using remove_law [OF assms(1-3)] assms(4,5) by (blast intro: rep_frame_outside)

lemma addable_removed:
  assumes "rep m l ns" "node \<in> set ns"
  shows "addable node (remove1 node ns)"
proof -
  have "insert node (set (remove1 node ns)) \<subseteq> set ns"
    using assms(2) set_remove1_subset [of node ns] by blast
  then show ?thesis
    using rep_nodes [OF assms(1)] by (auto simp: addable_def nodes_apart_def)
qed

text \<open>The use order of a cache: a node taken out and pushed again becomes the first.\<close>

lemma move_to_front:
  assumes "rep m l ns" "node \<in> set ns" "remove l node m = (l1, m1)" "insert_after l1 0 node m1 = (l2, m2)"
  shows "rep m2 l2 (node # remove1 node ns) \<and> same_outside (node_span (set ns)) m m2"
proof -
  from remove_law [OF assms(1-3)]
  have rep1: "rep m1 l1 (remove1 node ns)" and fr1: "same_outside (node_span (set ns)) m m1" by auto
  from push [OF rep1 addable_removed [OF assms(1,2)] assms(4)]
  have rep2: "rep m2 l2 (node # remove1 node ns)"
    and fr2: "same_outside (node_span (insert node (set (remove1 node ns)))) m1 m2" by auto
  have "node_span (insert node (set (remove1 node ns))) \<subseteq> node_span (set ns)"
    using assms(2) set_remove1_subset [of node ns] unfolding node_span_def by blast
  from fr1 same_outside_mono [OF fr2 this] rep2 show ?thesis
    by (blast intro: same_on_trans)
qed

end

interpretation bl: node_list list_rep BlListInsertAfter BlListInsertBefore BlListRemove
proof
  show "list_rep m l ns \<Longrightarrow> distinct ns \<and> nodes_apart (set ns)" for m l ns
    by (simp add: list_rep_def)
qed (auto dest: list_rep_same_on BlListInsertAfter_rep BlListInsertBefore_rep BlListRemove_rep)

section \<open>Properties\<close>

text \<open>
  C26. Inserting a node after (before) an anchor puts it after (before) that anchor in the
  sequence, a null anchor meaning the front (back); all pointers of the list stay consistent
  both ways, and only bytes of the list's nodes and of the new node are written.
\<close>

theorem insert_correct:
  assumes "list_rep m l ns" "addable node ns" "anchor = 0 \<or> anchor \<in> set ns"
  shows "(case BlListInsertAfter l anchor node m of (l', m') \<Rightarrow>
      list_rep m' l' (ins_after anchor node ns) \<and> same_outside (node_span (insert node (set ns))) m m')
    \<and> (case BlListInsertBefore l anchor node m of (l', m') \<Rightarrow>
      list_rep m' l' (ins_before anchor node ns) \<and> same_outside (node_span (insert node (set ns))) m m')"
  using bl.insert_after_law [OF assms] bl.insert_before_law [OF assms]
  by (cases "BlListInsertAfter l anchor node m"; cases "BlListInsertBefore l anchor node m") auto

lemma addable_witness: "addable 64 [16]" "addable 16 []" "addable 64 []"
  using span_disjoint [of 16 8 64 8] by (auto simp: addable_def nodes_apart_def fits_def)

theorem insert_correct_witness:
  "let (l1, m1) = BlListInsertAfter BlListInit 0 16 (\<lambda>_. 0); (l2, m2) = BlListInsertAfter l1 16 64 m1
   in list_rep m2 l2 [16, 64] \<and> Tail l2 = 64"
proof -
  obtain l1 m1 where lm: "BlListInsertAfter BlListInit 0 16 (\<lambda>_. 0) = (l1, m1)"
    by (cases "BlListInsertAfter BlListInit 0 16 (\<lambda>_. 0)")
  have "list_rep m1 l1 [16]"
    using bl.push [OF BlListInit_rep addable_witness(2) lm] by simp
  from insert_correct [OF this addable_witness(1), of 16] lm show ?thesis
    by (auto split: prod.splits simp: list_rep_def)
qed

text \<open>
  C27. Removing a node takes exactly it out of the sequence; removed and inserted again at
  the front (the use order of the block cache), the node leads and the others keep their order.
\<close>

theorem remove_correct:
  assumes "list_rep m l ns" "node \<in> set ns"
  shows "case BlListRemove l node m of (l1, m1) \<Rightarrow>
      list_rep m1 l1 (remove1 node ns) \<and> same_outside (node_span (set ns)) m m1
      \<and> (case BlListInsertAfter l1 0 node m1 of (l2, m2) \<Rightarrow>
          list_rep m2 l2 (node # remove1 node ns) \<and> same_outside (node_span (set ns)) m m2)"
  using bl.remove_law [OF assms] bl.move_to_front [OF assms]
  by (auto split: prod.splits)

theorem remove_correct_witness:
  "let (l, m) = BlListInsertAfter BlListInit 0 64 (\<lambda>_. 0); (l1, m1) = BlListRemove l 64 m
   in list_rep m1 l1 []"
proof -
  obtain l m where lm: "BlListInsertAfter BlListInit 0 64 (\<lambda>_. 0) = (l, m)" by (cases "BlListInsertAfter BlListInit 0 64 (\<lambda>_. 0)")
  have "list_rep m l [64]"
    using bl.push [OF BlListInit_rep addable_witness(3) lm] by simp
  from remove_correct [OF this, of 64] lm show ?thesis by (auto split: prod.splits)
qed

end
