(* ===== verification/Heap.thy ===== *)
theory Heap
  imports Linked_List
begin

text \<open>
  The boot loader's heap, \<^verbatim>\<open>bootloader/memory.c\<close>: address-ordered ranges, each with a 24-byte
  header in memory (\<open>struct HeapRange\<close>: \<open>Node\<close> at 0, \<open>FreeNode\<close> at 8, \<open>End\<close> at 16, \<open>Free\<close> at
  20), on a list of all ranges and, when free, on a list of free ranges. The state is a record
  that later components extend; every operation works on any extension of it.
\<close>

section \<open>State and range headers\<close>

record heap =
  memory :: mem
  BlHeapRanges :: BlList
  BlFreeRanges :: BlList

definition SIZEOF_HeapRange :: u32 where "SIZEOF_HeapRange = 24"
definition HEAP_ALIGNMENT :: u32 where "HEAP_ALIGNMENT = 4"

definition FreeNode :: "u32 \<Rightarrow> u32" where "FreeNode r = r + 8"

definition RangeEnd :: "mem \<Rightarrow> u32 \<Rightarrow> u32" where "RangeEnd m r = load32 m (r + 16)"
definition RangeFree :: "mem \<Rightarrow> u32 \<Rightarrow> bool" where "RangeFree m r \<longleftrightarrow> m (r + 20) \<noteq> 0"
definition set_RangeEnd :: "mem \<Rightarrow> u32 \<Rightarrow> u32 \<Rightarrow> mem" where "set_RangeEnd m r v = store32 m (r + 16) v"
definition set_RangeFree :: "mem \<Rightarrow> u32 \<Rightarrow> bool \<Rightarrow> mem" where
  "set_RangeFree m r b = m(r + 20 := (if b then 1 else 0))"

definition RangePrev :: "mem \<Rightarrow> u32 \<Rightarrow> u32" where "RangePrev m r = BL_CONTAINER 0 (NodePrev m r)"
definition RangeNext :: "mem \<Rightarrow> u32 \<Rightarrow> u32" where "RangeNext m r = BL_CONTAINER 0 (NodeNext m r)"
definition FreeNext :: "mem \<Rightarrow> u32 \<Rightarrow> u32" where "FreeNext m r = BL_CONTAINER 8 (NodeNext m (FreeNode r))"

text \<open>The list operations applied to the two static lists.\<close>

definition heap_insert :: "u32 \<Rightarrow> u32 \<Rightarrow> 'a heap_scheme \<Rightarrow> 'a heap_scheme" where
  "heap_insert anchor node s =
     (let (l, m) = BlListInsertAfter (BlHeapRanges s) anchor node (memory s)
      in s\<lparr>memory := m, BlHeapRanges := l\<rparr>)"

definition heap_remove :: "u32 \<Rightarrow> 'a heap_scheme \<Rightarrow> 'a heap_scheme" where
  "heap_remove node s =
     (let (l, m) = BlListRemove (BlHeapRanges s) node (memory s) in s\<lparr>memory := m, BlHeapRanges := l\<rparr>)"

definition free_insert :: "u32 \<Rightarrow> u32 \<Rightarrow> 'a heap_scheme \<Rightarrow> 'a heap_scheme" where
  "free_insert anchor node s =
     (let (l, m) = BlListInsertAfter (BlFreeRanges s) anchor node (memory s)
      in s\<lparr>memory := m, BlFreeRanges := l\<rparr>)"

definition free_remove :: "u32 \<Rightarrow> 'a heap_scheme \<Rightarrow> 'a heap_scheme" where
  "free_remove node s =
     (let (l, m) = BlListRemove (BlFreeRanges s) node (memory s) in s\<lparr>memory := m, BlFreeRanges := l\<rparr>)"

definition write_End :: "u32 \<Rightarrow> u32 \<Rightarrow> 'a heap_scheme \<Rightarrow> 'a heap_scheme" where
  "write_End r v s = s\<lparr>memory := set_RangeEnd (memory s) r v\<rparr>"

definition write_Free :: "u32 \<Rightarrow> bool \<Rightarrow> 'a heap_scheme \<Rightarrow> 'a heap_scheme" where
  "write_Free r b s = s\<lparr>memory := set_RangeFree (memory s) r b\<rparr>"

definition copy_header :: "u32 \<Rightarrow> u32 \<Rightarrow> 'a heap_scheme \<Rightarrow> 'a heap_scheme" where
  "copy_header dest src s = s\<lparr>memory := BlCopyMemoryOverlapping (memory s) dest src SIZEOF_HeapRange\<rparr>"

section \<open>Adding memory\<close>

text \<open>The loop that looks for the last range below the new one.\<close>

partial_function (option) range_below :: "mem \<Rightarrow> u32 \<Rightarrow> u32 \<Rightarrow> u32 \<Rightarrow> u32 option" where
  "range_below m base prev rg =
     (if rg = 0 then Some prev
      else if rg \<ge> base then Some prev
      else range_below m base rg (RangeNext m rg))"

text \<open>The rest of the function, once the neighbours are known and the range is clipped to them.\<close>

definition place_range :: "u32 \<Rightarrow> u32 \<Rightarrow> u32 \<Rightarrow> u32 \<Rightarrow> 'a heap_scheme \<Rightarrow> 'a heap_scheme" where
  "place_range prev next base end s =
     (if base \<ge> end then s else
      let m = memory s;
          mergePrev = (prev \<noteq> 0 \<and> RangeFree m prev \<and> RangeEnd m prev = base);
          mergeNext = (next \<noteq> 0 \<and> RangeFree m next \<and> end = next)
      in if mergePrev \<and> mergeNext then
           free_remove (FreeNode next) (heap_remove next (write_End prev (RangeEnd m next) s))
         else if mergePrev then write_End prev end s
         else if mergeNext then
           free_insert 0 (FreeNode base) (heap_insert prev base
             (copy_header base next (free_remove (FreeNode next) (heap_remove next s))))
         else if end - base < SIZEOF_HeapRange then s
         else free_insert 0 (FreeNode base) (heap_insert prev base (write_Free base True (write_End base end s))))"

declare range_below.simps [code]

definition BlAddHeapRange :: "u32 \<Rightarrow> u32 \<Rightarrow> 'a heap_scheme \<Rightarrow> 'a heap_scheme option" where
  "BlAddHeapRange base sz s =
     (let end = BL_ALIGN_DOWN (base + sz) HEAP_ALIGNMENT; base = BL_ALIGN_UP base HEAP_ALIGNMENT
      in if base \<ge> end then Some s else
      Option.bind (range_below (memory s) base 0 (BL_CONTAINER 0 (Head (BlHeapRanges s)))) (\<lambda>prev.
        let m = memory s;
            next = (if prev \<noteq> 0 then RangeNext m prev else 0);
            base = (if prev \<noteq> 0 \<and> RangeEnd m prev > base then RangeEnd m prev else base);
            end = (if next \<noteq> 0 \<and> end > next then next else end)
        in Some (place_range prev next base end s)))"

section \<open>Allocating\<close>

text \<open>The body of the search loop once a free range is found that has the room.\<close>

definition carve :: "u32 \<Rightarrow> bool \<Rightarrow> u32 \<Rightarrow> u32 \<Rightarrow> 'a heap_scheme \<Rightarrow> 'a heap_scheme" where
  "carve rg permanent allocBase allocEnd s =
     (let rangeBase = rg; rangeEnd = RangeEnd (memory s) rg;
          (s, allocEnd) =
            (if rangeEnd - allocEnd \<ge> SIZEOF_HeapRange
             then (free_insert (FreeNode rg) (FreeNode allocEnd) (heap_insert rg allocEnd
                     (write_Free allocEnd True (write_End allocEnd rangeEnd s))), allocEnd)
             else (s, rangeEnd));
          (s, rg) =
            (if allocBase - rangeBase \<ge> SIZEOF_HeapRange then (write_End rg allocBase s, rg)
             else let newAnchor = RangePrev (memory s) rg
                  in (free_remove (FreeNode rg) (heap_remove rg s), newAnchor))
      in if permanent then s
         else heap_insert rg allocBase (write_Free allocBase False (write_End allocBase allocEnd s)))"

partial_function (option) alloc_from ::
    "u32 \<Rightarrow> u32 \<Rightarrow> bool \<Rightarrow> u32 \<Rightarrow> 'a heap_scheme \<Rightarrow> (u32 \<times> 'a heap_scheme) run" where
  "alloc_from sz alignment permanent rg s =
     (if rg = 0 then crash ''out of memory'' else
      let headExtra = (if permanent then 0 else SIZEOF_HeapRange);
          rangeBase = rg; rangeEnd = RangeEnd (memory s) rg;
          valueBase = BL_ALIGN_UP (rangeBase + headExtra) alignment;
          allocBase = valueBase - headExtra; allocEnd = valueBase + sz
      in if allocEnd < allocBase \<or> allocBase < rangeBase \<or> allocEnd \<ge> rangeEnd
         then alloc_from sz alignment permanent (FreeNext (memory s) rg) s
         else ret (valueBase, carve rg permanent allocBase allocEnd s))"

declare alloc_from.simps [code]

definition BlAllocateHeap :: "u32 \<Rightarrow> u32 \<Rightarrow> bool \<Rightarrow> 'a heap_scheme \<Rightarrow> (u32 \<times> 'a heap_scheme) run" where
  "BlAllocateHeap sz alignment permanent s =
     (if sz = 0 then ret (0, s) else
      let alignment = (if alignment < HEAP_ALIGNMENT then HEAP_ALIGNMENT else alignment);
          sz = BL_ALIGN_UP sz HEAP_ALIGNMENT
      in alloc_from sz alignment permanent (BL_CONTAINER 8 (Head (BlFreeRanges s))) s)"

section \<open>Freeing and resizing\<close>

definition BlFreeHeap :: "u32 \<Rightarrow> 'a heap_scheme \<Rightarrow> 'a heap_scheme" where
  "BlFreeHeap ptr s =
     (if ptr = 0 then s else
      let m = memory s; rg = ptr - SIZEOF_HeapRange;
          prev = RangePrev m rg; next = RangeNext m rg;
          mergePrev = (prev \<noteq> 0 \<and> RangeFree m prev \<and> RangeEnd m prev = rg);
          mergeNext = (next \<noteq> 0 \<and> RangeFree m next \<and> RangeEnd m rg = next)
      in if mergePrev then
           let s = heap_remove rg s
           in if mergeNext then
                let s = free_remove (FreeNode next) (heap_remove next s)
                in write_End prev (RangeEnd (memory s) next) s
              else write_End prev (RangeEnd (memory s) rg) s
         else
           let s = (if mergeNext
                    then let s = free_remove (FreeNode next) (heap_remove next s)
                         in write_End rg (RangeEnd (memory s) next) s
                    else s)
           in free_insert 0 (FreeNode rg) (write_Free rg True s))"

definition BlResizeHeap :: "u32 \<Rightarrow> u32 \<Rightarrow> u32 \<Rightarrow> 'a heap_scheme \<Rightarrow> (u32 \<times> 'a heap_scheme) run" where
  "BlResizeHeap ptr newSize alignment s =
     (if ptr = 0 then BlAllocateHeap newSize alignment False s
      else if newSize = 0 then ret (0, BlFreeHeap ptr s)
      else
      let newSize = BL_ALIGN_UP newSize HEAP_ALIGNMENT;
          rg = ptr - SIZEOF_HeapRange; oldSize = RangeEnd (memory s) rg - ptr
      in if oldSize \<ge> newSize then
           let extra = oldSize - newSize
           in if extra \<ge> SIZEOF_HeapRange then
                let newRange = ptr + oldSize;
                    s = write_Free newRange True (write_End newRange (RangeEnd (memory s) rg) s);
                    s = free_insert 0 (FreeNode newRange) (heap_insert rg newRange s)
                in ret (ptr, write_End rg (RangeEnd (memory s) rg - extra) s)
              else ret (ptr, s)
         else
         let next = RangeNext (memory s) rg
         in if next \<noteq> 0 \<and> next = RangeEnd (memory s) rg \<and> RangeFree (memory s) next then
              let s = free_remove (FreeNode next) (heap_remove next s);
                  newEnd = ptr + newSize; nextEnd = RangeEnd (memory s) next
              in if nextEnd - newEnd \<ge> SIZEOF_HeapRange
                 then ret (ptr, write_End rg newEnd (free_insert 0 (FreeNode newEnd)
                        (heap_insert rg newEnd (copy_header newEnd next s))))
                 else ret (ptr, write_End rg nextEnd s)
            else
              bind_run (BlAllocateHeap newSize alignment False s) (\<lambda>(newPtr, s).
                ret (newPtr, BlFreeHeap ptr (s\<lparr>memory := BlCopyMemory (memory s) newPtr ptr oldSize\<rparr>))))"

end
