(* ===== verification/Heap_Rep.thy ===== *)
theory Heap_Rep
  imports Heap
begin

text \<open>
  The heap in memory against its abstract content: a sequence of blocks
  \<open>(base, end, free)\<close> and the order of the free list. Each pointer-level step of the
  allocator is one step on the abstract content.
\<close>

type_synonym block = "u32 \<times> u32 \<times> bool"

abbreviation base :: "block \<Rightarrow> u32" where "base \<equiv> fst"
abbreviation bases :: "block list \<Rightarrow> u32 set" where "bases rs \<equiv> fst ` set rs"

section \<open>Headers that do not overlap\<close>

definition headers_ok :: "u32 set \<Rightarrow> bool" where
  "headers_ok H \<longleftrightarrow> 0 \<notin> H \<and> (\<forall>a\<in>H. fits a 24)
     \<and> (\<forall>a\<in>H. \<forall>b\<in>H. a \<noteq> b \<longrightarrow> span a 24 \<inter> span b 24 = {})"

definition header_span :: "u32 set \<Rightarrow> u32 set" where
  "header_span H = (\<Union>a\<in>H. span a 24)"

lemma headers_ok_mono: "headers_ok H \<Longrightarrow> H' \<subseteq> H \<Longrightarrow> headers_ok H'"
  unfolding headers_ok_def by (blast dest: subsetD)

lemma header_span_mono: "H \<subseteq> H' \<Longrightarrow> header_span H \<subseteq> header_span H'"
  by (auto simp: header_span_def)

lemma FreeNode_inj [simp]: "FreeNode a = FreeNode b \<longleftrightarrow> a = b"
  by (simp add: FreeNode_def)

lemma inj_FreeNode: "inj FreeNode"
  by (rule injI) simp

lemma header_parts:
  "span a 8 \<subseteq> span a 24" "span (a + 8) 8 \<subseteq> span a 24" "span (a + 16) 4 \<subseteq> span a 24"
  "span (a + 20) 1 \<subseteq> span a 24"
  using span_sub [of 8 8 24 a] span_sub [of 16 4 24 a] span_sub [of 20 1 24 a]
  by (simp_all add: span_mono)

lemma disjoint_sub: "A \<inter> B = {} \<Longrightarrow> A' \<subseteq> A \<Longrightarrow> B' \<subseteq> B \<Longrightarrow> A' \<inter> B' = {}"
  by blast

text \<open>Two pieces of headers meet only if they are overlapping pieces of the same header.\<close>

lemma header_pieces:
  assumes "headers_ok H" "a \<in> H" "b \<in> H" "i + k \<le> 24" "j + l \<le> 24"
    and "a = b \<Longrightarrow> i + k \<le> j \<or> j + l \<le> i"
  shows "span (a + of_nat i) k \<inter> span (b + of_nat j) l = {}"
proof (cases "a = b")
  case True
  then show ?thesis
    using assms(4-6) span_disjoint_off [of i k j l a] span_disjoint_off [of j l i k a] by auto
next
  case False
  then have "span a 24 \<inter> span b 24 = {}" using assms by (simp add: headers_ok_def)
  then show ?thesis
    by (rule disjoint_sub) (use assms(4,5) in \<open>simp_all add: span_sub\<close>)
qed

lemma FreeNode_neq_0: "fits a 24 \<Longrightarrow> FreeNode a \<noteq> 0"
proof
  assume "fits a 24" "FreeNode a = 0"
  then have "a = - 8" by (simp add: FreeNode_def eq_neg_iff_add_eq_0)
  with \<open>fits a 24\<close> show False by (simp add: fits_def)
qed

lemma nodes_apart_headers:
  assumes "headers_ok H"
  shows "nodes_apart H" "nodes_apart (FreeNode ` H)" "node_span H \<inter> node_span (FreeNode ` H) = {}"
proof -
  note P = header_pieces [OF assms]
  show "nodes_apart H"
    using assms P [of _ _ 0 8 0 8] by (auto simp: nodes_apart_def headers_ok_def)
  have "span (FreeNode a) 8 \<inter> span (FreeNode b) 8 = {}" if "a \<in> H" "b \<in> H" "a \<noteq> b" for a b
    using P [of a b 8 8 8 8] that by (simp add: FreeNode_def)
  moreover have "FreeNode a \<noteq> 0" if "a \<in> H" for a
    using assms that by (simp add: headers_ok_def FreeNode_neq_0)
  ultimately show "nodes_apart (FreeNode ` H)"
    by (auto simp: nodes_apart_def)
  have "span a 8 \<inter> span (b + 8) 8 = {}" if "a \<in> H" "b \<in> H" for a b
    using P [of a b 0 8 8 8] that by simp
  then show "node_span H \<inter> node_span (FreeNode ` H) = {}"
    by (auto simp: node_span_def FreeNode_def)
qed

lemma node_span_header: "N \<subseteq> H \<Longrightarrow> node_span N \<subseteq> header_span H"
  "N \<subseteq> FreeNode ` H \<Longrightarrow> node_span N \<subseteq> header_span H"
proof -
  show "node_span N \<subseteq> header_span H" if "N \<subseteq> H"
    using that header_parts(1) unfolding node_span_def header_span_def by blast
  show "node_span N \<subseteq> header_span H" if N: "N \<subseteq> FreeNode ` H"
  proof
    fix x assume "x \<in> node_span N"
    with N obtain a where "a \<in> H" "x \<in> span (a + 8) 8"
      by (auto simp: node_span_def FreeNode_def)
    with header_parts(2) [of a] show "x \<in> header_span H" by (auto simp: header_span_def)
  qed
qed

lemma node_span_mono: "N \<subseteq> N' \<Longrightarrow> node_span N \<subseteq> node_span N'"
  by (auto simp: node_span_def)

text \<open>The two remaining fields of a header, over changes of the list nodes.\<close>

lemma range_fields_frame:
  assumes "headers_ok H" "b \<in> H" "N \<subseteq> H \<or> N \<subseteq> FreeNode ` H" "same_outside (node_span N) m m'"
  shows "RangeEnd m' b = RangeEnd m b" "RangeFree m' b = RangeFree m b"
proof -
  have "span a 8 \<inter> span (b + 16) 4 = {}" "span a 8 \<inter> span (b + 20) 1 = {}"
    "span (a + 8) 8 \<inter> span (b + 16) 4 = {}" "span (a + 8) 8 \<inter> span (b + 20) 1 = {}" if "a \<in> H" for a
    using header_pieces [OF assms(1) that assms(2), of 0 8 16 4] header_pieces [OF assms(1) that assms(2), of 0 8 20 1]
      header_pieces [OF assms(1) that assms(2), of 8 8 16 4] header_pieces [OF assms(1) that assms(2), of 8 8 20 1]
    by simp_all
  then have "node_span N \<inter> span (b + 16) 4 = {}" "node_span N \<inter> span (b + 20) 1 = {}"
    using assms(3) by (fastforce simp: node_span_def FreeNode_def)+
  then have "same_on (span (b + 16) 4) m m'" "same_on (span (b + 20) 1) m m'"
    using assms(4) by (blast intro: same_outside_on)+
  then show "RangeEnd m' b = RangeEnd m b" "RangeFree m' b = RangeFree m b"
    by (auto simp: RangeEnd_def RangeFree_def same_on_def span_self intro!: load32_same_on)
qed

lemma range_fields_same_on:
  assumes "same_on (span b 24) m m'"
  shows "RangeEnd m' b = RangeEnd m b" "RangeFree m' b = RangeFree m b"
proof -
  have "same_on (span (b + 16) 4) m m'" "same_on (span (b + 20) 1) m m'"
    using same_on_mono [OF assms] header_parts [of b] by blast+
  then show "RangeEnd m' b = RangeEnd m b" "RangeFree m' b = RangeFree m b"
    by (auto simp: RangeEnd_def RangeFree_def same_on_def span_self intro!: load32_same_on)
qed

text \<open>Writing the \<open>End\<close> or \<open>Free\<close> field of a header.\<close>

lemma write_fields:
  assumes "headers_ok H" "a \<in> H" "b \<in> H"
  shows "RangeEnd (set_RangeEnd m a v) b = (if b = a then v else RangeEnd m b)"
    and "RangeFree (set_RangeEnd m a v) b = RangeFree m b"
    and "RangeEnd (set_RangeFree m a f) b = RangeEnd m b"
    and "RangeFree (set_RangeFree m a f) b = (if b = a then f else RangeFree m b)"
    and "same_on (node_span H) m (set_RangeEnd m a v)" "same_on (node_span (FreeNode ` H)) m (set_RangeEnd m a v)"
    and "same_on (node_span H) m (set_RangeFree m a f)" "same_on (node_span (FreeNode ` H)) m (set_RangeFree m a f)"
    and "same_outside (header_span H) m (set_RangeEnd m a v)"
    and "same_outside (header_span H) m (set_RangeFree m a f)"
proof -
  note P = header_pieces [OF assms]
  have E: "span (a + 16) 4 \<inter> span (b + 16) 4 = {}" if "a \<noteq> b"
    using P [of 16 4 16 4] that by simp
  have F: "span (a + 20) 1 \<inter> span (b + 20) 1 = {}" if "a \<noteq> b"
    using P [of 20 1 20 1] that by simp
  have EF: "span (a + 16) 4 \<inter> span (b + 20) 1 = {}" "span (a + 20) 1 \<inter> span (b + 16) 4 = {}"
    using P [of 16 4 20 1] P [of 20 1 16 4] by simp_all
  have out: "b + 20 \<notin> span (a + 16) 4" "a + 20 \<notin> span (b + 16) 4"
    using EF by (metis IntI empty_iff span_self zero_less_one)+
  show "RangeEnd (set_RangeEnd m a v) b = (if b = a then v else RangeEnd m b)"
    using E by (auto simp: RangeEnd_def set_RangeEnd_def load32_store32_disjoint)
  show "RangeFree (set_RangeEnd m a v) b = RangeFree m b"
    unfolding RangeFree_def set_RangeEnd_def store32_apply_other [OF out(1)] ..
  show "RangeEnd (set_RangeFree m a f) b = RangeEnd m b"
    unfolding RangeEnd_def set_RangeFree_def load32_store8_disjoint [OF out(2)] ..
  show "RangeFree (set_RangeFree m a f) b = (if b = a then f else RangeFree m b)"
    using F by (auto simp: RangeFree_def set_RangeFree_def)
  have N: "node_span H \<inter> span (a + 16) 4 = {}" "node_span H \<inter> span (a + 20) 1 = {}"
    "node_span (FreeNode ` H) \<inter> span (a + 16) 4 = {}" "node_span (FreeNode ` H) \<inter> span (a + 20) 1 = {}"
  proof -
    have "span c 8 \<inter> span (a + 16) 4 = {}" "span c 8 \<inter> span (a + 20) 1 = {}"
      "span (c + 8) 8 \<inter> span (a + 16) 4 = {}" "span (c + 8) 8 \<inter> span (a + 20) 1 = {}" if "c \<in> H" for c
      using header_pieces [OF assms(1) that assms(2), of 0 8 16 4] header_pieces [OF assms(1) that assms(2), of 0 8 20 1]
        header_pieces [OF assms(1) that assms(2), of 8 8 16 4] header_pieces [OF assms(1) that assms(2), of 8 8 20 1]
      by simp_all
    then show "node_span H \<inter> span (a + 16) 4 = {}" "node_span H \<inter> span (a + 20) 1 = {}"
      "node_span (FreeNode ` H) \<inter> span (a + 16) 4 = {}" "node_span (FreeNode ` H) \<inter> span (a + 20) 1 = {}"
      by (fastforce simp: node_span_def FreeNode_def)+
  qed
  have O: "same_outside (span (a + 16) 4) m (set_RangeEnd m a v)"
    "same_outside (span (a + 20) 1) m (set_RangeFree m a f)"
    unfolding set_RangeEnd_def set_RangeFree_def by simp_all
  from N O show "same_on (node_span H) m (set_RangeEnd m a v)"
    "same_on (node_span (FreeNode ` H)) m (set_RangeEnd m a v)"
    "same_on (node_span H) m (set_RangeFree m a f)" "same_on (node_span (FreeNode ` H)) m (set_RangeFree m a f)"
    by (blast intro: same_outside_on)+
  have "span (a + 16) 4 \<subseteq> header_span H" "span (a + 20) 1 \<subseteq> header_span H"
    using assms(2) header_parts [of a] by (auto simp: header_span_def)
  with O show "same_outside (header_span H) m (set_RangeEnd m a v)"
    "same_outside (header_span H) m (set_RangeFree m a f)"
    by (blast intro: same_outside_mono)+
qed

section \<open>The heap in memory\<close>

definition block_at :: "mem \<Rightarrow> block \<Rightarrow> bool" where
  "block_at m r \<longleftrightarrow> (case r of (b, e, f) \<Rightarrow> RangeEnd m b = e \<and> RangeFree m b = f)"

definition heap_rep :: "'a heap_scheme \<Rightarrow> u32 set \<Rightarrow> block list \<Rightarrow> u32 list \<Rightarrow> bool" where
  "heap_rep s H rs fs \<longleftrightarrow> headers_ok H \<and> bases rs \<subseteq> H \<and> set fs \<subseteq> H
     \<and> list_rep (memory s) (BlHeapRanges s) (map base rs)
     \<and> list_rep (memory s) (BlFreeRanges s) (map FreeNode fs)
     \<and> (\<forall>r\<in>set rs. block_at (memory s) r)"

definition step_frame :: "u32 set \<Rightarrow> 'a heap_scheme \<Rightarrow> 'a heap_scheme \<Rightarrow> bool" where
  "step_frame H s s' \<longleftrightarrow> same_outside (header_span H) (memory s) (memory s') \<and> heap.more s' = heap.more s"

lemma step_frame_refl [simp]: "step_frame H s s"
  by (simp add: step_frame_def)

lemma step_frame_trans: "step_frame H s s' \<Longrightarrow> step_frame H s' s'' \<Longrightarrow> step_frame H s s''"
  by (auto simp: step_frame_def intro: same_on_trans)

lemma step_frame_mono: "step_frame H s s' \<Longrightarrow> H \<subseteq> H' \<Longrightarrow> step_frame H' s s'"
  unfolding step_frame_def using same_outside_mono [OF _ header_span_mono] by blast

lemma heap_rep_block: "heap_rep s H rs fs \<Longrightarrow> (b, e, f) \<in> set rs \<Longrightarrow>
    b \<in> H \<and> RangeEnd (memory s) b = e \<and> RangeFree (memory s) b = f"
  unfolding heap_rep_def block_at_def by (drule conjunct2, elim conjE) (drule (1) bspec, auto)

lemma heap_rep_more: "heap_rep s H rs fs \<Longrightarrow> headers_ok H' \<Longrightarrow> H \<subseteq> H' \<Longrightarrow> heap_rep s H' rs fs"
  by (auto simp: heap_rep_def)

lemma heap_rep_less: "heap_rep s H rs fs \<Longrightarrow> H' \<subseteq> H \<Longrightarrow> bases rs \<subseteq> H' \<Longrightarrow> set fs \<subseteq> H' \<Longrightarrow> heap_rep s H' rs fs"
  by (auto simp: heap_rep_def intro: headers_ok_mono)

lemma blocks_frame:
  assumes "\<forall>r\<in>set rs. block_at m r" "fst ` set rs \<subseteq> H"
    and "\<And>c. c \<in> H \<Longrightarrow> RangeEnd m' c = RangeEnd m c" "\<And>c. c \<in> H \<Longrightarrow> RangeFree m' c = RangeFree m c"
  shows "\<forall>r\<in>set rs. block_at m' r"
proof
  fix r assume "r \<in> set rs"
  then have "block_at m r" "fst r \<in> H" using assms(1,2) by auto
  then show "block_at m' r" using assms(3,4) by (cases r) (simp add: block_at_def)
qed

text \<open>One pointer step, one abstract step.\<close>

lemma set_map_FreeNode_sub: "set fs \<subseteq> H \<Longrightarrow> set (map FreeNode fs) \<subseteq> FreeNode ` H"
  by auto

lemma heap_insert_rep:
  assumes rep: "heap_rep s H (xs @ ys) fs" and n: "n \<in> H" "n \<notin> bases (xs @ ys)"
    and blk: "block_at (memory s) (n, e, f)" and anchor: "anchor = last_or 0 (map base xs)"
  shows "heap_rep (heap_insert anchor n s) H (xs @ (n, e, f) # ys) fs"
    and "step_frame H s (heap_insert anchor n s)"
    and "\<forall>b\<in>H. RangeEnd (memory (heap_insert anchor n s)) b = RangeEnd (memory s) b
      \<and> RangeFree (memory (heap_insert anchor n s)) b = RangeFree (memory s) b"
proof -
  let ?ns = "map base (xs @ ys)"
  obtain l m where op: "BlListInsertAfter (BlHeapRanges s) anchor n (memory s) = (l, m)"
    by (cases "BlListInsertAfter (BlHeapRanges s) anchor n (memory s)")
  from rep have ok: "headers_ok H" and sub: "set ?ns \<subseteq> H" "set fs \<subseteq> H"
    and L: "list_rep (memory s) (BlHeapRanges s) ?ns" "list_rep (memory s) (BlFreeRanges s) (map FreeNode fs)"
    and B: "\<forall>r\<in>set (xs @ ys). block_at (memory s) r"
    by (auto simp: heap_rep_def)
  have subN: "insert n (set ?ns) \<subseteq> H" using n sub by auto
  have add: "addable n ?ns"
    using n(2) nodes_apart_mono [OF nodes_apart_headers(1) [OF ok] subN] by (simp add: addable_def image_Un)
  have anc: "anchor = 0 \<or> anchor \<in> set ?ns"
    using anchor last_or_in [of "map base xs" 0] by (cases "xs = []") auto
  have ins: "ins_after anchor n ?ns = map base (xs @ (n, e, f) # ys)"
  proof (cases xs rule: rev_cases)
    case (snoc zs z)
    then have "fst z \<noteq> 0" "fst z \<notin> set (map base zs)"
      using L(1) by (auto simp: list_rep_def nodes_apart_def)
    then show ?thesis using snoc anchor ins_after_split [of "fst z" "map base zs" n "map base ys"] by simp
  qed (simp add: anchor)
  from bl.insert_after_law [OF L(1) add anc op]
  have L': "list_rep m l (map base (xs @ (n, e, f) # ys))" and fr: "same_outside (node_span (insert n (set ?ns))) (memory s) m"
    unfolding ins by simp_all
  have "node_span (insert n (set ?ns)) \<inter> node_span (set (map FreeNode fs)) = {}"
    using node_span_mono [OF subN] node_span_mono [OF set_map_FreeNode_sub [OF sub(2)]]
      nodes_apart_headers(3) [OF ok] by blast
  from bl.rep_frame_outside [OF L(2) fr this] have F': "list_rep m (BlFreeRanges s) (map FreeNode fs)" .
  have flds: "RangeEnd m b = RangeEnd (memory s) b" "RangeFree m b = RangeFree (memory s) b" if "b \<in> H" for b
    using range_fields_frame [OF ok that _ fr] subN by auto
  have "\<forall>r\<in>set ((n, e, f) # xs @ ys). block_at m r"
    by (rule blocks_frame [where m = "memory s" and H = H]) (use B blk flds sub(1) n(1) in auto)
  then have "\<forall>r\<in>set (xs @ (n, e, f) # ys). block_at m r" by auto
  with L' F' ok sub n show "heap_rep (heap_insert anchor n s) H (xs @ (n, e, f) # ys) fs"
    by (simp add: heap_rep_def heap_insert_def op image_Un)
  show "step_frame H s (heap_insert anchor n s)"
    using same_outside_mono [OF fr node_span_header(1) [OF subN]] by (simp add: step_frame_def heap_insert_def op)
  show "\<forall>b\<in>H. RangeEnd (memory (heap_insert anchor n s)) b = RangeEnd (memory s) b
      \<and> RangeFree (memory (heap_insert anchor n s)) b = RangeFree (memory s) b"
    by (simp add: heap_insert_def op flds)
qed

lemma heap_remove_rep:
  assumes rep: "heap_rep s H (xs @ (b, e, f) # ys) fs"
  shows "heap_rep (heap_remove b s) H (xs @ ys) fs"
    and "step_frame H s (heap_remove b s)"
    and "\<forall>c\<in>H. RangeEnd (memory (heap_remove b s)) c = RangeEnd (memory s) c
      \<and> RangeFree (memory (heap_remove b s)) c = RangeFree (memory s) c"
proof -
  let ?rs = "xs @ (b, e, f) # ys"
  let ?ns = "map base ?rs"
  obtain l m where op: "BlListRemove (BlHeapRanges s) b (memory s) = (l, m)"
    by (cases "BlListRemove (BlHeapRanges s) b (memory s)")
  from rep have ok: "headers_ok H" and sub: "set ?ns \<subseteq> H" "set fs \<subseteq> H"
    and L: "list_rep (memory s) (BlHeapRanges s) ?ns" "list_rep (memory s) (BlFreeRanges s) (map FreeNode fs)"
    and B: "\<forall>r\<in>set (xs @ ys). block_at (memory s) r"
    by (auto simp: heap_rep_def)
  have "distinct ?ns" using L(1) by (simp add: list_rep_def)
  then have rem: "remove1 b ?ns = map base (xs @ ys)" by (simp add: remove1_append)
  from bl.remove_law [OF L(1) _ op]
  have L': "list_rep m l (map base (xs @ ys))" and fr: "same_outside (node_span (set ?ns)) (memory s) m"
    unfolding rem by simp_all
  have "node_span (set ?ns) \<inter> node_span (set (map FreeNode fs)) = {}"
    using node_span_mono [OF sub(1)] node_span_mono [OF set_map_FreeNode_sub [OF sub(2)]]
      nodes_apart_headers(3) [OF ok] by blast
  from bl.rep_frame_outside [OF L(2) fr this] have F': "list_rep m (BlFreeRanges s) (map FreeNode fs)" .
  have flds: "RangeEnd m c = RangeEnd (memory s) c" "RangeFree m c = RangeFree (memory s) c" if "c \<in> H" for c
    using range_fields_frame [OF ok that _ fr] sub(1) by auto
  have "\<forall>r\<in>set (xs @ ys). block_at m r"
    by (rule blocks_frame [OF B, where H = H]) (use flds sub(1) in auto)
  with L' F' ok sub show "heap_rep (heap_remove b s) H (xs @ ys) fs"
    by (simp add: heap_rep_def heap_remove_def op image_Un)
  show "step_frame H s (heap_remove b s)"
    using same_outside_mono [OF fr node_span_header(1) [OF sub(1)]] by (simp add: step_frame_def heap_remove_def op)
  show "\<forall>c\<in>H. RangeEnd (memory (heap_remove b s)) c = RangeEnd (memory s) c
      \<and> RangeFree (memory (heap_remove b s)) c = RangeFree (memory s) c"
    by (simp add: heap_remove_def op flds)
qed

text \<open>The free list: the anchor is the \<open>FreeNode\<close> of a free range, or null.\<close>

lemma ins_after_map_FreeNode:
  "FreeNode a \<noteq> 0 \<Longrightarrow> a \<noteq> 0 \<Longrightarrow>
    ins_after (FreeNode a) (FreeNode n) (map FreeNode fs) = map FreeNode (ins_after a n fs)"
  by (induction fs) auto

lemma free_insert_rep:
  assumes rep: "heap_rep s H rs fs" and n: "n \<in> H" "n \<notin> set fs"
    and anchor: "anchor = 0 \<and> fs' = n # fs \<or> (\<exists>a\<in>set fs. anchor = FreeNode a \<and> fs' = ins_after a n fs)"
  shows "heap_rep (free_insert anchor (FreeNode n) s) H rs fs'"
    and "step_frame H s (free_insert anchor (FreeNode n) s)"
    and "\<forall>c\<in>H. RangeEnd (memory (free_insert anchor (FreeNode n) s)) c = RangeEnd (memory s) c
      \<and> RangeFree (memory (free_insert anchor (FreeNode n) s)) c = RangeFree (memory s) c"
proof -
  let ?ns = "map FreeNode fs"
  let ?s = "free_insert anchor (FreeNode n) s"
  obtain l m where op: "BlListInsertAfter (BlFreeRanges s) anchor (FreeNode n) (memory s) = (l, m)"
    by (cases "BlListInsertAfter (BlFreeRanges s) anchor (FreeNode n) (memory s)")
  from rep have ok: "headers_ok H" and sub: "set (map base rs) \<subseteq> H" "set fs \<subseteq> H"
    and L: "list_rep (memory s) (BlHeapRanges s) (map base rs)" "list_rep (memory s) (BlFreeRanges s) ?ns"
    and B: "\<forall>r\<in>set rs. block_at (memory s) r"
    by (auto simp: heap_rep_def)
  have subN: "insert (FreeNode n) (set ?ns) \<subseteq> FreeNode ` H" using n sub by auto
  have add: "addable (FreeNode n) ?ns"
    using n(2) nodes_apart_mono [OF nodes_apart_headers(2) [OF ok] subN] by (auto simp: addable_def)
  have anc: "anchor = 0 \<or> anchor \<in> set ?ns" using anchor by auto
  have ins: "ins_after anchor (FreeNode n) ?ns = map FreeNode fs'"
  proof (cases "anchor = 0")
    case True
    moreover have "anchor \<noteq> FreeNode a" if "a \<in> set fs" for a
      using True that L(2) by (auto simp: list_rep_def nodes_apart_def)
    ultimately show ?thesis using anchor by auto
  next
    case False
    with anchor obtain a where a: "a \<in> set fs" "anchor = FreeNode a" "fs' = ins_after a n fs" by auto
    then have "a \<noteq> 0" using sub(2) ok by (auto simp: headers_ok_def)
    then show ?thesis using ins_after_map_FreeNode [of a n fs] False a by simp
  qed
  from bl.insert_after_law [OF L(2) add anc op]
  have F': "list_rep m l (map FreeNode fs')" and fr: "same_outside (node_span (insert (FreeNode n) (set ?ns))) (memory s) m"
    by (simp_all add: ins)
  have "node_span (insert (FreeNode n) (set ?ns)) \<inter> node_span (set (map base rs)) = {}"
    using node_span_mono [OF subN] node_span_mono [OF sub(1)] nodes_apart_headers(3) [OF ok] by blast
  from bl.rep_frame_outside [OF L(1) fr this] have L': "list_rep m (BlHeapRanges s) (map base rs)" .
  have flds: "RangeEnd m c = RangeEnd (memory s) c" "RangeFree m c = RangeFree (memory s) c" if "c \<in> H" for c
    using range_fields_frame [OF ok that _ fr] subN by auto
  have "set fs' \<subseteq> H" using anchor n sub(2) by auto
  moreover have "\<forall>r\<in>set rs. block_at m r"
    by (rule blocks_frame [OF B, where H = H]) (use flds sub(1) in auto)
  ultimately show "heap_rep ?s H rs fs'"
    using L' F' ok sub by (simp add: heap_rep_def free_insert_def op)
  show "step_frame H s ?s"
    using same_outside_mono [OF fr node_span_header(2) [OF subN]] by (simp add: step_frame_def free_insert_def op)
  show "\<forall>c\<in>H. RangeEnd (memory ?s) c = RangeEnd (memory s) c \<and> RangeFree (memory ?s) c = RangeFree (memory s) c"
    by (simp add: free_insert_def op flds)
qed

lemma remove1_map_FreeNode: "remove1 (FreeNode b) (map FreeNode fs) = map FreeNode (remove1 b fs)"
  by (induction fs) auto

lemma free_remove_rep:
  assumes rep: "heap_rep s H rs fs" and b: "b \<in> set fs"
  shows "heap_rep (free_remove (FreeNode b) s) H rs (remove1 b fs)"
    and "step_frame H s (free_remove (FreeNode b) s)"
    and "\<forall>c\<in>H. RangeEnd (memory (free_remove (FreeNode b) s)) c = RangeEnd (memory s) c
      \<and> RangeFree (memory (free_remove (FreeNode b) s)) c = RangeFree (memory s) c"
proof -
  let ?ns = "map FreeNode fs"
  let ?s = "free_remove (FreeNode b) s"
  obtain l m where op: "BlListRemove (BlFreeRanges s) (FreeNode b) (memory s) = (l, m)"
    by (cases "BlListRemove (BlFreeRanges s) (FreeNode b) (memory s)")
  from rep have ok: "headers_ok H" and sub: "set (map base rs) \<subseteq> H" "set fs \<subseteq> H"
    and L: "list_rep (memory s) (BlHeapRanges s) (map base rs)" "list_rep (memory s) (BlFreeRanges s) ?ns"
    and B: "\<forall>r\<in>set rs. block_at (memory s) r"
    by (auto simp: heap_rep_def)
  have subN: "set ?ns \<subseteq> FreeNode ` H" using sub by auto
  have "FreeNode b \<in> set ?ns" using b by auto
  from bl.remove_law [OF L(2) this op]
  have F': "list_rep m l (map FreeNode (remove1 b fs))" and fr: "same_outside (node_span (set ?ns)) (memory s) m"
    by (simp_all add: remove1_map_FreeNode)
  have "node_span (set ?ns) \<inter> node_span (set (map base rs)) = {}"
    using node_span_mono [OF subN] node_span_mono [OF sub(1)] nodes_apart_headers(3) [OF ok] by blast
  from bl.rep_frame_outside [OF L(1) fr this] have L': "list_rep m (BlHeapRanges s) (map base rs)" .
  have flds: "RangeEnd m c = RangeEnd (memory s) c" "RangeFree m c = RangeFree (memory s) c" if "c \<in> H" for c
    using range_fields_frame [OF ok that _ fr] subN by auto
  have "set (remove1 b fs) \<subseteq> H" using sub(2) set_remove1_subset [of b fs] by blast
  moreover have "\<forall>r\<in>set rs. block_at m r"
    by (rule blocks_frame [OF B, where H = H]) (use flds sub(1) in auto)
  ultimately show "heap_rep ?s H rs (remove1 b fs)"
    using L' F' ok sub by (simp add: heap_rep_def free_remove_def op)
  show "step_frame H s ?s"
    using same_outside_mono [OF fr node_span_header(2) [OF subN]] by (simp add: step_frame_def free_remove_def op)
  show "\<forall>c\<in>H. RangeEnd (memory ?s) c = RangeEnd (memory s) c \<and> RangeFree (memory ?s) c = RangeFree (memory s) c"
    by (simp add: free_remove_def op flds)
qed

text \<open>Writing the \<open>End\<close> and \<open>Free\<close> fields: of a block, and of a header not yet on the list.\<close>

lemma write_rep:
  assumes rep: "heap_rep s H rs fs" and b: "b \<in> H" "b \<notin> bases rs"
  shows "heap_rep (write_End b v s) H rs fs" "heap_rep (write_Free b f s) H rs fs"
    and "step_frame H s (write_End b v s)" "step_frame H s (write_Free b f s)"
    and "\<forall>c\<in>H. RangeEnd (memory (write_End b v s)) c = (if c = b then v else RangeEnd (memory s) c)
      \<and> RangeFree (memory (write_End b v s)) c = RangeFree (memory s) c"
    and "\<forall>c\<in>H. RangeFree (memory (write_Free b f s)) c = (if c = b then f else RangeFree (memory s) c)
      \<and> RangeEnd (memory (write_Free b f s)) c = RangeEnd (memory s) c"
proof -
  from rep have ok: "headers_ok H" and sub: "bases rs \<subseteq> H" "set fs \<subseteq> H"
    and L: "list_rep (memory s) (BlHeapRanges s) (map base rs)" "list_rep (memory s) (BlFreeRanges s) (map FreeNode fs)"
    and B: "\<forall>r\<in>set rs. block_at (memory s) r"
    by (auto simp: heap_rep_def)
  note W = write_fields [OF ok b(1)]
  have N: "node_span (set (map base rs)) \<subseteq> node_span H" "node_span (set (map FreeNode fs)) \<subseteq> node_span (FreeNode ` H)"
    using sub by (auto intro!: node_span_mono)
  have L': "list_rep (set_RangeEnd (memory s) b v) (BlHeapRanges s) (map base rs)"
    "list_rep (set_RangeEnd (memory s) b v) (BlFreeRanges s) (map FreeNode fs)"
    "list_rep (set_RangeFree (memory s) b f) (BlHeapRanges s) (map base rs)"
    "list_rep (set_RangeFree (memory s) b f) (BlFreeRanges s) (map FreeNode fs)"
    using bl.rep_frame [OF L(1)] bl.rep_frame [OF L(2)] W(5-8) [OF b(1)] N
    by (blast intro: same_on_mono)+
  have "\<forall>r\<in>set rs. block_at (set_RangeEnd (memory s) b v) r"
    "\<forall>r\<in>set rs. block_at (set_RangeFree (memory s) b f) r"
    by (rule blocks_frame [OF B, where H = "H - {b}"]; use W sub b in auto)+
  with L' ok sub show "heap_rep (write_End b v s) H rs fs" "heap_rep (write_Free b f s) H rs fs"
    by (simp_all add: heap_rep_def write_End_def write_Free_def)
  show "step_frame H s (write_End b v s)" "step_frame H s (write_Free b f s)"
    using W(9,10) [OF b(1)] by (simp_all add: step_frame_def write_End_def write_Free_def)
  show "\<forall>c\<in>H. RangeEnd (memory (write_End b v s)) c = (if c = b then v else RangeEnd (memory s) c)
      \<and> RangeFree (memory (write_End b v s)) c = RangeFree (memory s) c"
    "\<forall>c\<in>H. RangeFree (memory (write_Free b f s)) c = (if c = b then f else RangeFree (memory s) c)
      \<and> RangeEnd (memory (write_Free b f s)) c = RangeEnd (memory s) c"
    using W by (simp_all add: write_End_def write_Free_def)
qed

lemma write_block_rep:
  assumes rep: "heap_rep s H (xs @ (b, e, f) # ys) fs"
  shows "heap_rep (write_End b e' s) H (xs @ (b, e', f) # ys) fs" "step_frame H s (write_End b e' s)"
    and "heap_rep (write_Free b f' s) H (xs @ (b, e, f') # ys) fs" "step_frame H s (write_Free b f' s)"
proof -
  let ?rs = "xs @ (b, e, f) # ys"
  from rep have ok: "headers_ok H" and sub: "bases ?rs \<subseteq> H" "set fs \<subseteq> H" "b \<in> H"
    and L: "list_rep (memory s) (BlHeapRanges s) (map base ?rs)" "list_rep (memory s) (BlFreeRanges s) (map FreeNode fs)"
    and B: "\<forall>r\<in>set (xs @ ys). block_at (memory s) r" "block_at (memory s) (b, e, f)"
    by (auto simp: heap_rep_def)
  note W = write_fields [OF ok sub(3)]
  have dist: "b \<notin> bases (xs @ ys)" using L(1) by (auto simp: list_rep_def)
  have N: "node_span (set (map base ?rs)) \<subseteq> node_span H" "node_span (set (map FreeNode fs)) \<subseteq> node_span (FreeNode ` H)"
    using sub by (auto intro!: node_span_mono)
  have L': "list_rep (set_RangeEnd (memory s) b e') (BlHeapRanges s) (map base ?rs)"
    "list_rep (set_RangeEnd (memory s) b e') (BlFreeRanges s) (map FreeNode fs)"
    "list_rep (set_RangeFree (memory s) b f') (BlHeapRanges s) (map base ?rs)"
    "list_rep (set_RangeFree (memory s) b f') (BlFreeRanges s) (map FreeNode fs)"
    using bl.rep_frame [OF L(1)] bl.rep_frame [OF L(2)] W(5-8) [OF sub(3)] N
    by (blast intro: same_on_mono)+
  have "\<forall>r\<in>set (xs @ ys). block_at (set_RangeEnd (memory s) b e') r"
    "\<forall>r\<in>set (xs @ ys). block_at (set_RangeFree (memory s) b f') r"
    by (rule blocks_frame [OF B(1), where H = "H - {b}"]; use W sub dist in auto)+
  moreover have "block_at (set_RangeEnd (memory s) b e') (b, e', f)"
    "block_at (set_RangeFree (memory s) b f') (b, e, f')"
    using W B(2) sub(3) by (simp_all add: block_at_def)
  ultimately show "heap_rep (write_End b e' s) H (xs @ (b, e', f) # ys) fs"
    "heap_rep (write_Free b f' s) H (xs @ (b, e, f') # ys) fs"
    using L' ok sub by (auto simp: heap_rep_def write_End_def write_Free_def)
  show "step_frame H s (write_End b e' s)" "step_frame H s (write_Free b f' s)"
    using W(9,10) [OF sub(3)] by (simp_all add: step_frame_def write_End_def write_Free_def)
qed

text \<open>A new header, filled in and put on the list of ranges behind the block before it.\<close>

lemma new_block_rep:
  fixes e :: u32 and f :: bool
  assumes rep: "heap_rep s H (xs @ ys) fs" and n: "n \<in> H" "n \<notin> bases (xs @ ys)"
    and anchor: "anchor = last_or 0 (map base xs)"
  defines "s' \<equiv> heap_insert anchor n (write_Free n f (write_End n e s))"
  shows "heap_rep s' H (xs @ (n, e, f) # ys) fs" "step_frame H s s'"
proof -
  let ?s1 = "write_End n e s" let ?s2 = "write_Free n f ?s1"
  have r1: "heap_rep ?s1 H (xs @ ys) fs" by (rule write_rep(1) [OF rep n])
  have r2: "heap_rep ?s2 H (xs @ ys) fs" by (rule write_rep(2) [OF r1 n])
  have "block_at (memory ?s2) (n, e, f)"
    using write_rep(5) [OF rep n, of e] write_rep(6) [OF r1 n, of f] n(1) by (simp add: block_at_def)
  from heap_insert_rep [OF r2 n this anchor]
  show "heap_rep s' H (xs @ (n, e, f) # ys) fs" by (simp add: s'_def)
  from heap_insert_rep(2) [OF r2 n \<open>block_at (memory ?s2) (n, e, f)\<close> anchor]
    write_rep(3) [OF rep n, of e] write_rep(4) [OF r1 n, of f]
  show "step_frame H s s'" unfolding s'_def by (blast intro: step_frame_trans)
qed

end
