(* ===== verification/Heap_Inv.thy ===== *)
theory Heap_Inv
  imports Heap_Rep
begin

text \<open>
  The heap's invariant (ranges in address order, disjoint, aligned, each at least a header
  long, no two adjacent free ranges that touch, the free list holding exactly the free ranges)
  and what the search loops and the carving of a range do under it.
\<close>

section \<open>The invariant\<close>

fun ordered :: "nat \<Rightarrow> block list \<Rightarrow> bool" where
  "ordered lo [] \<longleftrightarrow> True"
| "ordered lo ((b, e, f) # rs) \<longleftrightarrow>
     lo \<le> unat b \<and> unat b + 24 \<le> unat e \<and> 4 dvd unat b \<and> 4 dvd unat e \<and> ordered (unat e) rs"

fun coalesced :: "block list \<Rightarrow> bool" where
  "coalesced ((b, e, f) # (b', e', f') # rs) \<longleftrightarrow> \<not> (f \<and> f' \<and> e = b') \<and> coalesced ((b', e', f') # rs)"
| "coalesced rs \<longleftrightarrow> True"

definition free_bases :: "block list \<Rightarrow> u32 set" where
  "free_bases rs = fst ` {r \<in> set rs. snd (snd r)}"

definition heap_inv :: "'a heap_scheme \<Rightarrow> block list \<Rightarrow> u32 list \<Rightarrow> bool" where
  "heap_inv s rs fs \<longleftrightarrow> heap_rep s (bases rs) rs fs \<and> ordered 1 rs \<and> coalesced rs \<and> set fs = free_bases rs"

definition end_or :: "nat \<Rightarrow> block list \<Rightarrow> nat" where
  "end_or lo rs = (if rs = [] then lo else unat (fst (snd (last rs))))"

lemma end_or_simps [simp]: "end_or lo [] = lo" "end_or lo ((b, e, f) # rs) = end_or (unat e) rs"
  by (simp_all add: end_or_def)

lemma ordered_append [simp]: "ordered lo (xs @ ys) \<longleftrightarrow> ordered lo xs \<and> ordered (end_or lo xs) ys"
  by (induction lo xs rule: ordered.induct) auto

lemma ordered_mono: "ordered lo rs \<Longrightarrow> lo' \<le> lo \<Longrightarrow> ordered lo' rs"
  by (cases "(lo, rs)" rule: ordered.cases) auto

lemma end_or_ge: "ordered lo rs \<Longrightarrow> lo \<le> end_or lo rs"
  by (induction lo rs rule: ordered.induct) auto

lemma ordered_bounds: "ordered lo rs \<Longrightarrow> (b, e, f) \<in> set rs \<Longrightarrow>
    lo \<le> unat b \<and> unat b + 24 \<le> unat e \<and> 4 dvd unat b \<and> 4 dvd unat e \<and> unat e \<le> end_or lo rs"
proof (induction lo rs rule: ordered.induct)
  case (2 lo b' e' f' rs)
  have "unat e' \<le> end_or (unat e') rs"
    using "2.prems"(1) by (simp add: end_or_ge)
  with 2 show ?case by fastforce
qed simp

lemma free_bases_simps [simp]:
  "free_bases [] = {}" "free_bases ((b, e, f) # rs) = (if f then insert b (free_bases rs) else free_bases rs)"
  "free_bases (xs @ ys) = free_bases xs \<union> free_bases ys"
  by (force simp: free_bases_def)+

lemma free_bases_sub: "free_bases rs \<subseteq> bases rs"
  by (auto simp: free_bases_def)

lemma unat32_fits: "unat (a :: u32) + n \<le> unat (b :: u32) \<Longrightarrow> fits a n"
  using unat_lt32 [of b] by (simp add: fits_def)

lemma ordered_headers_ok: "ordered lo rs \<Longrightarrow> 0 < lo \<Longrightarrow> headers_ok (bases rs) \<and> distinct (map fst rs)"
proof (induction lo rs rule: ordered.induct)
  case (1 lo)
  show ?case by (simp add: headers_ok_def)
next
  case (2 lo b e f rs)
  then have "0 < unat e" "ordered (unat e) rs" by auto
  then have IH: "headers_ok (bases rs)" "distinct (map fst rs)" using "2.IH" by auto
  have b: "b \<noteq> 0" "fits b 24" using "2.prems" by (auto intro: unat32_fits)
  have apart: "span b 24 \<inter> span c 24 = {}" "c \<noteq> b" if "c \<in> bases rs" for c
  proof -
    from that obtain d g where "(c, d, g) \<in> set rs" by auto
    with ordered_bounds [of "unat e" rs c d g] "2.prems"
    have "unat b + 24 \<le> unat c" "fits c 24" by (auto intro: unat32_fits)
    with b show "span b 24 \<inter> span c 24 = {}" "c \<noteq> b" using span_disjoint by auto
  qed
  then have "b \<notin> bases rs" by blast
  with IH b apart show ?case
    by (auto simp: headers_ok_def Int_commute)
qed

lemma links_split:
  "links m p (xs @ n # ys) q \<Longrightarrow> NodePrev m n = last_or p xs \<and> NodeNext m n = head_or ys q"
  by simp

lemma heap_rep_links:
  assumes "heap_rep s H (xs @ (b, e, f) # ys) fs"
  shows "RangePrev (memory s) b = last_or 0 (map base xs)" "RangeNext (memory s) b = head_or (map base ys) 0"
proof -
  have "links (memory s) 0 (map base xs @ b # map base ys) 0"
    using assms by (simp add: heap_rep_def list_rep_def)
  from links_split [OF this] show "RangePrev (memory s) b = last_or 0 (map base xs)"
    "RangeNext (memory s) b = head_or (map base ys) 0"
    by (simp_all add: RangePrev_def RangeNext_def BL_CONTAINER_def)
qed

lemma head_or_map: "head_or (map f ns) q = (if ns = [] then q else f (hd ns))"
  by (cases ns) auto

lemma heap_rep_free_links:
  assumes "heap_rep s H rs (xs @ b # ys)"
  shows "FreeNext (memory s) b = head_or ys 0"
proof -
  have L: "list_rep (memory s) (BlFreeRanges s) (map FreeNode xs @ FreeNode b # map FreeNode ys)"
    using assms by (simp add: heap_rep_def)
  then have "NodeNext (memory s) (FreeNode b) = head_or (map FreeNode ys) 0"
    by (simp add: list_rep_def)
  moreover have "FreeNode y \<noteq> 0" if "y \<in> set ys" for y
    using L that by (auto simp: list_rep_def nodes_apart_def)
  ultimately show ?thesis
    by (cases ys) (auto simp: FreeNext_def BL_CONTAINER_def FreeNode_def)
qed

lemma heap_rep_free_head:
  assumes "heap_rep s H rs fs"
  shows "BL_CONTAINER 8 (Head (BlFreeRanges s)) = head_or fs 0"
proof -
  have L: "list_rep (memory s) (BlFreeRanges s) (map FreeNode fs)"
    using assms by (simp add: heap_rep_def)
  moreover have "FreeNode y \<noteq> 0" if "y \<in> set fs" for y
    using L that by (auto simp: list_rep_def nodes_apart_def)
  ultimately show ?thesis
    by (cases fs) (auto simp: list_rep_def BL_CONTAINER_def FreeNode_def)
qed

lemma heap_rep_range_head:
  assumes "heap_rep s H rs fs"
  shows "BL_CONTAINER 0 (Head (BlHeapRanges s)) = head_or (map base rs) 0"
  using assms by (simp add: heap_rep_def list_rep_def BL_CONTAINER_def)

lemma heap_rep_distinct: "heap_rep s H rs fs \<Longrightarrow> distinct fs \<and> distinct (map fst rs) \<and> 0 \<notin> H"
  by (auto simp: heap_rep_def list_rep_def distinct_map headers_ok_def)

section \<open>Carving a free range\<close>

text \<open>
  What is left of a free range \<open>[b, e)\<close> when \<open>[ab, ae)\<close> is taken from it: a free head if
  it has room for a header, the allocated range (none when the allocation is permanent), and a
  free tail if it has room for a header; otherwise the tail goes to the allocation.
\<close>

definition head_piece :: "u32 \<Rightarrow> u32 \<Rightarrow> block list" where
  "head_piece b ab = (if ab - b \<ge> 24 then [(b, ab, True)] else [])"

definition tail_piece :: "u32 \<Rightarrow> u32 \<Rightarrow> block list" where
  "tail_piece ae e = (if e - ae \<ge> 24 then [(ae, e, True)] else [])"

definition alloc_piece :: "bool \<Rightarrow> u32 \<Rightarrow> u32 \<Rightarrow> u32 \<Rightarrow> block list" where
  "alloc_piece permanent ab ae e = (if permanent then [] else [(ab, if e - ae \<ge> 24 then ae else e, False)])"

definition area :: "u32 \<Rightarrow> u32 \<Rightarrow> u32 set" where
  "area b e = {x. b \<le> x \<and> x < e}"

lemma header_span_insert: "header_span (insert a H) = span a 24 \<union> header_span H"
  by (simp add: header_span_def)

lemma span_area: "unat b \<le> unat a \<Longrightarrow> unat a + n \<le> unat e \<Longrightarrow> span a n \<subseteq> area b e"
  by (auto simp: area_def span_fits unat32_fits word_le_nat_alt word_less_nat_alt)

lemma unat_sub32: "unat (b :: u32) \<le> unat a \<Longrightarrow> unat (a - b) = unat a - unat b"
  by (simp add: unat_sub word_le_nat_alt)

lemma ge24: "unat (b :: u32) \<le> unat a \<Longrightarrow> 24 \<le> a - b \<longleftrightarrow> unat b + 24 \<le> unat a"
  by (auto simp: word_le_nat_alt unat_sub32)

lemma set_remove1_distinct: "distinct fs \<Longrightarrow> set (remove1 b fs) = set fs - {b}"
  by simp

lemma carve_rep:
  assumes rep: "heap_rep s (bases (xs @ (b, e, True) # ys)) (xs @ (b, e, True) # ys) fs"
    and ord: "ordered 1 (xs @ (b, e, True) # ys)" and fs: "set fs = free_bases (xs @ (b, e, True) # ys)"
    and geo: "unat b \<le> unat ab" "unat ae < unat e" "4 dvd unat ab" "4 dvd unat ae" "unat b + 24 \<le> unat ae"
      "\<not> permanent \<Longrightarrow> unat ab + 24 \<le> unat ae" "permanent \<Longrightarrow> unat ab \<le> unat ae"
  defines "rs' \<equiv> xs @ head_piece b ab @ alloc_piece permanent ab ae e @ tail_piece ae e @ ys"
  shows "\<exists>fs'. heap_rep (carve b permanent ab ae s) (bases rs') rs' fs' \<and> set fs' = free_bases rs'
    \<and> step_frame (bases (xs @ ys) \<union> {b} \<union> bases rs') s (carve b permanent ab ae s)"
proof -
  let ?rs = "xs @ (b, e, True) # ys" let ?tl = "tail_piece ae e" let ?hd = "head_piece b ab"
  have be: "unat b + 24 \<le> unat e" "4 dvd unat b" "4 dvd unat e" and oxs: "ordered 1 xs" "end_or 1 xs \<le> unat b"
    and oys: "ordered (unat e) ys"
    using ord by auto
  have aeb: "e - ae \<ge> 24 \<longleftrightarrow> unat ae + 24 \<le> unat e" "ab - b \<ge> 24 \<longleftrightarrow> unat b + 24 \<le> unat ab"
    using ge24 geo by simp_all
  \<comment> \<open>the tail\<close>
  define H1 where "H1 = bases (xs @ (b, ae, True) # ?tl @ ys)"
  have "ordered 1 (xs @ (b, ae, True) # ?tl @ ys)"
    using be oxs oys geo by (auto simp: tail_piece_def aeb intro: ordered_mono)
  note ok1 = ordered_headers_ok [OF this zero_less_one]
  have H1: "headers_ok H1" and d1: "distinct (map fst (xs @ (b, ae, True) # ?tl @ ys))"
    unfolding H1_def using ok1 by (rule conjunct1, rule conjunct2)
  have rep0: "heap_rep s H1 (xs @ (b, e, True) # ys) fs"
    by (rule heap_rep_more [OF rep H1]) (auto simp: H1_def)
  have endb: "RangeEnd (memory s) b = e" using heap_rep_block [OF rep0, of b e True] by simp
  have bfs: "b \<in> set fs" using fs by simp
  define s1 where "s1 = (if e - ae \<ge> 24 then free_insert (FreeNode b) (FreeNode ae) (heap_insert b ae
      (write_Free ae True (write_End ae e s))) else s)"
  define fs1 where "fs1 = (if e - ae \<ge> 24 then ins_after b ae fs else fs)"
  have fs1: "set fs1 = set fs \<union> bases ?tl" by (simp add: fs1_def tail_piece_def)
  have s1: "heap_rep s1 H1 (xs @ (b, e, True) # ?tl @ ys) fs1 \<and> step_frame H1 s s1"
  proof (cases "e - ae \<ge> 24")
    case True
    then have ae: "ae \<in> H1" "ae \<notin> bases ((xs @ [(b, e, True)]) @ ys)"
      using d1 by (auto simp: H1_def tail_piece_def)
    have rep0': "heap_rep s H1 ((xs @ [(b, e, True)]) @ ys) fs" using rep0 by simp
    note nb = new_block_rep [OF rep0' ae, where e = e and f = True and anchor = b]
    let ?s = "heap_insert b ae (write_Free ae True (write_End ae e s))"
    have "ae \<notin> set fs" using fs free_bases_sub [of ?rs] ae(2) by auto
    then show ?thesis
      using free_insert_rep [of ?s H1 "(xs @ [(b, e, True)]) @ (ae, e, True) # ys" fs ae "FreeNode b" fs1] nb ae(1) bfs True
      unfolding s1_def fs1_def tail_piece_def by (auto intro: step_frame_trans)
  qed (use rep0 in \<open>simp add: s1_def fs1_def tail_piece_def\<close>)
  \<comment> \<open>the head\<close>
  define s2 where "s2 = (if ab - b \<ge> 24 then write_End b ab s1 else free_remove (FreeNode b) (heap_remove b s1))"
  define fs2 where "fs2 = (if ab - b \<ge> 24 then fs1 else remove1 b fs1)"
  have d: "distinct fs1" using heap_rep_distinct s1 by blast
  have s2: "heap_rep s2 H1 (xs @ ?hd @ ?tl @ ys) fs2 \<and> step_frame H1 s1 s2"
  proof (cases "ab - b \<ge> 24")
    case True
    then show ?thesis
      using write_block_rep(1,2) [of s1 H1 xs b e True "?tl @ ys" fs1 ab] s1 by (simp add: s2_def fs2_def head_piece_def)
  next
    case False
    have r: "heap_rep s1 H1 (xs @ (b, e, True) # ?tl @ ys) fs1" using s1 by simp
    have "b \<in> set fs1" using fs1 bfs by simp
    with False heap_remove_rep(1,2) [OF r] free_remove_rep(1,2) [OF heap_remove_rep(1) [OF r]]
    show ?thesis by (auto simp: s2_def fs2_def head_piece_def intro: step_frame_trans)
  qed
  have bnot: "b \<notin> bases (xs @ ?tl @ ys)" using d1 by auto
  then have "b \<notin> free_bases (xs @ ?tl @ ys)" using free_bases_sub [of "xs @ ?tl @ ys"] by blast
  moreover have "free_bases ?tl = bases ?tl" by (simp add: tail_piece_def)
  ultimately have fs2: "set fs2 = free_bases (xs @ ?hd @ ?tl @ ys)"
    using d fs1 fs by (auto simp: fs2_def head_piece_def)
  have fb: "free_bases rs' = free_bases (xs @ ?hd @ ?tl @ ys)"
    by (simp add: rs'_def alloc_piece_def)
  \<comment> \<open>the allocated range\<close>
  have ord': "ordered 1 rs'"
    using be oxs oys geo unfolding rs'_def
    by (auto simp: head_piece_def tail_piece_def alloc_piece_def aeb intro: ordered_mono)
  note ok' = ordered_headers_ok [OF this zero_less_one]
  have H': "headers_ok (bases rs')" and d': "distinct (map fst rs')"
    using ok' by (rule conjunct1, rule conjunct2)
  have sub2: "bases (xs @ ?hd @ ?tl @ ys) \<subseteq> bases rs'" by (auto simp: rs'_def)
  have "heap_rep s2 (bases (xs @ ?hd @ ?tl @ ys)) (xs @ ?hd @ ?tl @ ys) fs2"
  proof (rule heap_rep_less [OF conjunct1 [OF s2]])
    show "bases (xs @ ?hd @ ?tl @ ys) \<subseteq> H1" by (auto simp: H1_def head_piece_def)
    show "set fs2 \<subseteq> bases (xs @ ?hd @ ?tl @ ys)" unfolding fs2 by (rule free_bases_sub)
  qed (rule order_refl)
  then have r3: "heap_rep s2 (bases rs') (xs @ ?hd @ ?tl @ ys) fs2"
    by (rule heap_rep_more [OF _ H' sub2])
  define anchor where "anchor = last_or 0 (map fst (xs @ ?hd))"
  define s3 where "s3 = (if permanent then s2
      else heap_insert anchor ab (write_Free ab False (write_End ab (if e - ae \<ge> 24 then ae else e) s2)))"
  have s3: "heap_rep s3 (bases rs') rs' fs2 \<and> step_frame (bases rs') s2 s3"
  proof (cases permanent)
    case False
    then have ab: "ab \<in> bases rs'" "ab \<notin> bases ((xs @ ?hd) @ (?tl @ ys))"
      using d' by (auto simp: rs'_def alloc_piece_def)
    have "heap_rep s2 (bases rs') ((xs @ ?hd) @ (?tl @ ys)) fs2" using r3 by simp
    from new_block_rep [OF this ab anchor_def] False
    show ?thesis by (auto simp: s3_def rs'_def alloc_piece_def)
  qed (use r3 in \<open>simp add: s3_def rs'_def alloc_piece_def\<close>)
  have prev: "RangePrev (memory s1) b = last_or 0 (map fst xs)"
    using heap_rep_links(1) s1 by blast
  have "carve b permanent ab ae s = s3"
    unfolding carve_def s3_def s2_def s1_def anchor_def SIZEOF_HeapRange_def endb Let_def
    using prev by (auto simp: s1_def head_piece_def)
  moreover have "step_frame (bases (xs @ ys) \<union> {b} \<union> bases rs') s s3"
  proof -
    have "H1 \<subseteq> bases (xs @ ys) \<union> {b} \<union> bases rs'" by (auto simp: H1_def rs'_def)
    with s1 s2 s3 show ?thesis by (meson Un_upper2 step_frame_mono step_frame_trans)
  qed
  ultimately show ?thesis using s3 fs2 fb by auto
qed

end
