(* ===== verification/Heap_Alloc.thy ===== *)
theory Heap_Alloc
  imports Heap_Inv
begin

text \<open>
  Allocation: the search of the free list, the arithmetic of one candidate range, and the
  contract of \<open>BlAllocateHeap\<close> over the heap invariant.
\<close>

section \<open>What the heap covers\<close>

definition foot :: "block list \<Rightarrow> u32 set" where
  "foot rs = (\<Union>r\<in>set rs. area (fst r) (fst (snd r)))"

definition live :: "block list \<Rightarrow> (u32 \<times> u32) set" where
  "live rs = {(b, e). (b, e, False) \<in> set rs}"

definition live_data :: "block list \<Rightarrow> u32 set" where
  "live_data rs = (\<Union>(b, e)\<in>live rs. area (b + 24) e)"

text \<open>
  Everything but heap bookkeeping is left alone: the contents of allocated ranges and all
  memory outside the heap's ranges.
\<close>

definition data_kept :: "block list \<Rightarrow> 'a heap_scheme \<Rightarrow> 'a heap_scheme \<Rightarrow> bool" where
  "data_kept rs s s' \<longleftrightarrow> same_on (live_data rs \<union> - foot rs) (memory s) (memory s') \<and> heap.more s' = heap.more s"

lemma live_simps [simp]:
  "live [] = {}" "live ((b, e, f) # rs) = (if f then live rs else insert (b, e) (live rs))"
  "live (xs @ ys) = live xs \<union> live ys"
  by (auto simp: live_def)

lemma foot_simps [simp]:
  "foot [] = {}" "foot ((b, e, f) # rs) = area b e \<union> foot rs" "foot (xs @ ys) = foot xs \<union> foot ys"
  by (auto simp: foot_def)

lemma ordered_apart:
  assumes "ordered lo rs" "(b, e, f) \<in> set rs" "(b', e', f') \<in> set rs"
  shows "(b, e, f) = (b', e', f') \<or> unat e \<le> unat b' \<or> unat e' \<le> unat b"
  using assms
proof (induction lo rs rule: ordered.induct)
  case (2 lo c d g rs)
  note B = ordered_bounds [of "unat d" rs]
  from 2 show ?case by (auto dest: B)
qed simp

lemma area_disjoint: "unat e \<le> unat b' \<Longrightarrow> area b e \<inter> area b' e' = {}"
  by (auto simp: area_def word_le_nat_alt word_less_nat_alt)

lemma area_disjoint': "unat e \<le> unat b' \<or> unat e' \<le> unat b \<Longrightarrow> area b e \<inter> area b' e' = {}"
  by (auto simp: area_def word_le_nat_alt word_less_nat_alt)

lemma unat_add_off: "fits b 24 \<Longrightarrow> unat b + 24 < 2 ^ 32 \<Longrightarrow> unat (b + 24 :: u32) = unat b + 24"
  by (simp add: unat_word_ariths)

lemma live_area: "unat b + 24 \<le> unat e \<Longrightarrow> area (b + 24) e = area b e - span b 24"
  using unat_lt32 [of e]
  by (auto simp: area_def span_fits unat32_fits word_le_nat_alt word_less_nat_alt unat_word_ariths)

text \<open>
  Headers of the heap's ranges, and new headers inside its free ranges, are neither data of
  an allocated range nor outside the heap.
\<close>

definition header_place :: "block list \<Rightarrow> u32 \<Rightarrow> bool" where
  "header_place rs h \<longleftrightarrow> h \<in> bases rs \<or>
     (\<exists>b e. (b, e, True) \<in> set rs \<and> unat b \<le> unat h \<and> unat h + 24 \<le> unat e)"

lemma header_placeE:
  assumes "header_place rs h" "ordered lo rs"
  obtains b e f where "(b, e, f) \<in> set rs" "unat b \<le> unat h" "unat h + 24 \<le> unat e" "h = b \<or> f"
proof -
  from assms(1) consider e f where "(h, e, f) \<in> set rs"
    | b e where "(b, e, True) \<in> set rs" "unat b \<le> unat h" "unat h + 24 \<le> unat e"
    unfolding header_place_def by auto
  then show thesis
    using that ordered_bounds [OF assms(2)] by cases blast+
qed

lemma header_span_bookkeeping:
  assumes ord: "ordered lo rs" and H: "\<forall>h\<in>H. header_place rs h"
  shows "header_span H \<inter> (live_data rs \<union> - foot rs) = {}"
proof -
  have "span h 24 \<inter> (live_data rs \<union> - foot rs) = {}" if h: "h \<in> H" for h
  proof -
    from H h have "header_place rs h" by blast
    then obtain b e f where r: "(b, e, f) \<in> set rs" "unat b \<le> unat h" "unat h + 24 \<le> unat e" "h = b \<or> f"
      using ord by (rule header_placeE)
    have sub: "span h 24 \<subseteq> area b e" using r by (intro span_area)
    have foot: "area b e \<subseteq> foot rs" using r(1) by (force simp: foot_def)
    have l: "span h 24 \<inter> area (b' + 24) e' = {}" if l: "(b', e') \<in> live rs" for b' e'
    proof -
      from l have l: "(b', e', False) \<in> set rs" by (simp add: live_def)
      note data = live_area [of b' e'] ordered_bounds [OF ord l]
      show ?thesis
      proof (cases "(b, e, f) = (b', e', False)")
        case True
        with r(4) data show ?thesis by auto
      next
        case False
        then have "area b e \<inter> area b' e' = {}"
          using ordered_apart [OF ord r(1) l] area_disjoint [of e b' b e'] area_disjoint [of e' b b' e] by auto
        with sub data show ?thesis by auto
      qed
    qed
    then have "span h 24 \<inter> live_data rs = {}"
      unfolding live_data_def by (simp add: Int_UN_distrib split_beta)
    then show ?thesis using subset_trans [OF sub foot] by blast
  qed
  then show ?thesis unfolding header_span_def by blast
qed

lemma step_frame_data_kept:
  assumes "ordered lo rs" "step_frame H s s'" "\<forall>h\<in>H. header_place rs h"
  shows "data_kept rs s s'"
  using assms(2) same_outside_on [OF _ header_span_bookkeeping [OF assms(1,3)]]
  unfolding step_frame_def data_kept_def by blast

section \<open>One candidate range\<close>

definition head_extra :: "bool \<Rightarrow> u32" where
  "head_extra permanent = (if permanent then 0 else SIZEOF_HeapRange)"

definition value_base :: "u32 \<Rightarrow> bool \<Rightarrow> u32 \<Rightarrow> u32" where
  "value_base alignment permanent b = BL_ALIGN_UP (b + head_extra permanent) alignment"

definition takes :: "u32 \<Rightarrow> u32 \<Rightarrow> bool \<Rightarrow> u32 \<Rightarrow> u32 \<Rightarrow> bool" where
  "takes sz alignment permanent b e \<longleftrightarrow>
     (let vb = value_base alignment permanent b; ab = vb - head_extra permanent; ae = vb + sz
      in \<not> (ae < ab \<or> ab < b \<or> ae \<ge> e))"

text \<open>The same in natural numbers: the aligned value and its size end strictly inside the range.\<close>

definition value_nat :: "nat \<Rightarrow> bool \<Rightarrow> u32 \<Rightarrow> nat" where
  "value_nat q permanent b = (unat b + unat (head_extra permanent) + (q - 1)) div q * q"

lemma takes_iff:
  assumes k: "2 \<le> k" "k < 32" and sz: "0 < unat sz" "unat sz \<le> 2 ^ 32 - 28"
    and b: "b \<noteq> 0" "unat b + 24 \<le> unat e"
  shows "takes sz (2 ^ k) permanent b e \<longleftrightarrow> value_nat (2 ^ k) permanent b + unat sz < unat e"
    and "takes sz (2 ^ k) permanent b e \<Longrightarrow>
      unat (value_base (2 ^ k) permanent b) = value_nat (2 ^ k) permanent b
      \<and> unat (value_base (2 ^ k) permanent b - head_extra permanent)
          = value_nat (2 ^ k) permanent b - unat (head_extra permanent)
      \<and> unat (value_base (2 ^ k) permanent b + sz) = value_nat (2 ^ k) permanent b + unat sz"
proof -
  let ?hx = "head_extra permanent" let ?vb = "value_base (2 ^ k) permanent b"
  let ?v = "value_nat (2 ^ k) permanent b"
  have hx: "unat ?hx \<le> 24" by (simp add: head_extra_def SIZEOF_HeapRange_def)
  have e: "unat e < 2 ^ 32" by (rule unat_lt32)
  have bhx: "unat (b + ?hx) = unat b + unat ?hx"
    using b e hx by (simp add: unat_word_ariths)
  have v: "unat b + unat ?hx \<le> ?v"
    using align_nat_props(2) [of "2 ^ k" "unat b + unat ?hx"] by (simp add: value_nat_def)
  have "(takes sz (2 ^ k) permanent b e \<longleftrightarrow> ?v + unat sz < unat e)
    \<and> (takes sz (2 ^ k) permanent b e \<longrightarrow> unat ?vb = ?v \<and> unat (?vb - ?hx) = ?v - unat ?hx
        \<and> unat (?vb + sz) = ?v + unat sz)"
  proof (cases "unat (b + ?hx) + (2 ^ k - 1) < 2 ^ 32")
    case True
    then have vb: "unat ?vb = ?v"
      using k unat_BL_ALIGN_UP [where 'a = 32 and k = k and x = "b + ?hx"] bhx
      by (simp add: value_base_def value_nat_def)
    have ab: "unat (?vb - ?hx) = ?v - unat ?hx"
      using vb v by (simp add: unat_sub32)
    show ?thesis
    proof (cases "?v + unat sz < 2 ^ 32")
      case True
      then have "unat (?vb + sz) = ?v + unat sz" using vb by (simp add: unat_word_ariths)
      with vb ab v show ?thesis
        by (simp add: takes_def Let_def word_less_nat_alt word_le_nat_alt) linarith
    next
      case False
      have "unat ?vb < 2 ^ 32" by (rule unat_lt32)
      then have "unat (?vb + sz) = ?v + unat sz - 2 ^ 32"
        using False vb sz by (simp add: unat_word_ariths mod_if)
      then have "unat (?vb + sz) < unat (?vb - ?hx)"
        using ab hx sz vb \<open>unat ?vb < 2 ^ 32\<close> False by simp
      with False e show ?thesis by (simp add: takes_def Let_def word_less_nat_alt)
    qed
  next
    case False
    then have vb: "?vb = 0"
      using k BL_ALIGN_UP_wraps [where 'a = 32 and k = k and x = "b + ?hx"] by (simp add: value_base_def)
    have "?v \<ge> 2 ^ 32"
    proof -
      have "2 ^ k * 2 ^ (32 - k) = (2 ^ 32 :: nat)" using k by (simp flip: power_add)
      moreover have "2 ^ (32 - k) \<le> (unat b + unat ?hx + (2 ^ k - 1)) div 2 ^ k"
        using False bhx calculation by (simp add: less_eq_div_iff_mult_less_eq mult.commute)
      ultimately show ?thesis unfolding value_nat_def by (metis mult.commute mult_le_mono2)
    qed
    moreover have "\<not> takes sz (2 ^ k) permanent b e"
      using b sz by (auto simp: takes_def Let_def vb head_extra_def SIZEOF_HeapRange_def word_less_nat_alt unat_gt_0)
    ultimately show ?thesis using e by simp
  qed
  then show "takes sz (2 ^ k) permanent b e \<longleftrightarrow> ?v + unat sz < unat e"
    and "takes sz (2 ^ k) permanent b e \<Longrightarrow> unat ?vb = ?v \<and> unat (?vb - ?hx) = ?v - unat ?hx
        \<and> unat (?vb + sz) = ?v + unat sz"
    by blast+
qed

section \<open>The search and its contract\<close>

lemma alloc_from_search:
  assumes "heap_rep s H rs (dn @ todo)"
  shows "alloc_from sz alignment permanent (head_or todo 0) s =
    (case find (\<lambda>b. takes sz alignment permanent b (RangeEnd (memory s) b)) todo of
       None \<Rightarrow> crash ''out of memory''
     | Some b \<Rightarrow> ret (value_base alignment permanent b,
         carve b permanent (value_base alignment permanent b - head_extra permanent)
           (value_base alignment permanent b + sz) s))"
  using assms
proof (induction todo arbitrary: dn)
  case Nil
  show ?case by (subst alloc_from.simps) simp
next
  case (Cons b todo)
  have "b \<noteq> 0" using Cons.prems by (auto simp: heap_rep_def headers_ok_def)
  moreover have "FreeNext (memory s) b = head_or todo 0"
    by (rule heap_rep_free_links [OF Cons.prems])
  moreover have "heap_rep s H rs ((dn @ [b]) @ todo)" using Cons.prems by simp
  note Cons.IH [OF this]
  ultimately show ?case
    by (subst alloc_from.simps) (simp add: takes_def Let_def value_base_def head_extra_def)
qed

definition touching :: "block \<Rightarrow> block \<Rightarrow> bool" where
  "touching r r' \<longleftrightarrow> snd (snd r) \<and> snd (snd r') \<and> fst (snd r) = fst r'"

lemma coalesced_Cons: "coalesced (r # rs) \<longleftrightarrow> (rs \<noteq> [] \<longrightarrow> \<not> touching r (hd rs)) \<and> coalesced rs"
  by (cases r; cases rs) (auto simp: touching_def)

lemma coalesced_append: "coalesced (xs @ ys) \<longleftrightarrow>
    coalesced xs \<and> coalesced ys \<and> (xs \<noteq> [] \<and> ys \<noteq> [] \<longrightarrow> \<not> touching (last xs) (hd ys))"
  by (induction xs) (auto simp: coalesced_Cons hd_append)

lemma coalesced_carved:
  assumes ord: "ordered 1 (xs @ (b, e, True) # ys)" and co: "coalesced (xs @ (b, e, True) # ys)"
    and geo: "unat b \<le> unat ab" "unat ab < unat ae" "unat b < unat ae" "unat ae < unat e"
  shows "coalesced (xs @ head_piece b ab @ alloc_piece permanent ab ae e @ tail_piece ae e @ ys)"
proof -
  have xs: "unat (fst (snd (last xs))) \<le> unat b" if "xs \<noteq> []"
    using ord that by (simp add: end_or_def)
  have ys: "unat e \<le> unat (fst (hd ys))" if "ys \<noteq> []"
    using ord that by (cases ys) auto
  have neq: "ab \<noteq> ae" "ae \<noteq> b" "e \<noteq> ae" "b \<noteq> e" "ab \<noteq> e" using geo by auto
  have tl: "xs \<noteq> [] \<Longrightarrow> fst (snd (last xs)) \<noteq> ae" "xs \<noteq> [] \<Longrightarrow> ys \<noteq> [] \<Longrightarrow> fst (snd (last xs)) \<noteq> fst (hd ys)"
    "ys \<noteq> [] \<Longrightarrow> fst (hd ys) \<noteq> ab" "ys \<noteq> [] \<Longrightarrow> fst (hd ys) \<noteq> ae"
    using xs ys geo by auto
  show ?thesis
    using co neq tl unfolding head_piece_def alloc_piece_def tail_piece_def
    by (simp add: coalesced_append coalesced_Cons touching_def) (cases "xs = []"; cases "ys = []"; simp)
qed

text \<open>
  What an allocation of \<open>n\<close> bytes at \<open>p\<close> does to the heap's content: the bytes come from free
  ranges, the heap covers nothing new, and either the allocation is now one of the live ranges
  or, when permanent, its bytes are no longer part of the heap.
\<close>

definition allocated :: "bool \<Rightarrow> block list \<Rightarrow> u32 \<Rightarrow> nat \<Rightarrow> block list \<Rightarrow> bool" where
  "allocated permanent rs p n rs' \<longleftrightarrow>
     p \<noteq> 0 \<and> fits p n \<and> span p n \<subseteq> foot rs \<and> span p n \<inter> live_data rs = {} \<and> foot rs' \<subseteq> foot rs
     \<and> (if permanent then live rs' = live rs \<and> span p n \<inter> foot rs' = {}
        else \<exists>e. live rs' = insert (p - 24, e) (live rs) \<and> unat p + n \<le> unat e \<and> unat e < unat p + n + 24)"

definition align_nat :: "nat \<Rightarrow> nat \<Rightarrow> nat" where
  "align_nat q n = (n + (q - 1)) div q * q"

lemma area_free_no_live:
  assumes "ordered lo rs" "(b, e, True) \<in> set rs"
  shows "area b e \<inter> live_data rs = {}"
proof -
  have "area b e \<inter> area (b' + 24) e' = {}" if l: "(b', e', False) \<in> set rs" for b' e'
  proof -
    have "area b e \<inter> area b' e' = {}"
      using ordered_apart [OF assms(1,2) l] area_disjoint [of e b' b e'] area_disjoint [of e' b b' e] by auto
    moreover have "area (b' + 24) e' \<subseteq> area b' e'"
      using live_area [of b' e'] ordered_bounds [OF assms(1) l] by simp
    ultimately show ?thesis by (blast dest: subsetD)
  qed
  then show ?thesis unfolding live_data_def by (simp add: Int_UN_distrib split_beta live_def)
qed

lemma area_sub: "unat a \<le> unat b \<Longrightarrow> unat d \<le> unat e \<Longrightarrow> area b d \<subseteq> area a e"
  by (auto simp: area_def word_le_nat_alt word_less_nat_alt)

text \<open>The geometry of a range that is taken.\<close>

lemma takes_geometry:
  assumes be: "b \<noteq> 0" "unat b + 24 \<le> unat e" "4 dvd unat b"
    and k: "2 \<le> k" "k < 32" and sz: "0 < unat sz" "unat sz \<le> 2 ^ 32 - 28" "4 dvd unat sz" "permanent \<Longrightarrow> 24 \<le> unat sz"
    and tk: "takes sz (2 ^ k) permanent b e"
  defines "p \<equiv> value_base (2 ^ k) permanent b"
  defines "ab \<equiv> p - head_extra permanent"
  shows "unat b \<le> unat ab" "unat (p + sz) < unat e" "4 dvd unat ab" "4 dvd unat (p + sz)" "unat b + 24 \<le> unat (p + sz)"
    "\<not> permanent \<Longrightarrow> unat ab + 24 \<le> unat (p + sz)" "permanent \<Longrightarrow> ab = p" "unat ab < unat (p + sz)"
    "unat (p + sz) = unat p + unat sz" "unat ab \<le> unat p" "2 ^ k dvd unat p"
proof -
  have hx: "unat (head_extra permanent) = (if permanent then 0 else 24)"
    by (simp add: head_extra_def SIZEOF_HeapRange_def)
  note T = takes_iff [OF k sz(1,2) be(1,2), of permanent]
  define v where "v = value_nat (2 ^ k) permanent b"
  have v: "unat p = v" "unat ab = v - unat (head_extra permanent)" "unat (p + sz) = v + unat sz" "v + unat sz < unat e"
    using T tk by (simp_all add: p_def ab_def v_def)
  have vge: "unat b + unat (head_extra permanent) \<le> v" and dvdv: "2 ^ k dvd v"
    using align_nat_props(2) [of "2 ^ k" "unat b + unat (head_extra permanent)"] by (simp_all add: v_def value_nat_def)
  have "(2::nat) ^ 2 dvd 2 ^ k" using k(1) by (rule le_imp_power_dvd)
  from dvd_trans [OF this dvdv] have dvd4: "4 dvd v" by simp
  show "unat b \<le> unat ab" "unat (p + sz) < unat e" "4 dvd unat ab" "4 dvd unat (p + sz)" "unat b + 24 \<le> unat (p + sz)"
    "\<not> permanent \<Longrightarrow> unat ab + 24 \<le> unat (p + sz)" "unat ab < unat (p + sz)"
    "unat (p + sz) = unat p + unat sz" "unat ab \<le> unat p" "2 ^ k dvd unat p"
    using v vge hx sz dvd4 dvdv by (auto intro: dvd_diff_nat split: if_splits)
  show "permanent \<Longrightarrow> ab = p" by (simp add: ab_def head_extra_def)
qed

text \<open>The content of the heap after a free range was carved.\<close>

definition carved :: "block list \<Rightarrow> u32 \<Rightarrow> u32 \<Rightarrow> bool \<Rightarrow> u32 \<Rightarrow> u32 \<Rightarrow> block list \<Rightarrow> block list" where
  "carved xs b e permanent ab ae ys =
     xs @ head_piece b ab @ alloc_piece permanent ab ae e @ tail_piece ae e @ ys"

lemma carved_ordered:
  assumes "ordered lo (xs @ (b, e, True) # ys)"
    and "unat b \<le> unat ab" "unat ae < unat e" "4 dvd unat ab" "4 dvd unat ae" "\<not> permanent \<Longrightarrow> unat ab + 24 \<le> unat ae"
    "unat ab < unat ae"
  shows "ordered lo (carved xs b e permanent ab ae ys)"
  using assms unfolding carved_def
  by (auto simp: head_piece_def tail_piece_def alloc_piece_def ge24 intro: ordered_mono)

lemma carved_foot:
  assumes "unat b \<le> unat ab" "unat ae < unat e" "unat ab < unat ae"
  shows "foot (carved xs b e permanent ab ae ys) \<subseteq> foot (xs @ (b, e, True) # ys)"
    and "permanent \<Longrightarrow> foot (carved xs b e permanent ab ae ys) \<subseteq> foot xs \<union> area b ab \<union> area ae e \<union> foot ys"
proof -
  have f: "foot (head_piece b ab) \<subseteq> area b ab" "foot (tail_piece ae e) \<subseteq> area ae e"
    "foot (alloc_piece permanent ab ae e) \<subseteq> area ab e" "permanent \<Longrightarrow> foot (alloc_piece permanent ab ae e) = {}"
    using assms area_sub [of ab ab ae e]
    by (auto simp: head_piece_def tail_piece_def alloc_piece_def)
  have "area b ab \<subseteq> area b e" "area ae e \<subseteq> area b e" "area ab e \<subseteq> area b e"
    using assms by (intro area_sub; simp)+
  with f show "foot (carved xs b e permanent ab ae ys) \<subseteq> foot (xs @ (b, e, True) # ys)"
    unfolding carved_def foot_simps by blast
  show "foot (carved xs b e permanent ab ae ys) \<subseteq> foot xs \<union> area b ab \<union> area ae e \<union> foot ys" if permanent
    using f that unfolding carved_def foot_simps by blast
qed

lemma carved_live:
  "live (carved xs b e permanent ab ae ys) =
     (if permanent then id else insert (ab, if e - ae \<ge> 24 then ae else e)) (live (xs @ (b, e, True) # ys))"
  by (auto simp: carved_def head_piece_def tail_piece_def alloc_piece_def)

lemma area_foot_disjoint:
  assumes "ordered lo (xs @ (b, e, f) # ys)" "unat b \<le> unat c" "unat d \<le> unat e"
  shows "area c d \<inter> (foot xs \<union> foot ys) = {}"
proof -
  have "area c d \<inter> area c' d' = {}" if cd: "(c', d', f') \<in> set xs \<union> set ys" for c' d' f'
  proof -
    have "unat d' \<le> unat b \<or> unat e \<le> unat c'"
      using assms(1) cd ordered_bounds [of lo xs c' d' f'] ordered_bounds [of "unat e" ys c' d' f'] by auto
    then show ?thesis using area_disjoint [of d' c c' d] area_disjoint [of d c' c d'] assms(2,3) by auto
  qed
  then have "\<forall>r\<in>set xs \<union> set ys. area c d \<inter> area (fst r) (fst (snd r)) = {}" by fastforce
  then show ?thesis by (simp add: foot_def Int_Un_distrib Int_UN_distrib)
qed

lemma carved_headers:
  assumes mem: "(b, e, True) \<in> set rs" "rs = xs @ (b, e, True) # ys"
    and geo: "unat b \<le> unat ab" "unat ae < unat e" "unat b + 24 \<le> unat ae" "\<not> permanent \<Longrightarrow> unat ab + 24 \<le> unat ae"
    and h: "h \<in> bases (xs @ ys) \<union> {b} \<union> bases (carved xs b e permanent ab ae ys)"
  shows "header_place rs h"
proof -
  have "h \<in> bases rs \<or> h = ab \<and> \<not> permanent \<or> h = ae \<and> unat ae + 24 \<le> unat e"
    using h geo(2) by (auto simp: mem(2) carved_def head_piece_def alloc_piece_def tail_piece_def ge24 split: if_splits)
  then have "h \<in> bases rs \<or> unat b \<le> unat h \<and> unat h + 24 \<le> unat e" using geo by auto
  with mem(1) show ?thesis unfolding header_place_def by blast
qed

text \<open>A range that is taken, carved up.\<close>

lemma alloc_carved:
  assumes inv: "heap_inv s rs fs" and mem: "(b, e, True) \<in> set rs"
    and k: "2 \<le> k" "k < 32" and sz: "0 < unat sz" "unat sz \<le> 2 ^ 32 - 28" "4 dvd unat sz" "permanent \<Longrightarrow> 24 \<le> unat sz"
    and tk: "takes sz (2 ^ k) permanent b e"
  defines "p \<equiv> value_base (2 ^ k) permanent b"
  defines "s' \<equiv> carve b permanent (p - head_extra permanent) (p + sz) s"
  shows "\<exists>rs' fs'. heap_inv s' rs' fs' \<and> allocated permanent rs p (unat sz) rs' \<and> data_kept rs s s' \<and> 2 ^ k dvd unat p"
proof -
  let ?ab = "p - head_extra permanent" let ?ae = "p + sz"
  obtain xs ys where rs: "rs = xs @ (b, e, True) # ys" using split_list [OF mem] by blast
  from inv have rep: "heap_rep s (bases rs) rs fs" and ord: "ordered 1 rs" and co: "coalesced rs"
    and fs: "set fs = free_bases rs"
    by (auto simp: heap_inv_def)
  have be: "b \<noteq> 0" "unat b + 24 \<le> unat e" "4 dvd unat b"
    using ordered_bounds [OF ord mem] by auto
  have b0: "0 < unat b" using be(1) by (simp add: unat_gt_0)
  note geo = takes_geometry [OF be k sz tk, folded p_def]
  define rs' where "rs' = carved xs b e permanent ?ab ?ae ys"
  obtain fs' where c: "heap_rep s' (bases rs') rs' fs'" "set fs' = free_bases rs'"
      "step_frame (bases (xs @ ys) \<union> {b} \<union> bases rs') s s'"
    using carve_rep [of s xs b e ys fs ?ab ?ae permanent] rep ord fs geo
    unfolding s'_def rs'_def rs carved_def by (metis order_less_imp_le)
  have "ordered 1 rs'" using carved_ordered geo ord unfolding rs rs'_def by blast
  moreover have "coalesced rs'"
    unfolding rs'_def carved_def by (rule coalesced_carved) (use ord co geo rs in auto)
  ultimately have inv': "heap_inv s' rs' fs'" using c by (simp add: heap_inv_def)
  have foot: "foot rs' \<subseteq> foot rs" unfolding rs rs'_def by (rule carved_foot(1)) (use geo in auto)
  have fits: "fits p (unat sz)" "p \<noteq> 0" using geo(1,2,9,10) b0 unat_lt32 [of e] by (auto simp: fits_def)
  have sp: "span p (unat sz) \<subseteq> area b e" using geo by (intro span_area) auto
  then have free: "span p (unat sz) \<subseteq> foot rs" "span p (unat sz) \<inter> live_data rs = {}"
    using area_free_no_live [OF ord mem] unfolding rs foot_simps by blast+
  have perm: "span p (unat sz) \<inter> foot rs' = {}" if P: permanent
  proof -
    have spp: "span p (unat sz) = area p ?ae"
      using geo fits by (auto simp: area_def span_fits word_le_nat_alt word_less_nat_alt)
    have sub: "foot rs' \<subseteq> foot xs \<union> area b ?ab \<union> area ?ae e \<union> foot ys"
      unfolding rs'_def by (rule carved_foot(2)) (use geo P in auto)
    have "area p ?ae \<inter> area b ?ab = {}" "area p ?ae \<inter> area ?ae e = {}"
      using geo(10) by (intro area_disjoint'; simp)+
    moreover have "area p ?ae \<inter> (foot xs \<union> foot ys) = {}"
      by (rule area_foot_disjoint [OF ord [unfolded rs]]) (use order_trans [OF geo(1,10)] geo(2) in simp_all)
    ultimately have "area p ?ae \<inter> (foot xs \<union> area b ?ab \<union> area ?ae e \<union> foot ys) = {}"
      by (simp add: Int_Un_distrib)
    then show ?thesis unfolding spp by (rule disjoint_sub [OF _ order_refl sub])
  qed
  have "live rs' = (if permanent then live rs else insert (p - 24, if e - ?ae \<ge> 24 then ?ae else e) (live rs))"
    unfolding rs'_def rs carved_live by (simp add: head_extra_def SIZEOF_HeapRange_def)
  moreover have "unat e < unat ?ae + 24" if "\<not> 24 \<le> e - ?ae" using that geo by (auto simp: word_le_nat_alt unat_sub32)
  ultimately have al: "allocated permanent rs p (unat sz) rs'"
    using perm foot fits free geo by (auto simp: allocated_def)
  have "\<forall>h\<in>bases (xs @ ys) \<union> {b} \<union> bases rs'. header_place rs h"
    using carved_headers [OF mem rs geo(1,2,5,6)] unfolding rs'_def by blast
  then have "data_kept rs s s'" using step_frame_data_kept [OF ord c(3)] by blast
  with inv' al geo(11) show ?thesis by blast
qed

text \<open>
  The sizes and alignments for which the allocator keeps its promise: the rounded size does
  not wrap around, the alignment is a power of two, and a permanent allocation is at least
  a header long (a shorter one may put the header of the rest of the range on top of the
  header of the range it is taken from).
\<close>

definition alloc_request :: "u32 \<Rightarrow> u32 \<Rightarrow> bool \<Rightarrow> nat \<Rightarrow> bool" where
  "alloc_request sz alignment permanent k \<longleftrightarrow> sz \<noteq> 0 \<and> unat sz \<le> 2 ^ 32 - 28 \<and> alignment = 2 ^ k \<and> k < 32
     \<and> (permanent \<longrightarrow> 20 < unat sz)"

definition rounded :: "u32 \<Rightarrow> nat" where
  "rounded sz = (unat sz + 3) div 4 * 4"

lemma round_size:
  assumes "unat sz \<le> 2 ^ 32 - 28"
  shows "unat (BL_ALIGN_UP sz HEAP_ALIGNMENT) = rounded sz" "unat sz \<le> rounded sz" "rounded sz \<le> 2 ^ 32 - 28"
    "4 dvd rounded sz" "20 < unat sz \<Longrightarrow> 24 \<le> rounded sz"
proof -
  show "unat (BL_ALIGN_UP sz HEAP_ALIGNMENT) = rounded sz"
    using unat_BL_ALIGN_UP [where 'a = 32 and k = 2 and x = sz] assms by (simp add: rounded_def HEAP_ALIGNMENT_def)
  have "(2 ^ 32 - 28 + 3) div 4 * 4 = (2 ^ 32 - 28 :: nat)" by simp
  then show "rounded sz \<le> 2 ^ 32 - 28"
    using assms unfolding rounded_def by (metis add_le_mono1 div_le_mono mult_le_mono1)
  show "unat sz \<le> rounded sz" "20 < unat sz \<Longrightarrow> 24 \<le> rounded sz" unfolding rounded_def by presburger+
  show "4 dvd rounded sz" by (simp add: rounded_def)
qed

lemma round_alignment:
  "k < 32 \<Longrightarrow> (if 2 ^ k < HEAP_ALIGNMENT then HEAP_ALIGNMENT else 2 ^ k :: u32) = 2 ^ max 2 k"
proof (cases "k < 2")
  case True
  then have "k = 0 \<or> k = 1" by linarith
  then show ?thesis by (auto simp: HEAP_ALIGNMENT_def)
next
  assume k: "k < 32"
  case False
  then have "(2::nat) ^ 2 \<le> 2 ^ k" by (intro power_increasing) auto
  then have "\<not> (2 ^ k :: u32) < 4"
    using k by (simp add: word_less_nat_alt unat_pow2)
  then show ?thesis using False by (simp add: HEAP_ALIGNMENT_def max_def)
qed

lemma BlAllocateHeap_contract:
  assumes inv: "heap_inv s rs fs" and req: "alloc_request sz alignment permanent k"
  shows "BlAllocateHeap sz alignment permanent s = crash ''out of memory''
      \<and> (\<forall>(b, e, f)\<in>set rs. f \<longrightarrow> unat e \<le> value_nat (2 ^ max 2 k) permanent b + rounded sz)
    \<or> (\<exists>p s' rs' fs'. BlAllocateHeap sz alignment permanent s = ret (p, s') \<and> heap_inv s' rs' fs'
      \<and> allocated permanent rs p (rounded sz) rs' \<and> data_kept rs s s' \<and> 2 ^ max 2 k dvd unat p)"
proof -
  let ?k = "max 2 k" let ?sz = "BL_ALIGN_UP sz HEAP_ALIGNMENT"
  have r: "sz \<noteq> 0" "unat sz \<le> 2 ^ 32 - 28" "alignment = 2 ^ k" "k < 32" "permanent \<Longrightarrow> 20 < unat sz"
    using req by (auto simp: alloc_request_def)
  note R = round_size [OF r(2)]
  have sz0: "0 < unat sz" using r(1) by (simp add: unat_gt_0)
  have k: "2 \<le> ?k" "?k < 32" using r(4) by auto
  have sz: "0 < unat ?sz" "unat ?sz \<le> 2 ^ 32 - 28" "4 dvd unat ?sz" "permanent \<Longrightarrow> 24 \<le> unat ?sz"
    using R r(5) sz0 by auto
  from inv have rep: "heap_rep s (bases rs) rs ([] @ fs)" and ord: "ordered 1 rs" and fs: "set fs = free_bases rs"
    by (auto simp: heap_inv_def)
  have endb: "RangeEnd (memory s) b = e" if "(b, e, f) \<in> set rs" for b e f
    using heap_rep_block [OF rep that] by blast
  have op: "BlAllocateHeap sz alignment permanent s = alloc_from ?sz (2 ^ ?k) permanent (head_or fs 0) s"
    unfolding BlAllocateHeap_def Let_def r(3) round_alignment [OF r(4)] heap_rep_free_head [OF rep, simplified]
    using r(1) by simp
  note search = alloc_from_search [OF rep, of ?sz "2 ^ ?k" permanent, folded op]
  show ?thesis
  proof (cases "find (\<lambda>b. takes ?sz (2 ^ ?k) permanent b (RangeEnd (memory s) b)) fs")
    case None
    then have no: "\<not> takes ?sz (2 ^ ?k) permanent b (RangeEnd (memory s) b)" if "b \<in> set fs" for b
      using that by (auto simp: find_None_iff)
    have "unat e \<le> value_nat (2 ^ ?k) permanent b + rounded sz" if m: "(b, e, True) \<in> set rs" for b e
    proof -
      have "b \<in> set fs" using m unfolding fs free_bases_def by force
      moreover have "b \<noteq> 0" "unat b + 24 \<le> unat e" using ordered_bounds [OF ord m] by auto
      ultimately show ?thesis
        using no [of b] takes_iff(1) [OF k sz(1,2), of b e permanent] R(1) endb [OF m] by auto
    qed
    then show ?thesis using search None by auto
  next
    case (Some b)
    then have "b \<in> set fs" "takes ?sz (2 ^ ?k) permanent b (RangeEnd (memory s) b)"
      by (auto simp: find_Some_iff)
    moreover then obtain e where m: "(b, e, True) \<in> set rs" unfolding fs free_bases_def by auto
    ultimately have "takes ?sz (2 ^ ?k) permanent b e" using endb [OF m] by simp
    from alloc_carved [OF inv m k sz this] search Some R(1) show ?thesis by auto
  qed
qed

lemma BlAllocateHeap_spec:
  assumes "heap_inv s rs fs" "alloc_request sz alignment permanent k"
  shows "BlAllocateHeap sz alignment permanent s = crash ''out of memory''
    \<or> (\<exists>p s' rs' fs'. BlAllocateHeap sz alignment permanent s = ret (p, s') \<and> heap_inv s' rs' fs'
      \<and> allocated permanent rs p (rounded sz) rs' \<and> data_kept rs s s' \<and> 2 ^ max 2 k dvd unat p)"
  using BlAllocateHeap_contract [OF assms] by blast


end
