(* ===== verification/Heap_Free.thy ===== *)
theory Heap_Free
  imports Heap_Alloc
begin

text \<open>
  Giving memory back: joining a free range with its free neighbours, the contracts of
  \<open>BlFreeHeap\<close> and of \<open>BlAddHeapRange\<close>.
\<close>

section \<open>Joining a range with its neighbours\<close>

definition touches_prev :: "block list \<Rightarrow> u32 \<Rightarrow> bool" where
  "touches_prev xs b \<longleftrightarrow> xs \<noteq> [] \<and> snd (snd (last xs)) \<and> fst (snd (last xs)) = b"

definition touches_next :: "u32 \<Rightarrow> block list \<Rightarrow> bool" where
  "touches_next e ys \<longleftrightarrow> ys \<noteq> [] \<and> snd (snd (hd ys)) \<and> fst (hd ys) = e"

text \<open>The ranges \<open>xs\<close>, the free range \<open>[b, e)\<close> and the ranges \<open>ys\<close>, joined where they touch.\<close>

definition merged :: "block list \<Rightarrow> u32 \<Rightarrow> u32 \<Rightarrow> block list \<Rightarrow> block list" where
  "merged xs b e ys =
     (if touches_prev xs b then butlast xs else xs)
     @ (if touches_prev xs b then fst (last xs) else b, if touches_next e ys then fst (snd (hd ys)) else e, True)
     # (if touches_next e ys then tl ys else ys)"

lemma touches_prevE:
  assumes "touches_prev xs b"
  obtains zs pb where "xs = zs @ [(pb, b, True)]"
  using assms by (cases xs rule: rev_cases) (auto simp: touches_prev_def)

lemma touches_nextE:
  assumes "touches_next e ys"
  obtains d zs where "ys = (e, d, True) # zs"
  using assms by (cases ys) (auto simp: touches_next_def)

lemma touches_simps [simp]:
  "touches_prev (zs @ [(pb, b', f)]) b \<longleftrightarrow> f \<and> b' = b" "touches_next e ((c, d, f) # zs) \<longleftrightarrow> f \<and> c = e"
  "\<not> touches_prev [] b" "\<not> touches_next e []"
  by (auto simp: touches_prev_def touches_next_def)

lemma area_join: "unat b \<le> unat c \<Longrightarrow> unat c \<le> unat d \<Longrightarrow> area b c \<union> area c d = area b d"
  by (auto simp: area_def word_le_nat_alt word_less_nat_alt)

lemma merged_ordered:
  assumes "ordered lo xs" "end_or lo xs \<le> unat b" "unat b < unat e" "4 dvd unat b" "4 dvd unat e" "ordered (unat e) ys"
    and "touches_prev xs b \<or> touches_next e ys \<or> unat b + 24 \<le> unat e"
  shows "ordered lo (merged xs b e ys)"
proof (cases "touches_prev xs b")
  case True
  then obtain zs pb where xs: "xs = zs @ [(pb, b, True)]" by (rule touches_prevE)
  show ?thesis
    using assms by (cases "touches_next e ys") (auto simp: merged_def xs elim!: touches_nextE)
next
  case False
  then show ?thesis
    using assms by (cases "touches_next e ys") (auto simp: merged_def elim!: touches_nextE)
qed

lemma merged_foot:
  assumes "ordered lo xs" "end_or lo xs \<le> unat b" "unat b < unat e" "ordered (unat e) ys"
  shows "foot (merged xs b e ys) = foot xs \<union> area b e \<union> foot ys"
proof -
  have left: "area pb b \<union> area b e = area pb e" if "xs = zs @ [(pb, b, True)]" for zs pb
    using assms that by (intro area_join) auto
  have right: "area c e \<union> area e d = area c d" if "ys = (e, d, True) # zs" "unat c \<le> unat e" for zs c d
    using assms that by (intro area_join) auto
  have pb: "unat pb \<le> unat b" if "xs = zs @ [(pb, b, True)]" for zs pb
    using assms that by auto
  show ?thesis
  proof (cases "touches_prev xs b")
    case True
    then obtain zs pb where xs: "xs = zs @ [(pb, b, True)]" by (rule touches_prevE)
    show ?thesis
    proof (cases "touches_next e ys")
      case True
      then obtain d ws where ys: "ys = (e, d, True) # ws" by (rule touches_nextE)
      have "area pb d = area pb b \<union> area b e \<union> area e d"
        using left [OF xs] right [OF ys, of pb] pb [OF xs] assms(3) by simp
      then show ?thesis by (simp add: merged_def xs ys Un_assoc)
    qed (simp add: merged_def xs Un_assoc flip: left [OF xs])
  next
    case F: False
    show ?thesis
    proof (cases "touches_next e ys")
      case True
      then obtain d ws where ys: "ys = (e, d, True) # ws" by (rule touches_nextE)
      have "area b d = area b e \<union> area e d" using right [OF ys, of b] assms(3) by simp
      with F show ?thesis by (simp add: merged_def ys Un_assoc)
    qed (use F in \<open>simp add: merged_def Un_assoc\<close>)
  qed
qed

lemma merged_live: "live (merged xs b e ys) = live (xs @ ys)"
  by (cases "touches_prev xs b"; cases "touches_next e ys") (auto simp: merged_def elim!: touches_prevE touches_nextE)

lemma merged_free_bases:
  "free_bases (merged xs b e ys) =
     free_bases (if touches_prev xs b then butlast xs else xs)
     \<union> {if touches_prev xs b then fst (last xs) else b} \<union> free_bases (if touches_next e ys then tl ys else ys)"
  by (auto simp: merged_def)

lemma merged_coalesced:
  assumes "coalesced xs" "coalesced ys" "ordered lo xs" "end_or lo xs \<le> unat b" "unat b < unat e" "ordered (unat e) ys"
  shows "coalesced (merged xs b e ys)"
proof -
  let ?ys = "if touches_next e ys then tl ys else ys" and ?e = "if touches_next e ys then fst (snd (hd ys)) else e"
  have R: "coalesced ((b', ?e, True) # ?ys)" for b'
    using assms(2) by (cases ys) (auto simp: coalesced_Cons touching_def touches_next_def)
  show ?thesis
  proof (cases "touches_prev xs b")
    case True
    then obtain zs pb where xs: "xs = zs @ [(pb, b, True)]" by (rule touches_prevE)
    then have "coalesced (zs @ [(pb, ?e, True)])" using assms(1) by (auto simp: coalesced_append touching_def)
    with R [of pb] True show ?thesis
      by (simp add: merged_def xs coalesced_append)
  next
    case False
    with R [of b] assms(1) show ?thesis
      by (auto simp: merged_def coalesced_append touches_prev_def touching_def)
  qed
qed

section \<open>The merge tests and the pointer steps\<close>

lemma merge_tests:
  assumes "heap_rep s H (xs @ (b, e, f) # ys) fs"
  defines "m \<equiv> memory s"
  shows "RangePrev m b \<noteq> 0 \<and> RangeFree m (RangePrev m b) \<and> RangeEnd m (RangePrev m b) = b \<longleftrightarrow> touches_prev xs b"
    and "RangeNext m b \<noteq> 0 \<and> RangeFree m (RangeNext m b) \<and> RangeEnd m b = RangeNext m b \<longleftrightarrow> touches_next e ys"
    and "RangePrev m b = last_or 0 (map base xs)" "RangeNext m b = head_or (map base ys) 0" "RangeEnd m b = e"
proof -
  have nz: "c \<noteq> 0" if "(c, d, g) \<in> set (xs @ (b, e, f) # ys)" for c d g
    using heap_rep_block [OF assms(1) that] heap_rep_distinct [OF assms(1)] by metis
  have blk: "RangeEnd m c = d \<and> RangeFree m c = g" if "(c, d, g) \<in> set (xs @ (b, e, f) # ys)" for c d g
    using heap_rep_block [OF assms(1) that] by (simp add: m_def)
  show L: "RangePrev m b = last_or 0 (map base xs)" "RangeNext m b = head_or (map base ys) 0" "RangeEnd m b = e"
    using heap_rep_links [OF assms(1)] blk [of b e f] by (simp_all add: m_def)
  show "RangePrev m b \<noteq> 0 \<and> RangeFree m (RangePrev m b) \<and> RangeEnd m (RangePrev m b) = b \<longleftrightarrow> touches_prev xs b"
  proof (cases xs rule: rev_cases)
    case (snoc zs z)
    obtain c d g where z: "z = (c, d, g)" by (cases z)
    show ?thesis using blk [of c d g] nz [of c d g] unfolding L snoc z by simp
  qed (simp add: L)
  show "RangeNext m b \<noteq> 0 \<and> RangeFree m (RangeNext m b) \<and> RangeEnd m b = RangeNext m b \<longleftrightarrow> touches_next e ys"
  proof (cases ys)
    case (Cons z zs)
    obtain c d g where z: "z = (c, d, g)" by (cases z)
    show ?thesis using blk [of c d g] nz [of c d g] unfolding L Cons z by auto
  qed (simp add: L)
qed

text \<open>Unlinking a free range from both lists.\<close>

lemma unlink_free_rep:
  assumes rep: "heap_rep s H (xs @ (c, d, True) # ys) fs" and c: "c \<in> set fs"
  defines "s' \<equiv> free_remove (FreeNode c) (heap_remove c s)"
  shows "heap_rep s' H (xs @ ys) (remove1 c fs)" "step_frame H s s'"
    and "\<forall>h\<in>H. RangeEnd (memory s') h = RangeEnd (memory s) h \<and> RangeFree (memory s') h = RangeFree (memory s) h"
proof -
  note R = heap_remove_rep [OF rep]
  note F = free_remove_rep [OF R(1) c]
  show "heap_rep s' H (xs @ ys) (remove1 c fs)" unfolding s'_def by (rule F(1))
  show "step_frame H s s'" unfolding s'_def by (rule step_frame_trans [OF R(2) F(2)])
  show "\<forall>h\<in>H. RangeEnd (memory s') h = RangeEnd (memory s) h \<and> RangeFree (memory s') h = RangeFree (memory s) h"
    using R(3) F(3) unfolding s'_def by simp
qed

text \<open>Marking a range free and putting it on the free list.\<close>

lemma mark_free_rep:
  assumes rep: "heap_rep s H (xs @ (b, e, f) # ys) fs" and b: "b \<notin> set fs"
  defines "s' \<equiv> free_insert 0 (FreeNode b) (write_Free b True s)"
  shows "heap_rep s' H (xs @ (b, e, True) # ys) (b # fs)" "step_frame H s s'"
proof -
  note W = write_block_rep(3,4) [OF rep, of True]
  have "b \<in> H" using heap_rep_block [OF rep, of b e f] by simp
  from free_insert_rep(1,2) [OF W(1) this b, of 0 "b # fs"] W(2)
  show "heap_rep s' H (xs @ (b, e, True) # ys) (b # fs)" "step_frame H s s'"
    unfolding s'_def by (auto intro: step_frame_trans)
qed

lemma no_free_base: "e \<notin> bases xs \<Longrightarrow> e \<notin> bases ws \<Longrightarrow> free_bases xs \<union> free_bases ws - {e} = free_bases xs \<union> free_bases ws"
  using free_bases_sub [of xs] free_bases_sub [of ws] by auto

lemma BlFreeHeap_cases:
  assumes "heap_rep s H (xs @ (b, e, False) # ys) fs" "b + 24 \<noteq> 0"
  shows "BlFreeHeap (b + 24) s =
    (if touches_prev xs b then
       let s = heap_remove b s
       in if touches_next e ys then
            let s = free_remove (FreeNode (fst (hd ys))) (heap_remove (fst (hd ys)) s)
            in write_End (fst (last xs)) (RangeEnd (memory s) (fst (hd ys))) s
          else write_End (fst (last xs)) (RangeEnd (memory s) b) s
     else
       let s = (if touches_next e ys
                then let s = free_remove (FreeNode (fst (hd ys))) (heap_remove (fst (hd ys)) s)
                     in write_End b (RangeEnd (memory s) (fst (hd ys))) s
                else s)
       in free_insert 0 (FreeNode b) (write_Free b True s))"
  using assms(2) merge_tests [OF assms(1)]
  by (cases xs rule: rev_cases; cases ys) (auto simp: BlFreeHeap_def Let_def SIZEOF_HeapRange_def)

definition free_step :: "u32 set \<Rightarrow> 'a heap_scheme \<Rightarrow> block list \<Rightarrow> 'a heap_scheme \<Rightarrow> bool" where
  "free_step H s rs' s' \<longleftrightarrow> (\<exists>fs'. heap_rep s' H rs' fs' \<and> set fs' = free_bases rs' \<and> step_frame H s s')"

lemma free_stepI: "heap_rep s' H rs' fs' \<Longrightarrow> set fs' = free_bases rs' \<Longrightarrow> step_frame H s s' \<Longrightarrow> free_step H s rs' s'"
  by (auto simp: free_step_def)

lemma BlFreeHeap_left:
  assumes rep: "heap_rep s H ((zs @ [(pb, b, True)]) @ (b, e, False) # ys) fs"
    and fs: "set fs = free_bases ((zs @ [(pb, b, True)]) @ ys)" and ptr: "b + 24 \<noteq> 0"
  shows "free_step H s (merged (zs @ [(pb, b, True)]) b e ys) (BlFreeHeap (b + 24) s)"
proof -
  note op = BlFreeHeap_cases [OF rep ptr]
  have dist: "distinct (map fst (zs @ (pb, b, True) # (b, e, False) # ys))" "distinct fs"
    using heap_rep_distinct [OF rep] by simp_all
  note R = heap_remove_rep [OF rep]
  show ?thesis
  proof (cases "touches_next e ys")
    case N: True
    then obtain d ws where ys: "ys = (e, d, True) # ws" by (rule touches_nextE)
    let ?s = "heap_remove b s" let ?s' = "free_remove (FreeNode e) (heap_remove e ?s)"
    have "heap_rep ?s H ((zs @ [(pb, b, True)]) @ (e, d, True) # ws) fs" using R(1) unfolding ys by simp
    note U = unlink_free_rep [OF this]
    have e: "e \<in> set fs" "e \<in> H" "RangeEnd (memory s) e = d"
      using fs heap_rep_block [OF rep, of e d True] by (auto simp: ys)
    then have ed: "RangeEnd (memory ?s') e = d" using R(3) U(3) by simp
    have "heap_rep ?s' H (zs @ (pb, b, True) # ws) (remove1 e fs)" using U(1) [OF e(1)] by simp
    note W = write_block_rep(1,2) [OF this, of d]
    have fb: "free_bases (zs @ (pb, b, True) # ws) - {e} = free_bases (zs @ (pb, b, True) # ws)"
      using free_bases_sub [of "zs @ (pb, b, True) # ws"] dist(1) by (intro Diff_triv) (auto simp: ys)
    show ?thesis
    proof (rule free_stepI)
      show "heap_rep (BlFreeHeap (b + 24) s) H (merged (zs @ [(pb, b, True)]) b e ys) (remove1 e fs)"
        using W(1) N by (simp add: op Let_def ys ed merged_def)
      show "set (remove1 e fs) = free_bases (merged (zs @ [(pb, b, True)]) b e ys)"
        unfolding merged_free_bases set_remove1_distinct [OF dist(2)] fs using fb by (simp add: ys insert_Diff_if) fastforce
      show "step_frame H s (BlFreeHeap (b + 24) s)"
        using step_frame_trans [OF step_frame_trans [OF R(2) U(2) [OF e(1)]] W(2)] N by (simp add: op Let_def ys ed)
    qed
  next
    case N: False
    have "heap_rep (heap_remove b s) H (zs @ (pb, b, True) # ys) fs" using R(1) by simp
    note W = write_block_rep(1,2) [OF this, of e]
    have be: "RangeEnd (memory (heap_remove b s)) b = e"
      using R(3) heap_rep_block [OF rep, of b e False] by simp
    show ?thesis
    proof (rule free_stepI)
      show "heap_rep (BlFreeHeap (b + 24) s) H (merged (zs @ [(pb, b, True)]) b e ys) fs"
        using W(1) N by (simp add: op Let_def be merged_def)
      show "set fs = free_bases (merged (zs @ [(pb, b, True)]) b e ys)"
        using N unfolding merged_free_bases fs by auto
      show "step_frame H s (BlFreeHeap (b + 24) s)"
        using step_frame_trans [OF R(2) W(2)] N by (simp add: op Let_def be)
    qed
  qed
qed

lemma BlFreeHeap_right:
  assumes rep: "heap_rep s H (xs @ (b, e, False) # ys) fs" and fs: "set fs = free_bases (xs @ ys)"
    and ptr: "b + 24 \<noteq> 0" and P: "\<not> touches_prev xs b"
  shows "free_step H s (merged xs b e ys) (BlFreeHeap (b + 24) s)"
proof -
  note op = BlFreeHeap_cases [OF rep ptr]
  have dist: "distinct (map fst (xs @ (b, e, False) # ys))" "distinct fs"
    using heap_rep_distinct [OF rep] by simp_all
  have bfs: "b \<notin> set fs" using dist(1) free_bases_sub [of xs] free_bases_sub [of ys] unfolding fs by auto
  show ?thesis
  proof (cases "touches_next e ys")
    case N: True
    then obtain d ws where ys: "ys = (e, d, True) # ws" by (rule touches_nextE)
    let ?s' = "free_remove (FreeNode e) (heap_remove e s)"
    have "heap_rep s H ((xs @ [(b, e, False)]) @ (e, d, True) # ws) fs" using rep unfolding ys by simp
    note U = unlink_free_rep [OF this]
    have e: "e \<in> set fs" "e \<in> H" "RangeEnd (memory s) e = d"
      using fs heap_rep_block [OF rep, of e d True] by (auto simp: ys)
    have ed: "RangeEnd (memory ?s') e = d" using U(3) e by simp
    have "heap_rep ?s' H (xs @ (b, e, False) # ws) (remove1 e fs)" using U(1) [OF e(1)] by simp
    note W = write_block_rep(1,2) [OF this, of d]
    have "b \<notin> set (remove1 e fs)" using bfs by (simp add: set_remove1_distinct [OF dist(2)])
    note M = mark_free_rep [OF W(1) this]
    have fb: "free_bases (xs @ ys) - {e} = free_bases xs \<union> free_bases ws"
      using no_free_base [of e xs ws] dist(1) by (simp add: ys insert_Diff_if)
    show ?thesis
    proof (rule free_stepI)
      show "heap_rep (BlFreeHeap (b + 24) s) H (merged xs b e ys) (b # remove1 e fs)"
        using M(1) P N by (simp add: op Let_def ys ed merged_def)
      show "set (b # remove1 e fs) = free_bases (merged xs b e ys)"
        unfolding merged_free_bases list.set set_remove1_distinct [OF dist(2)] fs fb using P N by (simp add: ys)
      show "step_frame H s (BlFreeHeap (b + 24) s)"
        using step_frame_trans [OF U(2) [OF e(1)] step_frame_trans [OF W(2) M(2)]] P N by (simp add: op Let_def ys ed)
    qed
  next
    case N: False
    show ?thesis
      by (rule free_stepI [of _ _ _ "b # fs"])
        (use P N mark_free_rep [OF rep bfs] in \<open>simp_all add: op Let_def merged_def fs\<close>)
  qed
qed

lemma BlFreeHeap_spec:
  assumes inv: "heap_inv s rs fs" and l: "(b, e) \<in> live rs"
  shows "\<exists>rs' fs'. heap_inv (BlFreeHeap (b + 24) s) rs' fs' \<and> live rs' = live rs - {(b, e)} \<and> foot rs' = foot rs
    \<and> data_kept rs s (BlFreeHeap (b + 24) s)"
proof -
  let ?s = "BlFreeHeap (b + 24) s"
  have m: "(b, e, False) \<in> set rs" using l by (simp add: live_def)
  then obtain xs ys where rs: "rs = xs @ (b, e, False) # ys" using split_list by fastforce
  from inv have rep: "heap_rep s (bases rs) (xs @ (b, e, False) # ys) fs" and ord: "ordered 1 rs" and co: "coalesced rs"
    and fs: "set fs = free_bases (xs @ ys)"
    by (auto simp: heap_inv_def rs)
  have bd: "0 < unat b" "unat b + 24 \<le> unat e" "4 dvd unat b" "4 dvd unat e" using ordered_bounds [OF ord m] by auto
  have ptr: "b + 24 \<noteq> 0"
  proof
    assume "b + 24 = 0"
    then have "unat (b + 24) = 0" by simp
    then show False using bd unat_lt32 [of e] by (simp add: unat_word_ariths)
  qed
  have o: "ordered 1 xs" "end_or 1 xs \<le> unat b" "ordered (unat e) ys" using ord by (auto simp: rs)
  have c: "coalesced xs" "coalesced ys" using co by (auto simp: rs coalesced_append coalesced_Cons)
  let ?rs' = "merged xs b e ys"
  have "free_step (bases rs) s ?rs' ?s"
  proof (cases "touches_prev xs b")
    case True
    then show ?thesis using BlFreeHeap_left [OF _ _ ptr] rep fs by (metis touches_prevE)
  qed (use BlFreeHeap_right [OF rep fs ptr] in blast)
  then obtain fs' where F: "heap_rep ?s (bases rs) ?rs' fs'" "set fs' = free_bases ?rs'" "step_frame (bases rs) s ?s"
    unfolding free_step_def by blast
  have sub: "bases ?rs' \<subseteq> bases rs" using F(1) by (simp add: heap_rep_def)
  have "heap_rep ?s (bases ?rs') ?rs' fs'"
    by (rule heap_rep_less [OF F(1) sub order_refl]) (simp add: F(2) free_bases_sub)
  moreover have "ordered 1 ?rs'" "coalesced ?rs'"
    using merged_ordered merged_coalesced bd o c by auto
  ultimately have "heap_inv ?s ?rs' fs'" using F(2) by (simp add: heap_inv_def)
  moreover have "live ?rs' = live rs - {(b, e)}"
  proof -
    have "b \<notin> bases (xs @ ys)" using ordered_headers_ok [OF ord] by (auto simp: rs)
    then have "(b, e) \<notin> live (xs @ ys)" by (force simp: live_def)
    then show ?thesis unfolding merged_live by (auto simp: rs)
  qed
  moreover have "foot ?rs' = foot rs" using merged_foot bd o by (simp add: rs Un_assoc)
  moreover have "data_kept rs s ?s"
    by (rule step_frame_data_kept [OF ord F(3)]) (simp add: header_place_def)
  ultimately show ?thesis by blast
qed

text \<open>
  C2. \<open>BlFreeHeap\<close> of a live range takes exactly that range out of the live ones, keeps the
  heap's extent and the invariant (so the freed range is joined with both free neighbours), and
  changes no byte of the other live ranges or outside the heap.
\<close>

theorem BlFreeHeap_correct:
  assumes inv: "heap_inv s rs fs" and l: "(b, e) \<in> live rs"
  shows "\<exists>rs' fs'. heap_inv (BlFreeHeap (b + 24) s) rs' fs' \<and> live rs' = live rs - {(b, e)} \<and> foot rs' = foot rs
    \<and> data_kept rs s (BlFreeHeap (b + 24) s)"
  by (rule BlFreeHeap_spec [OF inv l])

end
