(* ===== verification/Heap_Add.thy ===== *)
theory Heap_Add
  imports Heap_Free
begin

text \<open>
  Copying a header to another place, and the contract of \<open>BlAddHeapRange\<close>: the part of a new
  memory range that lies between its neighbours becomes free heap memory.
\<close>

section \<open>Moving a header\<close>

lemma copy_header_fields:
  fixes s :: "'a heap_scheme"
  assumes "fits d 24" "fits c 24"
  defines "m' \<equiv> memory (copy_header d c s)"
  shows "same_outside (span d 24) (memory s) m'"
    and "RangeEnd m' d = RangeEnd (memory s) c" "RangeFree m' d = RangeFree (memory s) c"
    and "copy_header d c s = s\<lparr>memory := m'\<rparr>"
proof -
  have sz: "unat SIZEOF_HeapRange = 24" by (simp add: SIZEOF_HeapRange_def)
  have m': "m' = store_bytes (memory s) d (load_bytes (memory s) c 24)"
    using memmove_store_bytes [of d SIZEOF_HeapRange c "memory s"] assms(1,2)
    by (simp add: m'_def copy_header_def BlCopyMemoryOverlapping_def sz)
  show "same_outside (span d 24) (memory s) m'"
    using store_bytes_same_outside [of d "load_bytes (memory s) c 24"] by (simp add: m')
  have byte: "m' (d + of_nat i) = memory s (c + of_nat i)" if "i < 24" for i
    using that by (simp add: m' store_bytes_def unat_of_nat take_bit_eq_mod)
  from byte [of 16] byte [of 17] byte [of 18] byte [of 19] byte [of 20]
  show "RangeEnd m' d = RangeEnd (memory s) c" "RangeFree m' d = RangeFree (memory s) c"
    by (simp_all add: RangeEnd_def RangeFree_def load32_def add.assoc)
  show "copy_header d c s = s\<lparr>memory := m'\<rparr>" by (simp add: m'_def copy_header_def)
qed

lemma copy_header_rep:
  assumes rep: "heap_rep s H rs fs" and d: "headers_ok (insert d H)" "d \<notin> H" and c: "fits c 24"
  defines "s' \<equiv> copy_header d c s"
  shows "heap_rep s' (insert d H) rs fs" "step_frame {d} s s'"
    and "RangeEnd (memory s') d = RangeEnd (memory s) c" "RangeFree (memory s') d = RangeFree (memory s) c"
proof -
  have fd: "fits d 24" using d(1) by (simp add: headers_ok_def)
  note C = copy_header_fields [OF fd c, of s, folded s'_def]
  have apart: "span d 24 \<inter> header_span H = {}"
  proof -
    have "span d 24 \<inter> span a 24 = {}" if "a \<in> H" for a
      using d that unfolding headers_ok_def by (metis insertI1 insertI2)
    then show ?thesis by (simp add: header_span_def Int_UN_distrib)
  qed
  from rep have ok: "headers_ok H" and sub: "set (map base rs) \<subseteq> H" "set fs \<subseteq> H"
    and L: "list_rep (memory s) (BlHeapRanges s) (map base rs)" "list_rep (memory s) (BlFreeRanges s) (map FreeNode fs)"
    and B: "\<forall>r\<in>set rs. block_at (memory s) r"
    by (auto simp: heap_rep_def)
  have "node_span (set (map base rs)) \<inter> span d 24 = {}" "node_span (set (map FreeNode fs)) \<inter> span d 24 = {}"
    using apart node_span_header(1) [OF sub(1)] node_span_header(2) [OF set_map_FreeNode_sub [OF sub(2)]] by blast+
  then have L': "list_rep (memory s') (BlHeapRanges s) (map base rs)"
      "list_rep (memory s') (BlFreeRanges s) (map FreeNode fs)"
    using same_outside_on [OF C(1)] bl.rep_frame [OF L(1)] bl.rep_frame [OF L(2)] by (simp_all add: Int_commute)
  have "RangeEnd (memory s') h = RangeEnd (memory s) h" "RangeFree (memory s') h = RangeFree (memory s) h" if "h \<in> H" for h
  proof -
    have "span h 24 \<subseteq> header_span H" using that by (auto simp: header_span_def)
    then have "span d 24 \<inter> span h 24 = {}" using apart by blast
    then have "same_on (span h 24) (memory s) (memory s')" using same_outside_on [OF C(1)] by blast
    from range_fields_same_on [OF this]
    show "RangeEnd (memory s') h = RangeEnd (memory s) h" "RangeFree (memory s') h = RangeFree (memory s) h" .
  qed
  then have "\<forall>r\<in>set rs. block_at (memory s') r"
    by (intro blocks_frame [OF B, where H = H]) (use sub(1) in auto)
  moreover have "BlHeapRanges s' = BlHeapRanges s" "BlFreeRanges s' = BlFreeRanges s" by (subst C(4), simp)+
  ultimately show "heap_rep s' (insert d H) rs fs" using L' d sub by (auto simp: heap_rep_def)
  show "step_frame {d} s s'" using C(1) by (simp add: step_frame_def header_span_def) (subst C(4), simp)
  show "RangeEnd (memory s') d = RangeEnd (memory s) c" "RangeFree (memory s') d = RangeFree (memory s) c"
    by (rule C)+
qed

section \<open>Where a new range goes\<close>

definition ranges_below :: "u32 \<Rightarrow> block list \<Rightarrow> block list" where
  "ranges_below b rs = takeWhile (\<lambda>r. fst r < b) rs"

definition ranges_from :: "u32 \<Rightarrow> block list \<Rightarrow> block list" where
  "ranges_from b rs = dropWhile (\<lambda>r. fst r < b) rs"

lemma range_below_find:
  assumes "heap_rep s H (dn @ todo) fs"
  shows "range_below (memory s) b prev (head_or (map base todo) 0) = Some (last_or prev (map base (ranges_below b todo)))"
  using assms
proof (induction todo arbitrary: dn prev)
  case Nil
  show ?case by (subst range_below.simps) (simp add: ranges_below_def)
next
  case (Cons r todo)
  obtain c d f where r: "r = (c, d, f)" by (cases r)
  have "RangeNext (memory s) c = head_or (map base todo) 0"
    using Cons.prems by (intro heap_rep_links(2) [where xs = dn and ys = todo]) (simp add: r)
  moreover have "c \<noteq> 0" using Cons.prems heap_rep_block [OF Cons.prems, of c d f] heap_rep_distinct [OF Cons.prems] by (auto simp: r)
  moreover have "heap_rep s H ((dn @ [r]) @ todo) fs" using Cons.prems by simp
  note Cons.IH [OF this, of c]
  ultimately show ?case
    by (subst range_below.simps) (auto simp: r ranges_below_def not_le)
qed

text \<open>The part of \<open>[b, e)\<close> that is added: from the end of the range below to the next range.\<close>

definition gap_lo :: "block list \<Rightarrow> u32 \<Rightarrow> u32" where
  "gap_lo xs b = (if xs \<noteq> [] \<and> fst (snd (last xs)) > b then fst (snd (last xs)) else b)"

definition gap_hi :: "block list \<Rightarrow> block list \<Rightarrow> u32 \<Rightarrow> u32" where
  "gap_hi xs ys e = (if xs \<noteq> [] \<and> ys \<noteq> [] \<and> e > fst (hd ys) then fst (hd ys) else e)"

definition added :: "block list \<Rightarrow> u32 \<Rightarrow> u32 \<Rightarrow> block list" where
  "added rs b e =
     (let xs = ranges_below b rs; ys = ranges_from b rs; lo = gap_lo xs b; hi = gap_hi xs ys e
      in if lo < hi \<and> (touches_prev xs lo \<or> touches_next hi ys \<or> 24 \<le> hi - lo) then merged xs lo hi ys else rs)"

text \<open>
  The order in which ranges may be added: with no range below it, a new range must end before
  the first range (the code then looks at no neighbour at all).
\<close>

definition add_in_order :: "block list \<Rightarrow> u32 \<Rightarrow> u32 \<Rightarrow> bool" where
  "add_in_order rs b e \<longleftrightarrow> (case rs of [] \<Rightarrow> True | (c, d, f) # _ \<Rightarrow> c < b \<or> e < c \<or> e = c \<and> \<not> f)"

section \<open>The contract\<close>

lemma last_or_0: "last_or 0 (map base xs) = (if xs = [] then 0 else fst (last xs))"
  by (cases xs rule: rev_cases) auto

lemma place_range_cases:
  assumes "prev \<noteq> 0 \<and> RangeFree (memory s) prev \<and> RangeEnd (memory s) prev = lo \<longleftrightarrow> P"
    and "next \<noteq> 0 \<and> RangeFree (memory s) next \<and> hi = next \<longleftrightarrow> N"
  shows "place_range prev next lo hi s =
    (if hi \<le> lo then s
     else if P \<and> N then free_remove (FreeNode next) (heap_remove next (write_End prev (RangeEnd (memory s) next) s))
     else if P then write_End prev hi s
     else if N then free_insert 0 (FreeNode lo) (heap_insert prev lo
         (copy_header lo next (free_remove (FreeNode next) (heap_remove next s))))
     else if hi - lo < 24 then s
     else free_insert 0 (FreeNode lo) (heap_insert prev lo (write_Free lo True (write_End lo hi s))))"
  unfolding place_range_def Let_def assms SIZEOF_HeapRange_def by (rule refl)

lemma BlAddHeapRange_cases:
  assumes rep: "heap_rep s H rs fs"
    and b: "BL_ALIGN_UP base0 HEAP_ALIGNMENT = b" and e: "BL_ALIGN_DOWN (base0 + sz) HEAP_ALIGNMENT = e" and be: "b < e"
  defines "xs \<equiv> ranges_below b rs" and "ys \<equiv> ranges_from b rs"
  defines "lo \<equiv> gap_lo xs b" and "hi \<equiv> gap_hi xs ys e"
  assumes ord: "xs = [] \<longrightarrow> \<not> touches_next hi ys"
  shows "\<exists>prev next. BlAddHeapRange base0 sz s = Some (place_range prev next lo hi s)
    \<and> prev = last_or 0 (map base xs)
    \<and> (prev \<noteq> 0 \<and> RangeFree (memory s) prev \<and> RangeEnd (memory s) prev = lo \<longleftrightarrow> touches_prev xs lo)
    \<and> (next \<noteq> 0 \<and> RangeFree (memory s) next \<and> hi = next \<longleftrightarrow> touches_next hi ys)"
proof -
  have rs: "rs = xs @ ys" by (simp add: xs_def ys_def ranges_below_def ranges_from_def)
  have nz: "c \<noteq> 0" if "(c, d, g) \<in> set (xs @ ys)" for c d g
    using heap_rep_block [OF rep] that heap_rep_distinct [OF rep] unfolding rs by metis
  have blk: "RangeEnd (memory s) c = d" "RangeFree (memory s) c = g" if "(c, d, g) \<in> set (xs @ ys)" for c d g
    using heap_rep_block [OF rep] that unfolding rs by blast+
  let ?prev = "last_or 0 (map base xs)" let ?next = "if ?prev \<noteq> 0 then head_or (map base ys) 0 else 0"
  have below: "range_below (memory s) b 0 (BL_CONTAINER 0 (Head (BlHeapRanges s))) = Some ?prev"
    using range_below_find [of s H "[]" rs fs b 0] rep heap_rep_range_head [OF rep] by (simp add: xs_def)
  have nextr: "(if ?prev \<noteq> 0 then RangeNext (memory s) ?prev else 0) = ?next"
  proof (cases xs rule: rev_cases)
    case (snoc zs z)
    then have "heap_rep s H (zs @ (fst z, fst (snd z), snd (snd z)) # ys) fs" using rep by (simp add: rs)
    from heap_rep_links(2) [OF this] show ?thesis by (simp add: snoc)
  qed simp
  have lo: "(if ?prev \<noteq> 0 \<and> RangeEnd (memory s) ?prev > b then RangeEnd (memory s) ?prev else b) = lo"
    and mp: "?prev \<noteq> 0 \<and> RangeFree (memory s) ?prev \<and> RangeEnd (memory s) ?prev = lo \<longleftrightarrow> touches_prev xs lo"
  proof -
    have last: "fst (last xs) \<noteq> 0" "RangeEnd (memory s) (fst (last xs)) = fst (snd (last xs))"
      "RangeFree (memory s) (fst (last xs)) = snd (snd (last xs))" if "xs \<noteq> []"
      using nz [of "fst (last xs)" "fst (snd (last xs))" "snd (snd (last xs))"]
        blk [of "fst (last xs)" "fst (snd (last xs))" "snd (snd (last xs))"] that by simp_all
    show "(if ?prev \<noteq> 0 \<and> RangeEnd (memory s) ?prev > b then RangeEnd (memory s) ?prev else b) = lo"
      using last by (cases "xs = []") (simp_all add: last_or_0 lo_def gap_lo_def)
    show "?prev \<noteq> 0 \<and> RangeFree (memory s) ?prev \<and> RangeEnd (memory s) ?prev = lo \<longleftrightarrow> touches_prev xs lo"
      using last by (cases "xs = []") (simp_all add: last_or_0 touches_prev_def)
  qed
  have hi: "(if ?next \<noteq> 0 \<and> e > ?next then ?next else e) = hi"
    and mn: "?next \<noteq> 0 \<and> RangeFree (memory s) ?next \<and> hi = ?next \<longleftrightarrow> touches_next hi ys"
  proof -
    have p: "?prev \<noteq> 0 \<longleftrightarrow> xs \<noteq> []"
      using nz [of "fst (last xs)" "fst (snd (last xs))" "snd (snd (last xs))"] by (auto simp: last_or_0)
    have nzy: "fst (hd ys) \<noteq> 0" if "ys \<noteq> []"
      using nz [of "fst (hd ys)" "fst (snd (hd ys))" "snd (snd (hd ys))"] that by simp
    show "(if ?next \<noteq> 0 \<and> e > ?next then ?next else e) = hi"
      using nzy p by (cases "ys = []") (auto simp: head_or_map hi_def gap_hi_def)
    show "?next \<noteq> 0 \<and> RangeFree (memory s) ?next \<and> hi = ?next \<longleftrightarrow> touches_next hi ys"
      using nzy p ord blk(2) [of "fst (hd ys)" "fst (snd (hd ys))" "snd (snd (hd ys))"]
      by (cases "ys = []") (auto simp: head_or_map touches_next_def)
  qed
  have "BlAddHeapRange base0 sz s = Some (place_range ?prev ?next lo hi s)"
    using be unfolding BlAddHeapRange_def Let_def b e below bind.simps nextr lo hi by simp
  with mp mn show ?thesis by blast
qed

text \<open>
  The four ways a range is placed: joined with the free range below it (and with the one
  above), joined with the free range above it (whose header moves down), or on its own.
\<close>

definition place_step :: "block list \<Rightarrow> u32 set \<Rightarrow> block list \<Rightarrow> 'a heap_scheme \<Rightarrow> 'a heap_scheme \<Rightarrow> bool" where
  "place_step rs new rs' s s' \<longleftrightarrow> (\<exists>fs'. heap_rep s' (bases rs') rs' fs' \<and> set fs' = free_bases rs'
     \<and> step_frame (bases rs \<union> new) s s')"

lemma free_bases_minus:
  assumes "distinct (map fst (xs @ (c, d, True) # ws))"
  shows "free_bases (xs @ (c, d, True) # ws) - {c} = free_bases (xs @ ws)"
proof -
  have "c \<notin> free_bases xs" "c \<notin> free_bases ws"
    using assms free_bases_sub [of xs] free_bases_sub [of ws] by auto
  then show ?thesis by auto
qed

lemma place_left:
  assumes rep: "heap_rep s (bases ((zs @ [(pb, lo, True)]) @ ys)) ((zs @ [(pb, lo, True)]) @ ys) fs"
    and fs: "set fs = free_bases ((zs @ [(pb, lo, True)]) @ ys)" and nle: "\<not> hi \<le> lo"
    and T: "pb \<noteq> 0 \<and> RangeFree (memory s) pb \<and> RangeEnd (memory s) pb = lo"
      "next \<noteq> 0 \<and> RangeFree (memory s) next \<and> hi = next \<longleftrightarrow> touches_next hi ys"
  shows "place_step (zs @ (pb, lo, True) # ys) {} (merged (zs @ [(pb, lo, True)]) lo hi ys) s (place_range pb next lo hi s)"
proof -
  let ?H = "bases (zs @ (pb, lo, True) # ys)" let ?rs' = "merged (zs @ [(pb, lo, True)]) lo hi ys"
  have T1: "pb \<noteq> 0 \<and> RangeFree (memory s) pb \<and> RangeEnd (memory s) pb = lo \<longleftrightarrow> True" using T(1) by simp
  note op = place_range_cases [OF T1 T(2)]
  have r: "heap_rep s ?H (zs @ (pb, lo, True) # ys) fs" using rep by simp
  have dist: "distinct (map fst (zs @ (pb, lo, True) # ys))" "distinct fs" using heap_rep_distinct [OF r] by simp_all
  show ?thesis
  proof (cases "touches_next hi ys")
    case N: True
    then obtain d ws where ys: "ys = (hi, d, True) # ws" by (rule touches_nextE)
    let ?s = "write_End pb d s" let ?s' = "free_remove (FreeNode hi) (heap_remove hi ?s)"
    note W = write_block_rep(1,2) [OF r, of d]
    have "heap_rep ?s ?H ((zs @ [(pb, d, True)]) @ (hi, d, True) # ws) fs" using W(1) by (simp add: ys)
    note U = unlink_free_rep [OF this]
    have e: "hi \<in> set fs" "RangeEnd (memory s) hi = d" "next = hi"
      using fs heap_rep_block [OF rep, of hi d True] T(2) N by (auto simp: ys)
    have rs': "?rs' = zs @ (pb, d, True) # ws" using N by (simp add: merged_def ys)
    have s': "place_range pb next lo hi s = ?s'" unfolding op using N nle by (simp add: e(2,3))
    have fs': "set (remove1 hi fs) = free_bases ?rs'"
      using free_bases_minus [of "zs @ [(pb, lo, True)]" hi d ws] dist(1)
      unfolding set_remove1_distinct [OF dist(2)] fs rs' by (simp add: ys)
    have sub: "bases ?rs' \<subseteq> ?H" unfolding rs' by (auto simp: ys)
    have "heap_rep ?s' (bases ?rs') ?rs' (remove1 hi fs)"
      by (rule heap_rep_less [where H = ?H])
        (use U(1) [OF e(1)] fs' free_bases_sub [of ?rs'] sub in \<open>simp_all add: rs'\<close>)
    with fs' step_frame_trans [OF W(2) U(2) [OF e(1)]] show ?thesis
      unfolding place_step_def s' by auto
  next
    case N: False
    note W = write_block_rep(1,2) [OF r, of hi]
    have s': "place_range pb next lo hi s = write_End pb hi s" using N nle by (simp add: op)
    have rs': "?rs' = zs @ (pb, hi, True) # ys" using N by (simp add: merged_def)
    have "set fs = free_bases ?rs'" "bases ?rs' = ?H" by (auto simp: rs' fs)
    with W show ?thesis unfolding place_step_def s' rs' by auto
  qed
qed

lemma place_right:
  assumes rep: "heap_rep s (bases (xs @ ys)) (xs @ ys) fs" and fs: "set fs = free_bases (xs @ ys)"
    and nle: "\<not> hi \<le> lo" and P: "\<not> touches_prev xs lo"
    and ord': "ordered 1 (merged xs lo hi ys)" and lo: "lo \<notin> bases (xs @ ys)" and prev: "prev = last_or 0 (map base xs)"
    and room: "touches_next hi ys \<or> \<not> hi - lo < 24"
    and T: "prev \<noteq> 0 \<and> RangeFree (memory s) prev \<and> RangeEnd (memory s) prev = lo \<longleftrightarrow> touches_prev xs lo"
      "next \<noteq> 0 \<and> RangeFree (memory s) next \<and> hi = next \<longleftrightarrow> touches_next hi ys"
  shows "place_step (xs @ ys) {lo} (merged xs lo hi ys) s (place_range prev next lo hi s)"
proof -
  let ?H = "bases (xs @ ys)" let ?rs' = "merged xs lo hi ys"
  note op = place_range_cases [OF T]
  have dist: "distinct (map fst (xs @ ys))" "distinct fs" using heap_rep_distinct [OF rep] by simp_all
  have ok': "headers_ok (bases ?rs')" using ordered_headers_ok [OF ord'] by simp
  show ?thesis
  proof (cases "touches_next hi ys")
    case N: True
    then obtain d ws where ys: "ys = (hi, d, True) # ws" by (rule touches_nextE)
    let ?s1 = "free_remove (FreeNode hi) (heap_remove hi s)" let ?s2 = "copy_header lo hi ?s1"
    have rs': "?rs' = xs @ (lo, d, True) # ws" using P N by (simp add: merged_def ys)
    have "heap_rep s ?H (xs @ (hi, d, True) # ws) fs" using rep by (simp add: ys)
    note U = unlink_free_rep [OF this]
    have e: "hi \<in> set fs" "hi \<in> ?H" "RangeEnd (memory s) hi = d" "RangeFree (memory s) hi" "next = hi"
      using fs heap_rep_block [OF rep, of hi d True] T(2) N by (auto simp: ys)
    have fs1: "set (remove1 hi fs) = free_bases (xs @ ws)"
      using free_bases_minus [of xs hi d ws] dist(1) unfolding set_remove1_distinct [OF dist(2)] fs ys by simp
    have r1: "heap_rep ?s1 (bases (xs @ ws)) (xs @ ws) (remove1 hi fs)"
      by (rule heap_rep_less [OF U(1) [OF e(1)]]) (use fs1 free_bases_sub [of "xs @ ws"] in \<open>auto simp: ys\<close>)
    have new: "insert lo (bases (xs @ ws)) = bases ?rs'" "lo \<notin> bases (xs @ ws)" "lo \<in> bases ?rs'" "bases ?rs' \<subseteq> ?H \<union> {lo}"
      using lo unfolding rs' by (auto simp: ys)
    have fh: "fits hi 24" using rep e(2) unfolding heap_rep_def headers_ok_def by blast
    note C = copy_header_rep [OF r1 _ new(2) fh, unfolded new(1), OF ok']
    have blk: "block_at (memory ?s2) (lo, d, True)"
      using C(3,4) bspec [OF U(3) [OF e(1)] e(2)] e(3,4) by (simp add: block_at_def)
    note I = heap_insert_rep(1,2) [OF C(1) new(3,2) blk prev]
    have lofs: "lo \<notin> set (remove1 hi fs)" using fs1 free_bases_sub [of "xs @ ws"] new(2) by blast
    note F = free_insert_rep(1,2) [OF I(1) new(3) lofs, of 0 "lo # remove1 hi fs"]
    have s': "place_range prev next lo hi s = free_insert 0 (FreeNode lo) (heap_insert prev lo ?s2)"
      unfolding op using P N nle by (simp add: e(5))
    have "set (lo # remove1 hi fs) = free_bases ?rs'" using fs1 by (simp add: rs')
    moreover have "heap_rep (place_range prev next lo hi s) (bases ?rs') ?rs' (lo # remove1 hi fs)"
      unfolding s' using F(1) by (simp add: rs')
    moreover have "step_frame (?H \<union> {lo}) s ?s1" "step_frame (?H \<union> {lo}) ?s1 ?s2"
      "step_frame (?H \<union> {lo}) ?s2 (heap_insert prev lo ?s2)"
      "step_frame (?H \<union> {lo}) (heap_insert prev lo ?s2) (place_range prev next lo hi s)"
      using U(2) [OF e(1)] C(2) I(2) F(2) new(4) unfolding s' by (auto elim: step_frame_mono)
    ultimately show ?thesis unfolding place_step_def by (meson step_frame_trans)
  next
    case N: False
    let ?s1 = "heap_insert prev lo (write_Free lo True (write_End lo hi s))"
    have rs': "?rs' = xs @ (lo, hi, True) # ys" using P N by (simp add: merged_def)
    have new: "insert lo ?H = bases ?rs'" "lo \<in> bases ?rs'" by (auto simp: rs')
    have r: "heap_rep s (bases ?rs') (xs @ ys) fs" by (rule heap_rep_more [OF rep ok']) (use new in auto)
    note B = new_block_rep [OF r new(2) lo prev, of True hi]
    have lofs: "lo \<notin> set fs" using fs free_bases_sub [of "xs @ ys"] lo by blast
    note F = free_insert_rep(1,2) [OF B(1) new(2) lofs, of 0 "lo # fs"]
    have s': "place_range prev next lo hi s = free_insert 0 (FreeNode lo) ?s1" using P N nle room by (simp add: op)
    have "set (lo # fs) = free_bases ?rs'" by (simp add: rs' fs)
    moreover have "step_frame (?H \<union> {lo}) s (place_range prev next lo hi s)"
      using step_frame_trans [OF B(2) F(2)] new(1) unfolding s' by (simp add: insert_commute)
    ultimately show ?thesis using F(1) unfolding place_step_def s' by (auto simp: rs')
  qed
qed

section \<open>The contract\<close>

definition add_base :: "u32 \<Rightarrow> u32" where "add_base base0 = BL_ALIGN_UP base0 HEAP_ALIGNMENT"
definition add_end :: "u32 \<Rightarrow> u32 \<Rightarrow> u32" where "add_end base0 sz = BL_ALIGN_DOWN (base0 + sz) HEAP_ALIGNMENT"

lemma add_bounds:
  assumes "base0 \<noteq> 0" "unat base0 + 3 < 2 ^ 32"
  shows "4 dvd unat (add_base base0)" "4 dvd unat (add_end base0 sz)" "0 < unat (add_base base0)"
proof -
  have u: "unat (add_base base0) = (unat base0 + 3) div 4 * 4"
    using unat_BL_ALIGN_UP [where 'a = 32 and k = 2 and x = base0] assms(2) by (simp add: add_base_def HEAP_ALIGNMENT_def)
  then show "4 dvd unat (add_base base0)" by simp
  have "unat base0 \<noteq> 0" using assms(1) by (simp add: unat_eq_0)
  then show "0 < unat (add_base base0)" unfolding u by linarith
  show "4 dvd unat (add_end base0 sz)"
    using unat_BL_ALIGN_DOWN [where 'a = 32 and k = 2 and x = "base0 + sz"] by (simp add: add_end_def HEAP_ALIGNMENT_def)
qed

text \<open>The gap between the neighbours, for an ordered list of ranges.\<close>

lemma gap_order:
  assumes ord: "ordered 1 rs" and b: "0 < unat b" "4 dvd unat b" "4 dvd unat e" and o: "add_in_order rs b e"
  defines "xs \<equiv> ranges_below b rs" and "ys \<equiv> ranges_from b rs"
  defines "lo \<equiv> gap_lo xs b" and "hi \<equiv> gap_hi xs ys e"
  assumes nle: "\<not> hi \<le> lo"
  shows "rs = xs @ ys" "ordered 1 xs" "end_or 1 xs \<le> unat lo" "unat lo < unat hi" "4 dvd unat lo" "4 dvd unat hi"
    "ordered (unat hi) ys" "lo \<notin> bases (xs @ ys)" "unat b \<le> unat lo" "unat hi \<le> unat e" "xs = [] \<longrightarrow> \<not> touches_next hi ys"
proof -
  show rs: "rs = xs @ ys" by (simp add: xs_def ys_def ranges_below_def ranges_from_def)
  then have oxy: "ordered 1 xs" "ordered (end_or 1 xs) ys" using ord by auto
  show "ordered 1 xs" by (rule oxy(1))
  have y: "b \<le> fst (hd ys)" if "ys \<noteq> []"
    using that hd_dropWhile [of "\<lambda>r. fst r < b" rs] by (simp add: ys_def ranges_from_def)
  have last: "4 dvd unat (fst (snd (last xs)))" if "xs \<noteq> []"
    using ordered_bounds [OF oxy(1), of "fst (last xs)" "fst (snd (last xs))" "snd (snd (last xs))"] that by simp
  have head: "4 dvd unat (fst (hd ys))" if "ys \<noteq> []"
    using oxy(2) that by (cases ys) auto
  show lt: "unat lo < unat hi" using nle by (simp add: word_less_nat_alt word_le_nat_alt)
  show endlo: "end_or 1 xs \<le> unat lo" using b(1) by (auto simp: end_or_def lo_def gap_lo_def word_less_nat_alt)
  show dv: "4 dvd unat lo" "4 dvd unat hi" using b last head by (auto simp: lo_def gap_lo_def hi_def gap_hi_def)
  show "unat b \<le> unat lo" by (auto simp: lo_def gap_lo_def word_less_nat_alt)
  show "unat hi \<le> unat e" by (auto simp: hi_def gap_hi_def word_less_nat_alt)
  have empty: "e < fst (hd ys) \<or> e = fst (hd ys) \<and> \<not> snd (snd (hd ys))" if "xs = []" "ys \<noteq> []"
    using o y that rs by (cases ys) (auto simp: add_in_order_def)
  show "xs = [] \<longrightarrow> \<not> touches_next hi ys"
    using empty by (auto simp: touches_next_def hi_def gap_hi_def)
  have "unat hi \<le> unat (fst (hd ys))" if "ys \<noteq> []"
    using that empty by (cases "xs = []") (auto simp: hi_def gap_hi_def word_less_nat_alt)
  then show oys: "ordered (unat hi) ys" using oxy(2) by (cases ys) auto
  show "lo \<notin> bases (xs @ ys)"
  proof
    assume "lo \<in> bases (xs @ ys)"
    then obtain r where r: "lo = fst r" "r \<in> set (xs @ ys)" by (rule imageE)
    obtain d f where "(lo, d, f) \<in> set xs \<or> (lo, d, f) \<in> set ys" using r by (cases r) auto
    then show False
      using ordered_bounds [OF oxy(1), of lo d f] ordered_bounds [OF oys, of lo d f] endlo lt by auto
  qed
qed

lemma merged_header_place:
  assumes "ordered 1 xs" "end_or 1 xs \<le> unat lo" "ordered (unat hi) ys" "unat lo < unat hi"
    and h: "h \<in> bases (xs @ ys) \<or> h = lo \<and> \<not> touches_prev xs lo"
  shows "header_place (merged xs lo hi ys) h"
proof (cases "touches_next hi ys \<and> h = hi")
  case True
  then obtain d ws where ys: "ys = (hi, d, True) # ws" using touches_nextE by blast
  have "unat hi + 24 \<le> unat d" using assms(3) by (simp add: ys)
  moreover have "unat (if touches_prev xs lo then fst (last xs) else lo) \<le> unat hi"
  proof (cases "touches_prev xs lo")
    case True
    then obtain zs pb where "xs = zs @ [(pb, lo, True)]" by (rule touches_prevE)
    then show ?thesis using assms by auto
  qed (use assms in simp)
  moreover have "(if touches_prev xs lo then fst (last xs) else lo, d, True) \<in> set (merged xs lo hi ys)"
    by (simp add: merged_def ys)
  ultimately show ?thesis using True unfolding header_place_def by blast
next
  case False
  then have "h \<in> bases (merged xs lo hi ys)"
    using h by (cases "touches_prev xs lo") (auto simp: merged_def elim!: touches_prevE touches_nextE)
  then show ?thesis by (simp add: header_place_def)
qed

text \<open>What the abstract addition does to the heap's content.\<close>

lemma added_content:
  assumes ord: "ordered 1 rs" and co: "coalesced rs" and b: "0 < unat b" "4 dvd unat b" "4 dvd unat e" and o: "add_in_order rs b e"
  shows "ordered 1 (added rs b e)" "coalesced (added rs b e)" "live (added rs b e) = live rs"
    "foot rs \<subseteq> foot (added rs b e)" "foot (added rs b e) \<subseteq> foot rs \<union> area b e"
    "unat b + 24 \<le> unat e \<Longrightarrow> area b e \<inter> foot rs = {} \<Longrightarrow> foot (added rs b e) = foot rs \<union> area b e"
proof -
  define xs where "xs = ranges_below b rs" define ys where "ys = ranges_from b rs"
  define lo where "lo = gap_lo xs b" define hi where "hi = gap_hi xs ys e"
  have ad: "added rs b e = (if lo < hi \<and> (touches_prev xs lo \<or> touches_next hi ys \<or> 24 \<le> hi - lo) then merged xs lo hi ys else rs)"
    unfolding added_def Let_def xs_def ys_def lo_def hi_def by (rule refl)
  have G: "rs = xs @ ys \<and> ordered 1 (added rs b e) \<and> coalesced (added rs b e) \<and> live (added rs b e) = live rs
      \<and> foot (added rs b e) = foot rs \<union> area lo hi \<and> unat b \<le> unat lo \<and> unat hi \<le> unat e"
    if c: "lo < hi \<and> (touches_prev xs lo \<or> touches_next hi ys \<or> 24 \<le> hi - lo)"
  proof -
    have "\<not> gap_hi (ranges_below b rs) (ranges_from b rs) e \<le> gap_lo (ranges_below b rs) b"
      using c by (simp add: xs_def ys_def lo_def hi_def not_le)
    note g = gap_order [OF ord b o this, folded xs_def ys_def, folded lo_def hi_def]
    have "touches_prev xs lo \<or> touches_next hi ys \<or> unat lo + 24 \<le> unat hi"
      using c ge24 [of lo hi] g(4) by auto
    moreover have "coalesced xs" "coalesced ys" using co by (simp_all add: g(1) coalesced_append)
    moreover have ad': "added rs b e = merged xs lo hi ys" using c by (simp add: ad)
    ultimately show ?thesis
      using c merged_ordered [OF g(2-7)] merged_coalesced [OF _ _ g(2-4,7)] merged_foot [OF g(2-4,7)] merged_live g(1,9,10)
      unfolding ad' by (simp add: g(1) Un_commute Un_left_commute)
  qed
  show "ordered 1 (added rs b e)" "coalesced (added rs b e)" "live (added rs b e) = live rs" "foot rs \<subseteq> foot (added rs b e)"
    using G ord co by (auto simp: ad)
  show "foot (added rs b e) \<subseteq> foot rs \<union> area b e"
    using G area_sub [of b lo hi e] by (auto simp: ad)
  show "foot (added rs b e) = foot rs \<union> area b e" if room: "unat b + 24 \<le> unat e" and free: "area b e \<inter> foot rs = {}"
  proof -
    have rs: "rs = xs @ ys" by (simp add: xs_def ys_def ranges_below_def ranges_from_def)
    have inf: "b \<in> area b e" using room by (auto simp: area_def word_less_nat_alt)
    have "lo = b"
    proof (rule ccontr)
      assume "lo \<noteq> b"
      then have x: "xs \<noteq> []" "b < fst (snd (last xs))" by (auto simp: lo_def gap_lo_def split: if_splits)
      then have "fst (last xs) < b" using set_takeWhileD [of "last xs" "\<lambda>r. fst r < b" rs] by (simp add: xs_def ranges_below_def)
      with x have "b \<in> area (fst (last xs)) (fst (snd (last xs)))" by (simp add: area_def)
      moreover have "last xs \<in> set rs" using x by (simp add: rs)
      ultimately have "b \<in> foot rs" unfolding foot_def by blast
      with inf free show False by blast
    qed
    moreover have "hi = e"
    proof (rule ccontr)
      assume "hi \<noteq> e"
      then have y: "ys \<noteq> []" "fst (hd ys) < e" by (auto simp: hi_def gap_hi_def split: if_splits)
      then have "b \<le> fst (hd ys)" using hd_dropWhile [of "\<lambda>r. fst r < b" rs] by (simp add: ys_def ranges_from_def)
      with y have "fst (hd ys) \<in> area b e" by (simp add: area_def)
      moreover have h: "hd ys \<in> set rs" using y by (simp add: rs)
      then have "fst (hd ys) < fst (snd (hd ys))"
        using ordered_bounds [OF ord, of "fst (hd ys)" "fst (snd (hd ys))" "snd (snd (hd ys))"] by (simp add: word_less_nat_alt)
      then have "fst (hd ys) \<in> foot rs" using h unfolding foot_def by (force simp: area_def)
      ultimately show False using free by blast
    qed
    moreover have "b < e" "24 \<le> e - b" using room by (simp_all add: ge24 word_less_nat_alt)
    ultimately have "foot (added rs b e) = foot rs \<union> area lo hi" using G by blast
    with \<open>lo = b\<close> \<open>hi = e\<close> show ?thesis by simp
  qed
qed


end
