(* ===== verification/Heap_Resize.thy ===== *)
theory Heap_Resize
  imports Heap_Add
begin

text \<open>
  Growing an allocation: in place into the free range behind it, or by moving it. The contents
  survive either way.
\<close>

definition data_of :: "(u32 \<times> u32) set \<Rightarrow> u32 set" where
  "data_of L = (\<Union>(b, e)\<in>L. area (b + 24) e)"

lemma live_data_data_of: "live_data rs = data_of (live rs)"
  by (simp add: live_data_def data_of_def)

lemma data_of_mono: "L \<subseteq> L' \<Longrightarrow> data_of L \<subseteq> data_of L'"
  by (auto simp: data_of_def)

section \<open>In place\<close>

lemma grow_rep:
  assumes rep: "heap_rep s (bases (xs @ (b, e, False) # (e, d, True) # ws)) (xs @ (b, e, False) # (e, d, True) # ws) fs"
    and fs: "set fs = free_bases (xs @ (e, d, True) # ws)"
    and ord: "ordered 1 (xs @ (b, e, False) # (e, d, True) # ws)"
    and n: "unat e < unat n" "unat n \<le> unat d" "4 dvd unat n"
  defines "rs' \<equiv> xs @ (b, if 24 \<le> d - n then n else d, False) # tail_piece n d @ ws"
  defines "s1 \<equiv> free_remove (FreeNode e) (heap_remove e s)"
  defines "s' \<equiv> (if 24 \<le> d - n then write_End b n (free_insert 0 (FreeNode n) (heap_insert b n (copy_header n e s1)))
    else write_End b d s1)"
  shows "\<exists>fs'. heap_rep s' (bases rs') rs' fs' \<and> set fs' = free_bases rs'
    \<and> step_frame (bases (xs @ (b, e, False) # (e, d, True) # ws) \<union> bases rs') s s'"
proof -
  let ?rs = "xs @ (b, e, False) # (e, d, True) # ws" let ?H = "bases ?rs"
  have r: "heap_rep s ?H ((xs @ [(b, e, False)]) @ (e, d, True) # ws) fs" using rep by simp
  note U = unlink_free_rep [OF r, folded s1_def]
  have e: "e \<in> set fs" "e \<in> ?H" "RangeEnd (memory s) e = d" "RangeFree (memory s) e"
    using fs heap_rep_block [OF rep, of e d True] by auto
  have dist: "distinct (map fst ?rs)" "distinct fs" using heap_rep_distinct [OF rep] by simp_all
  let ?fs = "remove1 e fs"
  have fs1: "set ?fs = free_bases (xs @ ws)"
    using free_bases_minus [of xs e d ws] dist(1) unfolding set_remove1_distinct [OF dist(2)] fs by auto
  let ?rs1 = "xs @ (b, e, False) # ws"
  have r1: "heap_rep s1 (bases ?rs1) ?rs1 ?fs"
    by (rule heap_rep_less [OF U(1) [OF e(1), simplified]]) (use fs1 free_bases_sub [of "xs @ ws"] in auto)
  have f1: "step_frame ?H s s1" by (rule U(2) [OF e(1)])
  show ?thesis
  proof (cases "24 \<le> d - n")
    case False
    note W = write_block_rep(1,2) [OF r1, of d]
    have rs': "rs' = xs @ (b, d, False) # ws" using False by (simp add: rs'_def tail_piece_def)
    have "heap_rep s' (bases rs') rs' ?fs" using W(1) False by (simp add: s'_def rs')
    moreover have "set ?fs = free_bases rs'" unfolding fs1 rs' by simp
    moreover have "step_frame ?H s s'"
      using step_frame_trans [OF f1 step_frame_mono [OF W(2)]] False by (auto simp: s'_def)
    ultimately show ?thesis using step_frame_mono [OF _ Un_upper1] by blast
  next
    case True
    then have nd: "unat n + 24 \<le> unat d" using ge24 n(2) by blast
    have rs': "rs' = xs @ (b, n, False) # (n, d, True) # ws" using True by (simp add: rs'_def tail_piece_def)
    have "ordered 1 rs'" using ord n nd by (auto simp: rs')
    from ordered_headers_ok [OF this] have ok': "headers_ok (bases rs')" and d': "distinct (map fst rs')" by auto
    have new: "insert n (bases ?rs1) = bases rs'" "n \<notin> bases ?rs1" "n \<in> bases rs'"
      using d' by (auto simp: rs')
    have fe: "fits e 24" using rep e(2) unfolding heap_rep_def headers_ok_def by blast
    note C = copy_header_rep [OF r1 _ new(2) fe, unfolded new(1), OF ok']
    have blk: "block_at (memory (copy_header n e s1)) (n, d, True)"
      using C(3,4) bspec [OF U(3) [OF e(1)] e(2)] e(3,4) by (simp add: block_at_def)
    have c1: "heap_rep (copy_header n e s1) (bases rs') ((xs @ [(b, e, False)]) @ ws) ?fs" using C(1) by simp
    have nn: "n \<notin> bases ((xs @ [(b, e, False)]) @ ws)" using new(2) by simp
    note I = heap_insert_rep(1,2) [OF c1 new(3) nn blk, of b]
    have nfs: "n \<notin> set ?fs" using fs1 free_bases_sub [of "xs @ ws"] new(2) by auto
    note F = free_insert_rep(1,2) [OF I(1) new(3) nfs, of 0 "n # ?fs", simplified]
    note W = write_block_rep(1,2) [where b = b and xs = xs and e = e and f = False, OF F(1), of n]
    have "heap_rep s' (bases rs') rs' (n # ?fs)" using W(1) True by (simp add: s'_def rs')
    moreover have "set (n # ?fs) = free_bases rs'" using fs1 by (simp add: rs')
    moreover have "step_frame (?H \<union> bases rs') s s'"
    proof -
      have "step_frame (?H \<union> bases rs') s s1" by (rule step_frame_mono [OF f1 Un_upper1])
      moreover have "step_frame (?H \<union> bases rs') s1 (copy_header n e s1)" by (rule step_frame_mono [OF C(2)]) (simp add: new(3))
      moreover have "step_frame (bases rs') (copy_header n e s1) s'"
        using step_frame_trans [OF step_frame_trans [OF I(2) F(2)] W(2)] True by (simp add: s'_def)
      ultimately show ?thesis by (meson Un_upper2 step_frame_mono step_frame_trans)
    qed
    ultimately show ?thesis by blast
  qed
qed

section \<open>The heap invariant over writes to data\<close>

lemma header_span_foot:
  assumes "ordered lo rs"
  shows "header_span (bases rs) \<inter> live_data rs = {}"
  using header_span_bookkeeping [OF assms, of "bases rs"] by (auto simp: header_place_def)

lemma heap_inv_same_headers:
  assumes inv: "heap_inv s rs fs" and same: "same_on (header_span (bases rs)) (memory s) m"
  shows "heap_inv (s\<lparr>memory := m\<rparr>) rs fs"
proof -
  from inv have rep: "heap_rep s (bases rs) rs fs" and rest: "ordered 1 rs" "coalesced rs" "set fs = free_bases rs"
    by (auto simp: heap_inv_def)
  let ?H = "bases rs"
  from rep have ok: "headers_ok ?H" and sub: "set (map base rs) \<subseteq> ?H" "set fs \<subseteq> ?H"
    and L: "list_rep (memory s) (BlHeapRanges s) (map base rs)" "list_rep (memory s) (BlFreeRanges s) (map FreeNode fs)"
    and B: "\<forall>r\<in>set rs. block_at (memory s) r"
    by (auto simp: heap_rep_def)
  have L': "list_rep m (BlHeapRanges s) (map base rs)" "list_rep m (BlFreeRanges s) (map FreeNode fs)"
    using bl.rep_frame [OF L(1) same_on_mono [OF same node_span_header(1) [OF sub(1)]]]
      bl.rep_frame [OF L(2) same_on_mono [OF same node_span_header(2) [OF set_map_FreeNode_sub [OF sub(2)]]]] by auto
  have "RangeEnd m h = RangeEnd (memory s) h" "RangeFree m h = RangeFree (memory s) h" if "h \<in> ?H" for h
  proof -
    have "span h 24 \<subseteq> header_span ?H" using that by (auto simp: header_span_def)
    then have "same_on (span h 24) (memory s) m" by (rule same_on_mono [OF same])
    from range_fields_same_on [OF this]
    show "RangeEnd m h = RangeEnd (memory s) h" "RangeFree m h = RangeFree (memory s) h" .
  qed
  then have "\<forall>r\<in>set rs. block_at m r"
    by (intro blocks_frame [OF B, where H = ?H]) auto
  then show ?thesis using L' ok sub rest by (simp add: heap_inv_def heap_rep_def)
qed

section \<open>The contract\<close>

text \<open>
  What a resize of the live range \<open>(b, e)\<close> promises: the range is replaced by one with the new
  size, the common prefix of the contents is kept, and so are all other live ranges.
\<close>

definition resized :: "block list \<Rightarrow> u32 \<times> u32 \<Rightarrow> nat \<Rightarrow> 'a heap_scheme \<Rightarrow> u32 \<Rightarrow> block list \<Rightarrow> 'a heap_scheme \<Rightarrow> bool" where
  "resized rs r n s p rs' s' \<longleftrightarrow>
     (\<exists>e'. live rs' = insert (p - 24, e') (live rs - {r}) \<and> unat p + n \<le> unat e' \<and> unat e' < unat p + n + 24) \<and> foot rs' \<subseteq> foot rs
     \<and> (\<forall>d. (p - 24, d) \<notin> live rs - {r})
     \<and> load_bytes (memory s') p (min n (unat (snd r) - unat (fst r) - 24))
         = load_bytes (memory s) (fst r + 24) (min n (unat (snd r) - unat (fst r) - 24))
     \<and> same_on (data_of (live rs - {r}) \<union> - foot rs) (memory s) (memory s') \<and> heap.more s' = heap.more s"

text \<open>Sizes that keep the allocation or grow it by at most the smallest range.\<close>

definition resize_request :: "u32 \<times> u32 \<Rightarrow> u32 \<Rightarrow> bool" where
  "resize_request r newSize \<longleftrightarrow>
     unat (snd r) - unat (fst r) - 24 < rounded newSize + 24 \<and> rounded newSize \<le> unat (snd r) - unat (fst r)"

lemma live_bounds:
  assumes "heap_inv s rs fs" "(b, e) \<in> live rs"
  shows "0 < unat b" "unat b + 24 \<le> unat e" "4 dvd unat b" "4 dvd unat e" "unat (b + 24) = unat b + 24" "b + 24 \<noteq> 0"
proof -
  have m: "(b, e, False) \<in> set rs" and ord: "ordered 1 rs" using assms by (auto simp: live_def heap_inv_def)
  from ordered_bounds [OF ord m]
  show bd: "0 < unat b" "unat b + 24 \<le> unat e" "4 dvd unat b" "4 dvd unat e" by auto
  then show "unat (b + 24) = unat b + 24" using unat_lt32 [of e] by (simp add: unat_word_ariths)
  then show "b + 24 \<noteq> 0" by (metis add_is_0 unat_0 zero_neq_numeral)
qed

lemma live_unique: "heap_inv s rs fs \<Longrightarrow> (b, e) \<in> live rs \<Longrightarrow> (b, e') \<in> live rs \<Longrightarrow> e = e'"
proof -
  assume inv: "heap_inv s rs fs" and l: "(b, e) \<in> live rs" "(b, e') \<in> live rs"
  have "distinct (map fst rs)" using ordered_headers_ok [of 1 rs] inv by (simp add: heap_inv_def)
  then show "e = e'" using l unfolding live_def by (auto dest: eq_key_imp_eq_value)
qed

lemma resize_in_place:
  assumes inv: "heap_inv s rs fs" and l: "(b, e) \<in> live rs" and touch: "rs = xs @ (b, e, False) # (e, d, True) # ws"
    and n: "unat e < unat n" "unat n \<le> unat d" "4 dvd unat n"
  defines "s1 \<equiv> free_remove (FreeNode e) (heap_remove e s)"
  defines "s' \<equiv> (if 24 \<le> d - n then write_End b n (free_insert 0 (FreeNode n) (heap_insert b n (copy_header n e s1)))
    else write_End b d s1)"
  shows "\<exists>rs' fs'. heap_inv s' rs' fs' \<and> resized rs (b, e) (unat n - unat b - 24) s (b + 24) rs' s'"
proof -
  from inv have rep: "heap_rep s (bases rs) rs fs" and ord: "ordered 1 rs" and co: "coalesced rs" and fs: "set fs = free_bases rs"
    by (auto simp: heap_inv_def)
  define rs' where "rs' = xs @ (b, if 24 \<le> d - n then n else d, False) # tail_piece n d @ ws"
  have fs0: "set fs = free_bases (xs @ (e, d, True) # ws)" using fs by (auto simp: touch)
  from grow_rep [OF rep [unfolded touch] fs0 ord [unfolded touch] n]
  obtain fs' where R: "heap_rep s' (bases rs') rs' fs'" "set fs' = free_bases rs'"
    "step_frame (bases rs \<union> bases rs') s s'"
    unfolding s'_def s1_def rs'_def touch by blast
  have nd: "24 \<le> d - n \<longleftrightarrow> unat n + 24 \<le> unat d" using ge24 n(2) by blast
  have "ordered 1 rs'" using ord n nd by (auto simp: rs'_def touch tail_piece_def)
  moreover have "coalesced rs'"
    using co by (auto simp: rs'_def touch tail_piece_def coalesced_append coalesced_Cons touching_def)
  ultimately have inv': "heap_inv s' rs' fs'" using R by (simp add: heap_inv_def)
  have b: "b \<notin> bases (xs @ (e, d, True) # ws)" using ordered_headers_ok [OF ord] by (auto simp: touch)
  have lv: "live rs' = insert (b, if 24 \<le> d - n then n else d) (live rs - {(b, e)})"
    using b by (force simp: rs'_def touch tail_piece_def live_def)
  have be: "unat b + 24 \<le> unat e" "unat e + 24 \<le> unat d" using ord by (auto simp: touch)
  have ft: "foot rs' \<subseteq> foot rs"
    using area_join [of b e d] area_join [of b n d] area_sub [of e n d d] n be
    by (auto simp: rs'_def touch tail_piece_def)
  have hp: "\<forall>h\<in>bases rs \<union> bases rs'. header_place rs h"
  proof
    fix h assume "h \<in> bases rs \<union> bases rs'"
    then have "h \<in> bases rs \<or> h = n \<and> unat n + 24 \<le> unat d"
      using nd by (auto simp: rs'_def touch tail_piece_def split: if_splits)
    moreover have "(e, d, True) \<in> set rs" by (simp add: touch)
    ultimately show "header_place rs h" using n(1) unfolding header_place_def by (metis order_less_imp_le)
  qed
  from step_frame_data_kept [OF ord R(3) hp]
  have kept: "same_on (live_data rs \<union> - foot rs) (memory s) (memory s')" "heap.more s' = heap.more s"
    by (simp_all add: data_kept_def)
  have "area (b + 24) e \<subseteq> live_data rs" using l by (force simp: live_data_def)
  moreover have "span (b + 24) (unat e - unat b - 24) \<subseteq> area (b + 24) e"
    using live_bounds [OF inv l] by (intro span_area) auto
  ultimately have "span (b + 24) (min (unat n - unat b - 24) (unat e - unat b - 24)) \<subseteq> live_data rs"
    using span_mono [of "min (unat n - unat b - 24) (unat e - unat b - 24)" "unat e - unat b - 24" "b + 24"] by auto
  then have "load_bytes (memory s') (b + 24) (min (unat n - unat b - 24) (unat e - unat b - 24))
      = load_bytes (memory s) (b + 24) (min (unat n - unat b - 24) (unat e - unat b - 24))"
    using unat_lt32 [of e] by (intro load_bytes_same_on same_on_mono [OF kept(1)]) auto
  moreover have "same_on (data_of (live rs - {(b, e)}) \<union> - foot rs) (memory s) (memory s')"
    using data_of_mono [of "live rs - {(b, e)}" "live rs"] by (intro same_on_mono [OF kept(1)]) (auto simp: live_data_data_of)
  moreover have "unat (b + 24) + (unat n - unat b - 24) \<le> unat (if 24 \<le> d - n then n else d)"
    "unat (if 24 \<le> d - n then n else d) < unat (b + 24) + (unat n - unat b - 24) + 24"
    using live_bounds [OF inv l] n nd by auto
  ultimately have "resized rs (b, e) (unat n - unat b - 24) s (b + 24) rs' s'"
    using lv ft kept(2) live_unique [OF inv l] by (auto simp: resized_def)
  with inv' show ?thesis by blast
qed

section \<open>By moving\<close>

lemma live_data_area: "(b, e) \<in> live rs \<Longrightarrow> area (b + 24) e \<subseteq> live_data rs"
  by (force simp: live_data_def)

lemma resize_by_moving:
  assumes inv: "heap_inv s rs fs" and l: "(b, e) \<in> live rs" and req: "alloc_request newSize alignment False k"
    and grows: "unat e - unat b - 24 \<le> rounded newSize"
    and new: "heap_inv s1 rs1 fs1" "allocated False rs p (rounded newSize) rs1" "data_kept rs s s1"
  defines "s2 \<equiv> s1\<lparr>memory := BlCopyMemory (memory s1) p (b + 24) (e - (b + 24))\<rparr>"
  defines "s3 \<equiv> BlFreeHeap (b + 24) s2"
  shows "\<exists>rs' fs'. heap_inv s3 rs' fs' \<and> resized rs (b, e) (rounded newSize) s p rs' s3"
proof -
  let ?n = "rounded newSize" let ?o = "unat e - unat b - 24"
  note B = live_bounds [OF inv l]
  have o: "unat (e - (b + 24)) = ?o" using B by (simp add: unat_sub32)
  have "0 < unat newSize" using req by (simp add: alloc_request_def unat_gt_0)
  then have n0: "0 < ?n" using req round_size(2) [of newSize] by (auto simp: alloc_request_def)
  obtain e' where A: "fits p ?n" "span p ?n \<subseteq> foot rs" "span p ?n \<inter> live_data rs = {}" "foot rs1 \<subseteq> foot rs"
    "live rs1 = insert (p - 24, e') (live rs)" "unat p + ?n \<le> unat e'" "unat e' < unat p + ?n + 24"
    using new(2) by (auto simp: allocated_def)
  have ord1: "ordered 1 rs1" using new(1) by (simp add: heap_inv_def)
  have le: "(p - 24, e') \<in> live rs1" "(b, e) \<in> live rs1" using A(5) l by auto
  have sub_n: "span p ?n \<subseteq> live_data rs1"
    using live_data_area [OF le(1)] span_area [of p p ?n e'] A(6) by simp
  have sub_p: "span p ?o \<subseteq> span p ?n" by (rule span_mono [OF grows])
  have src: "span (b + 24) ?o \<subseteq> live_data rs"
    using live_data_area [OF l] span_area [of "b + 24" "b + 24" ?o e] B by simp
  have fits: "fits p ?o" "fits (b + 24) ?o" using A(1) grows B unat_lt32 [of e] by (auto simp: fits_def)
  have "span p ?o \<inter> span (b + 24) ?o = {}" using A(3) src sub_p by blast
  then have m2: "memory s2 = store_bytes (memory s1) p (load_bytes (memory s1) (b + 24) ?o)"
    using memcpy_store_bytes [of p "e - (b + 24)" "b + 24" "memory s1"] fits by (simp add: s2_def BlCopyMemory_def o)
  have w2: "same_outside (span p ?o) (memory s1) (memory s2)"
    using store_bytes_same_outside [of p "load_bytes (memory s1) (b + 24) ?o"] by (simp add: m2)
  have "span p ?o \<inter> header_span (bases rs1) = {}"
    using header_span_foot [OF ord1] sub_n sub_p by blast
  from heap_inv_same_headers [OF new(1) same_outside_on [OF w2 this]]
  have inv2: "heap_inv s2 rs1 fs1" by (simp add: s2_def)
  obtain rs' fs' where F: "heap_inv s3 rs' fs'" "live rs' = live rs1 - {(b, e)}" "foot rs' = foot rs1" "data_kept rs1 s2 s3"
    using BlFreeHeap_spec [OF inv2 le(2)] by (auto simp: s3_def)
  have k1: "same_on (live_data rs \<union> - foot rs) (memory s) (memory s1)" "heap.more s1 = heap.more s"
    and k3: "same_on (live_data rs1 \<union> - foot rs1) (memory s2) (memory s3)" "heap.more s3 = heap.more s2"
    using new(3) F(4) by (simp_all add: data_kept_def)
  have "load_bytes (memory s3) p ?o = load_bytes (memory s2) p ?o"
    using unat_lt32 [of e] sub_n sub_p by (intro load_bytes_same_on same_on_mono [OF k3(1)]) auto
  also have "\<dots> = load_bytes (memory s1) (b + 24) ?o"
    using load_store_bytes [of "load_bytes (memory s1) (b + 24) ?o" "memory s1" p] unat_lt32 [of e] by (simp add: m2)
  also have "\<dots> = load_bytes (memory s) (b + 24) ?o"
    using unat_lt32 [of e] src by (intro load_bytes_same_on same_on_mono [OF k1(1)]) auto
  finally have data: "load_bytes (memory s3) p ?o = load_bytes (memory s) (b + 24) ?o" .
  let ?K = "data_of (live rs - {(b, e)}) \<union> - foot rs"
  have K: "?K \<subseteq> live_data rs \<union> - foot rs" "?K \<subseteq> live_data rs1 \<union> - foot rs1" "span p ?o \<inter> ?K = {}"
  proof -
    have "data_of (live rs - {(b, e)}) \<subseteq> live_data rs" "data_of (live rs - {(b, e)}) \<subseteq> live_data rs1"
      unfolding live_data_data_of A(5) by (rule data_of_mono; blast)+
    then show "?K \<subseteq> live_data rs \<union> - foot rs" "?K \<subseteq> live_data rs1 \<union> - foot rs1" "span p ?o \<inter> ?K = {}"
      using A(2-4) sub_p by blast+
  qed
  have kept: "same_on ?K (memory s) (memory s3)"
    using same_on_mono [OF k1(1) K(1)] same_outside_on [OF w2 K(3)] same_on_mono [OF k3(1) K(2)]
    by (blast intro: same_on_trans)
  have other: "(p - 24, d) \<notin> live rs" for d
  proof
    assume l': "(p - 24, d) \<in> live rs"
    then have "d = e'" using live_unique [OF new(1) _ le(1)] A(5) by blast
    then have "span p ?n \<subseteq> live_data rs" using live_data_area [OF l'] span_area [of p p ?n e'] A(6) by simp
    then have "span p ?n = {}" using A(3) by blast
    moreover have "p \<in> span p ?n" using n0 by simp
    ultimately show False by simp
  qed
  have "live rs' = insert (p - 24, e') (live rs - {(b, e)})" unfolding F(2) A(5) using other l by auto
  then have "resized rs (b, e) ?n s p rs' s3"
    using A(4,6,7) F(3) data kept k1(2) k3(2) grows other by (auto simp: resized_def min_def s2_def)
  with F(1) show ?thesis by blast
qed

lemma BlResizeHeap_spec:
  assumes inv: "heap_inv s rs fs" and l: "(b, e) \<in> live rs" and req: "alloc_request newSize alignment False k"
    and rr: "resize_request (b, e) newSize"
  shows "BlResizeHeap (b + 24) newSize alignment s = crash ''out of memory''
    \<or> (\<exists>p s' rs' fs'. BlResizeHeap (b + 24) newSize alignment s = ret (p, s') \<and> heap_inv s' rs' fs'
      \<and> resized rs (b, e) (rounded newSize) s p rs' s')"
proof -
  let ?sz = "BL_ALIGN_UP newSize HEAP_ALIGNMENT" let ?n = "b + 24 + ?sz" let ?o = "unat e - unat b - 24"
  note B = live_bounds [OF inv l]
  have m: "(b, e, False) \<in> set rs" using l by (simp add: live_def)
  obtain xs ys where rs: "rs = xs @ (b, e, False) # ys" using split_list [OF m] by blast
  have rep: "heap_rep s (bases rs) (xs @ (b, e, False) # ys) fs" and ord: "ordered 1 rs"
    using inv by (auto simp: heap_inv_def rs)
  note T = merge_tests [OF rep]
  have req': "newSize \<noteq> 0" "unat newSize \<le> 2 ^ 32 - 28" using req by (auto simp: alloc_request_def)
  note R = round_size [OF req'(2)]
  have o: "unat (e - (b + 24)) = ?o" using B by (simp add: unat_sub32)
  have r: "?o < rounded newSize + 24" "rounded newSize \<le> unat e - unat b"
    using rr by (auto simp: resize_request_def)
  have n: "unat ?n = unat b + 24 + rounded newSize" if "unat b + 24 + rounded newSize < 2 ^ 32"
    using that B(5) R(1) by (simp add: unat_word_ariths)
  show ?thesis
  proof (cases "?sz \<le> e - (b + 24)")
    case True
    then have keep: "rounded newSize \<le> ?o" using R(1) o by (simp add: word_le_nat_alt)
    have "\<not> SIZEOF_HeapRange \<le> e - (b + 24) - ?sz"
      using True keep R(1) o r(1) by (simp add: SIZEOF_HeapRange_def word_le_nat_alt unat_sub32)
    then have "BlResizeHeap (b + 24) newSize alignment s = ret (b + 24, s)"
      using True B(6) req'(1) T(5) by (simp add: BlResizeHeap_def Let_def SIZEOF_HeapRange_def)
    moreover have "resized rs (b, e) (rounded newSize) s (b + 24) rs s"
    proof -
      have "(b, d) \<notin> live rs - {(b, e)}" for d using live_unique [OF inv l, of d] by blast
      moreover have "live rs = insert (b, e) (live rs - {(b, e)})" using l by blast
      ultimately show ?thesis using keep B r(1) unfolding resized_def by auto
    qed
    ultimately show ?thesis using inv by blast
  next
    case False
    then have grow: "?o < rounded newSize" using R(1) o by (simp add: word_le_nat_alt)
    have next_test: "RangeNext (memory s) b \<noteq> 0 \<and> RangeNext (memory s) b = RangeEnd (memory s) b
        \<and> RangeFree (memory s) (RangeNext (memory s) b) \<longleftrightarrow> touches_next e ys"
      using T(2,5) by auto
    show ?thesis
    proof (cases "touches_next e ys")
      case True
      then obtain d ws where ys: "ys = (e, d, True) # ws" by (rule touches_nextE)
      have d: "unat e + 24 \<le> unat d" using ord by (simp add: rs ys)
      then have un: "unat ?n = unat b + 24 + rounded newSize" using r(2) B(2) unat_lt32 [of d] by (intro n) simp
      have geo: "unat e < unat ?n" "unat ?n \<le> unat d" "4 dvd unat ?n"
        using un grow r(2) d B R(4) by auto
      let ?s1 = "free_remove (FreeNode e) (heap_remove e s)"
      have "heap_rep s (bases rs) ((xs @ [(b, e, False)]) @ (e, d, True) # ws) fs" using rep by (simp add: ys)
      moreover have "e \<in> set fs" "e \<in> bases rs" using inv by (auto simp: heap_inv_def rs ys)
      ultimately have "RangeEnd (memory ?s1) e = d"
        using unlink_free_rep(3) heap_rep_block [OF rep, of e d True] by (fastforce simp: ys)
      moreover have "RangeNext (memory s) b = e" using T(4) by (simp add: ys)
      ultimately have op: "BlResizeHeap (b + 24) newSize alignment s = ret (b + 24,
          if 24 \<le> d - ?n then write_End b ?n (free_insert 0 (FreeNode ?n) (heap_insert b ?n (copy_header ?n e ?s1)))
          else write_End b d ?s1)"
        using False True B(6) req'(1) T(5) next_test
        by (simp add: BlResizeHeap_def Let_def SIZEOF_HeapRange_def)
      have len: "unat ?n - unat b - 24 = rounded newSize" using un by simp
      from resize_in_place [OF inv l rs [unfolded ys] geo, unfolded len] show ?thesis unfolding op by blast
    next
      case F: False
      have no: "\<not> (RangeNext (memory s) b \<noteq> 0 \<and> RangeNext (memory s) b = e \<and> RangeFree (memory s) (RangeNext (memory s) b))"
        using F next_test unfolding T(5) by simp
      have op: "BlResizeHeap (b + 24) newSize alignment s =
          bind_run (BlAllocateHeap ?sz alignment False s) (\<lambda>(newPtr, s).
            ret (newPtr, BlFreeHeap (b + 24) (s\<lparr>memory := BlCopyMemory (memory s) newPtr (b + 24) (e - (b + 24))\<rparr>)))"
        using False B(6) req'(1) by (simp add: BlResizeHeap_def Let_def SIZEOF_HeapRange_def T(5) if_not_P [OF no])
      have "?sz \<noteq> 0" using False by auto
      then have req2: "alloc_request ?sz alignment False k" using req R(1,3) by (simp add: alloc_request_def)
      have same: "rounded ?sz = rounded newSize" using R(1,4) by (auto simp: rounded_def)
      from BlAllocateHeap_spec [OF inv req2] show ?thesis
        unfolding op same using resize_by_moving [OF inv l req order_less_imp_le [OF grow]] by (elim disjE) (force, fastforce)
    qed
  qed
qed


end
