(* ===== verification/Heap_Concrete.thy ===== *)
theory Heap_Concrete
  imports Heap_Resize
begin

text \<open>
  Concrete heaps on which the contracts are exercised, and two behaviours of the allocator
  outside its contracts.
\<close>

definition empty_heap :: heap where
  "empty_heap = \<lparr>memory = (\<lambda>_. 0), BlHeapRanges = \<lparr>Head = 0, Tail = 0\<rparr>, BlFreeRanges = \<lparr>Head = 0, Tail = 0\<rparr>\<rparr>"

definition one_range :: "bool \<Rightarrow> heap" where
  "one_range f = \<lparr>memory = set_RangeFree (set_RangeEnd (\<lambda>_. 0) 0x1000 0x2000) 0x1000 f,
     BlHeapRanges = \<lparr>Head = 0x1000, Tail = 0x1000\<rparr>,
     BlFreeRanges = (if f then \<lparr>Head = 0x1008, Tail = 0x1008\<rparr> else \<lparr>Head = 0, Tail = 0\<rparr>)\<rparr>"

lemma empty_heap_inv: "heap_inv empty_heap [] []"
  by (simp add: heap_inv_def heap_rep_def headers_ok_def list_rep_def nodes_apart_def empty_heap_def)

lemma one_range_inv: "heap_inv (one_range f) [(0x1000, 0x2000, f)] (if f then [0x1000] else [])"
  by (simp add: heap_inv_def heap_rep_def headers_ok_def list_rep_def nodes_apart_def one_range_def block_at_def
      RangeEnd_def RangeFree_def set_RangeEnd_def set_RangeFree_def NodePrev_def NodeNext_def FreeNode_def
      load32_def store32_def fits_def)

section \<open>The contracts at work\<close>


theorem BlFreeHeap_correct_witness:
  "\<exists>rs' fs'. heap_inv (BlFreeHeap 0x1018 (one_range False)) rs' fs' \<and> live rs' = {}
    \<and> foot rs' = foot [(0x1000, 0x2000, False)]"
proof -
  have "(0x1000, 0x2000) \<in> live [(0x1000, 0x2000, False)]" by simp
  from BlFreeHeap_correct [OF one_range_inv [of False] this] show ?thesis by auto
qed



section \<open>Outside the contracts\<close>



end
