(* ===== verification/Paging.thy ===== *)
theory Paging
  imports Heap_Concrete
begin

text \<open>
  Two-level page tables, \<^verbatim>\<open>bootloader/paging.c\<close>. The root table is a static array whose address
  the linker chooses (the parameter \<open>BlPageTable\<close>); tables of the second level come from the
  heap as permanent pages. The tables are read back as a map from virtual to physical addresses.
\<close>

section \<open>The model\<close>

definition BL_PAGE_SHIFT :: nat where "BL_PAGE_SHIFT = 12"
definition BL_PAGE_SIZE :: u32 where "BL_PAGE_SIZE = 2 ^ 12"
definition BL_PAGE_MASK :: u32 where "BL_PAGE_MASK = BL_PAGE_SIZE - 1"
definition BI_META_BITS :: u32 where "BI_META_BITS = 0x17"
definition BI_PFN_SHIFT :: nat where "BI_PFN_SHIFT = 5"
definition BI_PFN_MASK :: u32 where "BI_PFN_MASK = 2 ^ 20 - 1"
definition BI_LEVEL_SHIFT :: nat where "BI_LEVEL_SHIFT = 10"
definition BI_LEVEL_COUNT :: nat where "BI_LEVEL_COUNT = 2"
definition BI_LEVEL_MASK :: u32 where "BI_LEVEL_MASK = 2 ^ 10 - 1"

definition BiCreatePte :: "u32 \<Rightarrow> u32" where
  "BiCreatePte phys = push_bit BI_PFN_SHIFT (drop_bit BL_PAGE_SHIFT phys) OR BI_META_BITS"

definition BiDecodePte :: "u32 \<Rightarrow> u32" where
  "BiDecodePte pte = push_bit BL_PAGE_SHIFT (drop_bit BI_PFN_SHIFT pte AND BI_PFN_MASK)"

definition BiPteIndex :: "u32 \<Rightarrow> nat \<Rightarrow> u32" where
  "BiPteIndex virt level = drop_bit (BL_PAGE_SHIFT + BI_LEVEL_SHIFT * level) virt AND BI_LEVEL_MASK"

text \<open>\<open>table[index]\<close>, an array of 32-bit entries.\<close>

definition entry :: "mem \<Rightarrow> u32 \<Rightarrow> u32 \<Rightarrow> u32" where
  "entry m table index = load32 m (table + 4 * index)"

definition set_entry :: "u32 \<Rightarrow> u32 \<Rightarrow> u32 \<Rightarrow> 'a heap_scheme \<Rightarrow> 'a heap_scheme" where
  "set_entry table index v s = s\<lparr>memory := store32 (memory s) (table + 4 * index) v\<rparr>"

fun get_table_from :: "nat \<Rightarrow> u32 \<Rightarrow> bool \<Rightarrow> u32 \<Rightarrow> 'a heap_scheme \<Rightarrow> (u32 \<times> 'a heap_scheme) run" where
  "get_table_from i virt allowCreation table s =
     (if i > 1 then
        let index = BiPteIndex virt (i - 1); e = entry (memory s) table index
        in if e \<noteq> 0 then get_table_from (i - 1) virt allowCreation (BiDecodePte e) s
           else if allowCreation then
             bind_run (BlAllocateHeap BL_PAGE_SIZE BL_PAGE_SIZE True s) (\<lambda>(newTable, s).
               let s = s\<lparr>memory := BlFillMemory (memory s) newTable 0 BL_PAGE_SIZE\<rparr>
               in get_table_from (i - 1) virt allowCreation newTable
                    (set_entry table index (BiCreatePte newTable) s))
           else crash ''BiGetTable: not found''
      else ret (table, s))"

declare get_table_from.simps [simp del]

definition BiGetTable :: "u32 \<Rightarrow> u32 \<Rightarrow> bool \<Rightarrow> 'a heap_scheme \<Rightarrow> (u32 \<times> 'a heap_scheme) run" where
  "BiGetTable BlPageTable virt allowCreation s = get_table_from BI_LEVEL_COUNT virt allowCreation BlPageTable s"

definition BlMapPage :: "u32 \<Rightarrow> u32 \<Rightarrow> u32 \<Rightarrow> 'a heap_scheme \<Rightarrow> 'a heap_scheme run" where
  "BlMapPage BlPageTable virt phys s =
     bind_run (BiGetTable BlPageTable virt True s) (\<lambda>(table, s).
       ret (set_entry table (BiPteIndex virt 0) (BiCreatePte phys) s))"

definition BlGetMapping :: "u32 \<Rightarrow> u32 \<Rightarrow> 'a heap_scheme \<Rightarrow> u32 run" where
  "BlGetMapping BlPageTable virt s =
     bind_run (BiGetTable BlPageTable virt False s) (\<lambda>(table, s).
       let pte = entry (memory s) table (BiPteIndex virt 0)
       in if pte = 0 then crash ''BiGetMapping: not found''
          else ret (BiDecodePte pte OR (virt AND BL_PAGE_MASK)))"

section \<open>Entries and indices\<close>

lemmas paging_consts = BL_PAGE_SHIFT_def BL_PAGE_SIZE_def BL_PAGE_MASK_def BI_META_BITS_def BI_PFN_SHIFT_def
  BI_PFN_MASK_def BI_LEVEL_SHIFT_def BI_LEVEL_COUNT_def BI_LEVEL_MASK_def

lemma mask_eq: "(2 :: u32) ^ n - 1 = mask n"
  by (simp add: mask_eq_exp_minus_1)

lemma BiCreatePte_neq_0 [simp]: "BiCreatePte phys \<noteq> 0"
proof
  assume "BiCreatePte phys = 0"
  then have "\<not> bit (BiCreatePte phys) 0" by simp
  then show False by (simp add: BiCreatePte_def paging_consts bit_simps)
qed

lemma BiDecodePte_BiCreatePte: "BiDecodePte (BiCreatePte phys) = push_bit 12 (drop_bit 12 phys)"
proof -
  have "drop_bit 5 (BiCreatePte phys) = drop_bit 5 (push_bit 5 (drop_bit 12 phys)) OR drop_bit 5 0x17"
    by (simp add: BiCreatePte_def paging_consts drop_bit_or)
  also have "\<dots> = drop_bit 12 phys"
    by (rule bit_word_eqI) (auto simp: bit_simps dest: bit_imp_le_length)
  finally show ?thesis
    unfolding BiDecodePte_def paging_consts mask_eq by (intro bit_word_eqI) (auto simp: bit_simps)
qed

lemma BiPteIndex_less: "unat (BiPteIndex virt level) < 1024"
proof -
  have "BiPteIndex virt level = take_bit 10 (drop_bit (12 + 10 * level) virt)"
    unfolding BiPteIndex_def paging_consts mask_eq take_bit_eq_mask by (rule refl)
  then have "unat (BiPteIndex virt level) = take_bit 10 (unat (drop_bit (12 + 10 * level) virt))"
    by (simp only: unsigned_take_bit_eq)
  then show ?thesis by (simp add: take_bit_eq_mod)
qed

lemma BiPteIndex_eq: "BiPteIndex v 1 = BiPteIndex w 1 \<and> BiPteIndex v 0 = BiPteIndex w 0 \<longleftrightarrow> drop_bit 12 v = drop_bit 12 w"
  (is "?L \<longleftrightarrow> ?R")
proof
  assume L: ?L
  show ?R
  proof (rule bit_word_eqI)
    fix n assume n: "n < LENGTH(32)"
    from L have "bit (BiPteIndex v 1) (n - 10) = bit (BiPteIndex w 1) (n - 10)" "bit (BiPteIndex v 0) n = bit (BiPteIndex w 0) n"
      by simp_all
    then show "bit (drop_bit 12 v) n = bit (drop_bit 12 w) n"
      using n unfolding BiPteIndex_def paging_consts mask_eq
      by (cases "n < 10") (auto simp: bit_simps dest: bit_imp_le_length)
  qed
next
  assume R: ?R
  have "drop_bit 22 v = drop_bit 22 w" using arg_cong [OF R, of "drop_bit 10"] by simp
  with R show ?L by (simp add: BiPteIndex_def paging_consts)
qed

lemma entry_offset: "unat i < 1024 \<Longrightarrow> table + 4 * i = table + of_nat (4 * unat i)"
  by simp

lemma entry_span: "unat i < 1024 \<Longrightarrow> span (table + 4 * i) 4 \<subseteq> span table 4096"
  using span_sub [of "4 * unat i" 4 4096 table] by simp

lemma entry_store:
  assumes "unat i < 1024" "unat j < 1024"
  shows "entry (store32 m (table + 4 * i) v) table j = (if j = i then v else entry m table j)"
proof (cases "j = i")
  case False
  then have "unat i < unat j \<or> unat j < unat i" unfolding word_unat_eq_iff by linarith
  then have "span (table + of_nat (4 * unat i)) 4 \<inter> span (table + of_nat (4 * unat j)) 4 = {}"
    using assms span_disjoint_off [of "4 * unat i" 4 "4 * unat j" 4 table]
      span_disjoint_off [of "4 * unat j" 4 "4 * unat i" 4 table] by auto
  with False show ?thesis by (simp add: entry_def load32_store32_disjoint)
qed (simp add: entry_def)

lemma entry_same_on: "same_on (span table 4096) m m' \<Longrightarrow> unat i < 1024 \<Longrightarrow> entry m' table i = entry m table i"
  unfolding entry_def by (rule load32_same_on) (rule same_on_mono [OF _ entry_span])

section \<open>Pages from the heap\<close>

text \<open>
  What the page tables need of the allocator: pages that are aligned, no longer part of the
  allocator's memory, and an invariant that survives writes outside that memory. \<open>good s A L\<close>: the
  allocator is in order, \<open>A\<close> is its memory and \<open>L\<close> the part in use by others.
\<close>

locale page_source =
  fixes good :: "'s \<Rightarrow> u32 set \<Rightarrow> u32 set \<Rightarrow> bool"
    and page :: "'s \<Rightarrow> (u32 \<times> 's) run"
    and mem_of :: "'s \<Rightarrow> mem"
    and put_mem :: "mem \<Rightarrow> 's \<Rightarrow> 's"
  assumes page_law: "good s A L \<Longrightarrow> page s = crash ''out of memory'' \<or>
      (\<exists>p s' A'. page s = ret (p, s') \<and> good s' A' L \<and> A' \<subseteq> A \<and> span p 4096 \<subseteq> A - A' \<and> span p 4096 \<inter> L = {}
        \<and> 4096 dvd unat p \<and> p \<noteq> 0 \<and> fits p 4096 \<and> same_on (L \<union> - A) (mem_of s) (mem_of s'))"
    and put_law: "good s A L \<Longrightarrow> same_on A (mem_of s) m \<Longrightarrow> good (put_mem m s) A L"
    and mem_put: "mem_of (put_mem m s) = m"
begin

definition zero_page :: "'s \<Rightarrow> (u32 \<times> 's) run" where
  "zero_page s = bind_run (page s) (\<lambda>(p, s). ret (p, put_mem (BlFillMemory (mem_of s) p 0 BL_PAGE_SIZE) s))"

lemma zero_page_law:
  assumes "good s A L"
  shows "zero_page s = crash ''out of memory'' \<or>
    (\<exists>p s' A'. zero_page s = ret (p, s') \<and> good s' A' L \<and> A' \<subseteq> A \<and> span p 4096 \<subseteq> A - A' \<and> span p 4096 \<inter> L = {}
      \<and> 4096 dvd unat p \<and> p \<noteq> 0 \<and> fits p 4096 \<and> same_on (L \<union> - A) (mem_of s) (mem_of s')
      \<and> (\<forall>x\<in>span p 4096. mem_of s' x = 0))"
  using page_law [OF assms]
proof
  assume "\<exists>p s' A'. page s = ret (p, s') \<and> good s' A' L \<and> A' \<subseteq> A \<and> span p 4096 \<subseteq> A - A' \<and> span p 4096 \<inter> L = {}
      \<and> 4096 dvd unat p \<and> p \<noteq> 0 \<and> fits p 4096 \<and> same_on (L \<union> - A) (mem_of s) (mem_of s')"
  then obtain p s' A' where P: "page s = ret (p, s')" "good s' A' L" "A' \<subseteq> A" "span p 4096 \<subseteq> A - A'" "span p 4096 \<inter> L = {}"
    "4096 dvd unat p" "p \<noteq> 0" "fits p 4096" "same_on (L \<union> - A) (mem_of s) (mem_of s')"
    by blast
  define m where "m = BlFillMemory (mem_of s') p 0 BL_PAGE_SIZE"
  have m: "m = store_bytes (mem_of s') p (replicate 4096 0)"
    by (simp add: m_def BlFillMemory_store_bytes paging_consts)
  have out: "same_outside (span p 4096) (mem_of s') m"
    using store_bytes_same_outside [of p "replicate 4096 0" "mem_of s'"] by (simp add: m)
  have zero: "\<forall>x\<in>span p 4096. m x = 0"
    by (auto simp: m store_bytes_def span_def)
  have disj: "span p 4096 \<inter> A' = {}" "span p 4096 \<inter> (L \<union> - A) = {}" using P(4,5) by blast+
  have "good (put_mem m s') A' L" using put_law [OF P(2) same_outside_on [OF out disj(1)]] .
  moreover have "same_on (L \<union> - A) (mem_of s) m"
    using same_on_trans [OF P(9) same_outside_on [OF out disj(2)]] .
  moreover have "zero_page s = ret (p, put_mem m s')" by (simp add: zero_page_def P(1) m_def)
  ultimately show ?thesis using P zero by (auto simp: mem_put)
qed (simp add: zero_page_def)

end

definition heap_good :: "'a heap_scheme \<Rightarrow> u32 set \<Rightarrow> u32 set \<Rightarrow> bool" where
  "heap_good s A L \<longleftrightarrow> (\<exists>rs fs. heap_inv s rs fs \<and> A = foot rs \<and> L = live_data rs)"

abbreviation heap_page :: "'a heap_scheme \<Rightarrow> (u32 \<times> 'a heap_scheme) run" where
  "heap_page s \<equiv> BlAllocateHeap BL_PAGE_SIZE BL_PAGE_SIZE True s"

lemma header_span_in_foot:
  assumes "ordered lo rs"
  shows "header_span (bases rs) \<subseteq> foot rs"
  using header_span_bookkeeping [OF assms, of "bases rs"] by (auto simp: header_place_def)

lemma live_data_in_foot:
  assumes "ordered lo rs"
  shows "live_data rs \<subseteq> foot rs"
proof -
  have "area (b + 24) e \<subseteq> area b e" if "(b, e) \<in> live rs" for b e
    using ordered_bounds [OF assms, of b e False] live_area [of b e] that by (auto simp: live_def)
  moreover have "area b e \<subseteq> foot rs" if "(b, e) \<in> live rs" for b e
    using that by (force simp: foot_def live_def)
  ultimately show ?thesis unfolding live_data_def by fastforce
qed

interpretation heap_pages: page_source heap_good heap_page memory "\<lambda>m s. s\<lparr>memory := m\<rparr>"
proof unfold_locales
  fix s :: "'a heap_scheme" and A L
  assume "heap_good s A L"
  then obtain rs fs where G: "heap_inv s rs fs" "A = foot rs" "L = live_data rs" by (auto simp: heap_good_def)
  have "alloc_request BL_PAGE_SIZE BL_PAGE_SIZE True 12" by (simp add: alloc_request_def paging_consts)
  from BlAllocateHeap_spec [OF G(1) this]
  show "heap_page s = crash ''out of memory'' \<or>
      (\<exists>p s' A'. heap_page s = ret (p, s') \<and> heap_good s' A' L \<and> A' \<subseteq> A \<and> span p 4096 \<subseteq> A - A' \<and> span p 4096 \<inter> L = {}
        \<and> 4096 dvd unat p \<and> p \<noteq> 0 \<and> fits p 4096 \<and> same_on (L \<union> - A) (memory s) (memory s'))"
  proof
    assume "\<exists>p s' rs' fs'. heap_page s = ret (p, s') \<and> heap_inv s' rs' fs' \<and> allocated True rs p (rounded BL_PAGE_SIZE) rs'
      \<and> data_kept rs s s' \<and> 2 ^ max 2 12 dvd unat p"
    then obtain p s' rs' fs' where P: "heap_page s = ret (p, s')" "heap_inv s' rs' fs'"
      "allocated True rs p (rounded BL_PAGE_SIZE) rs'" "data_kept rs s s'" "2 ^ max 2 12 dvd unat p" by blast
    have "rounded BL_PAGE_SIZE = 4096" by (simp add: rounded_def paging_consts)
    with P(3) have a: "p \<noteq> 0" "fits p 4096" "span p 4096 \<subseteq> foot rs" "span p 4096 \<inter> live_data rs = {}" "foot rs' \<subseteq> foot rs"
      "live rs' = live rs" "span p 4096 \<inter> foot rs' = {}" by (auto simp: allocated_def)
    have "heap_good s' (foot rs') L" using P(2) a(6) G(3) by (auto simp: heap_good_def live_data_def)
    moreover have "same_on (L \<union> - A) (memory s) (memory s')" using P(4) by (simp add: data_kept_def G)
    moreover have "4096 dvd unat p" using P(5) by simp
    ultimately show ?thesis using P(1) a G by blast
  qed blast
next
  fix s :: "'a heap_scheme" and A L m
  assume "heap_good s A L" "same_on A (memory s) m"
  then obtain rs fs where G: "heap_inv s rs fs" "A = foot rs" "L = live_data rs" "same_on (foot rs) (memory s) m"
    by (auto simp: heap_good_def)
  then have "ordered 1 rs" by (simp add: heap_inv_def)
  from same_on_mono [OF G(4) header_span_in_foot [OF this]]
  have "same_on (header_span (bases rs)) (memory s) m" .
  from heap_inv_same_headers [OF G(1) this] show "heap_good (s\<lparr>memory := m\<rparr>) A L"
    using G(2,3) by (auto simp: heap_good_def)
qed simp

end
