(* ===== verification/Paging_Map.thy ===== *)
theory Paging_Map
  imports Paging
begin

text \<open>
  The page tables as a map from virtual to physical addresses: reading it back
  (\<open>BlGetMapping\<close>) and updating it one page at a time (\<open>BlMapPage\<close>).
\<close>

section \<open>The map the tables hold\<close>

definition subtable :: "mem \<Rightarrow> u32 \<Rightarrow> u32 \<Rightarrow> u32 option" where
  "subtable m pt i = (let e = entry m pt i in if e = 0 then None else Some (BiDecodePte e))"

definition translate :: "mem \<Rightarrow> u32 \<Rightarrow> u32 \<Rightarrow> u32 option" where
  "translate m pt v = Option.bind (subtable m pt (BiPteIndex v 1)) (\<lambda>t.
     let e = entry m t (BiPteIndex v 0) in if e = 0 then None else Some (BiDecodePte e OR (v AND BL_PAGE_MASK)))"

text \<open>
  Root and second-level tables are pages of their own: apart from each other and from the
  memory \<open>A\<close> that the allocator may hand out.
\<close>

definition tables_ok :: "mem \<Rightarrow> u32 \<Rightarrow> u32 set \<Rightarrow> bool" where
  "tables_ok m pt A \<longleftrightarrow> span pt 4096 \<inter> A = {}
     \<and> (\<forall>i t. unat i < 1024 \<longrightarrow> subtable m pt i = Some t \<longrightarrow> span t 4096 \<inter> A = {} \<and> span t 4096 \<inter> span pt 4096 = {}
         \<and> (\<forall>j t'. unat j < 1024 \<longrightarrow> j \<noteq> i \<longrightarrow> subtable m pt j = Some t' \<longrightarrow> span t 4096 \<inter> span t' 4096 = {}))"

definition table_span :: "mem \<Rightarrow> u32 \<Rightarrow> u32 set" where
  "table_span m pt = span pt 4096 \<union> (\<Union>i\<in>{i. unat i < 1024}. case subtable m pt i of None \<Rightarrow> {} | Some t \<Rightarrow> span t 4096)"

lemma tables_okD:
  assumes "tables_ok m pt A"
  shows "span pt 4096 \<inter> A = {}"
    and "unat i < 1024 \<Longrightarrow> subtable m pt i = Some t \<Longrightarrow> span t 4096 \<inter> A = {}"
    and "unat i < 1024 \<Longrightarrow> subtable m pt i = Some t \<Longrightarrow> span t 4096 \<inter> span pt 4096 = {}"
    and "unat i < 1024 \<Longrightarrow> subtable m pt i = Some t \<Longrightarrow> unat j < 1024 \<Longrightarrow> j \<noteq> i \<Longrightarrow> subtable m pt j = Some t'
      \<Longrightarrow> span t 4096 \<inter> span t' 4096 = {}"
  using assms unfolding tables_ok_def by blast+

lemma subtable_same_on: "same_on (span pt 4096) m m' \<Longrightarrow> unat i < 1024 \<Longrightarrow> subtable m' pt i = subtable m pt i"
  by (simp add: subtable_def entry_same_on)

lemma tables_ok_same_on:
  assumes "tables_ok m pt A" "same_on (span pt 4096) m m'" "A' \<subseteq> A"
  shows "tables_ok m' pt A'"
  unfolding tables_ok_def
proof (intro conjI allI impI)
  show "span pt 4096 \<inter> A' = {}" using tables_okD(1) [OF assms(1)] assms(3) by blast
  fix i t assume i: "unat i < 1024" "subtable m' pt i = Some t"
  then have t: "subtable m pt i = Some t" by (simp add: subtable_same_on [OF assms(2)])
  show "span t 4096 \<inter> A' = {}" using tables_okD(2) [OF assms(1) i(1) t] assms(3) by blast
  show "span t 4096 \<inter> span pt 4096 = {}" by (rule tables_okD(3) [OF assms(1) i(1) t])
  fix j t' assume j: "unat j < 1024" "j \<noteq> i" "subtable m' pt j = Some t'"
  then have "subtable m pt j = Some t'" by (simp add: subtable_same_on [OF assms(2)])
  then show "span t 4096 \<inter> span t' 4096 = {}" by (rule tables_okD(4) [OF assms(1) i(1) t j(1,2)])
qed

section \<open>Reading\<close>

lemma BiGetTable_cases:
  "BiGetTable pt virt allow s =
    (case subtable (memory s) pt (BiPteIndex virt 1) of
       Some t \<Rightarrow> ret (t, s)
     | None \<Rightarrow> if allow then bind_run (heap_pages.zero_page s) (\<lambda>(p, s). ret (p, set_entry pt (BiPteIndex virt 1) (BiCreatePte p) s))
               else crash ''BiGetTable: not found'')"
proof -
  have stop: "get_table_from (Suc 0) virt a t s' = ret (t, s')" for a t and s' :: "'a heap_scheme"
    by (subst get_table_from.simps) simp
  show ?thesis
    unfolding BiGetTable_def BI_LEVEL_COUNT_def
    by (subst get_table_from.simps)
      (cases "heap_page s" rule: run_cases, auto simp: stop subtable_def Let_def heap_pages.zero_page_def split: prod.split)
qed

lemma BlGetMapping_cases:
  "BlGetMapping pt virt s =
    (case translate (memory s) pt virt of
       Some p \<Rightarrow> ret p
     | None \<Rightarrow> crash (if subtable (memory s) pt (BiPteIndex virt 1) = None then ''BiGetTable: not found''
                      else ''BiGetMapping: not found''))"
  by (auto simp: BlGetMapping_def BiGetTable_cases translate_def Let_def split: option.split)

section \<open>Writing\<close>

lemma set_entry_memory: "memory (set_entry t i v s) = store32 (memory s) (t + 4 * i) v"
  by (simp add: set_entry_def)

lemma set_entry_outside: "unat i < 1024 \<Longrightarrow> same_outside (span t 4096) (memory s) (memory (set_entry t i v s))"
  unfolding set_entry_memory by (rule same_outside_mono [OF store32_same_outside entry_span])

lemma heap_inv_set_entry:
  assumes inv: "heap_inv s rs fs" and i: "unat i < 1024" and t: "span t 4096 \<inter> foot rs = {}"
  shows "heap_inv (set_entry t i v s) rs fs"
proof -
  have "header_span (bases rs) \<subseteq> foot rs"
    using inv by (intro header_span_in_foot [of 1]) (simp add: heap_inv_def)
  then have "span t 4096 \<inter> header_span (bases rs) = {}" using t by blast
  from heap_inv_same_headers [OF inv same_outside_on [OF set_entry_outside [OF i] this]]
  show ?thesis by (simp add: set_entry_def)
qed

text \<open>The second-level table exists: one entry changes.\<close>

lemma map_in_table:
  fixes phys :: u32
  assumes inv: "heap_inv s rs fs" and ok: "tables_ok (memory s) pt (foot rs)"
    and t: "subtable (memory s) pt (BiPteIndex virt 1) = Some t"
  defines "s' \<equiv> set_entry t (BiPteIndex virt 0) (BiCreatePte phys) s"
  shows "heap_inv s' rs fs" "tables_ok (memory s') pt (foot rs)" "same_outside (span t 4096) (memory s) (memory s')"
    and "translate (memory s') pt v =
      (if drop_bit 12 v = drop_bit 12 virt then Some (push_bit 12 (drop_bit 12 phys) OR (v AND BL_PAGE_MASK))
       else translate (memory s) pt v)"
proof -
  note idx = BiPteIndex_less
  note T = tables_okD [OF ok]
  have out: "same_outside (span t 4096) (memory s) (memory s')"
    unfolding s'_def by (rule set_entry_outside [OF idx])
  then show "same_outside (span t 4096) (memory s) (memory s')" .
  show "heap_inv s' rs fs" unfolding s'_def by (rule heap_inv_set_entry [OF inv idx T(2) [OF idx t]])
  have root: "same_on (span pt 4096) (memory s) (memory s')"
    by (rule same_outside_on [OF out T(3) [OF idx t]])
  then show "tables_ok (memory s') pt (foot rs)" by (rule tables_ok_same_on [OF ok]) simp
  have sub: "subtable (memory s') pt (BiPteIndex v 1) = subtable (memory s) pt (BiPteIndex v 1)" for v
    by (rule subtable_same_on [OF root idx])
  show "translate (memory s') pt v =
      (if drop_bit 12 v = drop_bit 12 virt then Some (push_bit 12 (drop_bit 12 phys) OR (v AND BL_PAGE_MASK))
       else translate (memory s) pt v)"
  proof (cases "BiPteIndex v 1 = BiPteIndex virt 1")
    case same: True
    have e: "entry (memory s') t (BiPteIndex v 0) =
        (if BiPteIndex v 0 = BiPteIndex virt 0 then BiCreatePte phys else entry (memory s) t (BiPteIndex v 0))"
      unfolding s'_def set_entry_memory by (rule entry_store [OF idx idx])
    have "drop_bit 12 v = drop_bit 12 virt \<longleftrightarrow> BiPteIndex v 0 = BiPteIndex virt 0"
      using BiPteIndex_eq [of v virt] same by simp
    then show ?thesis
      using t unfolding translate_def sub same by (simp add: e BiDecodePte_BiCreatePte)
  next
    case diff: False
    then have np: "drop_bit 12 v \<noteq> drop_bit 12 virt" using BiPteIndex_eq [of v virt] by blast
    have "entry (memory s') t' (BiPteIndex v 0) = entry (memory s) t' (BiPteIndex v 0)"
      if "subtable (memory s) pt (BiPteIndex v 1) = Some t'" for t'
      by (rule entry_same_on [OF same_outside_on [OF out T(4) [OF idx t idx diff that]] idx])
    then show ?thesis
      using np unfolding translate_def sub by (cases "subtable (memory s) pt (BiPteIndex v 1)") simp_all
  qed
qed

lemma page_aligned: "4096 dvd unat p \<Longrightarrow> push_bit 12 (drop_bit 12 p) = (p :: u32)"
proof -
  assume p: "4096 dvd unat p"
  have "unat (take_bit 12 p) = take_bit 12 (unat p)" by (simp only: unsigned_take_bit_eq)
  then have "take_bit 12 p = 0" using p by (simp add: take_bit_eq_mod unat_eq_0)
  then show ?thesis using bits_ident [of 12 p] by simp
qed

lemma entry_zero: "\<forall>x\<in>span t 4096. m x = 0 \<Longrightarrow> unat i < 1024 \<Longrightarrow> entry m t i = 0"
proof -
  assume z: "\<forall>x\<in>span t 4096. m x = 0" and i: "unat i < 1024"
  have "same_on (span (t + 4 * i) 4) (\<lambda>_. 0) m"
    using z entry_span [OF i, of t] by (auto simp: same_on_def)
  from load32_same_on [OF this] show ?thesis by (simp add: entry_def load32_def)
qed

text \<open>A new second-level table: a page of zeroes, entered into the root; the map stays as it is.\<close>

lemma new_table:
  assumes inv: "heap_inv s rs fs" and ok: "tables_ok (memory s) pt (foot rs)"
    and none: "subtable (memory s) pt (BiPteIndex virt 1) = None"
  shows "BiGetTable pt virt True s = crash ''out of memory'' \<or>
    (\<exists>p s' rs' fs'. BiGetTable pt virt True s = ret (p, s') \<and> heap_inv s' rs' fs' \<and> live_data rs' = live_data rs
      \<and> tables_ok (memory s') pt (foot rs') \<and> subtable (memory s') pt (BiPteIndex virt 1) = Some p
      \<and> span p 4096 \<subseteq> foot rs - live_data rs \<and> foot rs' \<subseteq> foot rs
      \<and> same_on (live_data rs \<union> - (foot rs \<union> span pt 4096)) (memory s) (memory s')
      \<and> (\<forall>v. translate (memory s') pt v = translate (memory s) pt v))"
proof -
  note idx = BiPteIndex_less note T = tables_okD [OF ok]
  let ?i = "BiPteIndex virt 1"
  have "heap_good s (foot rs) (live_data rs)" using inv by (auto simp: heap_good_def)
  from heap_pages.zero_page_law [OF this]
  consider "heap_pages.zero_page s = crash ''out of memory''"
    | p s1 A' where "heap_pages.zero_page s = ret (p, s1)" "heap_good s1 A' (live_data rs)" "A' \<subseteq> foot rs"
      "span p 4096 \<subseteq> foot rs - A'" "span p 4096 \<inter> live_data rs = {}" "4096 dvd unat p" "p \<noteq> 0"
      "same_on (live_data rs \<union> - foot rs) (memory s) (memory s1)" "\<forall>x\<in>span p 4096. memory s1 x = 0"
    by blast
  then show ?thesis
  proof cases
    case 1
    then show ?thesis using none by (simp add: BiGetTable_cases)
  next
    case 2
    then obtain rs1 fs1 where g: "heap_inv s1 rs1 fs1" "A' = foot rs1" "live_data rs1 = live_data rs"
      by (auto simp: heap_good_def)
    let ?s' = "set_entry pt ?i (BiCreatePte p) s1"
    have op: "BiGetTable pt virt True s = ret (p, ?s')" using none 2(1) by (simp add: BiGetTable_cases)
    have dec: "BiDecodePte (BiCreatePte p) = p"
      unfolding BiDecodePte_BiCreatePte by (rule page_aligned [OF 2(6)])
    have root: "same_on (span pt 4096) (memory s) (memory s1)"
      by (rule same_on_mono [OF 2(8)]) (use T(1) in blast)
    have sub: "subtable (memory ?s') pt j = (if j = ?i then Some p else subtable (memory s) pt j)" if "unat j < 1024" for j
    proof -
      have "entry (memory ?s') pt j = (if j = ?i then BiCreatePte p else entry (memory s) pt j)"
        unfolding set_entry_memory entry_store [OF idx that] by (simp add: entry_same_on [OF root that])
      then show ?thesis by (simp add: subtable_def dec)
    qed
    have live: "live_data rs \<subseteq> foot rs" using inv by (intro live_data_in_foot [of 1]) (simp add: heap_inv_def)
    have out: "same_outside (span pt 4096) (memory s1) (memory ?s')" by (rule set_entry_outside [OF idx])
    have new: "span p 4096 \<inter> foot rs1 = {}" "span p 4096 \<inter> span pt 4096 = {}" "span p 4096 \<subseteq> foot rs - live_data rs"
      using 2(4,5) g(2) T(1) by blast+
    have old: "span t 4096 \<inter> foot rs1 = {}" "span t 4096 \<inter> span pt 4096 = {}" "span t 4096 \<inter> span p 4096 = {}"
      if "unat j < 1024" "subtable (memory s) pt j = Some t" for j t
      using T(2,3) [OF that] 2(3) g(2) new(3) by blast+
    have "heap_inv ?s' rs1 fs1" by (rule heap_inv_set_entry [OF g(1) idx]) (use T(1) 2(3) g(2) in blast)
    moreover have "tables_ok (memory ?s') pt (foot rs1)"
      unfolding tables_ok_def
    proof (intro conjI allI impI)
      show "span pt 4096 \<inter> foot rs1 = {}" using T(1) 2(3) g(2) by blast
    next
      fix j t assume jt: "unat j < 1024" "subtable (memory ?s') pt j = Some t"
      have t: "j = ?i \<and> t = p \<or> j \<noteq> ?i \<and> subtable (memory s) pt j = Some t"
        using jt(2) unfolding sub [OF jt(1)] by (cases "j = ?i") simp_all
      then show "span t 4096 \<inter> foot rs1 = {}" "span t 4096 \<inter> span pt 4096 = {}"
        using new(1,2) old(1,2) [OF jt(1)] by blast+
      fix k t' assume k: "unat k < 1024" "k \<noteq> j" "subtable (memory ?s') pt k = Some t'"
      have "k = ?i \<and> t' = p \<or> k \<noteq> ?i \<and> subtable (memory s) pt k = Some t'"
        using k(3) unfolding sub [OF k(1)] by (cases "k = ?i") simp_all
      with t k(2) show "span t 4096 \<inter> span t' 4096 = {}"
        using old(3) [OF jt(1)] old(3) [OF k(1)] T(4) [OF jt(1) _ k(1,2)] by blast
    qed
    moreover have "same_on (live_data rs \<union> - (foot rs \<union> span pt 4096)) (memory s) (memory ?s')"
    proof (rule same_on_trans)
      show "same_on (live_data rs \<union> - (foot rs \<union> span pt 4096)) (memory s) (memory s1)"
        by (rule same_on_mono [OF 2(8)]) blast
      show "same_on (live_data rs \<union> - (foot rs \<union> span pt 4096)) (memory s1) (memory ?s')"
        by (rule same_outside_on [OF out]) (use live T(1) in blast)
    qed
    moreover have "translate (memory ?s') pt v = translate (memory s) pt v" for v
    proof (cases "BiPteIndex v 1 = ?i")
      case True
      have "same_on (span p 4096) (memory s1) (memory ?s')"
        by (rule same_outside_on [OF out]) (use new(2) in blast)
      then have "\<forall>x\<in>span p 4096. memory ?s' x = 0" using 2(9) by (simp add: same_on_def)
      then have "entry (memory ?s') p (BiPteIndex v 0) = 0" by (rule entry_zero [OF _ idx])
      then show ?thesis using none unfolding translate_def sub [OF idx] True by simp
    next
      case False
      have "entry (memory ?s') t (BiPteIndex v 0) = entry (memory s) t (BiPteIndex v 0)"
        if t: "subtable (memory s) pt (BiPteIndex v 1) = Some t" for t
      proof (rule entry_same_on [OF same_on_trans idx])
        show "same_on (span t 4096) (memory s) (memory s1)"
          by (rule same_on_mono [OF 2(8)]) (use T(2) [OF idx t] in blast)
        show "same_on (span t 4096) (memory s1) (memory ?s')"
          by (rule same_outside_on [OF out]) (use T(3) [OF idx t] in blast)
      qed
      with False show ?thesis
        unfolding translate_def sub [OF idx] by (cases "subtable (memory s) pt (BiPteIndex v 1)") simp_all
    qed
    moreover have "subtable (memory ?s') pt ?i = Some p" unfolding sub [OF idx] by simp
    moreover have "foot rs1 \<subseteq> foot rs" using 2(3) g(2) by simp
    ultimately show ?thesis using op g(3) new(3) by blast
  qed
qed

text \<open>A page is mapped: both cases together.\<close>

definition page_mapped :: "mem \<Rightarrow> u32 \<Rightarrow> u32 \<Rightarrow> u32 \<Rightarrow> mem \<Rightarrow> bool" where
  "page_mapped m pt virt phys m' \<longleftrightarrow> (\<forall>v. translate m' pt v =
     (if drop_bit 12 v = drop_bit 12 virt then Some (push_bit 12 (drop_bit 12 phys) OR (v AND BL_PAGE_MASK))
      else translate m pt v))"

lemma table_span_sub: "unat i < 1024 \<Longrightarrow> subtable m pt i = Some t \<Longrightarrow> span t 4096 \<subseteq> table_span m pt"
  unfolding table_span_def by force

lemma BlMapPage_spec:
  assumes inv: "heap_inv s rs fs" and ok: "tables_ok (memory s) pt (foot rs)"
  shows "BlMapPage pt virt phys s = crash ''out of memory'' \<or>
    (\<exists>s' rs' fs'. BlMapPage pt virt phys s = ret s' \<and> heap_inv s' rs' fs' \<and> tables_ok (memory s') pt (foot rs')
      \<and> live_data rs' = live_data rs \<and> foot rs' \<subseteq> foot rs \<and> page_mapped (memory s) pt virt phys (memory s')
      \<and> same_on (live_data rs \<union> - (foot rs \<union> table_span (memory s) pt)) (memory s) (memory s'))"
proof -
  note idx = BiPteIndex_less
  have live: "live_data rs \<subseteq> foot rs" using inv by (intro live_data_in_foot [of 1]) (simp add: heap_inv_def)
  let ?K = "live_data rs \<union> - (foot rs \<union> table_span (memory s) pt)"
  show ?thesis
  proof (cases "subtable (memory s) pt (BiPteIndex virt 1)")
    case (Some t)
    let ?s' = "set_entry t (BiPteIndex virt 0) (BiCreatePte phys) s"
    have op: "BlMapPage pt virt phys s = ret ?s'" using Some by (simp add: BlMapPage_def BiGetTable_cases)
    note M = map_in_table [OF inv ok Some, of phys]
    have "span t 4096 \<inter> ?K = {}"
      using table_span_sub [OF idx Some] tables_okD(2) [OF ok idx Some] live by blast
    from same_outside_on [OF M(3) this] M(1,2,4) op show ?thesis unfolding page_mapped_def by blast
  next
    case None
    from new_table [OF inv ok None] show ?thesis
    proof
      assume "BiGetTable pt virt True s = crash ''out of memory''"
      then show ?thesis by (simp add: BlMapPage_def)
    next
      assume "\<exists>p s' rs' fs'. BiGetTable pt virt True s = ret (p, s') \<and> heap_inv s' rs' fs' \<and> live_data rs' = live_data rs
        \<and> tables_ok (memory s') pt (foot rs') \<and> subtable (memory s') pt (BiPteIndex virt 1) = Some p
        \<and> span p 4096 \<subseteq> foot rs - live_data rs \<and> foot rs' \<subseteq> foot rs
        \<and> same_on (live_data rs \<union> - (foot rs \<union> span pt 4096)) (memory s) (memory s')
        \<and> (\<forall>v. translate (memory s') pt v = translate (memory s) pt v)"
      then obtain p s1 rs1 fs1 where N: "BiGetTable pt virt True s = ret (p, s1)" "heap_inv s1 rs1 fs1"
        "live_data rs1 = live_data rs" "tables_ok (memory s1) pt (foot rs1)"
        "subtable (memory s1) pt (BiPteIndex virt 1) = Some p" "span p 4096 \<subseteq> foot rs - live_data rs" "foot rs1 \<subseteq> foot rs"
        "same_on (live_data rs \<union> - (foot rs \<union> span pt 4096)) (memory s) (memory s1)"
        "\<forall>v. translate (memory s1) pt v = translate (memory s) pt v" by blast
      let ?s' = "set_entry p (BiPteIndex virt 0) (BiCreatePte phys) s1"
      have op: "BlMapPage pt virt phys s = ret ?s'" by (simp add: BlMapPage_def N(1))
      note M = map_in_table [OF N(2,4,5), of phys]
      have "page_mapped (memory s) pt virt phys (memory ?s')"
        unfolding page_mapped_def using M(4) N(9) by simp
      moreover have "span pt 4096 \<subseteq> table_span (memory s) pt" by (simp add: table_span_def)
      have "same_on ?K (memory s) (memory s1)"
        by (rule same_on_mono [OF N(8)]) (use \<open>span pt 4096 \<subseteq> table_span (memory s) pt\<close> in blast)
      moreover have "span p 4096 \<inter> ?K = {}" using N(6) by blast
      from same_outside_on [OF M(3) this] have "same_on ?K (memory s1) (memory ?s')" .
      ultimately show ?thesis using op M(1,2) N(3,7) by (blast intro: same_on_trans)
    qed
  qed
qed

text \<open>
  C22. \<open>BlMapPage\<close> comes back (or the heap is out of memory) with the heap and the tables in
  order, and the tables' map changed at exactly the page of \<open>virt\<close>, which now leads to the page of
  \<open>phys\<close>; live heap data and memory outside heap and tables are untouched.
\<close>

theorem BlMapPage_correct:
  assumes inv: "heap_inv s rs fs" and ok: "tables_ok (memory s) pt (foot rs)"
  shows "BlMapPage pt virt phys s = crash ''out of memory'' \<or>
    (\<exists>s' rs' fs'. BlMapPage pt virt phys s = ret s' \<and> heap_inv s' rs' fs' \<and> tables_ok (memory s') pt (foot rs')
      \<and> live_data rs' = live_data rs \<and> foot rs' \<subseteq> foot rs \<and> page_mapped (memory s) pt virt phys (memory s')
      \<and> same_on (live_data rs \<union> - (foot rs \<union> table_span (memory s) pt)) (memory s) (memory s'))"
  by (rule BlMapPage_spec [OF inv ok])

text \<open>
  C23. Reading back: after \<open>BlMapPage virt phys\<close> has returned, \<open>BlGetMapping\<close> of any address in the
  page of \<open>virt\<close> is the same offset in the page of \<open>phys\<close>, and every other address reads, or fails to
  read, as before.
\<close>

theorem BlGetMapping_after_BlMapPage:
  assumes inv: "heap_inv s rs fs" and ok: "tables_ok (memory s) pt (foot rs)"
    and ret: "BlMapPage pt virt phys s = ret s'"
  shows "if drop_bit 12 v = drop_bit 12 virt
    then BlGetMapping pt v s' = ret (push_bit 12 (drop_bit 12 phys) OR (v AND BL_PAGE_MASK))
    else \<forall>p. BlGetMapping pt v s' = ret p \<longleftrightarrow> BlGetMapping pt v s = ret p"
proof -
  have "page_mapped (memory s) pt virt phys (memory s')"
    using BlMapPage_spec [OF inv ok, of virt phys] ret by auto
  then have "translate (memory s') pt v =
      (if drop_bit 12 v = drop_bit 12 virt then Some (push_bit 12 (drop_bit 12 phys) OR (v AND BL_PAGE_MASK))
       else translate (memory s) pt v)"
    by (simp add: page_mapped_def)
  then show ?thesis by (simp add: BlGetMapping_cases split: option.split)
qed


section \<open>On a concrete heap\<close>

definition page_heap :: heap where
  "page_heap = \<lparr>memory = set_RangeFree (set_RangeEnd (\<lambda>_. 0) 0x10000 0x20000) 0x10000 True,
     BlHeapRanges = \<lparr>Head = 0x10000, Tail = 0x10000\<rparr>, BlFreeRanges = \<lparr>Head = 0x10008, Tail = 0x10008\<rparr>\<rparr>"

lemma page_heap_inv: "heap_inv page_heap [(0x10000, 0x20000, True)] [0x10000]"
  by (simp add: heap_inv_def heap_rep_def headers_ok_def list_rep_def nodes_apart_def page_heap_def block_at_def
      RangeEnd_def RangeFree_def set_RangeEnd_def set_RangeFree_def NodePrev_def NodeNext_def FreeNode_def
      load32_def store32_def fits_def)

lemma page_heap_tables: "tables_ok (memory page_heap) 0x8000 (foot [(0x10000, 0x20000, True)])"
proof -
  have low: "unat x < 0x9000" if "x \<in> span 0x8000 4096" for x :: u32
    using that by (simp add: span_fits fits_def)
  have "memory page_heap x = 0" if "unat x < 0x9000" for x
    using that by (auto simp: page_heap_def set_RangeEnd_def set_RangeFree_def store32_def)
  then have "entry (memory page_heap) 0x8000 i = 0" if "unat i < 1024" for i
    using that low by (intro entry_zero) auto
  moreover have "span 0x8000 4096 \<inter> area 0x10000 0x20000 = {}"
    by (rule equals0I) (use low in \<open>fastforce simp: area_def word_le_nat_alt\<close>)
  ultimately show ?thesis by (auto simp: tables_ok_def subtable_def Let_def)
qed

lemma page_heap_maps: "BlMapPage 0x8000 virt phys page_heap \<noteq> crash ''out of memory''"
proof -
  have "alloc_request BL_PAGE_SIZE BL_PAGE_SIZE True 12" by (simp add: alloc_request_def paging_consts)
  from BlAllocateHeap_contract [OF page_heap_inv this]
  obtain p s' where "heap_page page_heap = ret (p, s')"
    by (auto simp: value_nat_def head_extra_def rounded_def paging_consts)
  then show ?thesis
    by (auto simp: BlMapPage_def BiGetTable_cases heap_pages.zero_page_def split: option.split)
qed

theorem BlMapPage_correct_witness:
  "\<exists>s' rs' fs'. BlMapPage 0x8000 0xC0001234 0x5000 page_heap = ret s' \<and> heap_inv s' rs' fs'
    \<and> tables_ok (memory s') 0x8000 (foot rs') \<and> page_mapped (memory page_heap) 0x8000 0xC0001234 0x5000 (memory s')"
  using BlMapPage_correct [OF page_heap_inv page_heap_tables, of "0xC0001234" "0x5000"]
    page_heap_maps [of "0xC0001234" "0x5000"] by blast

theorem BlGetMapping_after_BlMapPage_witness:
  "\<exists>s'. BlMapPage 0x8000 0xC0001234 0x5000 page_heap = ret s' \<and> BlGetMapping 0x8000 0xC0001678 s' = ret 0x5678"
proof -
  obtain s' where s': "BlMapPage 0x8000 0xC0001234 0x5000 page_heap = ret s'"
    using BlMapPage_spec [OF page_heap_inv page_heap_tables, of "0xC0001234" "0x5000"]
      page_heap_maps [of "0xC0001234" "0x5000"] by blast
  have "BlGetMapping 0x8000 0xC0001678 s' = ret 0x5678"
    using BlGetMapping_after_BlMapPage [OF page_heap_inv page_heap_tables s', of "0xC0001678"]
    by (simp add: paging_consts)
  with s' show ?thesis by blast
qed

end
