(* ===== verification/Logging.thy ===== *)
theory Logging
  imports Intrinsics
begin

text \<open>
  Formatted printing, \<^verbatim>\<open>bootloader/logging.c\<close>. Characters go to a callback, a function on some
  state. Strings and format strings are the byte lists before their terminator; variable
  arguments are a list of typed values. \<open>None\<close> stands for what C leaves undefined: an argument
  that is missing or of another type, and a format that ends right after its percent sign (the
  code then reads behind the terminator).
\<close>

section \<open>The model\<close>

abbreviation ch :: "char \<Rightarrow> u8" where "ch \<equiv> of_char"

definition bytes :: "string \<Rightarrow> u8 list" where
  "bytes s = map of_char s"

datatype va_arg = Word u32 | Long u64 | Str "u8 list" | VaList "va_arg list"

definition BI_MAX_DIGITS :: nat where "BI_MAX_DIGITS = 32"

definition BiPrintString :: "u8 list \<Rightarrow> (u8 \<Rightarrow> 's \<Rightarrow> 's) \<Rightarrow> 's \<Rightarrow> 's" where
  "BiPrintString str fn ctx = fold fn str ctx"

text \<open>
  The digit buffer: \<open>buf\<close> is its used part, \<open>buffer[index]\<close> up to the end, so \<open>index\<close> is
  \<open>BI_MAX_DIGITS - length buf\<close>.
\<close>

function decimal_digits :: "u32 \<Rightarrow> u8 list \<Rightarrow> u8 list" where
  "decimal_digits value buf =
     (let buf = (ch (CHR ''0'') + ucast (value mod 10)) # buf; value = value div 10
      in if value \<noteq> 0 then decimal_digits value buf else buf)"
  by auto

function hex_digits :: "u64 \<Rightarrow> u8 list \<Rightarrow> u8 list" where
  "hex_digits value buf =
     (let buf = bytes ''0123456789abcdef'' ! unat (value AND 0xf) # buf; value = drop_bit 4 value
      in if value \<noteq> 0 then hex_digits value buf else buf)"
  by auto

function pad_digits :: "nat \<Rightarrow> u32 \<Rightarrow> u8 list \<Rightarrow> u8 list" where
  "pad_digits minIndex minDigits buf =
     (if BI_MAX_DIGITS - length buf > minIndex \<and> of_nat (length buf) - of_nat minIndex < minDigits
      then pad_digits minIndex minDigits (ch (CHR ''0'') # buf) else buf)"
  by auto
termination by (relation "measure (\<lambda>(i, d, buf). BI_MAX_DIGITS - length buf)") auto

definition BiPrintUnsignedDecimal :: "u32 \<Rightarrow> u32 \<Rightarrow> u8 \<Rightarrow> (u8 \<Rightarrow> 's \<Rightarrow> 's) \<Rightarrow> 's \<Rightarrow> 's" where
  "BiPrintUnsignedDecimal value minDigits prefix fn ctx =
     (let minIndex = (if prefix \<noteq> 0 then 1 else 0);
          buf = pad_digits minIndex minDigits (decimal_digits value []);
          buf = (if prefix \<noteq> 0 then prefix # buf else buf)
      in fold fn buf ctx)"

definition BiPrintSignedDecimal :: "u32 \<Rightarrow> u32 \<Rightarrow> (u8 \<Rightarrow> 's \<Rightarrow> 's) \<Rightarrow> 's \<Rightarrow> 's" where
  "BiPrintSignedDecimal value minDigits fn ctx =
     (if sint value \<ge> 0 then BiPrintUnsignedDecimal value minDigits 0 fn ctx
      else BiPrintUnsignedDecimal (- value) minDigits (ch (CHR ''-'')) fn ctx)"

definition BiPrintHexadecimal :: "u64 \<Rightarrow> u32 \<Rightarrow> (u8 \<Rightarrow> 's \<Rightarrow> 's) \<Rightarrow> 's \<Rightarrow> 's" where
  "BiPrintHexadecimal value minDigits fn ctx = fold fn (pad_digits 0 minDigits (hex_digits value [])) ctx"

termination decimal_digits
proof (relation "measure (\<lambda>(v, buf). unat v)")
  fix v :: u32 and x y and buf :: "u8 list"
  assume "x = (ch (CHR ''0'') + ucast (v mod 10)) # buf" "y = v div 10" "y \<noteq> 0"
  then have "v \<noteq> 0" by auto
  then have "0 < unat v" by (simp add: unat_gt_0)
  then have "unat (v div 10) < unat v" by (simp add: unat_div)
  with \<open>y = v div 10\<close> show "((y, x), v, buf) \<in> measure (\<lambda>(v, buf). unat v)" by simp
qed simp

termination hex_digits
proof (relation "measure (\<lambda>(v, buf). unat v)")
  fix v :: u64 and x y and buf :: "u8 list"
  assume "x = bytes ''0123456789abcdef'' ! unat (v AND 0xf) # buf" "y = drop_bit 4 v" "y \<noteq> 0"
  then have "v \<noteq> 0" by auto
  then have "0 < unat v" by (simp add: unat_gt_0)
  then have "unat (drop_bit 4 v) < unat v" by (simp add: unat_drop_bit_eq drop_bit_eq_div unat_div)
  with \<open>y = drop_bit 4 v\<close> show "((y, x), v, buf) \<in> measure (\<lambda>(v, buf). unat v)" by simp
qed simp

declare decimal_digits.simps [simp del] hex_digits.simps [simp del] pad_digits.simps [simp del]

text \<open>One directive: the digits and type letter behind a percent sign, and the conversion letter.\<close>

fun min_digits_from :: "u8 list \<Rightarrow> u8 \<Rightarrow> u32 \<Rightarrow> (u8 \<times> u32 \<times> u8 list) option" where
  "min_digits_from format c minDigits =
     (if ch (CHR ''0'') \<le> c \<and> c \<le> ch (CHR ''9'') then
        (case format of [] \<Rightarrow> None
         | c' # format' \<Rightarrow> min_digits_from format' c' (minDigits * 10 + (ucast c - ucast (ch (CHR ''0'')))))
      else Some (c, minDigits, format))"

declare min_digits_from.simps [simp del]

definition directive :: "u8 list \<Rightarrow> (u8 \<times> u8 \<times> u32 \<times> u8 list) option" where
  "directive format =
     (case format of [] \<Rightarrow> None
      | c # format \<Rightarrow> Option.bind (min_digits_from format c 0) (\<lambda>(c, minDigits, format).
          if c = ch (CHR ''l'') \<or> c = ch (CHR ''z'') then
            (case format of [] \<Rightarrow> None | c' # format' \<Rightarrow> Some (c', c, minDigits, format'))
          else Some (c, 0, minDigits, format)))"

text \<open>The conversions, all but \<open>%%\<close> and the nested format \<open>%f\<close>.\<close>

definition print_one :: "u8 \<Rightarrow> u8 \<Rightarrow> u32 \<Rightarrow> va_arg list \<Rightarrow> (u8 \<Rightarrow> 's \<Rightarrow> 's) \<Rightarrow> 's \<Rightarrow> (va_arg list \<times> 's) option" where
  "print_one c typeCode minDigits args fn ctx =
     (if c = ch (CHR ''c'') then
        (case args of Word w # args \<Rightarrow> Some (args, fn (ucast w) ctx) | _ \<Rightarrow> None)
      else if c = ch (CHR ''s'') then
        (case args of Str str # args \<Rightarrow> Some (args, BiPrintString str fn ctx) | _ \<Rightarrow> None)
      else if c = ch (CHR ''S'') then
        (case args of
           Str data # Word count # args \<Rightarrow>
             if unat count \<le> length data then Some (args, fold fn (take (unat count) data) ctx) else None
         | _ \<Rightarrow> None)
      else if c = ch (CHR ''p'') then
        (case args of
           Word w # args \<Rightarrow> Some (args, BiPrintHexadecimal (ucast w) 0 fn (fn (ch (CHR ''x'')) (fn (ch (CHR ''0'')) ctx)))
         | _ \<Rightarrow> None)
      else if c = ch (CHR ''d'') then
        (if typeCode = 0 \<or> typeCode = ch (CHR ''z'') then
           (case args of Word w # args \<Rightarrow> Some (args, BiPrintSignedDecimal w minDigits fn ctx) | _ \<Rightarrow> None)
         else Some (args, ctx))
      else if c = ch (CHR ''u'') then
        (if typeCode = 0 \<or> typeCode = ch (CHR ''z'') then
           (case args of Word w # args \<Rightarrow> Some (args, BiPrintUnsignedDecimal w minDigits 0 fn ctx) | _ \<Rightarrow> None)
         else Some (args, ctx))
      else if c = ch (CHR ''x'') then
        (if typeCode = 0 \<or> typeCode = ch (CHR ''z'') then
           (case args of Word w # args \<Rightarrow> Some (args, BiPrintHexadecimal (ucast w) minDigits fn ctx) | _ \<Rightarrow> None)
         else if typeCode = ch (CHR ''l'') then
           (case args of Long l # args \<Rightarrow> Some (args, BiPrintHexadecimal l minDigits fn ctx) | _ \<Rightarrow> None)
         else Some (args, ctx))
      else Some (args, ctx))"

function BlPrintArgsToCallback :: "u8 list \<Rightarrow> va_arg list \<Rightarrow> (u8 \<Rightarrow> 's \<Rightarrow> 's) \<Rightarrow> 's \<Rightarrow> 's option" where
  "BlPrintArgsToCallback [] args fn ctx = Some ctx"
| "BlPrintArgsToCallback (c # format) args fn ctx =
     (if c \<noteq> ch (CHR ''%'') then BlPrintArgsToCallback format args fn (fn c ctx)
      else case directive format of
        None \<Rightarrow> None
      | Some (c, typeCode, minDigits, format') \<Rightarrow>
          if c = ch (CHR ''%'') then BlPrintArgsToCallback format' args fn (fn (ch (CHR ''%'')) ctx)
          else if c = ch (CHR ''f'') then
            (case args of
               Str format2 # VaList args2 # args \<Rightarrow>
                 Option.bind (BlPrintArgsToCallback format2 args2 fn ctx) (\<lambda>ctx. BlPrintArgsToCallback format' args fn ctx)
             | _ \<Rightarrow> None)
          else Option.bind (print_one c typeCode minDigits args fn ctx) (\<lambda>(args, ctx).
            BlPrintArgsToCallback format' args fn ctx))"
  by pat_completeness auto

fun weight :: "va_arg \<Rightarrow> nat" where
  "weight (Str data) = Suc (length data)"
| "weight (VaList args) = Suc (sum_list (map weight args))"
| "weight a = 1"

lemma min_digits_from_length: "min_digits_from format c d = Some (c', d', format') \<Longrightarrow> length format' \<le> length format"
proof (induction format arbitrary: c d)
  case Nil
  then show ?case by (subst (asm) min_digits_from.simps) (simp split: if_splits)
next
  case (Cons x xs)
  then show ?case by (subst (asm) (2) min_digits_from.simps) (fastforce split: if_splits)
qed

lemma directive_SomeE:
  assumes "directive format = Some (c, t, d, rest)"
  obtains x xs c1 f1 where "format = x # xs" "min_digits_from xs x 0 = Some (c1, d, f1)"
    "c1 \<in> {ch (CHR ''l''), ch (CHR ''z'')} \<and> f1 = c # rest \<and> t = c1
     \<or> c1 \<notin> {ch (CHR ''l''), ch (CHR ''z'')} \<and> f1 = rest \<and> c = c1 \<and> t = 0"
proof -
  obtain x xs where f: "format = x # xs" using assms by (cases format) (auto simp: directive_def)
  with assms obtain c1 d1 f1 where m: "min_digits_from xs x 0 = Some (c1, d1, f1)"
    by (auto simp: directive_def bind_eq_Some_conv)
  show thesis
    by (rule that [OF f, of c1 f1]) (use assms m in \<open>cases f1; auto simp: directive_def f split: if_splits\<close>)+
qed

lemma directive_length: "directive format = Some (c, t, d, format') \<Longrightarrow> length format' < length format"
  by (elim directive_SomeE) (auto dest!: min_digits_from_length)

lemma print_one_weight:
  "print_one c t d args fn ctx = Some (args', ctx') \<Longrightarrow> sum_list (map weight args') \<le> sum_list (map weight args)"
  by (auto simp: print_one_def split: if_splits list.splits va_arg.splits)

termination BlPrintArgsToCallback
  by (relation "measure (\<lambda>(format, args, fn, ctx). length format + sum_list (map weight args))")
    (auto dest!: directive_length print_one_weight)

definition BlPrint :: "(u8 \<Rightarrow> 's \<Rightarrow> 's) \<Rightarrow> u8 list \<Rightarrow> va_arg list \<Rightarrow> 's \<Rightarrow> 's option" where
  "BlPrint BxPrintCharacter format args ctx = BlPrintArgsToCallback format args BxPrintCharacter ctx"

text \<open>\<open>BlCrash\<close> prints and leaves for the firmware; its value is the state it leaves in.\<close>

definition BlCrash :: "(u8 \<Rightarrow> 's \<Rightarrow> 's) \<Rightarrow> u8 list \<Rightarrow> va_arg list \<Rightarrow> 's \<Rightarrow> 's option" where
  "BlCrash BxPrintCharacter format args ctx =
     BlPrint BxPrintCharacter (bytes ''BlCrash: %f'' @ [10]) [Str format, VaList args] ctx"

definition BlAssertionFailed :: "(u8 \<Rightarrow> 's \<Rightarrow> 's) \<Rightarrow> u8 list \<Rightarrow> u8 list \<Rightarrow> u32 \<Rightarrow> u8 list \<Rightarrow> 's \<Rightarrow> 's option" where
  "BlAssertionFailed BxPrintCharacter expr file line func ctx =
     BlCrash BxPrintCharacter (bytes ''assertion failed: `%s` in %s at %s:%d'') [Str expr, Str func, Str file, Word line] ctx"

text \<open>Printing into memory.\<close>

record BlPrintBufferData =
  Buffer :: u32
  BufferEnd :: u32

definition BlPrintBufferCallback :: "u8 \<Rightarrow> BlPrintBufferData \<times> mem \<Rightarrow> BlPrintBufferData \<times> mem" where
  "BlPrintBufferCallback c p =
     (case p of (ctx, m) \<Rightarrow>
        let m = (if Buffer ctx < BufferEnd ctx then m(Buffer ctx := c) else m)
        in (ctx\<lparr>Buffer := Buffer ctx + 1\<rparr>, m))"

definition BlPrintArgsToBuffer :: "u32 \<Rightarrow> u32 \<Rightarrow> u8 list \<Rightarrow> va_arg list \<Rightarrow> mem \<Rightarrow> (u32 \<times> mem) option" where
  "BlPrintArgsToBuffer buffer sz format args m =
     (let data = \<lparr>Buffer = buffer, BufferEnd = buffer + sz\<rparr>
      in Option.bind (BlPrintArgsToCallback format args BlPrintBufferCallback (data, m)) (\<lambda>p.
           let (data, m) = BlPrintBufferCallback 0 p in Some (Buffer data - buffer, m)))"

definition BlPrintToBuffer :: "u32 \<Rightarrow> u32 \<Rightarrow> u8 list \<Rightarrow> va_arg list \<Rightarrow> mem \<Rightarrow> (u32 \<times> mem) option" where
  "BlPrintToBuffer buffer sz format args m = BlPrintArgsToBuffer buffer sz format args m"

end
