(* ===== verification/Printing.thy ===== *)
theory Printing
  imports Logging
begin

text \<open>
  What the printing routines print: numbers as padded digit strings that read back as the
  number, a format as the concatenation of its pieces, and the contents of a print buffer.
\<close>

section \<open>Digit strings\<close>

definition digit_char :: "nat \<Rightarrow> u8" where
  "digit_char d = (if d < 10 then 48 + of_nat d else 87 + of_nat d)"

definition digit_value :: "u8 \<Rightarrow> nat" where
  "digit_value c = (if c < 58 then unat c - 48 else unat c - 87)"

fun digits :: "nat \<Rightarrow> nat \<Rightarrow> u8 list" where
  "digits b n = (if n < b \<or> b < 2 then [digit_char n] else digits b (n div b) @ [digit_char (n mod b)])"

declare digits.simps [simp del]

definition number :: "nat \<Rightarrow> u8 list \<Rightarrow> nat" where
  "number b ds = foldl (\<lambda>n c. n * b + digit_value c) 0 ds"

definition padded :: "nat \<Rightarrow> u8 list \<Rightarrow> u8 list" where
  "padded k ds = replicate (k - length ds) 48 @ ds"

lemma digit_value_char: "d < 16 \<Longrightarrow> digit_value (digit_char d) = d"
  by (auto simp: digit_value_def digit_char_def word_less_nat_alt unat_word_ariths unat_of_nat take_bit_eq_mod)

lemma number_digits: "2 \<le> b \<Longrightarrow> b \<le> 16 \<Longrightarrow> number b (digits b n) = n"
proof (induction b n rule: digits.induct)
  case (1 b n)
  have "n mod b < 16" using mod_less_divisor [of b n] "1.prems" by linarith
  with 1 show ?case
    by (subst digits.simps) (auto simp: number_def digit_value_char)
qed

lemma number_padded: "number b (padded k ds) = number b ds"
proof -
  have "foldl (\<lambda>n c. n * b + digit_value c) 0 (replicate k 48) = 0" for k
    by (induction k) (simp_all add: digit_value_def)
  then show ?thesis by (simp add: number_def padded_def)
qed

lemma length_digits: "2 \<le> b \<Longrightarrow> 0 < k \<Longrightarrow> n < b ^ k \<Longrightarrow> length (digits b n) \<le> k"
proof (induction b n arbitrary: k rule: digits.induct)
  case (1 b n)
  show ?case
  proof (cases "n < b")
    case False
    then have k: "k \<noteq> 1" using "1.prems" by auto
    then obtain j where j: "k = Suc j" "0 < j" using "1.prems"(2) by (cases k) auto
    have "n div b < b ^ j" using "1.prems" j by (simp add: div_less_iff_less_mult mult.commute)
    then have "length (digits b (n div b)) \<le> j" using 1 False j by auto
    then show ?thesis using False "1.prems" j by (subst digits.simps) auto
  qed (use "1.prems" in \<open>subst digits.simps; simp\<close>)
qed

lemma digits_nonempty: "0 < length (digits b n)"
  by (subst digits.simps) simp

lemma decimal_digits_eq: "decimal_digits v buf = digits 10 (unat v) @ buf"
proof (induction v buf rule: decimal_digits.induct)
  case (1 v buf)
  have c: "48 + ucast (v mod 10) = digit_char (unat v mod 10)"
  proof -
    have "ucast (v mod 10) = (of_nat (unat (v mod 10)) :: u8)" by simp
    then show ?thesis by (simp add: digit_char_def unat_mod)
  qed
  have z: "v div 10 = 0 \<longleftrightarrow> unat v < 10" by (auto simp: unat_eq_0 [symmetric] unat_div)
  show ?case
    using 1 by (subst decimal_digits.simps, subst digits.simps) (simp add: Let_def z c unat_div not_less)
qed

lemma hex_char: "d < 16 \<Longrightarrow> bytes ''0123456789abcdef'' ! d = digit_char d"
proof -
  have "\<forall>d\<in>set [0..<16]. bytes ''0123456789abcdef'' ! d = digit_char d" by code_simp
  then show "d < 16 \<Longrightarrow> bytes ''0123456789abcdef'' ! d = digit_char d" by simp
qed

lemma hex_digits_eq: "hex_digits v buf = digits 16 (unat v) @ buf"
proof (induction v buf rule: hex_digits.induct)
  case (1 v buf)
  have m: "unat (v AND 0xf) = unat v mod 16"
  proof -
    have "v AND 0xf = take_bit 4 v" by (simp add: take_bit_eq_mask mask_eq_exp_minus_1)
    then show ?thesis by (simp only: unsigned_take_bit_eq) (simp add: take_bit_eq_mod)
  qed
  have d: "unat (drop_bit 4 v) = unat v div 16" by (simp add: unat_drop_bit_eq drop_bit_eq_div unat_div)
  have z: "drop_bit 4 v = 0 \<longleftrightarrow> unat v < 16" by (simp only: unat_eq_0 [symmetric] d) auto
  show ?case
    using 1 by (subst hex_digits.simps, subst digits.simps) (simp add: Let_def z m d hex_char not_less)
qed

lemma pad_digits_eq:
  assumes "0 < length buf" "length buf \<le> 32 - i" "i \<le> 1"
  shows "pad_digits i d buf = padded (min (unat d + i) (32 - i)) buf"
  using assms
proof (induction i d buf rule: pad_digits.induct)
  case (1 i d buf)
  have test: "BI_MAX_DIGITS - length buf > i \<and> of_nat (length buf) - of_nat i < d \<longleftrightarrow> length buf < min (unat d + i) (32 - i)"
  proof -
    have "of_nat (length buf) - of_nat i = (of_nat (length buf - i) :: u32)" by (rule of_nat_diff [symmetric]) (use "1.prems" in linarith)
    moreover have "unat (of_nat (length buf - i) :: u32) = length buf - i"
      using "1.prems" by (simp add: unat_of_nat take_bit_eq_mod)
    ultimately have eq: "unat (of_nat (length buf) - of_nat i :: u32) = length buf - i" by simp
    show ?thesis
      unfolding BI_MAX_DIGITS_def word_less_nat_alt eq using "1.prems" by arith
  qed
  show ?case
  proof (cases "length buf < min (unat d + i) (32 - i)")
    case True
    then have rep: "replicate (min (unat d + i) (32 - i) - length buf) (48 :: u8)
        = replicate (min (unat d + i) (32 - i) - Suc (length buf)) 48 @ [48]"
      by (metis Suc_diff_Suc replicate_Suc replicate_append_same)
    show ?thesis
      using True "1.IH" "1.prems" test by (subst pad_digits.simps) (simp add: padded_def rep)
  next
    case False
    then have no: "\<not> (BI_MAX_DIGITS - length buf > i \<and> of_nat (length buf) - of_nat i < d)" using test by simp
    have "min (unat d + i) (32 - i) - length buf = 0" using leI [OF False] by (rule diff_is_0_eq')
    then show ?thesis
      unfolding pad_digits.simps [of i d buf] if_not_P [OF no] padded_def by simp
  qed
qed

section \<open>Numbers\<close>

definition out_unsigned :: "u32 \<Rightarrow> u32 \<Rightarrow> u8 list" where
  "out_unsigned v minDigits = padded (min (unat minDigits) 32) (digits 10 (unat v))"

definition out_signed :: "u32 \<Rightarrow> u32 \<Rightarrow> u8 list" where
  "out_signed v minDigits = (if sint v \<ge> 0 then out_unsigned v minDigits
     else ch (CHR ''-'') # padded (min (unat minDigits + 1) 31) (digits 10 (nat (- sint v))))"

definition out_hex :: "u64 \<Rightarrow> u32 \<Rightarrow> u8 list" where
  "out_hex v minDigits = padded (min (unat minDigits) 32) (digits 16 (unat v))"

lemma unat_neg: "sint (v :: u32) < 0 \<Longrightarrow> unat (- v) = nat (- sint v)"
proof -
  assume n: "sint v < 0"
  have u: "uint v = sint v + 2 ^ 32"
  proof -
    have "uint v = sint v mod 2 ^ 32" by (simp add: uint_sint take_bit_eq_mod)
    also have "\<dots> = (sint v + 2 ^ 32) mod 2 ^ 32" by simp
    also have "\<dots> = sint v + 2 ^ 32"
      using n sint_ge [of v] by (intro mod_pos_pos_trivial) simp_all
    finally show ?thesis .
  qed
  then have "v \<noteq> 0" using n by auto
  have "- v = - 1 - (v - 1)" by simp
  then have "unat (- v) = unat (- 1 - (v - 1))" by simp
  also have "\<dots> = unat (- 1 :: u32) - unat (v - 1)" by (rule unat_sub) simp
  also have "\<dots> = 2 ^ 32 - unat v"
    using \<open>v \<noteq> 0\<close> unat_minus_one [of v] by (simp add: unsigned_minus_1_eq_mask mask_eq_exp_minus_1 unat_gt_0 Suc_leI)
  finally have "unat (- v) = 2 ^ 32 - unat v" .
  moreover have "int (2 ^ 32 - unat v) = 2 ^ 32 - int (unat v)"
    using unat_lt32 [of v] by (subst of_nat_diff) simp_all
  then have "int (2 ^ 32 - unat v) = - sint v" using u by simp
  then have "2 ^ 32 - unat v = nat (- sint v)" by linarith
  ultimately show "unat (- v) = nat (- sint v)" by simp
qed

lemma len10: "length (digits 10 (unat (v :: u32))) \<le> 10"
  using unat_lt32 [of v] by (intro length_digits) simp_all

lemma len16: "length (digits 16 (unat (v :: u64))) \<le> 16"
  using unsigned_less [of v] by (intro length_digits) simp_all

lemma BiPrintUnsignedDecimal_out: "BiPrintUnsignedDecimal v d 0 fn s = fold fn (out_unsigned v d) s"
  using pad_digits_eq [of "digits 10 (unat v)" 0 d] len10 [of v] digits_nonempty [of 10 "unat v"]
  by (simp add: BiPrintUnsignedDecimal_def out_unsigned_def decimal_digits_eq)

lemma BiPrintHexadecimal_out: "BiPrintHexadecimal v d fn s = fold fn (out_hex v d) s"
  using pad_digits_eq [of "digits 16 (unat v)" 0 d] len16 [of v] digits_nonempty [of 16 "unat v"]
  by (simp add: BiPrintHexadecimal_def out_hex_def hex_digits_eq)

lemma BiPrintSignedDecimal_out: "BiPrintSignedDecimal v d fn s = fold fn (out_signed v d) s"
proof (cases "sint v \<ge> 0")
  case False
  have "ch (CHR ''-'') \<noteq> 0" by simp
  then show ?thesis
    using False pad_digits_eq [of "digits 10 (unat (- v))" 1 d] len10 [of "- v"] digits_nonempty [of 10 "unat (- v)"]
    by (simp add: BiPrintSignedDecimal_def BiPrintUnsignedDecimal_def out_signed_def decimal_digits_eq unat_neg)
qed (simp add: BiPrintSignedDecimal_def out_signed_def BiPrintUnsignedDecimal_out)

section \<open>Formats\<close>

text \<open>What each conversion prints, and what it takes from the arguments.\<close>

definition conversion :: "u8 \<Rightarrow> u8 \<Rightarrow> u32 \<Rightarrow> va_arg list \<Rightarrow> (va_arg list \<times> u8 list) option" where
  "conversion c t d args =
     (if c \<in> {ch (CHR ''d''), ch (CHR ''u'')} \<and> t = ch (CHR ''l'') then Some (args, [])
      else case args of
        Word w # args' \<Rightarrow>
          if c = ch (CHR ''c'') then Some (args', [ucast w])
          else if c = ch (CHR ''p'') then Some (args', bytes ''0x'' @ digits 16 (unat w))
          else if c = ch (CHR ''d'') then Some (args', out_signed w d)
          else if c = ch (CHR ''u'') then Some (args', out_unsigned w d)
          else if c = ch (CHR ''x'') \<and> t \<noteq> ch (CHR ''l'') then Some (args', out_hex (ucast w) d)
          else if c \<in> set (bytes ''sSx'') then None else Some (args, [])
      | Long l # args' \<Rightarrow>
          if c = ch (CHR ''x'') \<and> t = ch (CHR ''l'') then Some (args', out_hex l d)
          else if c \<in> set (bytes ''csSpdux'') then None else Some (args, [])
      | Str str # args' \<Rightarrow>
          if c = ch (CHR ''s'') then Some (args', str)
          else if c = ch (CHR ''S'') then
            (case args' of Word n # args'' \<Rightarrow> if unat n \<le> length str then Some (args'', take (unat n) str) else None | _ \<Rightarrow> None)
          else if c \<in> set (bytes ''cpdux'') then None else Some (args, [])
      | _ \<Rightarrow> if c \<in> set (bytes ''csSpdux'') then None else Some (args, []))"

lemma out_hex_0: "out_hex (ucast (w :: u32)) 0 = digits 16 (unat w)"
  using unat_lt32 [of w] by (simp add: out_hex_def padded_def unsigned_ucast_eq take_bit_eq_mod)

lemma print_one_out:
  assumes "t \<in> {0, ch (CHR ''l''), ch (CHR ''z'')}"
  shows "print_one c t d args fn s = map_option (\<lambda>(args, out). (args, fold fn out s)) (conversion c t d args)"
  using assms
  by (auto simp: conversion_def print_one_def BiPrintString_def BiPrintUnsignedDecimal_out BiPrintSignedDecimal_out
      BiPrintHexadecimal_out out_hex_0 bytes_def split: list.split va_arg.split)

lemma directive_typeCode: "directive format = Some (c, t, d, format') \<Longrightarrow> t \<in> {0, ch (CHR ''l''), ch (CHR ''z'')}"
  by (elim directive_SomeE) auto

lemma conversion_weight: "conversion c t d args = Some (args', out) \<Longrightarrow> sum_list (map weight args') \<le> sum_list (map weight args)"
  by (auto simp: conversion_def split: if_splits list.splits va_arg.splits)

function format_output :: "u8 list \<Rightarrow> va_arg list \<Rightarrow> u8 list option" where
  "format_output [] args = Some []"
| "format_output (c # format) args =
     (if c \<noteq> ch (CHR ''%'') then map_option (Cons c) (format_output format args)
      else case directive format of
        None \<Rightarrow> None
      | Some (c, t, d, rest) \<Rightarrow>
          if c = ch (CHR ''%'') then map_option (Cons (ch (CHR ''%''))) (format_output rest args)
          else if c = ch (CHR ''f'') then
            (case args of
               Str format2 # VaList args2 # args \<Rightarrow>
                 (case format_output format2 args2 of None \<Rightarrow> None
                  | Some out \<Rightarrow> map_option ((@) out) (format_output rest args))
             | _ \<Rightarrow> None)
          else (case conversion c t d args of None \<Rightarrow> None
            | Some (args, out) \<Rightarrow> map_option ((@) out) (format_output rest args)))"
  by pat_completeness auto
termination
  by (relation "measure (\<lambda>(format, args). length format + sum_list (map weight args))")
    (auto dest!: directive_length conversion_weight)

lemma BlPrintArgsToCallback_out:
  "BlPrintArgsToCallback format args fn s = map_option (\<lambda>out. fold fn out s) (format_output format args)"
proof (induction format args arbitrary: s rule: format_output.induct)
  case (2 c format args)
  show ?case
  proof (cases "c = ch (CHR ''%'')")
    case True
    show ?thesis
    proof (cases "directive format")
      case (Some p)
      obtain c' t d rest where p: "p = (c', t, d, rest)" by (cases p)
      note one = print_one_out [OF directive_typeCode [OF Some [unfolded p]], of c' d args fn s]
      have I1: "BlPrintArgsToCallback rest args fn s = map_option (\<lambda>out. fold fn out s) (format_output rest args)"
        if "c' = ch (CHR ''%'')" for s
        using "2.IH"(2) True Some that by (simp add: p)
      have I2: "BlPrintArgsToCallback f2 a2 fn s = map_option (\<lambda>out. fold fn out s) (format_output f2 a2)"
        if "c' = ch (CHR ''f'')" "args = Str f2 # VaList a2 # as" for f2 a2 as s
        using "2.IH"(3) True Some that by (simp add: p)
      have I3: "BlPrintArgsToCallback rest as fn s = map_option (\<lambda>out. fold fn out s) (format_output rest as)"
        if "c' = ch (CHR ''f'')" "args = Str f2 # VaList a2 # as" "format_output f2 a2 = Some out" for f2 a2 as s out
        using "2.IH"(4) True Some that by (simp add: p)
      have I4: "BlPrintArgsToCallback rest as fn s = map_option (\<lambda>out. fold fn out s) (format_output rest as)"
        if "c' \<noteq> ch (CHR ''%'')" "c' \<noteq> ch (CHR ''f'')" "conversion c' t d args = Some (as, out)" for as s out
        using "2.IH"(5) True Some that by (simp add: p)
      consider "c' = ch (CHR ''%'')" | "c' = ch (CHR ''f'')" | "c' \<noteq> ch (CHR ''%'')" "c' \<noteq> ch (CHR ''f'')" by blast
      then show ?thesis
      proof cases
        case 1
        then show ?thesis using True Some I1 by (simp add: p option.map_comp comp_def)
      next
        case 2
        show ?thesis
        proof (cases "\<exists>f2 a2 as. args = Str f2 # VaList a2 # as")
          case ex: True
          then obtain f2 a2 as where a: "args = Str f2 # VaList a2 # as" by blast
          show ?thesis
            using True Some 2 I2 [OF 2 a] I3 [OF 2 a] by (cases "format_output f2 a2") (simp_all add: p a option.map_comp comp_def)
        next
          case no: False
          then show ?thesis using True Some 2 by (auto simp: p split: list.split va_arg.split)
        qed
      next
        case 3
        then show ?thesis
          using True Some one I4 [OF 3] by (cases "conversion c' t d args") (auto simp: p option.map_comp comp_def)
      qed
    qed (use True in simp)
  next
    case False
    then show ?thesis using "2.IH"(1) by (cases "format_output format args") auto
  qed
qed simp

lemma digits_set: "2 \<le> b \<Longrightarrow> set (digits b n) \<subseteq> digit_char ` {..<b}"
proof (induction b n rule: digits.induct)
  case (1 b n)
  then show ?case by (subst digits.simps) auto
qed

definition numeral_of :: "nat \<Rightarrow> nat \<Rightarrow> nat \<Rightarrow> u8 list \<Rightarrow> bool" where
  "numeral_of b n w ds \<longleftrightarrow> number b ds = n \<and> set ds \<subseteq> digit_char ` {..<b} \<and> ds \<noteq> []
     \<and> length ds = max w (length (digits b n))"

lemma numeral_of_padded: "2 \<le> b \<Longrightarrow> b \<le> 16 \<Longrightarrow> numeral_of b n w (padded w (digits b n))"
proof -
  assume b: "2 \<le> b" "b \<le> 16"
  have "(48 :: u8) = digit_char 0" by (simp add: digit_char_def)
  then have "set (padded w (digits b n)) \<subseteq> digit_char ` {..<b}"
    using digits_set [OF b(1), of n] b(1) by (auto simp: padded_def)
  with number_padded [of b w "digits b n"] number_digits [OF b] digits_nonempty [of b n] show ?thesis
    by (auto simp: numeral_of_def padded_def)
qed

text \<open>
  C35. Unsigned and hexadecimal printing hand the callback a digit string that reads back as the
  value, of at least the requested width (up to the 32 digits of the buffer).
\<close>

theorem print_number_roundtrip:
  "(\<exists>ds. BiPrintUnsignedDecimal v d 0 fn s = fold fn ds s \<and> numeral_of 10 (unat v) (min (unat d) 32) ds)
    \<and> (\<exists>ds. BiPrintHexadecimal x d fn s = fold fn ds s \<and> numeral_of 16 (unat x) (min (unat d) 32) ds)"
  unfolding BiPrintUnsignedDecimal_out BiPrintHexadecimal_out out_unsigned_def out_hex_def
  using numeral_of_padded [of 10 "unat v" "min (unat d) 32"] numeral_of_padded [of 16 "unat x" "min (unat d) 32"] by auto

text \<open>
  C36. Signed printing: a non-negative value prints as an unsigned one; a negative value prints a
  minus sign and the digits of its absolute value, padded to one digit more than requested.
\<close>

theorem print_signed_correct:
  "\<exists>ds. if sint v \<ge> 0 then BiPrintSignedDecimal v d fn s = fold fn ds s \<and> numeral_of 10 (nat (sint v)) (min (unat d) 32) ds
    else BiPrintSignedDecimal v d fn s = fold fn (ch (CHR ''-'') # ds) s
      \<and> numeral_of 10 (nat (- sint v)) (min (unat d + 1) 31) ds"
proof (cases "sint v \<ge> 0")
  case True
  have "uint v = sint v mod 2 ^ 32" by (simp add: uint_sint take_bit_eq_mod)
  then have "uint v = sint v"
    using True sint_less [of v] mod_pos_pos_trivial [of "sint v" "2 ^ 32"] by simp
  then have "unat v = nat (sint v)" by (simp only: unat_eq_nat_uint)
  with True show ?thesis
    unfolding BiPrintSignedDecimal_out out_signed_def out_unsigned_def
    using numeral_of_padded [of 10 "nat (sint v)" "min (unat d) 32"] by auto
next
  case False
  then show ?thesis
    unfolding BiPrintSignedDecimal_out out_signed_def
    using numeral_of_padded [of 10 "nat (- sint v)" "min (unat d + 1) 31"] by auto
qed


section \<open>Printing into a buffer\<close>

lemma buffer_callback_fold:
  assumes "unat buffer + unat sz < 2 ^ 32" "unat buffer + length out < 2 ^ 32"
  shows "fold BlPrintBufferCallback out (\<lparr>Buffer = buffer, BufferEnd = buffer + sz\<rparr>, m) =
    (\<lparr>Buffer = buffer + of_nat (length out), BufferEnd = buffer + sz\<rparr>, store_bytes m buffer (take (unat sz) out))"
  using assms(2)
proof (induction out rule: rev_induct)
  case (snoc c out)
  have l: "length out < 2 ^ 32" using snoc.prems by simp
  have "unat (buffer + of_nat (length out)) = unat buffer + length out"
    using snoc.prems l by (simp add: unat_word_ariths unat_of_nat take_bit_eq_mod)
  moreover have "unat (buffer + sz) = unat buffer + unat sz" using assms(1) by (simp add: unat_word_ariths)
  ultimately have lt: "buffer + of_nat (length out) < buffer + sz \<longleftrightarrow> length out < unat sz"
    by (simp add: word_less_nat_alt)
  have "(store_bytes m buffer out)(buffer + of_nat (length out) := c) = store_bytes m buffer (out @ [c])"
    by (rule store_bytes_upd [OF l])
  then show ?case
    using snoc lt by (simp add: BlPrintBufferCallback_def Let_def add.assoc)
qed simp

text \<open>
  C37. \<open>BlPrintArgsToBuffer\<close> returns the number of characters of the output and its terminator, and
  stores as many of them as fit: memory outside the buffer never changes. (Output that does not
  fit is cut without a terminator.)
\<close>

theorem BlPrintArgsToBuffer_correct:
  assumes out: "format_output format args = Some out"
    and fits: "unat buffer + unat sz < 2 ^ 32" "unat buffer + length out + 1 < 2 ^ 32"
  shows "BlPrintArgsToBuffer buffer sz format args m =
    Some (of_nat (length out + 1), store_bytes m buffer (take (unat sz) (out @ [0])))"
proof -
  have "fold BlPrintBufferCallback (out @ [0]) (\<lparr>Buffer = buffer, BufferEnd = buffer + sz\<rparr>, m) =
    (\<lparr>Buffer = buffer + of_nat (length out + 1), BufferEnd = buffer + sz\<rparr>, store_bytes m buffer (take (unat sz) (out @ [0])))"
    using buffer_callback_fold [of buffer sz "out @ [0]" m] fits by simp
  then show ?thesis
    by (simp add: BlPrintArgsToBuffer_def BlPrintArgsToCallback_out out Let_def)
qed

theorem BlPrintArgsToBuffer_correct_witness:
  "BlPrintArgsToBuffer 0x100 16 (bytes ''cpu@%u'') [Word 12] (\<lambda>_. 0xFF) =
    Some (7, store_bytes (\<lambda>_. 0xFF) 0x100 (bytes ''cpu@12'' @ [0]))"
proof -
  have "format_output (bytes ''cpu@%u'') [Word 12] = Some (bytes ''cpu@12'')" by code_simp
  from BlPrintArgsToBuffer_correct [OF this, of "0x100" 16 "\<lambda>_. 0xFF"] show ?thesis
    by (simp add: bytes_def)
qed


end
