(* ===== verification/Config.thy ===== *)
theory Config
  imports Printing Heap_Resize
begin

text \<open>
  The configuration file, \<^verbatim>\<open>bootloader/config.c\<close>. The state extends the heap by the option table and
  the characters printed so far. The size and the contents of the file come from the file
  system: \<open>fileSize\<close> and \<open>fileRead\<close> are parameters here.
\<close>

section \<open>State\<close>

record BiOption =
  OptName :: "u8 list"
  OptFlags :: u32
  OptValue :: u32

record config = heap +
  BiOptions :: "BiOption list"
  console :: "u8 list"

definition BI_REQUIRED :: u32 where "BI_REQUIRED = 1"
definition BI_PROVIDED :: u32 where "BI_PROVIDED = 2 ^ 31"

text \<open>The table as it is linked; \<open>OptValue\<close> is the variable the option's \<open>Value\<close> points to.\<close>

definition BiOptions_init :: "BiOption list" where
  "BiOptions_init =
     [\<lparr>OptName = bytes ''KernelPath'', OptFlags = BI_REQUIRED, OptValue = 0\<rparr>,
      \<lparr>OptName = bytes ''StdoutPath'', OptFlags = 0, OptValue = 0\<rparr>,
      \<lparr>OptName = bytes ''InitrdPath'', OptFlags = 0, OptValue = 0\<rparr>,
      \<lparr>OptName = bytes ''CommandLine'', OptFlags = 0, OptValue = 0\<rparr>]"

definition put_char :: "u8 \<Rightarrow> 'a config_scheme \<Rightarrow> 'a config_scheme" where
  "put_char c s = s\<lparr>console := console s @ [c]\<rparr>"

definition print :: "u8 list \<Rightarrow> va_arg list \<Rightarrow> 'a config_scheme \<Rightarrow> 'a config_scheme run" where
  "print format args s = (case BlPrint put_char format args s of None \<Rightarrow> None | Some s \<Rightarrow> ret s)"

text \<open>Ending the program with a formatted message.\<close>

definition crash_with :: "string \<Rightarrow> va_arg list \<Rightarrow> 'b run" where
  "crash_with format args =
     (case format_output (bytes format) args of None \<Rightarrow> None | Some out \<Rightarrow> crash (map (\<lambda>c. char_of (unat c)) out))"

section \<open>Options\<close>

definition BiValidateOptions :: "'a config_scheme \<Rightarrow> unit run" where
  "BiValidateOptions s =
     (case find (\<lambda>opt. OptFlags opt AND (BI_REQUIRED OR BI_PROVIDED) = BI_REQUIRED) (BiOptions s) of
        Some opt \<Rightarrow> crash_with ''BiValidateOptions: missing required option `%s`'' [Str (OptName opt)]
      | None \<Rightarrow> ret ())"

definition BiIsWhitespace :: "u8 \<Rightarrow> bool" where
  "BiIsWhitespace c \<longleftrightarrow> c = ch (CHR '' '') \<or> c = 9 \<or> c = 13"

fun find_option_from :: "mem \<Rightarrow> u32 \<Rightarrow> u32 \<Rightarrow> nat \<Rightarrow> BiOption list \<Rightarrow> nat option" where
  "find_option_from m name nameLength i [] = None"
| "find_option_from m name nameLength i (opt # opts) =
     (if of_nat (length (OptName opt)) = nameLength \<and> OptName opt = load_bytes m name (unat nameLength) then Some i
      else find_option_from m name nameLength (i + 1) opts)"

definition BlFindOption :: "u32 \<Rightarrow> u32 \<Rightarrow> 'a config_scheme \<Rightarrow> nat option" where
  "BlFindOption name nameLength s = find_option_from (memory s) name nameLength 0 (BiOptions s)"

definition BiHandleOption :: "u32 \<Rightarrow> u32 \<Rightarrow> u32 \<Rightarrow> u32 \<Rightarrow> 'a config_scheme \<Rightarrow> 'a config_scheme run" where
  "BiHandleOption name nameLength val valueLength s =
     (case BlFindOption name nameLength s of
        None \<Rightarrow> print (bytes ''BlHandleOption: unknown option `%S`'' @ [10])
                  [Str (load_bytes (memory s) name (unat nameLength)), Word nameLength] s
      | Some i \<Rightarrow>
          bind_run (BlAllocateHeap (valueLength + 1) 1 False s) (\<lambda>(buffer, s).
            let m = BlCopyMemory (memory s) buffer val valueLength;
                m = m(buffer + valueLength := 0);
                opt = BiOptions s ! i
            in ret (s\<lparr>memory := m, BiOptions := (BiOptions s)[i := opt\<lparr>OptValue := buffer,
                     OptFlags := OptFlags opt OR BI_PROVIDED\<rparr>]\<rparr>)))"

section \<open>Lines\<close>

lemma unat_minus_one_diff: "(a :: u32) < b \<Longrightarrow> unat (b - (a + 1)) < unat (b - a)"
proof -
  assume "a < b"
  then have "b - a \<noteq> 0" by auto
  then have "unat (b - a - 1) < unat (b - a)" by (rule unat_pred_less)
  then show ?thesis by (simp add: algebra_simps)
qed

function skip_whitespace :: "mem \<Rightarrow> u32 \<Rightarrow> u64 \<Rightarrow> u32 \<times> u64" where
  "skip_whitespace m buffer sz =
     (if sz > 0 \<and> BiIsWhitespace (m buffer) then skip_whitespace m (buffer + 1) (sz - 1) else (buffer, sz))"
  by auto
termination
  by (relation "measure (\<lambda>(m, buffer, sz). unat sz)") (auto simp: unat_gt_0 unat_minus_one)

text \<open>The scan of a line; \<open>SIZE_MAX\<close> marks a position not found yet.\<close>

partial_function (option) scan_line :: "mem \<Rightarrow> u32 \<Rightarrow> u64 \<Rightarrow> u32 \<Rightarrow> u32 \<Rightarrow> u32 \<Rightarrow> (u32 \<times> u32 \<times> u32) option" where
  "scan_line m buffer sz nameEnd valueEnd lineEnd =
     (if ucast lineEnd < sz \<and> m (buffer + lineEnd) \<noteq> 10 then
        let nameEnd = (if nameEnd = - 1 \<and> m (buffer + lineEnd) = ch (CHR '':'') then lineEnd else nameEnd);
            valueEnd = (if valueEnd = - 1 \<and> m (buffer + lineEnd) = ch (CHR ''#'') then lineEnd else valueEnd)
        in scan_line m buffer sz nameEnd valueEnd (lineEnd + 1)
      else Some (nameEnd, valueEnd, lineEnd))"

function trim_start :: "mem \<Rightarrow> u32 \<Rightarrow> u32 \<Rightarrow> u32 \<Rightarrow> u32" where
  "trim_start m buffer valueStart valueEnd =
     (if valueStart < valueEnd \<and> BiIsWhitespace (m (buffer + valueStart))
      then trim_start m buffer (valueStart + 1) valueEnd else valueStart)"
  by auto
termination
  by (relation "measure (\<lambda>(m, buffer, valueStart, valueEnd). unat (valueEnd - valueStart))")
    (auto simp: unat_minus_one_diff)

function trim_end :: "mem \<Rightarrow> u32 \<Rightarrow> u32 \<Rightarrow> u32 \<Rightarrow> u32" where
  "trim_end m buffer valueStart valueEnd =
     (if valueStart < valueEnd \<and> BiIsWhitespace (m (buffer + (valueEnd - 1)))
      then trim_end m buffer valueStart (valueEnd - 1) else valueEnd)"
  by auto
termination
proof (relation "measure (\<lambda>(m, buffer, valueStart, valueEnd). unat valueEnd)")
  fix m buffer and valueStart valueEnd :: u32
  assume "valueStart < valueEnd \<and> BiIsWhitespace (m (buffer + (valueEnd - 1)))"
  then have "valueEnd \<noteq> 0" by auto
  then show "((m, buffer, valueStart, valueEnd - 1), m, buffer, valueStart, valueEnd) \<in> measure (\<lambda>(m, buffer, valueStart, valueEnd). unat valueEnd)"
    using unat_pred_less by simp
qed simp

declare skip_whitespace.simps [simp del] trim_start.simps [simp del] trim_end.simps [simp del]

definition config_line :: "u32 \<Rightarrow> u32 \<Rightarrow> u32 \<Rightarrow> u32 \<Rightarrow> u32 \<Rightarrow> 'a config_scheme \<Rightarrow> 'a config_scheme run" where
  "config_line buffer nameEnd valueEnd lineEnd line s =
     (if valueEnd = 0 \<or> lineEnd = 0 then ret s
      else if nameEnd = - 1 then crash_with ''invalid syntax in configuration (line %zu)'' [Word line]
      else
        let valueEnd = (if valueEnd = - 1 then lineEnd else valueEnd);
            valueStart = trim_start (memory s) buffer (nameEnd + 1) valueEnd;
            valueEnd = trim_end (memory s) buffer valueStart valueEnd
        in BiHandleOption buffer nameEnd (buffer + valueStart) (valueEnd - valueStart) s)"

partial_function (option) config_lines :: "u32 \<Rightarrow> u64 \<Rightarrow> u32 \<Rightarrow> 'a config_scheme \<Rightarrow> 'a config_scheme run" where
  "config_lines buffer sz line s =
     (if sz > 0 then
        let (buffer, sz) = skip_whitespace (memory s) buffer sz
        in Option.bind (scan_line (memory s) buffer sz (- 1) (- 1) 0) (\<lambda>(nameEnd, valueEnd, lineEnd).
             bind_run (config_line buffer nameEnd valueEnd lineEnd line s) (\<lambda>s.
               let lineEnd = (if ucast lineEnd < sz then lineEnd + 1 else lineEnd)
               in config_lines (buffer + lineEnd) (sz - ucast lineEnd) (line + 1) s))
      else ret s)"

definition BlLoadConfigurationFromFile ::
    "u64 \<Rightarrow> (u32 \<Rightarrow> 'a config_scheme \<Rightarrow> 'a config_scheme run) \<Rightarrow> 'a config_scheme \<Rightarrow> 'a config_scheme run" where
  "BlLoadConfigurationFromFile fileSize fileRead s =
     bind_run (print (bytes ''Loading configuration'' @ [10]) [] s) (\<lambda>s.
     bind_run (BlAllocateHeap (ucast fileSize) 1 False s) (\<lambda>(buffer, s).
     bind_run (fileRead buffer s) (\<lambda>s.
     bind_run (config_lines buffer fileSize 1 s) (\<lambda>s.
       let s = BlFreeHeap buffer s
       in bind_run (BiValidateOptions s) (\<lambda>_. ret s)))))"

end
