(* ===== verification/Config_Parse.thy ===== *)
theory Config_Parse
  imports Config
begin

text \<open>
  What the configuration parser computes: the lines of the file, the setting in each line, and
  the scans of the code as functions of the bytes in memory.
\<close>

section \<open>The specification\<close>

definition trim :: "u8 list \<Rightarrow> u8 list" where
  "trim xs = rev (dropWhile BiIsWhitespace (rev (dropWhile BiIsWhitespace xs)))"

datatype line = Skip | Bad | Setting "u8 list" "u8 list"

text \<open>
  A line without its leading white space: nothing if it is empty or a comment; otherwise a name up
  to the first colon and the value behind it, up to a comment and without white space around it.
\<close>

definition parse_line :: "u8 list \<Rightarrow> line" where
  "parse_line ln =
     (if ln = [] \<or> hd ln = ch (CHR ''#'') then Skip
      else if ch (CHR '':'') \<notin> set ln then Bad
      else Setting (takeWhile (\<lambda>c. c \<noteq> ch (CHR '':'')) ln)
        (trim (tl (dropWhile (\<lambda>c. c \<noteq> ch (CHR '':'')) (takeWhile (\<lambda>c. c \<noteq> ch (CHR ''#'')) ln)))))"

function file_lines :: "u8 list \<Rightarrow> u8 list list" where
  "file_lines [] = []"
| "file_lines (c # cs) =
     (let cs' = dropWhile BiIsWhitespace (c # cs)
      in takeWhile (\<lambda>c. c \<noteq> 10) cs' # file_lines (tl (dropWhile (\<lambda>c. c \<noteq> 10) cs')))"
  by pat_completeness auto
termination
proof (relation "measure length")
  fix c :: u8 and cs x
  assume x: "x = dropWhile BiIsWhitespace (c # cs)"
  have "length (tl (dropWhile (\<lambda>c. c \<noteq> 10) x)) \<le> length (dropWhile (\<lambda>c. c \<noteq> 10) x) - 1" by simp
  moreover have "length (dropWhile (\<lambda>c. c \<noteq> 10) x) \<le> length x" "length x \<le> length (c # cs)"
    unfolding x by (simp_all only: length_dropWhile_le)
  ultimately show "(tl (dropWhile (\<lambda>c. c \<noteq> 10) x), c # cs) \<in> measure length" by simp
qed simp

section \<open>Bytes in memory\<close>

definition holds :: "mem \<Rightarrow> u32 \<Rightarrow> u8 list \<Rightarrow> bool" where
  "holds m a cs \<longleftrightarrow> load_bytes m a (length cs) = cs"

lemma holds_nth: "holds m a cs \<Longrightarrow> i < length cs \<Longrightarrow> m (a + of_nat i) = cs ! i"
  unfolding holds_def by (metis nth_load_bytes)

lemma holds_append: "holds m a (xs @ ys) \<longleftrightarrow> holds m a xs \<and> holds m (a + of_nat (length xs)) ys"
  by (simp add: holds_def load_bytes_add)

lemma holds_Cons: "holds m a (c # cs) \<longleftrightarrow> m a = c \<and> holds m (a + 1) cs"
  by (simp add: holds_def load_bytes_Suc)

lemma skip_whitespace_list:
  "holds m a cs \<Longrightarrow> length cs < 2 ^ 32 \<Longrightarrow> skip_whitespace m a (of_nat (length cs)) =
    (a + of_nat (length (takeWhile BiIsWhitespace cs)), of_nat (length (dropWhile BiIsWhitespace cs)))"
proof (induction cs arbitrary: a)
  case Nil
  show ?case by (subst skip_whitespace.simps) simp
next
  case (Cons c cs)
  have "(0 :: u64) < of_nat (length (c # cs))"
    using Cons.prems(2) by (simp add: word_less_nat_alt unat_word_ariths unat_of_nat take_bit_eq_mod)
  then show ?case
    using Cons.IH [of "a + 1"] Cons.prems by (subst skip_whitespace.simps) (auto simp: holds_Cons add.assoc)
qed

text \<open>The first position of a character, \<open>SIZE_MAX\<close> if there is none.\<close>

definition pos :: "u8 \<Rightarrow> u8 list \<Rightarrow> u32" where
  "pos c xs = (if c \<in> set xs then of_nat (length (takeWhile (\<lambda>x. x \<noteq> c) xs)) else - 1)"

lemma takeWhile_less: "c \<in> set xs \<Longrightarrow> length (takeWhile (\<lambda>x. x \<noteq> c) xs) < length xs"
  by (induction xs) auto

lemma of_nat_neq_max: "n < 2 ^ 32 - 1 \<Longrightarrow> (of_nat n :: u32) \<noteq> - 1"
proof
  assume n: "n < 2 ^ 32 - 1" and e: "(of_nat n :: u32) = - 1"
  from e have "unat (of_nat n :: u32) = unat (- 1 :: u32)" by simp
  with n show False by (simp add: unat_of_nat take_bit_eq_mod unsigned_minus_1_eq_mask mask_eq_exp_minus_1)
qed

lemma pos_max: "length xs < 2 ^ 32 \<Longrightarrow> pos c xs = - 1 \<longleftrightarrow> c \<notin> set xs"
  using takeWhile_less [of c xs] of_nat_neq_max [of "length (takeWhile (\<lambda>x. x \<noteq> c) xs)"] by (auto simp: pos_def)

lemma pos_snoc: "length xs < 2 ^ 32 \<Longrightarrow> pos c (xs @ [x]) = (if pos c xs = - 1 \<and> x = c then of_nat (length xs) else pos c xs)"
  using pos_max [of xs c] by (auto simp: pos_def takeWhile_append)

lemma scan_line_list:
  assumes "holds m a cs" "length cs < 2 ^ 32" "takeWhile (\<lambda>c. c \<noteq> 10) cs = xs @ ys"
  shows "scan_line m a (of_nat (length cs)) (pos (ch (CHR '':'')) xs) (pos (ch (CHR ''#'')) xs) (of_nat (length xs)) =
    Some (pos (ch (CHR '':'')) (xs @ ys), pos (ch (CHR ''#'')) (xs @ ys), of_nat (length (xs @ ys)))"
  using assms(3)
proof (induction ys arbitrary: xs)
  case Nil
  then have len: "length xs \<le> length cs" using length_takeWhile_le [of "\<lambda>c. c \<noteq> 10" cs] by simp
  have "\<not> (ucast (of_nat (length xs) :: u32) < (of_nat (length cs) :: u64) \<and> m (a + of_nat (length xs)) \<noteq> 10)"
  proof (cases "length xs = length cs")
    case True
    then show ?thesis using assms(2) by (simp add: word_less_nat_alt unsigned_ucast_eq unat_of_nat take_bit_eq_mod)
  next
    case False
    then have "cs ! length xs = 10"
      using nth_length_takeWhile [of "\<lambda>c. c \<noteq> 10" cs] Nil len by auto
    then show ?thesis using holds_nth [OF assms(1), of "length xs"] False len by simp
  qed
  then show ?case by (subst scan_line.simps) (simp only: if_False append_Nil2)
next
  case (Cons y ys)
  have x: "takeWhile (\<lambda>c. c \<noteq> 10) cs = (xs @ [y]) @ ys" using Cons.prems by simp
  have len: "length xs < length cs"
    using length_takeWhile_le [of "\<lambda>c. c \<noteq> 10" cs] Cons.prems by simp
  have nth: "cs ! length xs = y"
    using takeWhile_nth [of "length xs" "\<lambda>c. c \<noteq> 10" cs] Cons.prems by simp
  have "y \<in> set (takeWhile (\<lambda>c. c \<noteq> 10) cs)" unfolding Cons.prems by simp
  then have y: "y \<noteq> 10" by (auto dest: set_takeWhileD)
  have t: "ucast (of_nat (length xs) :: u32) < (of_nat (length cs) :: u64)"
    using len assms(2) by (simp add: word_less_nat_alt unsigned_ucast_eq unat_of_nat take_bit_eq_mod)
  have m: "m (a + of_nat (length xs)) = y" using holds_nth [OF assms(1) len] nth by simp
  have l: "length xs < 2 ^ 32" using len assms(2) by simp
  have i: "of_nat (length xs) + 1 = (of_nat (length (xs @ [y])) :: u32)" by simp
  show ?case
    using Cons.IH [OF x] t y unfolding pos_snoc [OF l]
    by (subst scan_line.simps) (simp add: m i Let_def pos_snoc [OF l] del: of_nat_Suc)
qed

lemma unat_of_nat32: "n < 2 ^ 32 \<Longrightarrow> unat (of_nat n :: u32) = n"
  by (simp add: unat_of_nat take_bit_eq_mod)

lemma of_nat_less32: "i < 2 ^ 32 \<Longrightarrow> j < 2 ^ 32 \<Longrightarrow> (of_nat i :: u32) < of_nat j \<longleftrightarrow> i < j"
  by (simp add: word_less_nat_alt unat_of_nat32)

lemma trim_start_list:
  assumes "holds m a cs" "length cs < 2 ^ 32" "i \<le> j" "j \<le> length cs"
  shows "trim_start m a (of_nat i) (of_nat j) = of_nat (i + length (takeWhile BiIsWhitespace (take (j - i) (drop i cs))))"
  using assms(3)
proof (induction "j - i" arbitrary: i)
  case 0
  then show ?case by (subst trim_start.simps) simp
next
  case (Suc n)
  then have ij: "i < j" by simp
  have m: "m (a + of_nat i) = cs ! i" by (rule holds_nth [OF assms(1)]) (use ij assms(4) in simp)
  have lt: "(of_nat i :: u32) < of_nat j" using ij assms(2,4) by (simp add: of_nat_less32)
  have d: "take (j - i) (drop i cs) = cs ! i # take (j - Suc i) (drop (Suc i) cs)"
    using ij assms(4) by (simp add: Cons_nth_drop_Suc [symmetric] take_Cons')
  show ?case
    using Suc.hyps(1) [of "Suc i"] Suc.hyps(2) ij lt
    by (subst trim_start.simps) (simp add: m d add.commute)
qed

lemma trim_end_list:
  assumes "holds m a cs" "length cs < 2 ^ 32" "i \<le> j" "j \<le> length cs"
  shows "trim_end m a (of_nat i) (of_nat j) = of_nat (i + length (dropWhile BiIsWhitespace (rev (take (j - i) (drop i cs)))))"
  using assms(3,4)
proof (induction "j - i" arbitrary: j)
  case 0
  then show ?case by (subst trim_end.simps) simp
next
  case (Suc n)
  then obtain k where k: "j = Suc k" "i \<le> k" by (cases j) auto
  have m: "m (a + of_nat k) = cs ! k" by (rule holds_nth [OF assms(1)]) (use k Suc.prems in simp)
  have lt: "(of_nat i :: u32) < of_nat (Suc k)" using k Suc.prems assms(2) by (simp add: of_nat_less32 del: of_nat_Suc)
  have d: "rev (take (Suc k - i) (drop i cs)) = cs ! k # rev (take (k - i) (drop i cs))"
    using k Suc.prems by (simp add: Suc_diff_le take_Suc_conv_app_nth)
  have p: "of_nat (Suc k) - 1 = (of_nat k :: u32)" by simp
  show ?case
    using Suc.hyps(1) [of k] Suc.hyps(2) Suc.prems k lt
    unfolding k(1) d by (subst trim_end.simps) (simp only: p m, simp)
qed

section \<open>One line\<close>

lemma pos_eq_length: "length xs < 2 ^ 32 \<Longrightarrow> c \<in> set xs \<Longrightarrow> pos c xs = of_nat (length (takeWhile (\<lambda>x. x \<noteq> c) xs))"
  by (simp add: pos_def)

lemma pos_eq_0:
  assumes "length ln < 2 ^ 32"
  shows "pos c ln = 0 \<longleftrightarrow> ln \<noteq> [] \<and> hd ln = c"
proof (cases "c \<in> set ln")
  case True
  then have l: "length (takeWhile (\<lambda>x. x \<noteq> c) ln) < 2 ^ 32" using takeWhile_less [of c ln] assms by linarith
  have "(of_nat (length (takeWhile (\<lambda>x. x \<noteq> c) ln)) :: u32) = 0 \<longleftrightarrow> takeWhile (\<lambda>x. x \<noteq> c) ln = []"
    using of_nat_less32 [of 0 "length (takeWhile (\<lambda>x. x \<noteq> c) ln)"] l by (auto simp: word_gt_0)
  then show ?thesis using True by (cases ln) (auto simp: pos_def)
qed (auto simp: pos_def)

lemma trim_bounds:
  "\<exists>pre post. xs = pre @ trim xs @ post \<and> length pre = length (takeWhile BiIsWhitespace xs)
    \<and> length pre + length (trim xs) = length (takeWhile BiIsWhitespace xs) + length (dropWhile BiIsWhitespace (rev (dropWhile BiIsWhitespace xs)))"
proof -
  let ?w = "dropWhile BiIsWhitespace xs"
  have "?w = rev (dropWhile BiIsWhitespace (rev ?w)) @ rev (takeWhile BiIsWhitespace (rev ?w))"
    by (metis rev_append rev_rev_ident takeWhile_dropWhile_id)
  then have "xs = takeWhile BiIsWhitespace xs @ trim xs @ rev (takeWhile BiIsWhitespace (rev ?w))"
    unfolding trim_def by (metis takeWhile_dropWhile_id)
  then show ?thesis unfolding trim_def by (metis length_rev)
qed

lemma length_trim: "length (trim xs) \<le> length xs"
proof -
  have "length (trim xs) \<le> length (dropWhile BiIsWhitespace xs)"
    using length_dropWhile_le [of BiIsWhitespace "rev (dropWhile BiIsWhitespace xs)"] by (simp add: trim_def)
  then show ?thesis using length_dropWhile_le [of BiIsWhitespace xs] by (rule le_trans)
qed

text \<open>The two trimming loops around the value \<open>xs\<close> of a line \<open>pre @ xs @ post\<close>.\<close>

lemma trim_loops:
  assumes h: "holds m a (pre @ xs @ post)" "length (pre @ xs @ post) < 2 ^ 32"
  shows "\<exists>i. trim_start m a (of_nat (length pre)) (of_nat (length (pre @ xs))) = of_nat i
    \<and> trim_end m a (of_nat i) (of_nat (length (pre @ xs))) - of_nat i = of_nat (length (trim xs))
    \<and> holds m (a + of_nat i) (trim xs) \<and> i + length (trim xs) \<le> length (pre @ xs)"
proof -
  let ?cs = "pre @ xs @ post" let ?i = "length pre" let ?j = "length (pre @ xs)"
  obtain u v where uv: "xs = u @ trim xs @ v" "length u = length (takeWhile BiIsWhitespace xs)"
    "length u + length (trim xs) = length (takeWhile BiIsWhitespace xs) + length (dropWhile BiIsWhitespace (rev (dropWhile BiIsWhitespace xs)))"
    using trim_bounds [of xs] by blast
  have s: "trim_start m a (of_nat ?i) (of_nat ?j) = of_nat (?i + length u)"
    using trim_start_list [OF h, of ?i ?j] uv(2) by simp
  have lu: "length u \<le> length xs" unfolding uv(2) by (rule length_takeWhile_le)
  have d: "take (?j - (?i + length u)) (drop (?i + length u) ?cs) = dropWhile BiIsWhitespace xs"
    unfolding dropWhile_eq_drop uv(2) [symmetric] using lu by simp
  have e: "trim_end m a (of_nat (?i + length u)) (of_nat ?j) = of_nat (?i + length u + length (trim xs))"
    using trim_end_list [OF h, of "?i + length u" ?j] lu uv(2,3) unfolding d by (simp add: trim_def)
  have "holds m a ((pre @ u) @ trim xs @ v @ post)" using h(1) uv(1) by (metis append_assoc)
  then have "holds m (a + of_nat (?i + length u)) (trim xs)" unfolding holds_append by simp
  moreover have "length u + length (trim xs) \<le> length xs" using arg_cong [OF uv(1), of length] by simp
  ultimately show ?thesis using s e by (intro exI [of _ "?i + length u"]) auto
qed

lemma config_line_list:
  assumes h: "holds (memory s) a ln" "length ln < 2 ^ 32 - 1"
  shows "case parse_line ln of
       Skip \<Rightarrow> config_line a (pos (ch (CHR '':'')) ln) (pos (ch (CHR ''#'')) ln) (of_nat (length ln)) k s = ret s
     | Bad \<Rightarrow> config_line a (pos (ch (CHR '':'')) ln) (pos (ch (CHR ''#'')) ln) (of_nat (length ln)) k s
         = crash_with ''invalid syntax in configuration (line %zu)'' [Word k]
     | Setting name val \<Rightarrow> holds (memory s) a name \<and> length name < length ln \<and> length val < length ln \<and>
         (\<exists>v vl. config_line a (pos (ch (CHR '':'')) ln) (pos (ch (CHR ''#'')) ln) (of_nat (length ln)) k s
             = BiHandleOption a (of_nat (length name)) v vl s
           \<and> (ch (CHR ''#'') \<notin> set name \<longrightarrow> vl = of_nat (length val) \<and> holds (memory s) v val
             \<and> (\<exists>i. v = a + of_nat i \<and> i + length val \<le> length ln)))"
proof -
  let ?C = "ch (CHR '':'')" let ?H = "ch (CHR ''#'')" let ?m = "memory s"
  let ?run = "config_line a (pos ?C ln) (pos ?H ln) (of_nat (length ln)) k s"
  have l: "length ln < 2 ^ 32" using h(2) by simp
  have l0: "(of_nat (length ln) :: u32) = 0 \<longleftrightarrow> ln = []"
    using of_nat_less32 [of 0 "length ln"] l by (auto simp: word_gt_0)
  consider "ln = [] \<or> hd ln = ?H" | "ln \<noteq> []" "hd ln \<noteq> ?H" "?C \<notin> set ln" | "ln \<noteq> []" "hd ln \<noteq> ?H" "?C \<in> set ln" by blast
  then show ?thesis
  proof cases
    case 1
    then have "pos ?H ln = 0 \<or> ln = []" using pos_eq_0 [OF l] by blast
    then show ?thesis using 1 by (auto simp: config_line_def parse_line_def l0)
  next
    case 2
    then have "pos ?H ln \<noteq> 0" "pos ?C ln = - 1" using pos_eq_0 [OF l] pos_max [OF l] by blast+
    with 2 show ?thesis by (simp add: config_line_def parse_line_def l0)
  next
    case 3
    define name where "name = takeWhile (\<lambda>c. c \<noteq> ?C) ln"
    define body where "body = takeWhile (\<lambda>c. c \<noteq> ?H) ln"
    define val where "val = trim (tl (dropWhile (\<lambda>c. c \<noteq> ?C) body))"
    have nl: "length name < length ln" unfolding name_def by (rule takeWhile_less [OF 3(3)])
    have p: "pos ?H ln \<noteq> 0" "pos ?C ln = of_nat (length name)"
      using 3 pos_eq_0 [OF l] pos_eq_length [OF l] by (auto simp: name_def)
    have p': "pos ?C ln \<noteq> - 1" using pos_max [OF l] 3(3) by blast
    have ln: "ln = name @ ?C # tl (dropWhile (\<lambda>c. c \<noteq> ?C) ln)"
    proof -
      have "dropWhile (\<lambda>c. c \<noteq> ?C) ln \<noteq> []" using 3(3) by (auto simp: dropWhile_eq_Nil_conv)
      then obtain x t where d: "dropWhile (\<lambda>c. c \<noteq> ?C) ln = x # t" unfolding neq_Nil_conv by blast
      then have "x = ?C" using hd_dropWhile [of "\<lambda>c. c \<noteq> ?C" ln] by simp
      with d takeWhile_dropWhile_id [of "\<lambda>c. c \<noteq> ?C" ln] show ?thesis by (simp add: name_def)
    qed
    have ve: "(if pos ?H ln = - 1 then of_nat (length ln) else pos ?H ln) = of_nat (length body)"
    proof (cases "?H \<in> set ln")
      case True
      then show ?thesis using pos_max [OF l, of ?H] pos_eq_length [OF l True] by (simp add: body_def)
    next
      case False
      then have "body = ln" unfolding body_def takeWhile_eq_all_conv by blast
      then show ?thesis using False pos_max [OF l, of ?H] by simp
    qed
    let ?vs = "trim_start ?m a (of_nat (length name) + 1) (of_nat (length body))"
    let ?ve = "trim_end ?m a ?vs (of_nat (length body))"
    have run: "?run = BiHandleOption a (of_nat (length name)) (a + ?vs) (?ve - ?vs) s"
      using p p' 3(1) l0 unfolding config_line_def Let_def ve by simp
    have parse: "parse_line ln = Setting name val"
      using 3 by (simp add: parse_line_def name_def val_def body_def)
    have vl: "length val < length ln"
    proof -
      have "length val \<le> length (tl (dropWhile (\<lambda>c. c \<noteq> ?C) body))"
        unfolding val_def by (rule length_trim)
      also have "\<dots> \<le> length body - 1" by (simp add: diff_le_mono length_dropWhile_le)
      also have "\<dots> < length ln"
      proof -
        have "length body \<le> length ln" unfolding body_def by (rule length_takeWhile_le)
        moreover have "0 < length ln" using 3(1) by simp
        ultimately show ?thesis by linarith
      qed
      finally show ?thesis .
    qed
    have nm: "holds ?m a name"
    proof -
      have "holds ?m a (name @ ?C # tl (dropWhile (\<lambda>c. c \<noteq> ?C) ln))" using h(1) ln by simp
      then show ?thesis unfolding holds_append by (rule conjunct1)
    qed
    have "?ve - ?vs = of_nat (length val) \<and> holds ?m (a + ?vs) val \<and> (\<exists>i. a + ?vs = a + of_nat i \<and> i + length val \<le> length ln)" if hash: "?H \<notin> set name"
    proof -
      define t where "t = tl (dropWhile (\<lambda>c. c \<noteq> ?C) ln)"
      define xs where "xs = takeWhile (\<lambda>c. c \<noteq> ?H) t"
      have ln': "ln = name @ ?C # t" using ln by (simp only: t_def)
      have "body = takeWhile (\<lambda>c. c \<noteq> ?H) (name @ ?C # t)" unfolding body_def using ln' by simp
      then have b: "body = name @ ?C # xs" using hash by (auto simp: xs_def takeWhile_append)
      have "\<forall>c\<in>set name. c \<noteq> ?C" unfolding name_def by (auto dest: set_takeWhileD)
      then have "dropWhile (\<lambda>c. c \<noteq> ?C) body = ?C # xs" unfolding b by (simp add: dropWhile_append)
      then have v: "val = trim xs" by (simp add: val_def)
      have cut: "ln = (name @ [?C]) @ xs @ dropWhile (\<lambda>c. c \<noteq> ?H) t"
        using ln' by (simp add: xs_def)
      have len: "of_nat (length (name @ [?C])) = (of_nat (length name) + 1 :: u32)" "(name @ [?C]) @ xs = body"
        by (simp_all add: b)
      obtain i where "?vs = of_nat i" "trim_end ?m a (of_nat i) (of_nat (length body)) - of_nat i = of_nat (length (trim xs))"
        "holds ?m (a + of_nat i) (trim xs)" "i + length (trim xs) \<le> length body"
        using trim_loops [of ?m a "name @ [?C]" xs "dropWhile (\<lambda>c. c \<noteq> ?H) t"] h(1) l cut unfolding len by auto
      moreover have "length body \<le> length ln" unfolding body_def by (rule length_takeWhile_le)
      ultimately show ?thesis unfolding v by auto
    qed
    with run have "?run = BiHandleOption a (of_nat (length name)) (a + ?vs) (?ve - ?vs) s \<and> (?H \<notin> set name \<longrightarrow>
      ?ve - ?vs = of_nat (length val) \<and> holds ?m (a + ?vs) val \<and> (\<exists>i. a + ?vs = a + of_nat i \<and> i + length val \<le> length ln))"
      by blast
    with nm nl vl show ?thesis unfolding parse line.case by blast
  qed
qed

end
