(* ===== verification/Config_Load.thy ===== *)
theory Config_Load
  imports Config_Parse Heap_Concrete
begin

text \<open>
  Loading the configuration: the option table after the file is what the file's settings say,
  each value a terminated string in an allocation of its own, over all allocations and prints
  that happen on the way.
\<close>

section \<open>Printing does not touch the heap\<close>

lemma print_out:
  "print format args s = (case format_output format args of None \<Rightarrow> None | Some out \<Rightarrow> ret (s\<lparr>console := console s @ out\<rparr>))"
proof -
  have "fold put_char out s = s\<lparr>console := console s @ out\<rparr>" for out and s :: "'a config_scheme"
    by (induction out arbitrary: s) (simp_all add: put_char_def)
  then show ?thesis
    by (simp add: print_def BlPrint_def BlPrintArgsToCallback_out split: option.split)
qed

lemma heap_inv_console [simp]: "heap_inv (s\<lparr>console := c\<rparr>) rs fs = heap_inv s rs fs"
  by (simp add: heap_inv_def heap_rep_def)

lemma heap_inv_options [simp]: "heap_inv (s\<lparr>BiOptions := c\<rparr>) rs fs = heap_inv s rs fs"
  by (simp add: heap_inv_def heap_rep_def)

lemma unknown_option_output:
  assumes "unat n \<le> length d"
  shows "format_output (bytes ''BlHandleOption: unknown option `%S`'' @ [10]) [Str d, Word n]
    = Some (bytes ''BlHandleOption: unknown option `'' @ take (unat n) d @ bytes ''`'' @ [10])"
proof -
  have d: "directive (bytes ''S`'' @ [10]) = Some (ch (CHR ''S''), 0, 0, bytes ''`'' @ [10])" by code_simp
  show ?thesis using d assms by (simp add: bytes_def conversion_def)
qed

section \<open>The option table\<close>

definition opt_ok :: "mem \<Rightarrow> (u32 \<times> u32) set \<Rightarrow> BiOption \<Rightarrow> u8 list option \<Rightarrow> bool" where
  "opt_ok m L opt v \<longleftrightarrow> (case v of
     None \<Rightarrow> OptFlags opt AND BI_PROVIDED = 0
   | Some val \<Rightarrow> OptFlags opt AND BI_PROVIDED = BI_PROVIDED
       \<and> (\<exists>e. (OptValue opt - 24, e) \<in> L \<and> unat (OptValue opt) + length val + 1 \<le> unat e \<and> holds m (OptValue opt) (val @ [0])))"

text \<open>The constant part of the table: names and required flags.\<close>

definition table_ok :: "BiOption list \<Rightarrow> bool" where
  "table_ok opts \<longleftrightarrow> map OptName opts = map OptName BiOptions_init
     \<and> map (\<lambda>opt. OptFlags opt AND BI_REQUIRED) opts = map (\<lambda>opt. OptFlags opt AND BI_REQUIRED) BiOptions_init"

definition option_index :: "u8 list \<Rightarrow> nat option" where
  "option_index name = (if name = bytes ''KernelPath'' then Some 0 else if name = bytes ''StdoutPath'' then Some 1
     else if name = bytes ''InitrdPath'' then Some 2 else if name = bytes ''CommandLine'' then Some 3 else None)"

definition set_option :: "u8 list \<Rightarrow> u8 list \<Rightarrow> u8 list option list \<Rightarrow> u8 list option list" where
  "set_option name val vs = (case option_index name of None \<Rightarrow> vs | Some i \<Rightarrow> vs[i := Some val])"

lemma find_option_list:
  assumes "table_ok (BiOptions s)" "holds (memory s) a name" "length name < 2 ^ 32"
  shows "BlFindOption a (of_nat (length name)) s = option_index name"
proof -
  obtain o0 o1 o2 o3 where o: "BiOptions s = [o0, o1, o2, o3]"
    and n: "OptName o0 = bytes ''KernelPath''" "OptName o1 = bytes ''StdoutPath''" "OptName o2 = bytes ''InitrdPath''"
      "OptName o3 = bytes ''CommandLine''"
    using assms(1) by (auto simp: table_ok_def BiOptions_init_def map_eq_Cons_conv)
  have l: "load_bytes (memory s) a (length name) = name" using assms(2) by (simp add: holds_def)
  have len: "of_nat (length xs) = (of_nat (length name) :: u32) \<and> xs = name \<longleftrightarrow> name = xs" for xs by auto
  show ?thesis
    unfolding BlFindOption_def o find_option_from.simps n unat_of_nat32 [OF assms(3)] l len option_index_def by simp
qed

lemma option_names_plain: "option_index name \<noteq> None \<Longrightarrow> ch (CHR ''#'') \<notin> set name"
  by (auto simp: option_index_def bytes_def split: if_splits)

lemma opt_ok_frame:
  assumes "opt_ok m L opt v" "same_on (data_of L) m m'" "L \<subseteq> L'"
  shows "opt_ok m' L' opt v"
proof (cases v)
  case (Some val)
  with assms(1) obtain e where e: "OptFlags opt AND BI_PROVIDED = BI_PROVIDED" "(OptValue opt - 24, e) \<in> L"
    "unat (OptValue opt) + length val + 1 \<le> unat e" "holds m (OptValue opt) (val @ [0])"
    by (auto simp: opt_ok_def)
  have "span (OptValue opt) (length (val @ [0 :: u8])) \<subseteq> area (OptValue opt) e"
    by (rule span_area) (use e(3) in simp_all)
  moreover have "area (OptValue opt) e \<subseteq> data_of L" using e(2) by (force simp: data_of_def)
  ultimately have "same_on (span (OptValue opt) (length (val @ [0 :: u8]))) m m'"
    using assms(2) by (blast intro: same_on_mono)
  moreover have "length (val @ [0 :: u8]) \<le> 2 ^ 32" using e(3) unat_lt32 [of e] by simp
  ultimately have "holds m' (OptValue opt) (val @ [0])"
    using e(4) load_bytes_same_on unfolding holds_def by metis
  with e Some assms(3) show ?thesis by (auto simp: opt_ok_def)
qed (use assms(1) in \<open>simp add: opt_ok_def\<close>)

section \<open>Storing a value\<close>

definition conf_inv :: "'a config_scheme \<Rightarrow> block list \<Rightarrow> u32 list \<Rightarrow> u32 \<times> u32 \<Rightarrow> u8 list option list \<Rightarrow> bool" where
  "conf_inv s rs fs buf vs \<longleftrightarrow> heap_inv s rs fs \<and> buf \<in> live rs \<and> table_ok (BiOptions s)
     \<and> list_all2 (opt_ok (memory s) (live rs - {buf})) (BiOptions s) vs"

definition grows :: "'a config_scheme \<Rightarrow> block list \<Rightarrow> 'a config_scheme \<Rightarrow> block list \<Rightarrow> bool" where
  "grows s rs s' rs' \<longleftrightarrow> live rs \<subseteq> live rs' \<and> foot rs' \<subseteq> foot rs \<and> same_on (live_data rs \<union> - foot rs) (memory s) (memory s')"

lemma grows_refl [simp]: "grows s rs s rs"
  by (simp add: grows_def)

lemma grows_trans: "grows s rs s' rs' \<Longrightarrow> grows s' rs' s'' rs'' \<Longrightarrow> grows s rs s'' rs''"
  unfolding grows_def live_data_data_of
  by (metis (no_types, lifting) Compl_subset_Compl_iff Un_mono data_of_mono same_on_mono same_on_trans subset_trans)

lemma fresh_allocation:
  assumes "allocated False rs p n rs'" "0 < n"
  obtains e where "live rs' = insert (p - 24, e) (live rs)" "unat p + n \<le> unat e" "(p - 24, e) \<notin> live rs"
proof -
  from assms(1) obtain e where e: "live rs' = insert (p - 24, e) (live rs)" "unat p + n \<le> unat e"
    and d: "span p n \<inter> live_data rs = {}"
    by (auto simp: allocated_def)
  have "(p - 24, e) \<notin> live rs"
  proof
    assume "(p - 24, e) \<in> live rs"
    then have "area p e \<subseteq> live_data rs" using live_data_area [of "p - 24" e rs] by simp
    moreover have "p \<in> area p e" "p \<in> span p n" using e(2) assms(2) by (simp_all add: area_def word_less_nat_alt)
    ultimately show False using d by blast
  qed
  with e show thesis by (rule that)
qed

lemma heap_more_config: "heap.more s = heap.more s' \<longleftrightarrow> BiOptions s = BiOptions s' \<and> console s = console s' \<and> config.more s = config.more s'"
  by (cases s; cases s') simp

lemma table_ok_update:
  assumes "table_ok opts" "i < length opts"
  shows "table_ok (opts[i := (opts ! i)\<lparr>OptValue := p, OptFlags := OptFlags (opts ! i) OR BI_PROVIDED\<rparr>])"
    (is "table_ok ?new")
proof -
  have "(x OR BI_PROVIDED) AND BI_REQUIRED = x AND BI_REQUIRED" for x
    unfolding bit.conj_disj_distrib2 by (simp add: BI_PROVIDED_def BI_REQUIRED_def)
  then have "map (\<lambda>opt. OptFlags opt AND BI_REQUIRED) ?new = map (\<lambda>opt. OptFlags opt AND BI_REQUIRED) opts"
    using assms(2) by (simp add: map_update list_update_same_conv)
  moreover have "map OptName ?new = map OptName opts" using assms(2) by (simp add: map_update list_update_same_conv)
  ultimately show ?thesis using assms(1) by (simp only: table_ok_def)
qed

text \<open>Filling a fresh allocation.\<close>

lemma store_fresh:
  assumes new: "heap_inv s1 rs1 fs1" "allocated False rs p n rs1" "data_kept rs s s1" and n: "0 < n" "length bs \<le> n"
  shows "heap_inv (s1\<lparr>memory := store_bytes (memory s1) p bs\<rparr>) rs1 fs1" "holds (store_bytes (memory s1) p bs) p bs"
    and "same_on (live_data rs \<union> - foot rs) (memory s) (store_bytes (memory s1) p bs)" "span p n \<subseteq> live_data rs1"
proof -
  let ?m = "store_bytes (memory s1) p bs"
  have ord: "ordered 1 rs1" using new(1) by (simp add: heap_inv_def)
  have a: "fits p n" "span p n \<subseteq> foot rs" "span p n \<inter> live_data rs = {}" using new(2) by (auto simp: allocated_def)
  obtain e where e: "live rs1 = insert (p - 24, e) (live rs)" "unat p + n \<le> unat e"
    by (rule fresh_allocation [OF new(2) n(1)])
  have kept: "same_on (live_data rs \<union> - foot rs) (memory s) (memory s1)" using new(3) by (simp add: data_kept_def)
  have sub: "span p (length bs) \<subseteq> span p n" by (rule span_mono [OF n(2)])
  have out: "same_outside (span p (length bs)) (memory s1) ?m" by (rule store_bytes_same_outside)
  show live: "span p n \<subseteq> live_data rs1"
    using span_area [of p p n e] e(2) live_data_area [of "p - 24" e rs1] by (simp add: e(1))
  then have "span p (length bs) \<inter> header_span (bases rs1) = {}" using header_span_foot [OF ord] sub by blast
  from heap_inv_same_headers [OF new(1) same_outside_on [OF out this]] show "heap_inv (s1\<lparr>memory := ?m\<rparr>) rs1 fs1" .
  have "length bs \<le> 2 ^ 32" using n a(1) by (simp add: fits_def)
  from load_store_bytes [OF this, of "memory s1" p] show "holds ?m p bs" by (simp add: holds_def)
  have "span p (length bs) \<inter> (live_data rs \<union> - foot rs) = {}" using sub a(2,3) by blast
  from same_on_trans [OF kept same_outside_on [OF out this]] show "same_on (live_data rs \<union> - foot rs) (memory s) ?m" .
qed

lemma store_value:
  assumes val: "holds (memory s) v val" "span v (length val) \<subseteq> live_data rs" "fits v (length val)"
    and new: "heap_inv s1 rs1 fs1" "allocated False rs p n rs1" "data_kept rs s s1" and n: "length val + 1 \<le> n"
  defines "m \<equiv> (BlCopyMemory (memory s1) p v (of_nat (length val)))(p + of_nat (length val) := 0)"
  shows "m = store_bytes (memory s1) p (val @ [0])"
proof -
  have a: "fits p n" "span p n \<inter> live_data rs = {}" using new(2) by (auto simp: allocated_def)
  have len: "length val < 2 ^ 32" using n a(1) by (simp add: fits_def)
  have ul: "unat (of_nat (length val) :: u32) = length val" by (rule unat_of_nat32 [OF len])
  have "same_on (span v (length val)) (memory s) (memory s1)"
    by (rule same_on_mono [of "live_data rs \<union> - foot rs"]) (use val(2) new(3) in \<open>auto simp: data_kept_def\<close>)
  then have src: "load_bytes (memory s1) v (length val) = val"
    using load_bytes_same_on [of v "length val"] val(1) len unfolding holds_def by simp
  have "span p (length val) \<inter> span v (length val) = {}" using span_mono [of "length val" n p] n a(2) val(2) by auto
  moreover have "fits p (length val)" using a(1) n by (simp add: fits_def)
  ultimately have "BlCopyMemory (memory s1) p v (of_nat (length val)) = store_bytes (memory s1) p val"
    using memcpy_store_bytes [of p "of_nat (length val)" v "memory s1"] val(3) by (simp add: BlCopyMemory_def ul src)
  then show ?thesis unfolding m_def by (simp add: store_bytes_upd [OF len])
qed

text \<open>One setting.\<close>

lemma BiHandleOption_spec:
  assumes inv: "conf_inv s rs fs buf vs" and name: "holds (memory s) a name" "length name < 2 ^ 32"
    and val: "ch (CHR ''#'') \<notin> set name \<Longrightarrow> vl = of_nat (length val) \<and> holds (memory s) v val
      \<and> span v (length val) \<subseteq> live_data rs \<and> fits v (length val) \<and> length val \<le> 2 ^ 32 - 32"
  shows "BiHandleOption a (of_nat (length name)) v vl s = crash ''out of memory''
    \<or> (\<exists>s' rs' fs'. BiHandleOption a (of_nat (length name)) v vl s = ret s'
      \<and> conf_inv s' rs' fs' buf (set_option name val vs) \<and> grows s rs s' rs')"
proof -
  from inv have h: "heap_inv s rs fs" and b: "buf \<in> live rs" and t: "table_ok (BiOptions s)"
    and o: "list_all2 (opt_ok (memory s) (live rs - {buf})) (BiOptions s) vs"
    by (auto simp: conf_inv_def)
  note find = find_option_list [OF t name]
  show ?thesis
  proof (cases "option_index name")
    case None
    let ?d = "load_bytes (memory s) a (length name)"
    have u: "unat (of_nat (length name) :: u32) = length name" by (rule unat_of_nat32 [OF name(2)])
    obtain out where "format_output (bytes ''BlHandleOption: unknown option `%S`'' @ [10]) [Str ?d, Word (of_nat (length name))] = Some out"
      using unknown_option_output [of "of_nat (length name)" ?d] by (auto simp: u)
    then have "BiHandleOption a (of_nat (length name)) v vl s = ret (s\<lparr>console := console s @ out\<rparr>)"
      by (simp add: BiHandleOption_def find None u print_out)
    moreover have "conf_inv (s\<lparr>console := console s @ out\<rparr>) rs fs buf (set_option name val vs)"
      using inv by (simp add: conf_inv_def set_option_def None)
    moreover have "grows s rs (s\<lparr>console := console s @ out\<rparr>) rs" by (simp add: grows_def)
    ultimately show ?thesis by blast
  next
    case (Some i)
    then have V: "vl = of_nat (length val)" "holds (memory s) v val" "span v (length val) \<subseteq> live_data rs" "fits v (length val)"
      "length val \<le> 2 ^ 32 - 32"
      using val option_names_plain [of name] by auto
    have l4: "length (BiOptions s) = 4" using map_eq_imp_length_eq [of OptName "BiOptions s" OptName BiOptions_init] t
      by (simp add: table_ok_def BiOptions_init_def)
    have i: "i < length (BiOptions s)" "i < length vs"
      using Some l4 list_all2_lengthD [OF o] by (auto simp: option_index_def split: if_splits)
    let ?vl = "of_nat (length val) :: u32" let ?opt = "BiOptions s ! i"
    have uvl: "unat (?vl + 1) = length val + 1"
      using V(5) unat_of_nat32 [of "length val + 1"] by (simp add: add.commute)
    have req: "alloc_request (?vl + 1) 1 False 0"
      unfolding alloc_request_def uvl using V(5) uvl by auto
    from BlAllocateHeap_spec [OF h req] consider "BlAllocateHeap (?vl + 1) 1 False s = crash ''out of memory''"
      | p s1 rs1 fs1 where "BlAllocateHeap (?vl + 1) 1 False s = ret (p, s1)" "heap_inv s1 rs1 fs1"
        "allocated False rs p (rounded (?vl + 1)) rs1" "data_kept rs s s1" by blast
    then show ?thesis
    proof cases
      case 1
      then show ?thesis using find Some V(1) by (simp add: BiHandleOption_def)
    next
      case 2
      have n: "length val + 1 \<le> rounded (?vl + 1)" unfolding rounded_def uvl by linarith
      let ?m = "(BlCopyMemory (memory s1) p v ?vl)(p + ?vl := 0)"
      let ?new = "?opt\<lparr>OptValue := p, OptFlags := OptFlags ?opt OR BI_PROVIDED\<rparr>"
      let ?s = "s1\<lparr>memory := ?m, BiOptions := (BiOptions s)[i := ?new]\<rparr>"
      have "length (val @ [0]) \<le> rounded (?vl + 1)" using n by simp
      note st = store_fresh [OF 2(2-4) _ this, folded store_value [OF V(2-4) 2(2-4) n]]
      have n0: "0 < rounded (?vl + 1)" using n by simp
      note st = st [OF n0]
      have same: "BiOptions s1 = BiOptions s" "console s1 = console s" using 2(4) by (auto simp: data_kept_def heap_more_config)
      obtain e where e: "live rs1 = insert (p - 24, e) (live rs)" "unat p + rounded (?vl + 1) \<le> unat e" "(p - 24, e) \<notin> live rs"
        by (rule fresh_allocation [OF 2(3)]) (use n in auto)
      have run: "BiHandleOption a (of_nat (length name)) v vl s = ret ?s"
        using find Some V(1) by (simp add: BiHandleOption_def 2(1) same Let_def)
      have frame: "same_on (data_of (live rs - {buf})) (memory s) ?m"
        by (rule same_on_mono [OF st(3)]) (use data_of_mono [of "live rs - {buf}" "live rs"] in \<open>auto simp: live_data_data_of\<close>)
      have L: "live rs - {buf} \<subseteq> live rs1 - {buf}" unfolding e(1) by blast
      have old: "opt_ok ?m (live rs1 - {buf}) (BiOptions s ! j) (vs ! j)" if "j < length (BiOptions s)" for j
        using opt_ok_frame [OF list_all2_nthD [OF o that] frame L] .
      have "opt_ok ?m (live rs1 - {buf}) ?new (Some val)"
        using st(2) e n b unfolding opt_ok_def by (auto simp: bit.conj_disj_distrib2 intro!: exI [of _ e])
      then have "list_all2 (opt_ok ?m (live rs1 - {buf})) (BiOptions ?s) (set_option name val vs)"
        using i old list_all2_lengthD [OF o] unfolding set_option_def Some by (auto simp: list_all2_conv_all_nth nth_list_update)
      moreover have "heap_inv ?s rs1 fs1" using st(1) by simp
      moreover have "table_ok (BiOptions ?s)" using table_ok_update [OF t i(1)] by simp
      ultimately have "conf_inv ?s rs1 fs1 buf (set_option name val vs)" using b e(1) by (simp add: conf_inv_def)
      moreover have "grows s rs ?s rs1" using st(3) e(1) 2(3) by (auto simp: grows_def allocated_def)
      ultimately show ?thesis using run by blast
    qed
  qed
qed

section \<open>All lines\<close>

text \<open>
  What a list of lines means for the options, from line number \<open>k\<close> on: the number of the
  first line that is no setting, or the values after the last line.
\<close>

fun run_lines :: "nat \<Rightarrow> u8 list list \<Rightarrow> u8 list option list \<Rightarrow> nat + u8 list option list" where
  "run_lines k [] vs = Inr vs"
| "run_lines k (ln # lns) vs =
     (case parse_line ln of
        Skip \<Rightarrow> run_lines (k + 1) lns vs
      | Bad \<Rightarrow> Inl k
      | Setting name val \<Rightarrow> run_lines (k + 1) lns (set_option name val vs))"

definition lines_done :: "'a config_scheme run \<Rightarrow> nat + u8 list option list \<Rightarrow> 'a config_scheme \<Rightarrow> block list \<Rightarrow> u32 \<times> u32 \<Rightarrow> bool" where
  "lines_done r out s rs buf \<longleftrightarrow> r = crash ''out of memory'' \<or> (case out of
      Inl n \<Rightarrow> r = crash_with ''invalid syntax in configuration (line %zu)'' [Word (of_nat n)]
    | Inr vs' \<Rightarrow> \<exists>s' rs' fs'. r = ret s' \<and> conf_inv s' rs' fs' buf vs' \<and> grows s rs s' rs')"

lemma lines_done_grows: "lines_done r out s' rs' buf \<Longrightarrow> grows s rs s' rs' \<Longrightarrow> lines_done r out s rs buf"
  unfolding lines_done_def by (auto split: sum.splits intro: grows_trans)

text \<open>Stepping over a line and its end.\<close>

lemma next_line:
  assumes h: "holds m a w" "length w < 2 ^ 32" and w: "ln = takeWhile (\<lambda>c. c \<noteq> 10) w"
  defines "adv \<equiv> (if ucast (of_nat (length ln) :: u32) < (of_nat (length w) :: u64) then of_nat (length ln) + 1 else of_nat (length ln)) :: u32"
  shows "\<exists>i. adv = of_nat i \<and> of_nat (length w) - ucast adv = (of_nat (length (tl (dropWhile (\<lambda>c. c \<noteq> 10) w))) :: u64)
    \<and> holds m (a + of_nat i) (tl (dropWhile (\<lambda>c. c \<noteq> 10) w)) \<and> i + length (tl (dropWhile (\<lambda>c. c \<noteq> 10) w)) = length w"
proof -
  have le: "length ln \<le> length w" unfolding w by (rule length_takeWhile_le)
  have uc: "ucast (of_nat n :: u32) = (of_nat n :: u64)" if "n < 2 ^ 32" for n
    using that by (simp add: word_unat_eq_iff unsigned_ucast_eq unat_of_nat take_bit_eq_mod)
  have lt: "ucast (of_nat (length ln) :: u32) < (of_nat (length w) :: u64) \<longleftrightarrow> length ln < length w"
    using h(2) le by (simp add: uc word_less_nat_alt unat_of_nat take_bit_eq_mod)
  have split: "w = ln @ dropWhile (\<lambda>c. c \<noteq> 10) w" by (simp add: w)
  show ?thesis
  proof (cases "dropWhile (\<lambda>c. c \<noteq> 10) w")
    case Nil
    then have len: "length ln = length w" using arg_cong [OF split, of length] by simp
    show ?thesis unfolding adv_def lt Nil using len uc [OF h(2)]
      by (intro exI [of _ "length w"]) (simp add: holds_def)
  next
    case (Cons x t)
    then have l: "length w = Suc (length ln) + length t" using arg_cong [OF split, of length] by simp
    then have "Suc (length ln) < 2 ^ 32" using h(2) by simp
    from uc [OF this] have "ucast (of_nat (length ln) + 1 :: u32) = (of_nat (length ln) + 1 :: u64)" by (simp add: add.commute)
    moreover have "holds m a (ln @ x # t)" using h(1) split Cons by simp
    then have "holds m (a + of_nat (Suc (length ln))) t" unfolding holds_append holds_Cons by (simp add: ac_simps)
    ultimately show ?thesis using l unfolding adv_def lt Cons
      by (intro exI [of _ "Suc (length ln)"]) (simp add: add.commute)
  qed
qed

lemma fits_sub: "fits a n \<Longrightarrow> i + k \<le> n \<Longrightarrow> fits (a + of_nat i) k"
proof -
  assume a: "fits a n" "i + k \<le> n"
  have "unat (a + of_nat i) \<le> unat a + i" by (simp add: unat_word_ariths unat_of_nat take_bit_eq_mod mod_simps)
  with a show ?thesis by (simp add: fits_def)
qed

text \<open>The bytes \<open>cs\<close> still to be read lie in allocated memory.\<close>

definition input :: "'a config_scheme \<Rightarrow> block list \<Rightarrow> u32 \<Rightarrow> u8 list \<Rightarrow> bool" where
  "input s rs a cs \<longleftrightarrow> holds (memory s) a cs \<and> span a (length cs) \<subseteq> live_data rs \<and> fits a (length cs) \<and> length cs \<le> 2 ^ 32 - 32"

lemma input_sub: "input s rs a cs \<Longrightarrow> holds (memory s) (a + of_nat i) xs \<Longrightarrow> i + length xs \<le> length cs \<Longrightarrow> input s rs (a + of_nat i) xs"
  unfolding input_def using span_sub [of i "length xs" "length cs" a] fits_sub [of a "length cs" i "length xs"] by auto

lemma input_grows:
  assumes "input s rs a cs" "grows s rs s' rs'"
  shows "input s' rs' a cs"
proof -
  have "same_on (span a (length cs)) (memory s) (memory s')"
  proof (rule same_on_mono)
    show "same_on (live_data rs \<union> - foot rs) (memory s) (memory s')" using assms(2) unfolding grows_def by blast
    show "span a (length cs) \<subseteq> live_data rs \<union> - foot rs" using assms(1) unfolding input_def by blast
  qed
  then have "holds (memory s') a cs"
    using assms(1) load_bytes_same_on [of a "length cs" "memory s" "memory s'"] unfolding input_def holds_def by simp
  moreover have "live_data rs \<subseteq> live_data rs'"
    using assms(2) data_of_mono [of "live rs" "live rs'"] unfolding live_data_data_of grows_def by blast
  ultimately show ?thesis using assms(1) by (auto simp: input_def)
qed

text \<open>One line, followed by whatever runs after it.\<close>

lemma config_line_spec:
  fixes k :: nat
  assumes inv: "conf_inv s rs fs buf vs" and inp: "input s rs a ln"
  defines "r \<equiv> config_line a (pos (ch (CHR '':'')) ln) (pos (ch (CHR ''#'')) ln) (of_nat (length ln)) (of_nat k) s"
  shows "lines_done r (run_lines k [ln] vs) s rs buf"
proof -
  have h: "holds (memory s) a ln" "length ln < 2 ^ 32 - 1" using inp by (auto simp: input_def)
  note line = config_line_list [OF h, of "of_nat k"]
  show ?thesis
  proof (cases "parse_line ln")
    case Skip
    then have "r = ret s" using line by (simp add: r_def)
    then show ?thesis using Skip inv grows_refl unfolding lines_done_def by fastforce
  next
    case Bad
    then show ?thesis using line by (simp add: lines_done_def r_def)
  next
    case (Setting name val)
    then obtain v vl where r: "r = BiHandleOption a (of_nat (length name)) v vl s"
      and n: "holds (memory s) a name" "length name < 2 ^ 32"
      and v: "ch (CHR ''#'') \<notin> set name \<longrightarrow> vl = of_nat (length val) \<and> holds (memory s) v val
        \<and> (\<exists>i. v = a + of_nat i \<and> i + length val \<le> length ln)"
    proof -
      from line obtain v vl where *: "holds (memory s) a name" "length name < length ln" "r = BiHandleOption a (of_nat (length name)) v vl s"
        "ch (CHR ''#'') \<notin> set name \<longrightarrow> vl = of_nat (length val) \<and> holds (memory s) v val
          \<and> (\<exists>i. v = a + of_nat i \<and> i + length val \<le> length ln)"
        unfolding r_def Setting line.case by blast
      moreover from *(2) h(2) have "length name < 2 ^ 32" by linarith
      ultimately show thesis using that by blast
    qed
    have v: "vl = of_nat (length val) \<and> input s rs v val" if "ch (CHR ''#'') \<notin> set name"
      using v that input_sub [OF inp] by blast
    have "ch (CHR ''#'') \<notin> set name \<Longrightarrow> vl = of_nat (length val) \<and> holds (memory s) v val
        \<and> span v (length val) \<subseteq> live_data rs \<and> fits v (length val) \<and> length val \<le> 2 ^ 32 - 32"
      using v by (simp add: input_def)
    from BiHandleOption_spec [OF inv n this] show ?thesis
      by (simp add: lines_done_def r Setting)
  qed
qed

lemma run_lines_Cons:
  "run_lines k (ln # lns) vs = (case run_lines k [ln] vs of Inl n \<Rightarrow> Inl n | Inr vs \<Rightarrow> run_lines (k + 1) lns vs)"
  by (simp split: line.split)

lemma bind_crash_with [simp]: "bind_run (crash_with msg args) f = crash_with msg args"
  by (simp add: crash_with_def split: option.split)

lemma lines_done_bind:
  assumes r: "lines_done r (run_lines k [ln] vs) s rs buf"
    and f: "\<And>s' rs' fs' vs'. conf_inv s' rs' fs' buf vs' \<Longrightarrow> grows s rs s' rs' \<Longrightarrow> lines_done (f s') (run_lines (k + 1) lns vs') s' rs' buf"
  shows "lines_done (bind_run r f) (run_lines k (ln # lns) vs) s rs buf"
proof (cases "run_lines k [ln] vs")
  case (Inl n)
  then show ?thesis using r unfolding run_lines_Cons [of k ln lns] lines_done_def
    by auto
next
  case (Inr vs')
  from r have "r = crash ''out of memory'' \<or> (\<exists>s' rs' fs'. r = ret s' \<and> conf_inv s' rs' fs' buf vs' \<and> grows s rs s' rs')"
    unfolding Inr lines_done_def by simp
  then show ?thesis
  proof (elim disjE exE conjE)
    fix s' rs' fs' assume *: "r = ret s'" "conf_inv s' rs' fs' buf vs'" "grows s rs s' rs'"
    from lines_done_grows [OF f [OF *(2,3)] *(3)] show ?thesis using *(1) unfolding run_lines_Cons [of k ln lns] Inr by simp
  qed (simp add: lines_done_def)
qed

lemma config_lines_spec:
  "conf_inv s rs fs buf vs \<Longrightarrow> input s rs a cs
    \<Longrightarrow> lines_done (config_lines a (of_nat (length cs)) (of_nat k) s) (run_lines k (file_lines cs) vs) s rs buf"
proof (induction cs arbitrary: a k s rs fs vs rule: file_lines.induct)
  case 1
  then show ?case by (subst config_lines.simps) (auto simp: lines_done_def intro: grows_refl)
next
  case (2 c cs)
  define xs where "xs = c # cs"
  define w where "w = dropWhile BiIsWhitespace xs"
  define ln where "ln = takeWhile (\<lambda>c. c \<noteq> 10) w"
  define rest where "rest = tl (dropWhile (\<lambda>c. c \<noteq> 10) w)"
  define i where "i = length (takeWhile BiIsWhitespace xs)"
  note inp = 2(3) [folded xs_def]
  have len: "length xs < 2 ^ 32" and h: "holds (memory s) a xs" using inp by (auto simp: input_def)
  have split: "takeWhile BiIsWhitespace xs @ w = xs" unfolding w_def by (rule takeWhile_dropWhile_id)
  have lw: "i + length w = length xs" using arg_cong [OF split, of length] unfolding length_append i_def .
  have "holds (memory s) a (takeWhile BiIsWhitespace xs @ w)" using h by (simp only: split)
  then have hw: "holds (memory s) (a + of_nat i) w" unfolding holds_append i_def by (rule conjunct2)
  have w: "input s rs (a + of_nat i) w"
    by (rule input_sub [OF inp hw]) (use lw in simp)
  have lw32: "length w < 2 ^ 32" using lw len by linarith
  have pos0: "(0 :: u64) < of_nat (length xs)"
    using len unfolding xs_def by (simp add: word_less_nat_alt unat_word_ariths unat_of_nat take_bit_eq_mod)
  have lle: "length ln \<le> length w" unfolding ln_def by (rule length_takeWhile_le)
  have "holds (memory s) (a + of_nat i) (ln @ dropWhile (\<lambda>c. c \<noteq> 10) w)" using hw unfolding ln_def takeWhile_dropWhile_id .
  then have "holds (memory s) (a + of_nat i + of_nat 0) ln" unfolding holds_append by simp
  from input_sub [OF w this] lle have ln: "input s rs (a + of_nat i) ln" by simp
  have scan: "scan_line (memory s) (a + of_nat i) (of_nat (length w)) (- 1) (- 1) 0
      = Some (pos (ch (CHR '':'')) ln, pos (ch (CHR ''#'')) ln, of_nat (length ln))"
    using scan_line_list [OF hw lw32, of "[]" ln] unfolding ln_def [symmetric] by (simp add: pos_def)
  from next_line [OF hw lw32 ln_def, folded rest_def]
  obtain j where j: "(if ucast (of_nat (length ln) :: u32) < (of_nat (length w) :: u64) then of_nat (length ln) + 1 else of_nat (length ln)) = (of_nat j :: u32)"
    "of_nat (length w) - ucast (of_nat j :: u32) = (of_nat (length rest) :: u64)"
    "holds (memory s) (a + of_nat i + of_nat j) rest" "j + length rest = length w"
    by (elim exE conjE) simp
  have rest: "input s rs (a + of_nat i + of_nat j) rest"
    by (rule input_sub [OF w j(3)]) (use j(4) in simp)
  note skip = skip_whitespace_list [OF h len, folded i_def w_def]
  have run: "config_lines a (of_nat (length xs)) (of_nat k) s =
     bind_run (config_line (a + of_nat i) (pos (ch (CHR '':'')) ln) (pos (ch (CHR ''#'')) ln) (of_nat (length ln)) (of_nat k) s)
       (config_lines (a + of_nat i + of_nat j) (of_nat (length rest)) (of_nat (k + 1)))"
    apply (subst config_lines.simps)
    apply (simp only: pos0 if_True skip Let_def prod.case scan Option.bind.simps j(1))
    apply (simp only: j(2) of_nat_add of_nat_1)
    done
  have lines: "file_lines xs = ln # file_lines rest" unfolding xs_def file_lines.simps Let_def ln_def rest_def w_def ..
  note IH = 2(1) [OF refl, folded xs_def, folded w_def, folded rest_def]
  show ?case unfolding xs_def [symmetric] run lines
    by (rule lines_done_bind [OF config_line_spec [OF 2(2) ln] IH [OF _ input_grows [OF rest]]])
qed

section \<open>The whole file\<close>

lemma BiValidateOptions_spec:
  assumes "table_ok (BiOptions s)" "list_all2 (opt_ok m L) (BiOptions s) vs"
  shows "BiValidateOptions s =
    (if vs ! 0 = None then crash_with ''BiValidateOptions: missing required option `%s`'' [Str (bytes ''KernelPath'')] else ret ())"
proof -
  obtain o0 o1 o2 o3 where o: "BiOptions s = [o0, o1, o2, o3]" and n: "OptName o0 = bytes ''KernelPath''"
    and r: "OptFlags o0 AND BI_REQUIRED = BI_REQUIRED" "OptFlags o1 AND BI_REQUIRED = 0" "OptFlags o2 AND BI_REQUIRED = 0" "OptFlags o3 AND BI_REQUIRED = 0"
    using assms(1) by (auto simp: table_ok_def BiOptions_init_def map_eq_Cons_conv)
  have split: "x AND (BI_REQUIRED OR BI_PROVIDED) = BI_REQUIRED \<longleftrightarrow> x AND BI_REQUIRED = BI_REQUIRED \<and> x AND BI_PROVIDED = 0" for x
  proof -
    let ?R = BI_REQUIRED let ?P = BI_PROVIDED
    have z: "?P AND ?R = 0" "?R AND ?P = 0" by (simp_all add: BI_REQUIRED_def BI_PROVIDED_def)
    have d: "x AND (?R OR ?P) = (x AND ?R) OR (x AND ?P)" by (rule bit.conj_disj_distrib)
    have "((x AND ?R) OR (x AND ?P)) AND ?R = x AND ?R" "((x AND ?R) OR (x AND ?P)) AND ?P = x AND ?P"
      by (simp_all add: bit.conj_disj_distrib2 and.assoc z)
    then show ?thesis unfolding d using z by (metis and.idem or.right_neutral)
  qed
  have p: "BI_PROVIDED \<noteq> 0" "(0 :: u32) \<noteq> BI_REQUIRED" by (simp_all add: BI_PROVIDED_def BI_REQUIRED_def)
  obtain v0 vs' where v: "vs = v0 # vs'" "opt_ok m L o0 v0" using assms(2) unfolding o by (auto simp: list_all2_Cons1)
  then have "OptFlags o0 AND BI_PROVIDED = 0 \<longleftrightarrow> v0 = None" using p by (auto simp: opt_ok_def split: option.splits)
  then show ?thesis using r p n by (simp add: BiValidateOptions_def o split v(1))
qed

text \<open>The settings in a file.\<close>

definition config_meaning :: "u8 list \<Rightarrow> nat + u8 list option list" where
  "config_meaning cs = run_lines 1 (file_lines cs) [None, None, None, None]"

text \<open>The table after loading: every value is a terminated string in a live range, or was never given.\<close>

definition config_loaded :: "'a config_scheme \<Rightarrow> block list \<Rightarrow> u8 list option list \<Rightarrow> 'a config_scheme \<Rightarrow> bool" where
  "config_loaded s rs vs s' \<longleftrightarrow> (\<exists>rs' fs'. heap_inv s' rs' fs' \<and> live rs \<subseteq> live rs' \<and> table_ok (BiOptions s')
     \<and> list_all2 (opt_ok (memory s') (live rs')) (BiOptions s') vs \<and> same_on (live_data rs \<union> - foot rs) (memory s) (memory s'))"

definition file_of :: "u8 list \<Rightarrow> u32 \<Rightarrow> 'a config_scheme \<Rightarrow> 'a config_scheme run" where
  "file_of cs buffer s = ret (s\<lparr>memory := store_bytes (memory s) buffer cs\<rparr>)"

lemma table_ok_init: "table_ok BiOptions_init" "list_all2 (opt_ok m L) BiOptions_init [None, None, None, None]"
  by (simp_all add: table_ok_def BiOptions_init_def opt_ok_def BI_REQUIRED_def BI_PROVIDED_def)

lemma after_lines:
  assumes "conf_inv s1 rs1 fs1 (p - 24, e) vs" "grows s0 rs0 s1 rs1" "live rs0 = insert (p - 24, e) (live rs)"
    "(p - 24, e) \<notin> live rs" "foot rs0 \<subseteq> foot rs" "same_on (live_data rs \<union> - foot rs) (memory s) (memory s0)"
  shows "if vs ! 0 = None then BiValidateOptions (BlFreeHeap p s1) = crash_with ''BiValidateOptions: missing required option `%s`'' [Str (bytes ''KernelPath'')]
    else BiValidateOptions (BlFreeHeap p s1) = ret () \<and> config_loaded s rs vs (BlFreeHeap p s1)"
proof -
  let ?K = "live_data rs \<union> - foot rs" let ?s = "BlFreeHeap p s1"
  from assms(1) have inv: "heap_inv s1 rs1 fs1" "(p - 24, e) \<in> live rs1" "table_ok (BiOptions s1)"
    "list_all2 (opt_ok (memory s1) (live rs1 - {(p - 24, e)})) (BiOptions s1) vs" by (auto simp: conf_inv_def)
  obtain rs2 fs2 where fr: "heap_inv ?s rs2 fs2" "live rs2 = live rs1 - {(p - 24, e)}" "data_kept rs1 s1 ?s"
    using BlFreeHeap_spec [OF inv(1,2)] by auto
  then have opts: "BiOptions ?s = BiOptions s1" by (simp add: data_kept_def heap_more_config)
  have frame: "same_on (data_of (live rs1 - {(p - 24, e)})) (memory s1) (memory ?s)"
    by (rule same_on_mono [of "live_data rs1 \<union> - foot rs1"])
      (use fr(3) data_of_mono [of "live rs1 - {(p - 24, e)}" "live rs1"] in \<open>auto simp: data_kept_def live_data_data_of\<close>)
  have tab: "list_all2 (opt_ok (memory ?s) (live rs2)) (BiOptions ?s) vs"
    unfolding opts by (rule list_all2_mono [OF inv(4)]) (rule opt_ok_frame [OF _ frame], simp_all add: fr(2))
  have ld: "live_data rs \<subseteq> live_data rs0" "live_data rs0 \<subseteq> live_data rs1"
    unfolding live_data_data_of using assms(2,3) by (auto simp: grows_def intro!: data_of_mono)
  have "foot rs1 \<subseteq> foot rs0" using assms(2) by (simp add: grows_def)
  have "same_on ?K (memory s0) (memory s1)"
    by (rule same_on_mono [of "live_data rs0 \<union> - foot rs0"]) (use assms(2,5) ld in \<open>auto simp: grows_def\<close>)
  moreover have "same_on ?K (memory s1) (memory ?s)"
    by (rule same_on_mono [of "live_data rs1 \<union> - foot rs1"]) (use fr(3) assms(5) ld \<open>foot rs1 \<subseteq> foot rs0\<close> in \<open>auto simp: data_kept_def\<close>)
  ultimately have "same_on ?K (memory s) (memory ?s)" using assms(6) by (blast intro: same_on_trans)
  moreover have "live rs \<subseteq> live rs2" unfolding fr(2) using assms(2,3,4) by (auto simp: grows_def)
  ultimately have "config_loaded s rs vs ?s"
    unfolding config_loaded_def using fr(1) tab inv(3) opts by auto
  then show ?thesis using BiValidateOptions_spec [OF _ tab] inv(3) opts by simp
qed



end
