(* ===== verification/Partition.thy ===== *)
theory Partition
  imports Config_Load
begin

text \<open>
  Reading from the disk, \<^verbatim>\<open>bootloader/partition.c\<close>: sixteen cached blocks of 4096 bytes, their
  descriptions on a list in order of use, and the bounds check of the root partition. The
  platform's \<open>BxReadFromDisk\<close> is a parameter of the operations, as are the addresses the linker gives the static
  arrays. (The search for the root partition is in \<open>Root_Partition\<close>.)
\<close>

section \<open>State\<close>

definition BL_SECTOR_SHIFT :: nat where "BL_SECTOR_SHIFT = 9"
definition BL_SECTOR_MASK :: "'a::len word" where "BL_SECTOR_MASK = 2 ^ BL_SECTOR_SHIFT - 1"
definition BI_BCACHE_SHIFT :: nat where "BI_BCACHE_SHIFT = 12"
definition BI_BCACHE_SIZE :: u32 where "BI_BCACHE_SIZE = 2 ^ BI_BCACHE_SHIFT"
definition BI_BCACHE_MASK :: u64 where "BI_BCACHE_MASK = ucast BI_BCACHE_SIZE - 1"
definition BL_BCACHE_COUNT :: u32 where "BL_BCACHE_COUNT = 16"

lemmas cache_consts = BL_SECTOR_SHIFT_def BL_SECTOR_MASK_def BI_BCACHE_SHIFT_def BI_BCACHE_SIZE_def BI_BCACHE_MASK_def
  BL_BCACHE_COUNT_def

record BlPartition =
  Start :: u64
  PartSize :: u64

record disk = config +
  BiBCacheUsed :: u32
  BiBCache :: BlList
  BlRootPartition :: BlPartition

text \<open>The addresses of the static arrays; a \<open>struct BiBCacheMeta\<close> has its \<open>Node\<close> at 0, \<open>Block\<close> at 8, \<open>Data\<close> at 16.\<close>

record statics =
  BiBCacheMeta :: u32
  BiBCacheData :: u32

definition meta :: "'b statics_scheme \<Rightarrow> u32 \<Rightarrow> u32" where "meta L i = BiBCacheMeta L + 24 * i"
definition slot :: "'b statics_scheme \<Rightarrow> u32 \<Rightarrow> u32" where "slot L i = BiBCacheData L + BI_BCACHE_SIZE * i"

definition EntryBlock :: "mem \<Rightarrow> u32 \<Rightarrow> u64" where "EntryBlock m e = load64 m (e + 8)"
definition EntryData :: "mem \<Rightarrow> u32 \<Rightarrow> u32" where "EntryData m e = load32 m (e + 16)"
definition EntryNext :: "mem \<Rightarrow> u32 \<Rightarrow> u32" where "EntryNext m e = BL_CONTAINER 0 (NodeNext m e)"

type_synonym disk_read = "u32 \<Rightarrow> u64 \<Rightarrow> u32 \<Rightarrow> mem \<Rightarrow> (bool \<times> mem) run"

definition cache_remove :: "u32 \<Rightarrow> 'a disk_scheme \<Rightarrow> 'a disk_scheme" where
  "cache_remove node s = (let (l, m) = BlListRemove (BiBCache s) node (memory s) in s\<lparr>memory := m, BiBCache := l\<rparr>)"

definition cache_insert :: "u32 \<Rightarrow> u32 \<Rightarrow> 'a disk_scheme \<Rightarrow> 'a disk_scheme" where
  "cache_insert anchor node s =
     (let (l, m) = BlListInsertAfter (BiBCache s) anchor node (memory s) in s\<lparr>memory := m, BiBCache := l\<rparr>)"

section \<open>The block cache\<close>

partial_function (option) find_entry :: "mem \<Rightarrow> u64 \<Rightarrow> u32 \<Rightarrow> u32 option" where
  "find_entry m block entry =
     (if entry = 0 then Some 0
      else if EntryBlock m entry = block then Some entry
      else find_entry m block (EntryNext m entry))"

text \<open>The entry that takes a new block: the next one never used, or the one used longest ago.\<close>

definition take_entry :: "'b statics_scheme \<Rightarrow> 'a disk_scheme \<Rightarrow> u32 \<times> 'a disk_scheme" where
  "take_entry L s =
     (if BiBCacheUsed s < BL_BCACHE_COUNT then
        let entry = meta L (BiBCacheUsed s);
            m = store32 (memory s) (entry + 16) (slot L (BiBCacheUsed s))
        in (entry, s\<lparr>memory := m, BiBCacheUsed := BiBCacheUsed s + 1\<rparr>)
      else let entry = BL_CONTAINER 0 (Tail (BiBCache s)) in (entry, cache_remove entry s))"

definition BiGetBCacheEntry ::
    "'b statics_scheme \<Rightarrow> disk_read \<Rightarrow> u64 \<Rightarrow> 'a disk_scheme \<Rightarrow> (u32 \<times> 'a disk_scheme) run" where
  "BiGetBCacheEntry L read block s =
     Option.bind (find_entry (memory s) block (BL_CONTAINER 0 (Head (BiBCache s)))) (\<lambda>entry.
       if entry \<noteq> 0 then
         let s = cache_insert 0 entry (cache_remove entry s) in ret (EntryData (memory s) entry, s)
       else
         let (entry, s) = take_entry L s in
         bind_run (read (EntryData (memory s) entry) (push_bit (BI_BCACHE_SHIFT - BL_SECTOR_SHIFT) block)
             (push_bit (BI_BCACHE_SHIFT - BL_SECTOR_SHIFT) 1) (memory s)) (\<lambda>(ok, m).
           if \<not> ok then crash ''failed to read from disk''
           else
             let s = cache_insert 0 entry (s\<lparr>memory := store64 m (entry + 8) block\<rparr>)
             in ret (EntryData (memory s) entry, s)))"

partial_function (option) read_cached ::
    "'b statics_scheme \<Rightarrow> disk_read \<Rightarrow> u32 \<Rightarrow> u64 \<Rightarrow> u32 \<Rightarrow> 'a disk_scheme \<Rightarrow> 'a disk_scheme run" where
  "read_cached L read buffer position count s =
     (if count \<noteq> 0 then
        let block = drop_bit BI_BCACHE_SHIFT position;
            offset = ucast (position AND BI_BCACHE_MASK);
            current = BL_MIN (BI_BCACHE_SIZE - offset) count
        in bind_run (BiGetBCacheEntry L read block s) (\<lambda>(data, s).
             read_cached L read (buffer + current) (position + ucast current) (count - current)
               (s\<lparr>memory := BlCopyMemory (memory s) buffer (data + offset) current\<rparr>))
      else ret s)"

definition BiReadFromDisk ::
    "'b statics_scheme \<Rightarrow> disk_read \<Rightarrow> u32 \<Rightarrow> u64 \<Rightarrow> u32 \<Rightarrow> bool \<Rightarrow> 'a disk_scheme \<Rightarrow> 'a disk_scheme run" where
  "BiReadFromDisk L read buffer position count bypassCache s =
     (if bypassCache then
        if position AND BL_SECTOR_MASK \<noteq> 0 then crash ''BiReadFromDisk: unaligned position''
        else if count AND BL_SECTOR_MASK \<noteq> 0 then crash ''BiReadFromDisk: unaligned size''
        else bind_run (read buffer (drop_bit BL_SECTOR_SHIFT position) (drop_bit BL_SECTOR_SHIFT count) (memory s)) (\<lambda>(ok, m).
          if \<not> ok then crash ''failed to read from disk'' else ret (s\<lparr>memory := m\<rparr>))
      else read_cached L read buffer position count s)"

definition BlReadFromPartition ::
    "'b statics_scheme \<Rightarrow> disk_read \<Rightarrow> u32 \<Rightarrow> u64 \<Rightarrow> u32 \<Rightarrow> bool \<Rightarrow> 'a disk_scheme \<Rightarrow> 'a disk_scheme run" where
  "BlReadFromPartition L read buffer position count bypassCache s =
     (let end = position + ucast count
      in if end < position \<or> end > PartSize (BlRootPartition s) then crash ''tried to read beyond partition bounds''
         else BiReadFromDisk L read buffer (Start (BlRootPartition s) + position) count bypassCache s)"

definition BlRootPartitionSize :: "'a disk_scheme \<Rightarrow> u64" where
  "BlRootPartitionSize s = PartSize (BlRootPartition s)"

end
