(* ===== verification/Disk_Cache.thy ===== *)
theory Disk_Cache
  imports Partition
begin

text \<open>
  The block cache against its contract: a cached block always holds the bytes of the disk, and the
  order of the list is the order of use. The locale \<open>boot_disk\<close> is the interface to the platform: what
  \<^verbatim>\<open>platform.h\<close> promises of \<open>BxReadFromDisk\<close>.
\<close>

section \<open>The interface to the platform\<close>

definition disk_bytes :: "(nat \<Rightarrow> u8) \<Rightarrow> nat \<Rightarrow> nat \<Rightarrow> u8 list" where
  "disk_bytes disk p n = map disk [p..<p + n]"

lemma length_disk_bytes [simp]: "length (disk_bytes disk p n) = n"
  by (simp add: disk_bytes_def)

lemma nth_disk_bytes [simp]: "i < n \<Longrightarrow> disk_bytes disk p n ! i = disk (p + i)"
  by (simp add: disk_bytes_def)

lemma disk_bytes_add: "disk_bytes disk p (n + k) = disk_bytes disk p n @ disk_bytes disk (p + n) k"
  unfolding disk_bytes_def add.assoc [symmetric] map_append [symmetric] by (subst upt_add_eq_append) simp_all

text \<open>
  The bytes of the disk, its number of sectors and the requests that fail. A request that does not fail fills the buffer
  from \<open>sector\<close> up to \<open>sector + count\<close> or the end of the disk.
\<close>

locale boot_disk =
  fixes read :: disk_read and disk :: "nat \<Rightarrow> u8" and sectors :: u32 and fails :: "u64 \<Rightarrow> u32 \<Rightarrow> bool"
  assumes read_done: "\<not> fails sector count \<Longrightarrow> buffer AND BL_SECTOR_MASK = 0 \<Longrightarrow> unat sector \<le> unat sectors \<Longrightarrow>
      fits buffer (512 * unat count) \<Longrightarrow> read buffer sector count m =
        ret (True, store_bytes m buffer (disk_bytes disk (512 * unat sector) (512 * min (unat count) (unat sectors - unat sector))))"
    and read_failed: "fails sector count \<Longrightarrow> buffer AND BL_SECTOR_MASK = 0 \<Longrightarrow> \<exists>m'. read buffer sector count m = ret (False, m')"

section \<open>The static arrays\<close>

definition layout_ok :: "'b statics_scheme \<Rightarrow> bool" where
  "layout_ok L \<longleftrightarrow> BiBCacheMeta L \<noteq> 0 \<and> fits (BiBCacheMeta L) 384 \<and> fits (BiBCacheData L) 65536
     \<and> BiBCacheData L AND BL_SECTOR_MASK = 0 \<and> span (BiBCacheMeta L) 384 \<inter> span (BiBCacheData L) 65536 = {}"

definition cache_span :: "'b statics_scheme \<Rightarrow> u32 set" where
  "cache_span L = span (BiBCacheMeta L) 384 \<union> span (BiBCacheData L) 65536"

abbreviation mt :: "'b statics_scheme \<Rightarrow> nat \<Rightarrow> u32" where "mt L i \<equiv> meta L (of_nat i)"
abbreviation sl :: "'b statics_scheme \<Rightarrow> nat \<Rightarrow> u32" where "sl L i \<equiv> slot L (of_nat i)"
abbreviation metas :: "'b statics_scheme \<Rightarrow> u32 set" where "metas L \<equiv> mt L ` {..<16}"

lemma mt_off: "mt L i = BiBCacheMeta L + of_nat (24 * i)"
  by (simp add: meta_def)

lemma sl_off: "sl L i = BiBCacheData L + of_nat (4096 * i)"
  by (simp add: slot_def cache_consts)

lemma unat_off: "fits a n \<Longrightarrow> i < n \<Longrightarrow> unat (a + of_nat i) = unat a + i"
  by (simp add: fits_def unat_word_ariths unat_of_nat take_bit_eq_mod mod_simps)

lemma mt_span: "i < 16 \<Longrightarrow> span (mt L i) 24 \<subseteq> span (BiBCacheMeta L) 384"
  unfolding mt_off by (rule span_sub) simp_all

lemma sl_span: "i < 16 \<Longrightarrow> span (sl L i) 4096 \<subseteq> span (BiBCacheData L) 65536"
  unfolding sl_off by (rule span_sub) simp_all

lemma sl_apart: "i < 16 \<Longrightarrow> j < 16 \<Longrightarrow> i \<noteq> j \<Longrightarrow> span (sl L i) 4096 \<inter> span (sl L j) 4096 = {}"
  unfolding sl_off using span_disjoint_off [of "4096 * i" 4096 "4096 * j" 4096] span_disjoint_off [of "4096 * j" 4096 "4096 * i" 4096]
  by (cases "i < j") auto

lemma sl_ok:
  assumes "layout_ok L" "i < 16"
  shows "fits (sl L i) 4096" "sl L i AND BL_SECTOR_MASK = 0"
proof -
  have f: "fits (BiBCacheData L) 65536" and a: "BiBCacheData L AND BL_SECTOR_MASK = 0" using assms(1) by (auto simp: layout_ok_def)
  show "fits (sl L i) 4096" unfolding sl_off by (rule fits_sub [OF f]) (use assms(2) in simp)
  have u: "unat (sl L i) = unat (BiBCacheData L) + 4096 * i" unfolding sl_off by (rule unat_off [OF f]) (use assms(2) in simp)
  have dvd: "x AND BL_SECTOR_MASK = 0 \<longleftrightarrow> 512 dvd unat x" for x :: u32
  proof -
    have "x AND BL_SECTOR_MASK = take_bit 9 x" by (simp add: cache_consts take_bit_eq_mask mask_eq_exp_minus_1)
    moreover have "unat (take_bit 9 x) = unat x mod 512" by (simp only: unsigned_take_bit_eq) (simp add: take_bit_eq_mod)
    ultimately have "unat (x AND BL_SECTOR_MASK) = unat x mod 512" by simp
    then show ?thesis by (metis dvd_eq_mod_eq_0 unat_eq_0)
  qed
  have "512 dvd 4096 * i" by (rule dvd_mult2) simp
  then show "sl L i AND BL_SECTOR_MASK = 0" using a unfolding dvd u by simp
qed

lemma metas_ok:
  assumes "layout_ok L"
  shows "headers_ok (metas L)" "inj_on (mt L) {..<16}"
proof -
  have f: "fits (BiBCacheMeta L) 384" and z: "BiBCacheMeta L \<noteq> 0" using assms by (auto simp: layout_ok_def)
  have u: "unat (mt L i) = unat (BiBCacheMeta L) + 24 * i" if "i < 16" for i
    unfolding mt_off by (rule unat_off [OF f]) (use that in simp)
  show "inj_on (mt L) {..<16}" by (rule inj_onI) (use u in \<open>metis add_left_cancel lessThan_iff mult_cancel1 zero_neq_numeral\<close>)
  have 1: "mt L i \<noteq> 0" if "i < 16" for i using u [OF that] z by (auto simp: unat_eq_0)
  have 2: "fits (mt L i) 24" if "i < 16" for i unfolding mt_off by (rule fits_sub [OF f]) (use that in simp)
  have 3: "span (mt L i) 24 \<inter> span (mt L j) 24 = {}" if "i < 16" "j < 16" "mt L i \<noteq> mt L j" for i j
    unfolding mt_off using that span_disjoint_off [of "24 * i" 24 "24 * j" 24] span_disjoint_off [of "24 * j" 24 "24 * i" 24]
    by (cases i j rule: linorder_cases) auto
  show "headers_ok (metas L)"
    unfolding headers_ok_def
  proof (intro conjI ballI impI)
    fix a b assume "a \<in> metas L" "b \<in> metas L" "a \<noteq> b"
    then show "span a 24 \<inter> span b 24 = {}" by (elim imageE) (simp add: 3)
  qed (use 1 2 in auto)
qed

text \<open>What the list operations write leaves the other fields and the data alone.\<close>

lemma nodes_elsewhere:
  assumes L: "layout_ok L" and N: "N \<subseteq> metas L" and i: "i < 16" and m: "same_outside (node_span N) m m'"
  shows "same_on (span (mt L i + 8) 12) m m'" "same_on (span (sl L i) 4096) m m'" "same_outside (cache_span L) m m'"
proof -
  have "span n 8 \<inter> span (mt L i + 8) 12 = {}" if "n \<in> N" for n
    using header_pieces [OF metas_ok(1) [OF L], of n "mt L i" 0 8 8 12] that N i by auto
  then have "node_span N \<inter> span (mt L i + 8) 12 = {}" by (auto simp: node_span_def)
  with m show "same_on (span (mt L i + 8) 12) m m'" by (rule same_outside_on)
  have sub: "node_span N \<subseteq> span (BiBCacheMeta L) 384"
  proof
    fix x assume "x \<in> node_span N"
    then obtain k where "k < 16" "x \<in> span (mt L k) 8" using N by (auto simp: node_span_def)
    then show "x \<in> span (BiBCacheMeta L) 384" using mt_span [of k L] span_mono [of 8 24 "mt L k"] by auto
  qed
  then have "node_span N \<inter> span (sl L i) 4096 = {}" using sl_span [OF i, of L] L by (auto simp: layout_ok_def)
  with m show "same_on (span (sl L i) 4096) m m'" by (rule same_outside_on)
  show "same_outside (cache_span L) m m'" by (rule same_outside_mono [OF m]) (use sub in \<open>auto simp: cache_span_def\<close>)
qed

section \<open>The invariant\<close>

definition slot_ok :: "(nat \<Rightarrow> u8) \<Rightarrow> u32 \<Rightarrow> mem \<Rightarrow> u32 \<Rightarrow> u64 \<Rightarrow> bool" where
  "slot_ok disk n m p block \<longleftrightarrow>
     (\<forall>j < 4096. 4096 * unat block + j < 512 * unat n \<longrightarrow> m (p + of_nat j) = disk (4096 * unat block + j))"

abbreviation block_of :: "'b statics_scheme \<Rightarrow> mem \<Rightarrow> nat \<Rightarrow> u64" where "block_of L m i \<equiv> EntryBlock m (mt L i)"

definition entry_ok :: "'b statics_scheme \<Rightarrow> (nat \<Rightarrow> u8) \<Rightarrow> u32 \<Rightarrow> mem \<Rightarrow> nat \<Rightarrow> bool" where
  "entry_ok L disk n m i \<longleftrightarrow> EntryData m (mt L i) = sl L i \<and> slot_ok disk n m (sl L i) (block_of L m i)"

text \<open>\<open>is\<close>: the used entries, the one used last in front.\<close>

definition cache_inv :: "'b statics_scheme \<Rightarrow> (nat \<Rightarrow> u8) \<Rightarrow> u32 \<Rightarrow> 'a disk_scheme \<Rightarrow> nat list \<Rightarrow> bool" where
  "cache_inv L disk n s is \<longleftrightarrow> list_rep (memory s) (BiBCache s) (map (mt L) is)
     \<and> BiBCacheUsed s = of_nat (length is) \<and> length is \<le> 16 \<and> set is = {..<length is}
     \<and> (\<forall>i\<in>set is. entry_ok L disk n (memory s) i) \<and> distinct (map (block_of L (memory s)) is)"

text \<open>The cached blocks in order of use, and what looking one up makes of them.\<close>

definition cached :: "'b statics_scheme \<Rightarrow> 'a disk_scheme \<Rightarrow> nat list \<Rightarrow> u64 list" where
  "cached L s is = map (block_of L (memory s)) is"

definition lru :: "u64 \<Rightarrow> u64 list \<Rightarrow> u64 list" where
  "lru b bs = b # (if b \<in> set bs then remove1 b bs else if length bs < 16 then bs else butlast bs)"

lemma entry_fields_same:
  assumes "same_on (span (mt L i + 8) 12) m m'"
  shows "block_of L m' i = block_of L m i" "EntryData m' (mt L i) = EntryData m (mt L i)"
proof -
  have "span (mt L i + 8) 8 \<subseteq> span (mt L i + 8) 12" "span (mt L i + 8 + 8) 4 \<subseteq> span (mt L i + 8) 12"
    using span_sub [of 8 4 12 "mt L i + 8"] by (simp_all add: span_mono)
  then show "block_of L m' i = block_of L m i" "EntryData m' (mt L i) = EntryData m (mt L i)"
    using assms unfolding EntryBlock_def EntryData_def
    by (auto intro!: load64_same_on load32_same_on intro: same_on_mono simp: add.assoc)
qed

lemma slot_ok_same: "slot_ok disk n m p b \<Longrightarrow> same_on (span p 4096) m m' \<Longrightarrow> slot_ok disk n m' p b"
  by (auto simp: slot_ok_def same_on_def span_off)

lemma entry_ok_same:
  "entry_ok L disk n m i \<Longrightarrow> same_on (span (mt L i + 8) 12) m m' \<Longrightarrow> same_on (span (sl L i) 4096) m m' \<Longrightarrow> entry_ok L disk n m' i"
  unfolding entry_ok_def using entry_fields_same [of L i m m'] slot_ok_same by metis

lemma find_entry_list:
  assumes "0 \<notin> set es" "links m p es 0"
  shows "find_entry m b (head_or es 0) = Some (case List.find (\<lambda>e. EntryBlock m e = b) es of None \<Rightarrow> 0 | Some e \<Rightarrow> e)"
  using assms
proof (induction es arbitrary: p)
  case Nil
  then show ?case by (subst find_entry.simps) simp
next
  case (Cons e es)
  then show ?case by (subst find_entry.simps) (auto simp: EntryNext_def BL_CONTAINER_def)
qed

text \<open>The cache depends on nothing outside its own arrays.\<close>

lemma cache_spans:
  assumes "i < 16"
  shows "span (mt L i) 8 \<subseteq> cache_span L" "span (mt L i + 8) 12 \<subseteq> cache_span L" "span (sl L i) 4096 \<subseteq> cache_span L"
  using mt_span [OF assms, of L] sl_span [OF assms, of L] span_mono [of 8 24 "mt L i"] span_sub [of 8 12 24 "mt L i"]
  by (auto simp: cache_span_def)

lemma meta_piece: "i < 16 \<Longrightarrow> a + k \<le> 24 \<Longrightarrow> span (mt L i + of_nat a) k \<subseteq> span (BiBCacheMeta L) 384"
  using span_sub [of a k 24 "mt L i"] mt_span [of i L] by simp

lemma meta_slot_apart: "layout_ok L \<Longrightarrow> i < 16 \<Longrightarrow> A \<subseteq> span (BiBCacheMeta L) 384 \<Longrightarrow> A \<inter> span (sl L i) 4096 = {}"
  using sl_span [of i L] unfolding layout_ok_def by blast

lemma meta_pieces_apart:
  "layout_ok L \<Longrightarrow> i < 16 \<Longrightarrow> j < 16 \<Longrightarrow> i \<noteq> j \<Longrightarrow> a + k \<le> 24 \<Longrightarrow> b + l \<le> 24 \<Longrightarrow>
    span (mt L i + of_nat a) k \<inter> span (mt L j + of_nat b) l = {}"
  by (rule header_pieces [OF metas_ok(1)]) (use inj_onD [OF metas_ok(2), of L i j] in auto)

lemma cache_inv_same:
  assumes "cache_inv L disk n s is" "same_on (cache_span L) (memory s) (memory s')"
    and "BiBCache s' = BiBCache s" "BiBCacheUsed s' = BiBCacheUsed s"
  shows "cache_inv L disk n s' is" "cached L s' is = cached L s is"
proof -
  have lt: "i < 16" if "i \<in> set is" for i using assms(1) that by (auto simp: cache_inv_def)
  have sp: "same_on (span (mt L i + 8) 12) (memory s) (memory s')" "same_on (span (sl L i) 4096) (memory s) (memory s')"
    "same_on (span (mt L i) 8) (memory s) (memory s')" if "i \<in> set is" for i
    using cache_spans [OF lt [OF that], of L] by (blast intro: same_on_mono [OF assms(2)])+
  have b: "map (block_of L (memory s')) is = map (block_of L (memory s)) is" using entry_fields_same(1) [OF sp(1)] by simp
  then show "cached L s' is = cached L s is" by (simp add: cached_def)
  have "same_on (node_span (set (map (mt L) is))) (memory s) (memory s')"
    using sp(3) by (auto simp: node_span_def same_on_def)
  then have "list_rep (memory s') (BiBCache s) (map (mt L) is)" using assms(1) by (auto simp: cache_inv_def intro: bl.rep_frame)
  moreover have "entry_ok L disk n (memory s') i" if "i \<in> set is" for i
    by (rule entry_ok_same [OF _ sp(1,2) [OF that]]) (use assms(1) that in \<open>unfold cache_inv_def, blast\<close>)
  ultimately show "cache_inv L disk n s' is" using assms(1,3,4) unfolding cache_inv_def b by metis
qed

section \<open>Looking up a block\<close>

text \<open>Nothing but the cache has changed.\<close>

definition besides_cache :: "'a disk_scheme \<Rightarrow> BlList \<times> BlList \<times> BiOption list \<times> u8 list \<times> BlPartition \<times> 'a" where
  "besides_cache s = (BlHeapRanges s, BlFreeRanges s, BiOptions s, console s, BlRootPartition s, disk.more s)"

definition cache_step :: "'b statics_scheme \<Rightarrow> 'a disk_scheme \<Rightarrow> 'a disk_scheme \<Rightarrow> bool" where
  "cache_step L s s' \<longleftrightarrow> same_outside (cache_span L) (memory s) (memory s')
     \<and> besides_cache s' = besides_cache s"

lemma cache_step_trans: "cache_step L s s' \<Longrightarrow> cache_step L s' s'' \<Longrightarrow> cache_step L s s''"
  unfolding cache_step_def by (auto intro: same_on_trans)

lemma map_mt_eq:
  assumes "layout_ok L" "i < 16" "set is \<subseteq> {..<16}"
  shows "mt L i \<in> set (map (mt L) is) \<longleftrightarrow> i \<in> set is" "remove1 (mt L i) (map (mt L) is) = map (mt L) (remove1 i is)"
proof -
  have inj: "inj_on (mt L) {..<16}" by (rule metas_ok(2) [OF assms(1)])
  show "mt L i \<in> set (map (mt L) is) \<longleftrightarrow> i \<in> set is"
    using inj_on_image_mem_iff [OF inj, of i "set is"] assms(2,3) by simp
  show "remove1 (mt L i) (map (mt L) is) = map (mt L) (remove1 i is)"
    using assms(3)
  proof (induction "is")
    case (Cons j js)
    then have "mt L i = mt L j \<longleftrightarrow> i = j" using inj_onD [OF inj] assms(2) by auto
    then show ?case using Cons by auto
  qed simp
qed

lemma BL_CONTAINER_0 [simp]: "BL_CONTAINER 0 x = x"
  by (simp add: BL_CONTAINER_def)

lemma addable_meta:
  assumes "layout_ok L" "i < 16" "set is \<subseteq> {..<16}" "i \<notin> set is"
  shows "addable (mt L i) (map (mt L) is)"
proof -
  note H = metas_ok(1) [OF assms(1)]
  have "nodes_apart (insert (mt L i) (mt L ` set is))"
    by (rule nodes_apart_mono [OF nodes_apart_headers(1) [OF H]]) (use assms(2,3) in blast)
  then show ?thesis using map_mt_eq(1) [OF assms(1-3)] assms(4) by (simp add: addable_def)
qed

text \<open>A block that is cached moves to the front.\<close>

lemma cache_hit:
  assumes L: "layout_ok L" and inv: "cache_inv L disk n s is" and i: "i \<in> set is"
  defines "s' \<equiv> cache_insert 0 (mt L i) (cache_remove (mt L i) s)"
  shows "cache_inv L disk n s' (i # remove1 i is)" "cache_step L s s'" "\<And>j. j < 16 \<Longrightarrow> block_of L (memory s') j = block_of L (memory s) j"
    "EntryData (memory s') (mt L i) = sl L i"
proof -
  have idx: "set is \<subseteq> {..<16}" "i < 16" using inv i by (auto simp: cache_inv_def)
  have d: "distinct is" and len: "set is = {..<length is}" "length is \<le> 16" "BiBCacheUsed s = of_nat (length is)"
    using inv card_distinct [of "is"] by (auto simp: cache_inv_def)
  obtain l1 m1 where 1: "BlListRemove (BiBCache s) (mt L i) (memory s) = (l1, m1)" by fastforce
  obtain l2 m2 where 2: "BlListInsertAfter l1 0 (mt L i) m1 = (l2, m2)" by fastforce
  have s': "s' = s\<lparr>memory := m2, BiBCache := l2\<rparr>" by (simp add: s'_def cache_insert_def cache_remove_def 1 2)
  have rep: "list_rep (memory s) (BiBCache s) (map (mt L) is)" using inv by (simp add: cache_inv_def)
  have "mt L i \<in> set (map (mt L) is)" using i by simp
  from bl.move_to_front [OF rep this 1 2]
  have new: "list_rep m2 l2 (map (mt L) (i # remove1 i is))" and out: "same_outside (node_span (mt L ` set is)) (memory s) m2"
    unfolding map_mt_eq(2) [OF L idx(2,1)] by auto
  have N: "mt L ` set is \<subseteq> metas L" using idx(1) by blast
  note E = nodes_elsewhere [OF L N _ out]
  have b: "block_of L m2 j = block_of L (memory s) j" if "j < 16" for j using entry_fields_same(1) [OF E(1) [OF that]] .
  then show "\<And>j. j < 16 \<Longrightarrow> block_of L (memory s') j = block_of L (memory s) j" by (simp add: s')
  have ok: "entry_ok L disk n m2 j" if "j \<in> set is" for j
  proof -
    from that idx(1) have "j < 16" by auto
    then show ?thesis using entry_ok_same [OF _ E(1,2)] inv that unfolding cache_inv_def by blast
  qed
  then show "EntryData (memory s') (mt L i) = sl L i" using i by (simp add: s' entry_ok_def)
  show "cache_step L s s'" using E(3) [of 0] by (simp add: s' cache_step_def besides_cache_def)
  have set': "set (i # remove1 i is) = set is" using d i by auto
  have len': "length (i # remove1 i is) = length is" using i length_pos_if_in_set [OF i] by (simp add: length_remove1)
  have "distinct (map (block_of L m2) (i # remove1 i is))"
  proof -
    have "distinct (map (block_of L (memory s)) is)" using inv by (simp add: cache_inv_def)
    then have "inj_on (block_of L m2) (set is)" using idx(1) b by (auto simp: distinct_map inj_on_def subset_iff)
    then show ?thesis using d set' by (metis distinct_map distinct_remove1 distinct.simps(2) set_remove1_eq DiffE insertI1)
  qed
  then show "cache_inv L disk n s' (i # remove1 i is)"
    unfolding cache_inv_def set' len' using new len ok by (simp add: s')
qed

text \<open>
  Between taking an entry and giving it its block: entry \<open>i\<close> is off the list, the entries \<open>is\<close> on it.
\<close>

definition cache_gap :: "'b statics_scheme \<Rightarrow> (nat \<Rightarrow> u8) \<Rightarrow> u32 \<Rightarrow> 'a disk_scheme \<Rightarrow> nat \<Rightarrow> nat list \<Rightarrow> bool" where
  "cache_gap L disk n s i is \<longleftrightarrow> list_rep (memory s) (BiBCache s) (map (mt L) is)
     \<and> BiBCacheUsed s = of_nat (length (i # is)) \<and> length (i # is) \<le> 16 \<and> distinct (i # is) \<and> set (i # is) = {..<length (i # is)}
     \<and> EntryData (memory s) (mt L i) = sl L i
     \<and> (\<forall>j\<in>set is. entry_ok L disk n (memory s) j) \<and> distinct (map (block_of L (memory s)) is)"

lemma take_entry_gap:
  assumes L: "layout_ok L" and inv: "cache_inv L disk n s is"
  shows "\<exists>i s'. take_entry L s = (mt L i, s') \<and> cache_gap L disk n s' i (if length is < 16 then is else butlast is)
    \<and> cache_step L s s' \<and> (\<forall>j\<in>set is. block_of L (memory s') j = block_of L (memory s) j)"
proof -
  have idx: "set is \<subseteq> {..<16}" and rep: "list_rep (memory s) (BiBCache s) (map (mt L) is)"
    and len: "set is = {..<length is}" "length is \<le> 16" "BiBCacheUsed s = of_nat (length is)" and d: "distinct is"
    and ok: "\<forall>j\<in>set is. entry_ok L disk n (memory s) j" and db: "distinct (map (block_of L (memory s)) is)"
    using inv card_distinct [of "is"] by (auto simp: cache_inv_def)
  have N: "mt L ` set is \<subseteq> metas L" using idx by blast
  show ?thesis
  proof (cases "length is < 16")
    case True
    let ?k = "length is"
    let ?m = "store32 (memory s) (mt L ?k + 16) (sl L ?k)" let ?s = "s\<lparr>memory := ?m, BiBCacheUsed := of_nat (Suc ?k)\<rparr>"
    have out: "same_outside (span (mt L ?k + 16) 4) (memory s) ?m" by (rule store32_same_outside)
    have "BiBCacheUsed s < BL_BCACHE_COUNT"
      unfolding len(3) BL_BCACHE_COUNT_def using of_nat_less32 [of ?k 16] True by simp
    then have run: "take_entry L s = (mt L ?k, ?s)"
      by (simp add: take_entry_def len(3) Let_def add.commute)
    have P: "same_on (span (mt L j + 8) 12) (memory s) ?m" "same_on (span (sl L j) 4096) (memory s) ?m" "same_on (span (mt L j) 8) (memory s) ?m"
      if "j \<in> set is" for j
    proof -
      have j: "j < 16" "?k \<noteq> j" using that idx len(1) by auto
      note Q = meta_pieces_apart [OF L True j]
      have 1: "span (mt L ?k + 16) 4 \<inter> span (mt L j + 8) 12 = {}" "span (mt L ?k + 16) 4 \<inter> span (mt L j) 8 = {}"
        using Q [of 16 4 8 12] Q [of 16 4 0 8] by simp_all
      have 2: "span (mt L ?k + 16) 4 \<inter> span (sl L j) 4096 = {}"
        using meta_slot_apart [OF L j(1) meta_piece [OF True, of 16 4]] by simp
      from same_outside_on [OF out 1(1)] same_outside_on [OF out 2] same_outside_on [OF out 1(2)]
      show "same_on (span (mt L j + 8) 12) (memory s) ?m" "same_on (span (sl L j) 4096) (memory s) ?m" "same_on (span (mt L j) 8) (memory s) ?m" .
    qed
    have rep': "list_rep ?m (BiBCache s) (map (mt L) is)"
      by (rule bl.rep_frame [OF rep]) (use P(3) in \<open>auto simp: node_span_def same_on_def\<close>)
    have ok': "\<forall>j\<in>set is. entry_ok L disk n ?m j" using entry_ok_same [OF _ P(1,2)] ok by blast
    have b: "\<forall>j\<in>set is. block_of L ?m j = block_of L (memory s) j" using entry_fields_same(1) [OF P(1)] by blast
    have "map (block_of L ?m) is = map (block_of L (memory s)) is" using entry_fields_same(1) [OF P(1)] by simp
    then have db': "distinct (map (block_of L ?m) is)" using db by (simp only:)
    moreover have "EntryData ?m (mt L ?k) = sl L ?k" by (simp add: EntryData_def)
    moreover have "set (?k # is) = {..<length (?k # is)}" "?k \<notin> set is" by (simp_all add: len(1) lessThan_Suc)
    ultimately have "cache_gap L disk n ?s ?k is" using d db' ok' rep' True unfolding cache_gap_def by simp
    moreover have "span (mt L ?k + 16) 4 \<subseteq> cache_span L"
      using meta_piece [OF True, of 16 4 L] by (auto simp: cache_span_def)
    then have "cache_step L s ?s" using same_outside_mono [OF out] by (simp add: cache_step_def besides_cache_def)
    ultimately show ?thesis using run b True by auto
  next
    case False
    then have len16: "length is = 16" using len(2) by simp
    then obtain js i where ji: "is = js @ [i]" by (cases "is" rule: rev_cases) auto
    have i: "i < 16" "i \<notin> set js" "set js \<subseteq> {..<16}" using idx d unfolding ji by auto
    obtain l1 m1 where 1: "BlListRemove (BiBCache s) (mt L i) (memory s) = (l1, m1)" by fastforce
    have tail: "Tail (BiBCache s) = mt L i" using rep by (simp add: list_rep_def ji)
    have run: "take_entry L s = (mt L i, s\<lparr>memory := m1, BiBCache := l1\<rparr>)"
      by (simp add: take_entry_def len(3) len16 cache_consts tail cache_remove_def 1 Let_def)
    have "mt L i \<in> set (map (mt L) is)" by (simp add: ji)
    from bl.remove_law [OF rep this 1]
    have new: "list_rep m1 l1 (map (mt L) js)" and out: "same_outside (node_span (mt L ` set is)) (memory s) m1"
      using i(2) unfolding map_mt_eq(2) [OF L i(1) idx] by (simp_all add: ji remove1_append)
    note E = nodes_elsewhere [OF L N _ out]
    have b: "block_of L m1 j = block_of L (memory s) j" if "j < 16" for j using entry_fields_same(1) [OF E(1) [OF that]] .
    have ok': "entry_ok L disk n m1 j" if "j \<in> set is" for j
    proof -
      from that idx have "j < 16" by auto
      then show ?thesis using entry_ok_same [OF _ E(1,2)] ok that by blast
    qed
    have "map (block_of L m1) js = map (block_of L (memory s)) js" using b i(3) by (intro map_cong) auto
    then have "distinct (map (block_of L m1) js)" using db by (simp only: ji) simp
    moreover have "EntryData m1 (mt L i) = sl L i" using ok' [of i] by (simp add: ji entry_ok_def)
    moreover have "\<forall>j\<in>set js. entry_ok L disk n m1 j" using ok' by (simp add: ji)
    moreover have "set (i # js) = {..<length (i # js)}" using len(1) by (simp add: ji)
    ultimately have "cache_gap L disk n (s\<lparr>memory := m1, BiBCache := l1\<rparr>) i js"
      unfolding cache_gap_def using new d len(2,3) by (intro conjI) (simp_all add: ji)
    moreover have "cache_step L s (s\<lparr>memory := m1, BiBCache := l1\<rparr>)" using E(3) [of 0] by (simp add: cache_step_def besides_cache_def)
    ultimately show ?thesis using run b idx False by (auto simp: ji)
  qed
qed

lemma cache_fill:
  assumes L: "layout_ok L" and gap: "cache_gap L disk n s i is" and b: "block \<notin> block_of L (memory s) ` set is"
    and data: "slot_ok disk n m (sl L i) block" "same_outside (span (sl L i) 4096) (memory s) m"
  defines "s' \<equiv> cache_insert 0 (mt L i) (s\<lparr>memory := store64 m (mt L i + 8) block\<rparr>)"
  shows "cache_inv L disk n s' (i # is)" "cache_step L s s'" "cached L s' (i # is) = block # map (block_of L (memory s)) is"
    "EntryData (memory s') (mt L i) = sl L i"
proof -
  have g: "list_rep (memory s) (BiBCache s) (map (mt L) is)" "BiBCacheUsed s = of_nat (length (i # is))" "length (i # is) \<le> 16"
    "distinct (i # is)" "set (i # is) = {..<length (i # is)}" "EntryData (memory s) (mt L i) = sl L i"
    "\<forall>j\<in>set is. entry_ok L disk n (memory s) j" "distinct (map (block_of L (memory s)) is)"
    using gap unfolding cache_gap_def by blast+
  have "set (i # is) \<subseteq> {..<16}" using g(3) unfolding g(5) by simp
  then have idx: "i < 16" "set is \<subseteq> {..<16}" "i \<notin> set is" using g(4) by simp_all
  let ?m = "store64 m (mt L i + 8) block"
  obtain l m2 where ins: "BlListInsertAfter (BiBCache s) 0 (mt L i) ?m = (l, m2)" by fastforce
  have s': "s' = s\<lparr>memory := m2, BiBCache := l\<rparr>" by (simp add: s'_def cache_insert_def ins)
  have out: "same_outside (span (mt L i + 8) 8) m ?m" by (rule store64_same_outside)
  have far: "span (mt L i + 8) 8 \<subseteq> span (BiBCacheMeta L) 384"
    using meta_piece [OF idx(1), of 8 8 L] by simp
  have meta_same: "same_on (span (BiBCacheMeta L) 384) (memory s) m"
    by (rule same_outside_on [OF data(2)]) (use meta_slot_apart [OF L idx(1) subset_refl] in blast)
  have P: "same_on (span (mt L j + 8) 12) (memory s) ?m" "same_on (span (sl L j) 4096) (memory s) ?m" "same_on (span (mt L j) 8) (memory s) ?m"
    if "j \<in> set is" for j
  proof -
    have j: "j < 16" "i \<noteq> j" using that idx by auto
    note Q = meta_pieces_apart [OF L idx(1) j]
    have 1: "span (mt L i + 8) 8 \<inter> span (mt L j + 8) 12 = {}" "span (mt L i + 8) 8 \<inter> span (mt L j) 8 = {}"
      using Q [of 8 8 8 12] Q [of 8 8 0 8] by simp_all
    have 2: "span (mt L i + 8) 8 \<inter> span (sl L j) 4096 = {}" by (rule meta_slot_apart [OF L j(1) far])
    have 3: "span (mt L j + 8) 12 \<subseteq> span (BiBCacheMeta L) 384" "span (mt L j) 8 \<subseteq> span (BiBCacheMeta L) 384"
      using meta_piece [OF j(1), of 8 12 L] meta_piece [OF j(1), of 0 8 L] by simp_all
    from same_on_trans [OF same_on_mono [OF meta_same 3(1)] same_outside_on [OF out 1(1)]]
      same_on_trans [OF same_outside_on [OF data(2) sl_apart [OF idx(1) j]] same_outside_on [OF out 2]]
      same_on_trans [OF same_on_mono [OF meta_same 3(2)] same_outside_on [OF out 1(2)]]
    show "same_on (span (mt L j + 8) 12) (memory s) ?m" "same_on (span (sl L j) 4096) (memory s) ?m" "same_on (span (mt L j) 8) (memory s) ?m" .
  qed
  have "list_rep ?m (BiBCache s) (map (mt L) is)"
    by (rule bl.rep_frame [OF g(1)]) (use P(3) in \<open>auto simp: node_span_def same_on_def\<close>)
  from bl.push [OF this addable_meta [OF L idx] ins]
  have new: "list_rep m2 l (map (mt L) (i # is))" and ns: "same_outside (node_span (mt L ` set (i # is))) ?m m2" by auto
  have N: "mt L ` set (i # is) \<subseteq> metas L" using idx by auto
  note E = nodes_elsewhere [OF L N _ ns]
  have self: "block_of L m2 i = block" "EntryData m2 (mt L i) = sl L i" "slot_ok disk n m2 (sl L i) block"
  proof -
    show "block_of L m2 i = block" using entry_fields_same(1) [OF E(1) [OF idx(1)]] by (simp add: EntryBlock_def)
    have "same_on (span (mt L i + 16) 4) (memory s) ?m"
    proof (rule same_on_trans)
      show "same_on (span (mt L i + 16) 4) (memory s) m"
        by (rule same_on_mono [OF meta_same]) (use meta_piece [OF idx(1), of 16 4 L] in simp)
      show "same_on (span (mt L i + 16) 4) m ?m"
        by (rule same_outside_on [OF out]) (use span_disjoint_off [of 8 8 16 4 "mt L i"] in simp)
    qed
    then have "EntryData ?m (mt L i) = sl L i" using g(6) unfolding EntryData_def by (simp add: load32_same_on)
    then show "EntryData m2 (mt L i) = sl L i" using entry_fields_same(2) [OF E(1) [OF idx(1)]] by simp
    have "same_on (span (sl L i) 4096) m ?m"
      by (rule same_outside_on [OF out meta_slot_apart [OF L idx(1) far]])
    from slot_ok_same [OF data(1) same_on_trans [OF this E(2) [OF idx(1)]]] show "slot_ok disk n m2 (sl L i) block" .
  qed
  have others: "entry_ok L disk n m2 j \<and> block_of L m2 j = block_of L (memory s) j" if "j \<in> set is" for j
  proof -
    from that idx(2) have "j < 16" by auto
    note T = same_on_trans [OF P(1) [OF that] E(1) [OF this]] same_on_trans [OF P(2) [OF that] E(2) [OF this]]
    show ?thesis using entry_ok_same [OF _ T] entry_fields_same(1) [OF T(1)] g(7) that by blast
  qed
  then have blocks: "map (block_of L m2) is = map (block_of L (memory s)) is" by (intro map_cong) auto
  show "EntryData (memory s') (mt L i) = sl L i" using self(2) by (simp add: s')
  show "cached L s' (i # is) = block # map (block_of L (memory s)) is" using blocks self(1) by (simp add: cached_def s')
  have "same_outside (cache_span L) (memory s) m"
    by (rule same_outside_mono [OF data(2)]) (use cache_spans(3) [OF idx(1), of L] in simp)
  moreover have "same_outside (cache_span L) m ?m"
    by (rule same_outside_mono [OF out]) (use far in \<open>auto simp: cache_span_def\<close>)
  ultimately have "same_outside (cache_span L) (memory s) m2" using E(3) [of 0] by (auto intro: same_on_trans)
  then show "cache_step L s s'" by (simp add: s' cache_step_def besides_cache_def)
  have "distinct (map (block_of L m2) (i # is))" unfolding list.map(2) blocks using g(8) b self(1) by simp
  moreover have "entry_ok L disk n m2 i" using self by (simp add: entry_ok_def)
  then have "\<forall>j\<in>set (i # is). entry_ok L disk n m2 j" using others by simp
  ultimately show "cache_inv L disk n s' (i # is)"
    unfolding cache_inv_def by (intro conjI g(5)) (use new g(2,3) in \<open>simp_all add: s'\<close>)
qed

definition lookup_done :: "'b statics_scheme \<Rightarrow> (nat \<Rightarrow> u8) \<Rightarrow> u32 \<Rightarrow> (u64 \<Rightarrow> u32 \<Rightarrow> bool) \<Rightarrow> u64 \<Rightarrow> 'a disk_scheme \<Rightarrow> nat list \<Rightarrow> (u32 \<times> 'a disk_scheme) run \<Rightarrow> bool" where
  "lookup_done L disk sectors fails block s is r \<longleftrightarrow> (r = crash ''failed to read from disk'' \<and> (\<exists>sector count. fails sector count))
     \<or> (\<exists>i s' is'. r = ret (sl L i, s') \<and> i < 16 \<and> cache_inv L disk sectors s' is' \<and> cache_step L s s'
        \<and> slot_ok disk sectors (memory s') (sl L i) block \<and> cached L s' is' = lru block (cached L s is))"

context boot_disk
begin

lemma BiGetBCacheEntry_spec:
  assumes L: "layout_ok L" and inv: "cache_inv L disk sectors s is" and b: "4096 * unat block < 512 * unat sectors"
  shows "lookup_done L disk sectors fails block s is (BiGetBCacheEntry L read block s)"
proof -
  have idx: "set is \<subseteq> {..<16}" "distinct (cached L s is)" and rep: "list_rep (memory s) (BiBCache s) (map (mt L) is)"
    using inv by (auto simp: cache_inv_def cached_def)
  from rep have "Head (BiBCache s) = head_or (map (mt L) is) 0" "links (memory s) 0 (map (mt L) is) 0" "0 \<notin> set (map (mt L) is)"
    by (auto simp: list_rep_def nodes_apart_def)
  then have find: "find_entry (memory s) block (BL_CONTAINER 0 (Head (BiBCache s)))
      = Some (case List.find (\<lambda>e. EntryBlock (memory s) e = block) (map (mt L) is) of None \<Rightarrow> 0 | Some e \<Rightarrow> e)"
    using find_entry_list [of "map (mt L) is" "memory s" 0 block] by simp
  show ?thesis
  proof (cases "List.find (\<lambda>e. EntryBlock (memory s) e = block) (map (mt L) is)")
    case (Some e)
    then obtain i where i: "i \<in> set is" "e = mt L i" "block_of L (memory s) i = block" by (auto simp: find_Some_iff) (metis nth_mem)
    note hit = cache_hit [OF L inv i(1)]
    have lt: "i < 16" using i(1) idx(1) by auto
    let ?s = "cache_insert 0 (mt L i) (cache_remove (mt L i) s)"
    have "mt L i \<noteq> 0" using metas_ok(1) [OF L] i(1) idx(1) by (auto simp: headers_ok_def)
    then have "BiGetBCacheEntry L read block s = ret (sl L i, ?s)"
      using Some i(2) hit(4) find by (simp add: BiGetBCacheEntry_def Let_def)
    moreover have "slot_ok disk sectors (memory ?s) (sl L i) block"
      using hit(1) hit(3) [of i] i(3) lt by (simp add: cache_inv_def entry_ok_def)
    moreover have "cached L ?s (i # remove1 i is) = lru block (cached L s is)"
    proof -
      have "map (block_of L (memory s)) (remove1 i is) = remove1 (block_of L (memory s) i) (map (block_of L (memory s)) is)"
        using i(1) idx(2) unfolding cached_def by (induction "is") (auto, metis imageI)
      moreover have "block \<in> set (cached L s is)" using i by (auto simp: cached_def)
      moreover have "map (block_of L (memory ?s)) (i # remove1 i is) = map (block_of L (memory s)) (i # remove1 i is)"
        using hit(3) idx(1) i(1) set_remove1_subset [of i "is"] by (intro map_cong) auto
      ultimately show ?thesis using i(3) by (simp add: cached_def lru_def)
    qed
    ultimately show ?thesis using hit(1,2) i(1) idx(1) unfolding lookup_done_def by blast
  next
    case None
    then have nb: "block \<notin> block_of L (memory s) ` set is" by (auto simp: find_None_iff)
    let ?is = "if length is < 16 then is else butlast is"
    obtain i s1 where t: "take_entry L s = (mt L i, s1)" "cache_gap L disk sectors s1 i ?is" "cache_step L s s1"
      "\<forall>j\<in>set is. block_of L (memory s1) j = block_of L (memory s) j"
      using take_entry_gap [OF L inv] by blast
    have sub: "set ?is \<subseteq> set is" by (auto dest: in_set_butlastD)
    have i: "i < 16" "EntryData (memory s1) (mt L i) = sl L i" using t(2) by (auto simp: cache_gap_def)
    define sec where "sec = (push_bit 3 block :: u64)"
    have blt: "unat block * 8 < 2 ^ 32" using b unat_lt32 [of sectors] by simp
    then have sec: "unat sec = 8 * unat block"
      unfolding sec_def by (simp add: push_bit_eq_mult unat_word_ariths)
    have run: "BiGetBCacheEntry L read block s = bind_run (read (sl L i) sec 8 (memory s1)) (\<lambda>(ok, m).
        if \<not> ok then crash ''failed to read from disk''
        else let s = cache_insert 0 (mt L i) (s1\<lparr>memory := store64 m (mt L i + 8) block\<rparr>) in ret (EntryData (memory s) (mt L i), s))"
      using find by (simp add: BiGetBCacheEntry_def None t(1) i(2) sec_def cache_consts Let_def)
    show ?thesis
    proof (cases "fails sec 8")
      case True
      from read_failed [OF this sl_ok(2) [OF L i(1)], of "memory s1"]
      show ?thesis using True by (auto simp: run lookup_done_def)
    next
      case False
      let ?bs = "disk_bytes disk (512 * unat sec) (512 * min 8 (unat sectors - unat sec))"
      let ?m = "store_bytes (memory s1) (sl L i) ?bs"
      have rd: "read (sl L i) sec 8 (memory s1) = ret (True, ?m)"
        using read_done [OF False sl_ok(2) [OF L i(1)], of "memory s1"] sl_ok(1) [OF L i(1)] sec b by simp
      let ?s = "cache_insert 0 (mt L i) (s1\<lparr>memory := store64 ?m (mt L i + 8) block\<rparr>)"
      have so: "slot_ok disk sectors ?m (sl L i) block"
        unfolding slot_ok_def
      proof (intro allI impI)
        fix j assume j: "j < 4096" "4096 * unat block + j < 512 * unat sectors"
        then have "j < length ?bs" using sec by (auto simp: min_def)
        then show "?m (sl L i + of_nat j) = disk (4096 * unat block + j)"
          using j(1) sec by (simp add: store_bytes_def unat_of_nat take_bit_eq_mod)
      qed
      have out: "same_outside (span (sl L i) 4096) (memory s1) ?m"
        by (rule same_outside_mono [OF store_bytes_same_outside]) (rule span_mono, simp)
      have same: "map (block_of L (memory s1)) ?is = map (block_of L (memory s)) ?is"
        by (rule map_cong [OF refl]) (use t(4) sub in blast)
      then have "block_of L (memory s1) ` set ?is = block_of L (memory s) ` set ?is" by (metis set_map)
      then have "block \<notin> block_of L (memory s1) ` set ?is" using nb sub by blast
      from cache_fill [OF L t(2) this so out]
      have fill: "cache_inv L disk sectors ?s (i # ?is)" "cache_step L s1 ?s"
        "cached L ?s (i # ?is) = block # map (block_of L (memory s1)) ?is" "EntryData (memory ?s) (mt L i) = sl L i"
        .
      have "cached L ?s (i # ?is) = lru block (cached L s is)"
        unfolding fill(3) same using nb by (simp add: cached_def lru_def map_butlast)
      moreover have "slot_ok disk sectors (memory ?s) (sl L i) block"
        using fill(1,3) by (simp add: cache_inv_def entry_ok_def cached_def)
      moreover have "BiGetBCacheEntry L read block s = ret (sl L i, ?s)"
        by (simp add: run rd fill(4))
      ultimately show ?thesis using i(1) fill(1) cache_step_trans [OF t(3) fill(2)] unfolding lookup_done_def by blast
    qed
  qed
qed

end

end
