(* ===== verification/Disk_Read.thy ===== *)
theory Disk_Read
  imports Disk_Cache
begin

text \<open>
  Reading through the cache and around it: the buffer receives the bytes of the disk, and the bounds of the
  root partition hold.
\<close>

lemma unat_lt64: "unat (x :: u64) < 2 ^ 64"
  using unsigned_less [of x] by simp

lemma holds_same:
  assumes "holds m a bs" "same_on (span a (length bs)) m m'" "length bs \<le> 2 ^ 32"
  shows "holds m' a bs"
  using assms load_bytes_same_on [of a "length bs" m m'] by (simp add: holds_def)

lemma holds_store_bytes: "length bs \<le> 2 ^ 32 \<Longrightarrow> holds (store_bytes m a bs) a bs"
  by (simp add: holds_def load_store_bytes)

text \<open>What a read of \<open>n\<close> bytes from position \<open>p\<close> of the disk is to leave behind.\<close>

definition filled :: "'b statics_scheme \<Rightarrow> (nat \<Rightarrow> u8) \<Rightarrow> u32 \<Rightarrow> u32 \<Rightarrow> nat \<Rightarrow> nat \<Rightarrow> 'a disk_scheme \<Rightarrow> 'a disk_scheme \<Rightarrow> bool" where
  "filled L disk sectors buffer p n s s' \<longleftrightarrow> (\<exists>is'. cache_inv L disk sectors s' is') \<and> holds (memory s') buffer (disk_bytes disk p n)
     \<and> same_outside (span buffer n \<union> cache_span L) (memory s) (memory s') \<and> besides_cache s' = besides_cache s"

lemma filledE:
  assumes "filled L disk sectors buffer p n s s'"
  obtains is' where "cache_inv L disk sectors s' is'" "holds (memory s') buffer (disk_bytes disk p n)"
    "same_outside (span buffer n \<union> cache_span L) (memory s) (memory s')" "besides_cache s' = besides_cache s"
  using assms unfolding filled_def by blast

lemma filledI:
  "cache_inv L disk sectors s' is' \<Longrightarrow> holds (memory s') buffer (disk_bytes disk p n)
    \<Longrightarrow> same_outside (span buffer n \<union> cache_span L) (memory s) (memory s') \<Longrightarrow> besides_cache s' = besides_cache s
    \<Longrightarrow> filled L disk sectors buffer p n s s'"
  unfolding filled_def by blast

lemma filled_append:
  assumes "filled L disk sectors buffer p c s s1" "filled L disk sectors (buffer + of_nat c) (p + c) n s1 s2"
    and "fits buffer (c + n)" "span buffer (c + n) \<inter> cache_span L = {}"
  shows "filled L disk sectors buffer p (c + n) s s2"
proof -
  have le: "c + n \<le> 2 ^ 32" using assms(3) by (simp add: fits_def)
  have sub: "span buffer c \<subseteq> span buffer (c + n)" "span (buffer + of_nat c) n \<subseteq> span buffer (c + n)"
    using span_sub [of c n "c + n" buffer] le by (simp_all add: span_mono)
  have "span buffer c \<inter> span (buffer + of_nat c) n = {}" using span_disjoint_off [of 0 c c n buffer] le by simp
  then have apart: "(span (buffer + of_nat c) n \<union> cache_span L) \<inter> span buffer c = {}" using sub(1) assms(4) by blast
  from assms(1) obtain "holds (memory s1) buffer (disk_bytes disk p c)"
    "same_outside (span buffer c \<union> cache_span L) (memory s) (memory s1)" "besides_cache s1 = besides_cache s" by (rule filledE)
  note 1 = this
  from assms(2) obtain is2 where 2: "cache_inv L disk sectors s2 is2" "holds (memory s2) (buffer + of_nat c) (disk_bytes disk (p + c) n)"
    "same_outside (span (buffer + of_nat c) n \<union> cache_span L) (memory s1) (memory s2)" "besides_cache s2 = besides_cache s1" by (rule filledE)
  have "holds (memory s2) buffer (disk_bytes disk p c)"
    by (rule holds_same [OF 1(1)]) (use same_outside_on [OF 2(3) apart] le in simp_all)
  then have 3: "holds (memory s2) buffer (disk_bytes disk p (c + n))"
    unfolding disk_bytes_add holds_append using 2(2) by simp
  have "same_outside (span buffer (c + n) \<union> cache_span L) (memory s) (memory s1)"
    by (rule same_outside_mono [OF 1(2)]) (use sub(1) in blast)
  moreover have "same_outside (span buffer (c + n) \<union> cache_span L) (memory s1) (memory s2)"
    by (rule same_outside_mono [OF 2(3)]) (use sub(2) in blast)
  ultimately have "same_outside (span buffer (c + n) \<union> cache_span L) (memory s) (memory s2)" by (rule same_on_trans)
  from filledI [OF 2(1) 3 this] show ?thesis using 1(3) 2(4) by simp
qed

lemma filled_after:
  assumes "cache_step L s s1" "filled L disk sectors buffer p n s1 s2"
  shows "filled L disk sectors buffer p n s s2"
proof -
  have "same_outside (span buffer n \<union> cache_span L) (memory s) (memory s1)"
    by (rule same_outside_mono [of "cache_span L"]) (use assms(1) in \<open>simp_all add: cache_step_def\<close>)
  note 1 = this
  from assms(2) obtain is2 where 2: "cache_inv L disk sectors s2 is2" "holds (memory s2) buffer (disk_bytes disk p n)"
    "same_outside (span buffer n \<union> cache_span L) (memory s1) (memory s2)" "besides_cache s2 = besides_cache s1" by (rule filledE)
  from filledI [OF 2(1,2) same_on_trans [OF 1 2(3)]] show ?thesis using assms(1) 2(4) by (simp add: cache_step_def)
qed

lemma cache_chunk:
  fixes position :: u64 and count :: u32
  defines "offset \<equiv> ucast (position AND BI_BCACHE_MASK) :: u32"
  defines "current \<equiv> BL_MIN (BI_BCACHE_SIZE - offset) count"
  shows "unat offset = unat position mod 4096" "unat (drop_bit BI_BCACHE_SHIFT position) = unat position div 4096"
    and "unat current = min (4096 - unat position mod 4096) (unat count)"
proof -
  have m: "BI_BCACHE_MASK = mask 12" by (simp add: cache_consts mask_eq_exp_minus_1)
  have "position AND BI_BCACHE_MASK = take_bit 12 position" unfolding m by (simp add: take_bit_eq_mask)
  then have "unat (position AND BI_BCACHE_MASK) = unat position mod 4096"
    by (simp only: unsigned_take_bit_eq) (simp add: take_bit_eq_mod)
  then show o: "unat offset = unat position mod 4096"
    unfolding offset_def by (simp add: unsigned_ucast_eq take_bit_eq_mod)
  show "unat (drop_bit BI_BCACHE_SHIFT position) = unat position div 4096"
    by (simp add: drop_bit_eq_div cache_consts unat_div)
  have "unat (BI_BCACHE_SIZE - offset) = 4096 - unat offset"
    using o by (subst unat_sub) (simp_all add: cache_consts word_le_nat_alt)
  then show "unat current = min (4096 - unat position mod 4096) (unat count)"
    unfolding current_def BL_MIN_def by (simp add: word_le_nat_alt o)
qed

text \<open>One block's share of a read.\<close>

lemma copy_from_slot:
  assumes L: "layout_ok L" and i: "i < 16" and so: "slot_ok disk sectors (memory s) (sl L i) block"
    and inv: "cache_inv L disk sectors s is"
    and off: "off + n \<le> 4096" "4096 * unat block + off + n \<le> 512 * unat sectors"
    and buf: "fits buffer n" "span buffer n \<inter> cache_span L = {}"
  defines "s' \<equiv> s\<lparr>memory := BlCopyMemory (memory s) buffer (sl L i + of_nat off) (of_nat n)\<rparr>"
  shows "filled L disk sectors buffer (4096 * unat block + off) n s s'"
proof -
  let ?m = "memory s" let ?bs = "disk_bytes disk (4096 * unat block + off) n"
  have n32: "n < 2 ^ 32" using off(1) by simp
  have un: "unat (of_nat n :: u32) = n" by (rule unat_of_nat32 [OF n32])
  have src: "span (sl L i + of_nat off) n \<subseteq> cache_span L"
    using span_sub [OF off(1), of "sl L i"] cache_spans(3) [OF i, of L] by auto
  have "load_bytes ?m (sl L i + of_nat off) n = ?bs"
  proof (rule nth_equalityI)
    fix j assume "j < length (load_bytes ?m (sl L i + of_nat off) n)"
    then have j: "j < n" by simp
    then have "?m (sl L i + of_nat (off + j)) = disk (4096 * unat block + (off + j))"
      using so [unfolded slot_ok_def, rule_format, of "off + j"] off by simp
    then show "load_bytes ?m (sl L i + of_nat off) n ! j = ?bs ! j" using j by (simp add: add.assoc)
  qed simp
  moreover have "span buffer n \<inter> span (sl L i + of_nat off) n = {}" using src buf(2) by blast
  ultimately have m: "memory s' = store_bytes ?m buffer ?bs"
    using memcpy_store_bytes [of buffer "of_nat n" "sl L i + of_nat off" ?m] buf(1) fits_sub [OF sl_ok(1) [OF L i] off(1)]
    by (simp add: s'_def BlCopyMemory_def un)
  have out: "same_outside (span buffer n) ?m (memory s')"
    unfolding m using store_bytes_same_outside [of buffer ?bs ?m] by simp
  have "\<exists>is'. cache_inv L disk sectors s' is'"
    using cache_inv_same(1) [OF inv same_outside_on [OF out buf(2)]] by (auto simp: s'_def)
  moreover have "holds (memory s') buffer ?bs" unfolding m by (rule holds_store_bytes) (use n32 in simp)
  moreover have "same_outside (span buffer n \<union> cache_span L) ?m (memory s')" by (rule same_outside_mono [OF out]) simp
  ultimately show ?thesis by (simp add: filled_def besides_cache_def s'_def)
qed

definition fetched :: "'b statics_scheme \<Rightarrow> (nat \<Rightarrow> u8) \<Rightarrow> u32 \<Rightarrow> (u64 \<Rightarrow> u32 \<Rightarrow> bool) \<Rightarrow> u32 \<Rightarrow> nat \<Rightarrow> nat \<Rightarrow> 'a disk_scheme \<Rightarrow> 'a disk_scheme run \<Rightarrow> bool" where
  "fetched L disk sectors fails buffer p n s r \<longleftrightarrow> (r = crash ''failed to read from disk'' \<and> (\<exists>sector count. fails sector count))
     \<or> (\<exists>s'. r = ret s' \<and> filled L disk sectors buffer p n s s')"

text \<open>Around the cache the request must be of whole sectors into an aligned buffer.\<close>

definition whole_sectors :: "u32 \<Rightarrow> u64 \<Rightarrow> u32 \<Rightarrow> bool" where
  "whole_sectors buffer position count \<longleftrightarrow> buffer AND BL_SECTOR_MASK = 0 \<and> position AND BL_SECTOR_MASK = 0 \<and> count AND BL_SECTOR_MASK = 0"

lemma sector_part:
  fixes x :: "'a::len word"
  assumes "x AND BL_SECTOR_MASK = 0"
  shows "512 * unat (drop_bit BL_SECTOR_SHIFT x) = unat x"
proof -
  have "take_bit 9 x = 0" using assms by (simp add: cache_consts take_bit_eq_mask mask_eq_exp_minus_1)
  moreover have "unat (take_bit 9 x) = unat x mod 512" by (simp only: unsigned_take_bit_eq) (simp add: take_bit_eq_mod)
  ultimately have "unat x mod 512 = 0" by simp
  moreover have "unat (drop_bit BL_SECTOR_SHIFT x) = unat x div 512"
    by (simp only: cache_consts unsigned_drop_bit_eq) (simp add: drop_bit_eq_div take_bit_nat_eq_self [OF unsigned_less])
  ultimately show ?thesis by (metis dvd_mult_div_cancel mod_0_imp_dvd)
qed

text \<open>The root partition lies on the disk.\<close>

definition partition_ok :: "u32 \<Rightarrow> 'a disk_scheme \<Rightarrow> bool" where
  "partition_ok sectors s \<longleftrightarrow> unat (Start (BlRootPartition s)) + unat (PartSize (BlRootPartition s)) \<le> 512 * unat sectors
     \<and> Start (BlRootPartition s) AND BL_SECTOR_MASK = 0"

context boot_disk
begin

lemma read_cached_spec:
  assumes L: "layout_ok L"
  shows "cache_inv L disk sectors s is \<Longrightarrow> fits buffer (unat count) \<Longrightarrow> span buffer (unat count) \<inter> cache_span L = {} \<Longrightarrow>
    unat position + unat count \<le> 512 * unat sectors \<Longrightarrow>
    fetched L disk sectors fails buffer (unat position) (unat count) s (read_cached L read buffer position count s)"
proof (induction "unat count" arbitrary: buffer position count s "is" rule: less_induct)
  case less
  note inv = less.prems(1) and buf = less.prems(2,3) and bound = less.prems(4)
  show ?case
  proof (cases "count = 0")
    case True
    then have "read_cached L read buffer position count s = ret s" by (subst read_cached.simps) simp
    then show ?thesis using inv True by (auto simp: fetched_def filled_def disk_bytes_def holds_def)
  next
    case False
    define block where "block = drop_bit BI_BCACHE_SHIFT position"
    define offset where "offset = (ucast (position AND BI_BCACHE_MASK) :: u32)"
    define current where "current = BL_MIN (BI_BCACHE_SIZE - offset) count"
    note C = cache_chunk [of position, folded block_def offset_def] cache_chunk(3) [of position count, folded offset_def, folded current_def]
    let ?c = "unat current"
    have c: "0 < ?c" "?c \<le> unat count" "unat offset + ?c \<le> 4096"
      using False C by (auto simp: unat_gt_0)
    have pos: "4096 * unat block + unat offset = unat position" using C by simp
    then have blk: "4096 * unat block < 512 * unat sectors" using bound c(1,2) by linarith
    from BiGetBCacheEntry_spec [OF L inv blk] consider
        "BiGetBCacheEntry L read block s = crash ''failed to read from disk''" "\<exists>sector count. fails sector count"
      | i s1 is1 where "BiGetBCacheEntry L read block s = ret (sl L i, s1)" "i < 16" "cache_inv L disk sectors s1 is1"
        "cache_step L s s1" "slot_ok disk sectors (memory s1) (sl L i) block"
      unfolding lookup_done_def by blast
    then show ?thesis
    proof cases
      case 1
      then have "read_cached L read buffer position count s = crash ''failed to read from disk''"
        using False by (subst read_cached.simps) (simp add: Let_def block_def)
      then show ?thesis using 1(2) by (simp add: fetched_def)
    next
      case 2
      let ?s2 = "s1\<lparr>memory := BlCopyMemory (memory s1) buffer (sl L i + offset) current\<rparr>"
      have run: "read_cached L read buffer position count s
          = read_cached L read (buffer + current) (position + ucast current) (count - current) ?s2"
        using False 2(1) by (subst read_cached.simps) (simp add: Let_def block_def offset_def current_def)
      have split: "unat count = ?c + unat (count - current)" "unat (count - current) = unat count - ?c"
        using c(2) by (simp_all add: unat_sub word_le_nat_alt)
      have buf1: "fits buffer ?c" "span buffer ?c \<inter> cache_span L = {}"
        using buf c(2) span_mono [OF c(2), of buffer] by (auto simp: fits_def)
      have "filled L disk sectors buffer (unat position) ?c s1 ?s2"
        using copy_from_slot [OF L 2(2,5,3) c(3) _ buf1] pos bound c(2) by (simp add: pos)
      then have f1: "filled L disk sectors buffer (unat position) ?c s ?s2"
        by (rule filled_after [OF 2(4)])
      then obtain is2 where inv2: "cache_inv L disk sectors ?s2 is2" by (auto simp: filled_def)
      have uc: "unat (ucast current :: u64) = ?c" by (simp add: unsigned_ucast_eq take_bit_eq_mod) (use unat_lt32 [of current] in simp)
      have up: "unat (position + ucast current) = unat position + ?c"
        using bound c(2) unat_lt32 [of sectors] by (simp add: unat_word_ariths uc)
      have 1: "fits (buffer + current) (unat (count - current))"
        using fits_sub [OF buf(1), of ?c "unat (count - current)"] split(1) by simp
      have "span (buffer + current) (unat (count - current)) \<subseteq> span buffer (unat count)"
        using span_sub [of ?c "unat (count - current)" "unat count" buffer] split(1) unat_lt32 [of count] by simp
      then have 2: "span (buffer + current) (unat (count - current)) \<inter> cache_span L = {}" using buf(2) by blast
      have "fetched L disk sectors fails (buffer + current) (unat position + ?c) (unat (count - current)) ?s2
          (read_cached L read (buffer + current) (position + ucast current) (count - current) ?s2)"
      proof -
        have a: "unat (count - current) < unat count" using split(1) c(1) by linarith
        have b: "unat (position + ucast current) + unat (count - current) \<le> 512 * unat sectors"
          unfolding up using split(1) bound by linarith
        show ?thesis using less.hyps [OF a inv2 1 2 b] unfolding up .
      qed
      moreover have "filled L disk sectors buffer (unat position) (unat count) s s'"
        if "filled L disk sectors (buffer + current) (unat position + ?c) (unat (count - current)) ?s2 s'" for s'
      proof -
        have "of_nat ?c = current" by simp
        then have "filled L disk sectors (buffer + of_nat ?c) (unat position + ?c) (unat (count - current)) ?s2 s'" using that by (simp only:)
        note fa = filled_append [OF f1 this]
        show ?thesis unfolding split(1) by (rule fa; unfold split(1) [symmetric]; rule buf)
      qed
      ultimately show ?thesis unfolding run fetched_def by blast
    qed
  qed
qed

lemma BiReadFromDisk_spec:
  assumes L: "layout_ok L" and inv: "cache_inv L disk sectors s is"
    and buf: "fits buffer (unat count)" "span buffer (unat count) \<inter> cache_span L = {}"
    and bound: "unat position + unat count \<le> 512 * unat sectors" and whole: "bypassCache \<longrightarrow> whole_sectors buffer position count"
  shows "fetched L disk sectors fails buffer (unat position) (unat count) s (BiReadFromDisk L read buffer position count bypassCache s)"
proof (cases bypassCache)
  case False
  then show ?thesis using read_cached_spec [OF L inv buf bound] by (simp add: BiReadFromDisk_def)
next
  case True
  with whole have w: "buffer AND BL_SECTOR_MASK = 0" "position AND BL_SECTOR_MASK = 0" "count AND BL_SECTOR_MASK = 0"
    by (auto simp: whole_sectors_def)
  let ?sector = "drop_bit BL_SECTOR_SHIFT position" let ?n = "drop_bit BL_SECTOR_SHIFT count"
  note p = sector_part [OF w(2)] sector_part [OF w(3)]
  have run: "BiReadFromDisk L read buffer position count bypassCache s = bind_run (read buffer ?sector ?n (memory s)) (\<lambda>(ok, m).
      if \<not> ok then crash ''failed to read from disk'' else ret (s\<lparr>memory := m\<rparr>))"
    using True w by (simp add: BiReadFromDisk_def)
  show ?thesis
  proof (cases "fails ?sector ?n")
    case f: True
    from read_failed [OF f w(1), of "memory s"] show ?thesis using f unfolding run fetched_def by auto
  next
    case False
    let ?bs = "disk_bytes disk (unat position) (unat count)" let ?m = "store_bytes (memory s) buffer ?bs"
    have n: "512 * min (unat ?n) (unat sectors - unat ?sector) = unat count" "unat ?sector \<le> unat sectors"
      using p bound by linarith+
    have r: "read buffer ?sector ?n (memory s) = ret (True, ?m)"
      using read_done [OF False w(1) n(2), of "memory s"] buf(1) unfolding n(1) p by simp
    have out: "same_outside (span buffer (unat count)) (memory s) ?m"
      using store_bytes_same_outside [of buffer ?bs "memory s"] by simp
    have "cache_inv L disk sectors (s\<lparr>memory := ?m\<rparr>) is"
      by (rule cache_inv_same(1) [OF inv]) (use same_outside_on [OF out buf(2)] in simp_all)
    moreover have "holds ?m buffer ?bs" by (rule holds_store_bytes) (use unat_lt32 [of count] in simp)
    moreover have "same_outside (span buffer (unat count) \<union> cache_span L) (memory s) ?m"
      by (rule same_outside_mono [OF out]) simp
    ultimately have "filled L disk sectors buffer (unat position) (unat count) s (s\<lparr>memory := ?m\<rparr>)"
      by (intro filledI) (simp_all add: besides_cache_def)
    then show ?thesis unfolding run r fetched_def by auto
  qed
qed

lemma BlReadFromPartition_spec:
  assumes L: "layout_ok L" and inv: "cache_inv L disk sectors s is" and part: "partition_ok sectors s"
    and buf: "fits buffer (unat count)" "span buffer (unat count) \<inter> cache_span L = {}"
    and whole: "bypassCache \<longrightarrow> whole_sectors buffer (Start (BlRootPartition s) + position) count"
  shows "if unat position + unat count \<le> unat (PartSize (BlRootPartition s))
    then fetched L disk sectors fails buffer (unat (Start (BlRootPartition s)) + unat position) (unat count) s (BlReadFromPartition L read buffer position count bypassCache s)
    else BlReadFromPartition L read buffer position count bypassCache s = crash ''tried to read beyond partition bounds''"
proof -
  let ?S = "Start (BlRootPartition s)" let ?Z = "PartSize (BlRootPartition s)"
  have uc: "unat (ucast count :: u64) = unat count" using unat_lt32 [of count] by (simp add: unsigned_ucast_eq take_bit_eq_mod)
  have top: "unat ?S + unat ?Z < 2 ^ 64" using part unat_lt32 [of sectors] by (simp add: partition_ok_def)
  have test: "position + ucast count < position \<or> position + ucast count > ?Z \<longleftrightarrow> \<not> unat position + unat count \<le> unat ?Z"
  proof (cases "unat position + unat count < 2 ^ 64")
    case True
    then have "unat (position + ucast count) = unat position + unat count" by (simp add: unat_word_ariths uc)
    then show ?thesis by (auto simp: word_less_nat_alt)
  next
    case False
    have "unat (position + ucast count) = unat position + unat count - 2 ^ 64"
    proof -
      have "(unat position + unat count) mod 2 ^ 64 = unat position + unat count - 2 ^ 64"
        using False unat_lt64 [of position] unat_lt32 [of count] by (subst le_mod_geq) simp_all
      then show ?thesis by (simp add: unat_word_ariths uc)
    qed
    then have "position + ucast count < position" using False unat_lt32 [of count] unat_lt64 [of position]
      by (simp add: word_less_nat_alt)
    then show ?thesis using False unat_lt64 [of ?Z] by simp
  qed
  show ?thesis
  proof (cases "unat position + unat count \<le> unat ?Z")
    case True
    then have u: "unat (?S + position) = unat ?S + unat position" using top by (simp add: unat_word_ariths)
    have "unat (?S + position) + unat count \<le> 512 * unat sectors" using True part unfolding u partition_ok_def by simp
    from BiReadFromDisk_spec [OF L inv buf this whole] True show ?thesis
      unfolding u BlReadFromPartition_def Let_def test by simp
  next
    case False
    then show ?thesis unfolding BlReadFromPartition_def Let_def test by simp
  qed
qed

end

end
