(* ===== verification/Filesystem.thy ===== *)
theory Filesystem
  imports Disk_Read
begin

text \<open>
  The ext2 reader, \<^verbatim>\<open>bootloader/filesystem.c\<close>. Structures read from the partition stay bytes in memory, in the
  static objects of the file, on the heap, or in local variables; the addresses of statics and locals are
  parameters (\<open>fs_statics\<close>), fields are loads and stores at their offsets. A zero divisor is undefined
  in the code and \<open>None\<close> here.
\<close>

section \<open>Objects and fields\<close>

definition BI_SUPERBLOCK_OFFSET :: u64 where "BI_SUPERBLOCK_OFFSET = 1024"
definition BI_SIGNATURE :: u16 where "BI_SIGNATURE = 0xef53"
definition BI_ROOT_INODE :: u32 where "BI_ROOT_INODE = 2"
definition BI_DIR_TYPES :: u32 where "BI_DIR_TYPES = 2"
definition BI_RO_FEATURES :: u32 where "BI_RO_FEATURES = BI_DIR_TYPES"
definition BI_SIZE_64 :: u32 where "BI_SIZE_64 = 2"
definition BI_TYPE :: "u16 \<Rightarrow> u16" where "BI_TYPE mode = mode AND 0xf000"
definition BI_TYPE_DIR :: u16 where "BI_TYPE_DIR = 0x4000"
definition BI_TYPE_REG :: u16 where "BI_TYPE_REG = 0x8000"
definition BI_TYPE_SYM :: u16 where "BI_TYPE_SYM = 0xa000"
definition BI_MAX_NAME_LEN :: u32 where "BI_MAX_NAME_LEN = 0xff"
definition BI_MAX_SYMLINKS :: u32 where "BI_MAX_SYMLINKS = 5"
definition BI_INDIRECT_LEVELS :: nat where "BI_INDIRECT_LEVELS = 3"

text \<open>The structures on the disk, and their sizes.\<close>

definition struct_BiSuperblock :: struct where
  "struct_BiSuperblock =
     [(''_Inodes'', 4), (''_Blocks'', 4), (''_RootBlocks'', 4), (''_UnallocatedBlocks'', 4),
      (''_UnallocatedInodes'', 4), (''_SuperblockBlock'', 4), (''BlockSizeShift'', 4),
      (''_FragmentSizeShift'', 4), (''BlockGroupBlocks'', 4), (''_BlockGroupFragments'', 4),
      (''BlockGroupInodes'', 4), (''_MountTime'', 4), (''_WriteTime'', 4), (''_MountsSinceLastCheck'', 2),
      (''_MountsPerCheck'', 2), (''Signature'', 2), (''_State'', 2), (''_ErrorBehavior'', 2),
      (''_VersionMinor'', 2), (''_CheckTime'', 4), (''_CheckInterval'', 4), (''_CreatorOs'', 4),
      (''VersionMajor'', 4), (''_RootUid'', 2), (''_RootGid'', 2), (''_FirstUnreservedInode'', 4),
      (''InodeSize'', 2), (''_SuperblockBlockGroup'', 2), (''OptionalFeatures'', 4), (''RequiredFeatures'', 4),
      (''WriteRequiredFeatures'', 4), (''FilesystemId'', 16), (''VolumeName'', 16), (''LastMountpoint'', 64),
      (''_Compression'', 4), (''FilePreallocateCount'', 1), (''DirectoryPreallocateCount'', 1),
      (''_Unused'', 2), (''JournalId'', 16), (''_JournalInode'', 4), (''_JournalDevice'', 4),
      (''_OrphanedInodesHead'', 4)]"

definition struct_BiBlockGroupDescriptor :: struct where
  "struct_BiBlockGroupDescriptor =
     [(''_BlockBitmap'', 4), (''_InodeBitmap'', 4), (''InodeTableBlock'', 4), (''_UnallocatedBlocks'', 2),
      (''_UnallocatedInodes'', 2), (''_Directories'', 2)]"

definition struct_BiInode :: struct where
  "struct_BiInode =
     [(''Mode'', 2), (''_Uid'', 2), (''Size'', 4), (''_Atime'', 4), (''_Ctime'', 4), (''_Mtime'', 4),
      (''_Dtime'', 4), (''_Gid'', 2), (''_Links'', 2), (''_Sectors'', 4), (''_Flags'', 4), (''_Osv1'', 4),
      (''DirectBlocks'', 48), (''IndirectBlocks'', 12), (''_Generation'', 4), (''_ExtendedAttributesBlock'', 4),
      (''SizeUpper'', 4), (''_FragmentBlock'', 4), (''Osv2'', 12)]"

definition struct_BiEntry :: struct where
  "struct_BiEntry =
     [(''Inode'', 4), (''Size'', 2), (''NameLength'', 1), (''Type'', 1)]"

text \<open>(\<open>struct BiBlockGroupDescriptor\<close> is padded to a multiple of four.)\<close>

definition SIZEOF_BiSuperblock :: u32 where "SIZEOF_BiSuperblock = 236"
definition SIZEOF_BiBlockGroupDescriptor :: u32 where "SIZEOF_BiBlockGroupDescriptor = 20"
definition SIZEOF_BiInode :: u32 where "SIZEOF_BiInode = 128"
definition SIZEOF_BiEntry :: u32 where "SIZEOF_BiEntry = 8"

lemma struct_sizes:
  "SIZEOF_BiSuperblock = struct_size struct_BiSuperblock"
  "SIZEOF_BiBlockGroupDescriptor = BL_ALIGN_UP (struct_size struct_BiBlockGroupDescriptor) 4"
  "SIZEOF_BiInode = struct_size struct_BiInode" "SIZEOF_BiEntry = struct_size struct_BiEntry"
  by (simp_all add: struct_size_def SIZEOF_BiSuperblock_def SIZEOF_BiBlockGroupDescriptor_def SIZEOF_BiInode_def SIZEOF_BiEntry_def
      struct_BiSuperblock_def struct_BiBlockGroupDescriptor_def struct_BiInode_def struct_BiEntry_def BL_ALIGN_UP_def)

record fs_statics = statics +
  BiSuperblock :: u32
  BiRoot :: u32
  local_groupDescriptor :: u32
  local_value :: u32
  local_entry :: u32

record fs = disk +
  BiBlockSize :: u32
  BiBgdtLocation :: u64
  BiInodeShift :: u32
  BiIndirectionShift :: u32
  BiIndirectionCount :: u32
  BiIndirectionMask :: u32

text \<open>The local variable \<open>entry\<close> of each level of the recursion through symbolic links.\<close>

definition entry_at :: "'b fs_statics_scheme \<Rightarrow> u32 \<Rightarrow> u32" where "entry_at L symlinks = local_entry L + SIZEOF_BiEntry * symlinks"

definition write_mem :: "(mem \<Rightarrow> mem) \<Rightarrow> 'a fs_scheme \<Rightarrow> 'a fs_scheme" where
  "write_mem f s = s\<lparr>memory := f (memory s)\<rparr>"

text \<open>\<open>struct BiSuperblock\<close>.\<close>

definition BlockSizeShift :: "'b fs_statics_scheme \<Rightarrow> mem \<Rightarrow> u32" where "BlockSizeShift L m = load32 m (BiSuperblock L + 24)"
definition BlockGroupBlocks :: "'b fs_statics_scheme \<Rightarrow> mem \<Rightarrow> u32" where "BlockGroupBlocks L m = load32 m (BiSuperblock L + 32)"
definition BlockGroupInodes :: "'b fs_statics_scheme \<Rightarrow> mem \<Rightarrow> u32" where "BlockGroupInodes L m = load32 m (BiSuperblock L + 40)"
definition Signature :: "'b fs_statics_scheme \<Rightarrow> mem \<Rightarrow> u16" where "Signature L m = load16 m (BiSuperblock L + 56)"
definition VersionMajor :: "'b fs_statics_scheme \<Rightarrow> mem \<Rightarrow> u32" where "VersionMajor L m = load32 m (BiSuperblock L + 76)"
definition SbInodeSize :: "'b fs_statics_scheme \<Rightarrow> mem \<Rightarrow> u16" where "SbInodeSize L m = load16 m (BiSuperblock L + 88)"
definition OptionalFeatures :: "'b fs_statics_scheme \<Rightarrow> mem \<Rightarrow> u32" where "OptionalFeatures L m = load32 m (BiSuperblock L + 92)"
definition RequiredFeatures :: "'b fs_statics_scheme \<Rightarrow> mem \<Rightarrow> u32" where "RequiredFeatures L m = load32 m (BiSuperblock L + 96)"
definition WriteRequiredFeatures :: "'b fs_statics_scheme \<Rightarrow> mem \<Rightarrow> u32" where "WriteRequiredFeatures L m = load32 m (BiSuperblock L + 100)"

text \<open>\<open>struct BiBlockGroupDescriptor\<close>, \<open>struct BiInode\<close> and \<open>struct BiEntry\<close>.\<close>

definition InodeTableBlock :: "mem \<Rightarrow> u32 \<Rightarrow> u32" where "InodeTableBlock m d = load32 m (d + 8)"

definition InodeMode :: "mem \<Rightarrow> u32 \<Rightarrow> u16" where "InodeMode m i = load16 m i"
definition InodeSize :: "mem \<Rightarrow> u32 \<Rightarrow> u32" where "InodeSize m i = load32 m (i + 4)"
definition DirectBlock :: "u32 \<Rightarrow> nat \<Rightarrow> u32" where "DirectBlock i k = i + 40 + 4 * of_nat k"
definition IndirectBlock :: "u32 \<Rightarrow> nat \<Rightarrow> u32" where "IndirectBlock i k = i + 88 + 4 * of_nat k"
definition SizeUpper :: "mem \<Rightarrow> u32 \<Rightarrow> u32" where "SizeUpper m i = load32 m (i + 108)"

definition EntryInode :: "mem \<Rightarrow> u32 \<Rightarrow> u32" where "EntryInode m e = load32 m e"
definition EntrySize :: "mem \<Rightarrow> u32 \<Rightarrow> u16" where "EntrySize m e = load16 m (e + 4)"
definition EntryNameLength :: "mem \<Rightarrow> u32 \<Rightarrow> u8" where "EntryNameLength m e = m (e + 6)"
definition EntryType :: "mem \<Rightarrow> u32 \<Rightarrow> u8" where "EntryType m e = m (e + 7)"

lemma field_offsets:
  "BlockSizeShift L m = load32 m (BiSuperblock L + field_offset struct_BiSuperblock ''BlockSizeShift'')"
  "BlockGroupBlocks L m = load32 m (BiSuperblock L + field_offset struct_BiSuperblock ''BlockGroupBlocks'')"
  "BlockGroupInodes L m = load32 m (BiSuperblock L + field_offset struct_BiSuperblock ''BlockGroupInodes'')"
  "Signature L m = load16 m (BiSuperblock L + field_offset struct_BiSuperblock ''Signature'')"
  "VersionMajor L m = load32 m (BiSuperblock L + field_offset struct_BiSuperblock ''VersionMajor'')"
  "SbInodeSize L m = load16 m (BiSuperblock L + field_offset struct_BiSuperblock ''InodeSize'')"
  "OptionalFeatures L m = load32 m (BiSuperblock L + field_offset struct_BiSuperblock ''OptionalFeatures'')"
  "RequiredFeatures L m = load32 m (BiSuperblock L + field_offset struct_BiSuperblock ''RequiredFeatures'')"
  "WriteRequiredFeatures L m = load32 m (BiSuperblock L + field_offset struct_BiSuperblock ''WriteRequiredFeatures'')"
  "InodeTableBlock m d = load32 m (d + field_offset struct_BiBlockGroupDescriptor ''InodeTableBlock'')"
  "InodeMode m i = load16 m (i + field_offset struct_BiInode ''Mode'')"
  "InodeSize m i = load32 m (i + field_offset struct_BiInode ''Size'')"
  "DirectBlock i k = i + field_offset struct_BiInode ''DirectBlocks'' + 4 * of_nat k"
  "IndirectBlock i k = i + field_offset struct_BiInode ''IndirectBlocks'' + 4 * of_nat k"
  "SizeUpper m i = load32 m (i + field_offset struct_BiInode ''SizeUpper'')"
  "EntryInode m e = load32 m (e + field_offset struct_BiEntry ''Inode'')"
  "EntrySize m e = load16 m (e + field_offset struct_BiEntry ''Size'')"
  "EntryNameLength m e = m (e + field_offset struct_BiEntry ''NameLength'')"
  "EntryType m e = m (e + field_offset struct_BiEntry ''Type'')"
  by (simp_all add: BlockSizeShift_def BlockGroupBlocks_def BlockGroupInodes_def Signature_def VersionMajor_def SbInodeSize_def
      OptionalFeatures_def RequiredFeatures_def WriteRequiredFeatures_def InodeTableBlock_def InodeMode_def InodeSize_def
      DirectBlock_def IndirectBlock_def SizeUpper_def EntryInode_def EntrySize_def EntryNameLength_def EntryType_def
      struct_BiSuperblock_def struct_BiBlockGroupDescriptor_def struct_BiInode_def struct_BiEntry_def)

definition fix_le32 :: "u32 \<Rightarrow> mem \<Rightarrow> mem" where "fix_le32 a m = store32 m a (BL_LE32 (load32 m a))"
definition fix_le16 :: "u32 \<Rightarrow> mem \<Rightarrow> mem" where "fix_le16 a m = store16 m a (BL_LE16 (load16 m a))"

section \<open>Inodes\<close>

definition BiReadBlockGroupDescriptor ::
    "'b fs_statics_scheme \<Rightarrow> disk_read \<Rightarrow> u32 \<Rightarrow> u32 \<Rightarrow> 'a fs_scheme \<Rightarrow> 'a fs_scheme run" where
  "BiReadBlockGroupDescriptor L read out grp s =
     bind_run (BlReadFromPartition L read out (BiBgdtLocation s + ucast grp * 32) SIZEOF_BiBlockGroupDescriptor False s) (\<lambda>s.
       ret (write_mem (fix_le32 (out + 8)) s))"

definition BiReadInode :: "'b fs_statics_scheme \<Rightarrow> disk_read \<Rightarrow> u32 \<Rightarrow> u32 \<Rightarrow> 'a fs_scheme \<Rightarrow> 'a fs_scheme run" where
  "BiReadInode L read out inode s =
     (if BlockGroupInodes L (memory s) = 0 then None else
      let grp = (inode - 1) div BlockGroupInodes L (memory s);
          index = (inode - 1) mod BlockGroupInodes L (memory s);
          offset = push_bit (unat (BiInodeShift s)) (ucast index) :: u64;
          gd = local_groupDescriptor L
      in bind_run (BiReadBlockGroupDescriptor L read gd grp s) (\<lambda>s.
           let location = push_bit (unat (BlockSizeShift L (memory s))) (ucast (InodeTableBlock (memory s) gd)) + offset
           in bind_run (BlReadFromPartition L read out location SIZEOF_BiInode False s) (\<lambda>s.
                let s = write_mem (fold (\<lambda>k. fix_le32 (DirectBlock out k)) [0..<12]) s;
                    s = write_mem (fold (\<lambda>k. fix_le32 (IndirectBlock out k)) [0..<BI_INDIRECT_LEVELS]) s;
                    s = write_mem (fix_le16 out) s;
                    s = write_mem (fix_le32 (out + 4)) s
                in ret (if WriteRequiredFeatures L (memory s) AND BI_SIZE_64 \<noteq> 0 then write_mem (fix_le32 (out + 108)) s else s))))"

definition BiReadFromPointerBlock ::
    "'b fs_statics_scheme \<Rightarrow> disk_read \<Rightarrow> u32 \<Rightarrow> u32 \<Rightarrow> 'a fs_scheme \<Rightarrow> (u32 \<times> 'a fs_scheme) run" where
  "BiReadFromPointerBlock L read block index s =
     bind_run (BlReadFromPartition L read (local_value L)
         (ucast (push_bit (unat (BlockSizeShift L (memory s))) block + index * 4)) 4 False s) (\<lambda>s.
       ret (BL_LE32 (load32 (memory s) (local_value L)), s))"

text \<open>The level of indirection of a block: \<open>n\<close> levels are left to try.\<close>

fun indirection_level :: "u32 \<Rightarrow> nat \<Rightarrow> u64 \<Rightarrow> u32 \<Rightarrow> nat \<times> u64" where
  "indirection_level shift 0 block blocks = (BI_INDIRECT_LEVELS, block)"
| "indirection_level shift (Suc n) block blocks =
     (if block < ucast blocks then (BI_INDIRECT_LEVELS - Suc n, block)
      else indirection_level shift n (block - ucast blocks) (push_bit (unat shift) blocks))"

fun follow_pointers ::
    "'b fs_statics_scheme \<Rightarrow> disk_read \<Rightarrow> nat \<Rightarrow> u64 \<Rightarrow> u32 \<Rightarrow> 'a fs_scheme \<Rightarrow> (u32 \<times> 'a fs_scheme) run" where
  "follow_pointers L read 0 block volumeBlock s = ret (volumeBlock, s)"
| "follow_pointers L read (Suc level) block volumeBlock s =
     (if volumeBlock = 0 then ret (volumeBlock, s)
      else
        let index = ucast (drop_bit (unat (BiIndirectionShift s * of_nat level)) block AND ucast (BiIndirectionMask s))
        in bind_run (BiReadFromPointerBlock L read volumeBlock index s) (\<lambda>(volumeBlock, s).
             follow_pointers L read level block volumeBlock s))"

definition BiGetInodeBlockBase ::
    "'b fs_statics_scheme \<Rightarrow> disk_read \<Rightarrow> u32 \<Rightarrow> u64 \<Rightarrow> 'a fs_scheme \<Rightarrow> (u64 \<times> 'a fs_scheme) run" where
  "BiGetInodeBlockBase L read inode block s =
     (if block < 12 then ret (ucast (load32 (memory s) (DirectBlock inode (unat block))), s)
      else
        let (level, block) = indirection_level (BiIndirectionShift s) BI_INDIRECT_LEVELS (block - 12) (BiIndirectionCount s)
        in if level \<ge> BI_INDIRECT_LEVELS then crash ''tried to read beyond inode maximum bounds''
           else
             bind_run (follow_pointers L read (level + 1) block (load32 (memory s) (IndirectBlock inode level)) s)
               (\<lambda>(volumeBlock, s). ret (ucast volumeBlock, s)))"

partial_function (option) BiReadFromInode ::
    "'b fs_statics_scheme \<Rightarrow> disk_read \<Rightarrow> u32 \<Rightarrow> u32 \<Rightarrow> u32 \<Rightarrow> u64 \<Rightarrow> bool \<Rightarrow> 'a fs_scheme \<Rightarrow> 'a fs_scheme run" where
  "BiReadFromInode L read inode buffer sz position bypassCache s =
     (if sz \<noteq> 0 then
        let block = drop_bit (unat (BlockSizeShift L (memory s))) position;
            offset = ucast (position AND ucast (BiBlockSize s - 1));
            current = BL_MIN sz (BiBlockSize s - offset)
        in bind_run (BiGetInodeBlockBase L read inode block s) (\<lambda>(base, s).
             let blockBase = push_bit (unat (BlockSizeShift L (memory s))) base
             in bind_run
                  (if blockBase \<noteq> 0 then BlReadFromPartition L read buffer (blockBase + ucast offset) current bypassCache s
                   else ret (write_mem (\<lambda>m. BlFillMemory m buffer 0 current) s))
                  (BiReadFromInode L read inode (buffer + current) (sz - current) (position + ucast current) bypassCache))
      else ret s)"

definition BiInodeSize :: "'b fs_statics_scheme \<Rightarrow> mem \<Rightarrow> u32 \<Rightarrow> u64" where
  "BiInodeSize L m inode =
     (let sz = ucast (InodeSize m inode)
      in if WriteRequiredFeatures L m AND BI_SIZE_64 \<noteq> 0 \<and> BI_TYPE (InodeMode m inode) \<noteq> BI_TYPE_DIR
         then sz OR push_bit 32 (ucast (SizeUpper m inode)) else sz)"

section \<open>Mounting\<close>

definition canonicalize_superblock :: "'b fs_statics_scheme \<Rightarrow> mem \<Rightarrow> mem" where
  "canonicalize_superblock L m =
     (let sb = BiSuperblock L;
          m = store32 m (sb + 24) (BL_LE32 (load32 m (sb + 24)) + 10);
          m = fix_le32 (sb + 32) m;
          m = fix_le32 (sb + 40) m;
          m = fix_le32 (sb + 76) m
      in if VersionMajor L m < 1 then
           let m = store16 m (sb + 88) 128;
               m = store32 m (sb + 92) 0;
               m = store32 m (sb + 96) 0
           in store32 m (sb + 100) 0
         else
           let m = fix_le16 (sb + 88) m;
               m = fix_le32 (sb + 92) m;
               m = fix_le32 (sb + 96) m
           in fix_le32 (sb + 100) m)"

definition set_geometry :: "'b fs_statics_scheme \<Rightarrow> 'a fs_scheme \<Rightarrow> 'a fs_scheme" where
  "set_geometry L s =
     (let shift = unat (BlockSizeShift L (memory s));
          s = s\<lparr>BiBlockSize := push_bit shift 1,
                BiBgdtLocation := push_bit shift (drop_bit shift BI_SUPERBLOCK_OFFSET + 1),
                BiInodeShift := of_int (BlCountTrailingZeroes (ucast (SbInodeSize L (memory s)))),
                BiIndirectionShift := BlockSizeShift L (memory s) - 2\<rparr>;
          s = s\<lparr>BiIndirectionCount := push_bit (unat (BiIndirectionShift s)) 1\<rparr>
      in s\<lparr>BiIndirectionMask := BiIndirectionCount s - 1\<rparr>)"

definition BlFsInitialize :: "'b fs_statics_scheme \<Rightarrow> disk_read \<Rightarrow> 'a fs_scheme \<Rightarrow> (bool \<times> 'a fs_scheme) run" where
  "BlFsInitialize L read s =
     bind_run (BlReadFromPartition L read (BiSuperblock L) BI_SUPERBLOCK_OFFSET SIZEOF_BiSuperblock False s) (\<lambda>s.
       if BL_LE16 (Signature L (memory s)) \<noteq> BI_SIGNATURE then ret (False, s)
       else
         let s = write_mem (canonicalize_superblock L) s;
             missingFeatures = RequiredFeatures L (memory s) AND NOT BI_RO_FEATURES;
             inodeSize = SbInodeSize L (memory s)
         in if missingFeatures \<noteq> 0 then
              bind_run (print (bytes ''BlFsInitialize: missing required filesystem features 0x%x'' @ [10]) [Word missingFeatures] s)
                (\<lambda>s. ret (False, s))
            else if (ucast inodeSize :: u32) AND (ucast inodeSize - 1) \<noteq> 0 then
              bind_run (print (bytes ''BlFsInitialize: inode size %u is not a power of two'' @ [10]) [Word (ucast inodeSize)] s)
                (\<lambda>s. ret (False, s))
            else
              bind_run (BiReadInode L read (BiRoot L) BI_ROOT_INODE (set_geometry L s)) (\<lambda>s. ret (True, s)))"

section \<open>Directories and paths\<close>

partial_function (option) scan_directory ::
    "'b fs_statics_scheme \<Rightarrow> disk_read \<Rightarrow> u32 \<Rightarrow> u32 \<Rightarrow> u32 \<Rightarrow> u32 \<Rightarrow> u32 \<Rightarrow> u64 \<Rightarrow> 'a fs_scheme \<Rightarrow> (bool \<times> 'a fs_scheme) run" where
  "scan_directory L read out dir name nameLength buffer offset s =
     (if BiInodeSize L (memory s) dir - offset \<ge> ucast SIZEOF_BiEntry then
        bind_run (BiReadFromInode L read dir out SIZEOF_BiEntry offset False s) (\<lambda>s.
          let s = write_mem (fix_le32 out) s;
              s = write_mem (fix_le16 (out + 4)) s
          in if (RequiredFeatures L (memory s) AND BI_DIR_TYPES \<noteq> 0 \<or> EntryType (memory s) out = 0)
                \<and> EntryInode (memory s) out \<noteq> 0 \<and> ucast (EntryNameLength (memory s) out) = nameLength
             then
               bind_run (BiReadFromInode L read dir buffer nameLength (offset + ucast SIZEOF_BiEntry) False s) (\<lambda>s.
                 if BlCompareMemory (memory s) buffer name nameLength = 0 then ret (True, BlFreeHeap buffer s)
                 else scan_directory L read out dir name nameLength buffer (offset + ucast (EntrySize (memory s) out)) s)
             else scan_directory L read out dir name nameLength buffer (offset + ucast (EntrySize (memory s) out)) s)
      else ret (False, BlFreeHeap buffer s))"

definition BiFindEntryInDirectory ::
    "'b fs_statics_scheme \<Rightarrow> disk_read \<Rightarrow> u32 \<Rightarrow> u32 \<Rightarrow> u32 \<Rightarrow> u32 \<Rightarrow> 'a fs_scheme \<Rightarrow> (bool \<times> 'a fs_scheme) run" where
  "BiFindEntryInDirectory L read out dir name nameLength s =
     (if nameLength > BI_MAX_NAME_LEN then ret (False, s)
      else bind_run (BlAllocateHeap nameLength 1 False s) (\<lambda>(buffer, s). scan_directory L read out dir name nameLength buffer 0 s))"

definition BiMaybeFreeInode :: "'b fs_statics_scheme \<Rightarrow> u32 \<Rightarrow> 'a fs_scheme \<Rightarrow> 'a fs_scheme" where
  "BiMaybeFreeInode L inode s = (if inode \<noteq> BiRoot L then BlFreeHeap inode s else s)"

text \<open>The scans over a path: leading slashes, and the length of the first component.\<close>

function skip_slashes :: "mem \<Rightarrow> u32 \<Rightarrow> u32 \<Rightarrow> u32 \<times> u32" where
  "skip_slashes m path len =
     (if len > 0 \<and> m path = ch (CHR ''/'') then skip_slashes m (path + 1) (len - 1) else (path, len))"
  by auto
termination
  by (relation "measure (\<lambda>(m, path, len). unat len)") (auto simp: unat_gt_0 unat_minus_one)

function component_length :: "mem \<Rightarrow> u32 \<Rightarrow> u32 \<Rightarrow> u32 \<Rightarrow> u32" where
  "component_length m path len componentLength =
     (if componentLength < len \<and> m (path + componentLength) \<noteq> ch (CHR ''/'')
      then component_length m path len (componentLength + 1) else componentLength)"
  by auto
termination
  by (relation "measure (\<lambda>(m, path, len, componentLength). unat (len - componentLength))") (auto simp: unat_minus_one_diff)

declare skip_slashes.simps [simp del] component_length.simps [simp del]

text \<open>
  The loop of \<open>BiFindInode\<close> over the components of a path; the recursion for a symbolic link enters the function
  anew and so repeats its first tests.
\<close>

partial_function (option) walk_path ::
    "'b fs_statics_scheme \<Rightarrow> disk_read \<Rightarrow> u32 \<Rightarrow> u32 \<Rightarrow> u32 \<Rightarrow> u32 \<Rightarrow> 'a fs_scheme \<Rightarrow> (u32 \<times> 'a fs_scheme) run" where
  "walk_path L read inode path len symlinks s =
     (if BI_TYPE (InodeMode (memory s) inode) \<noteq> BI_TYPE_DIR then ret (0, BiMaybeFreeInode L inode s)
      else
        let (path, len) = skip_slashes (memory s) path len
        in if len = 0 then ret (inode, s)
           else
             let componentLength = component_length (memory s) path len 0;
                 entry = entry_at L symlinks
             in bind_run (BiFindEntryInDirectory L read entry inode path componentLength s) (\<lambda>(found, s).
                  if \<not> found then ret (0, BiMaybeFreeInode L inode s)
                  else
                    bind_run (BlAllocateHeap SIZEOF_BiInode 4 False s) (\<lambda>(newInode, s).
                    bind_run (BiReadInode L read newInode (EntryInode (memory s) entry) s) (\<lambda>s.
                    bind_run
                      (if BI_TYPE (InodeMode (memory s) newInode) = BI_TYPE_SYM then
                         let sz = ucast (BiInodeSize L (memory s) newInode)
                         in bind_run (BlAllocateHeap sz 1 False s) (\<lambda>(linkPath, s).
                            bind_run (BiReadFromInode L read newInode linkPath sz 0 False s) (\<lambda>s.
                              let s = BiMaybeFreeInode L newInode s
                              in bind_run
                                   (if symlinks + 1 = BI_MAX_SYMLINKS \<or> sz = 0 then ret (0, s)
                                    else walk_path L read (if memory s linkPath = ch (CHR ''/'') then BiRoot L else inode)
                                           linkPath sz (symlinks + 1) s)
                                   (\<lambda>(newInode, s). ret (newInode, BlFreeHeap linkPath s))))
                       else ret (newInode, s))
                      (\<lambda>(newInode, s).
                        let s = BiMaybeFreeInode L inode s;
                            path = path + componentLength; len = len - componentLength
                        in if newInode = 0 then ret (0, s)
                           else if len > 0 then walk_path L read newInode path len symlinks s
                           else ret (newInode, s)))))
     )"

definition BiFindInode ::
    "'b fs_statics_scheme \<Rightarrow> disk_read \<Rightarrow> u32 \<Rightarrow> u32 \<Rightarrow> u32 \<Rightarrow> u32 \<Rightarrow> 'a fs_scheme \<Rightarrow> (u32 \<times> 'a fs_scheme) run" where
  "BiFindInode L read inode path len symlinks s =
     (if symlinks = BI_MAX_SYMLINKS then ret (0, s)
      else if len = 0 then ret (0, s)
      else walk_path L read (if memory s path = ch (CHR ''/'') then BiRoot L else inode) path len symlinks s)"

section \<open>The interface\<close>

definition BlFsFind :: "'b fs_statics_scheme \<Rightarrow> disk_read \<Rightarrow> u32 \<Rightarrow> 'a fs_scheme \<Rightarrow> (u32 \<times> 'a fs_scheme) run" where
  "BlFsFind L read path s =
     Option.bind (BlStringLength (memory s) path) (\<lambda>len.
       bind_run (BiFindInode L read (BiRoot L) path len 0 s) (\<lambda>(inode, s).
         if inode = 0 then ret (0, s)
         else if BI_TYPE (InodeMode (memory s) inode) \<noteq> BI_TYPE_REG
         then ret (0, if inode \<noteq> BiRoot L then BlFreeHeap inode s else s)
         else ret (inode, s)))"

definition BlFsFileSize :: "'b fs_statics_scheme \<Rightarrow> u32 \<Rightarrow> 'a fs_scheme \<Rightarrow> u64" where
  "BlFsFileSize L file s = BiInodeSize L (memory s) file"

definition BlFsFileRead ::
    "'b fs_statics_scheme \<Rightarrow> disk_read \<Rightarrow> u32 \<Rightarrow> u32 \<Rightarrow> u32 \<Rightarrow> u64 \<Rightarrow> bool \<Rightarrow> 'a fs_scheme \<Rightarrow> 'a fs_scheme run" where
  "BlFsFileRead L read file buffer count position bypassCache s =
     (if count = 0 then ret s
      else
        let fileSize = BiInodeSize L (memory s) file
        in if position > fileSize then ret s
           else
             let avail = position - fileSize
             in if ucast count > avail then ret s
                else BiReadFromInode L read file buffer count position bypassCache s)"

definition BlFsFree :: "'b fs_statics_scheme \<Rightarrow> u32 \<Rightarrow> 'a fs_scheme \<Rightarrow> 'a fs_scheme" where
  "BlFsFree L file s = BiMaybeFreeInode L file s"

end
