(* ===== verification/Device_Tree.thy ===== *)
theory Device_Tree
  imports Filesystem Paging
begin

text \<open>
  The device tree builder, \<^verbatim>\<open>bootloader/dt.c\<close>. Nodes, properties and interned strings are
  structures in memory, on the heap; lists of children and hash buckets are the intrusive lists,
  whose heads lie in memory too. The blob is written into one permanent allocation. Arrays a caller
  passes (\<open>data\<close> of \<open>BlDtAddPropertyU32s\<close> and \<open>BlDtAddPropertyStrings\<close>) are the lists of their
  elements.
\<close>

section \<open>State and objects\<close>

record dt = fs +
  BlDtRsvMem :: u32
  BlDtRsvMemCount :: u32
  BlDtStrings :: u32
  BlDtStringsCount :: u32
  BlDtStringsCapacity :: u32
  BlDtStringsSize :: u32
  BlDtStructureSize :: u32
  next_phandle :: u32

text \<open>Addresses of statics: the root node, the kernel's header and the root page table.\<close>

record dt_statics = fs_statics +
  BlDtRootNode :: u32
  BlKernelHeader :: u32
  BlPageTable :: u32

definition struct_BlDtRsvMem :: struct where
  "struct_BlDtRsvMem = [(''Address'', 8), (''Size'', 8)]"

definition struct_BlDtString :: struct where
  "struct_BlDtString = [(''Node'', 8), (''Data'', 4), (''Identifier'', 4)]"

definition struct_BlDtProperty :: struct where
  "struct_BlDtProperty = [(''Name'', 4), (''Data'', 4), (''Size'', 4)]"

definition struct_BlDtNode :: struct where
  "struct_BlDtNode =
     [(''Parent'', 4), (''Node'', 8), (''Name'', 4), (''Children'', 8), (''Properties'', 4), (''NumberOfProperties'', 4)]"

definition SIZEOF_BlDtRsvMem :: u32 where "SIZEOF_BlDtRsvMem = 16"
definition SIZEOF_BlDtString :: u32 where "SIZEOF_BlDtString = 16"
definition SIZEOF_BlDtProperty :: u32 where "SIZEOF_BlDtProperty = 12"
definition SIZEOF_BlDtNode :: u32 where "SIZEOF_BlDtNode = 32"
definition SIZEOF_BlList :: u32 where "SIZEOF_BlList = 8"

definition StringNext :: "mem \<Rightarrow> u32 \<Rightarrow> u32" where "StringNext m e = BL_CONTAINER 0 (NodeNext m e)"
definition StringData :: "mem \<Rightarrow> u32 \<Rightarrow> u32" where "StringData m e = load32 m (e + 8)"
definition Identifier :: "mem \<Rightarrow> u32 \<Rightarrow> u32" where "Identifier m e = load32 m (e + 12)"

definition PropName :: "mem \<Rightarrow> u32 \<Rightarrow> u32" where "PropName m p = load32 m p"
definition PropData :: "mem \<Rightarrow> u32 \<Rightarrow> u32" where "PropData m p = load32 m (p + 4)"
definition PropSize :: "mem \<Rightarrow> u32 \<Rightarrow> u32" where "PropSize m p = load32 m (p + 8)"

definition NodeParent :: "mem \<Rightarrow> u32 \<Rightarrow> u32" where "NodeParent m n = load32 m n"
definition NodeLink :: "u32 \<Rightarrow> u32" where "NodeLink n = n + 4"
definition SiblingNext :: "mem \<Rightarrow> u32 \<Rightarrow> u32" where "SiblingNext m n = BL_CONTAINER 4 (NodeNext m (NodeLink n))"
definition NodeName :: "mem \<Rightarrow> u32 \<Rightarrow> u32" where "NodeName m n = load32 m (n + 12)"
definition NodeChildren :: "u32 \<Rightarrow> u32" where "NodeChildren n = n + 16"
definition NodeProperties :: "mem \<Rightarrow> u32 \<Rightarrow> u32" where "NodeProperties m n = load32 m (n + 24)"
definition NumberOfProperties :: "mem \<Rightarrow> u32 \<Rightarrow> u32" where "NumberOfProperties m n = load32 m (n + 28)"

lemma dt_field_offsets:
  "StringData m e = load32 m (e + field_offset struct_BlDtString ''Data'')"
  "Identifier m e = load32 m (e + field_offset struct_BlDtString ''Identifier'')"
  "PropData m p = load32 m (p + field_offset struct_BlDtProperty ''Data'')"
  "PropSize m p = load32 m (p + field_offset struct_BlDtProperty ''Size'')"
  "NodeLink n = n + field_offset struct_BlDtNode ''Node''"
  "NodeName m n = load32 m (n + field_offset struct_BlDtNode ''Name'')"
  "NodeChildren n = n + field_offset struct_BlDtNode ''Children''"
  "NodeProperties m n = load32 m (n + field_offset struct_BlDtNode ''Properties'')"
  "NumberOfProperties m n = load32 m (n + field_offset struct_BlDtNode ''NumberOfProperties'')"
  "SIZEOF_BlDtRsvMem = struct_size struct_BlDtRsvMem" "SIZEOF_BlDtString = struct_size struct_BlDtString"
  "SIZEOF_BlDtProperty = struct_size struct_BlDtProperty" "SIZEOF_BlDtNode = struct_size struct_BlDtNode"
  by (simp_all add: StringData_def Identifier_def PropData_def PropSize_def NodeLink_def NodeName_def NodeChildren_def
      NodeProperties_def NumberOfProperties_def struct_BlDtString_def struct_BlDtProperty_def struct_BlDtNode_def
      struct_BlDtRsvMem_def SIZEOF_BlDtRsvMem_def SIZEOF_BlDtString_def SIZEOF_BlDtProperty_def SIZEOF_BlDtNode_def struct_size_def)

text \<open>A list whose head and tail lie in memory.\<close>

definition load_list :: "mem \<Rightarrow> u32 \<Rightarrow> BlList" where
  "load_list m a = \<lparr>Head = load32 m a, Tail = load32 m (a + 4)\<rparr>"

definition store_list :: "mem \<Rightarrow> u32 \<Rightarrow> BlList \<Rightarrow> mem" where
  "store_list m a l = store32 (store32 m a (Head l)) (a + 4) (Tail l)"

definition list_push :: "u32 \<Rightarrow> u32 \<Rightarrow> mem \<Rightarrow> mem" where
  "list_push a node m = (let (l, m) = BlListInsertAfter (load_list m a) 0 node m in store_list m a l)"

definition list_append :: "u32 \<Rightarrow> u32 \<Rightarrow> mem \<Rightarrow> mem" where
  "list_append a node m = (let (l, m) = BlListInsertBefore (load_list m a) 0 node m in store_list m a l)"

definition BL_DT_NODE_SIZE :: "u32 \<Rightarrow> u32" where "BL_DT_NODE_SIZE nameLength = 8 + BL_ALIGN_UP (nameLength + 1) 4"
definition BL_DT_PROP_SIZE :: "u32 \<Rightarrow> u32" where "BL_DT_PROP_SIZE dataSize = 12 + BL_ALIGN_UP dataSize 4"

text \<open>The statics as they are linked.\<close>

definition dt_init :: "'a dt_scheme \<Rightarrow> 'a dt_scheme" where
  "dt_init s = s\<lparr>BlDtRsvMem := 0, BlDtRsvMemCount := 0, BlDtStrings := 0, BlDtStringsCount := 0, BlDtStringsCapacity := 0,
     BlDtStringsSize := 0, BlDtStructureSize := 16, next_phandle := 0\<rparr>"

text \<open>\<open>BL_ASSERT\<close> in this file.\<close>

definition assertion :: "bool \<Rightarrow> string \<Rightarrow> string \<Rightarrow> nat \<Rightarrow> unit run" where
  "assertion c expr func line =
     (if c then ret () else crash_with ''assertion failed: `%s` in %s at %s:%d''
        [Str (bytes expr), Str (bytes func), Str (bytes ''dt.c''), Word (of_nat line)])"

section \<open>Strings\<close>

partial_function (option) hash_from :: "mem \<Rightarrow> u32 \<Rightarrow> u32 \<Rightarrow> u32 option" where
  "hash_from m str hash =
     (if m str \<noteq> 0 then hash_from m (str + 1) ((hash XOR ucast (m str)) * 0x01000193) else Some hash)"

definition BlDtHash :: "mem \<Rightarrow> u32 \<Rightarrow> u32 option" where
  "BlDtHash m str = hash_from m str 0x811c9dc5"

definition BlDuplicateString :: "u32 \<Rightarrow> 'a heap_scheme \<Rightarrow> (u32 \<times> 'a heap_scheme) run" where
  "BlDuplicateString str s =
     Option.bind (BlStringLength (memory s) str) (\<lambda>len.
     bind_run (BlAllocateHeap (len + 1) 1 False s) (\<lambda>(mem, s).
       ret (mem, s\<lparr>memory := BlCopyMemory (memory s) mem str (len + 1)\<rparr>)))"

partial_function (option) find_string :: "mem \<Rightarrow> u32 \<Rightarrow> u32 \<Rightarrow> u32 option" where
  "find_string m str ent =
     (if ent = 0 then Some 0
      else Option.bind (BlCompareStrings m (StringData m ent) str) (\<lambda>c.
        if c = 0 then Some ent else find_string m str (StringNext m ent)))"

partial_function (option) rehash_bucket :: "u32 \<Rightarrow> u32 \<Rightarrow> u32 \<Rightarrow> mem \<Rightarrow> mem option" where
  "rehash_bucket newTable newCapacity cur m =
     (if cur \<noteq> 0 then
        let next = StringNext m cur
        in Option.bind (BlDtHash m (StringData m cur)) (\<lambda>h.
             let newBucket = h AND (newCapacity - 1)
             in rehash_bucket newTable newCapacity next (list_push (newTable + SIZEOF_BlList * newBucket) cur m))
      else Some m)"

partial_function (option) rehash_from :: "u32 \<Rightarrow> u32 \<Rightarrow> u32 \<Rightarrow> u32 \<Rightarrow> u32 \<Rightarrow> mem \<Rightarrow> mem option" where
  "rehash_from table capacity newTable newCapacity i m =
     (if i < capacity then
        Option.bind (rehash_bucket newTable newCapacity (BL_CONTAINER 0 (load32 m (table + SIZEOF_BlList * i))) m)
          (rehash_from table capacity newTable newCapacity (i + 1))
      else Some m)"

definition grow_strings :: "'a dt_scheme \<Rightarrow> 'a dt_scheme run" where
  "grow_strings s =
     (let newCapacity = (if BlDtStringsCapacity s \<noteq> 0 then BlDtStringsCapacity s * 2 else 8)
      in bind_run (BlAllocateHeap (SIZEOF_BlList * newCapacity) 4 False s) (\<lambda>(newTable, s).
         let m = BlFillMemory (memory s) newTable 0 (newCapacity * SIZEOF_BlList)
         in Option.bind (rehash_from (BlDtStrings s) (BlDtStringsCapacity s) newTable newCapacity 0 m) (\<lambda>m.
              let s = BlFreeHeap (BlDtStrings s) (s\<lparr>memory := m\<rparr>)
              in ret (s\<lparr>BlDtStrings := newTable, BlDtStringsCapacity := newCapacity\<rparr>))))"

definition add_string :: "u32 \<Rightarrow> u32 \<Rightarrow> 'a dt_scheme \<Rightarrow> (u32 \<times> 'a dt_scheme) run" where
  "add_string str hash s =
     bind_run (BlAllocateHeap SIZEOF_BlDtString 4 False s) (\<lambda>(ent, s).
     bind_run (BlDuplicateString str s) (\<lambda>(data, s).
       let m = store32 (memory s) (ent + 8) data;
           bucket = hash AND (BlDtStringsCapacity s - 1);
           m = list_push (BlDtStrings s + SIZEOF_BlList * bucket) ent m
       in Option.bind (BlStringLength m str) (\<lambda>len.
            ret (ent, s\<lparr>memory := m, BlDtStringsCount := BlDtStringsCount s + 1,
              BlDtStringsSize := BlDtStringsSize s + (len + 1)\<rparr>))))"

definition BlDtGetString :: "u32 \<Rightarrow> 'a dt_scheme \<Rightarrow> (u32 \<times> 'a dt_scheme) run" where
  "BlDtGetString str s =
     Option.bind (BlDtHash (memory s) str) (\<lambda>hash.
     Option.bind (if BlDtStringsCount s \<noteq> 0
        then let bucket = hash AND (BlDtStringsCapacity s - 1)
             in find_string (memory s) str (BL_CONTAINER 0 (load32 (memory s) (BlDtStrings s + SIZEOF_BlList * bucket)))
        else Some 0) (\<lambda>ent.
     if ent \<noteq> 0 then ret (ent, s)
     else if BlDtStringsCount s \<ge> BlDtStringsCapacity s - BlDtStringsCapacity s div 4
     then bind_run (grow_strings s) (add_string str hash)
     else add_string str hash s))"

section \<open>Nodes and properties\<close>

definition BlDtAddReservedMemory :: "u64 \<Rightarrow> u64 \<Rightarrow> 'a dt_scheme \<Rightarrow> 'a dt_scheme run" where
  "BlDtAddReservedMemory addr sz s =
     (let index = BlDtRsvMemCount s; s = s\<lparr>BlDtRsvMemCount := index + 1\<rparr>
      in bind_run (BlResizeHeap (BlDtRsvMem s) (SIZEOF_BlDtRsvMem * BlDtRsvMemCount s) 8 s) (\<lambda>(p, s).
           let m = store64 (memory s) (p + SIZEOF_BlDtRsvMem * index) addr;
               m = store64 m (p + SIZEOF_BlDtRsvMem * index + 8) sz
           in ret (s\<lparr>memory := m, BlDtRsvMem := p\<rparr>)))"

definition BlDtCreateNode :: "'b dt_statics_scheme \<Rightarrow> u32 \<Rightarrow> u32 \<Rightarrow> 'a dt_scheme \<Rightarrow> (u32 \<times> 'a dt_scheme) run" where
  "BlDtCreateNode L parent name s =
     (let parent = (if parent = 0 then BlDtRootNode L else parent)
      in bind_run (BlAllocateHeap SIZEOF_BlDtNode 4 False s) (\<lambda>(node, s).
           let s = s\<lparr>memory := store32 (memory s) node parent\<rparr>
           in bind_run (BlDuplicateString name s) (\<lambda>(dup, s).
                let m = store32 (memory s) (node + 12) dup;
                    m = store_list m (NodeChildren node) BlListInit;
                    m = store32 m (node + 24) 0;
                    m = store32 m (node + 28) 0;
                    m = list_append (NodeChildren parent) (NodeLink node) m
                in Option.bind (BlStringLength m (NodeName m node)) (\<lambda>len.
                     ret (node, s\<lparr>memory := m, BlDtStructureSize := BlDtStructureSize s + BL_DT_NODE_SIZE len\<rparr>)))))"

definition BlDtDoAddProperty ::
    "'b dt_statics_scheme \<Rightarrow> u32 \<Rightarrow> u32 \<Rightarrow> u32 \<Rightarrow> u32 \<Rightarrow> 'a dt_scheme \<Rightarrow> 'a dt_scheme run" where
  "BlDtDoAddProperty L parent name data sz s =
     (let parent = (if parent = 0 then BlDtRootNode L else parent);
          index = NumberOfProperties (memory s) parent;
          s = s\<lparr>memory := store32 (memory s) (parent + 28) (index + 1)\<rparr>
      in bind_run (BlResizeHeap (NodeProperties (memory s) parent)
             (SIZEOF_BlDtProperty * NumberOfProperties (memory s) parent) 4 s) (\<lambda>(p, s).
         let s = s\<lparr>memory := store32 (memory s) (parent + 24) p\<rparr>
         in bind_run (BlDtGetString name s) (\<lambda>(str, s).
              let prop = NodeProperties (memory s) parent + SIZEOF_BlDtProperty * index;
                  m = store32 (memory s) prop str;
                  m = store32 m (prop + 4) data;
                  m = store32 m (prop + 8) sz
              in ret (s\<lparr>memory := m, BlDtStructureSize := BlDtStructureSize s + BL_DT_PROP_SIZE sz\<rparr>))))"

definition BlDtAddProperty ::
    "'b dt_statics_scheme \<Rightarrow> u32 \<Rightarrow> u32 \<Rightarrow> u32 \<Rightarrow> u32 \<Rightarrow> 'a dt_scheme \<Rightarrow> 'a dt_scheme run" where
  "BlDtAddProperty L parent name data sz s =
     bind_run (BlAllocateHeap sz 1 False s) (\<lambda>(buffer, s).
       BlDtDoAddProperty L parent name buffer sz (s\<lparr>memory := BlCopyMemory (memory s) buffer data sz\<rparr>))"

fun store_be32s :: "mem \<Rightarrow> u32 \<Rightarrow> u32 list \<Rightarrow> mem" where
  "store_be32s m buffer [] = m"
| "store_be32s m buffer (d # data) = store_be32s (store32 m buffer (BL_BE32 d)) (buffer + 4) data"

definition BlDtAddPropertyU32s ::
    "'b dt_statics_scheme \<Rightarrow> u32 \<Rightarrow> u32 \<Rightarrow> u32 list \<Rightarrow> 'a dt_scheme \<Rightarrow> 'a dt_scheme run" where
  "BlDtAddPropertyU32s L parent name data s =
     (let count = of_nat (length data)
      in bind_run (BlAllocateHeap (4 * count) 4 False s) (\<lambda>(buffer, s).
           BlDtDoAddProperty L parent name buffer (count * 4) (s\<lparr>memory := store_be32s (memory s) buffer data\<rparr>)))"

fun strings_size :: "mem \<Rightarrow> u32 list \<Rightarrow> u32 \<Rightarrow> u32 option" where
  "strings_size m [] sz = Some sz"
| "strings_size m (str # data) sz =
     Option.bind (BlStringLength m str) (\<lambda>len. strings_size m data (sz + (len + 1)))"

fun copy_strings :: "mem \<Rightarrow> u32 \<Rightarrow> u32 list \<Rightarrow> u32 \<Rightarrow> (mem \<times> u32) option" where
  "copy_strings m buffer [] sz = Some (m, sz)"
| "copy_strings m buffer (str # data) sz =
     Option.bind (BlStringLength m str) (\<lambda>len.
       copy_strings (BlCopyMemory m (buffer + sz) str (len + 1)) buffer data (sz + (len + 1)))"

definition BlDtAddPropertyStrings ::
    "'b dt_statics_scheme \<Rightarrow> u32 \<Rightarrow> u32 \<Rightarrow> u32 list \<Rightarrow> 'a dt_scheme \<Rightarrow> 'a dt_scheme run" where
  "BlDtAddPropertyStrings L parent name data s =
     Option.bind (strings_size (memory s) data 0) (\<lambda>sz.
     bind_run (BlAllocateHeap sz 1 False s) (\<lambda>(buffer, s).
     Option.bind (copy_strings (memory s) buffer data 0) (\<lambda>(m, sz).
       BlDtDoAddProperty L parent name buffer sz (s\<lparr>memory := m\<rparr>))))"

definition BlDtAddPropertyU32 :: "'b dt_statics_scheme \<Rightarrow> u32 \<Rightarrow> u32 \<Rightarrow> u32 \<Rightarrow> 'a dt_scheme \<Rightarrow> 'a dt_scheme run" where
  "BlDtAddPropertyU32 L parent name data s = BlDtAddPropertyU32s L parent name [data] s"

definition BlDtAddPropertyString :: "'b dt_statics_scheme \<Rightarrow> u32 \<Rightarrow> u32 \<Rightarrow> u32 \<Rightarrow> 'a dt_scheme \<Rightarrow> 'a dt_scheme run" where
  "BlDtAddPropertyString L parent name data s = BlDtAddPropertyStrings L parent name [data] s"

partial_function (option) find_child :: "mem \<Rightarrow> u32 \<Rightarrow> u32 \<Rightarrow> u32 option" where
  "find_child m name node =
     (if node = 0 then Some 0
      else Option.bind (BlCompareStrings m (NodeName m node) name) (\<lambda>c.
        if c = 0 then Some node else find_child m name (SiblingNext m node)))"

definition FirstChild :: "mem \<Rightarrow> u32 \<Rightarrow> u32" where
  "FirstChild m n = BL_CONTAINER 4 (Head (load_list m (NodeChildren n)))"

definition BlDtFindNode :: "'b dt_statics_scheme \<Rightarrow> u32 \<Rightarrow> u32 \<Rightarrow> 'a dt_scheme \<Rightarrow> u32 option" where
  "BlDtFindNode L parent name s =
     (let parent = (if parent = 0 then BlDtRootNode L else parent)
      in find_child (memory s) name (FirstChild (memory s) parent))"

definition BlDtFindOrCreateNode :: "'b dt_statics_scheme \<Rightarrow> u32 \<Rightarrow> u32 \<Rightarrow> 'a dt_scheme \<Rightarrow> (u32 \<times> 'a dt_scheme) run" where
  "BlDtFindOrCreateNode L parent name s =
     Option.bind (BlDtFindNode L parent name s) (\<lambda>node.
       if node = 0 then BlDtCreateNode L parent name s else ret (node, s))"

definition BlDtNodeName :: "u32 \<Rightarrow> 'a dt_scheme \<Rightarrow> u32" where
  "BlDtNodeName node s = NodeName (memory s) node"

partial_function (option) path_size :: "mem \<Rightarrow> u32 \<Rightarrow> u32 \<Rightarrow> u32 option" where
  "path_size m current sz =
     (if NodeParent m current \<noteq> 0
      then Option.bind (BlStringLength m (NodeName m current)) (\<lambda>len. path_size m (NodeParent m current) (sz + (len + 1)))
      else Some sz)"

partial_function (option) path_fill :: "u32 \<Rightarrow> u32 \<Rightarrow> u32 \<Rightarrow> mem \<Rightarrow> (u32 \<times> mem) option" where
  "path_fill path current sz m =
     (if NodeParent m current \<noteq> 0
      then Option.bind (BlStringLength m (NodeName m current)) (\<lambda>currentLength.
        let sz = sz - currentLength;
            m = BlCopyMemory m (path + sz) (NodeName m current) currentLength;
            sz = sz - 1;
            m = m(path + sz := ch (CHR ''/''))
        in path_fill path (NodeParent m current) sz m)
      else Some (sz, m))"

definition BlDtNodePath :: "u32 \<Rightarrow> 'a dt_scheme \<Rightarrow> (u32 \<times> 'a dt_scheme) run" where
  "BlDtNodePath node s =
     bind_run (assertion (node \<noteq> 0) ''node != nullptr'' ''BlDtNodePath'' 202) (\<lambda>_.
     Option.bind (path_size (memory s) node 1) (\<lambda>sz.
     bind_run (BlAllocateHeap sz 1 False s) (\<lambda>(path, s).
       let sz = sz - 1; m = (memory s)(path + sz := 0)
       in Option.bind (path_fill path node sz m) (\<lambda>(sz, m).
          bind_run (assertion (sz = 0) ''size == 0'' ''BlDtNodePath'' 220) (\<lambda>_.
            ret (path, s\<lparr>memory := m\<rparr>))))))"

definition BlDtAllocPhandle :: "'a dt_scheme \<Rightarrow> u32 \<times> 'a dt_scheme" where
  "BlDtAllocPhandle s = (let n = next_phandle s + 1 in (n, s\<lparr>next_phandle := n\<rparr>))"

end
