(* ===== verification/Device_Blob.thy ===== *)
theory Device_Blob
  imports Device_Tree
begin

text \<open>
  The second half of \<^verbatim>\<open>bootloader/dt.c\<close>: the flattened device tree. The blob is one permanent
  allocation with the header, the reserved ranges, the structure and the strings in this order;
  the structure is written by a walk over the nodes that keeps only the current and
  the previous node.
\<close>

section \<open>The kernel's header\<close>

text \<open>\<open>struct BiKernelHeader\<close> of \<^verbatim>\<open>bootloader/main.h\<close>, in memory at \<open>BlKernelHeader\<close>.\<close>

definition struct_BiKernelHeader :: struct where
  "struct_BiKernelHeader =
     [(''Magic'', 4), (''MinorVersion'', 2), (''MajorVersion'', 2), (''VirtualAddr'', 4), (''MSize'', 4),
      (''Entry'', 4), (''Flags'', 4), (''DtbAddress'', 4), (''MaxDtbEnd'', 4)]"

definition SIZEOF_BiKernelHeader :: u32 where "SIZEOF_BiKernelHeader = 32"
definition BL_FLAG_MAP_DTB :: u32 where "BL_FLAG_MAP_DTB = 1"

definition KernelMagic :: "'b dt_statics_scheme \<Rightarrow> u32" where "KernelMagic L = BlKernelHeader L"
definition KernelMinorVersion :: "'b dt_statics_scheme \<Rightarrow> u32" where "KernelMinorVersion L = BlKernelHeader L + 4"
definition KernelMajorVersion :: "'b dt_statics_scheme \<Rightarrow> u32" where "KernelMajorVersion L = BlKernelHeader L + 6"
definition KernelVirtualAddr :: "'b dt_statics_scheme \<Rightarrow> u32" where "KernelVirtualAddr L = BlKernelHeader L + 8"
definition KernelMSize :: "'b dt_statics_scheme \<Rightarrow> u32" where "KernelMSize L = BlKernelHeader L + 12"
definition KernelEntry :: "'b dt_statics_scheme \<Rightarrow> u32" where "KernelEntry L = BlKernelHeader L + 16"
definition KernelFlags :: "'b dt_statics_scheme \<Rightarrow> u32" where "KernelFlags L = BlKernelHeader L + 20"
definition KernelDtbAddress :: "'b dt_statics_scheme \<Rightarrow> u32" where "KernelDtbAddress L = BlKernelHeader L + 24"
definition KernelMaxDtbEnd :: "'b dt_statics_scheme \<Rightarrow> u32" where "KernelMaxDtbEnd L = BlKernelHeader L + 28"

lemmas kernel_fields = KernelMagic_def KernelMinorVersion_def KernelMajorVersion_def KernelVirtualAddr_def KernelMSize_def
  KernelEntry_def KernelFlags_def KernelDtbAddress_def KernelMaxDtbEnd_def

lemma kernel_field_offsets:
  "KernelMinorVersion L = BlKernelHeader L + field_offset struct_BiKernelHeader ''MinorVersion''"
  "KernelMajorVersion L = BlKernelHeader L + field_offset struct_BiKernelHeader ''MajorVersion''"
  "KernelVirtualAddr L = BlKernelHeader L + field_offset struct_BiKernelHeader ''VirtualAddr''"
  "KernelMSize L = BlKernelHeader L + field_offset struct_BiKernelHeader ''MSize''"
  "KernelEntry L = BlKernelHeader L + field_offset struct_BiKernelHeader ''Entry''"
  "KernelFlags L = BlKernelHeader L + field_offset struct_BiKernelHeader ''Flags''"
  "KernelDtbAddress L = BlKernelHeader L + field_offset struct_BiKernelHeader ''DtbAddress''"
  "KernelMaxDtbEnd L = BlKernelHeader L + field_offset struct_BiKernelHeader ''MaxDtbEnd''"
  "SIZEOF_BiKernelHeader = struct_size struct_BiKernelHeader"
  by (simp_all add: kernel_fields struct_BiKernelHeader_def SIZEOF_BiKernelHeader_def struct_size_def)

section \<open>The blob's header\<close>

definition struct_BlFdtHeader :: struct where
  "struct_BlFdtHeader =
     [(''Magic'', 4), (''TotalSize'', 4), (''OffDtStruct'', 4), (''OffDtStrings'', 4), (''OffMemRsvmap'', 4),
      (''Version'', 4), (''LastCompVersion'', 4), (''BootCpuidPhys'', 4), (''SizeDtStrings'', 4), (''SizeDtStruct'', 4)]"

definition struct_BlFdtRsvmapEntry :: struct where
  "struct_BlFdtRsvmapEntry = [(''Address'', 8), (''Size'', 8)]"

definition SIZEOF_BlFdtHeader :: u32 where "SIZEOF_BlFdtHeader = 40"
definition SIZEOF_BlFdtRsvmapEntry :: u32 where "SIZEOF_BlFdtRsvmapEntry = 16"
definition BL_FDT_MAGIC :: u32 where "BL_FDT_MAGIC = 0xd00dfeed"
definition BL_FDT_VERSION :: u32 where "BL_FDT_VERSION = 17"
definition BL_FDT_COMP_VERSION :: u32 where "BL_FDT_COMP_VERSION = 16"
definition BL_FDT_BEGIN_NODE :: u32 where "BL_FDT_BEGIN_NODE = 1"
definition BL_FDT_END_NODE :: u32 where "BL_FDT_END_NODE = 2"
definition BL_FDT_PROP :: u32 where "BL_FDT_PROP = 3"
definition BL_FDT_END :: u32 where "BL_FDT_END = 9"

lemma fdt_struct_sizes:
  "SIZEOF_BlFdtHeader = BL_ALIGN_UP (struct_size struct_BlFdtHeader) 8"
  "SIZEOF_BlFdtRsvmapEntry = struct_size struct_BlFdtRsvmapEntry"
  by (simp_all add: SIZEOF_BlFdtHeader_def SIZEOF_BlFdtRsvmapEntry_def struct_size_def struct_BlFdtHeader_def
      struct_BlFdtRsvmapEntry_def BL_ALIGN_UP_def)

definition header_field :: "u32 \<Rightarrow> string \<Rightarrow> u32 \<Rightarrow> mem \<Rightarrow> mem" where
  "header_field header field v m = store32 m (header + field_offset struct_BlFdtHeader field) (BL_BE32 v)"

definition write_header :: "u32 \<Rightarrow> u32 \<Rightarrow> u32 \<Rightarrow> u32 \<Rightarrow> 'a dt_scheme \<Rightarrow> 'a dt_scheme" where
  "write_header header totalSize rsvMapSize whami s =
     (let m = memory s;
          m = header_field header ''Magic'' BL_FDT_MAGIC m;
          m = header_field header ''TotalSize'' totalSize m;
          m = header_field header ''OffDtStruct'' (SIZEOF_BlFdtHeader + rsvMapSize) m;
          m = header_field header ''OffDtStrings'' (SIZEOF_BlFdtHeader + rsvMapSize + BlDtStructureSize s) m;
          m = header_field header ''OffMemRsvmap'' SIZEOF_BlFdtHeader m;
          m = header_field header ''Version'' BL_FDT_VERSION m;
          m = header_field header ''LastCompVersion'' BL_FDT_COMP_VERSION m;
          m = header_field header ''BootCpuidPhys'' whami m;
          m = header_field header ''SizeDtStrings'' (BlDtStringsSize s) m;
          m = header_field header ''SizeDtStruct'' (BlDtStructureSize s) m
      in s\<lparr>memory := m\<rparr>)"

section \<open>Reserved ranges and strings\<close>

function copy_rsvmap :: "u32 \<Rightarrow> u32 \<Rightarrow> u32 \<Rightarrow> u32 \<Rightarrow> mem \<Rightarrow> mem" where
  "copy_rsvmap rsvmap table count i m =
     (if i < count then
        let m = store64 m (rsvmap + SIZEOF_BlFdtRsvmapEntry * i) (load64 m (table + SIZEOF_BlDtRsvMem * i));
            m = store64 m (rsvmap + SIZEOF_BlFdtRsvmapEntry * i + 8) (load64 m (table + SIZEOF_BlDtRsvMem * i + 8))
        in copy_rsvmap rsvmap table count (i + 1) m
      else store64 (store64 m (rsvmap + SIZEOF_BlFdtRsvmapEntry * i) 0) (rsvmap + SIZEOF_BlFdtRsvmapEntry * i + 8) 0)"
  by auto
termination
  by (relation "measure (\<lambda>(r, t, count, i, m). unat (count - i))") (auto simp: unat_minus_one_diff)

declare copy_rsvmap.simps [simp del]

partial_function (option) add_strings :: "u32 \<Rightarrow> u32 \<Rightarrow> u32 \<Rightarrow> 'a dt_scheme \<Rightarrow> (u32 \<times> 'a dt_scheme) run" where
  "add_strings strings str offset s =
     (if str = 0 then ret (offset, s)
      else Option.bind (BlStringLength (memory s) (StringData (memory s) str)) (\<lambda>len.
        let sz = len + 1; newOffset = offset + sz
        in bind_run (assertion (newOffset \<le> BlDtStringsSize s) ''newOffset <= BlDtStringsSize'' ''BlDtBuildBlob'' 334) (\<lambda>_.
             let m = store32 (memory s) (str + 12) offset;
                 m = BlCopyMemory m (strings + offset) (StringData m str) sz
             in add_strings strings (StringNext m str) newOffset (s\<lparr>memory := m\<rparr>))))"

partial_function (option) add_buckets :: "u32 \<Rightarrow> u32 \<Rightarrow> u32 \<Rightarrow> 'a dt_scheme \<Rightarrow> (u32 \<times> 'a dt_scheme) run" where
  "add_buckets strings i offset s =
     (if i < BlDtStringsCapacity s then
        bind_run (add_strings strings (BL_CONTAINER 0 (load32 (memory s) (BlDtStrings s + SIZEOF_BlList * i))) offset s)
          (\<lambda>(offset, s). add_buckets strings (i + 1) offset s)
      else ret (offset, s))"

section \<open>The structure\<close>

definition BlDtAddDataAndAlign :: "u32 \<Rightarrow> u32 \<Rightarrow> u32 \<Rightarrow> u32 \<Rightarrow> 'a dt_scheme \<Rightarrow> (u32 \<times> 'a dt_scheme) run" where
  "BlDtAddDataAndAlign structure offset data sz s =
     (let aligned = BL_ALIGN_UP sz 4; curOff = offset; newOff = curOff + aligned
      in bind_run (assertion (newOff \<le> BlDtStructureSize s) ''newOff <= BlDtStructureSize'' ''BlDtAddDataAndAlign'' 261) (\<lambda>_.
           let m = BlCopyMemory (memory s) (structure + curOff) data sz;
               m = BlFillMemory m (structure + curOff + sz) 0 (aligned - sz)
           in ret (newOff, s\<lparr>memory := m\<rparr>)))"

definition BlDtAddToken :: "u32 \<Rightarrow> u32 \<Rightarrow> u32 \<Rightarrow> 'a dt_scheme \<Rightarrow> (u32 \<times> 'a dt_scheme) run" where
  "BlDtAddToken structure offset token s =
     (let curOff = offset; newOff = curOff + 4
      in bind_run (assertion (newOff \<le> BlDtStructureSize s) ''newOff <= BlDtStructureSize'' ''BlDtAddToken'' 272) (\<lambda>_.
           ret (newOff, s\<lparr>memory := store32 (memory s) (structure + curOff) (BL_BE32 token)\<rparr>)))"

partial_function (option) add_properties :: "u32 \<Rightarrow> u32 \<Rightarrow> u32 \<Rightarrow> u32 \<Rightarrow> 'a dt_scheme \<Rightarrow> (u32 \<times> 'a dt_scheme) run" where
  "add_properties structure node i offset s =
     (if i < NumberOfProperties (memory s) node then
        let property = NodeProperties (memory s) node + SIZEOF_BlDtProperty * i
        in bind_run (BlDtAddToken structure offset BL_FDT_PROP s) (\<lambda>(offset, s).
           bind_run (BlDtAddToken structure offset (PropSize (memory s) property) s) (\<lambda>(offset, s).
           bind_run (BlDtAddToken structure offset (Identifier (memory s) (PropName (memory s) property)) s) (\<lambda>(offset, s).
           bind_run (BlDtAddDataAndAlign structure offset (PropData (memory s) property) (PropSize (memory s) property) s)
             (\<lambda>(offset, s). add_properties structure node (i + 1) offset s))))
      else ret (offset, s))"

definition begin_node :: "u32 \<Rightarrow> u32 \<Rightarrow> u32 \<Rightarrow> 'a dt_scheme \<Rightarrow> (u32 \<times> 'a dt_scheme) run" where
  "begin_node structure node offset s =
     bind_run (BlDtAddToken structure offset BL_FDT_BEGIN_NODE s) (\<lambda>(offset, s).
     Option.bind (BlStringLength (memory s) (NodeName (memory s) node)) (\<lambda>len.
     bind_run (BlDtAddDataAndAlign structure offset (NodeName (memory s) node) (len + 1) s) (\<lambda>(offset, s).
       add_properties structure node 0 offset s)))"

partial_function (option) build_structure :: "u32 \<Rightarrow> u32 \<Rightarrow> u32 \<Rightarrow> u32 \<Rightarrow> 'a dt_scheme \<Rightarrow> (u32 \<times> 'a dt_scheme) run" where
  "build_structure structure node previous offset s =
     (if node \<noteq> 0 then
        bind_run (if previous = NodeParent (memory s) node
            then bind_run (begin_node structure node offset s) (\<lambda>(offset, s). ret (FirstChild (memory s) node, offset, s))
            else ret (SiblingNext (memory s) previous, offset, s)) (\<lambda>(previous, offset, s).
          if previous \<noteq> 0 then build_structure structure previous node offset s
          else bind_run (BlDtAddToken structure offset BL_FDT_END_NODE s) (\<lambda>(offset, s).
                 build_structure structure (NodeParent (memory s) node) node offset s))
      else ret (offset, s))"

section \<open>Building the blob\<close>

partial_function (option) map_blob :: "'b dt_statics_scheme \<Rightarrow> u32 \<Rightarrow> u32 \<Rightarrow> u32 \<Rightarrow> 'a heap_scheme \<Rightarrow> 'a heap_scheme run" where
  "map_blob L phys totalSize offset s =
     (if offset < totalSize then
        bind_run (BlMapPage (BlPageTable L) (load32 (memory s) (KernelDtbAddress L) + offset) (phys + offset) s)
          (map_blob L phys totalSize (offset + BL_PAGE_SIZE))
      else ret s)"

text \<open>Everything behind the allocation and the mapping.\<close>

definition fill_blob :: "'b dt_statics_scheme \<Rightarrow> u32 \<Rightarrow> u32 \<Rightarrow> u32 \<Rightarrow> u32 \<Rightarrow> 'a dt_scheme \<Rightarrow> (u32 \<times> 'a dt_scheme) run" where
  "fill_blob L header totalSize rsvMapSize whami s =
     (let rsvmap = header + SIZEOF_BlFdtHeader;
          structure = rsvmap + rsvMapSize;
          strings = structure + BlDtStructureSize s;
          s = write_header header totalSize rsvMapSize whami s;
          s = s\<lparr>memory := copy_rsvmap rsvmap (BlDtRsvMem s) (BlDtRsvMemCount s) 0 (memory s)\<rparr>
      in bind_run (add_buckets strings 0 0 s) (\<lambda>(offset, s).
         bind_run (assertion (offset = BlDtStringsSize s) ''offset == BlDtStringsSize'' ''BlDtBuildBlob'' 342) (\<lambda>_.
         bind_run (build_structure structure (BlDtRootNode L) 0 0 s) (\<lambda>(offset, s).
         bind_run (BlDtAddToken structure offset BL_FDT_END s) (\<lambda>(offset, s).
         bind_run (assertion (offset = BlDtStructureSize s) ''offset == BlDtStructureSize'' ''BlDtBuildBlob'' 379) (\<lambda>_.
           ret (header, s)))))))"

definition BlDtBuildBlob :: "'b dt_statics_scheme \<Rightarrow> u32 \<Rightarrow> 'a dt_scheme \<Rightarrow> (u32 \<times> 'a dt_scheme) run" where
  "BlDtBuildBlob L whami s =
     bind_run (print (bytes ''Creating device tree blob'' @ [10]) [] s) (\<lambda>s.
       let rsvMapSize = (BlDtRsvMemCount s + 1) * SIZEOF_BlFdtRsvmapEntry;
           totalSize = SIZEOF_BlFdtHeader + rsvMapSize + BlDtStructureSize s + BlDtStringsSize s;
           mapped = (load32 (memory s) (KernelFlags L) AND BL_FLAG_MAP_DTB \<noteq> 0);
           alignment = (if mapped then BL_MAX 8 BL_PAGE_SIZE else 8)
       in if mapped \<and> load32 (memory s) (KernelDtbAddress L) + (totalSize - 1) > load32 (memory s) (KernelMaxDtbEnd L)
          then crash ''device tree too large to map''
          else bind_run (BlAllocateHeap totalSize alignment True s) (\<lambda>(header, s).
               bind_run (if mapped then map_blob L header totalSize 0 s else ret s) (\<lambda>s.
                 fill_blob L header totalSize rsvMapSize whami s)))"

end
