(* ===== verification/Fdt_Format.thy ===== *)
theory Fdt_Format
  imports Prelude
begin

text \<open>
  The flattened device tree as a format of byte lists: what a tree is written as, and a reader that
  follows the format's definition (tokens, a stack of open nodes, names looked up in the strings). Reading
  back what was written gives the tree.
\<close>

section \<open>Trees and their bytes\<close>

datatype fdt = Fdt (fdt_name: "u8 list") (fdt_props: "(u8 list \<times> u8 list) list") (fdt_kids: "fdt list")

definition be32 :: "u32 \<Rightarrow> u8 list" where
  "be32 v = [ucast (drop_bit 24 v), ucast (drop_bit 16 v), ucast (drop_bit 8 v), ucast v]"

definition of_be32 :: "u8 list \<Rightarrow> u32" where
  "of_be32 bs = push_bit 24 (ucast (bs ! 0)) OR push_bit 16 (ucast (bs ! 1)) OR push_bit 8 (ucast (bs ! 2)) OR ucast (bs ! 3)"

definition up4 :: "nat \<Rightarrow> nat" where
  "up4 n = (n + 3) div 4 * 4"

definition pad4 :: "u8 list \<Rightarrow> u8 list" where
  "pad4 bs = bs @ replicate (up4 (length bs) - length bs) 0"

text \<open>The structure block; \<open>off\<close> gives the offset of a name in the strings.\<close>

definition prop_bytes :: "(u8 list \<Rightarrow> u32) \<Rightarrow> u8 list \<times> u8 list \<Rightarrow> u8 list" where
  "prop_bytes off p = be32 3 @ be32 (of_nat (length (snd p))) @ be32 (off (fst p)) @ pad4 (snd p)"

fun node_bytes :: "(u8 list \<Rightarrow> u32) \<Rightarrow> fdt \<Rightarrow> u8 list" where
  "node_bytes off (Fdt nm ps ks) =
     be32 1 @ pad4 (nm @ [0]) @ concat (map (prop_bytes off) ps) @ concat (map (node_bytes off) ks) @ be32 2"

definition struct_bytes :: "(u8 list \<Rightarrow> u32) \<Rightarrow> fdt \<Rightarrow> u8 list" where
  "struct_bytes off t = node_bytes off t @ be32 9"

text \<open>The number of bytes, independent of the offsets.\<close>

fun node_size :: "fdt \<Rightarrow> nat" where
  "node_size (Fdt nm ps ks) =
     8 + up4 (length nm + 1) + sum_list (map (\<lambda>p. 12 + up4 (length (snd p))) ps) + sum_list (map node_size ks)"

lemma up4_ge: "n \<le> up4 n" "up4 n < n + 4"
  unfolding up4_def by presburger+

lemma up4_0 [simp]: "up4 0 = 0"
  by (simp add: up4_def)

lemma up4_up4 [simp]: "up4 (up4 n) = up4 n"
  by (simp add: up4_def)

lemma length_be32 [simp]: "length (be32 v) = 4"
  by (simp add: be32_def)

lemma length_pad4 [simp]: "length (pad4 bs) = up4 (length bs)"
  using up4_ge(1) [of "length bs"] by (simp add: pad4_def)

lemma length_prop_bytes [simp]: "length (prop_bytes off p) = 12 + up4 (length (snd p))"
  by (simp add: prop_bytes_def)

lemma length_node_bytes [simp]: "length (node_bytes off t) = node_size t"
proof (induction t)
  case (Fdt nm ps ks)
  then have "map (\<lambda>k. length (node_bytes off k)) ks = map node_size ks" by simp
  then show ?case by (simp add: length_concat comp_def del: map_eq_conv)
qed

lemma length_struct_bytes [simp]: "length (struct_bytes off t) = node_size t + 4"
  by (simp add: struct_bytes_def)

lemma of_be32_be32 [simp]: "of_be32 (be32 v) = v"
proof -
  have "of_be32 (be32 v) = push_bit 24 (ucast (ucast (drop_bit 24 v) :: u8)) OR push_bit 16 (ucast (ucast (drop_bit 16 v) :: u8))
      OR push_bit 8 (ucast (ucast (drop_bit 8 v) :: u8)) OR ucast (ucast v :: u8)"
    by (simp add: of_be32_def be32_def)
  also have "\<dots> = v"
  proof (rule bit_word_eqI)
    fix n assume "n < LENGTH(32)"
    then consider "n < 8" | "8 \<le> n" "n < 16" | "16 \<le> n" "n < 24" | "24 \<le> n" "n < 32"
      by (simp, linarith)
    then show "bit (push_bit 24 (ucast (ucast (drop_bit 24 v) :: u8)) OR push_bit 16 (ucast (ucast (drop_bit 16 v) :: u8))
      OR push_bit 8 (ucast (ucast (drop_bit 8 v) :: u8)) OR ucast (ucast v :: u8) :: u32) n = bit v n"
      by cases (auto simp: bit_simps)
  qed
  finally show ?thesis .
qed

section \<open>Reading\<close>

text \<open>A string at an offset of the strings block; a node that is still open, its children latest first.\<close>

definition string_at :: "u8 list \<Rightarrow> nat \<Rightarrow> u8 list option" where
  "string_at strs i =
     (if i < length strs \<and> 0 \<in> set (drop i strs) then Some (takeWhile (\<lambda>c. c \<noteq> 0) (drop i strs)) else None)"

type_synonym open_node = "u8 list \<times> (u8 list \<times> u8 list) list \<times> fdt list"

definition closed :: "open_node \<Rightarrow> fdt" where
  "closed f = (case f of (nm, ps, ks) \<Rightarrow> Fdt nm ps ks)"

definition add_kid :: "fdt \<Rightarrow> open_node \<Rightarrow> open_node" where
  "add_kid t f = (case f of (nm, ps, ks) \<Rightarrow> (nm, ps, ks @ [t]))"

definition add_prop :: "u8 list \<times> u8 list \<Rightarrow> open_node \<Rightarrow> open_node" where
  "add_prop p f = (case f of (nm, ps, ks) \<Rightarrow> (nm, ps @ [p], ks))"

text \<open>
  The reader. Properties of a node come before its children; the outermost node ends the tree,
  which only the end token may follow.
\<close>

function read_nodes :: "u8 list \<Rightarrow> open_node list \<Rightarrow> u8 list \<Rightarrow> fdt option" where
  "read_nodes strs stack bs =
     (if length bs < 4 then None else
      let token = of_be32 (take 4 bs); bs = drop 4 bs
      in if token = 1 then
           let nm = takeWhile (\<lambda>c. c \<noteq> 0) bs
           in if length nm = length bs then None
              else read_nodes strs ((nm, [], []) # stack) (drop (up4 (length nm + 1)) bs)
         else if token = 3 then
           (if length bs < 8 then None else
            let len = unat (of_be32 (take 4 bs)); nameoff = unat (of_be32 (take 4 (drop 4 bs))); bs = drop 8 bs
            in case (stack, string_at strs nameoff) of
                 ((nm, ps, []) # stack, Some name) \<Rightarrow>
                   if length bs < len then None
                   else read_nodes strs (add_prop (name, take len bs) (nm, ps, []) # stack) (drop (up4 len) bs)
               | _ \<Rightarrow> None)
         else if token = 2 then
           (case stack of
              [] \<Rightarrow> None
            | [f] \<Rightarrow> if bs = be32 9 then Some (closed f) else None
            | f # f' # stack \<Rightarrow> read_nodes strs (add_kid (closed f) f' # stack) bs)
         else None)"
  by auto
termination
  by (relation "measure (\<lambda>(strs, stack, bs). length bs)") auto

declare read_nodes.simps [simp del]

definition read_struct :: "u8 list \<Rightarrow> u8 list \<Rightarrow> fdt option" where
  "read_struct strs bs = read_nodes strs [] bs"

section \<open>What is written can be read\<close>

text \<open>A tree that can be written: names without terminators, sizes below \<open>2 ^ 32\<close>, property names in the strings.\<close>

definition name_ok :: "u8 list \<Rightarrow> bool" where
  "name_ok nm \<longleftrightarrow> 0 \<notin> set nm"

definition prop_ok :: "u8 list \<Rightarrow> (u8 list \<Rightarrow> u32) \<Rightarrow> u8 list \<times> u8 list \<Rightarrow> bool" where
  "prop_ok strs off p \<longleftrightarrow> length (snd p) < 2 ^ 32 \<and> string_at strs (unat (off (fst p))) = Some (fst p)"

fun writable :: "u8 list \<Rightarrow> (u8 list \<Rightarrow> u32) \<Rightarrow> fdt \<Rightarrow> bool" where
  "writable strs off (Fdt nm ps ks) \<longleftrightarrow> name_ok nm \<and> list_all (prop_ok strs off) ps \<and> list_all (writable strs off) ks"

lemma take_be32 [simp]: "take 4 (be32 v @ bs) = be32 v" "drop 4 (be32 v @ bs) = bs"
  by (simp_all add: be32_def)

lemma pad4_drop: "drop (up4 (length bs)) (pad4 bs @ rest) = rest"
  by (metis append_eq_conv_conj length_pad4)

lemma pad4_take: "take (length bs) (pad4 bs @ rest) = bs"
  by (simp add: pad4_def)

lemma read_begin:
  assumes "name_ok nm"
  shows "read_nodes strs stack (be32 1 @ pad4 (nm @ [0]) @ rest) = read_nodes strs ((nm, [], []) # stack) rest"
proof -
  obtain z where z: "pad4 (nm @ [0]) @ rest = nm @ 0 # z" by (simp add: pad4_def)
  have tw: "takeWhile (\<lambda>c. c \<noteq> 0) (nm @ 0 # z) = nm"
    using assms by (induction nm) (auto simp: name_ok_def)
  have dr: "drop (up4 (length nm + 1)) (nm @ 0 # z) = rest"
    using pad4_drop [of "nm @ [0]" rest] by (simp add: z)
  have len: "\<not> length (be32 1 @ nm @ 0 # z) < 4" by simp
  show ?thesis unfolding z by (subst read_nodes.simps) (simp add: if_not_P [OF len] tw Let_def dr [unfolded Suc_eq_plus1 [symmetric]] del: drop_append drop_Cons)
qed

lemma read_prop:
  assumes "prop_ok strs off p"
  shows "read_nodes strs ((nm, ps, []) # stack) (prop_bytes off p @ rest) = read_nodes strs ((nm, ps @ [p], []) # stack) rest"
proof -
  have u: "unat (of_nat (length (snd p)) :: u32) = length (snd p)" and s: "string_at strs (unat (off (fst p))) = Some (fst p)"
    using assms by (simp_all add: prop_ok_def unat_of_nat take_bit_eq_mod)
  let ?d = "pad4 (snd p) @ rest"
  have le: "\<not> length (pad4 (snd p)) + length rest < length (snd p)" using up4_ge(1) [of "length (snd p)"] by simp
  have d8: "drop 8 (be32 a @ be32 b @ ?d) = ?d" for a b by (simp add: be32_def)
  show ?thesis
    unfolding prop_bytes_def append_assoc
    by (subst read_nodes.simps) (simp add: Let_def u s d8 le pad4_take pad4_drop add_prop_def del: length_pad4 drop_append take_append)
qed

lemma read_props:
  "list_all (prop_ok strs off) qs \<Longrightarrow>
    read_nodes strs ((nm, ps, []) # stack) (concat (map (prop_bytes off) qs) @ rest) = read_nodes strs ((nm, ps @ qs, []) # stack) rest"
proof (induction qs arbitrary: ps)
  case (Cons q qs)
  then show ?case using read_prop [of strs off q nm ps stack "concat (map (prop_bytes off) qs) @ rest"] by simp
qed simp

text \<open>The end of a node: it becomes a child of the node around it, or the tree.\<close>

definition ended :: "u8 list \<Rightarrow> open_node list \<Rightarrow> fdt \<Rightarrow> u8 list \<Rightarrow> fdt option" where
  "ended strs stack t rest =
     (case stack of [] \<Rightarrow> if rest = be32 9 then Some t else None | f # stack \<Rightarrow> read_nodes strs (add_kid t f # stack) rest)"

lemma read_end: "read_nodes strs (f # stack) (be32 2 @ rest) = ended strs stack (closed f) rest"
  by (subst read_nodes.simps) (simp add: ended_def split: list.split)

lemma read_kids:
  assumes "\<And>t stack rest. t \<in> set ks \<Longrightarrow> read_nodes strs stack (node_bytes off t @ rest) = ended strs stack t rest"
  shows "read_nodes strs ((nm, ps, js) # stack) (concat (map (node_bytes off) ks) @ rest) = read_nodes strs ((nm, ps, js @ ks) # stack) rest"
  using assms
proof (induction ks arbitrary: js)
  case (Cons k ks)
  have "read_nodes strs ((nm, ps, js) # stack) (concat (map (node_bytes off) (k # ks)) @ rest)
      = read_nodes strs ((nm, ps, js @ [k]) # stack) (concat (map (node_bytes off) ks) @ rest)"
    using Cons.prems [of k] by (simp add: ended_def add_kid_def)
  then show ?case using Cons.IH [of "js @ [k]"] Cons.prems by simp
qed simp

lemma read_node: "writable strs off t \<Longrightarrow> read_nodes strs stack (node_bytes off t @ rest) = ended strs stack t rest"
proof (induction t arbitrary: stack rest)
  case (Fdt nm ps ks)
  then have ok: "name_ok nm" "list_all (prop_ok strs off) ps" "\<And>t. t \<in> set ks \<Longrightarrow> writable strs off t"
    by (auto simp: list_all_iff)
  have k: "read_nodes strs stack (node_bytes off t @ rest) = ended strs stack t rest" if "t \<in> set ks" for t stack rest
    using Fdt.IH [OF that ok(3) [OF that]] .
  note kids = read_kids [where ks = ks and strs = strs and off = off, OF k]
  show ?case
    by (simp add: read_begin [OF ok(1)] read_props [OF ok(2), where ps = "[]", simplified] kids read_end closed_def)
qed

lemma read_struct_bytes: "writable strs off t \<Longrightarrow> read_struct strs (struct_bytes off t) = Some t"
  using read_node [of strs off t "[]" "be32 9"] by (simp add: read_struct_def struct_bytes_def ended_def)

end
