(* ===== verification/Blob_Walk.thy ===== *)
theory Blob_Walk
  imports Device_Blob Fdt_Format
begin

text \<open>
  The walk that writes the structure block, over nodes, properties and names that memory holds.
  \<open>tree_rep\<close> relates the structures in memory to a tree that knows their addresses; the walk, which finds
  its way with two pointers, writes exactly the bytes of that tree and comes back to where it
  entered.
\<close>

section \<open>Byte strings and words in memory\<close>

lemma store_bytes_append:
  "length xs + length ys \<le> 2 ^ 32 \<Longrightarrow> store_bytes (store_bytes m a xs) (a + of_nat (length xs)) ys = store_bytes m a (xs @ ys)"
proof (induction ys rule: rev_induct)
  case (snoc y ys)
  have l: "length ys < 2 ^ 32" "length (xs @ ys) < 2 ^ 32" using snoc.prems by auto
  have "store_bytes (store_bytes m a xs) (a + of_nat (length xs)) (ys @ [y])
      = (store_bytes m a (xs @ ys))(a + of_nat (length (xs @ ys)) := y)"
    using snoc l by (simp add: store_bytes_upd [symmetric] add.assoc)
  also have "\<dots> = store_bytes m a (xs @ ys @ [y])" by (simp add: store_bytes_upd [OF l(2)] del: length_append)
  finally show ?case .
qed simp

lemma store32_be32: "store32 m a (BL_BE32 v) = store_bytes m a (be32 v)"
proof -
  have b: "bit (ucast (drop_bit (8 * i) (BlSwap32 v)) :: u8) j = bit v (8 * (3 - i) + j)" if "i < 4" "j < 8" for i j
    using that bit_BlSwap32 [of i j v] by (simp add: bit_simps)
  have e: "ucast (drop_bit (8 * i) (BlSwap32 v)) = (ucast (drop_bit (8 * (3 - i)) v) :: u8)" if "i < 4" for i
    by (rule bit_word_eqI) (use that b in \<open>auto simp: bit_simps\<close>)
  from e [of 0] e [of 1] e [of 2] e [of 3] show ?thesis
    by (simp add: BL_BE32_def store32_def be32_def store_bytes_Cons add.commute [of 2 a] add.commute [of 3 a])
qed

text \<open>The bytes \<open>bs\<close> at \<open>a\<close>, inside the area \<open>R\<close>.\<close>

definition bytes_at :: "u32 set \<Rightarrow> mem \<Rightarrow> u32 \<Rightarrow> u8 list \<Rightarrow> bool" where
  "bytes_at R m a bs \<longleftrightarrow> span a (length bs) \<subseteq> R \<and> fits a (length bs) \<and> holds m a bs"

lemma fits_le: "fits a n \<Longrightarrow> n \<le> 2 ^ 32"
  by (simp add: fits_def)

lemma bytes_at_frame: "bytes_at R m a bs \<Longrightarrow> same_on R m m' \<Longrightarrow> bytes_at R m' a bs"
  unfolding bytes_at_def by (metis fits_le holds_same same_on_mono)

lemma bytes_at_Nil [simp]: "bytes_at R m 0 []"
  by (simp add: bytes_at_def fits_def holds_def)

lemma holds_Nil [simp]: "holds m a []"
  by (simp add: holds_def)

lemma c_string_holds: "0 \<notin> set nm \<Longrightarrow> holds m a (nm @ [0]) \<Longrightarrow> c_string m a nm"
  by (induction nm arbitrary: a) (auto simp: holds_Cons)

lemma bytes_at_length:
  assumes "bytes_at R m a (nm @ [0])" "name_ok nm"
  shows "BlStringLength m a = Some (of_nat (length nm))" "length nm + 1 < 2 ^ 32 \<or> a = 0" "length nm + 1 \<le> 2 ^ 32"
proof -
  have "c_string m a nm" using assms by (auto simp: bytes_at_def name_ok_def intro: c_string_holds)
  then show "BlStringLength m a = Some (of_nat (length nm))" by (rule BlStringLength_c_string)
  have "unat a + (length nm + 1) \<le> 2 ^ 32" using assms(1) by (simp add: bytes_at_def fits_def)
  then show "length nm + 1 < 2 ^ 32 \<or> a = 0" "length nm + 1 \<le> 2 ^ 32" by (auto simp: unat_eq_0 [symmetric])
qed

section \<open>The tree in memory\<close>

datatype dt_prop = DtProp (dp_entry: u32) (dp_name: "u8 list") (dp_at: u32) (dp_data: "u8 list")

datatype dt_node = DtNode (dn_addr: u32) (dn_name: "u8 list") (dn_props: "dt_prop list") (dn_kids: "dt_node list")

fun fdt_of :: "dt_node \<Rightarrow> fdt" where
  "fdt_of (DtNode a nm ps ks) = Fdt nm (map (\<lambda>p. (dp_name p, dp_data p)) ps) (map fdt_of ks)"

fun addrs :: "dt_node \<Rightarrow> u32 list" where
  "addrs (DtNode a nm ps ks) = a # concat (map addrs ks)"

fun props_of :: "dt_node \<Rightarrow> dt_prop list" where
  "props_of (DtNode a nm ps ks) = ps @ concat (map props_of ks)"

definition prop_rep :: "u32 set \<Rightarrow> mem \<Rightarrow> u32 \<Rightarrow> dt_prop \<Rightarrow> bool" where
  "prop_rep R m q p \<longleftrightarrow> span q 12 \<subseteq> R \<and> PropName m q = dp_entry p \<and> PropData m q = dp_at p
     \<and> unat (PropSize m q) = length (dp_data p) \<and> bytes_at R m (dp_at p) (dp_data p)"

definition node_rep :: "u32 set \<Rightarrow> mem \<Rightarrow> u32 \<Rightarrow> u32 \<Rightarrow> u8 list \<Rightarrow> dt_prop list \<Rightarrow> u32 list \<Rightarrow> bool" where
  "node_rep R m par a nm ps kids \<longleftrightarrow> a \<noteq> 0 \<and> span a 32 \<subseteq> R \<and> NodeParent m a = par
     \<and> name_ok nm \<and> bytes_at R m (NodeName m a) (nm @ [0])
     \<and> unat (NumberOfProperties m a) = length ps \<and> (\<forall>i<length ps. prop_rep R m (NodeProperties m a + 12 * of_nat i) (ps ! i))
     \<and> list_rep m (load_list m (NodeChildren a)) (map NodeLink kids) \<and> (\<forall>k\<in>set kids. span k 32 \<subseteq> R)"

fun tree_rep :: "u32 set \<Rightarrow> mem \<Rightarrow> u32 \<Rightarrow> dt_node \<Rightarrow> bool" where
  "tree_rep R m par (DtNode a nm ps ks) \<longleftrightarrow> node_rep R m par a nm ps (map dn_addr ks) \<and> (\<forall>k\<in>set ks. tree_rep R m a k)"

definition ident_ok :: "u32 set \<Rightarrow> (u8 list \<Rightarrow> u32) \<Rightarrow> mem \<Rightarrow> dt_prop \<Rightarrow> bool" where
  "ident_ok R off m p \<longleftrightarrow> span (dp_entry p) 16 \<subseteq> R \<and> Identifier m (dp_entry p) = off (dp_name p)"

text \<open>Fields of structures inside the area.\<close>

lemma load32_field:
  assumes "span a n \<subseteq> R" "same_on R m m'" "numeral k + 4 \<le> n" "n \<le> 2 ^ 32"
  shows "load32 m' (a + numeral k) = load32 m (a + numeral k)"
  by (rule load32_same_on, rule same_on_mono [OF assms(2)]) (use span_sub_numeral [OF assms(3,4), of a] assms(1) in blast)

lemma load32_first: "span a n \<subseteq> R \<Longrightarrow> same_on R m m' \<Longrightarrow> 4 \<le> n \<Longrightarrow> load32 m' a = load32 m a"
  by (rule load32_same_on, erule same_on_mono) (use span_mono [of 4 n a] in blast)

lemma node_fields_frame:
  assumes "span a 32 \<subseteq> R" "same_on R m m'"
  shows "NodeParent m' a = NodeParent m a" "NodeName m' a = NodeName m a" "NodeProperties m' a = NodeProperties m a"
    "NumberOfProperties m' a = NumberOfProperties m a" "load_list m' (NodeChildren a) = load_list m (NodeChildren a)"
proof -
  note f = load32_field [OF assms]
  show "NodeParent m' a = NodeParent m a" using load32_first [OF assms] by (simp add: NodeParent_def)
  show "NodeName m' a = NodeName m a" "NodeProperties m' a = NodeProperties m a" "NumberOfProperties m' a = NumberOfProperties m a"
    "load_list m' (NodeChildren a) = load_list m (NodeChildren a)"
    by (simp_all add: NodeName_def NodeProperties_def NumberOfProperties_def load_list_def NodeChildren_def f add.assoc)
qed

lemma prop_rep_frame: "prop_rep R m q p \<Longrightarrow> same_on R m m' \<Longrightarrow> prop_rep R m' q p"
  using load32_field [of q 12 R m m'] load32_first [of q 12 R m m']
  by (auto simp: prop_rep_def PropName_def PropData_def PropSize_def bytes_at_frame)

lemma link_span: "span k 32 \<subseteq> R \<Longrightarrow> span (NodeLink k) 8 \<subseteq> R"
  using span_sub_numeral [of "num.Bit0 (num.Bit0 num.One)" 8 32 k] by (auto simp: NodeLink_def)

lemma node_rep_frame:
  assumes "node_rep R m par a nm ps kids" "same_on R m m'"
  shows "node_rep R m' par a nm ps kids"
proof -
  have a: "span a 32 \<subseteq> R" and k: "\<forall>k\<in>set kids. span k 32 \<subseteq> R" using assms(1) by (auto simp: node_rep_def)
  have "node_span (set (map NodeLink kids)) \<subseteq> R" using k link_span unfolding node_span_def by fastforce
  then have "same_on (node_span (set (map NodeLink kids))) m m'" using assms(2) same_on_mono by blast
  with assms(1) have "list_rep m' (load_list m (NodeChildren a)) (map NodeLink kids)"
    by (auto simp: node_rep_def intro: bl.rep_frame)
  then show ?thesis
    using assms(1) prop_rep_frame [OF _ assms(2)] bytes_at_frame [OF _ assms(2)]
    unfolding node_rep_def node_fields_frame [OF a assms(2)] by blast
qed

lemma tree_rep_frame: "tree_rep R m par t \<Longrightarrow> same_on R m m' \<Longrightarrow> tree_rep R m' par t"
  by (induction R m par t rule: tree_rep.induct) (auto intro: node_rep_frame)

lemma ident_ok_frame: "ident_ok R off m p \<Longrightarrow> same_on R m m' \<Longrightarrow> ident_ok R off m' p"
  using load32_field [of "dp_entry p" 16 R m m'] by (simp add: ident_ok_def Identifier_def)

lemma first_and_next:
  assumes "list_rep m l (map NodeLink kids)"
  shows "BL_CONTAINER 4 (Head l) = (case kids of [] \<Rightarrow> 0 | k # ks \<Rightarrow> k)"
    and "kids = xs @ k # ys \<Longrightarrow> SiblingNext m k = (case ys of [] \<Rightarrow> 0 | k' # ks \<Rightarrow> k')"
proof -
  have nz: "NodeLink k \<noteq> 0" if "k \<in> set kids" for k
    using bl.rep_nodes [OF assms] that by (auto simp: nodes_apart_def)
  have c: "BL_CONTAINER 4 (NodeLink k) = k" if "k \<in> set kids" for k
    using nz [OF that] by (simp add: BL_CONTAINER_def NodeLink_def)
  show "BL_CONTAINER 4 (Head l) = (case kids of [] \<Rightarrow> 0 | k # ks \<Rightarrow> k)"
    using assms c by (cases kids) (auto simp: list_rep_def BL_CONTAINER_def)
  assume k: "kids = xs @ k # ys"
  then have "NodeNext m (NodeLink k) = head_or (map NodeLink ys) 0" using assms by (simp add: list_rep_def)
  then show "SiblingNext m k = (case ys of [] \<Rightarrow> 0 | k' # ks \<Rightarrow> k')"
    using c k by (cases ys) (auto simp: SiblingNext_def BL_CONTAINER_def)
qed

section \<open>Writing to the structure block\<close>

text \<open>The offset and the state after \<open>bs\<close> was written at offset \<open>n\<close>; the state before it.\<close>

definition put :: "u32 \<Rightarrow> nat \<Rightarrow> u8 list \<Rightarrow> 'a dt_scheme \<Rightarrow> 'a dt_scheme" where
  "put st n bs s = s\<lparr>memory := store_bytes (memory s) (st + of_nat n) bs\<rparr>"

definition emitted :: "u32 \<Rightarrow> nat \<Rightarrow> u8 list \<Rightarrow> 'a dt_scheme \<Rightarrow> u32 \<times> 'a dt_scheme" where
  "emitted st n bs s = (of_nat (n + length bs), put st n bs s)"

definition out_ok :: "u32 set \<Rightarrow> mem \<Rightarrow> u32 \<Rightarrow> 'a dt_scheme \<Rightarrow> nat \<Rightarrow> nat \<Rightarrow> bool" where
  "out_ok R m0 st s n k \<longleftrightarrow> same_on R m0 (memory s) \<and> R \<inter> span st (unat (BlDtStructureSize s)) = {}
     \<and> fits st (unat (BlDtStructureSize s)) \<and> n + k \<le> unat (BlDtStructureSize s)"

lemma put_sel [simp]: "BlDtStructureSize (put st n bs s) = BlDtStructureSize s" "memory (put st n bs s) = store_bytes (memory s) (st + of_nat n) bs"
  by (simp_all add: put_def)

lemma put_put: "n + length xs + length ys \<le> 2 ^ 32 \<Longrightarrow> put st (n + length xs) ys (put st n xs s) = put st n (xs @ ys) s"
  using store_bytes_append [of xs ys "memory s" "st + of_nat n"] by (simp add: put_def add.assoc)

lemma out_ok_weaken: "out_ok R m0 st s n k \<Longrightarrow> j \<le> k \<Longrightarrow> out_ok R m0 st s n j"
  by (simp add: out_ok_def)

lemma out_ok_put:
  assumes "out_ok R m0 st s n (length xs + k)"
  shows "out_ok R m0 st (put st n xs s) (n + length xs) k"
proof -
  let ?lim = "unat (BlDtStructureSize s)"
  have o: "same_on R m0 (memory s)" "R \<inter> span st ?lim = {}" "fits st ?lim" "n + length xs \<le> ?lim"
    using assms by (auto simp: out_ok_def)
  have "span (st + of_nat n) (length xs) \<subseteq> span st ?lim" by (rule span_sub [OF o(4) fits_le [OF o(3)]])
  then have "span (st + of_nat n) (length xs) \<inter> R = {}" using o(2) by blast
  from same_on_trans [OF o(1) same_outside_on [OF store_bytes_same_outside this]] show ?thesis
    using assms by (simp add: out_ok_def add.assoc)
qed

lemma out_ok_bounds: "out_ok R m0 st s n k \<Longrightarrow> n + k < 2 ^ 32"
  using unat_lt32 [of "BlDtStructureSize s"] by (simp add: out_ok_def)

lemma out_ok_same: "out_ok R m0 st s n k \<Longrightarrow> same_on R m0 (memory s)"
  by (simp add: out_ok_def)

lemma of_nat_le_size: "n < 2 ^ 32 \<Longrightarrow> (of_nat n :: u32) \<le> x \<longleftrightarrow> n \<le> unat x"
  by (simp add: word_le_nat_alt unat_of_nat32)

lemma assertion_ok [simp]: "c \<Longrightarrow> assertion c e f l = ret ()"
  by (simp add: assertion_def)

lemma BlDtAddToken_out:
  assumes "out_ok R m0 st s n (4 + k)"
  shows "BlDtAddToken st (of_nat n) token s = ret (emitted st n (be32 token) s)"
    "out_ok R m0 st (put st n (be32 token) s) (n + 4) k"
proof -
  have "n + 4 < 2 ^ 32" "n + 4 \<le> unat (BlDtStructureSize s)" using out_ok_bounds [OF assms] assms by (auto simp: out_ok_def)
  then have "(of_nat n + 4 :: u32) \<le> BlDtStructureSize s" using of_nat_le_size [of "n + 4" "BlDtStructureSize s"] by simp
  then show "BlDtAddToken st (of_nat n) token s = ret (emitted st n (be32 token) s)"
    by (simp add: BlDtAddToken_def Let_def emitted_def put_def store32_be32)
  show "out_ok R m0 st (put st n (be32 token) s) (n + 4) k" using out_ok_put [of R m0 st s n "be32 token" k] assms by simp
qed

lemma align_up4: "up4 n < 2 ^ 32 \<Longrightarrow> BL_ALIGN_UP (of_nat n :: u32) 4 = of_nat (up4 n)"
proof -
  assume u: "up4 n < 2 ^ 32"
  then have n: "n < 2 ^ 32" using up4_ge(1) [of n] by simp
  have "(n + 3) div 4 * 4 < 2 ^ 32" using u by (simp add: up4_def)
  then have "(n + 3) div 4 < 2 ^ 30" by simp
  then have lt: "n + 3 < 2 ^ 32" by (simp add: div_less_iff_less_mult)
  have e: "of_nat n + 3 = (of_nat (n + 3) :: u32)" by simp
  have "unat (BL_ALIGN_UP (of_nat n :: u32) (2 ^ 2)) = unat (of_nat n + 3 :: u32) div 4 * 4"
    using unat_BL_ALIGN_DOWN [of 2 "of_nat n + 3 :: u32"] by (simp add: BL_ALIGN_UP_DOWN)
  also have "\<dots> = up4 n" unfolding e unat_of_nat32 [OF lt] up4_def ..
  finally show ?thesis using u by (simp add: word_unat_eq_iff unat_of_nat32)
qed

lemma BlDtAddDataAndAlign_out:
  assumes out: "out_ok R m0 st s n (up4 (length bs) + k)" and bs: "bytes_at R (memory s) d bs" "unat sz = length bs"
  shows "BlDtAddDataAndAlign st (of_nat n) d sz s = ret (emitted st n (pad4 bs) s)"
    "out_ok R m0 st (put st n (pad4 bs) s) (n + up4 (length bs)) k"
proof -
  let ?lim = "unat (BlDtStructureSize s)" let ?a = "st + of_nat n" let ?p = "up4 (length bs)"
  have o: "R \<inter> span st ?lim = {}" "fits st ?lim" "n + ?p \<le> ?lim" "n + ?p < 2 ^ 32" using out out_ok_bounds [OF out] by (auto simp: out_ok_def)
  have le: "length bs \<le> ?p" by (rule up4_ge)
  have sz: "sz = of_nat (length bs)" by (simp flip: bs(2))
  have al: "BL_ALIGN_UP sz 4 = of_nat ?p" unfolding sz using o(4) by (intro align_up4) simp
  have room: "of_nat n + BL_ALIGN_UP sz 4 \<le> BlDtStructureSize s" using of_nat_le_size [of "n + ?p" "BlDtStructureSize s"] o by (simp add: al)
  have "fits ?a ?p" using fits_sub [OF o(2), of n ?p] o(3) by simp
  then have f: "fits ?a (length bs)" using le by (simp add: fits_def)
  have "span ?a (length bs) \<subseteq> span st ?lim" by (rule span_sub) (use o le fits_le [OF o(2)] in simp_all)
  then have "span ?a (length bs) \<inter> span d (length bs) = {}" using o(1) bs(1) by (auto simp: bytes_at_def)
  then have c: "BlCopyMemory (memory s) ?a d sz = store_bytes (memory s) ?a bs"
    using memcpy_store_bytes [of ?a sz d "memory s"] f bs by (simp add: BlCopyMemory_def bytes_at_def holds_def)
  have pad: "unat (BL_ALIGN_UP sz 4 - sz) = ?p - length bs"
  proof -
    have "sz \<le> of_nat ?p" using o(4) le bs(2) by (simp add: word_le_nat_alt unat_of_nat32)
    then show ?thesis unfolding al using o(4) bs(2) by (simp add: unat_sub unat_of_nat32)
  qed
  have "BlFillMemory (store_bytes (memory s) ?a bs) (?a + sz) 0 (BL_ALIGN_UP sz 4 - sz) = store_bytes (memory s) ?a (pad4 bs)"
    using store_bytes_append [of bs "replicate (?p - length bs) 0" "memory s" ?a] le o(4)
    by (simp add: BlFillMemory_store_bytes pad pad4_def) (simp add: sz)
  then show "BlDtAddDataAndAlign st (of_nat n) d sz s = ret (emitted st n (pad4 bs) s)"
    using room by (simp add: BlDtAddDataAndAlign_def Let_def c emitted_def put_def al)
  show "out_ok R m0 st (put st n (pad4 bs) s) (n + ?p) k" using out_ok_put [of R m0 st s n "pad4 bs" k] out by simp
qed

section \<open>The properties of a node\<close>

definition pair_of :: "dt_prop \<Rightarrow> u8 list \<times> u8 list" where
  "pair_of p = (dp_name p, dp_data p)"

definition props_bytes :: "(u8 list \<Rightarrow> u32) \<Rightarrow> dt_prop list \<Rightarrow> u8 list" where
  "props_bytes off ps = concat (map (prop_bytes off) (map pair_of ps))"

lemma props_bytes_simps [simp]: "props_bytes off [] = []" "props_bytes off (p # ps) = prop_bytes off (pair_of p) @ props_bytes off ps"
  by (simp_all add: props_bytes_def)

lemma of_nat_unat_eq: "unat (w :: u32) = n \<Longrightarrow> w = of_nat n"
  by auto

lemma add_property_out:
  assumes rep: "prop_rep R m0 q p" and id: "ident_ok R off m0 p"
    and out: "out_ok R m0 st s n (12 + up4 (length (dp_data p)) + k)"
  shows "bind_run (BlDtAddToken st (of_nat n) BL_FDT_PROP s) (\<lambda>(offset, s).
      bind_run (BlDtAddToken st offset (PropSize (memory s) q) s) (\<lambda>(offset, s).
      bind_run (BlDtAddToken st offset (Identifier (memory s) (PropName (memory s) q)) s) (\<lambda>(offset, s).
      bind_run (BlDtAddDataAndAlign st offset (PropData (memory s) q) (PropSize (memory s) q) s) f)))
    = f (emitted st n (prop_bytes off (pair_of p)) s)"
proof -
  let ?b1 = "be32 3" let ?b2 = "be32 (of_nat (length (dp_data p)))" let ?b3 = "be32 (off (dp_name p))" let ?b4 = "pad4 (dp_data p)"
  let ?k = "up4 (length (dp_data p)) + k"
  have o: "out_ok R m0 st s n (4 + (4 + (4 + ?k)))" using out by (simp add: add.assoc)
  note t1 = BlDtAddToken_out [OF o, where token = 3]
  note t2 = BlDtAddToken_out [OF t1(2), where token = "of_nat (length (dp_data p))"]
  note t3 = BlDtAddToken_out [OF t2(2), where token = "off (dp_name p)"]
  note rep' = prop_rep_frame [OF rep out_ok_same]
  have sz: "PropSize (memory s') q = of_nat (length (dp_data p))" if "out_ok R m0 st s' i j" for s' i j
    using rep' [OF that] by (intro of_nat_unat_eq) (simp add: prop_rep_def)
  have nm: "Identifier (memory s') (PropName (memory s') q) = off (dp_name p)" if "out_ok R m0 st s' i j" for s' i j
    using rep' [OF that] ident_ok_frame [OF id out_ok_same [OF that]] by (simp add: prop_rep_def ident_ok_def)
  let ?s3 = "put st (n + 4 + 4) ?b3 (put st (n + 4) ?b2 (put st n ?b1 s))"
  have "bytes_at R (memory ?s3) (PropData (memory ?s3) q) (dp_data p)" "unat (PropSize (memory ?s3) q) = length (dp_data p)"
    using rep' [OF t3(2)] by (simp_all add: prop_rep_def)
  note t4 = BlDtAddDataAndAlign_out(1) [OF t3(2) this]
  have "n + 12 + up4 (length (dp_data p)) < 2 ^ 32" using out_ok_bounds [OF out] by simp
  then have all: "put st (n + 4 + 4 + 4) ?b4 ?s3 = put st n (prop_bytes off (pair_of p)) s"
    using put_put [of n ?b1 ?b2 st s] put_put [of n "?b1 @ ?b2" ?b3 st s] put_put [of n "?b1 @ ?b2 @ ?b3" ?b4 st s]
    by (simp add: prop_bytes_def pair_of_def add.assoc)
  have len: "n + 4 + 4 + 4 + length ?b4 = n + length (prop_bytes off (pair_of p))" by (simp add: pair_of_def)
  show ?thesis
    unfolding BL_FDT_PROP_def t1(1) emitted_def bind_run_simps prod.case length_be32 sz [OF t1(2)] t2(1) nm [OF t2(2)] t3(1)
    unfolding t4 emitted_def bind_run_simps all len ..
qed

lemma length_props_bytes: "length (props_bytes off (p # ps)) = 12 + up4 (length (dp_data p)) + length (props_bytes off ps)"
  by (simp add: pair_of_def)

lemma emitted_sel: "emitted st n bs s = (of_nat (n + length bs), put st n bs s)"
  by (simp add: emitted_def)

lemma out_ok_node:
  assumes "out_ok R m0 st s n k" "node_rep R m0 par a nm ps kids"
  shows "node_rep R (memory s) par a nm ps kids"
  by (rule node_rep_frame [OF assms(2) out_ok_same [OF assms(1)]])

lemma add_properties_out:
  assumes "node_rep R m0 par a nm (xs @ ps) kids" "\<forall>p\<in>set ps. ident_ok R off m0 p"
    and "out_ok R m0 st s n (length (props_bytes off ps) + k)" "i = of_nat (length xs)"
  shows "add_properties st a i (of_nat n) s = ret (emitted st n (props_bytes off ps) s)"
  using assms
proof (induction ps arbitrary: xs n s i)
  case Nil
  have "unat (NumberOfProperties (memory s) a) = length xs"
    using out_ok_node [OF Nil.prems(3,1)] by (simp add: node_rep_def)
  then have "NumberOfProperties (memory s) a = i" using Nil.prems(4) by (simp add: of_nat_unat_eq)
  then show ?case by (subst add_properties.simps) (simp add: emitted_def put_def)
next
  case (Cons p ps)
  have rep: "node_rep R (memory s) par a nm (xs @ p # ps) kids" by (rule out_ok_node [OF Cons.prems(3,1)])
  have num: "unat (NumberOfProperties (memory s) a) = length xs + Suc (length ps)" using rep by (simp add: node_rep_def)
  then have len: "length xs < 2 ^ 32" using unat_lt32 [of "NumberOfProperties (memory s) a"] by simp
  have less: "i < NumberOfProperties (memory s) a" using num Cons.prems(4) unat_of_nat32 [OF len] by (simp add: word_less_nat_alt)
  let ?q = "NodeProperties (memory s) a + 12 * of_nat (length xs)"
  have q: "NodeProperties (memory s) a = NodeProperties m0 a"
    using node_fields_frame(3) [OF _ out_ok_same [OF Cons.prems(3)]] Cons.prems(1) by (simp add: node_rep_def)
  have "\<forall>i<length (xs @ p # ps). prop_rep R m0 (NodeProperties m0 a + 12 * of_nat i) ((xs @ p # ps) ! i)"
    using Cons.prems(1) by (simp add: node_rep_def)
  from this [rule_format, of "length xs"] have pr: "prop_rep R m0 ?q p" by (simp add: q)
  have id: "ident_ok R off m0 p" "\<forall>p\<in>set ps. ident_ok R off m0 p" using Cons.prems(2) by auto
  let ?b = "prop_bytes off (pair_of p)"
  have out: "out_ok R m0 st s n (12 + up4 (length (dp_data p)) + (length (props_bytes off ps) + k))"
    using Cons.prems(3) unfolding length_props_bytes by (simp add: add.assoc)
  then have out': "out_ok R m0 st (put st n ?b s) (n + length ?b) (length (props_bytes off ps) + k)"
    by (intro out_ok_put) (simp add: pair_of_def)
  have IH: "add_properties st a (i + 1) (of_nat (n + length ?b)) (put st n ?b s)
      = ret (emitted st (n + length ?b) (props_bytes off ps) (put st n ?b s))"
    by (rule Cons.IH [of "xs @ [p]"]) (use Cons.prems(1,4) id out' in simp_all)
  have "n + length (?b @ props_bytes off ps) \<le> 2 ^ 32"
    using out_ok_bounds [OF Cons.prems(3)] by simp
  then have "put st (n + length ?b) (props_bytes off ps) (put st n ?b s) = put st n (props_bytes off (p # ps)) s"
    using put_put [of n ?b "props_bytes off ps" st s] by simp
  then have joined: "emitted st (n + length ?b) (props_bytes off ps) (put st n ?b s) = emitted st n (props_bytes off (p # ps)) s"
    by (simp add: emitted_def add.assoc)
  show ?case
    by (subst add_properties.simps)
      (simp only: less [unfolded Cons.prems(4)] if_True Let_def SIZEOF_BlDtProperty_def Cons.prems(4) add_property_out [OF pr id(1) out],
       simp only: emitted_sel [of st n ?b] prod.case IH [unfolded Cons.prems(4)] joined)
qed

definition open_bytes :: "(u8 list \<Rightarrow> u32) \<Rightarrow> u8 list \<Rightarrow> dt_prop list \<Rightarrow> u8 list" where
  "open_bytes off nm ps = be32 1 @ pad4 (nm @ [0]) @ props_bytes off ps"

lemma begin_node_out:
  assumes rep: "node_rep R m0 par a nm ps kids" and id: "\<forall>p\<in>set ps. ident_ok R off m0 p"
    and out: "out_ok R m0 st s n (length (open_bytes off nm ps) + k)"
  shows "begin_node st a (of_nat n) s = ret (emitted st n (open_bytes off nm ps) s)"
proof -
  let ?b = "be32 1" let ?c = "pad4 (nm @ [0])" let ?d = "props_bytes off ps"
  have o1: "out_ok R m0 st s n (4 + (up4 (length (nm @ [0])) + (length ?d + k)))"
    using out by (simp add: open_bytes_def add.assoc)
  note t1 = BlDtAddToken_out [OF o1, where token = 1]
  let ?s1 = "put st n ?b s"
  have r1: "node_rep R (memory ?s1) par a nm ps kids" by (rule out_ok_node [OF t1(2) rep])
  then have nm: "bytes_at R (memory ?s1) (NodeName (memory ?s1) a) (nm @ [0])" "name_ok nm" by (auto simp: node_rep_def)
  have lt: "length nm + 1 < 2 ^ 32" using out_ok_bounds [OF o1] up4_ge(1) [of "length nm + 1"] by simp
  have "unat (of_nat (length nm) + 1 :: u32) = length (nm @ [0])" using unat_of_nat32 [OF lt] by (simp add: add.commute)
  note t2 = BlDtAddDataAndAlign_out [OF t1(2) nm(1) this]
  note len = bytes_at_length(1) [OF nm]
  have p: "add_properties st a 0 (of_nat (n + 4 + up4 (length (nm @ [0])))) (put st (n + 4) ?c ?s1)
      = ret (emitted st (n + 4 + up4 (length (nm @ [0]))) ?d (put st (n + 4) ?c ?s1))"
    by (rule add_properties_out [where xs = "[]", OF _ id t2(2)]) (use rep in simp_all)
  have "n + length (?b @ ?c @ ?d) \<le> 2 ^ 32" using out_ok_bounds [OF out] by (simp add: open_bytes_def)
  then have all: "put st (n + 4 + up4 (length (nm @ [0]))) ?d (put st (n + 4) ?c ?s1) = put st n (open_bytes off nm ps) s"
    using put_put [of n ?b ?c st s] put_put [of n "?b @ ?c" ?d st s] by (simp add: open_bytes_def add.assoc)
  have l: "n + 4 + up4 (length (nm @ [0])) + length ?d = n + length (open_bytes off nm ps)" by (simp add: open_bytes_def)
  have opt: "Option.bind (Some x) f = f x" for x :: u32 and f :: "u32 \<Rightarrow> 'z option" by simp
  show ?thesis
    unfolding begin_node_def BL_FDT_BEGIN_NODE_def t1(1) emitted_def bind_run_simps prod.case length_be32 len opt t2(1)
    unfolding length_pad4 p emitted_def bind_run_simps all l ..
qed

section \<open>The walk\<close>

definition first_addr :: "dt_node list \<Rightarrow> u32" where
  "first_addr ks = (case ks of [] \<Rightarrow> 0 | k # ks \<Rightarrow> dn_addr k)"

text \<open>What the loop does with the node it found next, back at node \<open>a\<close>.\<close>

definition resume :: "u32 \<Rightarrow> u32 \<Rightarrow> u32 \<Rightarrow> u32 \<times> 'a dt_scheme \<Rightarrow> (u32 \<times> 'a dt_scheme) run" where
  "resume st a nxt p = (case p of (offset, s) \<Rightarrow>
     if nxt \<noteq> 0 then build_structure st nxt a offset s
     else bind_run (BlDtAddToken st offset BL_FDT_END_NODE s) (\<lambda>(offset, s). build_structure st (NodeParent (memory s) a) a offset s))"

lemma build_enter:
  assumes "a \<noteq> 0" "NodeParent (memory s) a = par" "begin_node st a offset s = ret (offset', s')"
  shows "build_structure st a par offset s = resume st a (FirstChild (memory s') a) (offset', s')"
  using assms by (subst build_structure.simps) (simp add: resume_def)

lemma build_back:
  assumes "a \<noteq> 0" "NodeParent (memory s) a \<noteq> k"
  shows "build_structure st a k offset s = resume st a (SiblingNext (memory s) k) (offset, s)"
  using assms by (subst build_structure.simps) (auto simp: resume_def)

lemma first_kid:
  assumes "node_rep R m par a nm ps (map dn_addr ks)"
  shows "FirstChild m a = first_addr ks" "ks = xs @ k # ys \<Longrightarrow> SiblingNext m (dn_addr k) = first_addr ys"
proof -
  have l: "list_rep m (load_list m (NodeChildren a)) (map NodeLink (map dn_addr ks))" using assms by (simp add: node_rep_def)
  show "FirstChild m a = first_addr ks"
    using first_and_next(1) [OF l] by (cases ks) (auto simp: FirstChild_def first_addr_def)
  assume "ks = xs @ k # ys"
  with first_and_next(2) [OF l, of "map dn_addr xs" "dn_addr k" "map dn_addr ys"]
  show "SiblingNext m (dn_addr k) = first_addr ys" by (cases ys) (auto simp: first_addr_def)
qed

lemma addr_in: "dn_addr t \<in> set (addrs t)"
  by (cases t) simp

lemma tree_addr: "tree_rep R m par t \<Longrightarrow> dn_addr t \<noteq> 0"
  by (cases t) (simp add: node_rep_def)

definition kids_bytes :: "(u8 list \<Rightarrow> u32) \<Rightarrow> dt_node list \<Rightarrow> u8 list" where
  "kids_bytes off ks = concat (map (node_bytes off) (map fdt_of ks)) @ be32 2"

lemma kids_bytes_simps [simp]: "kids_bytes off [] = be32 2" "kids_bytes off (k # ks) = node_bytes off (fdt_of k) @ kids_bytes off ks"
  by (simp_all add: kids_bytes_def)

lemma node_bytes_parts: "node_bytes off (fdt_of (DtNode a nm ps ks)) = open_bytes off nm ps @ kids_bytes off ks"
proof -
  have "(\<lambda>p. (dp_name p, dp_data p)) = pair_of" by (rule ext) (simp add: pair_of_def)
  then show ?thesis by (simp add: open_bytes_def kids_bytes_def props_bytes_def)
qed

text \<open>The children of \<open>a\<close> from some point on, given what the walk does with each.\<close>

lemma walk_kids:
  fixes s :: "'a dt_scheme"
  assumes rep: "node_rep R m0 par a nm ps (map dn_addr (xs @ ys))"
    and kid: "\<And>k n (s :: 'a dt_scheme). k \<in> set ys \<Longrightarrow> out_ok R m0 st s n (node_size (fdt_of k)) \<Longrightarrow>
      build_structure st (dn_addr k) a (of_nat n) s
        = build_structure st a (dn_addr k) (of_nat (n + node_size (fdt_of k))) (put st n (node_bytes off (fdt_of k)) s)"
    and ne: "\<forall>k\<in>set ys. dn_addr k \<noteq> par \<and> dn_addr k \<noteq> 0"
    and out: "out_ok R m0 st s n (length (kids_bytes off ys) + j)"
  shows "resume st a (first_addr ys) (of_nat n, s)
    = build_structure st par a (of_nat (n + length (kids_bytes off ys))) (put st n (kids_bytes off ys) s)"
  using assms
proof (induction ys arbitrary: xs n s)
  case Nil
  have o: "out_ok R m0 st s n (4 + j)" using Nil.prems(4) by simp
  note t = BlDtAddToken_out [OF o, where token = 2]
  have "NodeParent (memory (put st n (be32 2) s)) a = par"
    using out_ok_node [OF t(2) Nil.prems(1)] by (simp add: node_rep_def)
  then show ?case by (simp add: resume_def first_addr_def BL_FDT_END_NODE_def t(1) emitted_def)
next
  case (Cons y ys)
  let ?b = "node_bytes off (fdt_of y)" let ?s = "put st n ?b s" let ?n = "n + node_size (fdt_of y)"
  have y: "dn_addr y \<noteq> 0" "dn_addr y \<noteq> par" using Cons.prems(3) by auto
  have out: "out_ok R m0 st s n (length ?b + (length (kids_bytes off ys) + j))" using Cons.prems(4) by (simp add: add.assoc)
  have out': "out_ok R m0 st ?s ?n (length (kids_bytes off ys) + j)" using out_ok_put [OF out] by simp
  have rep': "node_rep R (memory ?s) par a nm ps (map dn_addr (xs @ y # ys))" by (rule out_ok_node [OF out' Cons.prems(1)])
  have "resume st a (first_addr (y # ys)) (of_nat n, s) = build_structure st (dn_addr y) a (of_nat n) s"
    using y by (simp add: resume_def first_addr_def)
  also have "\<dots> = build_structure st a (dn_addr y) (of_nat ?n) ?s"
    by (rule Cons.prems(2)) (use out in \<open>auto elim: out_ok_weaken\<close>)
  also have "\<dots> = resume st a (SiblingNext (memory ?s) (dn_addr y)) (of_nat ?n, ?s)"
    by (rule build_back) (use rep' y in \<open>auto simp: node_rep_def\<close>)
  also have "SiblingNext (memory ?s) (dn_addr y) = first_addr ys"
    using first_kid(2) [OF rep'] by blast
  also have "resume st a (first_addr ys) (of_nat ?n, ?s)
      = build_structure st par a (of_nat (?n + length (kids_bytes off ys))) (put st ?n (kids_bytes off ys) ?s)"
    by (rule Cons.IH [of "xs @ [y]"]) (use Cons.prems out' in auto)
  also have "put st ?n (kids_bytes off ys) ?s = put st n (kids_bytes off (y # ys)) s"
    using put_put [of n ?b "kids_bytes off ys" st s] out_ok_bounds [OF Cons.prems(4)] by simp
  finally show ?case by (simp add: add.assoc)
qed

lemma walk_node:
  fixes s :: "'a dt_scheme"
  assumes "tree_rep R m0 par t" "\<forall>p\<in>set (props_of t). ident_ok R off m0 p" "distinct (addrs t)" "par \<notin> set (addrs t)"
    and "out_ok R m0 st s n (node_size (fdt_of t))"
  shows "build_structure st (dn_addr t) par (of_nat n) s
    = build_structure st par (dn_addr t) (of_nat (n + node_size (fdt_of t))) (put st n (node_bytes off (fdt_of t)) s)"
  using assms
proof (induction t arbitrary: par n s)
  case (DtNode a nm ps ks)
  let ?t = "DtNode a nm ps ks" let ?o = "open_bytes off nm ps" let ?k = "kids_bytes off ks" let ?s = "put st n ?o s"
  have rep: "node_rep R m0 par a nm ps (map dn_addr ks)" and kids: "\<And>k. k \<in> set ks \<Longrightarrow> tree_rep R m0 a k"
    using DtNode.prems(1) by auto
  have size: "node_size (fdt_of ?t) = length ?o + length ?k"
    using arg_cong [OF node_bytes_parts [of off a nm ps ks], of length] by (simp only: length_node_bytes length_append)
  have out: "out_ok R m0 st s n (length ?o + length ?k)" using DtNode.prems(5) unfolding size .
  have out': "out_ok R m0 st ?s (n + length ?o) (length ?k + 0)" using out_ok_put [OF out] by simp
  have "begin_node st a (of_nat n) s = ret (emitted st n ?o s)"
    by (rule begin_node_out [OF rep _ out]) (use DtNode.prems(2) in auto)
  moreover have "NodeParent (memory s) a = par" "a \<noteq> 0" "FirstChild (memory ?s) a = first_addr ks"
    using out_ok_node [OF out rep] first_kid(1) [OF out_ok_node [OF out' rep]] by (auto simp: node_rep_def)
  ultimately have enter: "build_structure st a par (of_nat n) s = resume st a (first_addr ks) (of_nat (n + length ?o), ?s)"
    using build_enter [of a s par st "of_nat n"] by (simp add: emitted_def)
  have kid: "build_structure st (dn_addr k) a (of_nat n) s
      = build_structure st a (dn_addr k) (of_nat (n + node_size (fdt_of k))) (put st n (node_bytes off (fdt_of k)) s)"
    if "k \<in> set ks" "out_ok R m0 st s n (node_size (fdt_of k))" for k n and s :: "'a dt_scheme"
    by (rule DtNode.IH [OF that(1) kids [OF that(1)] _ _ _ that(2)])
      (use DtNode.prems(2,3) that(1) in \<open>auto simp: distinct_concat_iff\<close>)
  have "dn_addr k \<noteq> par \<and> dn_addr k \<noteq> 0" if "k \<in> set ks" for k
    using DtNode.prems(4) addr_in [of k] tree_addr [OF kids [OF that]] that by auto
  then have "\<forall>k\<in>set ks. dn_addr k \<noteq> par \<and> dn_addr k \<noteq> 0" by blast
  then have ne: "\<forall>k\<in>set ks. dn_addr k \<noteq> par \<and> dn_addr k \<noteq> 0" by blast
  have "resume st a (first_addr ks) (of_nat (n + length ?o), ?s)
      = build_structure st par a (of_nat (n + length ?o + length ?k)) (put st (n + length ?o) ?k ?s)"
    by (rule walk_kids [where xs = "[]", OF _ kid ne out']) (use rep in simp_all)
  moreover have "put st (n + length ?o) ?k ?s = put st n (node_bytes off (fdt_of ?t)) s"
    unfolding node_bytes_parts by (rule put_put) (use out_ok_bounds [OF out] in simp)
  ultimately show ?case using enter unfolding size by (simp add: add.assoc)
qed

end
