(* ===== verification/Blob_Strings.thy ===== *)
theory Blob_Strings
  imports Blob_Walk
begin

text \<open>
  The strings block: the interned names in the order of the hash table, each entry's identifier set
  to the offset of its name.
\<close>

section \<open>The table in memory\<close>

text \<open>An interned string: the address of its entry, and its bytes. The table is a list of buckets.\<close>

type_synonym dt_string = "u32 \<times> u8 list"

definition strs_bytes :: "dt_string list \<Rightarrow> u8 list" where
  "strs_bytes es = concat (map (\<lambda>e. snd e @ [0]) es)"

lemma strs_bytes_simps [simp]:
  "strs_bytes [] = []" "strs_bytes (e # es) = snd e @ 0 # strs_bytes es" "strs_bytes (xs @ ys) = strs_bytes xs @ strs_bytes ys"
  by (simp_all add: strs_bytes_def)

definition entry_rep :: "u32 set \<Rightarrow> mem \<Rightarrow> dt_string \<Rightarrow> bool" where
  "entry_rep R m e \<longleftrightarrow> fst e \<noteq> 0 \<and> span (fst e) 12 \<subseteq> R \<and> name_ok (snd e) \<and> bytes_at R m (StringData m (fst e)) (snd e @ [0])"

definition strings_rep :: "u32 set \<Rightarrow> mem \<Rightarrow> u32 \<Rightarrow> dt_string list list \<Rightarrow> bool" where
  "strings_rep R m T bk \<longleftrightarrow> fits T (8 * length bk) \<and> span T (8 * length bk) \<subseteq> R
     \<and> (\<forall>i<length bk. list_rep m (load_list m (T + 8 * of_nat i)) (map fst (bk ! i))) \<and> (\<forall>e\<in>set (concat bk). entry_rep R m e)"

lemma entry_rep_frame:
  assumes "entry_rep R m e" "same_on R m m'"
  shows "entry_rep R m' e"
proof -
  have "StringData m' (fst e) = StringData m (fst e)"
    using load32_field [of "fst e" 12 R m m'] assms by (simp add: entry_rep_def StringData_def)
  with assms show ?thesis by (auto simp: entry_rep_def intro: bytes_at_frame)
qed

lemma load_list_frame:
  assumes "span a 8 \<subseteq> R" "same_on R m m'"
  shows "load_list m' a = load_list m a"
  using load32_field [OF assms, of "num.Bit0 (num.Bit0 num.One)"] load32_first [OF assms] by (simp add: load_list_def)

lemma bucket_span:
  assumes "i < n" "fits T (8 * n)"
  shows "span (T + 8 * of_nat i) 8 \<subseteq> span T (8 * n)"
proof -
  have "8 * i + 8 \<le> 8 * n" using assms(1) by simp
  from span_sub [OF this fits_le [OF assms(2)], of T] show ?thesis by simp
qed

lemma strings_rep_frame:
  assumes rep: "strings_rep R m T bk" and same: "same_on R m m'"
  shows "strings_rep R m' T bk"
proof -
  have "list_rep m' (load_list m' (T + 8 * of_nat i)) (map fst (bk ! i))" if i: "i < length bk" for i
  proof -
    have R: "span (T + 8 * of_nat i) 8 \<subseteq> R" using rep bucket_span [OF i] by (auto simp: strings_rep_def)
    have "span (fst e) 8 \<subseteq> R" if "e \<in> set (bk ! i)" for e
    proof -
      have "e \<in> set (concat bk)" using that i by auto
      with rep have "entry_rep R m e" unfolding strings_rep_def by blast
      then have "span (fst e) 12 \<subseteq> R" by (simp add: entry_rep_def)
      then show ?thesis using span_mono [of 8 12 "fst e"] by auto
    qed
    then have "node_span (set (map fst (bk ! i))) \<subseteq> R" by (auto simp: node_span_def)
    then have "same_on (node_span (set (map fst (bk ! i)))) m m'" by (rule same_on_mono [OF same])
    with rep i show ?thesis unfolding load_list_frame [OF R same] by (auto simp: strings_rep_def intro: bl.rep_frame)
  qed
  with rep entry_rep_frame [OF _ same] show ?thesis by (auto simp: strings_rep_def)
qed

section \<open>Writing the strings\<close>

definition ids_span :: "dt_string list \<Rightarrow> u32 set" where
  "ids_span es = (\<Union>e\<in>set es. span (fst e + 12) 4)"

text \<open>
  The strings go to \<open>W\<close>, the identifiers into their words; neither touches \<open>R\<close>, and no identifier
  another one or \<open>W\<close>.
\<close>

definition ids_apart :: "u32 set \<Rightarrow> u32 set \<Rightarrow> dt_string list \<Rightarrow> bool" where
  "ids_apart R W es \<longleftrightarrow> R \<inter> W = {} \<and> (\<forall>e\<in>set es. span (fst e + 12) 4 \<inter> (R \<union> W) = {})
     \<and> distinct (map fst es) \<and> (\<forall>e\<in>set es. \<forall>f\<in>set es. fst e \<noteq> fst f \<longrightarrow> span (fst e + 12) 4 \<inter> span (fst f + 12) 4 = {})"

definition written :: "u32 \<Rightarrow> nat \<Rightarrow> dt_string list \<Rightarrow> mem \<Rightarrow> mem \<Rightarrow> dt_string list \<Rightarrow> bool" where
  "written strings lim es m0 m xs \<longleftrightarrow> same_outside (span strings lim \<union> ids_span es) m0 m \<and> holds m strings (strs_bytes xs)
     \<and> (\<forall>us e vs. xs = us @ e # vs \<longrightarrow> Identifier m (fst e) = of_nat (length (strs_bytes us)))"

lemma written_id: "written strings lim es m0 m (us @ e # vs) \<Longrightarrow> Identifier m (fst e) = of_nat (length (strs_bytes us))"
  unfolding written_def by blast

lemma written_same:
  assumes "written strings lim es m0 m xs" "ids_apart R (span strings lim) es"
  shows "same_on R m0 m"
proof -
  have "(span strings lim \<union> ids_span es) \<inter> R = {}" using assms(2) by (auto simp: ids_apart_def ids_span_def)
  then show ?thesis using assms(1) same_outside_on unfolding written_def by blast
qed

lemma written_step:
  assumes w: "written strings lim es m0 m xs" and apart: "ids_apart R (span strings lim) es" and e: "e \<in> set es" "e \<notin> set xs"
    and sub: "set xs \<subseteq> set es" and lim: "fits strings lim" "length (strs_bytes xs) + length (snd e) + 1 \<le> lim"
  defines "m1 \<equiv> store32 m (fst e + 12) (of_nat (length (strs_bytes xs)))"
  defines "m2 \<equiv> store_bytes m1 (strings + of_nat (length (strs_bytes xs))) (snd e @ [0])"
  shows "written strings lim es m0 m2 (xs @ [e])"
proof -
  let ?n = "length (strs_bytes xs)" let ?w = "fst e + 12" let ?W = "span strings lim"
  have n: "?n + length (snd e @ [0]) \<le> lim" using lim(2) by simp
  have W: "span (strings + of_nat ?n) (length (snd e @ [0])) \<subseteq> ?W" by (rule span_sub [OF n fits_le [OF lim(1)]])
  have ids: "span ?w 4 \<subseteq> ids_span es" "span ?w 4 \<inter> ?W = {}" using e(1) apart by (auto simp: ids_span_def ids_apart_def)
  have s1: "same_outside (span ?w 4) m m1" unfolding m1_def by (rule store32_same_outside)
  have s2: "same_outside (span (strings + of_nat ?n) (length (snd e @ [0]))) m1 m2" unfolding m2_def by (rule store_bytes_same_outside)
  have out: "same_outside (?W \<union> ids_span es) m0 m2"
    by (rule same_on_trans [OF _ same_on_trans [OF same_outside_mono [OF s1] same_outside_mono [OF s2]]])
      (use w W ids in \<open>auto simp: written_def\<close>)
  have p: "span strings ?n \<subseteq> ?W" using lim(2) by (intro span_mono) simp
  have h1: "holds m1 strings (strs_bytes xs)"
    by (rule holds_same [of m strings _ m1]) (use w p ids fits_le [OF lim(1)] lim(2) same_outside_on [OF s1, of "span strings ?n"] in
      \<open>auto simp: written_def\<close>)
  have "span (strings + of_nat ?n) (length (snd e @ [0])) \<inter> span strings ?n = {}"
    using span_disjoint_off [of 0 ?n ?n "length (snd e @ [0])" strings] n fits_le [OF lim(1)] by auto
  then have "same_on (span strings ?n) m1 m2" by (rule same_outside_on [OF s2])
  then have h2: "holds m2 strings (strs_bytes xs)"
    using h1 fits_le [OF lim(1)] lim(2) by (intro holds_same [of m1 strings "strs_bytes xs" m2]) auto
  have "length (snd e @ [0]) \<le> 2 ^ 32" using n fits_le [OF lim(1)] by linarith
  then have "holds m2 (strings + of_nat ?n) (snd e @ [0])" unfolding m2_def by (rule holds_store_bytes)
  with h2 have h: "holds m2 strings (strs_bytes (xs @ [e]))" by (simp add: holds_append)
  have i2: "Identifier m2 (fst f) = Identifier m1 (fst f)" if "f \<in> set es" for f
  proof -
    have "span (strings + of_nat ?n) (length (snd e @ [0])) \<inter> span (fst f + 12) 4 = {}"
      using that apart W by (auto simp: ids_apart_def)
    from load32_same_on [OF same_outside_on [OF s2 this]] show ?thesis by (simp add: Identifier_def)
  qed
  have i1: "Identifier m1 (fst f) = (if f = e then of_nat ?n else Identifier m (fst f))" if "f \<in> set es" for f
  proof (cases "f = e")
    case False
    then have "fst f \<noteq> fst e" using apart that e(1) by (auto simp: ids_apart_def distinct_map dest: inj_onD)
    then have "span ?w 4 \<inter> span (fst f + 12) 4 = {}" using apart that e(1) by (auto simp: ids_apart_def)
    with False show ?thesis by (simp add: Identifier_def m1_def load32_store32_disjoint)
  qed (simp add: Identifier_def m1_def)
  have "Identifier m2 (fst f) = of_nat (length (strs_bytes us))" if s: "xs @ [e] = us @ f # vs" for us f vs
  proof (cases vs rule: rev_cases)
    case Nil
    with s have "f = e" "us = xs" by auto
    with i1 i2 e(1) show ?thesis by simp
  next
    case (snoc vs' v)
    with s have xs: "xs = us @ f # vs'" by simp
    then have "f \<in> set es" "f \<noteq> e" using sub e(2) by auto
    then show ?thesis using i1 i2 written_id [OF w [unfolded xs]] by simp
  qed
  with out h show ?thesis by (simp add: written_def)
qed

text \<open>One bucket, then all of them.\<close>

lemma add_strings_out:
  assumes rep: "\<forall>e\<in>set ys. entry_rep R m0 e" and links: "list_rep m0 l (map fst (us @ ys))" "\<forall>e\<in>set (us @ ys). span (fst e) 12 \<subseteq> R"
    and w: "written strings lim es m0 (memory s) xs" and apart: "ids_apart R (span strings lim) es"
    and es: "es = xs @ ys @ zs" and lim: "fits strings lim" "lim = unat (BlDtStringsSize s)" "length (strs_bytes es) \<le> lim"
    and str: "str = (case ys of [] \<Rightarrow> 0 | y # ys \<Rightarrow> fst y)"
  shows "\<exists>m. add_strings strings str (of_nat (length (strs_bytes xs))) s
      = ret (of_nat (length (strs_bytes (xs @ ys))), s\<lparr>memory := m\<rparr>) \<and> written strings lim es m0 m (xs @ ys)"
  using assms
proof (induction ys arbitrary: us xs s str)
  case Nil
  then show ?case by (intro exI [of _ "memory s"]) (simp add: add_strings.simps)
next
  case (Cons e ys)
  let ?n = "length (strs_bytes xs)" let ?m1 = "store32 (memory s) (fst e + 12) (of_nat ?n)" let ?d = "StringData m0 (fst e)"
  let ?sz = "length (snd e @ [0])"
  have same: "same_on R m0 (memory s)" by (rule written_same [OF Cons.prems(4,5)])
  have e: "e \<in> set es" "e \<notin> set xs" "set xs \<subseteq> set es" "entry_rep R m0 e" and ne: "fst e \<noteq> 0"
    using Cons.prems(1,5,6) by (auto simp: ids_apart_def entry_rep_def)
  have n: "?n + ?sz \<le> lim" using Cons.prems(6,9) by simp
  have lt: "lim < 2 ^ 32" using Cons.prems(8) unat_lt32 [of "BlDtStringsSize s"] by simp
  note e' = entry_rep_frame [OF e(4) same]
  then have d: "bytes_at R (memory s) (StringData (memory s) (fst e)) (snd e @ [0])" "name_ok (snd e)" by (auto simp: entry_rep_def)
  have R12: "span (fst e) 12 \<subseteq> R" using e(4) by (simp add: entry_rep_def)
  have data: "StringData m' (fst e) = ?d" if "same_on R m0 m'" for m'
    using load32_field [OF R12 that, of "num.Bit0 (num.Bit0 (num.Bit0 num.One))"] by (simp add: StringData_def)
  have "span (fst e + 12) 4 \<inter> R = {}" using Cons.prems(5) e(1) by (auto simp: ids_apart_def)
  then have same1: "same_on R m0 ?m1" by (intro same_on_trans [OF same] same_outside_on [OF store32_same_outside])
  let ?a = "strings + of_nat ?n" let ?m2 = "store_bytes ?m1 ?a (snd e @ [0])"
  have W: "span ?a ?sz \<subseteq> span strings lim" by (rule span_sub [OF n fits_le [OF Cons.prems(7)]])
  have sz: "unat (of_nat (length (snd e)) + 1 :: u32) = ?sz"
    using unat_of_nat32 [of "length (snd e) + 1"] n lt by (simp add: add.commute)
  have b: "bytes_at R ?m1 ?d (snd e @ [0])"
    using bytes_at_frame [OF d(1) same_on_trans [OF same_on_sym [OF same] same1]] by (simp add: data [OF same])
  have "span ?a ?sz \<inter> span ?d ?sz = {}" using W b Cons.prems(5) by (auto simp: bytes_at_def ids_apart_def)
  moreover have "fits ?a ?sz" by (rule fits_sub [OF Cons.prems(7) n])
  ultimately have copy: "BlCopyMemory ?m1 ?a ?d (of_nat (length (snd e)) + 1) = ?m2"
    using memcpy_store_bytes [of ?a "of_nat (length (snd e)) + 1" ?d ?m1] b
    by (simp only: BlCopyMemory_def sz bytes_at_def holds_def)
  have w': "written strings lim es m0 ?m2 (xs @ [e])"
    by (rule written_step [OF Cons.prems(4,5) e(1-3) Cons.prems(7)]) (use n in simp)
  have room: "of_nat ?n + (of_nat (length (snd e)) + 1) \<le> BlDtStringsSize s"
    using of_nat_le_size [of "?n + ?sz" "BlDtStringsSize s"] n lt Cons.prems(8) by (simp add: ac_simps)
  have len: "BlStringLength (memory s) (StringData (memory s) (fst e)) = Some (of_nat (length (snd e)))"
    by (rule bytes_at_length(1) [OF d])
  have R8: "span (fst e) 8 \<subseteq> R" using R12 span_mono [of 8 12 "fst e"] by auto
  have "NodeNext ?m2 (fst e) = NodeNext m0 (fst e)"
    using node_fields_same_on(2) [of "{fst e}" m0 ?m2 "fst e"] same_on_mono [OF written_same [OF w' Cons.prems(5)]] R8
    by (simp add: node_span_def)
  moreover have "NodeNext m0 (fst e) = head_or (map fst ys) 0" using Cons.prems(2) by (simp add: list_rep_def)
  ultimately have nxt: "StringNext ?m2 (fst e) = (case ys of [] \<Rightarrow> 0 | y # ys \<Rightarrow> fst y)"
    by (cases ys) (auto simp: StringNext_def BL_CONTAINER_def)
  have sum: "(of_nat (length (strs_bytes (xs @ [e]))) :: u32) = of_nat ?n + (of_nat (length (snd e)) + 1)" by (simp add: ac_simps)
  have step: "add_strings strings str (of_nat ?n) s
      = add_strings strings (StringNext ?m2 (fst e)) (of_nat (length (strs_bytes (xs @ [e])))) (s\<lparr>memory := ?m2\<rparr>)"
    unfolding sum using Cons.prems(10) ne room
    by (subst add_strings.simps) (simp add: len Let_def data [OF same1] copy)
  have "\<exists>m. add_strings strings (StringNext ?m2 (fst e)) (of_nat (length (strs_bytes (xs @ [e])))) (s\<lparr>memory := ?m2\<rparr>)
      = ret (of_nat (length (strs_bytes ((xs @ [e]) @ ys))), (s\<lparr>memory := ?m2\<rparr>)\<lparr>memory := m\<rparr>) \<and> written strings lim es m0 m ((xs @ [e]) @ ys)"
    by (rule Cons.IH [of "us @ [e]"]) (use Cons.prems w' nxt in simp_all)
  then show ?case unfolding step by simp
qed

lemma add_buckets_out:
  assumes rep: "strings_rep R m0 T bk" and T: "BlDtStrings s = T" and cap: "unat (BlDtStringsCapacity s) = length bk"
    and w: "written strings lim (concat bk) m0 (memory s) (concat xs)" and apart: "ids_apart R (span strings lim) (concat bk)"
    and bk: "bk = xs @ ys" and lim: "fits strings lim" "lim = unat (BlDtStringsSize s)" "length (strs_bytes (concat bk)) \<le> lim"
    and i: "i = of_nat (length xs)"
  shows "\<exists>m. add_buckets strings i (of_nat (length (strs_bytes (concat xs)))) s
      = ret (of_nat (length (strs_bytes (concat bk))), s\<lparr>memory := m\<rparr>) \<and> written strings lim (concat bk) m0 m (concat bk)"
  using assms
proof (induction ys arbitrary: xs s i)
  case Nil
  then have "BlDtStringsCapacity s = i" by (simp add: of_nat_unat_eq)
  with Nil show ?case by (intro exI [of _ "memory s"]) (simp add: add_buckets.simps)
next
  case (Cons y ys)
  have lx: "length xs < length bk" "length xs < 2 ^ 32" using Cons.prems(3,6) unat_lt32 [of "BlDtStringsCapacity s"] by auto
  then have less: "i < BlDtStringsCapacity s" using Cons.prems(3,10) by (simp add: word_less_nat_alt unat_of_nat32)
  have b: "bk ! length xs = y" "set y \<subseteq> set (concat bk)" using Cons.prems(6) by auto
  have r: "list_rep m0 (load_list m0 (T + 8 * of_nat (length xs))) (map fst y)" "\<forall>e\<in>set y. entry_rep R m0 e"
    using Cons.prems(1) lx(1) b unfolding strings_rep_def by (force, blast)
  have R: "span (T + 8 * of_nat (length xs)) 8 \<subseteq> R" using Cons.prems(1) bucket_span [OF lx(1)] by (auto simp: strings_rep_def)
  have "load_list (memory s) (T + 8 * of_nat (length xs)) = load_list m0 (T + 8 * of_nat (length xs))"
    by (rule load_list_frame [OF R written_same [OF Cons.prems(4,5)]])
  then have head: "BL_CONTAINER 0 (load32 (memory s) (BlDtStrings s + SIZEOF_BlList * i)) = (case y of [] \<Rightarrow> 0 | e # es \<Rightarrow> fst e)"
    using r(1) Cons.prems(2,10) by (cases y) (auto simp: load_list_def list_rep_def SIZEOF_BlList_def BL_CONTAINER_def)
  have es: "concat bk = concat xs @ y @ concat ys" using Cons.prems(6) by simp
  have l: "list_rep m0 (load_list m0 (T + 8 * of_nat (length xs))) (map fst ([] @ y))" "\<forall>e\<in>set ([] @ y). span (fst e) 12 \<subseteq> R"
    using r by (auto simp: entry_rep_def)
  from add_strings_out [OF r(2) l Cons.prems(4,5) es Cons.prems(7-9) refl]
  obtain m where m: "add_strings strings (case y of [] \<Rightarrow> 0 | e # es \<Rightarrow> fst e) (of_nat (length (strs_bytes (concat xs)))) s
      = ret (of_nat (length (strs_bytes (concat xs @ y))), s\<lparr>memory := m\<rparr>)" "written strings lim (concat bk) m0 m (concat (xs @ [y]))"
    by (simp only: concat_append concat.simps append_Nil2) blast
  have step: "add_buckets strings i (of_nat (length (strs_bytes (concat xs)))) s
      = add_buckets strings (i + 1) (of_nat (length (strs_bytes (concat (xs @ [y]))))) (s\<lparr>memory := m\<rparr>)"
    by (subst add_buckets.simps) (simp only: less if_True head m(1) bind_run_simps prod.case, simp)
  have "\<exists>m'. add_buckets strings (i + 1) (of_nat (length (strs_bytes (concat (xs @ [y]))))) (s\<lparr>memory := m\<rparr>)
      = ret (of_nat (length (strs_bytes (concat bk))), (s\<lparr>memory := m\<rparr>)\<lparr>memory := m'\<rparr>) \<and> written strings lim (concat bk) m0 m' (concat bk)"
    by (rule Cons.IH [of _ "xs @ [y]"]) (use Cons.prems m(2) in simp_all)
  then show ?case unfolding step by simp
qed

section \<open>Names found again\<close>

definition name_offset :: "dt_string list \<Rightarrow> u8 list \<Rightarrow> u32" where
  "name_offset es nm = of_nat (length (strs_bytes (takeWhile (\<lambda>e. snd e \<noteq> nm) es)))"

lemma takeWhile_split: "snd e \<notin> snd ` set us \<Longrightarrow> takeWhile (\<lambda>x. snd x \<noteq> snd e) (us @ e # vs) = us"
  by (induction us) auto

lemma written_offset:
  assumes "written strings lim es m0 m es" "distinct (map snd es)" "e \<in> set es"
  shows "Identifier m (fst e) = name_offset es (snd e)"
proof -
  obtain us vs where es: "es = us @ e # vs" using split_list [OF assms(3)] by blast
  with assms(2) have "snd e \<notin> snd ` set us" by auto
  then show ?thesis using written_id [OF assms(1) [unfolded es]] by (simp only: name_offset_def es takeWhile_split not_False_eq_True)
qed

lemma string_at_offset:
  assumes "e \<in> set es" "distinct (map snd es)" "name_ok (snd e)" "length (strs_bytes es) < 2 ^ 32"
  shows "string_at (strs_bytes es) (unat (name_offset es (snd e))) = Some (snd e)"
proof -
  obtain us vs where es: "es = us @ e # vs" using split_list [OF assms(1)] by blast
  with assms(2) have "snd e \<notin> snd ` set us" by auto
  then have "unat (name_offset es (snd e)) = length (strs_bytes us)"
    using assms(4) unfolding name_offset_def es takeWhile_split [OF \<open>snd e \<notin> snd ` set us\<close>] by (intro unat_of_nat32) simp
  moreover have "takeWhile (\<lambda>c. c \<noteq> 0) (snd e @ 0 # strs_bytes vs) = snd e"
    using assms(3) by (subst takeWhile_append2) (auto simp: name_ok_def)
  ultimately show ?thesis by (simp add: string_at_def es)
qed

end
