(* ===== verification/Blob_Build.thy ===== *)
theory Blob_Build
  imports Blob_Strings
begin

text \<open>
  The whole blob: header, reserved ranges, structure and strings, for a device tree held in memory.
  Read back by the format's rules it is the tree.
\<close>

section \<open>Little-endian stores as bytes\<close>

definition le32 :: "u32 \<Rightarrow> u8 list" where
  "le32 v = [ucast v, ucast (drop_bit 8 v), ucast (drop_bit 16 v), ucast (drop_bit 24 v)]"

definition le64 :: "u64 \<Rightarrow> u8 list" where
  "le64 v = le32 (ucast v) @ le32 (ucast (drop_bit 32 v))"

lemma length_le64 [simp]: "length (le32 w) = 4" "length (le64 v) = 8"
  by (simp_all add: le64_def le32_def)

lemma store32_le32: "store32 m a v = store_bytes m a (le32 v)"
  by (simp add: store32_def le32_def store_bytes_Cons add.commute [of 2 a] add.commute [of 3 a])

lemma store64_le64: "store64 m a v = store_bytes m a (le64 v)"
  using store_bytes_append [of "le32 (ucast v)" "le32 (ucast (drop_bit 32 v))" m a] by (simp add: store64_def store32_le32 le64_def)

section \<open>The reserved ranges\<close>

definition rsv_rep :: "u32 set \<Rightarrow> mem \<Rightarrow> u32 \<Rightarrow> (u64 \<times> u64) list \<Rightarrow> bool" where
  "rsv_rep R m P rsv \<longleftrightarrow> fits P (16 * length rsv) \<and> span P (16 * length rsv) \<subseteq> R
     \<and> (\<forall>i<length rsv. load64 m (P + 16 * of_nat i) = fst (rsv ! i) \<and> load64 m (P + 16 * of_nat i + 8) = snd (rsv ! i))"

definition range_bytes :: "u64 \<times> u64 \<Rightarrow> u8 list" where
  "range_bytes r = le64 (fst r) @ le64 (snd r)"

definition rsv_bytes :: "(u64 \<times> u64) list \<Rightarrow> u8 list" where
  "rsv_bytes rsv = concat (map range_bytes (rsv @ [(0, 0)]))"

lemma length_range_bytes [simp]: "length (range_bytes r) = 16"
  by (simp add: range_bytes_def)

lemma length_ranges: "length (concat (map range_bytes rs)) = 16 * length rs"
  by (induction rs) simp_all

lemma length_rsv_bytes [simp]: "length (rsv_bytes rsv) = 16 * (length rsv + 1)"
  by (simp only: rsv_bytes_def length_ranges length_append list.size add_0 One_nat_def add_Suc_right)

lemma store_range: "store64 (store64 m a x) (a + 8) y = store_bytes m a (range_bytes (x, y))"
  using store_bytes_append [of "le64 x" "le64 y" m a] by (simp add: store64_le64 range_bytes_def)

lemma load_range:
  assumes "rsv_rep R m0 P rsv" "same_on R m0 m" "i < length rsv"
  shows "load64 m (P + 16 * of_nat i) = fst (rsv ! i)" "load64 m (P + 16 * of_nat i + 8) = snd (rsv ! i)"
proof -
  have "16 * i + 16 \<le> 16 * length rsv" using assms(3) by simp
  from span_sub [OF this, of P] have s: "span (P + 16 * of_nat i) 16 \<subseteq> R"
    using assms(1) by (auto simp: rsv_rep_def fits_def)
  moreover have "span (P + 16 * of_nat i) 8 \<subseteq> span (P + 16 * of_nat i) 16" by (rule span_mono) simp
  moreover have "span (P + 16 * of_nat i + 8) 8 \<subseteq> span (P + 16 * of_nat i) 16"
    using span_sub_numeral [of "num.Bit0 (num.Bit0 (num.Bit0 num.One))" 8 16 "P + 16 * of_nat i"] by simp
  ultimately have "same_on (span (P + 16 * of_nat i) 8) m0 m" "same_on (span (P + 16 * of_nat i + 8) 8) m0 m"
    using same_on_mono [OF assms(2)] by blast+
  then show "load64 m (P + 16 * of_nat i) = fst (rsv ! i)" "load64 m (P + 16 * of_nat i + 8) = snd (rsv ! i)"
    using load64_same_on assms(1,3) by (auto simp: rsv_rep_def)
qed

lemma copy_rsvmap_out:
  assumes rep: "rsv_rep R m0 P rsv" and same: "same_on R m0 m" and rsv: "rsv = xs @ ys"
    and area: "fits A (16 * (length rsv + 1))" "R \<inter> span A (16 * (length rsv + 1)) = {}" and i: "i = of_nat (length xs)" "count = of_nat (length rsv)"
  shows "copy_rsvmap A P count i m = store_bytes m (A + of_nat (16 * length xs)) (rsv_bytes ys)"
  using assms
proof (induction ys arbitrary: xs m i)
  case Nil
  then show ?case by (subst copy_rsvmap.simps) (simp add: SIZEOF_BlFdtRsvmapEntry_def store_range rsv_bytes_def)
next
  case (Cons y ys)
  have lt: "length rsv < 2 ^ 32" "length xs < 2 ^ 32" using Cons.prems(3,4) by (auto simp: fits_def)
  have less: "i < count"
    unfolding word_less_nat_alt Cons.prems(6,7) unat_of_nat32 [OF lt(1)] unat_of_nat32 [OF lt(2)] using Cons.prems(3) by simp
  have n: "length xs < length rsv" "rsv ! length xs = y" using Cons.prems(3) by auto
  let ?a = "A + of_nat (16 * length xs)"
  let ?m = "store_bytes m ?a (range_bytes y)"
  have "16 * length xs + length (range_bytes y) \<le> 16 * (length rsv + 1)" using n(1) by simp
  from span_sub [OF this fits_le [OF Cons.prems(4)]] have "span ?a (length (range_bytes y)) \<inter> R = {}" using Cons.prems(5) by blast
  then have same': "same_on R m0 ?m" by (intro same_on_trans [OF Cons.prems(2)] same_outside_on [OF store_bytes_same_outside])
  have "same_on R m0 (store64 m ?a (fst y))"
  proof (intro same_on_trans [OF Cons.prems(2)] same_outside_on [OF store64_same_outside])
    show "span ?a 8 \<inter> R = {}"
      using \<open>span ?a (length (range_bytes y)) \<inter> R = {}\<close> span_mono [of 8 16 ?a] by auto
  qed
  note l = load_range(1) [OF Cons.prems(1,2) n(1)] load_range(2) [OF Cons.prems(1) this n(1)]
  have "copy_rsvmap A P count i m = copy_rsvmap A P count (i + 1) ?m"
    using less l n(2) store_range [of m ?a "fst y" "snd y"] Cons.prems(6)
    by (subst copy_rsvmap.simps) (simp add: Let_def SIZEOF_BlFdtRsvmapEntry_def SIZEOF_BlDtRsvMem_def)
  also have "\<dots> = store_bytes ?m (A + of_nat (16 * length (xs @ [y]))) (rsv_bytes ys)"
    by (rule Cons.IH) (use Cons.prems same' in simp_all)
  also have "\<dots> = store_bytes m ?a (rsv_bytes (y # ys))"
    using store_bytes_append [of "range_bytes y" "rsv_bytes ys" m ?a] Cons.prems(3,4) by (simp add: rsv_bytes_def fits_def length_ranges algebra_simps)
  finally show ?case .
qed

section \<open>The header\<close>

definition words_bytes :: "u32 list \<Rightarrow> u8 list" where
  "words_bytes ws = concat (map be32 ws)"

lemma length_words_bytes [simp]: "length (words_bytes ws) = 4 * length ws"
  by (induction ws) (simp_all add: words_bytes_def)

lemma store_word:
  assumes "length ws < 2 ^ 28" "k = 4 * of_nat (length ws)"
  shows "store32 (store_bytes m h (words_bytes ws)) (h + k) (BL_BE32 v) = store_bytes m h (words_bytes (ws @ [v]))"
  using store_bytes_append [of "words_bytes ws" "be32 v" m h] assms by (simp add: store32_be32) (simp add: words_bytes_def)

lemma write_header_out:
  "write_header h tot rsize whami s = s\<lparr>memory := store_bytes (memory s) h (words_bytes
     [BL_FDT_MAGIC, tot, 40 + rsize, 40 + rsize + BlDtStructureSize s, 40, 17, 16, whami, BlDtStringsSize s, BlDtStructureSize s])\<rparr>"
proof -
  have first: "store32 m h (BL_BE32 v) = store_bytes m h (words_bytes [v])" for m v
    by (simp add: store32_be32 words_bytes_def)
  show ?thesis
    unfolding write_header_def header_field_def Let_def struct_BlFdtHeader_def
    by (simp add: store_word first SIZEOF_BlFdtHeader_def BL_FDT_VERSION_def BL_FDT_COMP_VERSION_def)
qed

lemma write_header_sel:
  "BlDtRsvMem (write_header h tot rsize whami s) = BlDtRsvMem s" "BlDtRsvMemCount (write_header h tot rsize whami s) = BlDtRsvMemCount s"
  by (simp_all add: write_header_out)

section \<open>A device tree in memory\<close>

lemma bytes_at_mono: "bytes_at R m a bs \<Longrightarrow> R \<subseteq> R' \<Longrightarrow> bytes_at R' m a bs"
  by (auto simp: bytes_at_def)

lemma prop_rep_mono: "prop_rep R m q p \<Longrightarrow> R \<subseteq> R' \<Longrightarrow> prop_rep R' m q p"
  by (auto simp: prop_rep_def bytes_at_def)

lemma node_rep_mono: "node_rep R m par a nm ps kids \<Longrightarrow> R \<subseteq> R' \<Longrightarrow> node_rep R' m par a nm ps kids"
  unfolding node_rep_def by (blast intro: bytes_at_mono prop_rep_mono)

lemma tree_rep_mono: "tree_rep R m par t \<Longrightarrow> R \<subseteq> R' \<Longrightarrow> tree_rep R' m par t"
  by (induction R m par t rule: tree_rep.induct) (auto intro: node_rep_mono)

lemma entry_rep_mono: "entry_rep R m e \<Longrightarrow> R \<subseteq> R' \<Longrightarrow> entry_rep R' m e"
  by (auto simp: entry_rep_def intro: bytes_at_mono)

text \<open>
  The tree \<open>t\<close>, the table \<open>bk\<close> of interned strings and the reserved ranges \<open>rsv\<close> in the area \<open>R\<close>, the
  identifiers beside it, and the counters that agree with them.
\<close>

definition strings_ok :: "u32 set \<Rightarrow> 'a dt_scheme \<Rightarrow> dt_string list list \<Rightarrow> bool" where
  "strings_ok R s bk \<longleftrightarrow> strings_rep R (memory s) (BlDtStrings s) bk \<and> unat (BlDtStringsCapacity s) = length bk
     \<and> ids_apart R {} (concat bk) \<and> distinct (map snd (concat bk)) \<and> unat (BlDtStringsSize s) = length (strs_bytes (concat bk))"

definition dt_ok :: "u32 \<Rightarrow> u32 set \<Rightarrow> 'a dt_scheme \<Rightarrow> dt_node \<Rightarrow> dt_string list list \<Rightarrow> (u64 \<times> u64) list \<Rightarrow> bool" where
  "dt_ok root R s t bk rsv \<longleftrightarrow> tree_rep R (memory s) 0 t \<and> dn_addr t = root \<and> distinct (addrs t) \<and> strings_ok R s bk
     \<and> (\<forall>p\<in>set (props_of t). (dp_entry p, dp_name p) \<in> set (concat bk))
     \<and> unat (BlDtStructureSize s) = node_size (fdt_of t) + 4
     \<and> rsv_rep R (memory s) (BlDtRsvMem s) rsv \<and> unat (BlDtRsvMemCount s) = length rsv"

lemma tree_root_nz: "tree_rep R m par t \<Longrightarrow> 0 \<notin> set (addrs t)"
  by (induction R m par t rule: tree_rep.induct) (auto simp: node_rep_def)

section \<open>The bytes of the blob\<close>

definition blob_size :: "dt_node \<Rightarrow> dt_string list list \<Rightarrow> (u64 \<times> u64) list \<Rightarrow> nat" where
  "blob_size t bk rsv = 40 + 16 * (length rsv + 1) + (node_size (fdt_of t) + 4) + length (strs_bytes (concat bk))"

definition blob_header :: "u32 \<Rightarrow> dt_node \<Rightarrow> dt_string list list \<Rightarrow> (u64 \<times> u64) list \<Rightarrow> u8 list" where
  "blob_header whami t bk rsv =
     (let r = 40 + 16 * (length rsv + 1); n = node_size (fdt_of t) + 4
      in words_bytes [BL_FDT_MAGIC, of_nat (blob_size t bk rsv), of_nat r, of_nat (r + n), 40, 17, 16, whami,
           of_nat (length (strs_bytes (concat bk))), of_nat n])"

definition blob_bytes :: "u32 \<Rightarrow> dt_node \<Rightarrow> dt_string list list \<Rightarrow> (u64 \<times> u64) list \<Rightarrow> u8 list" where
  "blob_bytes whami t bk rsv = blob_header whami t bk rsv @ rsv_bytes rsv
     @ struct_bytes (name_offset (concat bk)) (fdt_of t) @ strs_bytes (concat bk)"

lemma length_blob_header [simp]: "length (blob_header whami t bk rsv) = 40"
  by (simp add: blob_header_def Let_def)

lemma length_blob_bytes [simp]: "length (blob_bytes whami t bk rsv) = blob_size t bk rsv"
  by (simp add: blob_bytes_def blob_size_def)

lemma bytes_apart:
  assumes "fits h n" "i + k \<le> n"
  shows "span (h + of_nat i) k \<subseteq> span h n" "fits (h + of_nat i) k"
  using span_sub [OF assms(2) fits_le [OF assms(1)]] fits_sub [OF assms] by simp_all

text \<open>Header and reserved ranges.\<close>

lemma blob_front:
  assumes rsv: "rsv_rep R (memory s) (BlDtRsvMem s) rsv" "unat (BlDtRsvMemCount s) = length rsv"
    and area: "fits h n" "40 + 16 * (length rsv + 1) \<le> n" "R \<inter> span h n = {}" and that: "length ws = 10"
  shows "copy_rsvmap (h + 40) (BlDtRsvMem s) (BlDtRsvMemCount s) 0 (store_bytes (memory s) h (words_bytes ws))
    = store_bytes (store_bytes (memory s) h (words_bytes ws)) (h + 40) (rsv_bytes rsv)"
proof -
  have "span h (length (words_bytes ws)) \<inter> R = {}" using area span_mono [of 40 n h] that by auto
  then have same: "same_on R (memory s) (store_bytes (memory s) h (words_bytes ws))"
    by (rule same_outside_on [OF store_bytes_same_outside])
  note sub = bytes_apart [OF area(1,2)]
  have "R \<inter> span (h + 40) (16 * (length rsv + 1)) = {}" using sub(1) area(3) by auto
  from copy_rsvmap_out [OF rsv(1) same, of "[]", OF _ _ this] sub(2) show ?thesis
    using of_nat_unat_eq [OF rsv(2)] by simp
qed

text \<open>The two parts behind them.\<close>

lemma blob_strings_part:
  assumes ok: "strings_ok R s bk" and area: "fits strings (length (strs_bytes (concat bk)))"
    "(R \<union> ids_span (concat bk)) \<inter> span strings (length (strs_bytes (concat bk))) = {}"
  shows "\<exists>m. add_buckets strings 0 0 s = ret (BlDtStringsSize s, s\<lparr>memory := m\<rparr>)
    \<and> written strings (length (strs_bytes (concat bk))) (concat bk) (memory s) m (concat bk)
    \<and> ids_apart R (span strings (length (strs_bytes (concat bk)))) (concat bk)"
proof -
  let ?es = "concat bk" let ?n = "length (strs_bytes ?es)"
  have S: "strings_rep R (memory s) (BlDtStrings s) bk" "unat (BlDtStringsCapacity s) = length bk" "ids_apart R {} ?es"
    "unat (BlDtStringsSize s) = ?n" using ok by (simp_all add: strings_ok_def)
  have "written strings ?n ?es (memory s) (memory s) (concat [])" by (simp add: written_def)
  moreover have apart: "ids_apart R (span strings ?n) ?es"
    using S(3) area(2) by (auto simp: ids_apart_def ids_span_def)
  ultimately have "\<exists>m. add_buckets strings 0 (of_nat (length (strs_bytes (concat ([] :: dt_string list list))))) s
      = ret (of_nat ?n, s\<lparr>memory := m\<rparr>) \<and> written strings ?n ?es (memory s) m ?es"
    by (rule add_buckets_out [where xs = "[]", OF S(1) refl S(2) _ _ _ area(1)]) (simp_all add: S(4))
  then show ?thesis using apart of_nat_unat_eq [OF S(4)] by simp
qed

lemma blob_structure_part:
  assumes tree: "tree_rep R (memory s) 0 t" "distinct (addrs t)" "\<forall>p\<in>set (props_of t). ident_ok R off (memory s) p"
    and size: "unat (BlDtStructureSize s) = node_size (fdt_of t) + 4"
    and area: "fits st (node_size (fdt_of t) + 4)" "R \<inter> span st (node_size (fdt_of t) + 4) = {}"
  shows "bind_run (build_structure st (dn_addr t) 0 0 s) (\<lambda>(offset, s). bind_run (BlDtAddToken st offset BL_FDT_END s) f)
    = f (BlDtStructureSize s, s\<lparr>memory := store_bytes (memory s) st (struct_bytes off (fdt_of t))\<rparr>)"
proof -
  let ?n = "node_size (fdt_of t)" let ?b = "node_bytes off (fdt_of t)" let ?s = "put st 0 ?b s"
  have out: "out_ok R (memory s) st s 0 (length ?b + (4 + 0))" using size area by (simp add: out_ok_def)
  have "0 \<notin> set (addrs t)" by (rule tree_root_nz [OF tree(1)])
  from walk_node [OF tree(1,3,2) this out_ok_weaken [OF out]]
  have "build_structure st (dn_addr t) 0 (of_nat 0) s = build_structure st 0 (dn_addr t) (of_nat (0 + ?n)) ?s" by simp
  then have w: "build_structure st (dn_addr t) 0 0 s = ret (of_nat (0 + ?n), ?s)" by (simp add: build_structure.simps [of st 0])
  note e = BlDtAddToken_out(1) [OF out_ok_put [OF out], where token = 9, unfolded length_node_bytes]
  have "put st (0 + length ?b) (be32 9) (put st 0 ?b s) = put st 0 (struct_bytes off (fdt_of t)) s"
    unfolding struct_bytes_def by (rule put_put) (use out_ok_bounds [OF out] in simp)
  moreover have "BlDtStructureSize s = of_nat (0 + ?n + 4)" using of_nat_unat_eq [OF size] by simp
  ultimately show ?thesis
    by (simp only: w bind_run_simps prod.case BL_FDT_END_def e emitted_def length_be32 length_node_bytes) (simp add: put_def)
qed

lemma fill_blob_out:
  fixes s :: "'a dt_scheme"
  assumes ok: "dt_ok (BlDtRootNode L) R s t bk rsv" and n: "n = blob_size t bk rsv" "n < 2 ^ 32" and fits: "fits h n"
    and apart: "(R \<union> ids_span (concat bk)) \<inter> span h n = {}"
  shows "\<exists>m. fill_blob L h (of_nat n) (of_nat (16 * (length rsv + 1))) whami s = ret (h, s\<lparr>memory := m\<rparr>)
    \<and> holds m h (blob_bytes whami t bk rsv) \<and> same_outside (span h n \<union> ids_span (concat bk)) (memory s) m"
proof -
  let ?es = "concat bk" let ?r = "40 + 16 * (length rsv + 1)" let ?ns = "node_size (fdt_of t) + 4" let ?ss = "length (strs_bytes ?es)"
  let ?ids = "ids_span ?es" let ?st = "h + of_nat ?r" let ?str = "h + of_nat (?r + ?ns)" let ?off = "name_offset ?es"
  have D: "tree_rep R (memory s) 0 t" "dn_addr t = BlDtRootNode L" "distinct (addrs t)" "strings_ok R s bk"
    "\<forall>p\<in>set (props_of t). (dp_entry p, dp_name p) \<in> set ?es" "unat (BlDtStructureSize s) = ?ns"
    "rsv_rep R (memory s) (BlDtRsvMem s) rsv" "unat (BlDtRsvMemCount s) = length rsv"
    using ok by (simp_all add: dt_ok_def)
  have sum: "n = ?r + ?ns + ?ss" by (simp add: n(1) blob_size_def)
  define m1 where "m1 = store_bytes (memory s) h (blob_header whami t bk rsv @ rsv_bytes rsv)"
  let ?s1 = "s\<lparr>memory := m1\<rparr>"
  have front: "(write_header h (of_nat n) (of_nat (16 * (length rsv + 1))) whami s)
      \<lparr>memory := copy_rsvmap (h + 40) (BlDtRsvMem s) (BlDtRsvMemCount s) 0
        (memory (write_header h (of_nat n) (of_nat (16 * (length rsv + 1))) whami s))\<rparr> = ?s1"
  proof -
    have sizes: "BlDtStructureSize s = of_nat ?ns" "BlDtStringsSize s = of_nat ?ss"
      using of_nat_unat_eq [OF D(6)] D(4) of_nat_unat_eq [of "BlDtStringsSize s"] by (simp_all add: strings_ok_def)
    have "40 + 16 * (length rsv + 1) \<le> n" "R \<inter> span h n = {}" using sum apart by auto
    note F = blob_front [OF D(7,8) fits this]
    have h: "write_header h (of_nat n) (of_nat (16 * (length rsv + 1))) whami s = s\<lparr>memory := store_bytes (memory s) h (blob_header whami t bk rsv)\<rparr>"
      by (simp add: write_header_out blob_header_def Let_def sizes n(1) [symmetric])
    have hw: "\<exists>ws. blob_header whami t bk rsv = words_bytes ws \<and> length ws = 10" by (auto simp: blob_header_def Let_def)
    then obtain ws where ws: "blob_header whami t bk rsv = words_bytes ws" "length ws = 10" by blast
    have "store_bytes (store_bytes (memory s) h (blob_header whami t bk rsv)) (h + of_nat (length (blob_header whami t bk rsv))) (rsv_bytes rsv) = m1"
      unfolding m1_def by (rule store_bytes_append) (use sum n(2) in simp)
    then show ?thesis unfolding h using F [OF ws(2)] by (simp add: ws(1) [symmetric])
  qed
  have s1: "same_outside (span h ?r) (memory s) m1"
    unfolding m1_def using store_bytes_same_outside [of h "blob_header whami t bk rsv @ rsv_bytes rsv" "memory s"] by simp
  have sub: "span h ?r \<subseteq> span h n" "span ?st ?ns \<subseteq> span h n" "span ?str ?ss \<subseteq> span h n" "fits ?st ?ns" "fits ?str ?ss"
    using span_mono [of ?r n h] bytes_apart [OF fits, of ?r ?ns] bytes_apart [OF fits, of "?r + ?ns" ?ss] sum by auto
  have apart': "(R \<union> ?ids) \<inter> span h ?r = {}" "(R \<union> ?ids) \<inter> span ?st ?ns = {}" "(R \<union> ?ids) \<inter> span ?str ?ss = {}"
    using sub(1-3) apart by blast+
  have R1: "same_on (R \<union> ?ids) (memory s) m1" by (rule same_outside_on [OF s1]) (use apart'(1) in blast)
  have "strings_ok R ?s1 bk"
    using D(4) strings_rep_frame [OF _ same_on_mono [OF R1, of R]] by (auto simp: strings_ok_def)
  from blob_strings_part [OF this sub(5) apart'(3)] obtain m2 where
    A: "add_buckets ?str 0 0 ?s1 = ret (BlDtStringsSize ?s1, ?s1\<lparr>memory := m2\<rparr>)"
    and W: "written ?str ?ss ?es m1 m2 ?es" and I: "ids_apart R (span ?str ?ss) ?es" by auto
  let ?s2 = "s\<lparr>memory := m2\<rparr>"
  have R2: "same_on R (memory s) m2" by (rule same_on_trans [OF same_on_mono [OF R1] written_same [OF W I]]) blast
  have tree: "tree_rep (R \<union> ?ids) m2 0 t" by (rule tree_rep_mono [OF tree_rep_frame [OF D(1) R2]]) blast
  have "ident_ok (R \<union> ?ids) ?off m2 p" if p: "p \<in> set (props_of t)" for p
  proof -
    have e: "(dp_entry p, dp_name p) \<in> set ?es" using D(5) p by blast
    have "entry_rep R (memory s) (dp_entry p, dp_name p)"
      using D(4) e unfolding strings_ok_def strings_rep_def by blast
    then have "span (dp_entry p) 12 \<subseteq> R" by (simp add: entry_rep_def)
    moreover have "span (dp_entry p + 12) 4 \<subseteq> ?ids" using e by (force simp: ids_span_def)
    moreover have "span (dp_entry p) 16 \<subseteq> span (dp_entry p) 12 \<union> span (dp_entry p + 12) 4"
    proof
      fix x assume "x \<in> span (dp_entry p) 16"
      then obtain j where j: "j < 16" "x = dp_entry p + of_nat j" by (rule span_offE)
      show "x \<in> span (dp_entry p) 12 \<union> span (dp_entry p + 12) 4"
      proof (cases "j < 12")
        case True
        then show ?thesis using span_off [of j 12 "dp_entry p"] j(2) by simp
      next
        case False
        then have "x = dp_entry p + 12 + of_nat (j - 12)" using j by (simp add: of_nat_diff)
        then show ?thesis using span_off [of "j - 12" 4 "dp_entry p + 12"] j(1) False by auto
      qed
    qed
    moreover have "Identifier m2 (dp_entry p) = ?off (dp_name p)"
      using written_offset [OF W _ e] D(4) by (simp add: strings_ok_def)
    ultimately show ?thesis by (auto simp: ident_ok_def)
  qed
  then have ids: "\<forall>p\<in>set (props_of t). ident_ok (R \<union> ?ids) ?off m2 p" by blast
  let ?m3 = "store_bytes m2 ?st (struct_bytes ?off (fdt_of t))"
  have S: "bind_run (build_structure ?st (BlDtRootNode L) 0 0 ?s2) (\<lambda>(offset, s). bind_run (BlDtAddToken ?st offset BL_FDT_END s) f)
      = f (BlDtStructureSize s, s\<lparr>memory := ?m3\<rparr>)" for f :: "u32 \<times> 'a dt_scheme \<Rightarrow> 'c run"
  proof -
    have "tree_rep (R \<union> ?ids) (memory ?s2) 0 t" "\<forall>p\<in>set (props_of t). ident_ok (R \<union> ?ids) ?off (memory ?s2) p"
      "unat (BlDtStructureSize ?s2) = ?ns" using tree ids D(6) by simp_all
    from blob_structure_part [OF this(1) D(3) this(2,3) sub(4) apart'(2), of f] show ?thesis unfolding D(2) by simp
  qed
  have run: "fill_blob L h (of_nat n) (of_nat (16 * (length rsv + 1))) whami s = ret (h, s\<lparr>memory := ?m3\<rparr>)"
  proof -
    have st: "h + 40 + of_nat (16 * (length rsv + 1)) = ?st" by (simp add: add.assoc)
    have str: "?st + BlDtStructureSize s = ?str" using of_nat_unat_eq [OF D(6)] by (simp add: ac_simps)
    have A': "add_buckets ?str 0 0 ?s1 = ret (BlDtStringsSize s, ?s2)" using A by simp
    show ?thesis
      unfolding fill_blob_def Let_def SIZEOF_BlFdtHeader_def st write_header_sel front str
      unfolding A' bind_run_simps prod.case dt.simps S
      by simp
  qed
  have out2: "same_outside (span ?str ?ss \<union> ?ids) m1 m2" using W by (simp add: written_def)
  have out3: "same_outside (span ?st ?ns) m2 ?m3" using store_bytes_same_outside [of ?st "struct_bytes ?off (fdt_of t)" m2] by simp
  have lt: "?r \<le> 2 ^ 32" "?ns \<le> 2 ^ 32" "?ss \<le> 2 ^ 32" using sum n(2) by simp_all
  have d12: "span ?str ?ss \<inter> span h ?r = {}" "span ?st ?ns \<inter> span h ?r = {}" "span ?st ?ns \<inter> span ?str ?ss = {}"
    using span_disjoint_off [of 0 ?r "?r + ?ns" ?ss h] span_disjoint_off [of 0 ?r ?r ?ns h] span_disjoint_off [of ?r ?ns "?r + ?ns" ?ss h]
      sum n(2) by auto
  have "holds m1 h (blob_header whami t bk rsv @ rsv_bytes rsv)"
    unfolding m1_def by (rule holds_store_bytes) (use lt in simp)
  moreover have "same_on (span h ?r) m1 ?m3"
    by (rule same_on_trans [OF same_outside_on [OF out2] same_outside_on [OF out3]]) (use d12 apart'(1) in auto)
  ultimately have h1: "holds ?m3 h (blob_header whami t bk rsv @ rsv_bytes rsv)"
    by (intro holds_same [of m1 h _ ?m3]) (use lt in simp_all)
  have h2: "holds ?m3 ?st (struct_bytes ?off (fdt_of t))" by (rule holds_store_bytes) (use lt in simp)
  have h3: "holds ?m3 ?str (strs_bytes ?es)"
    by (rule holds_same [of m2]) (use W lt same_outside_on [OF out3 d12(3)] in \<open>simp_all add: written_def\<close>)
  have "holds ?m3 h (blob_bytes whami t bk rsv)"
    using h1 h2 h3 by (simp add: blob_bytes_def holds_append ac_simps)
  moreover have "same_outside (span h n \<union> ?ids) (memory s) ?m3"
    by (rule same_on_trans [OF same_outside_mono [OF s1] same_on_trans [OF same_outside_mono [OF out2] same_outside_mono [OF out3]]])
      (use sub in blast)+
  ultimately show ?thesis using run by blast
qed

end
