(* ===== verification/Page_Areas.thy ===== *)
theory Page_Areas
  imports Paging_Map
begin

text \<open>
  Mapping many pages: what a call of \<open>BlMapPage\<close> keeps besides the tables, and the map after a run of
  pages as a statement about addresses. The boot loader maps the kernel image and the device tree blob this way.
\<close>

section \<open>Pages as spans\<close>

lemma drop_bit_12: "unat (drop_bit 12 (v :: u32)) = unat v div 4096"
  by (simp add: unat_drop_bit_eq drop_bit_eq_div unat_div)

lemma same_page:
  assumes "4096 dvd unat a"
  shows "drop_bit 12 v = drop_bit 12 a \<longleftrightarrow> v \<in> span a 4096"
proof -
  obtain q where q: "unat a = 4096 * q" using assms by (auto elim: dvdE)
  then have "fits a 4096" using unat_lt32 [of a] by (simp add: fits_def)
  then have "v \<in> span a 4096 \<longleftrightarrow> 4096 * q \<le> unat v \<and> unat v < 4096 * q + 4096" by (simp add: span_fits q)
  also have "\<dots> \<longleftrightarrow> unat v div 4096 = q" by (auto simp: div_nat_eqI)
  also have "\<dots> \<longleftrightarrow> drop_bit 12 v = drop_bit 12 a" using q by (simp add: word_unat_eq_iff drop_bit_12)
  finally show ?thesis by simp
qed

lemma aligned_off: "4096 dvd unat (a :: u32) \<Longrightarrow> 4096 dvd n \<Longrightarrow> 4096 dvd unat (a + of_nat n)"
proof -
  assume "4096 dvd unat a" "4096 dvd n"
  then have "4096 dvd (unat a + n) mod 2 ^ 32" by (intro dvd_mod dvd_add) simp_all
  moreover have "unat (a + of_nat n) = (unat a + n) mod 2 ^ 32"
    by (simp add: unat_word_ariths unat_of_nat take_bit_eq_mod mod_simps)
  ultimately show ?thesis by simp
qed

text \<open>An address in an aligned page, read through an entry that points to an aligned page.\<close>

lemma page_offset:
  fixes p :: u32
  assumes a: "4096 dvd unat a" and p: "4096 dvd unat p" and v: "v \<in> span a 4096"
  shows "push_bit 12 (drop_bit 12 p) OR (v AND BL_PAGE_MASK) = p + (v - a)"
proof -
  have mask: "BL_PAGE_MASK = mask 12" by (simp add: paging_consts mask_eq_exp_minus_1)
  have d: "drop_bit 12 v = drop_bit 12 a" using v same_page [OF a] by simp
  have "v = push_bit 12 (drop_bit 12 v) + take_bit 12 v" by (metis bits_ident)
  then have off: "v - a = take_bit 12 v" unfolding d page_aligned [OF a] by (simp add: algebra_simps)
  have disj: "push_bit 12 (drop_bit 12 p) AND take_bit 12 v = 0"
    by (rule bit_word_eqI) (auto simp: bit_simps)
  have "push_bit 12 (drop_bit 12 p) OR take_bit 12 v = push_bit 12 (drop_bit 12 p) + take_bit 12 v"
    using disj by (simp add: disjunctive_add_eq_or)
  then show ?thesis unfolding mask off by (simp add: page_aligned [OF p] take_bit_eq_mask)
qed

section \<open>What a mapping keeps\<close>

lemma heap_page_more:
  assumes "heap_inv s rs fs" "heap_page s = ret (p, s')"
  shows "heap.more s' = heap.more s"
proof -
  have "alloc_request BL_PAGE_SIZE BL_PAGE_SIZE True 12" by (simp add: alloc_request_def paging_consts)
  from BlAllocateHeap_spec [OF assms(1) this] assms(2) show ?thesis by (auto simp: data_kept_def)
qed

lemma BlMapPage_more:
  assumes "heap_inv s rs fs" "BlMapPage pt virt phys s = ret s'"
  shows "heap.more s' = heap.more s"
  using assms heap_page_more [OF assms(1)]
  by (cases "heap_page s" rule: run_cases)
    (auto simp: BlMapPage_def BiGetTable_cases heap_pages.zero_page_def set_entry_def split: option.splits)

lemma subtables_same:
  assumes "\<And>j. unat j < 1024 \<Longrightarrow> subtable m' pt j = subtable m pt j"
  shows "table_span m' pt = table_span m pt"
  unfolding table_span_def using assms by auto

lemma BlMapPage_tables:
  assumes inv: "heap_inv s rs fs" and ok: "tables_ok (memory s) pt (foot rs)" and ret: "BlMapPage pt virt phys s = ret s'"
  shows "table_span (memory s') pt \<subseteq> table_span (memory s) pt \<union> foot rs"
proof -
  note idx = BiPteIndex_less
  let ?i = "BiPteIndex virt 1"
  obtain t s1 where g: "BiGetTable pt virt True s = ret (t, s1)" "s' = set_entry t (BiPteIndex virt 0) (BiCreatePte phys) s1"
    using ret by (cases "BiGetTable pt virt True s" rule: run_cases) (auto simp: BlMapPage_def)
  have entry: "subtable (memory s') pt j = subtable (memory s1) pt j" if "span t 4096 \<inter> span pt 4096 = {}" "unat j < 1024" for j
    unfolding g(2) by (rule subtable_same_on [OF same_outside_on [OF set_entry_outside [OF idx] that(1)] that(2)])
  show ?thesis
  proof (cases "subtable (memory s) pt ?i")
    case (Some t')
    then have "t = t'" "s1 = s" using g(1) by (simp_all add: BiGetTable_cases)
    then have "table_span (memory s') pt = table_span (memory s) pt"
      using entry tables_okD(3) [OF ok idx Some] by (intro subtables_same) blast
    then show ?thesis by simp
  next
    case None
    have "heap_good s (foot rs) (live_data rs)" using inv by (auto simp: heap_good_def)
    from heap_pages.zero_page_law [OF this] g(1) None obtain s0 A' where
      z: "heap_pages.zero_page s = ret (t, s0)" "s1 = set_entry pt ?i (BiCreatePte t) s0" "span t 4096 \<subseteq> foot rs - A'"
        "4096 dvd unat t" "same_on (live_data rs \<union> - foot rs) (memory s) (memory s0)"
      by (auto simp: BiGetTable_cases)
    have apart: "span t 4096 \<inter> span pt 4096 = {}" using z(3) tables_okD(1) [OF ok] by blast
    have root: "same_on (span pt 4096) (memory s) (memory s0)"
      by (rule same_on_mono [OF z(5)]) (use tables_okD(1) [OF ok] in blast)
    have "subtable (memory s') pt j = (if j = ?i then Some t else subtable (memory s) pt j)" if j: "unat j < 1024" for j
    proof -
      have "subtable (memory s1) pt j = (if j = ?i then Some t else subtable (memory s) pt j)"
        unfolding z(2) subtable_def set_entry_memory entry_store [OF idx j]
        by (simp add: entry_same_on [OF root j] BiDecodePte_BiCreatePte page_aligned [OF z(4)])
      then show ?thesis using entry [OF apart j] by simp
    qed
    then have "table_span (memory s') pt \<subseteq> table_span (memory s) pt \<union> span t 4096"
      unfolding table_span_def by (auto split: if_splits option.splits)
    with z(3) show ?thesis by blast
  qed
qed

lemma table_span_apart: "tables_ok m pt A \<Longrightarrow> table_span m pt \<inter> A = {}"
  using tables_okD(1,2) [of m pt A] unfolding table_span_def by (fastforce split: option.splits)

lemma translate_same_on:
  assumes "same_on (table_span m pt) m m'"
  shows "translate m' pt v = translate m pt v" "subtable m' pt (BiPteIndex w 1) = subtable m pt (BiPteIndex w 1)"
    "table_span m' pt = table_span m pt"
proof -
  have pt: "same_on (span pt 4096) m m'" by (rule same_on_mono [OF assms]) (auto simp: table_span_def)
  have sub: "subtable m' pt j = subtable m pt j" if "unat j < 1024" for j by (rule subtable_same_on [OF pt that])
  show "table_span m' pt = table_span m pt" by (rule subtables_same [OF sub])
  show "subtable m' pt (BiPteIndex w 1) = subtable m pt (BiPteIndex w 1)" by (rule sub [OF BiPteIndex_less])
  have "entry m' t (BiPteIndex v 0) = entry m t (BiPteIndex v 0)" if "subtable m pt (BiPteIndex v 1) = Some t" for t
    by (rule entry_same_on [OF same_on_mono [OF assms table_span_sub [OF BiPteIndex_less that]] BiPteIndex_less])
  then show "translate m' pt v = translate m pt v"
    unfolding translate_def sub [OF BiPteIndex_less] by (cases "subtable m pt (BiPteIndex v 1)") simp_all
qed

section \<open>The state while pages are mapped\<close>

text \<open>
  \<open>s'\<close> after some calls that allocate permanent pages and map them: the heap and the tables in order,
  live data, other memory and the statics as before.
\<close>

definition mapping_kept :: "u32 \<Rightarrow> 'a heap_scheme \<Rightarrow> block list \<Rightarrow> 'a heap_scheme \<Rightarrow> block list \<Rightarrow> u32 list \<Rightarrow> bool" where
  "mapping_kept pt s rs s' rs' fs' \<longleftrightarrow> heap_inv s' rs' fs' \<and> tables_ok (memory s') pt (foot rs') \<and> live_data rs' = live_data rs
     \<and> foot rs' \<subseteq> foot rs \<and> same_on (live_data rs \<union> - (foot rs \<union> table_span (memory s) pt)) (memory s) (memory s')
     \<and> table_span (memory s') pt \<subseteq> table_span (memory s) pt \<union> foot rs \<and> heap.more s' = heap.more s"

lemma mapping_kept_refl: "heap_inv s rs fs \<Longrightarrow> tables_ok (memory s) pt (foot rs) \<Longrightarrow> mapping_kept pt s rs s rs fs"
  by (auto simp: mapping_kept_def)

lemma mapping_kept_trans:
  assumes a: "mapping_kept pt s rs s1 rs1 fs1" and b: "mapping_kept pt s1 rs1 s2 rs2 fs2"
  shows "mapping_kept pt s rs s2 rs2 fs2"
proof -
  have "same_on (live_data rs \<union> - (foot rs \<union> table_span (memory s) pt)) (memory s1) (memory s2)"
    by (rule same_on_mono [of "live_data rs1 \<union> - (foot rs1 \<union> table_span (memory s1) pt)"]) (use a b in \<open>auto simp: mapping_kept_def\<close>)
  with a b have "same_on (live_data rs \<union> - (foot rs \<union> table_span (memory s) pt)) (memory s) (memory s2)"
    unfolding mapping_kept_def by (blast intro: same_on_trans)
  with a b show ?thesis unfolding mapping_kept_def by auto
qed

lemma BlMapPage_kept:
  assumes inv: "heap_inv s rs fs" and ok: "tables_ok (memory s) pt (foot rs)" and a: "4096 dvd unat virt" "4096 dvd unat phys"
  shows "BlMapPage pt virt phys s = crash ''out of memory''
    \<or> (\<exists>s' rs' fs'. BlMapPage pt virt phys s = ret s' \<and> mapping_kept pt s rs s' rs' fs'
      \<and> (\<forall>v. translate (memory s') pt v = (if v \<in> span virt 4096 then Some (phys + (v - virt)) else translate (memory s) pt v)))"
  using BlMapPage_spec [OF inv ok, of virt phys]
proof (elim disjE exE conjE)
  fix s' rs' fs'
  assume r: "BlMapPage pt virt phys s = ret s'" and k: "heap_inv s' rs' fs'" "tables_ok (memory s') pt (foot rs')"
    "live_data rs' = live_data rs" "foot rs' \<subseteq> foot rs" "page_mapped (memory s) pt virt phys (memory s')"
    "same_on (live_data rs \<union> - (foot rs \<union> table_span (memory s) pt)) (memory s) (memory s')"
  have "mapping_kept pt s rs s' rs' fs'"
    using k BlMapPage_more [OF inv r] BlMapPage_tables [OF inv ok r] by (simp add: mapping_kept_def)
  moreover have "translate (memory s') pt v = (if v \<in> span virt 4096 then Some (phys + (v - virt)) else translate (memory s) pt v)" for v
    using k(5) by (simp add: page_mapped_def same_page [OF a(1)] page_offset [OF a])
  ultimately show ?thesis using r by blast
qed blast

text \<open>An allocation between two mappings: permanent, so outside the heap and beside the tables afterwards.\<close>

lemma permanent_kept:
  assumes inv: "heap_inv s rs fs" and ok: "tables_ok (memory s) pt (foot rs)"
    and new: "heap_inv s' rs' fs'" "allocated True rs p n rs'" "data_kept rs s s'"
  shows "mapping_kept pt s rs s' rs' fs'" "translate (memory s') pt v = translate (memory s) pt v"
    "span p n \<inter> table_span (memory s') pt = {}"
proof -
  have a: "live rs' = live rs" "foot rs' \<subseteq> foot rs" "span p n \<subseteq> foot rs" using new(2) by (auto simp: allocated_def)
  have same: "same_on (live_data rs \<union> - foot rs) (memory s) (memory s')" and more: "heap.more s' = heap.more s"
    using new(3) by (auto simp: data_kept_def)
  note apart = table_span_apart [OF ok]
  have t: "same_on (table_span (memory s) pt) (memory s) (memory s')" by (rule same_on_mono [OF same]) (use apart in blast)
  note tr = translate_same_on [OF t]
  show "translate (memory s') pt v = translate (memory s) pt v" by (rule tr(1))
  show "span p n \<inter> table_span (memory s') pt = {}" using a(3) apart unfolding tr(3) by blast
  have "tables_ok (memory s') pt (foot rs')"
    by (rule tables_ok_same_on [OF ok same_on_mono [OF t] a(2)]) (auto simp: table_span_def)
  moreover have "same_on (live_data rs \<union> - (foot rs \<union> table_span (memory s) pt)) (memory s) (memory s')"
    by (rule same_on_mono [OF same]) blast
  ultimately show "mapping_kept pt s rs s' rs' fs'"
    using new(1) a more by (simp add: mapping_kept_def live_data_def tr(3))
qed

lemma heap_page_kept:
  assumes inv: "heap_inv s rs fs" and ok: "tables_ok (memory s) pt (foot rs)"
  shows "heap_page s = crash ''out of memory''
    \<or> (\<exists>p s' rs' fs'. heap_page s = ret (p, s') \<and> mapping_kept pt s rs s' rs' fs' \<and> 4096 dvd unat p \<and> p \<noteq> 0 \<and> fits p 4096
      \<and> span p 4096 \<subseteq> foot rs - foot rs' \<and> span p 4096 \<inter> live_data rs = {} \<and> span p 4096 \<inter> table_span (memory s') pt = {}
      \<and> (\<forall>v. translate (memory s') pt v = translate (memory s) pt v))"
proof -
  have "alloc_request BL_PAGE_SIZE BL_PAGE_SIZE True 12" by (simp add: alloc_request_def paging_consts)
  from BlAllocateHeap_spec [OF inv this] show ?thesis
  proof (elim disjE exE conjE)
    fix p s' rs' fs'
    assume r: "heap_page s = ret (p, s')" and new: "heap_inv s' rs' fs'" "allocated True rs p (rounded BL_PAGE_SIZE) rs'" "data_kept rs s s'"
      and al: "2 ^ max 2 12 dvd unat p"
    have n: "rounded BL_PAGE_SIZE = 4096" by (simp add: rounded_def paging_consts)
    note K = permanent_kept [OF inv ok new, unfolded n]
    show ?thesis using r K new(2) al unfolding n allocated_def by auto
  qed blast
qed

section \<open>Memory that neither the heap nor the tables may change\<close>

definition kept_area :: "u32 \<Rightarrow> mem \<Rightarrow> block list \<Rightarrow> u32 set" where
  "kept_area pt m rs = live_data rs \<union> - (foot rs \<union> table_span m pt)"

lemma mapping_keptD:
  assumes "mapping_kept pt s rs s' rs' fs'"
  shows "heap_inv s' rs' fs'" "tables_ok (memory s') pt (foot rs')" "live_data rs' = live_data rs" "foot rs' \<subseteq> foot rs"
    "same_on (kept_area pt (memory s) rs) (memory s) (memory s')" "heap.more s' = heap.more s"
    "table_span (memory s') pt \<subseteq> table_span (memory s) pt \<union> foot rs"
    "kept_area pt (memory s) rs \<subseteq> kept_area pt (memory s') rs'"
  using assms by (auto simp: mapping_kept_def kept_area_def)

lemma kept_area_apart:
  assumes "heap_inv s rs fs" "tables_ok (memory s) pt (foot rs)"
  shows "kept_area pt (memory s) rs \<inter> table_span (memory s) pt = {}" "kept_area pt (memory s) rs \<inter> header_span (bases rs) = {}"
proof -
  have ord: "ordered 1 rs" using assms(1) by (simp add: heap_inv_def)
  show "kept_area pt (memory s) rs \<inter> table_span (memory s) pt = {}"
    using table_span_apart [OF assms(2)] live_data_in_foot [OF ord] by (auto simp: kept_area_def)
  show "kept_area pt (memory s) rs \<inter> header_span (bases rs) = {}"
    using header_span_in_foot [OF ord] header_span_foot [OF ord] by (auto simp: kept_area_def)
qed

text \<open>Writing beside the heap's headers and the tables.\<close>

lemma heap_inv_write:
  assumes inv: "heap_inv s rs fs" and ok: "tables_ok (memory s) pt (foot rs)" and out: "same_outside W (memory s) m"
    and W: "W \<inter> header_span (bases rs) = {}" "W \<inter> table_span (memory s) pt = {}"
  shows "heap_inv (s\<lparr>memory := m\<rparr>) rs fs" "tables_ok m pt (foot rs)" "translate m pt v = translate (memory s) pt v"
    "table_span m pt = table_span (memory s) pt"
proof -
  show "heap_inv (s\<lparr>memory := m\<rparr>) rs fs" by (rule heap_inv_same_headers [OF inv same_outside_on [OF out W(1)]])
  note t = same_outside_on [OF out W(2)]
  show "tables_ok m pt (foot rs)" by (rule tables_ok_same_on [OF ok same_on_mono [OF t]]) (auto simp: table_span_def)
  show "translate m pt v = translate (memory s) pt v" "table_span m pt = table_span (memory s) pt"
    by (rule translate_same_on [OF t])+
qed

end
