(* ===== verification/Blob_Correct.thy ===== *)
theory Blob_Correct
  imports Blob_Build Page_Areas
begin

text \<open>
  Building the blob: the allocation, the mapping at the address the kernel asked for, and the contents,
  read back by the format's rules.
\<close>

section \<open>Reading a blob\<close>

definition read_blob :: "u8 list \<Rightarrow> fdt option" where
  "read_blob bs =
     (let field = (\<lambda>i. of_be32 (take 4 (drop (4 * i) bs))); block = (\<lambda>off sz. take (unat sz) (drop (unat off) bs))
      in if length bs < 40 \<or> field 0 \<noteq> 0xd00dfeed \<or> unat (field 1) \<noteq> length bs then None
         else read_struct (block (field 3) (field 8)) (block (field 2) (field 9)))"

lemma words_field: "i < length ws \<Longrightarrow> of_be32 (take 4 (drop (4 * i) (words_bytes ws @ rest))) = ws ! i"
proof (induction ws arbitrary: i)
  case (Cons w ws)
  show ?case
  proof (cases i)
    case 0
    then show ?thesis by (simp add: words_bytes_def)
  next
    case (Suc j)
    have "drop (4 * i) (words_bytes (w # ws) @ rest) = drop (4 * j) (drop 4 (be32 w @ words_bytes ws @ rest))"
      by (simp add: words_bytes_def Suc add.commute)
    then have "drop (4 * i) (words_bytes (w # ws) @ rest) = drop (4 * j) (words_bytes ws @ rest)"
      by (simp only: take_be32)
    then show ?thesis using Cons Suc by simp
  qed
qed simp

lemma drop_exact: "length xs = n \<Longrightarrow> drop n (xs @ ys) = ys" "length xs = n \<Longrightarrow> take n (xs @ ys) = xs"
  by auto

lemma nth10:
  "[a0, a1, a2, a3, a4, a5, a6, a7, a8, a9] ! 1 = a1" "[a0, a1, a2, a3, a4, a5, a6, a7, a8, a9] ! 2 = a2"
  "[a0, a1, a2, a3, a4, a5, a6, a7, a8, a9] ! 3 = a3" "[a0, a1, a2, a3, a4, a5, a6, a7, a8, a9] ! 8 = a8"
  "[a0, a1, a2, a3, a4, a5, a6, a7, a8, a9] ! 9 = a9"
  by simp_all

lemma tree_writable:
  assumes "\<forall>p\<in>set (props_of t). prop_ok strs off (pair_of p)" "tree_rep R m par t"
  shows "writable strs off (fdt_of t)"
  using assms
proof (induction t arbitrary: par)
  case (DtNode a nm ps ks)
  have p: "list_all (prop_ok strs off) (map (\<lambda>p. (dp_name p, dp_data p)) ps)"
    using DtNode.prems(1) by (auto simp: list_all_iff pair_of_def)
  have "writable strs off (fdt_of k)" if "k \<in> set ks" for k
    by (rule DtNode.IH [OF that, of a]) (use DtNode.prems that in auto)
  then have "list_all (writable strs off) (map fdt_of ks)" by (simp add: list_all_iff)
  with p show ?case using DtNode.prems(2) by (simp add: node_rep_def)
qed

lemma tree_data_sizes: "tree_rep R m par t \<Longrightarrow> p \<in> set (props_of t) \<Longrightarrow> length (dp_data p) < 2 ^ 32"
proof (induction t arbitrary: par)
  case (DtNode a nm ps ks)
  show ?case
  proof (cases "p \<in> set ps")
    case True
    then obtain i where i: "i < length ps" "ps ! i = p" by (auto simp: in_set_conv_nth)
    with DtNode.prems(1) have "prop_rep R m (NodeProperties m a + 12 * of_nat i) p" by (auto simp: node_rep_def)
    then have "length (dp_data p) = unat (PropSize m (NodeProperties m a + 12 * of_nat i))" by (simp add: prop_rep_def)
    then show ?thesis using unat_lt32 by simp
  qed (use DtNode in auto)
qed

lemma read_blob_bytes:
  assumes ok: "dt_ok root R s t bk rsv" and size: "blob_size t bk rsv < 2 ^ 32"
  shows "read_blob (blob_bytes whami t bk rsv) = Some (fdt_of t)"
proof -
  let ?es = "concat bk" let ?off = "name_offset ?es" let ?r = "40 + 16 * (length rsv + 1)" let ?n = "node_size (fdt_of t) + 4"
  let ?bs = "blob_bytes whami t bk rsv" let ?ss = "length (strs_bytes ?es)"
  have sum: "blob_size t bk rsv = ?r + ?n + ?ss" by (simp add: blob_size_def)
  define ws where "ws = [BL_FDT_MAGIC, of_nat (blob_size t bk rsv), of_nat ?r, of_nat (?r + ?n), 40, 17, 16, whami, of_nat ?ss, of_nat ?n]"
  have h: "blob_header whami t bk rsv = words_bytes ws" by (simp add: blob_header_def ws_def Let_def)
  define rest where "rest = rsv_bytes rsv @ struct_bytes ?off (fdt_of t) @ strs_bytes ?es"
  have bs: "?bs = words_bytes ws @ rest" by (simp add: blob_bytes_def h rest_def)
  have f: "of_be32 (take 4 (drop (4 * i) ?bs)) = ws ! i" if "i < 10" for i
    unfolding bs by (rule words_field) (use that in \<open>simp add: ws_def\<close>)
  have lt: "?r < 2 ^ 32" "?r + ?n < 2 ^ 32" "?ss < 2 ^ 32" "?n < 2 ^ 32" using size sum by linarith+
  have ten: "(0 :: nat) < 10" "(1 :: nat) < 10" "(2 :: nat) < 10" "(3 :: nat) < 10" "(8 :: nat) < 10" "(9 :: nat) < 10" by simp_all
  note f = f [OF ten(1)] f [OF ten(2)] f [OF ten(3)] f [OF ten(4)] f [OF ten(5)] f [OF ten(6)]
  have w: "ws ! 0 = 0xd00dfeed" by (simp add: ws_def BL_FDT_MAGIC_def)
  have at: "ws ! 1 = of_nat (blob_size t bk rsv)" "ws ! 2 = of_nat ?r" "ws ! 3 = of_nat (?r + ?n)" "ws ! 8 = of_nat ?ss" "ws ! 9 = of_nat ?n"
    unfolding ws_def nth10 by (rule refl)+
  note u = unat_of_nat32 [OF size] unat_of_nat32 [OF lt(1)] unat_of_nat32 [OF lt(2)] unat_of_nat32 [OF lt(3)] unat_of_nat32 [OF lt(4)]
  have front: "length (words_bytes ws @ rsv_bytes rsv) = ?r" by (simp add: ws_def)
  have d1: "drop ?r ?bs = struct_bytes ?off (fdt_of t) @ strs_bytes ?es"
    using drop_exact(1) [OF front, of "struct_bytes ?off (fdt_of t) @ strs_bytes ?es"] unfolding bs rest_def by (simp only: append_assoc)
  have "length ((words_bytes ws @ rsv_bytes rsv) @ struct_bytes ?off (fdt_of t)) = ?r + ?n"
    unfolding length_append [of "words_bytes ws @ rsv_bytes rsv"] front length_struct_bytes ..
  from drop_exact(1) [OF this, of "strs_bytes ?es"] have d2: "drop (?r + ?n) ?bs = strs_bytes ?es"
    unfolding bs rest_def by (simp only: append_assoc)
  have b1: "take ?n (drop ?r ?bs) = struct_bytes ?off (fdt_of t)" unfolding d1 by (rule drop_exact(2)) simp
  have b2: "take ?ss (drop (?r + ?n) ?bs) = strs_bytes ?es" unfolding d2 by simp
  have len: "\<not> length ?bs < 40" by (simp add: sum)
  have S: "strings_ok R s bk" "tree_rep R (memory s) 0 t" "\<forall>p\<in>set (props_of t). (dp_entry p, dp_name p) \<in> set ?es"
    using ok by (simp_all add: dt_ok_def)
  have "prop_ok (strs_bytes ?es) ?off (pair_of p)" if p: "p \<in> set (props_of t)" for p
  proof -
    have e: "(dp_entry p, dp_name p) \<in> set ?es" using S(3) p by blast
    have "entry_rep R (memory s) (dp_entry p, dp_name p)" using S(1) e unfolding strings_ok_def strings_rep_def by blast
    then have "name_ok (dp_name p)" by (simp add: entry_rep_def)
    moreover have "distinct (map snd ?es)" using S(1) by (simp add: strings_ok_def)
    ultimately have "string_at (strs_bytes ?es) (unat (?off (dp_name p))) = Some (dp_name p)"
      using string_at_offset [OF e] size sum by simp
    then show ?thesis using tree_data_sizes [OF S(2) p] by (simp add: prop_ok_def pair_of_def)
  qed
  then have "writable (strs_bytes ?es) ?off (fdt_of t)" using tree_writable [OF _ S(2)] by blast
  from read_struct_bytes [OF this] have "read_struct (strs_bytes ?es) (struct_bytes ?off (fdt_of t)) = Some (fdt_of t)" .
  then show ?thesis unfolding read_blob_def Let_def f w at u b1 b2 using len by simp
qed

section \<open>Mapping the blob\<close>

lemma span_shift:
  assumes "i + n \<le> 2 ^ 32"
  shows "v \<in> span (a + of_nat i) n \<longleftrightarrow> i \<le> unat (v - a) \<and> unat (v - a) < i + n"
proof -
  have "v \<in> span (a + of_nat i) n \<longleftrightarrow> unat (v - a - of_nat i) < n" by (simp add: span_iff algebra_simps)
  moreover have "unat (v - a - of_nat i) = (if i \<le> unat (v - a) then unat (v - a) - i else 2 ^ 32 + unat (v - a) - i)" if "i < 2 ^ 32"
    using that unat_sub_if_size [of "v - a" "of_nat i"] unat_of_nat32 [OF that] by (auto simp: word_le_nat_alt word_size)
  ultimately show ?thesis using assms by (cases "n = 0") auto
qed

definition pages :: "nat \<Rightarrow> nat" where
  "pages n = (n + 4095) div 4096"

lemma pages_bound: "n \<le> 2 ^ 32 - 4096 \<Longrightarrow> k < pages n \<Longrightarrow> 4096 * k + 4096 \<le> 2 ^ 32 - 4096 \<and> 4096 * k < n"
proof -
  assume n: "n \<le> 2 ^ 32 - 4096" and k: "k < pages n"
  then have "(k + 1) * 4096 \<le> n + 4095" using less_eq_div_iff_mult_less_eq [of 4096 "k + 1" "n + 4095"] by (simp add: pages_def)
  moreover have "pages n \<le> (2 ^ 32 - 4096) div 4096" unfolding pages_def using n by (simp add: div_le_mono le_div_geq div_less_iff_less_mult flip: less_Suc_eq_le)
  then have "4096 * (k + 1) \<le> 2 ^ 32 - 4096" using k by simp
  ultimately show ?thesis by simp
qed

lemma pages_end: "\<not> k < pages n \<Longrightarrow> n \<le> 4096 * k"
proof -
  assume "\<not> k < pages n"
  then have "(n + 4095) div 4096 < k + 1" by (simp add: pages_def)
  then have "n + 4095 < (k + 1) * 4096" by (simp add: div_less_iff_less_mult)
  then show ?thesis by simp
qed

text \<open>The pages from number \<open>k\<close> on, for a virtual area from \<open>D\<close> and a physical one from \<open>h\<close>.\<close>

lemma map_blob_out:
  assumes inv: "heap_inv s rs fs" and ok: "tables_ok (memory s) (BlPageTable L) (foot rs)"
    and D: "load32 (memory s) (KernelDtbAddress L) = D" "span (BlKernelHeader L) 32 \<subseteq> kept_area (BlPageTable L) (memory s) rs"
    and al: "4096 dvd unat D" "4096 dvd unat h" and n: "n \<le> 2 ^ 32 - 4096" and k: "k \<le> pages n"
  shows "map_blob L h (of_nat n) (of_nat (4096 * k)) s = crash ''out of memory''
    \<or> (\<exists>s' rs' fs'. map_blob L h (of_nat n) (of_nat (4096 * k)) s = ret s' \<and> mapping_kept (BlPageTable L) s rs s' rs' fs'
      \<and> (\<forall>v. translate (memory s') (BlPageTable L) v = (if 4096 * k \<le> unat (v - D) \<and> unat (v - D) < 4096 * pages n
          then Some (h + (v - D)) else translate (memory s) (BlPageTable L) v)))"
  using assms
proof (induction "pages n - k" arbitrary: k s rs fs)
  case 0
  then have k: "k = pages n" by simp
  have "pages n \<le> (2 ^ 32 - 4096 + 4095) div 4096" unfolding pages_def using n by (intro div_le_mono) simp
  then have "4096 * pages n < 2 ^ 32" by simp
  then have "unat (of_nat (4096 * pages n) :: u32) = 4096 * pages n" by (rule unat_of_nat32)
  moreover have "n < 2 ^ 32" using n by simp
  then have "unat (of_nat n :: u32) = n" by (rule unat_of_nat32)
  moreover have "n \<le> 4096 * pages n" by (rule pages_end) simp
  ultimately have "\<not> (of_nat (4096 * pages n) :: u32) < of_nat n" by (simp only: word_less_nat_alt not_less)
  then have "map_blob L h (of_nat n) (of_nat (4096 * k)) s = ret s" unfolding k by (subst map_blob.simps) (simp only: if_False)
  with mapping_kept_refl [OF 0(2,3)] show ?case unfolding k by fastforce
next
  case (Suc x)
  let ?pt = "BlPageTable L" let ?off = "of_nat (4096 * k) :: u32"
  have k: "k < pages n" using Suc.hyps(2) by simp
  note b = pages_bound [OF n k]
  have lt: "4096 * k < 2 ^ 32" "4096 * (k + 1) < 2 ^ 32" "n < 2 ^ 32" using b n by simp_all
  have less: "?off < of_nat n" using b by (simp only: word_less_nat_alt unat_of_nat32 [OF lt(1)] unat_of_nat32 [OF lt(3)])
  have D': "load32 (memory s) (KernelDtbAddress L) = D" by (rule Suc.prems(3))
  have a: "4096 dvd unat (D + ?off)" "4096 dvd unat (h + ?off)" by (rule aligned_off [OF al(1)] aligned_off [OF al(2)], simp)+
  from BlMapPage_kept [OF Suc.prems(1,2) a]
  show ?case
  proof (elim disjE exE conjE)
    assume "BlMapPage ?pt (D + ?off) (h + ?off) s = crash ''out of memory''"
    then show ?thesis by (subst (1) map_blob.simps) (simp only: less if_True D' bind_run_simps simp_thms)
  next
    fix s1 rs1 fs1
    assume r: "BlMapPage ?pt (D + ?off) (h + ?off) s = ret s1" and K: "mapping_kept ?pt s rs s1 rs1 fs1"
      and T: "\<forall>v. translate (memory s1) ?pt v = (if v \<in> span (D + ?off) 4096 then Some (h + ?off + (v - (D + ?off))) else translate (memory s) ?pt v)"
    note M = mapping_keptD [OF K]
    have next_off: "?off + BL_PAGE_SIZE = of_nat (4096 * (k + 1))" by (simp add: BL_PAGE_SIZE_def algebra_simps)
    have step: "map_blob L h (of_nat n) ?off s = map_blob L h (of_nat n) (of_nat (4096 * (k + 1))) s1"
      by (subst map_blob.simps) (simp only: less if_True D' r bind_run_simps next_off)
    have hdr: "span (BlKernelHeader L) 32 \<subseteq> kept_area ?pt (memory s1) rs1" using Suc.prems(4) M(8) by blast
    have "span (KernelDtbAddress L) 4 \<subseteq> span (BlKernelHeader L) 32"
      using span_sub [of 24 4 32 "BlKernelHeader L"] by (simp add: KernelDtbAddress_def)
    then have "load32 (memory s1) (KernelDtbAddress L) = D"
      using load32_same_on [OF same_on_mono [OF M(5)]] Suc.prems(4) D' by (metis subset_trans)
    from Suc.hyps(1) [OF _ M(1,2) this hdr al n, of "k + 1"] Suc.hyps(2) k
    have IH: "map_blob L h (of_nat n) (of_nat (4096 * (k + 1))) s1 = crash ''out of memory''
      \<or> (\<exists>s' rs' fs'. map_blob L h (of_nat n) (of_nat (4096 * (k + 1))) s1 = ret s' \<and> mapping_kept ?pt s1 rs1 s' rs' fs'
        \<and> (\<forall>v. translate (memory s') ?pt v = (if 4096 * (k + 1) \<le> unat (v - D) \<and> unat (v - D) < 4096 * pages n
            then Some (h + (v - D)) else translate (memory s1) ?pt v)))" by simp
    have sp: "v \<in> span (D + ?off) 4096 \<longleftrightarrow> 4096 * k \<le> unat (v - D) \<and> unat (v - D) < 4096 * (k + 1)" for v
      using span_shift [of "4096 * k" 4096 v D] b by (simp add: algebra_simps)
    have val: "h + ?off + (v - (D + ?off)) = h + (v - D)" for v by (simp add: algebra_simps)
    have tr: "(if 4096 * (k + 1) \<le> unat (v - D) \<and> unat (v - D) < 4096 * pages n then Some (h + (v - D)) else translate (memory s1) ?pt v)
        = (if 4096 * k \<le> unat (v - D) \<and> unat (v - D) < 4096 * pages n then Some (h + (v - D)) else translate (memory s) ?pt v)" for v
    proof -
      have "4096 * (k + 1) \<le> 4096 * pages n" using k by simp
      then show ?thesis using T [rule_format, of v] unfolding sp val by auto
    qed
    show ?thesis unfolding step using IH mapping_kept_trans [OF K] unfolding tr by blast
  qed
qed

section \<open>Building the blob\<close>

lemma heap_more_dt:
  assumes "heap.more s = heap.more (s' :: 'a dt_scheme)"
  shows "BlDtRsvMem s = BlDtRsvMem s'" "BlDtRsvMemCount s = BlDtRsvMemCount s'" "BlDtStrings s = BlDtStrings s'"
    "BlDtStringsCount s = BlDtStringsCount s'" "BlDtStringsCapacity s = BlDtStringsCapacity s'"
    "BlDtStringsSize s = BlDtStringsSize s'" "BlDtStructureSize s = BlDtStructureSize s'" "next_phandle s = next_phandle s'"
  using assms by (cases s; cases s'; simp)+

lemma rsv_rep_frame: "rsv_rep R m P rsv \<Longrightarrow> same_on R m m' \<Longrightarrow> rsv_rep R m' P rsv"
  using load_range [of R m P rsv m'] by (simp add: rsv_rep_def)

lemma dt_ok_frame:
  assumes ok: "dt_ok root R s t bk rsv" and same: "same_on R (memory s) (memory s')" and more: "heap.more s' = heap.more s"
  shows "dt_ok root R s' t bk rsv"
  using ok tree_rep_frame [OF _ same] strings_rep_frame [OF _ same] rsv_rep_frame [OF _ same]
  unfolding dt_ok_def strings_ok_def heap_more_dt [OF more] by blast

text \<open>The end of the blob's area does not wrap past the kernel's limit.\<close>

definition blob_mapped :: "'b dt_statics_scheme \<Rightarrow> mem \<Rightarrow> bool" where
  "blob_mapped L m \<longleftrightarrow> load32 m (KernelFlags L) AND BL_FLAG_MAP_DTB \<noteq> 0"

definition blob_built :: "'b dt_statics_scheme \<Rightarrow> 'a dt_scheme \<Rightarrow> block list \<Rightarrow> dt_node \<Rightarrow> nat \<Rightarrow> u32 \<Rightarrow> 'a dt_scheme \<Rightarrow> bool" where
  "blob_built L s rs t n p s' \<longleftrightarrow> fits p n \<and> 8 dvd unat p \<and> span p n \<inter> live_data rs = {} \<and> span p n \<subseteq> foot rs
     \<and> read_blob (load_bytes (memory s') p n) = Some (fdt_of t)
     \<and> (\<exists>rs' fs'. heap_inv s' rs' fs' \<and> tables_ok (memory s') (BlPageTable L) (foot rs') \<and> span p n \<inter> foot rs' = {})
     \<and> (\<forall>v. translate (memory s') (BlPageTable L) v =
         (if blob_mapped L (memory s) \<and> unat (v - load32 (memory s) (KernelDtbAddress L)) < 4096 * pages n
          then Some (p + (v - load32 (memory s) (KernelDtbAddress L))) else translate (memory s) (BlPageTable L) v))"

lemma plain_print: "\<exists>out. print (bytes ''Creating device tree blob'' @ [10]) [] s = ret (s\<lparr>console := console s @ out\<rparr>)"
proof -
  have "format_output (bytes ''Creating device tree blob'' @ [10]) [] = Some (bytes ''Creating device tree blob'' @ [10])"
    by (simp add: bytes_def)
  then show ?thesis by (intro exI [of _ "bytes ''Creating device tree blob'' @ [10]"]) (simp add: print_out)
qed

text \<open>The contents, once the area is allocated and mapped.\<close>

lemma blob_contents:
  fixes s s2 :: "'a dt_scheme"
  assumes K: "mapping_kept (BlPageTable L) s rs s2 rs2 fs2" and ok: "dt_ok (BlDtRootNode L) R s t bk rsv"
    and area: "R \<union> ids_span (concat bk) \<subseteq> kept_area (BlPageTable L) (memory s) rs" and n: "n = blob_size t bk rsv" "n < 2 ^ 32"
    and h: "fits h n" "span h n \<inter> live_data rs = {}" "span h n \<subseteq> foot rs" "span h n \<inter> foot rs2 = {}"
      "span h n \<inter> table_span (memory s2) (BlPageTable L) = {}"
  shows "\<exists>s'. fill_blob L h (of_nat n) (of_nat (16 * (length rsv + 1))) whami s2 = ret (h, s')
    \<and> read_blob (load_bytes (memory s') h n) = Some (fdt_of t) \<and> heap_inv s' rs2 fs2 \<and> tables_ok (memory s') (BlPageTable L) (foot rs2)
    \<and> (\<forall>v. translate (memory s') (BlPageTable L) v = translate (memory s2) (BlPageTable L) v)"
proof -
  let ?pt = "BlPageTable L"
  note M = mapping_keptD [OF K]
  have "same_on R (memory s) (memory s2)" by (rule same_on_mono [OF M(5)]) (use area in blast)
  from dt_ok_frame [OF ok this M(6)] have ok2: "dt_ok (BlDtRootNode L) R s2 t bk rsv" .
  have "(R \<union> ids_span (concat bk)) \<inter> span h n = {}" using area h(2,3) unfolding kept_area_def by blast
  from fill_blob_out [OF ok2 n h(1) this, of whami] obtain m where
    m: "fill_blob L h (of_nat n) (of_nat (16 * (length rsv + 1))) whami s2 = ret (h, s2\<lparr>memory := m\<rparr>)"
      "holds m h (blob_bytes whami t bk rsv)" "same_outside (span h n \<union> ids_span (concat bk)) (memory s2) m" by blast
  note A = kept_area_apart [OF M(1,2)]
  have ord: "ordered 1 rs2" using M(1) by (simp add: heap_inv_def)
  have ids: "ids_span (concat bk) \<subseteq> kept_area ?pt (memory s2) rs2" using area M(8) by blast
  have "(span h n \<union> ids_span (concat bk)) \<inter> header_span (bases rs2) = {}" "(span h n \<union> ids_span (concat bk)) \<inter> table_span (memory s2) ?pt = {}"
    using ids A header_span_in_foot [OF ord] h(4,5) by blast+
  note W = heap_inv_write [OF M(1,2) m(3) this]
  have "load_bytes m h n = blob_bytes whami t bk rsv" using m(2) n(1) by (simp add: holds_def)
  then have "read_blob (load_bytes m h n) = Some (fdt_of t)" using read_blob_bytes [OF ok2] n by simp
  with m(1) W show ?thesis by (intro exI [of _ "s2\<lparr>memory := m\<rparr>"]) simp
qed

text \<open>No free range has room for the blob, aligned to eight bytes.\<close>

definition no_room :: "block list \<Rightarrow> nat \<Rightarrow> bool" where
  "no_room rs n \<longleftrightarrow> (\<forall>(b, e, f)\<in>set rs. f \<longrightarrow> unat e \<le> value_nat 8 True b + rounded (of_nat n))"

lemma BlDtBuildBlob_spec:
  fixes s :: "'a dt_scheme" and whami :: u32
  assumes inv: "heap_inv s rs fs" and tabs: "tables_ok (memory s) (BlPageTable L) (foot rs)" and ok: "dt_ok (BlDtRootNode L) R s t bk rsv"
    and area: "R \<union> ids_span (concat bk) \<union> span (BlKernelHeader L) 32 \<subseteq> kept_area (BlPageTable L) (memory s) rs"
    and al: "4096 dvd unat (load32 (memory s) (KernelDtbAddress L))" and size: "n = blob_size t bk rsv" "n \<le> 2 ^ 32 - 4096"
  defines "r \<equiv> BlDtBuildBlob L whami s"
  shows "(r = crash ''out of memory'' \<and> (blob_mapped L (memory s) \<or> no_room rs n))
    \<or> (r = crash ''device tree too large to map'' \<and> blob_mapped L (memory s)
        \<and> load32 (memory s) (KernelDtbAddress L) + (of_nat n - 1) > load32 (memory s) (KernelMaxDtbEnd L))
    \<or> (\<exists>p s'. r = ret (p, s') \<and> blob_built L s rs t n p s')"
proof -
  let ?pt = "BlPageTable L" let ?D = "load32 (memory s) (KernelDtbAddress L)" let ?map = "blob_mapped L (memory s)"
  let ?rsz = "of_nat (16 * (length rsv + 1)) :: u32"
  obtain out where pr: "print (bytes ''Creating device tree blob'' @ [10]) [] s = ret (s\<lparr>console := console s @ out\<rparr>)"
    using plain_print [of s] by blast
  let ?s0 = "s\<lparr>console := console s @ out\<rparr>"
  have inv0: "heap_inv ?s0 rs fs" using inv by simp
  have ok0: "dt_ok (BlDtRootNode L) R ?s0 t bk rsv" using ok by (simp add: dt_ok_def strings_ok_def)
  have lt: "n < 2 ^ 32" using size(2) by simp
  have D: "BlDtRsvMemCount s = of_nat (length rsv)" "BlDtStructureSize s = of_nat (node_size (fdt_of t) + 4)"
    "BlDtStringsSize s = of_nat (length (strs_bytes (concat bk)))"
    using ok of_nat_unat_eq [of "BlDtRsvMemCount s"] of_nat_unat_eq [of "BlDtStructureSize s"] of_nat_unat_eq [of "BlDtStringsSize s"]
    by (simp_all add: dt_ok_def strings_ok_def)
  have rsz: "(BlDtRsvMemCount s + 1) * SIZEOF_BlFdtRsvmapEntry = ?rsz" by (simp add: D SIZEOF_BlFdtRsvmapEntry_def algebra_simps)
  have tot: "SIZEOF_BlFdtHeader + ?rsz + BlDtStructureSize s + BlDtStringsSize s = of_nat n"
    by (simp add: D SIZEOF_BlFdtHeader_def size(1) blob_size_def algebra_simps)
  obtain k where k: "(if ?map then BL_MAX 8 BL_PAGE_SIZE else 8) = 2 ^ k" "3 \<le> k" "k \<le> 12" "?map \<Longrightarrow> k = 12" "\<not> ?map \<Longrightarrow> k = 3"
  proof (cases ?map)
    case True
    then show ?thesis by (intro that [of 12]) (simp_all add: BL_MAX_def paging_consts)
  qed (use that [of 3] in simp)
  note k3 = k(5)
  have un: "unat (of_nat n :: u32) = n" by (rule unat_of_nat32 [OF lt])
  have n40: "40 \<le> n" by (simp add: size(1) blob_size_def)
  have "of_nat n \<noteq> (0 :: u32)" using un n40 by auto
  then have req: "alloc_request (of_nat n) (2 ^ k) True k"
    using un n40 size(2) k(3) by (auto simp: alloc_request_def)
  have sel: "BlDtRsvMemCount ?s0 = BlDtRsvMemCount s" "BlDtStructureSize ?s0 = BlDtStructureSize s"
    "BlDtStringsSize ?s0 = BlDtStringsSize s" "memory ?s0 = memory s" by simp_all
  have run: "r = (if ?map \<and> ?D + (of_nat n - 1) > load32 (memory s) (KernelMaxDtbEnd L) then crash ''device tree too large to map''
      else bind_run (BlAllocateHeap (of_nat n) (2 ^ k) True ?s0) (\<lambda>(header, s1).
        bind_run (if ?map then map_blob L header (of_nat n) 0 s1 else ret s1) (\<lambda>s2. fill_blob L header (of_nat n) ?rsz whami s2)))"
    unfolding r_def BlDtBuildBlob_def pr bind_run_simps Let_def sel rsz tot blob_mapped_def [symmetric] k(1) by (rule refl)
  show ?thesis
  proof (cases "?map \<and> ?D + (of_nat n - 1) > load32 (memory s) (KernelMaxDtbEnd L)")
    case True
    then show ?thesis using run by simp
  next
    case False
    note run = run [unfolded if_not_P [OF False]]
    from BlAllocateHeap_contract [OF inv0 req] show ?thesis
    proof (elim disjE exE conjE)
      assume o: "BlAllocateHeap (of_nat n) (2 ^ k) True ?s0 = crash ''out of memory''"
        and full: "\<forall>(b, e, f)\<in>set rs. f \<longrightarrow> unat e \<le> value_nat (2 ^ max 2 k) True b + rounded (of_nat n)"
      have "no_room rs n" if "\<not> ?map"
        using full k3 [OF that] by (auto simp: no_room_def max_def split: if_splits)
      moreover have "r = crash ''out of memory''" using run o by simp
      ultimately show ?thesis by blast
    next
      fix h s1 rs1 fs1
      assume A: "BlAllocateHeap (of_nat n) (2 ^ k) True ?s0 = ret (h, s1)" and new: "heap_inv s1 rs1 fs1"
        "allocated True rs h (rounded (of_nat n)) rs1" "data_kept rs ?s0 s1" and al_h: "2 ^ max 2 k dvd unat h"
      have nr: "n \<le> rounded (of_nat n)" unfolding rounded_def un by linarith
      have h: "fits h n" "span h n \<inter> live_data rs = {}" "span h n \<subseteq> foot rs" "span h n \<inter> foot rs1 = {}"
        using new(2) span_mono [OF nr, of h] nr by (auto simp: allocated_def fits_def)
      have tabs0: "tables_ok (memory ?s0) ?pt (foot rs)" using tabs by simp
      note P = permanent_kept [OF inv0 tabs0 new]
      have ht: "span h n \<inter> table_span (memory s1) ?pt = {}" using P(3) span_mono [OF nr, of h] by blast
      note M1 = mapping_keptD [OF P(1)]
      have h8: "8 dvd unat h" using al_h k(2) le_imp_power_dvd [of 3 "max 2 k" "2 :: nat"] by (auto intro: dvd_trans)
      have area0: "R \<union> ids_span (concat bk) \<subseteq> kept_area ?pt (memory ?s0) rs" using area by simp
      have finish: "\<exists>p s'. fill_blob L h (of_nat n) ?rsz whami s2 = ret (p, s') \<and> blob_built L s rs t n p s'"
        if K: "mapping_kept ?pt ?s0 rs s2 rs2 fs2" and sub: "foot rs2 \<subseteq> foot rs1" and ts: "span h n \<inter> table_span (memory s2) ?pt = {}"
          and tr: "\<forall>v. translate (memory s2) ?pt v = (if ?map \<and> unat (v - ?D) < 4096 * pages n then Some (h + (v - ?D)) else translate (memory s) ?pt v)"
        for s2 :: "'a dt_scheme" and rs2 fs2
      proof -
        have "span h n \<inter> foot rs2 = {}" using h(4) sub by blast
        from blob_contents [OF K ok0 area0 size(1) lt h(1-3) this ts, of whami] show ?thesis
          using tr h h8 \<open>span h n \<inter> foot rs2 = {}\<close> unfolding blob_built_def by metis
      qed
      show ?thesis
      proof (cases ?map)
        case False
        then have "r = fill_blob L h (of_nat n) ?rsz whami s1" unfolding run A by simp
        then show ?thesis using finish [OF P(1) _ ht] P(2) False by simp
      next
        case True
        have run': "r = bind_run (map_blob L h (of_nat n) (of_nat (4096 * 0)) s1) (\<lambda>s2. fill_blob L h (of_nat n) ?rsz whami s2)"
          unfolding run A using True by simp
        have hd: "span (BlKernelHeader L) 32 \<subseteq> kept_area ?pt (memory ?s0) rs" using area by simp
        have "span (KernelDtbAddress L) 4 \<subseteq> span (BlKernelHeader L) 32"
          using span_sub [of 24 4 32 "BlKernelHeader L"] by (simp add: KernelDtbAddress_def)
        then have "same_on (span (KernelDtbAddress L) 4) (memory ?s0) (memory s1)" by (rule same_on_mono [OF M1(5) subset_trans [OF _ hd]])
        from load32_same_on [OF this] have D1: "load32 (memory s1) (KernelDtbAddress L) = ?D" by simp
        have hd1: "span (BlKernelHeader L) 32 \<subseteq> kept_area ?pt (memory s1) rs1" using hd M1(8) by blast
        have "4096 dvd unat h" using al_h k(4) [OF True] by simp
        from map_blob_out [OF M1(1,2) D1 hd1 al this size(2) le0] show ?thesis
        proof (elim disjE exE conjE)
          assume "map_blob L h (of_nat n) (of_nat (4096 * 0)) s1 = crash ''out of memory''"
          then show ?thesis using run' True by simp
        next
          fix s2 rs2 fs2
          assume m: "map_blob L h (of_nat n) (of_nat (4096 * 0)) s1 = ret s2" and K: "mapping_kept ?pt s1 rs1 s2 rs2 fs2"
            and T: "\<forall>v. translate (memory s2) ?pt v = (if 4096 * 0 \<le> unat (v - ?D) \<and> unat (v - ?D) < 4096 * pages n
              then Some (h + (v - ?D)) else translate (memory s1) ?pt v)"
          have "span h n \<inter> table_span (memory s2) ?pt = {}" using mapping_keptD(7) [OF K] ht h(4) by blast
          from finish [OF mapping_kept_trans [OF P(1) K] mapping_keptD(4) [OF K] this] show ?thesis
            using T P(2) True m run' by auto
        qed
      qed
    qed
  qed
qed

text \<open>
  C5. Building the blob ends in one of three ways: the heap has no room (when nothing has to be mapped,
  then no free range could hold the blob), the kernel asked for the blob at an address range too small for it, or it
  returns an area for the blob, inside what was free and now belongs to nobody else. Then
  reading that area by the device tree format gives back exactly the tree the nodes in memory stand
  for, with every name, property name, datum and the order; when the kernel asked for it, the pages from the kernel's
  address on translate to the blob, and every other address translates as before.
\<close>

theorem BlDtBuildBlob_correct:
  fixes s :: "'a dt_scheme" and whami :: u32
  assumes inv: "heap_inv s rs fs" and tabs: "tables_ok (memory s) (BlPageTable L) (foot rs)" and ok: "dt_ok (BlDtRootNode L) R s t bk rsv"
    and area: "R \<union> ids_span (concat bk) \<union> span (BlKernelHeader L) 32 \<subseteq> kept_area (BlPageTable L) (memory s) rs"
    and al: "4096 dvd unat (load32 (memory s) (KernelDtbAddress L))" and size: "n = blob_size t bk rsv" "n \<le> 2 ^ 32 - 4096"
    and r: "r = BlDtBuildBlob L whami s"
  shows "(r = crash ''out of memory'' \<and> (blob_mapped L (memory s) \<or> no_room rs n))
    \<or> (r = crash ''device tree too large to map'' \<and> blob_mapped L (memory s)
        \<and> load32 (memory s) (KernelDtbAddress L) + (of_nat n - 1) > load32 (memory s) (KernelMaxDtbEnd L))
    \<or> (\<exists>p s'. r = ret (p, s') \<and> blob_built L s rs t n p s')"
  unfolding r by (rule BlDtBuildBlob_spec [OF inv tabs ok area al size])

section \<open>A tree in memory\<close>

text \<open>
  A root with one child \<open>cpu\<close>, which has one property \<open>reg\<close>; the nodes at \<open>0x4000\<close> and
  \<open>0x4040\<close>, one string, one bucket, and a free heap range above.
\<close>

definition tree_mem :: mem where
  "tree_mem = fold (\<lambda>(a, v) m. store32 m a v)
     [(0x400C, 0x4304), (0x4010, 0x4044), (0x4014, 0x4044),
      (0x4040, 0x4000), (0x404C, 0x4300), (0x4058, 0x4080), (0x405C, 1),
      (0x4080, 0x40C0), (0x4084, 0x4308), (0x4088, 4), (0x40C8, 0x430C),
      (0x4180, 0x40C0), (0x4184, 0x40C0), (0x4300, 0x757063), (0x4308, 0x04030201), (0x430C, 0x676572)] (memory page_heap)"

definition tree_state :: "dt \<Rightarrow> dt" where
  "tree_state s = s\<lparr>memory := tree_mem, BlHeapRanges := BlHeapRanges page_heap, BlFreeRanges := BlFreeRanges page_heap,
     BlDtStrings := 0x4180, BlDtStringsCapacity := 1, BlDtStringsSize := 4, BlDtStructureSize := 44,
     BlDtRsvMem := 0, BlDtRsvMemCount := 0\<rparr>"

definition tree_statics :: "dt_statics \<Rightarrow> dt_statics" where
  "tree_statics L = L\<lparr>BlDtRootNode := 0x4000, BlKernelHeader := 0x4200, BlPageTable := 0x8000\<rparr>"

definition the_tree :: dt_node where
  "the_tree = DtNode 0x4000 [] []
     [DtNode 0x4040 (bytes ''cpu'') [DtProp 0x40C0 (bytes ''reg'') 0x4308 [1, 2, 3, 4]] []]"

definition the_buckets :: "dt_string list list" where
  "the_buckets = [[(0x40C0, bytes ''reg'')]]"

definition tree_area :: "u32 set" where
  "tree_area = span 0x4000 0xCC \<union> span 0x4180 8 \<union> span 0x4300 16"

lemma tree_area_iff: "x \<in> tree_area \<longleftrightarrow> unat x \<in> {0x4000 ..< 0x40CC} \<union> {0x4180 ..< 0x4188} \<union> {0x4300 ..< 0x4310}"
  by (auto simp: tree_area_def span_fits fits_def)

lemma span_tree_area:
  "fits a n \<Longrightarrow> (\<And>i. unat a \<le> i \<Longrightarrow> i < unat a + n \<Longrightarrow> i \<in> {0x4000 ..< 0x40CC} \<union> {0x4180 ..< 0x4188} \<union> {0x4300 ..< 0x4310}) \<Longrightarrow> span a n \<subseteq> tree_area"
  by (auto simp: tree_area_iff span_fits)

lemma page_heap_zero: "unat x < 0x9000 \<Longrightarrow> memory page_heap x = 0"
  by (auto simp: page_heap_def set_RangeEnd_def set_RangeFree_def store32_def)

lemma page_heap_low: "unat a + 4 \<le> 0x9000 \<Longrightarrow> load32 (memory page_heap) a = 0"
proof -
  assume "unat a + 4 \<le> 0x9000"
  then have "same_on (span a 4) (\<lambda>_. 0) (memory page_heap)" by (auto simp: same_on_def span_fits fits_def intro: page_heap_zero)
  from load32_same_on [OF this] show ?thesis by (simp add: load32_def)
qed

lemma load32_apart: "unat a + 4 \<le> unat b \<or> unat b + 4 \<le> unat a \<Longrightarrow> unat a + 4 \<le> 2 ^ 32 \<Longrightarrow> unat b + 4 \<le> 2 ^ 32
    \<Longrightarrow> load32 (store32 m a v) b = load32 m b"
  by (rule load32_store32_disjoint) (auto simp: span_fits fits_def)

lemma store32_byte: "store32 m a v x = (if x = a then ucast v else if x = a + 1 then ucast (drop_bit 8 v)
    else if x = a + 2 then ucast (drop_bit 16 v) else if x = a + 3 then ucast (drop_bit 24 v) else m x)"
  by (simp add: store32_def)

lemma tree_words:
  "load32 tree_mem 0x4000 = 0" "load32 tree_mem 0x400C = 0x4304" "load32 tree_mem 0x4010 = 0x4044" "load32 tree_mem 0x4014 = 0x4044"
  "load32 tree_mem 0x401C = 0" "load32 tree_mem 0x4040 = 0x4000" "load32 tree_mem 0x4044 = 0" "load32 tree_mem 0x4048 = 0"
  "load32 tree_mem 0x404C = 0x4300" "load32 tree_mem 0x4050 = 0" "load32 tree_mem 0x4054 = 0" "load32 tree_mem 0x4058 = 0x4080"
  "load32 tree_mem 0x405C = 1" "load32 tree_mem 0x4080 = 0x40C0" "load32 tree_mem 0x4084 = 0x4308" "load32 tree_mem 0x4088 = 4"
  "load32 tree_mem 0x40C0 = 0" "load32 tree_mem 0x40C4 = 0" "load32 tree_mem 0x40C8 = 0x430C" "load32 tree_mem 0x4180 = 0x40C0"
  "load32 tree_mem 0x4184 = 0x40C0" "load32 tree_mem 0x4214 = 0"
  by (simp_all add: tree_mem_def page_heap_low load32_apart)

lemma tree_names:
  "holds tree_mem 0x4304 [0]" "holds tree_mem 0x4300 (bytes ''cpu'' @ [0])" "holds tree_mem 0x430C (bytes ''reg'' @ [0])"
  "holds tree_mem 0x4308 [1, 2, 3, 4]"
  by (simp_all add: holds_Cons bytes_def tree_mem_def store32_byte page_heap_zero)

lemma byte_lengths: "length (bytes ''cpu'' @ [0]) = 4" "length (bytes ''reg'' @ [0]) = 4" "length [1, 2, 3, 4 :: u8] = 4" "length [0 :: u8] = 1"
  by (simp_all add: bytes_def)

lemma tree_state_ok: "dt_ok 0x4000 tree_area (tree_state s) the_tree the_buckets []"
proof -
  note fields = NodeParent_def NodeName_def NodeProperties_def NumberOfProperties_def NodeChildren_def NodeLink_def load_list_def
    PropName_def PropData_def PropSize_def StringData_def NodePrev_def NodeNext_def
  have A: "span 0x4000 32 \<subseteq> tree_area" "span 0x4040 32 \<subseteq> tree_area" "span 0x4080 12 \<subseteq> tree_area" "span 0x40C0 12 \<subseteq> tree_area"
    "span 0x4180 8 \<subseteq> tree_area" "span 0x4304 1 \<subseteq> tree_area" "span 0x4300 4 \<subseteq> tree_area" "span 0x430C 4 \<subseteq> tree_area" "span 0x4308 4 \<subseteq> tree_area"
    by (rule span_tree_area; simp add: fits_def)+
  have N: "bytes_at tree_area tree_mem 0x4304 [0]" "bytes_at tree_area tree_mem 0x4300 (bytes ''cpu'' @ [0])"
    "bytes_at tree_area tree_mem 0x430C (bytes ''reg'' @ [0])" "bytes_at tree_area tree_mem 0x4308 [1, 2, 3, 4]"
    unfolding bytes_at_def byte_lengths using A tree_names by (simp_all add: fits_def)
  have p: "prop_rep tree_area tree_mem 0x4080 (DtProp 0x40C0 (bytes ''reg'') 0x4308 [1, 2, 3, 4])"
    using A N by (simp add: prop_rep_def fields tree_words)
  have l: "list_rep tree_mem (load_list tree_mem 0x4010) [0x4044]" "list_rep tree_mem (load_list tree_mem 0x4050) []"
    "list_rep tree_mem (load_list tree_mem 0x4180) [0x40C0]"
    by (simp_all add: list_rep_def fields tree_words nodes_apart_def fits_def)
  have "name_ok (bytes ''cpu'')" "name_ok (bytes ''reg'')" "name_ok []" by (simp_all add: name_ok_def bytes_def)
  note T = A N p l this
  have "tree_rep tree_area tree_mem 0 the_tree"
    using T by (simp add: the_tree_def node_rep_def fields tree_words)
  moreover have "strings_ok tree_area (tree_state s) the_buckets"
  proof -
    have "span 0x40CC 4 \<inter> tree_area = {}" by (rule equals0I) (auto simp: tree_area_iff span_fits fits_def)
    then show ?thesis
      using T by (simp add: strings_ok_def strings_rep_def entry_rep_def tree_state_def the_buckets_def ids_apart_def fields tree_words fits_def bytes_def)
  qed
  ultimately show ?thesis
    by (simp add: dt_ok_def the_tree_def the_buckets_def tree_state_def rsv_rep_def fits_def bytes_def up4_def)
qed

lemma store32_span: "same_outside A m m' \<Longrightarrow> span a 4 \<subseteq> A \<Longrightarrow> same_outside A m (store32 m' a v)"
  by (erule same_on_trans) (meson Compl_subset_Compl_iff same_on_mono store32_same_outside)

lemma span_within: "unat b \<le> unat a \<Longrightarrow> unat a + k \<le> unat b + n \<Longrightarrow> unat b + n \<le> 2 ^ 32 \<Longrightarrow> span a k \<subseteq> span b n"
  by (auto simp: span_fits fits_def)

lemma tree_out: "same_outside (span 0x4000 0x400) (memory page_heap) tree_mem"
  unfolding tree_mem_def fold_simps prod.case by (rule store32_span span_within same_on_refl | simp)+

lemma page_heap_table_span: "table_span (memory page_heap) 0x8000 = span 0x8000 4096"
proof -
  have "unat x < 0x9000" if "x \<in> span 0x8000 4096" for x :: u32
    using that by (simp add: span_fits fits_def)
  then have "entry (memory page_heap) 0x8000 i = 0" if "unat i < 1024" for i
    using that page_heap_zero by (intro entry_zero) auto
  then show ?thesis by (auto simp: table_span_def subtable_def Let_def)
qed

lemma tree_heap:
  "heap_inv (page_heap\<lparr>memory := tree_mem\<rparr>) [(0x10000, 0x20000, True)] [0x10000]"
  "tables_ok tree_mem 0x8000 (foot [(0x10000, 0x20000, True)])" "table_span tree_mem 0x8000 = span 0x8000 4096"
proof -
  have "span 0x4000 0x400 \<inter> header_span (bases [(0x10000, 0x20000, True)]) = {}"
    by (rule equals0I) (auto simp: header_span_def span_fits fits_def)
  moreover have "span 0x4000 0x400 \<inter> table_span (memory page_heap) 0x8000 = {}"
    unfolding page_heap_table_span by (rule equals0I) (auto simp: span_fits fits_def)
  note heap_inv_write [OF page_heap_inv page_heap_tables tree_out calculation this]
  then show "heap_inv (page_heap\<lparr>memory := tree_mem\<rparr>) [(0x10000, 0x20000, True)] [0x10000]"
    "tables_ok tree_mem 0x8000 (foot [(0x10000, 0x20000, True)])" "table_span tree_mem 0x8000 = span 0x8000 4096"
    by (simp_all add: page_heap_table_span)
qed

lemma low_apart: "x \<in> kept_area 0x8000 tree_mem [(0x10000, 0x20000, True)]" if "unat x < 0x8000" for x
  using that by (auto simp: kept_area_def tree_heap(3) span_fits fits_def area_def word_le_nat_alt)

theorem BlDtBuildBlob_correct_witness:
  "\<forall>s L whami. \<exists>p s'. BlDtBuildBlob (tree_statics L) whami (tree_state s) = ret (p, s')
    \<and> blob_built (tree_statics L) (tree_state s) [(0x10000, 0x20000, True)] the_tree 104 p s'"
proof (intro allI)
  fix s L whami
  have inv: "heap_inv (tree_state s) [(0x10000, 0x20000, True)] [0x10000]"
    using tree_heap(1) by (simp add: heap_inv_def heap_rep_def tree_state_def)
  have tabs: "tables_ok (memory (tree_state s)) (BlPageTable (tree_statics L)) (foot [(0x10000, 0x20000, True)])"
    using tree_heap(2) by (simp add: tree_state_def tree_statics_def)
  have ok: "dt_ok (BlDtRootNode (tree_statics L)) tree_area (tree_state s) the_tree the_buckets []"
    using tree_state_ok by (simp add: tree_statics_def)
  have area: "tree_area \<union> ids_span (concat the_buckets) \<union> span (BlKernelHeader (tree_statics L)) 32
      \<subseteq> kept_area (BlPageTable (tree_statics L)) (memory (tree_state s)) [(0x10000, 0x20000, True)]"
  proof -
    have "unat x < 0x8000" if "x \<in> tree_area \<union> ids_span (concat the_buckets) \<union> span 0x4200 32" for x
      using that by (auto simp: tree_area_iff ids_span_def the_buckets_def span_fits fits_def)
    then show ?thesis using low_apart by (auto simp: tree_state_def tree_statics_def)
  qed
  have D: "KernelDtbAddress (tree_statics L) = 0x4218" "KernelFlags (tree_statics L) = 0x4214"
    by (simp_all add: KernelDtbAddress_def KernelFlags_def tree_statics_def)
  have "load32 tree_mem 0x4218 = 0"
    by (simp add: tree_mem_def page_heap_low load32_apart)
  then have al: "4096 dvd unat (load32 (memory (tree_state s)) (KernelDtbAddress (tree_statics L)))" by (simp add: D tree_state_def)
  have size: "104 = blob_size the_tree the_buckets []"
    by (simp add: blob_size_def the_tree_def the_buckets_def bytes_def up4_def)
  have "\<not> blob_mapped (tree_statics L) (memory (tree_state s))" by (simp add: blob_mapped_def D tree_state_def tree_words)
  moreover have "\<not> no_room [(0x10000, 0x20000, True)] 104"
    by (simp add: no_room_def value_nat_def head_extra_def rounded_def)
  ultimately show "\<exists>p s'. BlDtBuildBlob (tree_statics L) whami (tree_state s) = ret (p, s')
    \<and> blob_built (tree_statics L) (tree_state s) [(0x10000, 0x20000, True)] the_tree 104 p s'"
    using BlDtBuildBlob_correct [OF inv tabs ok area al size, of "BlDtBuildBlob (tree_statics L) whami (tree_state s)" whami] by simp
qed

end
