(* ===== verification/File_Read.thy ===== *)
theory File_Read
  imports Filesystem
begin

text \<open>
  Reading a file of an ext2 volume: the blocks of an inode as a tree over the bytes of the partition, and
  \<open>BiReadFromInode\<close> against the bytes that tree stands for. Blocks are of 1, 2 or 4 KiB.
\<close>

section \<open>The bytes of a file\<close>

definition le32_at :: "(nat \<Rightarrow> u8) \<Rightarrow> nat \<Rightarrow> u32" where
  "le32_at P p = ucast (P p) OR push_bit 8 (ucast (P (p + 1))) OR push_bit 16 (ucast (P (p + 2))) OR push_bit 24 (ucast (P (p + 3)))"

text \<open>
  The block a pointer \<open>vb\<close> leads to over \<open>level\<close> pointer blocks, \<open>P\<close> the bytes of the partition, \<open>2 ^ h\<close>
  the size of a block; a pointer 0 is a hole.
\<close>

fun tree :: "(nat \<Rightarrow> u8) \<Rightarrow> nat \<Rightarrow> nat \<Rightarrow> u32 \<Rightarrow> nat \<Rightarrow> u32" where
  "tree P h 0 vb b = vb"
| "tree P h (Suc level) vb b =
     (if vb = 0 then 0 else tree P h level (le32_at P (unat vb * 2 ^ h + 4 * (b div (2 ^ (h - 2)) ^ level mod 2 ^ (h - 2)))) b)"

text \<open>Pointer blocks lie in the partition and in its first 4 GiB.\<close>

fun tree_ok :: "(nat \<Rightarrow> u8) \<Rightarrow> nat \<Rightarrow> nat \<Rightarrow> nat \<Rightarrow> u32 \<Rightarrow> nat \<Rightarrow> bool" where
  "tree_ok P h Z 0 vb b \<longleftrightarrow> True"
| "tree_ok P h Z (Suc level) vb b \<longleftrightarrow>
     vb = 0 \<or> (unat vb + 1) * 2 ^ h \<le> min Z (2 ^ 32)
       \<and> tree_ok P h Z level (le32_at P (unat vb * 2 ^ h + 4 * (b div (2 ^ (h - 2)) ^ level mod 2 ^ (h - 2)))) b"

text \<open>Where a block of a file hangs, with \<open>n\<close> of the three levels left to try: the level and the number within it.\<close>

fun place_block :: "nat \<Rightarrow> nat \<Rightarrow> nat \<Rightarrow> (nat \<times> nat) option" where
  "place_block h 0 b = None"
| "place_block h (Suc n) b =
     (if b < (2 ^ (h - 2)) ^ (3 - n) then Some (3 - n, b) else place_block h n (b - (2 ^ (h - 2)) ^ (3 - n)))"

text \<open>The pointers an inode holds: \<open>direct k\<close> and \<open>indirect k\<close>.\<close>

definition file_block :: "(nat \<Rightarrow> u8) \<Rightarrow> nat \<Rightarrow> (nat \<Rightarrow> u32) \<Rightarrow> (nat \<Rightarrow> u32) \<Rightarrow> nat \<Rightarrow> u32" where
  "file_block P h direct indirect n =
     (if n < 12 then direct n
      else case place_block h 3 (n - 12) of None \<Rightarrow> 0 | Some (level, b) \<Rightarrow> tree P h level (indirect (level - 1)) b)"

definition block_ok :: "(nat \<Rightarrow> u8) \<Rightarrow> nat \<Rightarrow> nat \<Rightarrow> (nat \<Rightarrow> u32) \<Rightarrow> (nat \<Rightarrow> u32) \<Rightarrow> nat \<Rightarrow> bool" where
  "block_ok P h Z direct indirect n \<longleftrightarrow>
     (n < 12 \<or> (case place_block h 3 (n - 12) of None \<Rightarrow> False | Some (level, b) \<Rightarrow> tree_ok P h Z level (indirect (level - 1)) b))
     \<and> (unat (file_block P h direct indirect n) + 1) * 2 ^ h \<le> Z"

definition file_byte :: "(nat \<Rightarrow> u8) \<Rightarrow> nat \<Rightarrow> (nat \<Rightarrow> u32) \<Rightarrow> (nat \<Rightarrow> u32) \<Rightarrow> nat \<Rightarrow> u8" where
  "file_byte P h direct indirect i =
     (let vb = file_block P h direct indirect (i div 2 ^ h) in if vb = 0 then 0 else P (unat vb * 2 ^ h + i mod 2 ^ h))"

section \<open>Memory\<close>

text \<open>The static and local objects lie apart from each other and from the cache.\<close>

definition fs_layout :: "'b fs_statics_scheme \<Rightarrow> bool" where
  "fs_layout L \<longleftrightarrow> layout_ok L \<and> fits (local_value L) 4 \<and> span (local_value L) 4 \<inter> cache_span L = {}
     \<and> span (BiSuperblock L) 236 \<inter> (cache_span L \<union> span (local_value L) 4) = {}"

definition geometry :: "'b fs_statics_scheme \<Rightarrow> nat \<Rightarrow> 'a fs_scheme \<Rightarrow> bool" where
  "geometry L h s \<longleftrightarrow> 10 \<le> h \<and> h \<le> 12 \<and> unat (BlockSizeShift L (memory s)) = h \<and> BiBlockSize s = 2 ^ h
     \<and> BiIndirectionShift s = of_nat (h - 2) \<and> BiIndirectionCount s = 2 ^ (h - 2) \<and> BiIndirectionMask s = 2 ^ (h - 2) - 1"

text \<open>What a step that reads from the disk may change: the cache and the bytes of \<open>W\<close>.\<close>

definition reads :: "'b fs_statics_scheme \<Rightarrow> (nat \<Rightarrow> u8) \<Rightarrow> u32 \<Rightarrow> u32 set \<Rightarrow> 'a fs_scheme \<Rightarrow> 'a fs_scheme \<Rightarrow> bool" where
  "reads L disk sectors W s s' \<longleftrightarrow> (\<exists>is'. cache_inv L disk sectors s' is')
     \<and> same_outside (W \<union> cache_span L) (memory s) (memory s') \<and> besides_cache s' = besides_cache s"

lemma reads_trans: "reads L disk sectors W s s' \<Longrightarrow> reads L disk sectors W s' s'' \<Longrightarrow> reads L disk sectors W s s''"
  unfolding reads_def by (elim conjE, intro conjI) (assumption, erule (1) same_on_trans, simp)

lemma reads_mono: "reads L disk sectors W s s' \<Longrightarrow> W \<subseteq> W' \<Longrightarrow> reads L disk sectors W' s s'"
  unfolding reads_def using same_outside_mono [of "W \<union> cache_span L" _ _ "W' \<union> cache_span L"] by blast

lemma filled_reads: "filled L disk sectors buffer p n s s' \<Longrightarrow> reads L disk sectors (span buffer n) s s'"
  by (auto simp: filled_def reads_def)

lemma besides_cache_parts:
  assumes "besides_cache (s' :: 'a fs_scheme) = besides_cache s"
  shows "BlRootPartition s' = BlRootPartition s" "BiBlockSize s' = BiBlockSize s" "BiIndirectionShift s' = BiIndirectionShift s"
    "BiIndirectionCount s' = BiIndirectionCount s" "BiIndirectionMask s' = BiIndirectionMask s"
  using assms by (cases s; cases s'; simp add: besides_cache_def)+

lemma reads_geometry:
  assumes "reads L disk sectors W s s'" "geometry L h s" "fs_layout L" "W \<inter> span (BiSuperblock L) 236 = {}"
  shows "geometry L h s'"
proof -
  have out: "same_outside (W \<union> cache_span L) (memory s) (memory s')" and b: "besides_cache s' = besides_cache s"
    using assms(1) by (auto simp: reads_def)
  have "(W \<union> cache_span L) \<inter> span (BiSuperblock L) 236 = {}" using assms(3,4) by (auto simp: fs_layout_def)
  from same_outside_on [OF out this] have "same_on (span (BiSuperblock L + of_nat 24) 4) (memory s) (memory s')"
    by (rule same_on_mono) (rule span_sub, simp_all)
  then have "BlockSizeShift L (memory s') = BlockSizeShift L (memory s)" by (simp add: BlockSizeShift_def load32_same_on)
  then show ?thesis using assms(2) besides_cache_parts [OF b] by (simp add: geometry_def)
qed

lemma load32_holds: "holds m a (disk_bytes P p 4) \<Longrightarrow> load32 m a = le32_at P p"
  using holds_nth [of m a "disk_bytes P p 4" 0] holds_nth [of m a "disk_bytes P p 4" 1]
    holds_nth [of m a "disk_bytes P p 4" 2] holds_nth [of m a "disk_bytes P p 4" 3]
  by (simp add: load32_def le32_at_def)

section \<open>Pointers\<close>

lemma indirection_level_place:
  assumes h: "10 \<le> h" "h \<le> 12"
  shows "n \<le> 3 \<Longrightarrow> n = 0 \<or> unat blocks = (2 ^ (h - 2)) ^ (4 - n) \<Longrightarrow>
    (case place_block h n (unat block) of
       None \<Rightarrow> fst (indirection_level (of_nat (h - 2)) n block blocks) = 3
     | Some (level, b) \<Rightarrow> \<exists>block'. indirection_level (of_nat (h - 2)) n block blocks = (level - 1, block') \<and> unat block' = b
         \<and> 1 \<le> level \<and> level \<le> 3)"
proof (induction n arbitrary: block blocks)
  case 0
  show ?case by (simp add: BI_INDIRECT_LEVELS_def)
next
  case (Suc n)
  have u: "unat blocks = (2 ^ (h - 2)) ^ (3 - n)" using Suc.prems by simp
  have uc: "unat (ucast blocks :: u64) = unat blocks" using unat_lt32 [of blocks] by (simp add: unsigned_ucast_eq take_bit_eq_mod)
  have lt: "block < ucast blocks \<longleftrightarrow> unat block < (2 ^ (h - 2)) ^ (3 - n)" by (simp add: word_less_nat_alt uc u)
  show ?case
  proof (cases "block < ucast blocks")
    case True
    then show ?thesis using lt Suc.prems(1) by (simp add: BI_INDIRECT_LEVELS_def)
  next
    case False
    have sub: "unat (block - ucast blocks) = unat block - (2 ^ (h - 2)) ^ (3 - n)"
      using False by (subst unat_sub) (simp_all add: uc u not_less)
    have "n = 0 \<or> unat (push_bit (unat (of_nat (h - 2) :: u32)) blocks) = (2 ^ (h - 2)) ^ (4 - n)"
    proof (cases n)
      case (Suc k)
      have "(2 ^ (h - 2)) ^ (4 - n) \<le> (2 ^ 10 :: nat) ^ 3"
      proof -
        have "(2 :: nat) ^ (h - 2) \<le> 2 ^ 10" by (rule power_increasing) (use h in simp_all)
        then have "(2 ^ (h - 2)) ^ (4 - n) \<le> (2 ^ 10 :: nat) ^ (4 - n)" by (rule power_mono) simp
        also have "\<dots> \<le> (2 ^ 10) ^ 3" by (rule power_increasing) (use Suc in simp_all)
        finally show ?thesis .
      qed
      moreover have "(2 ^ (h - 2)) ^ (4 - n) = (2 ^ (h - 2)) ^ (3 - n) * (2 :: nat) ^ (h - 2)"
      proof -
        have "4 - n = Suc (3 - n)" using Suc.prems(1) by simp
        then show ?thesis by simp
      qed
      ultimately have "unat blocks * 2 ^ (h - 2) < 2 ^ 32" unfolding u by simp
      moreover have "unat (of_nat (h - 2) :: u32) = h - 2" by (rule unat_of_nat32) (use h in simp)
      ultimately show ?thesis
        unfolding u \<open>(2 ^ (h - 2)) ^ (4 - n) = _\<close>
        using h by (simp add: push_bit_eq_mult unat_word_ariths u unat_pow2)
    qed simp
    note IH = Suc.IH [OF _ this, of "block - ucast blocks"]
    have 1: "indirection_level (of_nat (h - 2)) (Suc n) block blocks
        = indirection_level (of_nat (h - 2)) n (block - ucast blocks) (push_bit (unat (of_nat (h - 2) :: u32)) blocks)"
      using False by (simp only: indirection_level.simps if_False)
    have 2: "place_block h (Suc n) (unat block) = place_block h n (unat (block - ucast blocks))"
      using False unfolding lt sub by simp
    show ?thesis unfolding 1 2 using IH Suc.prems(1) by simp
  qed
qed

lemma block_words: "10 \<le> h \<Longrightarrow> (2 :: nat) ^ h = 4 * 2 ^ (h - 2)"
proof -
  assume "10 \<le> h"
  then obtain k where "h = 2 + k" using le_Suc_ex [of 2 h] by auto
  then show ?thesis by (simp add: power_add)
qed

text \<open>A read that returns \<open>x\<close>, unless the disk fails.\<close>

definition gave :: "'b fs_statics_scheme \<Rightarrow> (nat \<Rightarrow> u8) \<Rightarrow> u32 \<Rightarrow> (u64 \<Rightarrow> u32 \<Rightarrow> bool) \<Rightarrow> u32 set \<Rightarrow> 'a fs_scheme \<Rightarrow> ('c \<times> 'a fs_scheme) run \<Rightarrow> 'c \<Rightarrow> bool" where
  "gave L disk sectors fails W s r x \<longleftrightarrow> (r = crash ''failed to read from disk'' \<and> (\<exists>sector count. fails sector count))
     \<or> (\<exists>s'. r = ret (x, s') \<and> reads L disk sectors W s s')"

text \<open>The pointers of an inode in memory.\<close>

definition inode_at :: "mem \<Rightarrow> u32 \<Rightarrow> (nat \<Rightarrow> u32) \<Rightarrow> (nat \<Rightarrow> u32) \<Rightarrow> bool" where
  "inode_at m ino direct indirect \<longleftrightarrow> (\<forall>k<12. load32 m (DirectBlock ino k) = direct k) \<and> (\<forall>k<3. load32 m (IndirectBlock ino k) = indirect k)"

lemma inode_at_same:
  assumes "inode_at m ino D I" "same_on (span ino 128) m m'"
  shows "inode_at m' ino D I"
proof -
  have "load32 m' (ino + of_nat a) = load32 m (ino + of_nat a)" if "a + 4 \<le> 128" for a
    by (rule load32_same_on, rule same_on_mono [OF assms(2)], rule span_sub) (use that in simp_all)
  from this [of "40 + 4 * k" for k] this [of "88 + 4 * k" for k] assms(1) show ?thesis
    by (simp add: inode_at_def DirectBlock_def IndirectBlock_def add.assoc)
qed

context boot_disk
begin

text \<open>The bytes of the root partition.\<close>

abbreviation part :: "'a fs_scheme \<Rightarrow> nat \<Rightarrow> u8" where "part s p \<equiv> disk (unat (Start (BlRootPartition s)) + p)"
abbreviation psize :: "'a fs_scheme \<Rightarrow> nat" where "psize s \<equiv> unat (PartSize (BlRootPartition s))"

lemma gave_bind:
  assumes "gave L disk sectors fails W s r x" "\<And>s'. reads L disk sectors W s s' \<Longrightarrow> gave L disk sectors fails W s' (f (x, s')) y"
  shows "gave L disk sectors fails W s (bind_run r f) y"
  using assms(1) unfolding gave_def [of L disk sectors fails W s r]
proof (elim disjE exE conjE)
  fix s' assume r: "r = ret (x, s')" "reads L disk sectors W s s'"
  from assms(2) [OF r(2)] show ?thesis
    unfolding gave_def r(1) bind_run_simps using reads_trans [OF r(2)] by blast
qed (auto simp: gave_def)

lemma disk_bytes_part: "disk_bytes disk (unat (Start (BlRootPartition s)) + p) n = disk_bytes (part s) p n"
  by (simp add: disk_bytes_def add.assoc list_eq_iff_nth_eq)

lemma read_partition:
  assumes "fs_layout L" "cache_inv L disk sectors s is" "partition_ok sectors s"
    and "fits buffer (unat count)" "span buffer (unat count) \<inter> cache_span L = {}"
    and "unat position + unat count \<le> psize s"
    and "bypassCache \<longrightarrow> whole_sectors buffer (Start (BlRootPartition s) + position) count"
  shows "(BlReadFromPartition L read buffer position count bypassCache s = crash ''failed to read from disk'' \<and> (\<exists>sector count. fails sector count))
    \<or> (\<exists>s'. BlReadFromPartition L read buffer position count bypassCache s = ret s' \<and> reads L disk sectors (span buffer (unat count)) s s'
        \<and> holds (memory s') buffer (disk_bytes (part s) (unat position) (unat count)))"
proof -
  have L: "layout_ok L" using assms(1) by (simp add: fs_layout_def)
  from BlReadFromPartition_spec [OF L assms(2-5,7)] assms(6)
  have "fetched L disk sectors fails buffer (unat (Start (BlRootPartition s)) + unat position) (unat count) s
      (BlReadFromPartition L read buffer position count bypassCache s)" by simp
  then show ?thesis
  proof (unfold fetched_def, elim disjE exE conjE)
    fix s' assume r: "BlReadFromPartition L read buffer position count bypassCache s = ret s'"
      and f: "filled L disk sectors buffer (unat (Start (BlRootPartition s)) + unat position) (unat count) s s'"
    have "holds (memory s') buffer (disk_bytes (part s) (unat position) (unat count))"
      using f unfolding filled_def disk_bytes_part by blast
    with r filled_reads [OF f] show ?thesis by blast
  qed blast
qed

lemma BiReadFromPointerBlock_spec:
  assumes L: "fs_layout L" and inv: "cache_inv L disk sectors s is" "partition_ok sectors s" "geometry L h s"
    and b: "(unat vb + 1) * 2 ^ h \<le> min (psize s) (2 ^ 32)" and i: "unat index < 2 ^ (h - 2)"
  shows "gave L disk sectors fails (span (local_value L) 4) s (BiReadFromPointerBlock L read vb index s) (le32_at (part s) (unat vb * 2 ^ h + 4 * unat index))"
proof -
  have h: "10 \<le> h" "unat (BlockSizeShift L (memory s)) = h" using inv(3) by (auto simp: geometry_def)
  have four: "(2 :: nat) ^ h = 4 * 2 ^ (h - 2)" by (rule block_words [OF h(1)])
  have lt: "unat vb * 2 ^ h + 4 * unat index + 4 \<le> min (psize s) (2 ^ 32)"
    using b i unfolding four by (simp add: algebra_simps)
  let ?pos = "ucast (push_bit h vb + index * 4 :: u32) :: u64"
  have "unat (push_bit h vb + index * 4 :: u32) = unat vb * 2 ^ h + 4 * unat index"
  proof -
    have "unat (push_bit h vb :: u32) = unat vb * 2 ^ h"
      using lt inv(3) by (simp add: push_bit_eq_mult unat_word_ariths unat_pow2 geometry_def)
    moreover have "unat (index * 4 :: u32) = 4 * unat index" using lt by (simp add: unat_word_ariths)
    ultimately show ?thesis using lt by (simp add: unat_word_ariths)
  qed
  then have pos: "unat ?pos = unat vb * 2 ^ h + 4 * unat index"
    using unat_lt32 [of "push_bit h vb + index * 4"] by (simp add: unsigned_ucast_eq take_bit_eq_mod)
  have loc: "fits (local_value L) (unat (4 :: u32))" "span (local_value L) (unat (4 :: u32)) \<inter> cache_span L = {}"
    using L by (simp_all add: fs_layout_def)
  from read_partition [OF L inv(1,2) loc, of ?pos False] lt consider
      "BlReadFromPartition L read (local_value L) ?pos 4 False s = crash ''failed to read from disk''" "\<exists>sector count. fails sector count"
    | s' where "BlReadFromPartition L read (local_value L) ?pos 4 False s = ret s'" "reads L disk sectors (span (local_value L) 4) s s'"
      "holds (memory s') (local_value L) (disk_bytes (part s) (unat vb * 2 ^ h + 4 * unat index) 4)"
    unfolding pos by auto
  then show ?thesis
  proof cases
    case 1
    then show ?thesis by (simp add: gave_def BiReadFromPointerBlock_def h(2))
  next
    case 2
    then show ?thesis by (simp add: gave_def BiReadFromPointerBlock_def h(2) BL_LE32_def load32_holds)
  qed
qed

text \<open>What a step keeps, for the next one.\<close>

lemma reads_keep:
  assumes "reads L disk sectors W s s'" "geometry L h s" "partition_ok sectors s" "fs_layout L" "W \<inter> span (BiSuperblock L) 236 = {}"
  obtains is' where "cache_inv L disk sectors s' is'" "partition_ok sectors s'" "geometry L h s'" "BlRootPartition s' = BlRootPartition s"
proof -
  have b: "BlRootPartition s' = BlRootPartition s" using assms(1) besides_cache_parts(1) [of s' s] by (simp add: reads_def)
  obtain is' where "cache_inv L disk sectors s' is'" using assms(1) by (auto simp: reads_def)
  moreover have "geometry L h s'" by (rule reads_geometry [OF assms(1,2,4,5)])
  moreover have "partition_ok sectors s'" using assms(3) b by (simp add: partition_ok_def)
  ultimately show thesis using b that by blast
qed

lemma pointer_index:
  assumes "10 \<le> h" "h \<le> 12" "level \<le> 3"
  shows "unat (ucast (drop_bit (unat (of_nat (h - 2) * of_nat level :: u32)) block AND ucast (2 ^ (h - 2) - 1 :: u32) :: u64) :: u32)
    = unat block div (2 ^ (h - 2)) ^ level mod 2 ^ (h - 2)"
proof -
  have le: "(h - 2) * level \<le> 10 * 3" by (rule mult_le_mono) (use assms in simp_all)
  have "of_nat (h - 2) * of_nat level = (of_nat ((h - 2) * level) :: u32)" by simp
  then have u: "unat (of_nat (h - 2) * of_nat level :: u32) = (h - 2) * level"
    using le unat_of_nat32 [of "(h - 2) * level"] by simp
  have m: "ucast (2 ^ (h - 2) - 1 :: u32) = (mask (h - 2) :: u64)"
  proof (rule bit_word_eqI)
    fix n assume "n < LENGTH(64)"
    have "(2 ^ (h - 2) - 1 :: u32) = mask (h - 2)" by (simp add: mask_eq_exp_minus_1)
    then show "bit (ucast (2 ^ (h - 2) - 1 :: u32) :: u64) n = bit (mask (h - 2) :: u64) n"
      using assms(1,2) \<open>n < LENGTH(64)\<close> by (auto simp: bit_simps)
  qed
  have "unat (drop_bit ((h - 2) * level) block AND mask (h - 2)) = unat block div 2 ^ ((h - 2) * level) mod 2 ^ (h - 2)"
    unfolding take_bit_eq_mask [symmetric] using unat_lt64 [of block]
    by (simp only: unsigned_take_bit_eq unsigned_drop_bit_eq)
      (simp add: take_bit_eq_mod drop_bit_eq_div take_bit_nat_eq_self [OF unsigned_less])
  moreover have "(2 :: nat) ^ (h - 2) < 2 ^ 32" by (rule power_strict_increasing) (use assms in simp_all)
  then have "unat block div 2 ^ ((h - 2) * level) mod 2 ^ (h - 2) < 2 ^ 32" by (rule less_trans [rotated]) simp
  ultimately show ?thesis
    unfolding u m by (simp add: unsigned_ucast_eq take_bit_eq_mod power_mult)
qed

lemma follow_pointers_spec:
  assumes L: "fs_layout L" and P: "P = (\<lambda>p. disk (unat (Start rp) + p))"
  shows "level \<le> 3 \<Longrightarrow> cache_inv L disk sectors s is \<Longrightarrow> partition_ok sectors s \<Longrightarrow> geometry L h s \<Longrightarrow> BlRootPartition s = rp \<Longrightarrow>
    tree_ok P h (unat (PartSize rp)) level vb (unat block) \<Longrightarrow>
    gave L disk sectors fails (span (local_value L) 4) s (follow_pointers L read level block vb s) (tree P h level vb (unat block))"
proof (induction level arbitrary: vb s "is")
  case 0
  then show ?case by (auto simp: gave_def reads_def)
next
  case (Suc level)
  show ?case
  proof (cases "vb = 0")
    case True
    then show ?thesis using Suc.prems by (auto simp: gave_def reads_def)
  next
    case False
    let ?i = "ucast (drop_bit (unat (of_nat (h - 2) * of_nat level :: u32)) block AND ucast (2 ^ (h - 2) - 1 :: u32)) :: u32"
    have h: "10 \<le> h" "h \<le> 12" "BiIndirectionShift s = of_nat (h - 2)" "BiIndirectionMask s = 2 ^ (h - 2) - 1"
      using Suc.prems(4) by (auto simp: geometry_def)
    have i: "unat ?i = unat block div (2 ^ (h - 2)) ^ level mod 2 ^ (h - 2)"
      by (rule pointer_index) (use h Suc.prems(1) in simp_all)
    let ?v = "le32_at P (unat vb * 2 ^ h + 4 * unat ?i)"
    have ok: "(unat vb + 1) * 2 ^ h \<le> min (psize s) (2 ^ 32)" "tree_ok P h (unat (PartSize rp)) level ?v (unat block)"
      using Suc.prems(5,6) False unfolding i by simp_all
    have part: "part s = P" unfolding P using Suc.prems(5) by simp
    have "unat ?i < 2 ^ (h - 2)" unfolding i by simp
    from BiReadFromPointerBlock_spec [OF L Suc.prems(2-4) ok(1) this]
    have first: "gave L disk sectors fails (span (local_value L) 4) s (BiReadFromPointerBlock L read vb ?i s) ?v" unfolding part .
    have run: "follow_pointers L read (Suc level) block vb s
        = bind_run (BiReadFromPointerBlock L read vb ?i s) (\<lambda>(vb, s). follow_pointers L read level block vb s)"
      using False by (simp only: follow_pointers.simps if_False Let_def h(3,4))
    have tree: "tree P h (Suc level) vb (unat block) = tree P h level ?v (unat block)" using False by (simp only: tree.simps if_False i)
    show ?thesis unfolding run tree
    proof (rule gave_bind [OF first])
      fix s' assume r: "reads L disk sectors (span (local_value L) 4) s s'"
      have "span (local_value L) 4 \<inter> span (BiSuperblock L) 236 = {}" using L by (auto simp: fs_layout_def)
      from reads_keep [OF r Suc.prems(4,3) L this] obtain is' where
        "cache_inv L disk sectors s' is'" "partition_ok sectors s'" "geometry L h s'" "BlRootPartition s' = BlRootPartition s" .
      then show "gave L disk sectors fails (span (local_value L) 4) s' (case (?v, s') of (vb, s) \<Rightarrow> follow_pointers L read level block vb s) (tree P h level ?v (unat block))"
        using Suc.IH [of s' is' ?v] Suc.prems(1,5) ok(2) by simp
    qed
  qed
qed

lemma BiGetInodeBlockBase_spec:
  assumes L: "fs_layout L" and P: "P = (\<lambda>p. disk (unat (Start rp) + p))"
    and inv: "cache_inv L disk sectors s is" "partition_ok sectors s" "geometry L h s" "BlRootPartition s = rp"
    and ino: "inode_at (memory s) ino D I" and ok: "block_ok P h (unat (PartSize rp)) D I (unat block)"
  shows "gave L disk sectors fails (span (local_value L) 4) s (BiGetInodeBlockBase L read ino block s) (ucast (file_block P h D I (unat block)))"
proof (cases "block < 12")
  case True
  then have b: "unat block < 12" by (simp add: word_less_nat_alt)
  then show ?thesis using True inv(1) ino
    by (auto simp: BiGetInodeBlockBase_def gave_def reads_def file_block_def inode_at_def)
next
  case False
  then have b: "\<not> unat block < 12" "unat (block - 12) = unat block - 12"
    by (simp_all add: word_less_nat_alt unat_sub word_le_nat_alt)
  have h: "10 \<le> h" "h \<le> 12" "BiIndirectionShift s = of_nat (h - 2)" "BiIndirectionCount s = 2 ^ (h - 2)"
    using inv(3) by (auto simp: geometry_def)
  obtain level n where pl: "place_block h 3 (unat block - 12) = Some (level, n)" and t: "tree_ok P h (unat (PartSize rp)) level (I (level - 1)) n"
    using ok b(1) by (auto simp: block_ok_def split: option.splits)
  have "unat (BiIndirectionCount s) = (2 ^ (h - 2)) ^ (4 - 3)" using h(1,2) by (simp add: h(4) unat_pow2)
  then have "\<exists>block'. indirection_level (of_nat (h - 2)) 3 (block - 12) (BiIndirectionCount s) = (level - 1, block') \<and> unat block' = n \<and> 1 \<le> level \<and> level \<le> 3"
    using indirection_level_place [OF h(1,2), of 3 "BiIndirectionCount s" "block - 12"] unfolding b(2) pl by simp
  then obtain block' where lv: "indirection_level (of_nat (h - 2)) 3 (block - 12) (BiIndirectionCount s) = (level - 1, block')"
    and n: "unat block' = n" and le: "1 \<le> level" "level \<le> 3" by blast
  have ld: "load32 (memory s) (IndirectBlock ino (level - 1)) = I (level - 1)" using ino le by (simp add: inode_at_def)
  have run: "BiGetInodeBlockBase L read ino block s
      = bind_run (follow_pointers L read level block' (I (level - 1)) s) (\<lambda>(volumeBlock, s). ret (ucast volumeBlock, s))"
  proof -
    have "\<not> level - 1 \<ge> BI_INDIRECT_LEVELS" "level - 1 + 1 = level" using le by (simp_all add: BI_INDIRECT_LEVELS_def)
    then show ?thesis
      using False lv [folded BI_INDIRECT_LEVELS_def] ld unfolding BiGetInodeBlockBase_def h(3) by (simp only: if_False Let_def prod.case)
  qed
  have fb: "file_block P h D I (unat block) = tree P h level (I (level - 1)) n" using b(1) pl by (simp add: file_block_def)
  have "gave L disk sectors fails (span (local_value L) 4) s (follow_pointers L read level block' (I (level - 1)) s) (tree P h level (I (level - 1)) n)"
    using follow_pointers_spec [OF L P le(2) inv, of "I (level - 1)" block'] t n by simp
  then show ?thesis unfolding run fb
    by (rule gave_bind) (auto simp: gave_def reads_def)
qed

end

end
