(* ===== verification/A4x_Disk.thy ===== *)
theory A4x_Disk
  imports Disk_Read
begin

text \<open>
  The disk of the a4x platform, \<^verbatim>\<open>bootloader/a4x/a4x.c\<close>: \<open>BxReadFromDisk\<close> over the firmware's \<open>ReadDisk\<close>.
  The firmware is not part of the sources: its call is a parameter, and what is relied on is
  stated by the locale \<open>firmware_disk\<close>. With it \<open>BxReadFromDisk\<close> is a \<open>boot_disk\<close>, so everything
  proved about the cache holds of this platform.
\<close>

text \<open>\<open>ReadDisk\<close> with the partition fixed to the one that spans the disk: buffer, sector, count.\<close>

type_synonym fw_read = "u32 \<Rightarrow> u32 \<Rightarrow> u32 \<Rightarrow> mem \<Rightarrow> u32 \<times> mem"

definition BxReadFromDisk :: "fw_read \<Rightarrow> u32 \<Rightarrow> disk_read" where
  "BxReadFromDisk ReadDisk SectorCount buffer sector count m =
     (if buffer AND BL_SECTOR_MASK \<noteq> 0 then crash ''BxReadFromDisk: unaligned buffer''
      else
        let end = sector + ucast count
        in if end < sector then ret (False, m)
           else
             let end = (if end > ucast SectorCount then ucast SectorCount else end);
                 (r, m) = ReadDisk buffer (ucast sector) (ucast (end - sector)) m
             in ret (r \<noteq> 0, m))"

locale firmware_disk =
  fixes ReadDisk :: fw_read and disk :: "nat \<Rightarrow> u8" and sectors :: u32 and bad :: "u32 \<Rightarrow> u32 \<Rightarrow> bool"
  assumes fw_done: "\<not> bad sector count \<Longrightarrow> unat sector + unat count \<le> unat sectors \<Longrightarrow> fits buffer (512 * unat count) \<Longrightarrow>
      \<exists>r. r \<noteq> 0 \<and> ReadDisk buffer sector count m = (r, store_bytes m buffer (disk_bytes disk (512 * unat sector) (512 * unat count)))"
    and fw_failed: "bad sector count \<Longrightarrow> \<exists>m'. ReadDisk buffer sector count m = (0, m')"

text \<open>The sectors that are requested when a request runs up to the end of the disk.\<close>

definition clipped :: "u32 \<Rightarrow> u64 \<Rightarrow> u32 \<Rightarrow> u32" where
  "clipped sectors sector count =
     (let end = sector + ucast count; end = (if end > ucast sectors then ucast sectors else end) in ucast (end - sector))"

lemma unat_ucast64: "unat (ucast x :: u64) = unat (x :: u32)"
  using unat_lt32 [of x] by (simp add: unsigned_ucast_eq take_bit_eq_mod)

lemma clipped_request:
  assumes "unat sector \<le> unat sectors"
  shows "unat (ucast sector :: u32) = unat sector" "\<not> sector + ucast count < sector"
    "unat (clipped sectors sector count) = min (unat count) (unat sectors - unat sector)"
proof -
  show "unat (ucast sector :: u32) = unat sector"
    using assms unat_lt32 [of sectors] by (simp add: unsigned_ucast_eq take_bit_eq_mod)
  have lt: "unat sector + unat count < 2 ^ 64" using assms unat_lt32 [of sectors] unat_lt32 [of count] by simp
  then have e: "unat (sector + ucast count) = unat sector + unat count" by (simp add: unat_word_ariths unat_ucast64)
  then show "\<not> sector + ucast count < sector" by (simp add: word_less_nat_alt)
  define end' where "end' = (if sector + ucast count > ucast sectors then ucast sectors else sector + ucast count :: u64)"
  have u: "unat end' = min (unat sector + unat count) (unat sectors)"
    by (simp add: end'_def word_less_nat_alt e unat_ucast64)
  then have "unat (end' - sector) = min (unat count) (unat sectors - unat sector)"
    using assms by (subst unat_sub) (auto simp: word_le_nat_alt)
  moreover have "unat (ucast (end' - sector) :: u32) = unat (end' - sector)"
    using calculation unat_lt32 [of count] by (simp add: unsigned_ucast_eq take_bit_eq_mod)
  ultimately show "unat (clipped sectors sector count) = min (unat count) (unat sectors - unat sector)"
    by (simp add: clipped_def end'_def Let_def)
qed

definition request_fails :: "(u32 \<Rightarrow> u32 \<Rightarrow> bool) \<Rightarrow> u32 \<Rightarrow> u64 \<Rightarrow> u32 \<Rightarrow> bool" where
  "request_fails bad sectors sector count \<longleftrightarrow> unat sector \<le> unat sectors \<and> bad (ucast sector) (clipped sectors sector count)"

sublocale firmware_disk \<subseteq> boot_disk "BxReadFromDisk ReadDisk sectors" disk sectors "request_fails bad sectors"
proof
  fix sector :: u64 and count buffer :: u32 and m :: mem
  assume f: "\<not> request_fails bad sectors sector count" and al: "buffer AND BL_SECTOR_MASK = 0"
    and le: "unat sector \<le> unat sectors" and fits: "fits buffer (512 * unat count)"
  let ?n = "min (unat count) (unat sectors - unat sector)"
  note c = clipped_request [OF le]
  have "unat (ucast sector :: u32) + unat (clipped sectors sector count) \<le> unat sectors" "fits buffer (512 * unat (clipped sectors sector count))"
    unfolding c using le fits by (auto simp: fits_def)
  from fw_done [OF _ this, of m] f le obtain r where "r \<noteq> 0"
    "ReadDisk buffer (ucast sector) (clipped sectors sector count) m = (r, store_bytes m buffer (disk_bytes disk (512 * unat sector) (512 * ?n)))"
    unfolding c request_fails_def by blast
  then show "BxReadFromDisk ReadDisk sectors buffer sector count m = ret (True, store_bytes m buffer (disk_bytes disk (512 * unat sector) (512 * ?n)))"
    using al c(2) by (simp add: BxReadFromDisk_def clipped_def Let_def)
next
  fix sector :: u64 and count buffer :: u32 and m :: mem
  assume f: "request_fails bad sectors sector count" and al: "buffer AND BL_SECTOR_MASK = 0"
  then obtain m' where "ReadDisk buffer (ucast sector) (clipped sectors sector count) m = (0, m')"
    using fw_failed unfolding request_fails_def by blast
  then show "\<exists>m'. BxReadFromDisk ReadDisk sectors buffer sector count m = ret (False, m')"
    using al f clipped_request(2) by (auto simp: BxReadFromDisk_def clipped_def Let_def request_fails_def)
qed

context firmware_disk
begin

lemma platform: "boot_disk (BxReadFromDisk ReadDisk sectors) disk sectors (request_fails bad sectors)"
  by unfold_locales

end

text \<open>A firmware that serves the bytes of a disk and never fails.\<close>

definition served_disk :: "(nat \<Rightarrow> u8) \<Rightarrow> fw_read" where
  "served_disk disk buffer sector count m = (1, store_bytes m buffer (disk_bytes disk (512 * unat sector) (512 * unat count)))"

interpretation served: firmware_disk "served_disk disk" disk sectors "\<lambda>_ _. False" for disk sectors
  by unfold_locales (auto simp: served_disk_def)

section \<open>Properties\<close>

text \<open>
  C21. A block looked up in the cache: on a working disk the returned buffer holds the bytes of that block of the disk,
  the cache stays consistent and nothing outside it changes, and the blocks it holds afterwards are those of a
  least-recently-used cache of sixteen; the boot stops only if the firmware fails a read.
\<close>

theorem BiGetBCacheEntry_correct:
  assumes "firmware_disk ReadDisk disk sectors bad" "layout_ok L" "cache_inv L disk sectors s is" "4096 * unat block < 512 * unat sectors"
  defines "r \<equiv> BiGetBCacheEntry L (BxReadFromDisk ReadDisk sectors) block s"
  shows "(r = crash ''failed to read from disk'' \<and> (\<exists>sector count. request_fails bad sectors sector count))
    \<or> (\<exists>i s' is'. r = ret (sl L i, s') \<and> i < 16 \<and> cache_inv L disk sectors s' is' \<and> cache_step L s s'
        \<and> slot_ok disk sectors (memory s') (sl L i) block \<and> cached L s' is' = lru block (cached L s is))"
  using boot_disk.BiGetBCacheEntry_spec [OF firmware_disk.platform [OF assms(1)] assms(2-4)] 
  unfolding r_def lookup_done_def .

text \<open>
  C13. Reading from the root partition, through the cache or around it: a request beyond the partition (or one whose end
  wraps around) stops the boot; any other leaves exactly the partition's bytes in the buffer and changes no memory but the
  buffer and the cache, unless the firmware fails a read.
\<close>

theorem BlReadFromPartition_correct:
  assumes fw: "firmware_disk ReadDisk disk sectors bad" and L: "layout_ok L" and inv: "cache_inv L disk sectors s is"
    and part: "partition_ok sectors s"
    and buf: "fits buffer (unat count)" "span buffer (unat count) \<inter> cache_span L = {}"
    and whole: "bypassCache \<longrightarrow> whole_sectors buffer (Start (BlRootPartition s) + position) count"
  defines "r \<equiv> BlReadFromPartition L (BxReadFromDisk ReadDisk sectors) buffer position count bypassCache s"
  shows "if unat position + unat count > unat (PartSize (BlRootPartition s)) then r = crash ''tried to read beyond partition bounds''
    else r = crash ''failed to read from disk'' \<and> (\<exists>sector count. request_fails bad sectors sector count)
      \<or> (\<exists>s'. r = ret s' \<and> filled L disk sectors buffer (unat (Start (BlRootPartition s)) + unat position) (unat count) s s')"
  using boot_disk.BlReadFromPartition_spec [OF firmware_disk.platform [OF fw] L inv part buf whole]
  unfolding r_def fetched_def by (simp add: not_le split: if_splits)

section \<open>Examples\<close>

definition some_statics :: statics where
  "some_statics = \<lparr>BiBCacheMeta = 0x10000, BiBCacheData = 0x20000\<rparr>"

definition fresh_disk :: disk where
  "fresh_disk = \<lparr>memory = (\<lambda>_. 0), BlHeapRanges = BlListInit, BlFreeRanges = BlListInit, BiOptions = BiOptions_init, console = [],
     BiBCacheUsed = 0, BiBCache = BlListInit, BlRootPartition = \<lparr>Start = 512, PartSize = 8192\<rparr>\<rparr>"

lemma some_statics_ok: "layout_ok some_statics"
  using span_disjoint [of "0x10000" 384 "0x20000" 65536] by (simp add: layout_ok_def some_statics_def fits_def cache_consts)

lemma fresh_cache: "cache_inv L disk n fresh_disk []"
  using BlListInit_rep by (simp add: cache_inv_def fresh_disk_def)

theorem BiGetBCacheEntry_correct_witness:
  "\<exists>i s' is'. BiGetBCacheEntry some_statics (BxReadFromDisk (served_disk of_nat) 64) 1 fresh_disk = ret (sl some_statics i, s')
    \<and> cache_inv some_statics of_nat 64 s' is' \<and> cached some_statics s' is' = [1]"
proof -
  have "cached some_statics fresh_disk [] = []" by (simp add: cached_def)
  moreover have "\<not> request_fails (\<lambda>_ _. False) sectors sector count" for sectors sector count by (simp add: request_fails_def)
  ultimately show ?thesis
    using BiGetBCacheEntry_correct [OF served.firmware_disk_axioms some_statics_ok fresh_cache, of 1 64 of_nat] by (auto simp: lru_def)
qed

theorem BlReadFromPartition_correct_witness:
  "\<exists>s'. BlReadFromPartition some_statics (BxReadFromDisk (served_disk of_nat) 64) 0x8000 3580 8 False fresh_disk = ret s'
    \<and> holds (memory s') 0x8000 (map of_nat [4092..<4100])
    \<and> BlReadFromPartition some_statics (BxReadFromDisk (served_disk of_nat) 64) 0x8000 (- 1) 8 False fresh_disk
        = crash ''tried to read beyond partition bounds''"
proof -
  have p: "partition_ok 64 fresh_disk"
    by (simp add: partition_ok_def fresh_disk_def cache_consts)
  have "cache_span some_statics \<inter> span 0x8000 8 = {}"
    using span_disjoint [of "0x8000" 8 "0x10000" 384] span_disjoint [of "0x8000" 8 "0x20000" 65536]
    by (auto simp: cache_span_def some_statics_def fits_def)
  then have b: "fits 0x8000 (unat (8 :: u32))" "span 0x8000 (unat (8 :: u32)) \<inter> cache_span some_statics = {}"
    by (auto simp: fits_def)
  have part: "Start (BlRootPartition fresh_disk) = 512" "PartSize (BlRootPartition fresh_disk) = 8192" by (simp_all add: fresh_disk_def)
  note T = BlReadFromPartition_correct [OF served.firmware_disk_axioms [of of_nat] some_statics_ok fresh_cache p b,
      where bypassCache = False, unfolded part]
  have nf: "\<not> (\<exists>sector count. request_fails (\<lambda>_ _. False) 64 sector count)" by (simp add: request_fails_def)
  have "\<exists>s'. BlReadFromPartition some_statics (BxReadFromDisk (served_disk of_nat) 64) 0x8000 3580 8 False fresh_disk = ret s'
    \<and> filled some_statics of_nat 64 0x8000 4092 8 fresh_disk s'"
    using T [of 3580] nf by simp
  then obtain s' where
    s': "BlReadFromPartition some_statics (BxReadFromDisk (served_disk of_nat) 64) 0x8000 3580 8 False fresh_disk = ret s'"
    "filled some_statics of_nat 64 0x8000 4092 8 fresh_disk s'" by blast
  then have "holds (memory s') 0x8000 (map of_nat [4092..<4100])" by (simp add: filled_def disk_bytes_def)
  then show ?thesis using s'(1) T [of "- 1"] by (simp add: unsigned_minus_1_eq_mask mask_eq_exp_minus_1)
qed

end
