(* ===== verification/Inode_Read.thy ===== *)
theory Inode_Read
  imports File_Read A4x_Disk
begin

text \<open>
  \<open>BiReadFromInode\<close> and the file interface on top of it: the buffer receives the bytes the inode's block tree stands
  for, holes as zeroes.
\<close>

lemma sector_aligned: "x AND BL_SECTOR_MASK = 0 \<longleftrightarrow> 512 dvd unat (x :: 'a::len word)"
proof -
  have "x AND BL_SECTOR_MASK = take_bit 9 x" by (simp add: cache_consts take_bit_eq_mask mask_eq_exp_minus_1)
  moreover have "unat (take_bit 9 x) = unat x mod 512" by (simp only: unsigned_take_bit_eq) (simp add: take_bit_eq_mod)
  ultimately have "unat (x AND BL_SECTOR_MASK) = unat x mod 512" by simp
  then show ?thesis by (metis dvd_eq_mod_eq_0 unat_eq_0)
qed

text \<open>The part of a read that lies in one block of the file.\<close>

lemma file_chunk:
  fixes position :: u64 and sz :: u32
  assumes h: "10 \<le> h" "h \<le> 12"
  defines "offset \<equiv> ucast (position AND ucast (2 ^ h - 1 :: u32)) :: u32"
  defines "current \<equiv> BL_MIN sz (2 ^ h - offset)"
  shows "unat offset = unat position mod 2 ^ h" "unat (drop_bit h position) = unat position div 2 ^ h"
    and "unat current = min (unat sz) (2 ^ h - unat position mod 2 ^ h)"
proof -
  have m: "ucast (2 ^ h - 1 :: u32) = (mask h :: u64)"
  proof (rule bit_word_eqI)
    fix n assume "n < LENGTH(64)"
    have "(2 ^ h - 1 :: u32) = mask h" by (simp add: mask_eq_exp_minus_1)
    then show "bit (ucast (2 ^ h - 1 :: u32) :: u64) n = bit (mask h :: u64) n"
      using h \<open>n < LENGTH(64)\<close> by (auto simp: bit_simps)
  qed
  have p: "(2 :: nat) ^ h < 2 ^ 32" by (rule power_strict_increasing) (use h in simp_all)
  have "unat (position AND mask h) = unat position mod 2 ^ h"
    unfolding take_bit_eq_mask [symmetric] by (simp only: unsigned_take_bit_eq) (simp add: take_bit_eq_mod)
  moreover have "unat position mod 2 ^ h < 2 ^ 32" using p by (rule less_trans [rotated]) simp
  ultimately show o: "unat offset = unat position mod 2 ^ h"
    unfolding offset_def m by (simp add: unsigned_ucast_eq take_bit_eq_mod)
  show "unat (drop_bit h position) = unat position div 2 ^ h"
    using unat_lt64 [of position] by (simp only: unsigned_drop_bit_eq) (simp add: drop_bit_eq_div take_bit_eq_mod)
  have u: "unat (2 ^ h :: u32) = 2 ^ h" using h by (simp add: unat_pow2)
  have "unat position mod 2 ^ h < 2 ^ h" by simp
  then have "unat (2 ^ h - offset) = 2 ^ h - unat offset"
    using o u by (subst unat_sub) (simp_all add: word_le_nat_alt)
  then show "unat current = min (unat sz) (2 ^ h - unat position mod 2 ^ h)"
    unfolding current_def BL_MIN_def by (auto simp: word_le_nat_alt o)
qed

lemma file_bytes_chunk:
  assumes "c \<le> 2 ^ h - p mod 2 ^ h"
  shows "map (file_byte P h D I) [p..<p + c] =
    (let vb = file_block P h D I (p div 2 ^ h) in if vb = 0 then replicate c 0 else map P [unat vb * 2 ^ h + p mod 2 ^ h..<unat vb * 2 ^ h + p mod 2 ^ h + c])"
proof -
  have "(p + i) div 2 ^ h = p div 2 ^ h \<and> (p + i) mod 2 ^ h = p mod 2 ^ h + i" if "i < c" for i
  proof -
    have lt: "p mod 2 ^ h + i < 2 ^ h" using that assms by linarith
    have "p + i = (p div 2 ^ h) * 2 ^ h + (p mod 2 ^ h + i)" using div_mult_mod_eq [of p "2 ^ h"] by linarith
    then show ?thesis using lt by (metis add.commute add.left_neutral div_less div_mult_self3 mod_less mod_mult_self3 power_eq_0_iff zero_neq_numeral)
  qed
  then show ?thesis by (auto simp: Let_def file_byte_def add.assoc intro!: nth_equalityI)
qed

text \<open>What a read of file bytes leaves behind.\<close>

definition file_read :: "'b fs_statics_scheme \<Rightarrow> (nat \<Rightarrow> u8) \<Rightarrow> u32 \<Rightarrow> (u64 \<Rightarrow> u32 \<Rightarrow> bool) \<Rightarrow> u32 \<Rightarrow> u8 list \<Rightarrow> 'a fs_scheme \<Rightarrow> 'a fs_scheme run \<Rightarrow> bool" where
  "file_read L disk sectors fails buffer bs s r \<longleftrightarrow> (r = crash ''failed to read from disk'' \<and> (\<exists>sector count. fails sector count))
     \<or> (\<exists>s'. r = ret s' \<and> reads L disk sectors (span buffer (length bs) \<union> span (local_value L) 4) s s' \<and> holds (memory s') buffer bs)"

text \<open>The buffer and the inode of a read do not meet each other or the objects the read works with.\<close>

definition read_apart :: "'b fs_statics_scheme \<Rightarrow> u32 \<Rightarrow> u32 \<Rightarrow> nat \<Rightarrow> bool" where
  "read_apart L ino buffer n \<longleftrightarrow> fits buffer n
     \<and> span buffer n \<inter> (cache_span L \<union> span (local_value L) 4 \<union> span (BiSuperblock L) 236 \<union> span ino 128) = {}
     \<and> span ino 128 \<inter> (cache_span L \<union> span (local_value L) 4) = {}"

context boot_disk
begin

text \<open>One block's share.\<close>

lemma read_block:
  fixes vb offset current :: u32
  assumes L: "fs_layout L" and P: "P = (\<lambda>p. disk (unat (Start rp) + p))"
    and inv: "cache_inv L disk sectors s is" "partition_ok sectors s" "geometry L h s" "BlRootPartition s = rp"
    and buf: "fits buffer (unat current)" "span buffer (unat current) \<inter> cache_span L = {}"
    and vb: "(unat vb + 1) * 2 ^ h \<le> unat (PartSize rp)" and off: "unat offset + unat current \<le> 2 ^ h"
    and al: "bypassCache \<longrightarrow> 512 dvd unat buffer \<and> 512 dvd unat offset \<and> 512 dvd unat current"
  defines "bb \<equiv> push_bit h (ucast vb) :: u64"
  defines "bs \<equiv> (if vb = 0 then replicate (unat current) 0 else map P [unat vb * 2 ^ h + unat offset..<unat vb * 2 ^ h + unat offset + unat current])"
  shows "file_read L disk sectors fails buffer bs s
    (if bb \<noteq> 0 then BlReadFromPartition L read buffer (bb + ucast offset) current bypassCache s
     else ret (write_mem (\<lambda>m. BlFillMemory m buffer 0 current) s))"
proof (cases "vb = 0")
  case True
  let ?m = "store_bytes (memory s) buffer bs"
  have bs: "bs = replicate (unat current) 0" "length bs = unat current" using True by (simp_all add: bs_def)
  have run: "(if bb \<noteq> 0 then BlReadFromPartition L read buffer (bb + ucast offset) current bypassCache s
     else ret (write_mem (\<lambda>m. BlFillMemory m buffer 0 current) s)) = ret (s\<lparr>memory := ?m\<rparr>)"
    using True by (simp add: bb_def write_mem_def BlFillMemory_store_bytes bs)
  have out: "same_outside (span buffer (length bs)) (memory s) ?m" by (rule store_bytes_same_outside)
  have "same_on (cache_span L) (memory s) ?m" by (rule same_outside_on [OF out]) (use buf(2) bs(2) in simp)
  then have "cache_inv L disk sectors (s\<lparr>memory := ?m\<rparr>) is"
    by (intro cache_inv_same(1) [OF inv(1)]) simp_all
  moreover have "same_outside (span buffer (length bs) \<union> span (local_value L) 4 \<union> cache_span L) (memory s) ?m"
    by (rule same_outside_mono [OF out]) blast
  moreover have "holds ?m buffer bs" by (rule holds_store_bytes) (use bs(2) unat_lt32 [of current] in simp)
  ultimately show ?thesis unfolding run file_read_def reads_def by (auto simp: besides_cache_def)
next
  case False
  have h: "10 \<le> h" "h \<le> 12" using inv(3) by (auto simp: geometry_def)
  have lt: "unat vb * 2 ^ h + 2 ^ h \<le> 2 ^ 32 * 2 ^ 12 + 2 ^ 12"
    by (rule add_mono; (rule mult_le_mono)?) (use h unat_lt32 [of vb] power_increasing [of h 12 "2 :: nat"] in simp_all)
  have uv: "unat (ucast vb :: u64) = unat vb" by (rule unat_ucast64)
  have base: "unat bb = unat vb * 2 ^ h"
    using lt h unfolding bb_def push_bit_eq_mult by (simp add: unat_word_ariths uv unat_pow2)
  then have "bb \<noteq> 0" using False by (metis mult_eq_0_iff power_not_zero unat_eq_0 unsigned_0 zero_neq_numeral)
  have pos: "unat (bb + ucast offset) = unat vb * 2 ^ h + unat offset"
    using lt off by (simp add: unat_word_ariths unat_ucast64 base)
  have bs: "bs = disk_bytes P (unat vb * 2 ^ h + unat offset) (unat current)" "length bs = unat current"
    using False by (simp_all add: bs_def disk_bytes_def)
  have within: "unat (bb + ucast offset) + unat current \<le> psize s"
    using vb off unfolding pos inv(4) by (simp add: algebra_simps)
  have whole: "bypassCache \<longrightarrow> whole_sectors buffer (Start (BlRootPartition s) + (bb + ucast offset)) current"
  proof
    assume bypassCache
    then have al: "512 dvd unat buffer" "512 dvd unat offset" "512 dvd unat current" using al by auto
    let ?S = "Start (BlRootPartition s)"
    have S: "512 dvd unat ?S" "unat ?S + unat (bb + ucast offset) < 2 ^ 64"
      using inv(2) within unat_lt32 [of sectors] by (auto simp: partition_ok_def sector_aligned)
    have "512 dvd (2 :: nat) ^ h" using h(1) le_imp_power_dvd [of 9 h "2 :: nat"] by simp
    then have "512 dvd unat ?S + (unat vb * 2 ^ h + unat offset)" using S(1) al(2) by simp
    then have "512 dvd unat (?S + (bb + ucast offset))" using S(2) unfolding pos [symmetric] by (simp add: unat_word_ariths)
    then show "whole_sectors buffer (?S + (bb + ucast offset)) current" using al by (simp add: whole_sectors_def sector_aligned)
  qed
  have part: "part s = P" unfolding P using inv(4) by simp
  from read_partition [OF L inv(1,2) buf within whole]
  show ?thesis
  proof (elim disjE exE conjE)
    fix s' assume r: "BlReadFromPartition L read buffer (bb + ucast offset) current bypassCache s = ret s'"
      "reads L disk sectors (span buffer (unat current)) s s'"
      "holds (memory s') buffer (disk_bytes (part s) (unat (bb + ucast offset)) (unat current))"
    have "reads L disk sectors (span buffer (length bs) \<union> span (local_value L) 4) s s'"
      by (rule reads_mono [OF r(2)]) (simp add: bs(2))
    moreover have "holds (memory s') buffer bs" using r(3) unfolding part pos bs(1) .
    ultimately show ?thesis using r(1) \<open>bb \<noteq> 0\<close> by (simp add: file_read_def)
  qed (use \<open>bb \<noteq> 0\<close> in \<open>auto simp: file_read_def\<close>)
qed

lemma BiReadFromInode_spec:
  assumes L: "fs_layout L" and P: "P = (\<lambda>p. disk (unat (Start rp) + p))"
  shows "cache_inv L disk sectors s is \<Longrightarrow> partition_ok sectors s \<Longrightarrow> geometry L h s \<Longrightarrow> BlRootPartition s = rp \<Longrightarrow>
    inode_at (memory s) ino D I \<Longrightarrow> read_apart L ino buffer (unat sz) \<Longrightarrow> unat position + unat sz < 2 ^ 64 \<Longrightarrow>
    (\<And>n. unat position div 2 ^ h \<le> n \<Longrightarrow> n * 2 ^ h < unat position + unat sz \<Longrightarrow> block_ok P h (unat (PartSize rp)) D I n) \<Longrightarrow>
    (bypassCache \<longrightarrow> 512 dvd unat buffer \<and> 512 dvd unat position \<and> 512 dvd unat sz) \<Longrightarrow>
    file_read L disk sectors fails buffer (map (file_byte P h D I) [unat position..<unat position + unat sz]) s
      (BiReadFromInode L read ino buffer sz position bypassCache s)"
proof (induction "unat sz" arbitrary: buffer position sz s "is" rule: less_induct)
  case less
  note inv = less.prems(1-4) and ino = less.prems(5) and apart = less.prems(6) and top = less.prems(7) and ok = less.prems(8) and al = less.prems(9)
  have h: "10 \<le> h" "h \<le> 12" "unat (BlockSizeShift L (memory s)) = h" "BiBlockSize s = 2 ^ h" using inv(3) by (auto simp: geometry_def)
  show ?case
  proof (cases "sz = 0")
    case True
    have "BiReadFromInode L read ino buffer sz position bypassCache s = ret s" using True by (subst BiReadFromInode.simps) simp
    then show ?thesis using True inv(1) by (auto simp: file_read_def reads_def holds_def)
  next
    case False
    define block where "block = drop_bit h position"
    define offset where "offset = (ucast (position AND ucast (2 ^ h - 1 :: u32)) :: u32)"
    define current where "current = BL_MIN sz (2 ^ h - offset)"
    note C = file_chunk(1,2) [OF h(1,2), where position = position, folded offset_def, folded block_def]
      file_chunk(3) [OF h(1,2), where position = position and sz = sz, folded offset_def, folded current_def]
    let ?c = "unat current" let ?vb = "file_block P h D I (unat block)" let ?Z = "unat (PartSize rp)"
    have c: "0 < ?c" "?c \<le> unat sz" "unat offset + ?c \<le> 2 ^ h"
    proof -
      have o: "unat offset < 2 ^ h" unfolding C(1) by simp
      have m: "?c = min (unat sz) (2 ^ h - unat offset)" unfolding C(1) by (rule C(3))
      have "0 < unat sz" using False by (simp add: unat_gt_0)
      then show "0 < ?c" "?c \<le> unat sz" "unat offset + ?c \<le> 2 ^ h" using o m by linarith+
    qed
    have blk: "block_ok P h ?Z D I (unat block)"
    proof (rule ok)
      have "unat block * 2 ^ h \<le> unat position" unfolding C(2) by simp
      then show "unat block * 2 ^ h < unat position + unat sz" using c(1,2) by linarith
    qed (simp add: C(2))
    let ?bs1 = "map (file_byte P h D I) [unat position..<unat position + ?c]"
    let ?bs2 = "map (file_byte P h D I) [unat position + ?c..<unat position + unat sz]"
    have bytes: "map (file_byte P h D I) [unat position..<unat position + unat sz] = ?bs1 @ ?bs2"
    proof -
      have "[unat position..<unat position + unat sz] = [unat position..<unat position + ?c] @ [unat position + ?c..<unat position + unat sz]"
        using upt_add_eq_append [of "unat position" "unat position + ?c" "unat sz - ?c"] c(2) by simp
      then show ?thesis by simp
    qed
    have split: "unat (sz - current) = unat sz - ?c" using c(2) by (simp add: unat_sub word_le_nat_alt)
    have up: "unat (position + ucast current) = unat position + ?c"
      using top c(2) by (simp add: unat_word_ariths unat_ucast64)
    have sub: "span buffer ?c \<subseteq> span buffer (unat sz)" "span (buffer + current) (unat (sz - current)) \<subseteq> span buffer (unat sz)"
      "span buffer ?c \<inter> span (buffer + current) (unat (sz - current)) = {}"
    proof -
      have n: "?c + unat (sz - current) = unat sz" using split c(2) by simp
      show "span buffer ?c \<subseteq> span buffer (unat sz)" by (rule span_mono [OF c(2)])
      show "span (buffer + current) (unat (sz - current)) \<subseteq> span buffer (unat sz)"
        using span_sub [of ?c "unat (sz - current)" "unat sz" buffer] n unat_lt32 [of sz] by simp
      show "span buffer ?c \<inter> span (buffer + current) (unat (sz - current)) = {}"
        using span_disjoint_off [of 0 ?c ?c "unat (sz - current)" buffer] n unat_lt32 [of sz] by simp
    qed
    from apart L have ap: "fits buffer (unat sz)" "span buffer (unat sz) \<inter> cache_span L = {}" "span buffer (unat sz) \<inter> span (local_value L) 4 = {}"
      "span buffer (unat sz) \<inter> span (BiSuperblock L) 236 = {}" "span buffer (unat sz) \<inter> span ino 128 = {}"
      "span ino 128 \<inter> (cache_span L \<union> span (local_value L) 4) = {}" "span (local_value L) 4 \<inter> cache_span L = {}"
      "span (local_value L) 4 \<inter> span (BiSuperblock L) 236 = {}"
      unfolding read_apart_def fs_layout_def by blast+
    let ?base = "BiGetInodeBlockBase L read ino block s"
    let ?get = "\<lambda>s. if push_bit h (ucast ?vb :: u64) \<noteq> 0 then BlReadFromPartition L read buffer (push_bit h (ucast ?vb) + ucast offset) current bypassCache s
      else ret (write_mem (\<lambda>m. BlFillMemory m buffer 0 current) s)"
    let ?rest = "BiReadFromInode L read ino (buffer + current) (sz - current) (position + ucast current) bypassCache"
    have run: "BiReadFromInode L read ino buffer sz position bypassCache s = bind_run ?base (\<lambda>(b, s).
        let blockBase = push_bit (unat (BlockSizeShift L (memory s))) b
        in bind_run (if blockBase \<noteq> 0 then BlReadFromPartition L read buffer (blockBase + ucast offset) current bypassCache s
             else ret (write_mem (\<lambda>m. BlFillMemory m buffer 0 current) s)) ?rest)"
      unfolding block_def offset_def current_def using False by (subst BiReadFromInode.simps) (simp add: Let_def h(3,4))
    have failed: "file_read L disk sectors fails buffer bs s (crash ''failed to read from disk'')" if "\<exists>sector count. fails sector count" for bs
      using that by (simp add: file_read_def)
    from BiGetInodeBlockBase_spec [OF L P inv ino blk] consider "?base = crash ''failed to read from disk''" "\<exists>sector count. fails sector count"
      | s1 where "?base = ret (ucast ?vb, s1)" "reads L disk sectors (span (local_value L) 4) s s1"
      unfolding gave_def by blast
    then show ?thesis
    proof cases
      case 1
      then show ?thesis using failed by (simp add: run)
    next
      case 2
      from reads_keep [OF 2(2) inv(3,2) L ap(8)] obtain is1 where k1: "cache_inv L disk sectors s1 is1" "partition_ok sectors s1"
        "geometry L h s1" "BlRootPartition s1 = rp" unfolding inv(4) .
      have sh: "unat (BlockSizeShift L (memory s1)) = h" using k1(3) by (simp add: geometry_def)
      have run1: "BiReadFromInode L read ino buffer sz position bypassCache s = bind_run (?get s1) ?rest"
        unfolding run 2(1) by (simp add: sh Let_def)
      have vbZ: "(unat ?vb + 1) * 2 ^ h \<le> ?Z" using blk by (simp add: block_ok_def)
      have d2: "512 dvd (2 :: nat) ^ h" using h(1) le_imp_power_dvd [of 9 h "2 :: nat"] by simp
      have aligned: "bypassCache \<longrightarrow> 512 dvd unat buffer \<and> 512 dvd unat offset \<and> 512 dvd ?c"
      proof
        assume bypassCache
        with al have a: "512 dvd unat buffer" "512 dvd unat position" "512 dvd unat sz" by auto
        then have o: "512 dvd unat offset" unfolding C(1) using d2 by (simp add: dvd_mod)
        then have "512 dvd 2 ^ h - unat offset" using d2 by (simp add: dvd_diff_nat)
        then show "512 dvd unat buffer \<and> 512 dvd unat offset \<and> 512 dvd ?c" using a o C(1,3) by (simp add: min_def)
      qed
      have buf1: "fits buffer ?c" "span buffer ?c \<inter> cache_span L = {}" using ap(1,2) sub(1) c(2) by (auto simp: fits_def)
      have bs1: "(if ?vb = 0 then replicate ?c 0 else map P [unat ?vb * 2 ^ h + unat offset..<unat ?vb * 2 ^ h + unat offset + ?c]) = ?bs1"
        using file_bytes_chunk [of ?c h "unat position" P D I] c(3) unfolding C(1,2) by (simp add: Let_def)
      have get: "file_read L disk sectors fails buffer ?bs1 s1 (?get s1)"
        using read_block [OF L P k1 buf1 vbZ c(3) aligned] unfolding bs1 .
      have len1: "length ?bs1 = ?c" by simp
      from get consider "?get s1 = crash ''failed to read from disk''" "\<exists>sector count. fails sector count"
        | s2 where "?get s1 = ret s2" "reads L disk sectors (span buffer ?c \<union> span (local_value L) 4) s1 s2" "holds (memory s2) buffer ?bs1"
        unfolding file_read_def len1 by blast
      then show ?thesis
      proof cases
        case 1
        then show ?thesis using failed unfolding run1 by simp
      next
        case g: 2
        have W: "(span buffer ?c \<union> span (local_value L) 4) \<inter> span (BiSuperblock L) 236 = {}" using ap(4,8) sub(1) by blast
        from reads_keep [OF g(2) k1(3,2) L W] obtain is2 where k2: "cache_inv L disk sectors s2 is2" "partition_ok sectors s2"
          "geometry L h s2" "BlRootPartition s2 = rp" unfolding k1(4) .
        have all: "reads L disk sectors (span buffer (unat sz) \<union> span (local_value L) 4) s s2"
          by (rule reads_trans [OF reads_mono [OF 2(2)] reads_mono [OF g(2)]]) (use sub(1) in blast)+
        have ino2: "inode_at (memory s2) ino D I"
        proof (rule inode_at_same [OF ino])
          have "same_outside (span buffer (unat sz) \<union> span (local_value L) 4 \<union> cache_span L) (memory s) (memory s2)"
            using all by (simp add: reads_def)
          then show "same_on (span ino 128) (memory s) (memory s2)" by (rule same_outside_on) (use ap(5,6) in blast)
        qed
        have apart2: "read_apart L ino (buffer + current) (unat (sz - current))"
          unfolding read_apart_def
        proof (intro conjI)
          show "fits (buffer + current) (unat (sz - current))"
            using fits_sub [OF ap(1), of ?c "unat (sz - current)"] split c(2) by simp
        qed (use ap sub(2) in blast)+
        have "file_read L disk sectors fails (buffer + current) (map (file_byte P h D I) [unat (position + ucast current)..<unat (position + ucast current) + unat (sz - current)]) s2 (?rest s2)"
        proof (rule less.hyps [OF _ k2 ino2 apart2])
          show "unat (sz - current) < unat sz" using split c by linarith
          show "unat (position + ucast current) + unat (sz - current) < 2 ^ 64" using top split c(2) up by linarith
          show "block_ok P h ?Z D I n" if "unat (position + ucast current) div 2 ^ h \<le> n" "n * 2 ^ h < unat (position + ucast current) + unat (sz - current)" for n
          proof (rule ok)
            have "unat position div 2 ^ h \<le> unat (position + ucast current) div 2 ^ h" unfolding up by (rule div_le_mono) simp
            then show "unat position div 2 ^ h \<le> n" using that(1) by linarith
            show "n * 2 ^ h < unat position + unat sz" using that(2) up split c(2) by linarith
          qed
          show "bypassCache \<longrightarrow> 512 dvd unat (buffer + current) \<and> 512 dvd unat (position + ucast current) \<and> 512 dvd unat (sz - current)"
          proof
            assume bypassCache
            with al aligned have a: "512 dvd unat buffer" "512 dvd unat position" "512 dvd unat sz" "512 dvd ?c" by auto
            have "512 dvd (unat buffer + ?c) mod 2 ^ 32" by (rule dvd_mod) (use a in simp_all)
            then have "512 dvd unat (buffer + current)" by (simp only: unat_word_ariths) simp
            then show "512 dvd unat (buffer + current) \<and> 512 dvd unat (position + ucast current) \<and> 512 dvd unat (sz - current)"
              using a unfolding up split by (simp add: dvd_diff_nat)
          qed
        qed
        moreover have "unat (position + ucast current) + unat (sz - current) = unat position + unat sz" using up split c(2) by linarith
        ultimately have rest: "file_read L disk sectors fails (buffer + current) ?bs2 s2 (?rest s2)" unfolding up by simp
        have len2: "length ?bs2 = unat (sz - current)" using split by simp
        from rest consider "?rest s2 = crash ''failed to read from disk''" "\<exists>sector count. fails sector count"
          | s3 where "?rest s2 = ret s3" "reads L disk sectors (span (buffer + current) (unat (sz - current)) \<union> span (local_value L) 4) s2 s3"
            "holds (memory s3) (buffer + current) ?bs2"
          unfolding file_read_def len2 by blast
        then show ?thesis
        proof cases
          case 1
          then show ?thesis using failed unfolding run1 g(1) by simp
        next
          case r: 2
          have "same_on (span buffer (length ?bs1)) (memory s2) (memory s3)"
            unfolding len1
          proof (rule same_outside_on)
            show "same_outside (span (buffer + current) (unat (sz - current)) \<union> span (local_value L) 4 \<union> cache_span L) (memory s2) (memory s3)"
              using r(2) by (simp add: reads_def)
            show "(span (buffer + current) (unat (sz - current)) \<union> span (local_value L) 4 \<union> cache_span L) \<inter> span buffer ?c = {}"
              using sub(1,3) ap(2,3) by blast
          qed
          then have "holds (memory s3) buffer ?bs1" by (rule holds_same [OF g(3)]) (use unat_lt32 [of current] in simp)
          then have "holds (memory s3) buffer (?bs1 @ ?bs2)" unfolding holds_append len1 using r(3) by simp
          moreover have "reads L disk sectors (span buffer (unat sz) \<union> span (local_value L) 4) s s3"
            by (rule reads_trans [OF all reads_mono [OF r(2)]]) (use sub(2) in blast)
          moreover have "length (?bs1 @ ?bs2) = unat sz" using c(2) by simp
          ultimately show ?thesis unfolding bytes file_read_def run1 g(1) using r(1) by simp
        qed
      qed
    qed
  qed
qed

end

lemma BlFsFileRead_cases:
  assumes "unat (BlFsFileSize L file s) < 2 ^ 63"
  shows "BlFsFileRead L read file buffer count position bypassCache s =
    (if count = 0 \<or> position \<ge> BlFsFileSize L file s then ret s else BiReadFromInode L read file buffer count position bypassCache s)"
proof -
  let ?size = "BiInodeSize L (memory s) file"
  have "\<not> ucast count > position - ?size" if "position < ?size"
  proof -
    have lt: "unat position < unat ?size" "unat ?size < 2 ^ 63" using that assms by (simp_all add: word_less_nat_alt BlFsFileSize_def)
    then have "unat (position - ?size) = 2 ^ 64 + unat position - unat ?size"
      by (simp add: unat_sub_if_size word_size)
    then have "2 ^ 63 \<le> unat (position - ?size)" using lt by simp
    then show ?thesis using unat_lt32 [of count] by (simp add: word_less_nat_alt unat_ucast64)
  qed
  moreover have "ucast count > position - ?size" if "position = ?size" "count \<noteq> 0"
  proof -
    have "0 < unat count" using that(2) by (simp add: unat_gt_0)
    then show ?thesis using that(1) by (simp add: word_less_nat_alt unat_ucast64 del: unsigned_eq_0_iff)
  qed
  ultimately show ?thesis
    by (auto simp: BlFsFileRead_def BlFsFileSize_def Let_def not_less le_less)
qed

section \<open>Properties\<close>

text \<open>
  C12. Reading from an inode, through the cache or around it: whatever the position and size, the buffer receives exactly the
  bytes the inode's block tree stands for (direct, indirect, double and triple indirect blocks; holes as zeroes), and
  nothing but the buffer, the cache and one local variable changes; the boot stops only if the firmware fails a read. The
  blocks must lie in the partition.
\<close>

theorem BiReadFromInode_correct:
  assumes "firmware_disk ReadDisk disk sectors bad" "fs_layout L" "P = (\<lambda>p. disk (unat (Start (BlRootPartition s)) + p))"
    and "cache_inv L disk sectors s is" "partition_ok sectors s" "geometry L h s"
    and "inode_at (memory s) ino D I" "read_apart L ino buffer (unat sz)" "unat position + unat sz < 2 ^ 64"
    and "\<forall>n. unat position div 2 ^ h \<le> n \<and> n * 2 ^ h < unat position + unat sz \<longrightarrow> block_ok P h (unat (PartSize (BlRootPartition s))) D I n"
    and "bypassCache \<longrightarrow> 512 dvd unat buffer \<and> 512 dvd unat position \<and> 512 dvd unat sz"
  shows "file_read L disk sectors (request_fails bad sectors) buffer (map (file_byte P h D I) [unat position..<unat position + unat sz]) s
    (BiReadFromInode L (BxReadFromDisk ReadDisk sectors) ino buffer sz position bypassCache s)"
  by (rule boot_disk.BiReadFromInode_spec [OF firmware_disk.platform [OF assms(1)] assms(2-6) refl assms(7-9) _ assms(11)])
    (use assms(10) in blast)

text \<open>
  C39. \<open>BlFsFileRead\<close> does not know where a file ends: below the end of the file the whole request is read, however far it
  reaches beyond it; at the end and beyond nothing is read at all, and the buffer keeps its contents.
\<close>

theorem BlFsFileRead_ignores_end:
  assumes "unat (BlFsFileSize L file s) < 2 ^ 63"
  shows "BlFsFileRead L read file buffer count position bypassCache s =
    (if count = 0 \<or> position \<ge> BlFsFileSize L file s then ret s else BiReadFromInode L read file buffer count position bypassCache s)"
  by (rule BlFsFileRead_cases [OF assms])

section \<open>Examples\<close>

definition some_fs_statics :: fs_statics where
  "some_fs_statics = statics.extend some_statics
     (fs_statics.fields 0x40000 0x41000 0x42000 0x43000 0x44000)"

text \<open>A mounted volume with blocks of 1 KiB and an inode at \<open>0x50000\<close> whose first block is block 1, the others holes.\<close>

definition some_fs :: fs where
  "some_fs = disk.extend (fresh_disk\<lparr>memory := store32 (store32 (\<lambda>_. 0) 0x40018 10) 0x50028 1\<rparr>)
     (fs.fields 1024 2048 7 8 256 255)"

lemma some_fs_statics_ok: "fs_layout some_fs_statics"
proof -
  have "layout_ok some_fs_statics" using some_statics_ok by (simp add: layout_ok_def some_fs_statics_def fs_statics.defs statics.defs)
  moreover have "cache_span some_fs_statics = span 0x10000 384 \<union> span 0x20000 65536"
    by (simp add: cache_span_def some_fs_statics_def fs_statics.defs statics.defs some_statics_def)
  moreover have "local_value some_fs_statics = 0x43000" "BiSuperblock some_fs_statics = 0x40000"
    by (simp_all add: some_fs_statics_def fs_statics.defs statics.defs)
  ultimately show ?thesis
    using span_disjoint [of "0x10000" 384 "0x43000" 4] span_disjoint [of "0x20000" 65536 "0x43000" 4]
      span_disjoint [of "0x10000" 384 "0x40000" 236] span_disjoint [of "0x20000" 65536 "0x40000" 236]
      span_disjoint [of "0x40000" 236 "0x43000" 4]
    by (auto simp: fs_layout_def fits_def)
qed

lemma some_fs_parts:
  "memory some_fs = store32 (store32 (\<lambda>_. 0) 0x40018 10) 0x50028 1" "BiBCache some_fs = BlListInit" "BiBCacheUsed some_fs = 0"
  "BlRootPartition some_fs = \<lparr>Start = 512, PartSize = 8192\<rparr>" "BiBlockSize some_fs = 1024" "BiIndirectionShift some_fs = 8"
  "BiIndirectionCount some_fs = 256" "BiIndirectionMask some_fs = 255"
  by (simp_all add: some_fs_def fresh_disk_def disk.defs fs.defs)

lemma some_statics_parts:
  "BiSuperblock some_fs_statics = 0x40000" "local_value some_fs_statics = 0x43000"
  "BiBCacheMeta some_fs_statics = 0x10000" "BiBCacheData some_fs_statics = 0x20000"
  by (simp_all add: some_fs_statics_def some_statics_def fs_statics.defs statics.defs)

abbreviation (input) some_direct :: "nat \<Rightarrow> u32" where "some_direct \<equiv> \<lambda>k. if k = 0 then 1 else 0"

lemma some_fs_ok:
  "cache_inv L disk n some_fs []" "partition_ok 64 some_fs" "geometry some_fs_statics 10 some_fs"
  "inode_at (memory some_fs) 0x50000 some_direct (\<lambda>_. 0)" "read_apart some_fs_statics 0x50000 0x60000 8"
proof -
  show "cache_inv L disk n some_fs []" using BlListInit_rep by (simp add: cache_inv_def some_fs_parts)
  show "partition_ok 64 some_fs" by (simp add: partition_ok_def some_fs_parts cache_consts)
  show "geometry some_fs_statics 10 some_fs"
    by (simp add: geometry_def some_fs_parts some_statics_parts BlockSizeShift_def load32_def store32_def)
  show "inode_at (memory some_fs) 0x50000 some_direct (\<lambda>_. 0)"
  proof -
    have "list_all (\<lambda>k. load32 (store32 (store32 (\<lambda>_. 0) 0x40018 10) 0x50028 1) (DirectBlock 0x50000 k) = some_direct k) [0..<12]"
      "list_all (\<lambda>k. load32 (store32 (store32 (\<lambda>_. 0) 0x40018 10) 0x50028 1) (IndirectBlock 0x50000 k) = 0) [0..<3]"
      by code_simp+
    then show ?thesis unfolding inode_at_def some_fs_parts list_all_iff set_upt Ball_def atLeastLessThan_iff by blast
  qed
  show "read_apart some_fs_statics 0x50000 0x60000 8"
    using span_disjoint [of "0x10000" 384 "0x60000" 8] span_disjoint [of "0x20000" 65536 "0x60000" 8]
      span_disjoint [of "0x40000" 236 "0x60000" 8] span_disjoint [of "0x43000" 4 "0x60000" 8] span_disjoint [of "0x50000" 128 "0x60000" 8]
      span_disjoint [of "0x10000" 384 "0x50000" 128] span_disjoint [of "0x20000" 65536 "0x50000" 128] span_disjoint [of "0x43000" 4 "0x50000" 128]
    by (simp add: read_apart_def cache_span_def some_statics_parts fits_def Int_Un_distrib Int_Un_distrib2 Int_commute)
qed

theorem BiReadFromInode_correct_witness:
  "\<exists>s'. BiReadFromInode some_fs_statics (BxReadFromDisk (served_disk of_nat) 64) 0x50000 0x60000 8 1020 False some_fs = ret s'
    \<and> holds (memory s') 0x60000 (map of_nat [2556..<2560] @ [0, 0, 0, 0])"
proof -
  let ?P = "\<lambda>p. of_nat (512 + p) :: u8"
  have S: "?P = (\<lambda>p. of_nat (unat (Start (BlRootPartition some_fs)) + p))" by (simp add: some_fs_parts)
  have ap: "read_apart some_fs_statics 0x50000 0x60000 (unat (8 :: u32))" using some_fs_ok(5) by simp
  have ok: "\<forall>n. unat (1020 :: u64) div 2 ^ 10 \<le> n \<and> n * 2 ^ 10 < unat (1020 :: u64) + unat (8 :: u32) \<longrightarrow>
      block_ok ?P 10 (unat (PartSize (BlRootPartition some_fs))) some_direct (\<lambda>_. 0) n"
    by (auto simp: block_ok_def file_block_def some_fs_parts)
  have bytes: "map (file_byte ?P 10 some_direct (\<lambda>_. 0)) [1020..<1028] = map of_nat [2556..<2560] @ [0, 0, 0, 0]"
    by (simp add: upt_rec file_byte_def file_block_def)
  have u: "[unat (1020 :: u64)..<unat (1020 :: u64) + unat (8 :: u32)] = [1020..<1028]" by simp
  have "file_read some_fs_statics of_nat 64 (request_fails (\<lambda>_ _. False) 64) 0x60000
      (map (file_byte ?P 10 some_direct (\<lambda>_. 0)) [unat (1020 :: u64)..<unat (1020 :: u64) + unat (8 :: u32)]) some_fs
      (BiReadFromInode some_fs_statics (BxReadFromDisk (served_disk of_nat) 64) 0x50000 0x60000 8 1020 False some_fs)"
    by (rule BiReadFromInode_correct [OF served.firmware_disk_axioms some_fs_statics_ok S some_fs_ok(1-4) ap _ ok]) simp_all
  then show ?thesis unfolding u bytes file_read_def request_fails_def by blast
qed

theorem BlFsFileRead_ignores_end_witness:
  "BlFsFileRead some_fs_statics (BxReadFromDisk (served_disk of_nat) 64) 0x50000 0x60000 0xffffffff 4 True (some_fs\<lparr>memory := store32 (\<lambda>_. 0) 0x50004 8\<rparr>)
    = BiReadFromInode some_fs_statics (BxReadFromDisk (served_disk of_nat) 64) 0x50000 0x60000 0xffffffff 4 True (some_fs\<lparr>memory := store32 (\<lambda>_. 0) 0x50004 8\<rparr>)"
proof -
  let ?s = "some_fs\<lparr>memory := store32 (\<lambda>_. 0) 0x50004 8\<rparr>"
  have "BlFsFileSize some_fs_statics 0x50000 ?s = 8"
    by (simp add: BlFsFileSize_def BiInodeSize_def InodeSize_def WriteRequiredFeatures_def some_statics_parts load32_def store32_def)
  then show ?thesis using BlFsFileRead_ignores_end [of some_fs_statics "0x50000" ?s] by simp
qed

end
