(* ===== verification/Root_Partition.thy ===== *)
theory Root_Partition
  imports Device_Blob Inode_Read
begin

text \<open>
  Finding the root partition, the second half of \<^verbatim>\<open>bootloader/partition.c\<close>: the partition table of the
  first sector, and the first of its partitions that has a readable file system with a configuration file.
\<close>

section \<open>The partition table\<close>

definition BI_MBR_OFFSET :: u64 where "BI_MBR_OFFSET = 440"
definition BI_MBR_SIGNATURE :: u32 where "BI_MBR_SIGNATURE = 0xaa55"

definition struct_MbrPartition :: struct where
  "struct_MbrPartition =
     [(''BootIndicator'', 1), (''StartingChs'', 3), (''Type'', 1), (''EndingChs'', 3), (''StartingLba'', 4), (''SizeInLba'', 4)]"

definition struct_Mbr :: struct where
  "struct_Mbr = [(''DiskId'', 4), (''Unknown'', 2), (''Partitions'', 64), (''Signature'', 2)]"

definition SIZEOF_MbrPartition :: u32 where "SIZEOF_MbrPartition = 16"
definition SIZEOF_Mbr :: u32 where "SIZEOF_Mbr = 72"

text \<open>
  Addresses of the constant strings of the program and of the local table; both are given by the
  compiler and the linker.
\<close>

record boot_statics = dt_statics +
  literal :: "string \<Rightarrow> u32"
  local_mbr :: u32

definition MbrSignature :: "'b boot_statics_scheme \<Rightarrow> mem \<Rightarrow> u16" where "MbrSignature L m = load16 m (local_mbr L + 70)"
definition partition_at :: "'b boot_statics_scheme \<Rightarrow> nat \<Rightarrow> u32" where
  "partition_at L i = local_mbr L + 6 + SIZEOF_MbrPartition * of_nat i"
definition BootIndicator :: "mem \<Rightarrow> u32 \<Rightarrow> u8" where "BootIndicator m p = m p"
definition PartitionType :: "mem \<Rightarrow> u32 \<Rightarrow> u8" where "PartitionType m p = m (p + 4)"
definition StartingLba :: "mem \<Rightarrow> u32 \<Rightarrow> u32" where "StartingLba m p = load32 m (p + 8)"
definition SizeInLba :: "mem \<Rightarrow> u32 \<Rightarrow> u32" where "SizeInLba m p = load32 m (p + 12)"

lemma mbr_field_offsets:
  "MbrSignature L m = load16 m (local_mbr L + field_offset struct_Mbr ''Signature'')"
  "partition_at L i = local_mbr L + field_offset struct_Mbr ''Partitions'' + SIZEOF_MbrPartition * of_nat i"
  "PartitionType m p = m (p + field_offset struct_MbrPartition ''Type'')"
  "StartingLba m p = load32 m (p + field_offset struct_MbrPartition ''StartingLba'')"
  "SizeInLba m p = load32 m (p + field_offset struct_MbrPartition ''SizeInLba'')"
  "SIZEOF_MbrPartition = struct_size struct_MbrPartition" "SIZEOF_Mbr = struct_size struct_Mbr"
  by (simp_all add: MbrSignature_def partition_at_def PartitionType_def StartingLba_def SizeInLba_def SIZEOF_MbrPartition_def
      SIZEOF_Mbr_def struct_Mbr_def struct_MbrPartition_def struct_size_def)

section \<open>The search\<close>

text \<open>A partition whose file system is in order: take it if it has a configuration, else go on.\<close>

definition use_partition ::
    "'b boot_statics_scheme \<Rightarrow> disk_read \<Rightarrow> ('a fs_scheme \<Rightarrow> 'a fs_scheme run) \<Rightarrow> 'a fs_scheme \<Rightarrow> 'a fs_scheme run" where
  "use_partition L read go_on s =
     bind_run (BlFsFind L read (literal L ''xrlinux.cfg'') s) (\<lambda>(file, s).
       if file = 0 then go_on s
       else
         let sz = BlFsFileSize L file s
         in bind_run (BlLoadConfigurationFromFile sz (\<lambda>buffer s. BlFsFileRead L read file buffer (ucast sz) 0 False s) s) (\<lambda>s.
              ret (BlFsFree L file s)))"

text \<open>The loop over the last \<open>n\<close> of the four partitions.\<close>

fun try_partitions :: "'b boot_statics_scheme \<Rightarrow> disk_read \<Rightarrow> nat \<Rightarrow> 'a fs_scheme \<Rightarrow> 'a fs_scheme run" where
  "try_partitions L read 0 s = crash ''failed to find root partition''"
| "try_partitions L read (Suc n) s =
     (let p = partition_at L (4 - Suc n); m = memory s
      in if PartitionType m p = 0 \<or> BL_LE32 (SizeInLba m p) = 0 then try_partitions L read n s
         else
           let s = s\<lparr>BlRootPartition := \<lparr>Start = push_bit BL_SECTOR_SHIFT (ucast (BL_LE32 (StartingLba m p))),
                                        PartSize = push_bit BL_SECTOR_SHIFT (ucast (BL_LE32 (SizeInLba m p)))\<rparr>\<rparr>
           in bind_run (BlFsInitialize L read s) (\<lambda>(initialized, s).
                if \<not> initialized then try_partitions L read n s
                else use_partition L read (try_partitions L read n) s))"

definition BlFindRootPartition :: "'b boot_statics_scheme \<Rightarrow> disk_read \<Rightarrow> 'a fs_scheme \<Rightarrow> 'a fs_scheme run" where
  "BlFindRootPartition L read s =
     bind_run (print (bytes ''Searching for root partition'' @ [10]) [] s) (\<lambda>s.
     bind_run (BiReadFromDisk L read (local_mbr L) BI_MBR_OFFSET SIZEOF_Mbr False s) (\<lambda>s.
       if BL_LE32 (ucast (MbrSignature L (memory s))) \<noteq> BI_MBR_SIGNATURE then crash ''invalid mbr''
       else if \<exists>i\<in>{0..<4}. BootIndicator (memory s) (partition_at L i) \<noteq> 0 \<and> BootIndicator (memory s) (partition_at L i) \<noteq> 0x80
       then crash ''invalid mbr''
       else try_partitions L read 4 s))"

section \<open>The table on the disk\<close>

definition le16_at :: "(nat \<Rightarrow> u8) \<Rightarrow> nat \<Rightarrow> u16" where
  "le16_at d p = ucast (d p) OR push_bit 8 (ucast (d (p + 1)))"

definition slot_pos :: "nat \<Rightarrow> nat" where "slot_pos i = 446 + 16 * i"

definition mbr_ok :: "(nat \<Rightarrow> u8) \<Rightarrow> bool" where
  "mbr_ok d \<longleftrightarrow> le16_at d 510 = 0xaa55 \<and> (\<forall>i<4. d (slot_pos i) = 0 \<or> d (slot_pos i) = 0x80)"

definition used_slot :: "(nat \<Rightarrow> u8) \<Rightarrow> nat \<Rightarrow> bool" where
  "used_slot d i \<longleftrightarrow> d (slot_pos i + 4) \<noteq> 0 \<and> le32_at d (slot_pos i + 12) \<noteq> 0"

definition slot_start :: "(nat \<Rightarrow> u8) \<Rightarrow> nat \<Rightarrow> nat" where "slot_start d i = 512 * unat (le32_at d (slot_pos i + 8))"
definition slot_size :: "(nat \<Rightarrow> u8) \<Rightarrow> nat \<Rightarrow> nat" where "slot_size d i = 512 * unat (le32_at d (slot_pos i + 12))"

text \<open>The superblock lies 1024 bytes into a partition.\<close>

definition superblock_ok :: "(nat \<Rightarrow> u8) \<Rightarrow> nat \<Rightarrow> bool" where
  "superblock_ok d st \<longleftrightarrow> le16_at d (st + 1080) = 0xef53 \<and> (le32_at d (st + 1100) \<noteq> 0 \<longrightarrow>
     le32_at d (st + 1120) AND NOT 2 = 0 \<and> (let n = ucast (le16_at d (st + 1112)) :: u32 in n AND (n - 1) = 0))"

datatype search = No_partition | Out_of_bounds | At nat

fun root_search :: "(nat \<Rightarrow> u8) \<Rightarrow> nat list \<Rightarrow> search" where
  "root_search d [] = No_partition"
| "root_search d (i # is) =
     (if \<not> used_slot d i then root_search d is
      else if slot_size d i < 1260 then Out_of_bounds
      else if superblock_ok d (slot_start d i) then At i else root_search d is)"

end
