(* ===== verification/Root_Search.thy ===== *)
theory Root_Search
  imports Root_Partition A4x_Disk
begin

text \<open>
  The search for the root partition against the bytes of the disk: which table is refused, which
  partition is chosen and where the search stops.
\<close>

section \<open>Fields of a copied structure\<close>

lemma holds_slice:
  assumes "holds m a (disk_bytes d p n)" "k + l \<le> n"
  shows "holds m (a + of_nat k) (disk_bytes d (p + k) l)"
proof -
  have "n = k + l + (n - (k + l))" using assms(2) by simp
  then have "disk_bytes d p n = disk_bytes d p k @ disk_bytes d (p + k) l @ disk_bytes d (p + k + l) (n - (k + l))"
    by (metis disk_bytes_add add.assoc append_assoc)
  then show ?thesis using assms(1) by (simp add: holds_append)
qed

lemma load8_slice: "holds m a (disk_bytes d p n) \<Longrightarrow> k < n \<Longrightarrow> m (a + of_nat k) = d (p + k)"
  using holds_nth [of m a "disk_bytes d p n" k] by simp

lemma load16_slice:
  assumes "holds m a (disk_bytes d p n)" "k + 2 \<le> n"
  shows "load16 m (a + of_nat k) = le16_at d (p + k)"
  using load8_slice [OF assms(1), of k] load8_slice [OF assms(1), of "k + 1"] assms(2)
  by (simp add: load16_def le16_at_def ac_simps)

lemma load32_slice: "holds m a (disk_bytes d p n) \<Longrightarrow> k + 4 \<le> n \<Longrightarrow> load32 m (a + of_nat k) = le32_at d (p + k)"
  by (rule load32_holds, rule holds_slice)

text \<open>The machine is little-endian: making a field canonical changes nothing.\<close>

lemma load_bits:
  "ucast (load32 m a) = m a" "ucast (drop_bit 8 (load32 m a)) = m (a + 1)" "ucast (drop_bit 16 (load32 m a)) = m (a + 2)"
  "ucast (drop_bit 24 (load32 m a)) = m (a + 3)" "ucast (load16 m a) = m a" "ucast (drop_bit 8 (load16 m a)) = m (a + 1)"
  by (rule bit_word_eqI; simp add: load32_def load16_def bit_simps; auto dest: bit_imp_le_length)+

lemma fix_le_id [simp]: "fix_le32 a m = m" "fix_le16 a m = m"
  by (simp_all add: fix_le32_def fix_le16_def BL_LE32_def BL_LE16_def store32_def store16_def load_bits)

lemma canonicalize_superblock_eq:
  "canonicalize_superblock L m =
     (let m = store32 m (BiSuperblock L + 24) (load32 m (BiSuperblock L + 24) + 10)
      in if VersionMajor L m < 1
         then store32 (store32 (store32 (store16 m (BiSuperblock L + 88) 128) (BiSuperblock L + 92) 0) (BiSuperblock L + 96) 0) (BiSuperblock L + 100) 0
         else m)"
  by (simp only: canonicalize_superblock_def BL_LE32_def fix_le_id Let_def)

lemma store_span:
  "same_outside A m m' \<Longrightarrow> span a 4 \<subseteq> A \<Longrightarrow> same_outside A m (store32 m' a v)"
  "same_outside A m m' \<Longrightarrow> span a 2 \<subseteq> A \<Longrightarrow> same_outside A m (store16 m' a w)"
proof -
  show "same_outside A m m' \<Longrightarrow> span a 4 \<subseteq> A \<Longrightarrow> same_outside A m (store32 m' a v)"
    by (erule same_on_trans) (rule same_outside_mono [OF store32_same_outside])
  have "a \<in> span a 2" "a + 1 \<in> span a 2" using span_off [of 0 2 a] span_off [of 1 2 a] by simp_all
  then have "same_outside (span a 2) m' (store16 m' a w)" by (auto simp: same_on_def store16_def)
  then show "same_outside A m m' \<Longrightarrow> span a 2 \<subseteq> A \<Longrightarrow> same_outside A m (store16 m' a w)"
    by (elim same_on_trans) (rule same_outside_mono)
qed

lemma canonicalize_superblock_out: "same_outside (span (BiSuperblock L) 236) m (canonicalize_superblock L m)"
proof -
  have "span (BiSuperblock L + numeral k) 4 \<subseteq> span (BiSuperblock L) 236" if "numeral k + 4 \<le> (236 :: nat)" for k
    using span_sub_numeral [OF that] by simp
  moreover have "span (BiSuperblock L + numeral k) 2 \<subseteq> span (BiSuperblock L) 236" if "numeral k + 2 \<le> (236 :: nat)" for k
    using span_sub_numeral [OF that] by simp
  ultimately show ?thesis by (simp add: canonicalize_superblock_eq Let_def store_span)
qed

lemma canonical_fields:
  assumes "holds m (BiSuperblock L) (disk_bytes d p 236)"
  defines "m' \<equiv> canonicalize_superblock L m"
  shows "RequiredFeatures L m' = (if le32_at d (p + 76) = 0 then 0 else le32_at d (p + 96))"
    "SbInodeSize L m' = (if le32_at d (p + 76) = 0 then 128 else le16_at d (p + 88))"
proof -
  have f: "load32 m (BiSuperblock L + 76) = le32_at d (p + 76)" "load32 m (BiSuperblock L + 96) = le32_at d (p + 96)"
    "load16 m (BiSuperblock L + 88) = le16_at d (p + 88)"
    using load32_slice [OF assms(1), of 76] load32_slice [OF assms(1), of 96] load16_slice [OF assms(1), of 88] by simp_all
  let ?m = "store32 m (BiSuperblock L + 24) (load32 m (BiSuperblock L + 24) + 10)"
  have g: "load32 ?m (BiSuperblock L + 76) = le32_at d (p + 76)" "load32 ?m (BiSuperblock L + 96) = le32_at d (p + 96)"
    "load16 ?m (BiSuperblock L + 88) = le16_at d (p + 88)"
    unfolding f [symmetric] by (simp_all add: load32_def load16_def store32_def add.assoc)
  let ?n = "store32 (store32 (store32 (store16 ?m (BiSuperblock L + 88) 128) (BiSuperblock L + 92) 0) (BiSuperblock L + 96) 0) (BiSuperblock L + 100) 0"
  have n: "load32 ?n (BiSuperblock L + 96) = 0" "load16 ?n (BiSuperblock L + 88) = 128"
    by (simp_all only: load32_def load16_def store32_def store16_def fun_upd_apply) (simp_all add: add.assoc)
  have m': "m' = (if le32_at d (p + 76) = 0 then ?n else ?m)" unfolding m'_def canonicalize_superblock_eq Let_def VersionMajor_def g by simp
  show "RequiredFeatures L m' = (if le32_at d (p + 76) = 0 then 0 else le32_at d (p + 96))"
    "SbInodeSize L m' = (if le32_at d (p + 76) = 0 then 128 else le16_at d (p + 88))"
    unfolding m' RequiredFeatures_def SbInodeSize_def by (simp_all only: n g split: if_split) simp_all
qed

section \<open>Initialising the file system\<close>

text \<open>What the steps of the search leave alone.\<close>

definition search_kept :: "'b boot_statics_scheme \<Rightarrow> (nat \<Rightarrow> u8) \<Rightarrow> u32 \<Rightarrow> 'a fs_scheme \<Rightarrow> 'a fs_scheme \<Rightarrow> bool" where
  "search_kept L disk sectors s s' \<longleftrightarrow> (\<exists>is. cache_inv L disk sectors s' is)
     \<and> same_outside (span (BiSuperblock L) 236 \<union> cache_span L) (memory s) (memory s')
     \<and> BlHeapRanges s' = BlHeapRanges s \<and> BlFreeRanges s' = BlFreeRanges s \<and> BiOptions s' = BiOptions s"

lemma search_kept_trans: "search_kept L disk sectors s s' \<Longrightarrow> search_kept L disk sectors s' s'' \<Longrightarrow> search_kept L disk sectors s s''"
  unfolding search_kept_def by (elim conjE, intro conjI) (assumption, erule (1) same_on_trans, simp_all)

lemma print_some: "format_output format args \<noteq> None \<Longrightarrow> \<exists>out. print format args s = ret (s\<lparr>console := console s @ out\<rparr>)"
  by (auto simp: print_out)

lemma print_features: "\<exists>out. print (bytes ''BlFsInitialize: missing required filesystem features 0x%x'' @ [10]) [Word w] s = ret (s\<lparr>console := console s @ out\<rparr>)"
proof -
  have d: "directive (bytes ''x'' @ [10]) = Some (ch (CHR ''x''), 0, 0, [10])" by code_simp
  show ?thesis by (rule print_some) (use d in \<open>simp add: bytes_def conversion_def\<close>)
qed

lemma print_inode_size: "\<exists>out. print (bytes ''BlFsInitialize: inode size %u is not a power of two'' @ [10]) [Word w] s = ret (s\<lparr>console := console s @ out\<rparr>)"
proof -
  have d: "directive (bytes ''u is not a power of two'' @ [10]) = Some (ch (CHR ''u''), 0, 0, bytes '' is not a power of two'' @ [10])" by code_simp
  show ?thesis by (rule print_some) (use d in \<open>simp add: bytes_def conversion_def\<close>)
qed

lemma search_kept_write:
  assumes "fs_layout L" "search_kept L disk sectors s s'" "same_outside (span (BiSuperblock L) 236) (memory s') m"
  shows "search_kept L disk sectors s (s'\<lparr>memory := m\<rparr>)"
proof -
  obtain "is" where inv: "cache_inv L disk sectors s' is" using assms(2) by (auto simp: search_kept_def)
  have "span (BiSuperblock L) 236 \<inter> cache_span L = {}" using assms(1) by (auto simp: fs_layout_def)
  then have "same_on (cache_span L) (memory s') m" using same_outside_on [OF assms(3)] by blast
  then have "cache_inv L disk sectors (s'\<lparr>memory := m\<rparr>) is" using cache_inv_same(1) [OF inv, of "s'\<lparr>memory := m\<rparr>"] by simp
  moreover have "same_outside (span (BiSuperblock L) 236 \<union> cache_span L) (memory s) m"
    by (rule same_on_trans [OF _ same_outside_mono [OF assms(3)]]) (use assms(2) in \<open>auto simp: search_kept_def\<close>)
  ultimately show ?thesis using assms(2) by (auto simp: search_kept_def)
qed

lemma search_kept_console [simp]: "search_kept L disk sectors s (s'\<lparr>console := c\<rparr>) = search_kept L disk sectors s s'"
  by (simp add: search_kept_def cache_inv_def)

lemma search_kept_reads: "reads L disk sectors (span (BiSuperblock L) 236) s s' \<Longrightarrow> search_kept L disk sectors s s' \<and> BlRootPartition s' = BlRootPartition s"
  by (simp add: search_kept_def reads_def besides_cache_def)

lemma bind_run_ret_bind: "bind_run (bind_run r (\<lambda>s. ret (f s))) g = bind_run r (\<lambda>s. g (f s))"
  by (auto simp: bind_run_def ret_def split: Option.bind_splits sum.splits)

lemma False_implies: "False \<longrightarrow> P"
  by simp

context boot_disk
begin

lemma BlFsInitialize_out:
  assumes L: "fs_layout L" "fits (BiSuperblock L) 236" and inv: "cache_inv L disk sectors s is" and part: "partition_ok sectors s"
  defines "st \<equiv> unat (Start (BlRootPartition s))" and "r \<equiv> BlFsInitialize L read s"
  shows "if psize s < 1260 then r = crash ''tried to read beyond partition bounds''
    else (r = crash ''failed to read from disk'' \<and> (\<exists>sector count. fails sector count))
      \<or> (\<exists>s'. search_kept L disk sectors s s' \<and> BlRootPartition s' = BlRootPartition s
          \<and> r = (if superblock_ok disk st then bind_run (BiReadInode L read (BiRoot L) BI_ROOT_INODE (set_geometry L s')) (\<lambda>s. ret (True, s))
                else ret (False, s')))"
proof -
  have apart: "span (BiSuperblock L) (unat SIZEOF_BiSuperblock) \<inter> cache_span L = {}" "fits (BiSuperblock L) (unat SIZEOF_BiSuperblock)"
    using L by (auto simp: fs_layout_def SIZEOF_BiSuperblock_def)
  show ?thesis
  proof (cases "psize s < 1260")
    case True
    have "layout_ok L" using L by (simp add: fs_layout_def)
    from BlReadFromPartition_spec [OF this inv part apart(2,1), of False BI_SUPERBLOCK_OFFSET] True
    have "BlReadFromPartition L read (BiSuperblock L) BI_SUPERBLOCK_OFFSET SIZEOF_BiSuperblock False s = crash ''tried to read beyond partition bounds''"
      by (simp add: BI_SUPERBLOCK_OFFSET_def SIZEOF_BiSuperblock_def)
    then show ?thesis using True by (simp add: r_def BlFsInitialize_def)
  next
    case False
    have "unat BI_SUPERBLOCK_OFFSET + unat SIZEOF_BiSuperblock \<le> psize s"
      using False by (simp add: BI_SUPERBLOCK_OFFSET_def SIZEOF_BiSuperblock_def)
    from read_partition [where bypassCache = False, OF L(1) inv part apart(2,1) this False_implies] show ?thesis
    proof (elim disjE exE conjE, goal_cases)
      case 1
      then show ?case using False by (auto simp: r_def BlFsInitialize_def)
    next
      case (2 s1)
      have h: "holds (memory s1) (BiSuperblock L) (disk_bytes (part s) 1024 236)"
        using 2(3) by (simp add: BI_SUPERBLOCK_OFFSET_def SIZEOF_BiSuperblock_def)
      note K = search_kept_reads [OF 2(2) [unfolded SIZEOF_BiSuperblock_def, simplified]]
      have sig: "Signature L (memory s1) = le16_at disk (st + 1080)"
        using load16_slice [OF h, of 56] by (simp add: Signature_def le16_at_def st_def ac_simps)
      note C = canonical_fields [OF h]
      let ?s2 = "write_mem (canonicalize_superblock L) s1"
      have K2: "search_kept L disk sectors s ?s2" "BlRootPartition ?s2 = BlRootPartition s"
        using search_kept_write [OF L(1) conjunct1 [OF K] canonicalize_superblock_out] K by (simp_all add: write_mem_def)
      have f: "RequiredFeatures L (memory ?s2) = (if le32_at disk (st + 1100) = 0 then 0 else le32_at disk (st + 1120))"
        "SbInodeSize L (memory ?s2) = (if le32_at disk (st + 1100) = 0 then 128 else le16_at disk (st + 1112))"
        unfolding write_mem_def using C by (simp_all add: le16_at_def le32_at_def st_def ac_simps)
      have r': "r = (if le16_at disk (st + 1080) \<noteq> 0xef53 then ret (False, s1)
          else if RequiredFeatures L (memory ?s2) AND NOT 2 \<noteq> 0 then
            bind_run (print (bytes ''BlFsInitialize: missing required filesystem features 0x%x'' @ [10]) [Word (RequiredFeatures L (memory ?s2) AND NOT 2)] ?s2) (\<lambda>s. ret (False, s))
          else if (ucast (SbInodeSize L (memory ?s2)) :: u32) AND (ucast (SbInodeSize L (memory ?s2)) - 1) \<noteq> 0 then
            bind_run (print (bytes ''BlFsInitialize: inode size %u is not a power of two'' @ [10]) [Word (ucast (SbInodeSize L (memory ?s2)))] ?s2) (\<lambda>s. ret (False, s))
          else bind_run (BiReadInode L read (BiRoot L) BI_ROOT_INODE (set_geometry L ?s2)) (\<lambda>s. ret (True, s)))"
        unfolding r_def BlFsInitialize_def 2(1) bind_run_simps Let_def sig BL_LE16_def BI_SIGNATURE_def BI_RO_FEATURES_def BI_DIR_TYPES_def ..
      obtain o1 where o1: "print (bytes ''BlFsInitialize: missing required filesystem features 0x%x'' @ [10]) [Word (RequiredFeatures L (memory ?s2) AND NOT 2)] ?s2
          = ret (?s2\<lparr>console := console ?s2 @ o1\<rparr>)" using print_features by blast
      obtain o2 where o2: "print (bytes ''BlFsInitialize: inode size %u is not a power of two'' @ [10]) [Word (ucast (SbInodeSize L (memory ?s2)))] ?s2
          = ret (?s2\<lparr>console := console ?s2 @ o2\<rparr>)" using print_inode_size by blast
      have ok: "superblock_ok disk st \<longleftrightarrow> le16_at disk (st + 1080) = 0xef53 \<and> RequiredFeatures L (memory ?s2) AND NOT 2 = 0
          \<and> (ucast (SbInodeSize L (memory ?s2)) :: u32) AND (ucast (SbInodeSize L (memory ?s2)) - 1) = 0"
        unfolding superblock_ok_def f Let_def by (cases "le32_at disk (st + 1100) = 0") simp_all
      have "\<exists>s'. search_kept L disk sectors s s' \<and> BlRootPartition s' = BlRootPartition s
          \<and> r = (if superblock_ok disk st then bind_run (BiReadInode L read (BiRoot L) BI_ROOT_INODE (set_geometry L s')) (\<lambda>s. ret (True, s))
                else ret (False, s'))"
        unfolding ok r' o1 o2 bind_run_simps using K K2
        by (cases "le16_at disk (st + 1080) = 0xef53"; cases "RequiredFeatures L (memory ?s2) AND NOT 2 = 0";
            cases "(ucast (SbInodeSize L (memory ?s2)) :: u32) AND (ucast (SbInodeSize L (memory ?s2)) - 1) = 0") (force intro: exI [of _ s1] exI [of _ ?s2])+
      then show ?case using False by simp
    qed
  qed
qed

end

section \<open>The table in memory\<close>

lemma ucast_aa55: "ucast (w :: u16) = (0xaa55 :: u32) \<longleftrightarrow> w = 0xaa55"
proof -
  have "unat (ucast w :: u32) = unat w"
    using unsigned_less [where 'a = nat, of w] by (simp add: unsigned_ucast_eq take_bit_eq_mod)
  then show ?thesis by (auto simp: word_unat_eq_iff)
qed

definition search_layout :: "'b boot_statics_scheme \<Rightarrow> bool" where
  "search_layout L \<longleftrightarrow> fs_layout L \<and> fits (BiSuperblock L) 236 \<and> fits (local_mbr L) 72
     \<and> span (local_mbr L) 72 \<inter> (cache_span L \<union> span (BiSuperblock L) 236) = {}"

abbreviation table_read :: "'b boot_statics_scheme \<Rightarrow> (nat \<Rightarrow> u8) \<Rightarrow> mem \<Rightarrow> bool" where
  "table_read L disk m \<equiv> holds m (local_mbr L) (disk_bytes disk 440 72)"

lemma table_fields:
  assumes "table_read L disk m" "i < 4"
  shows "BootIndicator m (partition_at L i) = disk (slot_pos i)" "PartitionType m (partition_at L i) = disk (slot_pos i + 4)"
    "StartingLba m (partition_at L i) = le32_at disk (slot_pos i + 8)" "SizeInLba m (partition_at L i) = le32_at disk (slot_pos i + 12)"
    "MbrSignature L m = le16_at disk 510"
proof -
  have p: "partition_at L i = local_mbr L + of_nat (6 + 16 * i)" by (simp add: partition_at_def SIZEOF_MbrPartition_def add.assoc)
  have a: "local_mbr L + of_nat (6 + 16 * i) + numeral k = local_mbr L + of_nat (6 + 16 * i + numeral k)" for k
    by (simp add: add.assoc)
  show "BootIndicator m (partition_at L i) = disk (slot_pos i)"
    using load8_slice [OF assms(1), of "6 + 16 * i"] assms(2) unfolding p by (simp add: BootIndicator_def slot_pos_def)
  show "PartitionType m (partition_at L i) = disk (slot_pos i + 4)"
    using load8_slice [OF assms(1), of "6 + 16 * i + 4"] assms(2) unfolding p PartitionType_def a by (simp add: slot_pos_def)
  show "StartingLba m (partition_at L i) = le32_at disk (slot_pos i + 8)"
    using load32_slice [OF assms(1), of "6 + 16 * i + 8"] assms(2) unfolding p StartingLba_def a by (simp add: slot_pos_def)
  show "SizeInLba m (partition_at L i) = le32_at disk (slot_pos i + 12)"
    using load32_slice [OF assms(1), of "6 + 16 * i + 12"] assms(2) unfolding p SizeInLba_def a by (simp add: slot_pos_def)
  show "MbrSignature L m = le16_at disk 510"
    using load16_slice [OF assms(1), of 70] by (simp add: MbrSignature_def)
qed

lemma sectors_bytes: "unat (push_bit BL_SECTOR_SHIFT (ucast (x :: u32)) :: u64) = 512 * unat x"
proof -
  have "512 * unat x < 2 ^ 64" using unat_lt32 [of x] by simp
  then show ?thesis
    by (simp add: cache_consts push_bit_eq_mult unat_word_ariths unat_ucast64)
qed

definition slot_partition :: "(nat \<Rightarrow> u8) \<Rightarrow> nat \<Rightarrow> BlPartition" where
  "slot_partition disk i = \<lparr>Start = of_nat (slot_start disk i), PartSize = of_nat (slot_size disk i)\<rparr>"

lemma slot_partition_eq:
  "slot_partition disk i = \<lparr>Start = push_bit BL_SECTOR_SHIFT (ucast (le32_at disk (slot_pos i + 8))),
     PartSize = push_bit BL_SECTOR_SHIFT (ucast (le32_at disk (slot_pos i + 12)))\<rparr>"
  unfolding slot_partition_def slot_start_def slot_size_def sectors_bytes [symmetric] by simp

lemma slot_partition_unat:
  "unat (Start (slot_partition disk i)) = slot_start disk i" "unat (PartSize (slot_partition disk i)) = slot_size disk i"
  unfolding slot_partition_eq by (simp_all only: BlPartition.simps sectors_bytes slot_start_def slot_size_def)

lemma slot_partition_ok:
  assumes "slot_start disk i + slot_size disk i \<le> 512 * unat sectors"
  shows "partition_ok sectors (s\<lparr>BlRootPartition := slot_partition disk i\<rparr>)"
proof -
  have "push_bit 9 x AND BL_SECTOR_MASK = 0" for x :: u64
  proof -
    have "BL_SECTOR_MASK = (mask 9 :: u64)" by (simp add: cache_consts mask_eq_exp_minus_1)
    show ?thesis unfolding \<open>BL_SECTOR_MASK = mask 9\<close> by (rule bit_word_eqI) (auto simp: bit_simps)
  qed
  then have "Start (slot_partition disk i) AND BL_SECTOR_MASK = 0" unfolding slot_partition_eq by (simp add: BL_SECTOR_SHIFT_def)
  then show ?thesis using assms by (simp add: partition_ok_def slot_partition_unat)
qed

definition slots_in_disk :: "(nat \<Rightarrow> u8) \<Rightarrow> u32 \<Rightarrow> bool" where
  "slots_in_disk disk sectors \<longleftrightarrow> (\<forall>i<4. used_slot disk i \<longrightarrow> slot_start disk i + slot_size disk i \<le> 512 * unat sectors)"

lemma search_kept_table:
  assumes "search_layout L" "search_kept L disk sectors s s'" "table_read L disk (memory s)"
  shows "table_read L disk (memory s')"
proof -
  have "same_outside (span (BiSuperblock L) 236 \<union> cache_span L) (memory s) (memory s')" using assms(2) by (simp add: search_kept_def)
  moreover have "(span (BiSuperblock L) 236 \<union> cache_span L) \<inter> span (local_mbr L) 72 = {}" using assms(1) by (auto simp: search_layout_def)
  ultimately have "same_on (span (local_mbr L) 72) (memory s) (memory s')" by (rule same_outside_on)
  then show ?thesis using holds_same [OF assms(3)] by simp
qed

text \<open>Where the search arrives.\<close>

definition search_ends ::
    "'b boot_statics_scheme \<Rightarrow> disk_read \<Rightarrow> (nat \<Rightarrow> u8) \<Rightarrow> u32 \<Rightarrow> search \<Rightarrow> 'a fs_scheme \<Rightarrow> 'a fs_scheme run \<Rightarrow> bool" where
  "search_ends L read disk sectors found s r \<longleftrightarrow> (case found of
     No_partition \<Rightarrow> r = crash ''failed to find root partition''
   | Out_of_bounds \<Rightarrow> r = crash ''tried to read beyond partition bounds''
   | At i \<Rightarrow> \<exists>s'. i < 4 \<and> search_kept L disk sectors s s' \<and> BlRootPartition s' = slot_partition disk i
       \<and> r = bind_run (BiReadInode L read (BiRoot L) BI_ROOT_INODE (set_geometry L s')) (use_partition L read (try_partitions L read (3 - i))))"

context boot_disk
begin

lemma try_partitions_out:
  assumes lay: "search_layout L" and ok: "slots_in_disk disk sectors"
  shows "n \<le> 4 \<Longrightarrow> cache_inv L disk sectors s is \<Longrightarrow> table_read L disk (memory s) \<Longrightarrow>
    (try_partitions L read n s = crash ''failed to read from disk'' \<and> (\<exists>sector count. fails sector count))
      \<or> search_ends L read disk sectors (root_search disk [4 - n..<4]) s (try_partitions L read n s)"
proof (induction n arbitrary: s "is")
  case 0
  then show ?case by (simp add: search_ends_def)
next
  case (Suc n)
  obtain i where e: "4 - Suc n = i" and e': "4 - n = Suc i" "3 - i = n" and i: "i < 4" using Suc.prems(1) by (intro that [of "4 - Suc n"]) auto
  have up: "[4 - Suc n..<4] = i # [4 - n..<4]" using i unfolding e e' by (simp add: upt_conv_Cons)
  note F = table_fields [OF Suc.prems(3) i]
  have used: "used_slot disk i \<longleftrightarrow> \<not> (PartitionType (memory s) (partition_at L i) = 0 \<or> BL_LE32 (SizeInLba (memory s) (partition_at L i)) = 0)"
    unfolding used_slot_def F BL_LE32_def by blast
  show ?case
  proof (cases "used_slot disk i")
    case False
    then have "try_partitions L read (Suc n) s = try_partitions L read n s" using used unfolding try_partitions.simps e by (auto simp: Let_def)
    then show ?thesis using Suc.IH [OF _ Suc.prems(2,3)] Suc.prems(1) False unfolding up by simp
  next
    case True
    let ?s = "s\<lparr>BlRootPartition := slot_partition disk i\<rparr>"
    have step: "try_partitions L read (Suc n) s = bind_run (BlFsInitialize L read ?s) (\<lambda>(initialized, s).
        if \<not> initialized then try_partitions L read n s else use_partition L read (try_partitions L read n) s)"
      using True [unfolded used] unfolding try_partitions.simps Let_def slot_partition_eq e F BL_LE32_def by simp
    have inv: "cache_inv L disk sectors ?s is" using Suc.prems(2) by (simp add: cache_inv_def)
    have po: "partition_ok sectors ?s" by (rule slot_partition_ok) (use ok i True in \<open>auto simp: slots_in_disk_def\<close>)
    have L': "fs_layout L" "fits (BiSuperblock L) 236" using lay by (simp_all add: search_layout_def)
    have f: "unat (Start (BlRootPartition ?s)) = slot_start disk i" "psize ?s = slot_size disk i" "BlRootPartition ?s = slot_partition disk i"
      by (simp_all add: slot_partition_unat)
    note I = BlFsInitialize_out [OF L' inv po, unfolded f(3) slot_partition_unat]
    have kept: "search_kept L disk sectors s s'" if "search_kept L disk sectors ?s s'" for s' using that by (simp add: search_kept_def)
    show ?thesis
    proof (cases "slot_size disk i < 1260")
      case small: True
      then show ?thesis using I step True unfolding up search_ends_def by (simp del: try_partitions.simps)
    next
      case False
      with I consider "BlFsInitialize L read ?s = crash ''failed to read from disk''" "\<exists>sector count. fails sector count"
        | s' where "search_kept L disk sectors ?s s'" "BlRootPartition s' = slot_partition disk i"
            "BlFsInitialize L read ?s = (if superblock_ok disk (slot_start disk i)
              then bind_run (BiReadInode L read (BiRoot L) BI_ROOT_INODE (set_geometry L s')) (\<lambda>s. ret (True, s)) else ret (False, s'))"
        by auto
      then show ?thesis
      proof cases
        case 1
        then show ?thesis unfolding step by simp
      next
        case (2 s')
        note K = kept [OF 2(1)]
        show ?thesis
        proof (cases "superblock_ok disk (slot_start disk i)")
          case sb: True
          have "try_partitions L read (Suc n) s = bind_run (BiReadInode L read (BiRoot L) BI_ROOT_INODE (set_geometry L s'))
              (use_partition L read (try_partitions L read (3 - i)))"
            unfolding step 2(3) if_P [OF sb] e' by (simp add: bind_run_ret_bind)
          then show ?thesis using K 2(2) i True False sb unfolding up search_ends_def by (auto simp del: try_partitions.simps)
        next
          case sb: False
          obtain is' where inv': "cache_inv L disk sectors s' is'" using K by (auto simp: search_kept_def)
          have "try_partitions L read (Suc n) s = try_partitions L read n s'" unfolding step 2(3) if_not_P [OF sb] by simp
          moreover have "root_search disk [4 - Suc n..<4] = root_search disk [4 - n..<4]" using True False sb unfolding up by simp
          moreover note Suc.IH [OF _ inv' search_kept_table [OF lay K Suc.prems(3)]]
          moreover have "search_ends L read disk sectors found s r" if "search_ends L read disk sectors found s' r" for found r
            using that search_kept_trans [OF K] unfolding search_ends_def by (auto split: search.splits)
          ultimately show ?thesis using Suc.prems(1) by auto
        qed
      qed
    qed
  qed
qed

lemma BlFindRootPartition_out:
  assumes lay: "search_layout L" and ok: "slots_in_disk disk sectors" and inv: "cache_inv L disk sectors s is" and n: "1 \<le> unat sectors"
  defines "r \<equiv> BlFindRootPartition L read s"
  shows "(r = crash ''failed to read from disk'' \<and> (\<exists>sector count. fails sector count))
    \<or> (if mbr_ok disk then \<exists>s1. (\<exists>is. cache_inv L disk sectors s1 is)
          \<and> same_outside (span (local_mbr L) 72 \<union> cache_span L) (memory s) (memory s1)
          \<and> BlHeapRanges s1 = BlHeapRanges s \<and> BlFreeRanges s1 = BlFreeRanges s \<and> BiOptions s1 = BiOptions s
          \<and> search_ends L read disk sectors (root_search disk [0..<4]) s1 r
       else r = crash ''invalid mbr'')"
proof -
  obtain out where out: "print (bytes ''Searching for root partition'' @ [10]) [] s = ret (s\<lparr>console := console s @ out\<rparr>)"
    using print_some [of "bytes ''Searching for root partition'' @ [10]" "[]" s] by (auto simp: bytes_def)
  let ?s = "s\<lparr>console := console s @ out\<rparr>"
  have L: "layout_ok L" and buf: "fits (local_mbr L) (unat SIZEOF_Mbr)" "span (local_mbr L) (unat SIZEOF_Mbr) \<inter> cache_span L = {}"
    using lay by (auto simp: search_layout_def fs_layout_def SIZEOF_Mbr_def)
  have inv0: "cache_inv L disk sectors ?s is" using inv by (simp add: cache_inv_def)
  have "unat BI_MBR_OFFSET + unat SIZEOF_Mbr \<le> 512 * unat sectors" using n by (simp add: BI_MBR_OFFSET_def SIZEOF_Mbr_def)
  from BiReadFromDisk_spec [where bypassCache = False, OF L inv0 buf this False_implies] show ?thesis
    unfolding fetched_def
  proof (elim disjE exE conjE, goal_cases)
    case 1
    then show ?case by (auto simp: r_def BlFindRootPartition_def out)
  next
    case (2 s1)
    have U: "unat BI_MBR_OFFSET = 440" "unat SIZEOF_Mbr = 72" by (simp_all add: BI_MBR_OFFSET_def SIZEOF_Mbr_def)
    from 2(2) obtain is1 where f: "cache_inv L disk sectors s1 is1" "table_read L disk (memory s1)"
      "same_outside (span (local_mbr L) 72 \<union> cache_span L) (memory s) (memory s1)" "besides_cache s1 = besides_cache ?s"
      unfolding U by (auto elim!: filledE)
    note F = table_fields [OF f(2)]
    have r: "r = (if BL_LE32 (ucast (MbrSignature L (memory s1))) \<noteq> BI_MBR_SIGNATURE then crash ''invalid mbr''
       else if \<exists>i\<in>{0..<4}. BootIndicator (memory s1) (partition_at L i) \<noteq> 0 \<and> BootIndicator (memory s1) (partition_at L i) \<noteq> 0x80
       then crash ''invalid mbr''
       else try_partitions L read 4 s1)"
      unfolding r_def BlFindRootPartition_def out bind_run_simps 2(1) ..
    have sig: "BL_LE32 (ucast (MbrSignature L (memory s1))) = BI_MBR_SIGNATURE \<longleftrightarrow> le16_at disk 510 = 0xaa55"
    proof -
      have "ucast w = (0xaa55 :: u32) \<longleftrightarrow> w = 0xaa55" for w :: u16
        by (rule ucast_aa55)
      then show ?thesis using F(5) [of 0] by (simp add: BL_LE32_def BI_MBR_SIGNATURE_def)
    qed
    have ind: "(\<exists>i\<in>{0..<4}. BootIndicator (memory s1) (partition_at L i) \<noteq> 0 \<and> BootIndicator (memory s1) (partition_at L i) \<noteq> 0x80)
        \<longleftrightarrow> \<not> (\<forall>i<4. disk (slot_pos i) = 0 \<or> disk (slot_pos i) = 0x80)"
      using F(1) by auto
    show ?case
    proof (cases "mbr_ok disk")
      case False
      then show ?thesis unfolding r ind using sig by (auto simp: mbr_ok_def)
    next
      case True
      then have "r = try_partitions L read 4 s1" unfolding r ind using sig by (auto simp: mbr_ok_def simp del: try_partitions.simps)
      moreover have "BlHeapRanges s1 = BlHeapRanges s" "BlFreeRanges s1 = BlFreeRanges s" "BiOptions s1 = BiOptions s"
        using f(4) by (simp_all add: besides_cache_def)
      ultimately show ?thesis using try_partitions_out [OF lay ok, of 4 s1 is1] f True by auto
    qed
  qed
qed

end

section \<open>Properties\<close>


section \<open>A disk\<close>

text \<open>Two slots are used: the first starts at sector 32 and holds no file system, the third at sector 1 and has a superblock.\<close>

definition some_disk :: "nat \<Rightarrow> u8" where
  "some_disk p = (case map_of [(510, 0x55), (511, 0xaa), (450, 0x83), (454, 32), (458, 8), (482, 0x83), (486, 1), (490, 8),
     (1592, 0x53), (1593, 0xef)] p of None \<Rightarrow> 0 | Some b \<Rightarrow> b)"

definition search_statics :: "boot_statics \<Rightarrow> boot_statics" where
  "search_statics L = L\<lparr>BiBCacheMeta := 0x10000, BiBCacheData := 0x20000, BiSuperblock := 0x40000, local_value := 0x43000, local_mbr := 0x48000\<rparr>"

lemma search_statics_ok: "search_layout (search_statics L)"
proof -
  have "layout_ok (search_statics L)" using some_statics_ok by (simp add: layout_ok_def search_statics_def some_statics_def)
  moreover have "cache_span (search_statics L) = span 0x10000 384 \<union> span 0x20000 65536"
    by (simp add: cache_span_def search_statics_def)
  moreover have "span 0x10000 384 \<inter> span 0x43000 4 = {}" "span 0x20000 65536 \<inter> span 0x43000 4 = {}" "span 0x10000 384 \<inter> span 0x40000 236 = {}"
    "span 0x20000 65536 \<inter> span 0x40000 236 = {}" "span 0x40000 236 \<inter> span 0x43000 4 = {}" "span 0x10000 384 \<inter> span 0x48000 72 = {}"
    "span 0x20000 65536 \<inter> span 0x48000 72 = {}" "span 0x40000 236 \<inter> span 0x48000 72 = {}"
    by (rule span_disjoint; simp add: fits_def)+
  ultimately show ?thesis unfolding search_layout_def fs_layout_def by (auto simp: search_statics_def fits_def)
qed

lemma some_disk_table:
  "mbr_ok some_disk" "slots_in_disk some_disk 64" "root_search some_disk [0..<4] = At 2" "slot_partition some_disk 2 = \<lparr>Start = 512, PartSize = 4096\<rparr>"
proof -
  have all: "(\<forall>i<4. P i) \<longleftrightarrow> P 0 \<and> P 1 \<and> P 2 \<and> P (3 :: nat)" for P by (auto simp: less_Suc_eq numeral_eq_Suc)
  note D = some_disk_def slot_pos_def le16_at_def le32_at_def used_slot_def slot_start_def slot_size_def superblock_ok_def
  show "mbr_ok some_disk" by (simp add: mbr_ok_def all D)
  show "slots_in_disk some_disk 64" by (simp add: slots_in_disk_def all D)
  have up: "[0..<4] = [0, 1, 2, 3 :: nat]" by (simp add: upt_rec)
  show "root_search some_disk [0..<4] = At 2" by (simp add: up D)
  show "slot_partition some_disk 2 = \<lparr>Start = 512, PartSize = 4096\<rparr>" by (simp add: slot_partition_def D)
qed


end
