(* ===== verification/Other_Cpus.thy ===== *)
theory Other_Cpus
  imports Prelude
begin

text \<open>
  The start on the other processors, \<^verbatim>\<open>bootloader/a4x/a4x.c\<close>: the boot processor kicks every other one that is
  present and waits until each has taken over what is on its stack. The processors take turns in any order;
  memory is sequentially consistent, as the barrier and the atomic operations of the code demand, and a
  store conditional succeeds exactly if nothing was stored since the load it is linked to. \<open>KickProcessor\<close> is a call of
  the firmware, which starts the callback on the processor.
\<close>

section \<open>The console\<close>

definition BxPrintCharacter :: "(u32 \<Rightarrow> 'w \<Rightarrow> 'w) \<Rightarrow> u8 \<Rightarrow> 'w \<Rightarrow> 'w" where
  "BxPrintCharacter PutCharacter c = PutCharacter (ucast c)"

section \<open>Processors\<close>

text \<open>
  Where a processor is in \<open>BxKickProcessorHandler\<close>: not kicked, at its start, with \<open>func\<close> loaded, with both loaded and
  at the label, after the linked load, behind the loop, in the function, which is represented by its value.
\<close>

datatype ('c, 'r) handler =
    Parked
  | Entered
  | Loaded "'c \<Rightarrow> 'r"
  | Retry "'c \<Rightarrow> 'r" 'c
  | Linked "'c \<Rightarrow> 'r" 'c u32
  | Counted "'c \<Rightarrow> 'r" 'c
  | Called 'r

text \<open>Where the boot processor is: in the loop over the processors, in the waiting loop, or back.\<close>

datatype boss = Kicking nat | Waiting | Returned

text \<open>\<open>struct BxKickProcessorData\<close> with the processors.\<close>

record ('c, 'r) BxKickProcessorData =
  func :: "'c \<Rightarrow> 'r"
  ctx :: 'c
  numFinished :: u32

record ('c, 'r) kick = "('c, 'r) BxKickProcessorData" +
  reserved :: "nat set"
  handler :: "nat \<Rightarrow> ('c, 'r) handler"
  boss :: boss

definition move :: "nat \<Rightarrow> ('c, 'r) handler \<Rightarrow> ('c, 'r) kick \<Rightarrow> ('c, 'r) kick" where
  "move i h s = s\<lparr>handler := (handler s)(i := h)\<rparr>"

text \<open>One step of processor \<open>i\<close> in the handler.\<close>

definition BxKickProcessorHandler :: "nat \<Rightarrow> ('c, 'r) kick \<Rightarrow> ('c, 'r) kick option" where
  "BxKickProcessorHandler i s =
     (case handler s i of
        Parked \<Rightarrow> None
      | Entered \<Rightarrow> Some (move i (Loaded (func s)) s)
      | Loaded f \<Rightarrow> Some (move i (Retry f (ctx s)) s)
      | Retry f c \<Rightarrow> Some (move i (Linked f c (numFinished s)) s\<lparr>reserved := insert i (reserved s)\<rparr>)
      | Linked f c scratch \<Rightarrow>
          if i \<in> reserved s then Some (move i (Counted f c) s\<lparr>numFinished := scratch + 1, reserved := {}\<rparr>)
          else Some (move i (Retry f c) s)
      | Counted f c \<Rightarrow> Some (move i (Called (f c)) s)
      | Called r \<Rightarrow> None)"

text \<open>The machine: the boot processor's number, and which of the eight processors are present.\<close>

record cpus =
  self :: nat
  is_present :: "nat \<Rightarrow> bool"

text \<open>One step of the boot processor; \<open>run_on_others\<close> are the loops of \<open>BxRunOnOtherCpus\<close>.\<close>

definition run_on_others :: "cpus \<Rightarrow> u32 \<Rightarrow> ('c, 'r) kick \<Rightarrow> ('c, 'r) kick option" where
  "run_on_others C respondCount s =
     (case boss s of
        Kicking i \<Rightarrow>
          if i < 8 then
            if i = self C \<or> \<not> is_present C i then Some (s\<lparr>boss := Kicking (i + 1)\<rparr>)
            else Some (move i Entered s\<lparr>boss := Kicking (i + 1)\<rparr>)
          else Some (s\<lparr>boss := Waiting\<rparr>)
      | Waiting \<Rightarrow> Some (if numFinished s < respondCount then s else s\<lparr>boss := Returned\<rparr>)
      | Returned \<Rightarrow> None)"

text \<open>\<open>BxRunOnOtherCpus\<close> returns at once if there is no other processor; otherwise this is where it starts.\<close>

definition BxRunOnOtherCpus :: "u32 \<Rightarrow> ('c \<Rightarrow> 'r) \<Rightarrow> 'c \<Rightarrow> ('c, 'r) kick option" where
  "BxRunOnOtherCpus BxNumCpus f c =
     (let respondCount = BxNumCpus - 1
      in if respondCount = 0 then None
         else Some \<lparr>func = f, ctx = c, numFinished = 0, reserved = {}, handler = (\<lambda>_. Parked), boss = Kicking 0\<rparr>)"

inductive kick_step :: "cpus \<Rightarrow> u32 \<Rightarrow> ('c, 'r) kick \<Rightarrow> ('c, 'r) kick \<Rightarrow> bool" for C BxNumCpus where
  boss_moves: "run_on_others C (BxNumCpus - 1) s = Some s' \<Longrightarrow> kick_step C BxNumCpus s s'"
| other_moves: "BxKickProcessorHandler i s = Some s' \<Longrightarrow> kick_step C BxNumCpus s s'"

inductive reached :: "cpus \<Rightarrow> u32 \<Rightarrow> ('c \<Rightarrow> 'r) \<Rightarrow> 'c \<Rightarrow> ('c, 'r) kick \<Rightarrow> bool" for C BxNumCpus f c where
  start: "BxRunOnOtherCpus BxNumCpus f c = Some s \<Longrightarrow> reached C BxNumCpus f c s"
| onward: "reached C BxNumCpus f c s \<Longrightarrow> kick_step C BxNumCpus s s' \<Longrightarrow> reached C BxNumCpus f c s'"

section \<open>The invariant\<close>

text \<open>The processors to be kicked; the number the firmware's table gives is right.\<close>

definition others :: "cpus \<Rightarrow> nat set" where "others C = {i. i < 8 \<and> i \<noteq> self C \<and> is_present C i}"

definition cpus_ok :: "cpus \<Rightarrow> u32 \<Rightarrow> bool" where
  "cpus_ok C n \<longleftrightarrow> self C < 8 \<and> is_present C (self C) \<and> n = of_nat (card {i. i < 8 \<and> is_present C i})"

lemma others_le: "finite (others C)" "card (others C) \<le> 8"
proof -
  have sub: "others C \<subseteq> {..<8}" by (auto simp: others_def)
  show "finite (others C)" by (rule finite_subset [OF sub]) simp
  show "card (others C) \<le> 8" using card_mono [OF _ sub] by simp
qed

lemma cpus_ok_count: "cpus_ok C n \<Longrightarrow> unat (n - 1) = card (others C)"
proof -
  assume ok: "cpus_ok C n"
  then have "{i. i < 8 \<and> is_present C i} = insert (self C) (others C)" by (auto simp: cpus_ok_def others_def)
  then have "card {i. i < 8 \<and> is_present C i} = Suc (card (others C))" using others_le(1) by (simp add: others_def)
  then have "n - 1 = of_nat (card (others C))" using ok by (simp add: cpus_ok_def)
  then show ?thesis using others_le(2) [of C] by (simp add: unat_of_nat take_bit_eq_mod)
qed

definition kicked :: "cpus \<Rightarrow> boss \<Rightarrow> nat set" where
  "kicked C b = (case b of Kicking k \<Rightarrow> {i \<in> others C. i < k} | _ \<Rightarrow> others C)"

definition counted :: "('c, 'r) handler \<Rightarrow> bool" where
  "counted h \<longleftrightarrow> (case h of Counted _ _ \<Rightarrow> True | Called _ \<Rightarrow> True | _ \<Rightarrow> False)"

definition handler_ok :: "('c \<Rightarrow> 'r) \<Rightarrow> 'c \<Rightarrow> u32 \<Rightarrow> bool \<Rightarrow> ('c, 'r) handler \<Rightarrow> bool" where
  "handler_ok f c n res h \<longleftrightarrow>
     (case h of Parked \<Rightarrow> True | Entered \<Rightarrow> True | Loaded f' \<Rightarrow> f' = f | Retry f' c' \<Rightarrow> f' = f \<and> c' = c
      | Linked f' c' v \<Rightarrow> f' = f \<and> c' = c \<and> (res \<longrightarrow> v = n) | Counted f' c' \<Rightarrow> f' = f \<and> c' = c | Called r \<Rightarrow> r = f c)"

definition kick_inv :: "cpus \<Rightarrow> u32 \<Rightarrow> ('c \<Rightarrow> 'r) \<Rightarrow> 'c \<Rightarrow> ('c, 'r) kick \<Rightarrow> bool" where
  "kick_inv C n f c s \<longleftrightarrow> func s = f \<and> ctx s = c \<and> numFinished s = of_nat (card {i. counted (handler s i)})
     \<and> {i. handler s i \<noteq> Parked} = kicked C (boss s) \<and> (\<forall>i. handler_ok f c (numFinished s) (i \<in> reserved s) (handler s i))
     \<and> (boss s = Returned \<longrightarrow> n - 1 \<le> numFinished s)"

lemma kick_invD:
  assumes "kick_inv C n f c s"
  shows "func s = f" "ctx s = c" "numFinished s = of_nat (card {i. counted (handler s i)})" "{i. handler s i \<noteq> Parked} = kicked C (boss s)"
    "handler_ok f c (numFinished s) (i \<in> reserved s) (handler s i)" "boss s = Returned \<Longrightarrow> n - 1 \<le> numFinished s"
  using assms unfolding kick_inv_def by blast+

lemma handler_ok_simps [simp]:
  "handler_ok f c n res Parked" "handler_ok f c n res Entered" "handler_ok f c n res (Loaded f') \<longleftrightarrow> f' = f"
  "handler_ok f c n res (Retry f' c') \<longleftrightarrow> f' = f \<and> c' = c"
  "handler_ok f c n res (Linked f' c' v) \<longleftrightarrow> f' = f \<and> c' = c \<and> (res \<longrightarrow> v = n)"
  "handler_ok f c n res (Counted f' c') \<longleftrightarrow> f' = f \<and> c' = c" "handler_ok f c n res (Called r) \<longleftrightarrow> r = f c"
  by (simp_all add: handler_ok_def)

lemma handler_ok_unreserved: "handler_ok f c n res h \<Longrightarrow> handler_ok f c n' False h"
  by (cases h) auto

lemma counted_simps [simp]:
  "\<not> counted Parked" "\<not> counted Entered" "\<not> counted (Loaded f)" "\<not> counted (Retry f c)" "\<not> counted (Linked f c v)"
  "counted (Counted f c)" "counted (Called r)"
  by (simp_all add: counted_def)

lemma counted_subset: "kick_inv C n f c s \<Longrightarrow> {i. counted (handler s i)} \<subseteq> kicked C (boss s)"
  by (auto simp: kick_inv_def counted_def split: handler.splits)

lemma kicked_le: "kicked C b \<subseteq> others C"
  by (auto simp: kicked_def split: boss.splits)

lemma counted_finite: "kick_inv C n f c s \<Longrightarrow> finite {i. counted (handler s i)} \<and> card {i. counted (handler s i)} \<le> card (others C)"
  using counted_subset kicked_le others_le(1) by (metis card_mono finite_subset subset_trans)

lemma kick_inv_start: "BxRunOnOtherCpus n f c = Some s \<Longrightarrow> kick_inv C n f c s"
  by (auto simp: BxRunOnOtherCpus_def kick_inv_def kicked_def Let_def split: if_splits)

lemma move_simps [simp]:
  "handler (move i h s) = (handler s)(i := h)" "func (move i h s) = func s" "ctx (move i h s) = ctx s" "numFinished (move i h s) = numFinished s"
  "reserved (move i h s) = reserved s" "boss (move i h s) = boss s"
  by (simp_all add: move_def)

lemma move_keeps_reserved: "move i h s\<lparr>reserved := reserved s\<rparr> = move i h s"
  by (cases s) (simp add: move_def)

text \<open>A step that counts nobody.\<close>

lemma kick_inv_move:
  assumes inv: "kick_inv C n f c s" and h: "handler s i \<noteq> Parked" "h \<noteq> Parked" "counted h = counted (handler s i)"
    and ok: "handler_ok f c (numFinished s) (i \<in> R) h" and R: "\<And>j. j \<noteq> i \<Longrightarrow> j \<in> R \<longleftrightarrow> j \<in> reserved s"
  shows "kick_inv C n f c (move i h s\<lparr>reserved := R\<rparr>)"
proof -
  have "{j. counted (((handler s)(i := h)) j)} = {j. counted (handler s j)}" "{j. ((handler s)(i := h)) j \<noteq> Parked} = {j. handler s j \<noteq> Parked}"
    using h by auto
  then show ?thesis using inv ok R by (auto simp: kick_inv_def)
qed

text \<open>The store conditional that succeeds.\<close>

lemma kick_inv_count:
  assumes inv: "kick_inv C n f c s" and h: "handler s i = Linked f c v" "i \<in> reserved s"
  shows "kick_inv C n f c (move i (Counted f c) s\<lparr>numFinished := v + 1, reserved := {}\<rparr>)"
proof -
  have v: "v = numFinished s" using kick_invD(5) [OF inv, of i] h by simp
  let ?N = "{j. counted (handler s j)}"
  have i: "i \<notin> ?N" using h by simp
  define g where "g = (handler s)(i := Counted f c)"
  have N: "{j. counted (g j)} = insert i ?N" by (auto simp: g_def)
  have "{j. g j \<noteq> Parked} = {j. handler s j \<noteq> Parked}" using h by (auto simp: g_def)
  then have "{j. g j \<noteq> Parked} = kicked C (boss s)" using kick_invD(4) [OF inv] by simp
  moreover have "v + 1 = of_nat (card (insert i ?N))" using counted_finite [OF inv] i v inv by (simp add: kick_inv_def)
  moreover have "handler_ok f c (v + 1) False (g j)" for j using handler_ok_unreserved [OF kick_invD(5) [OF inv]] by (simp add: g_def)
  moreover have "n - 1 \<le> v + 1" if "boss s = Returned"
  proof -
    have le: "unat (n - 1) \<le> card ?N"
    proof -
      have "card ?N \<le> 8" using counted_finite [OF inv] others_le(2) [of C] by linarith
      then have "unat (numFinished s) = card ?N" using inv by (simp add: kick_inv_def unat_of_nat take_bit_eq_mod)
      moreover have "n - 1 \<le> numFinished s" by (rule kick_invD(6) [OF inv that])
      ultimately show ?thesis by (simp add: word_le_nat_alt)
    qed
    have "unat (v + 1) = Suc (card ?N)"
    proof -
      have "Suc (card ?N) \<le> 9" using counted_finite [OF inv] others_le(2) [of C] by linarith
      moreover have "v + 1 = of_nat (Suc (card ?N))" using v inv by (simp add: kick_inv_def)
      ultimately show ?thesis by (simp only: unat_of_nat take_bit_eq_mod) simp
    qed
    then show ?thesis using le by (simp add: word_le_nat_alt)
  qed
  ultimately have "kick_inv C n f c (s\<lparr>handler := g, numFinished := v + 1, reserved := {}\<rparr>)"
    unfolding kick_inv_def using kick_invD(1,2) [OF inv] by (simp add: N)
  then show ?thesis by (simp add: move_def g_def)
qed

lemma kick_inv_other:
  assumes inv: "kick_inv C n f c s" and step: "BxKickProcessorHandler i s = Some s'"
  shows "kick_inv C n f c s'"
proof -
  have ok: "handler_ok f c (numFinished s) (i \<in> reserved s) (handler s i)" and fc: "func s = f" "ctx s = c" using inv by (auto simp: kick_inv_def)
  note m = kick_inv_move [OF inv, where i = i]
  note k = m [where R = "reserved s", unfolded move_keeps_reserved]
  show ?thesis
  proof (cases "handler s i")
    case (Linked f' c' v)
    then have "f' = f" "c' = c" using ok by simp_all
    then show ?thesis using step Linked kick_inv_count [OF inv, of i v] k [of "Retry f c"] by (simp add: BxKickProcessorHandler_def split: if_splits)
  next
    case (Retry f' c')
    then show ?thesis using step ok m [of "Linked f c (numFinished s)" "insert i (reserved s)"]
      by (auto simp: BxKickProcessorHandler_def)
  next
    case (Counted f' c')
    then show ?thesis using step ok k [of "Called (f c)"] by (auto simp: BxKickProcessorHandler_def)
  next
    case Entered
    then show ?thesis using step fc k [of "Loaded f"] by (auto simp: BxKickProcessorHandler_def)
  next
    case (Loaded f')
    then show ?thesis using step ok fc k [of "Retry f c"] by (auto simp: BxKickProcessorHandler_def)
  qed (use step in \<open>auto simp: BxKickProcessorHandler_def\<close>)
qed

lemma kicked_next: "kicked C (Kicking (i + 1)) = (if i \<in> others C then insert i (kicked C (Kicking i)) else kicked C (Kicking i))"
  by (auto simp: kicked_def less_Suc_eq)

lemma kick_inv_next:
  assumes "kick_inv C n f c s" "kicked C b = kicked C (boss s)" "b = Returned \<Longrightarrow> n - 1 \<le> numFinished s"
  shows "kick_inv C n f c (s\<lparr>boss := b\<rparr>)"
  unfolding kick_inv_def using kick_invD(1-5) [OF assms(1)] assms(2,3) by simp

lemma kick_inv_boss:
  assumes inv: "kick_inv C n f c s" and step: "run_on_others C (n - 1) s = Some s'"
  shows "kick_inv C n f c s'"
proof (cases "boss s")
  case (Kicking i)
  show ?thesis
  proof (cases "i \<in> others C")
    case True
    define g where "g = (handler s)(i := Entered)"
    have s': "s' = s\<lparr>handler := g, boss := Kicking (i + 1)\<rparr>"
      using step Kicking True by (auto simp: run_on_others_def others_def move_def g_def split: if_splits)
    have "i \<notin> {j. handler s j \<noteq> Parked}" using kick_invD(4) [OF inv] Kicking by (simp add: kicked_def)
    then have counts: "{j. counted (g j)} = {j. counted (handler s j)}" unfolding g_def by auto
    have "{j. g j \<noteq> Parked} = insert i {j. handler s j \<noteq> Parked}" unfolding g_def by auto
    then have "{j. g j \<noteq> Parked} = kicked C (Kicking (i + 1))" using kick_invD(4) [OF inv] True Kicking unfolding kicked_next by simp
    moreover have "handler_ok f c (numFinished s) (j \<in> reserved s) (g j)" for j using kick_invD(5) [OF inv] by (simp add: g_def)
    ultimately show ?thesis unfolding s' kick_inv_def using kick_invD(1-3) [OF inv] counts by simp
  next
    case False
    have all: "kicked C (Kicking i) = others C" if "\<not> i < 8" using that by (auto simp: kicked_def others_def)
    have "s' = s\<lparr>boss := if i < 8 then Kicking (i + 1) else Waiting\<rparr>" using step Kicking False by (auto simp: run_on_others_def others_def)
    moreover have "kicked C (if i < 8 then Kicking (i + 1) else Waiting) = kicked C (boss s)"
      using all kicked_next [of C i] False Kicking by (cases "i < 8") (simp_all add: kicked_def)
    ultimately show ?thesis using kick_inv_next [OF inv, of "if i < 8 then Kicking (i + 1) else Waiting"] by (cases "i < 8") simp_all
  qed
next
  case Waiting
  then show ?thesis using inv step kick_inv_next [OF inv, of Returned] by (auto simp: run_on_others_def kicked_def split: if_splits)
qed (use step in \<open>simp add: run_on_others_def\<close>)

lemma reached_inv: "reached C n f c s \<Longrightarrow> kick_inv C n f c s"
  by (induction rule: reached.induct) (auto elim!: kick_step.cases intro: kick_inv_start kick_inv_boss kick_inv_other)

section \<open>Progress\<close>

text \<open>
  Every step but one more turn of the waiting loop brings the end nearer: a store that succeeds leaves fewer handlers in the loop, one
  that fails was linked before another succeeded.
\<close>

definition looping :: "('c, 'r) kick \<Rightarrow> nat" where
  "looping s = card {i \<in> {..<8}. \<not> counted (handler s i)}"

definition handler_rank :: "bool \<Rightarrow> ('c, 'r) handler \<Rightarrow> nat" where
  "handler_rank res h =
     (case h of Parked \<Rightarrow> 9 | Entered \<Rightarrow> 8 | Loaded _ \<Rightarrow> 7 | Retry _ _ \<Rightarrow> 5 | Linked _ _ _ \<Rightarrow> if res then 4 else 6 | Counted _ _ \<Rightarrow> 1 | Called _ \<Rightarrow> 0)"

definition boss_rank :: "boss \<Rightarrow> nat" where
  "boss_rank b = (case b of Kicking k \<Rightarrow> 2 + (8 - k) | Waiting \<Rightarrow> 1 | Returned \<Rightarrow> 0)"

definition rank :: "('c, 'r) kick \<Rightarrow> nat" where
  "rank s = boss_rank (boss s) + (\<Sum>i<8. handler_rank (i \<in> reserved s) (handler s i))"

lemma sum_decreases:
  fixes f g :: "nat \<Rightarrow> nat"
  assumes "i < n" "\<And>j. j \<noteq> i \<Longrightarrow> g j = f j" "g i < f i"
  shows "(\<Sum>j<n. g j) < (\<Sum>j<n. f j)"
proof (rule sum_strict_mono_ex1)
  show "\<forall>j\<in>{..<n}. g j \<le> f j" using assms(2,3) by (metis less_imp_le order.refl)
qed (use assms(1,3) in auto)

lemma looping_move: "counted h = counted (handler s i) \<Longrightarrow> looping (move i h s\<lparr>reserved := R\<rparr>) = looping s"
  unfolding looping_def by (rule arg_cong [where f = card]) auto

lemma rank_move:
  assumes "i < 8" "handler_rank (i \<in> R) h < handler_rank (i \<in> reserved s) (handler s i)" "\<And>j. j \<noteq> i \<Longrightarrow> j \<in> R \<longleftrightarrow> j \<in> reserved s"
  shows "rank (move i h s\<lparr>reserved := R\<rparr>) < rank s"
  unfolding rank_def using assms by (auto intro!: sum_decreases [OF assms(1)])

definition nearer :: "(('c, 'r) kick \<times> ('c, 'r) kick) set" where "nearer = measures [looping, rank]"

lemma nearer_move:
  "i < 8 \<Longrightarrow> counted h = counted (handler s i) \<Longrightarrow> handler_rank (i \<in> R) h < handler_rank (i \<in> reserved s) (handler s i) \<Longrightarrow>
    (\<And>j. j \<noteq> i \<Longrightarrow> j \<in> R \<longleftrightarrow> j \<in> reserved s) \<Longrightarrow> (move i h s\<lparr>reserved := R\<rparr>, s) \<in> nearer"
  by (simp add: nearer_def looping_move rank_move)

lemma kicked_bound: "kick_inv C n f c s \<Longrightarrow> handler s i \<noteq> Parked \<Longrightarrow> i < 8"
  using kick_invD(4) kicked_le by (fastforce simp: others_def)

lemma other_nearer:
  assumes inv: "kick_inv C n f c s" and step: "BxKickProcessorHandler i s = Some s'"
  shows "(s', s) \<in> nearer"
proof -
  have i: "i < 8" using kicked_bound [OF inv, of i] step by (cases "handler s i") (auto simp: BxKickProcessorHandler_def)
  note m = nearer_move [OF i, where s = s]
  note k = m [where R = "reserved s", unfolded move_keeps_reserved]
  show ?thesis
  proof (cases "handler s i")
    case (Linked f' c' v)
    show ?thesis
    proof (cases "i \<in> reserved s")
      case True
      define s1 where "s1 = move i (Counted f' c') s\<lparr>numFinished := v + 1, reserved := {}\<rparr>"
      have "{j \<in> {..<8}. \<not> counted (handler s1 j)} \<subseteq> {j \<in> {..<8}. \<not> counted (handler s j)}" by (auto simp: s1_def)
      moreover have "i \<in> {j \<in> {..<8}. \<not> counted (handler s j)}" "i \<notin> {j \<in> {..<8}. \<not> counted (handler s1 j)}"
        using i Linked by (simp_all add: s1_def)
      ultimately have "{j \<in> {..<8}. \<not> counted (handler s1 j)} \<subset> {j \<in> {..<8}. \<not> counted (handler s j)}" by blast
      then have "looping s1 < looping s" unfolding looping_def by (intro psubset_card_mono) auto
      then show ?thesis using step Linked True by (simp add: BxKickProcessorHandler_def nearer_def s1_def)
    next
      case False
      then show ?thesis using step Linked k [of "Retry f' c'"] by (simp add: BxKickProcessorHandler_def handler_rank_def)
    qed
  next
    case (Retry f' c')
    then show ?thesis using step m [of "Linked f' c' (numFinished s)" "insert i (reserved s)"]
      by (simp add: BxKickProcessorHandler_def handler_rank_def)
  next
    case Entered
    then show ?thesis using step k [of "Loaded (func s)"] by (simp add: BxKickProcessorHandler_def handler_rank_def)
  next
    case (Loaded f')
    then show ?thesis using step k [of "Retry f' (ctx s)"] by (simp add: BxKickProcessorHandler_def handler_rank_def)
  next
    case (Counted f' c')
    then show ?thesis using step k [of "Called (f' c')"] by (simp add: BxKickProcessorHandler_def handler_rank_def)
  qed (use step in \<open>simp_all add: BxKickProcessorHandler_def\<close>)
qed

lemma boss_nearer:
  assumes step: "run_on_others C (n - 1) s = Some s'" and changed: "s' \<noteq> s" and inv: "kick_inv C n f c s"
  shows "(s', s) \<in> nearer"
proof (cases "boss s")
  case (Kicking k)
  show ?thesis
  proof (cases "k \<in> others C")
    case True
    then have k: "k < 8" by (simp add: others_def)
    have parked: "handler s k = Parked" using kick_invD(4) [OF inv] Kicking by (auto simp: kicked_def)
    have s': "s' = move k Entered s\<lparr>boss := Kicking (k + 1)\<rparr>" using step Kicking True by (auto simp: run_on_others_def others_def)
    have "looping s' = looping s" using looping_move [of Entered s k "reserved s"] parked unfolding s' move_keeps_reserved by (simp add: looping_def)
    moreover have "rank s' < rank s"
      using rank_move [OF k, of "reserved s" Entered s] parked k Kicking unfolding s' move_keeps_reserved
      by (simp add: rank_def boss_rank_def handler_rank_def)
    ultimately show ?thesis by (simp add: nearer_def)
  next
    case False
    then have "s' = s\<lparr>boss := if k < 8 then Kicking (k + 1) else Waiting\<rparr>" using step Kicking by (auto simp: run_on_others_def others_def)
    then show ?thesis using Kicking by (cases "k < 8") (simp_all add: nearer_def looping_def rank_def boss_rank_def)
  qed
next
  case Waiting
  then have "s' = s\<lparr>boss := Returned\<rparr>" using step changed by (auto simp: run_on_others_def split: if_splits)
  then show ?thesis using Waiting by (simp add: nearer_def looping_def rank_def boss_rank_def)
qed (use step in \<open>simp add: run_on_others_def\<close>)

lemma step_nearer: "kick_inv C n f c s \<Longrightarrow> kick_step C n s s' \<Longrightarrow> s' \<noteq> s \<Longrightarrow> (s', s) \<in> nearer"
  by (auto elim!: kick_step.cases intro: boss_nearer other_nearer)

lemma nearer_wf: "wf nearer"
  by (simp add: nearer_def)

section \<open>Where it ends\<close>

lemma counted_all:
  assumes ok: "cpus_ok C n" and inv: "kick_inv C n f c s" and le: "n - 1 \<le> numFinished s"
  shows "{i. counted (handler s i)} = others C"
proof (rule card_subset_eq [OF others_le(1)])
  show "{i. counted (handler s i)} \<subseteq> others C" using counted_subset [OF inv] kicked_le by blast
  have "card {i. counted (handler s i)} \<le> 8" using counted_finite [OF inv] others_le(2) [of C] by linarith
  then have "unat (numFinished s) = card {i. counted (handler s i)}" using kick_invD(3) [OF inv] by (simp add: unat_of_nat take_bit_eq_mod)
  then have "card (others C) \<le> card {i. counted (handler s i)}" using le cpus_ok_count [OF ok] by (simp add: word_le_nat_alt)
  then show "card {i. counted (handler s i)} = card (others C)" using counted_finite [OF inv] by simp
qed

text \<open>A state in which only the waiting loop turns.\<close>

lemma stuck_done:
  assumes ok: "cpus_ok C n" and inv: "kick_inv C n f c s" and stuck: "\<And>s'. kick_step C n s s' \<Longrightarrow> s' = s"
  shows "boss s = Returned \<and> (\<forall>i. handler s i = (if i \<in> others C then Called (f c) else Parked))"
proof -
  have still: "BxKickProcessorHandler i s = None" for i
  proof (cases "BxKickProcessorHandler i s")
    case (Some s')
    then have "s' \<noteq> s" using other_nearer [OF inv Some] wf_not_refl [OF nearer_wf] by blast
    then show ?thesis using stuck [OF other_moves [OF Some]] by simp
  qed simp
  then have ends: "handler s i = Parked \<or> handler s i = Called (f c)" for i
    using kick_invD(5) [OF inv, of i] still [of i] by (cases "handler s i") (auto simp: BxKickProcessorHandler_def split: if_splits)
  have "boss s = Returned"
  proof (cases "boss s")
    case (Kicking k)
    then obtain s' where s': "run_on_others C (n - 1) s = Some s'" "boss s' \<noteq> boss s"
      by (cases "k < 8"; cases "k = self C \<or> \<not> is_present C k") (auto simp: run_on_others_def)
    then show ?thesis using stuck [OF boss_moves [OF s'(1)]] by simp
  next
    case Waiting
    have "{i. counted (handler s i)} = {i. handler s i \<noteq> Parked}" using ends by (metis counted_simps(1,7))
    then have "{i. counted (handler s i)} = others C" using kick_invD(4) [OF inv] Waiting by (simp add: kicked_def)
    then have "numFinished s = of_nat (card (others C))" using kick_invD(3) [OF inv] by simp
    then have "\<not> numFinished s < n - 1" using cpus_ok_count [OF ok] others_le(2) [of C] by (simp add: word_less_nat_alt unat_of_nat take_bit_eq_mod)
    then have "kick_step C n s (s\<lparr>boss := Returned\<rparr>)" using Waiting by (intro boss_moves) (simp add: run_on_others_def)
    from stuck [OF this] show ?thesis by (metis kick.select_convs(3) kick.surjective kick.update_convs(3))
  qed
  moreover have "i \<in> others C \<longleftrightarrow> handler s i \<noteq> Parked" for i using kick_invD(4) [OF inv] calculation by (auto simp: kicked_def)
  ultimately show ?thesis using ends by (metis (full_types))
qed

lemma ends_somewhere:
  assumes "cpus_ok C n" "BxRunOnOtherCpus n f c = Some s0"
  obtains s where "reached C n f c s" "boss s = Returned" "\<And>i. handler s i = (if i \<in> others C then Called (f c) else Parked)"
proof -
  have "reached C n f c s \<Longrightarrow> \<exists>s'. reached C n f c s' \<and> (\<forall>t. kick_step C n s' t \<longrightarrow> t = s')" for s
  proof (induction s rule: wf_induct_rule [OF nearer_wf])
    case (1 s)
    show ?case
    proof (cases "\<forall>t. kick_step C n s t \<longrightarrow> t = s")
      case False
      then obtain t where t: "kick_step C n s t" "t \<noteq> s" by blast
      from 1(1) [OF step_nearer [OF reached_inv [OF 1(2)] t] onward [OF 1(2) t(1)]] show ?thesis .
    qed (use 1(2) in blast)
  qed
  then obtain s where s: "reached C n f c s" "\<And>t. kick_step C n s t \<Longrightarrow> t = s" using start [OF assms(2)] by blast
  from stuck_done [OF assms(1) reached_inv [OF s(1)] s(2)] s(1) that show thesis by blast
qed

section \<open>Properties\<close>

text \<open>
  C15. The data of the kick lies in the stack frame of \<open>BxRunOnOtherCpus\<close>. Whenever that function has returned, however the
  processors interleaved, every other processor is behind its last access to it and holds the function and its
  argument: what any of them does from here on is the same whatever the frame is overwritten with, and writes nothing to it.
\<close>

theorem kick_leaves_frame:
  assumes "cpus_ok C n" "reached C n f c s" "boss s = Returned"
  shows "(\<forall>i. (i \<in> others C \<and> (handler s i = Counted f c \<or> handler s i = Called (f c))) \<or> (i \<notin> others C \<and> handler s i = Parked))
    \<and> (\<forall>i g d m. BxKickProcessorHandler i (s\<lparr>func := g, ctx := d, numFinished := m\<rparr>)
         = map_option (\<lambda>s'. s'\<lparr>func := g, ctx := d, numFinished := m\<rparr>) (BxKickProcessorHandler i s))"
proof -
  note inv = reached_inv [OF assms(2)]
  have all: "{i. counted (handler s i)} = others C" by (rule counted_all [OF assms(1) inv kick_invD(6) [OF inv assms(3)]])
  have h: "(i \<in> others C \<and> (handler s i = Counted f c \<or> handler s i = Called (f c))) \<or> (i \<notin> others C \<and> handler s i = Parked)" for i
  proof (cases "handler s i = Parked")
    case False
    then have i: "i \<in> others C" using kick_invD(4) [OF inv] assms(3) by (auto simp: kicked_def)
    then have "counted (handler s i)" using all by blast
    then show ?thesis using kick_invD(5) [OF inv, of i] i by (cases "handler s i") auto
  next
    case True
    then have "\<not> counted (handler s i)" by simp
    then show ?thesis using all True by blast
  qed
  have "BxKickProcessorHandler i (s\<lparr>func := g, ctx := d, numFinished := m\<rparr>)
         = map_option (\<lambda>s'. s'\<lparr>func := g, ctx := d, numFinished := m\<rparr>) (BxKickProcessorHandler i s)" for i g d m
    using h [of i] by (auto simp: BxKickProcessorHandler_def move_def)
  with h show ?thesis by blast
qed

text \<open>
  C16. No interleaving keeps the processors busy for ever: apart from turns of the waiting loop only finitely many
  steps are possible (a store conditional that fails is paid for by one that succeeded), and where only the
  waiting loop could turn, the boot processor has returned and every other processor has called the function with its argument.
\<close>

theorem kick_completes:
  assumes "cpus_ok C n"
  shows "(\<nexists>\<sigma>. reached C n f c (\<sigma> 0) \<and> (\<forall>k. kick_step C n (\<sigma> k) (\<sigma> (Suc k)) \<and> \<sigma> (Suc k) \<noteq> \<sigma> k))
    \<and> (\<forall>s. reached C n f c s \<longrightarrow> (\<forall>s'. kick_step C n s s' \<longrightarrow> s' = s) \<longrightarrow>
         boss s = Returned \<and> (\<forall>i. handler s i = (if i \<in> others C then Called (f c) else Parked)))"
proof
  show "\<nexists>\<sigma>. reached C n f c (\<sigma> 0) \<and> (\<forall>k. kick_step C n (\<sigma> k) (\<sigma> (Suc k)) \<and> \<sigma> (Suc k) \<noteq> \<sigma> k)"
  proof
    assume "\<exists>\<sigma>. reached C n f c (\<sigma> 0) \<and> (\<forall>k. kick_step C n (\<sigma> k) (\<sigma> (Suc k)) \<and> \<sigma> (Suc k) \<noteq> \<sigma> k)"
    then obtain \<sigma> where \<sigma>: "reached C n f c (\<sigma> 0)" "\<And>k. kick_step C n (\<sigma> k) (\<sigma> (Suc k)) \<and> \<sigma> (Suc k) \<noteq> \<sigma> k" by blast
    have r: "reached C n f c (\<sigma> k)" for k by (induction k) (use \<sigma> in \<open>auto intro: onward\<close>)
    have "(\<sigma> (Suc k), \<sigma> k) \<in> nearer" for k using step_nearer [OF reached_inv [OF r]] \<sigma>(2) by blast
    then show False using nearer_wf unfolding wf_iff_no_infinite_down_chain by blast
  qed
qed (intro allI impI stuck_done [OF assms reached_inv], blast+)

section \<open>Witnesses\<close>

definition two_cpus :: cpus where "two_cpus = \<lparr>self = 0, is_present = (\<lambda>i. i < 2)\<rparr>"

lemma two_cpus: "cpus_ok two_cpus 2" "others two_cpus = {1}" "BxRunOnOtherCpus 2 f c \<noteq> None"
proof -
  have "{i. i < 8 \<and> i < 2} = {0, 1 :: nat}" by auto
  then show "cpus_ok two_cpus 2" by (simp add: cpus_ok_def two_cpus_def)
  show "others two_cpus = {1}" by (auto simp: others_def two_cpus_def)
  show "BxRunOnOtherCpus 2 f c \<noteq> None" by (simp add: BxRunOnOtherCpus_def)
qed

lemma kick_leaves_frame_witness:
  "\<exists>s. reached two_cpus 2 Suc 4 s \<and> boss s = Returned \<and> (handler s 1 = Counted Suc 4 \<or> handler s 1 = Called 5)
    \<and> BxKickProcessorHandler 1 (s\<lparr>func := (\<lambda>_. 0), ctx := 0, numFinished := 0\<rparr>)
        = map_option (\<lambda>s'. s'\<lparr>func := (\<lambda>_. 0), ctx := 0, numFinished := 0\<rparr>) (BxKickProcessorHandler 1 s)"
proof -
  obtain s0 where s0: "BxRunOnOtherCpus 2 Suc 4 = Some s0" using two_cpus(3) [of Suc 4] by auto
  obtain s where s: "reached two_cpus 2 Suc 4 s" "boss s = Returned" by (rule ends_somewhere [OF two_cpus(1) s0])
  note k = kick_leaves_frame [OF two_cpus(1) s]
  have "handler s 1 = Counted Suc 4 \<or> handler s 1 = Called 5" using k [THEN conjunct1, THEN spec, of 1] by (simp add: two_cpus(2))
  moreover have "BxKickProcessorHandler 1 (s\<lparr>func := (\<lambda>_. 0), ctx := 0, numFinished := 0\<rparr>)
        = map_option (\<lambda>s'. s'\<lparr>func := (\<lambda>_. 0), ctx := 0, numFinished := 0\<rparr>) (BxKickProcessorHandler 1 s)"
    by (rule k [THEN conjunct2, THEN spec, THEN spec, THEN spec, THEN spec])
  ultimately show ?thesis using s by (intro exI [of _ s] conjI)
qed

lemma kick_completes_witness:
  "\<nexists>\<sigma>. reached two_cpus 2 Suc 4 (\<sigma> 0) \<and> (\<forall>k. kick_step two_cpus 2 (\<sigma> k) (\<sigma> (Suc k)) \<and> \<sigma> (Suc k) \<noteq> \<sigma> k)"
  using kick_completes [OF two_cpus(1), of Suc 4] by (rule conjunct1)

end
