(* ===== verification/Kernel_Loader.thy ===== *)
theory Kernel_Loader
  imports Root_Partition Other_Cpus
begin

text \<open>
  The machine-independent part of the boot, \<^verbatim>\<open>bootloader/main.c\<close>: the options that go into the device tree,
  the kernel image that is read and mapped page by page, and the transition. \<open>BlTransition\<close> is
  assembly; what is modelled is the call, the last step of every processor.
\<close>

section \<open>The kernel's header\<close>

definition BI_PROTOCOL_MAGIC :: u32 where "BI_PROTOCOL_MAGIC = 0x584c5258"
definition BI_PROTOCOL_MAJOR :: u16 where "BI_PROTOCOL_MAJOR = 2"
definition BI_PROTOCOL_MINOR :: u32 where "BI_PROTOCOL_MINOR = 0"

definition BiRangesOverlap :: "u32 \<Rightarrow> u32 \<Rightarrow> u32 \<Rightarrow> u32 \<Rightarrow> bool" where
  "BiRangesOverlap a0 a1 b0 b1 \<longleftrightarrow> a0 \<le> b1 \<and> b0 \<le> a1"

text \<open>The variables of the options, \<^verbatim>\<open>config.h\<close>.\<close>

definition BlKernelPath :: "'a config_scheme \<Rightarrow> u32" where "BlKernelPath s = OptValue (BiOptions s ! 0)"
definition BlStdoutPath :: "'a config_scheme \<Rightarrow> u32" where "BlStdoutPath s = OptValue (BiOptions s ! 1)"
definition BlInitrdPath :: "'a config_scheme \<Rightarrow> u32" where "BlInitrdPath s = OptValue (BiOptions s ! 2)"
definition BlCommandLine :: "'a config_scheme \<Rightarrow> u32" where "BlCommandLine s = OptValue (BiOptions s ! 3)"

text \<open>A message with a string from memory.\<close>

definition print_string :: "u8 list \<Rightarrow> u32 \<Rightarrow> 'a config_scheme \<Rightarrow> 'a config_scheme run" where
  "print_string format str s =
     Option.bind (BlStringLength (memory s) str) (\<lambda>n. print format [Str (load_bytes (memory s) str (unat n))] s)"

text \<open>The checks of the header that was read, which leave it in canonical byte order.\<close>

definition check_kernel_header :: "'b dt_statics_scheme \<Rightarrow> 'a fs_scheme \<Rightarrow> 'a fs_scheme run" where
  "check_kernel_header L s =
     (if BL_LE32 (load32 (memory s) (KernelMagic L)) \<noteq> BI_PROTOCOL_MAGIC then crash ''invalid magic number''
      else
        let s = write_mem (fix_le16 (KernelMinorVersion L)) s;
            s = write_mem (fix_le16 (KernelMajorVersion L)) s
        in if load16 (memory s) (KernelMajorVersion L) \<noteq> BI_PROTOCOL_MAJOR then crash ''unsupported major version''
           else
             let s = write_mem (fix_le32 (KernelVirtualAddr L)) s;
                 s = write_mem (fix_le32 (KernelMSize L)) s;
                 s = write_mem (fix_le32 (KernelEntry L)) s;
                 s = write_mem (fix_le32 (KernelFlags L)) s;
                 s = write_mem (fix_le32 (KernelDtbAddress L)) s;
                 s = write_mem (fix_le32 (KernelMaxDtbEnd L)) s;
                 VirtualAddr = load32 (memory s) (KernelVirtualAddr L);
                 MSize = load32 (memory s) (KernelMSize L);
                 Entry = load32 (memory s) (KernelEntry L)
             in if Entry < VirtualAddr \<or> Entry - VirtualAddr \<ge> MSize then crash ''kernel entry point outside kernel image''
                else if load32 (memory s) (KernelFlags L) AND BL_FLAG_MAP_DTB \<noteq> 0 then
                  let s = write_mem (\<lambda>m. store32 m (KernelDtbAddress L) (BL_ALIGN_UP (load32 m (KernelDtbAddress L)) BL_PAGE_SIZE)) s;
                      DtbAddress = load32 (memory s) (KernelDtbAddress L);
                      MaxDtbEnd = load32 (memory s) (KernelMaxDtbEnd L)
                  in if MaxDtbEnd \<le> DtbAddress then crash ''device tree mapping area has negative size''
                     else if BiRangesOverlap VirtualAddr (VirtualAddr + MSize - 1) DtbAddress MaxDtbEnd
                     then crash ''device tree mapping area overlaps kernel image''
                     else ret s
                else ret s)"

section \<open>The image\<close>

text \<open>A fresh page for the virtual page \<open>current\<close>, with what \<open>fill\<close> puts into it.\<close>

definition map_new_page ::
    "'b dt_statics_scheme \<Rightarrow> (u32 \<Rightarrow> 'a fs_scheme \<Rightarrow> 'a fs_scheme run) \<Rightarrow> u32 \<Rightarrow> 'a fs_scheme \<Rightarrow> 'a fs_scheme run" where
  "map_new_page L fill current s =
     bind_run (BlAllocateHeap BL_PAGE_SIZE BL_PAGE_SIZE True s) (\<lambda>(buffer, s).
     bind_run (fill buffer s) (\<lambda>s.
       BlMapPage (BlPageTable L) current buffer s))"

definition load_head ::
    "'b dt_statics_scheme \<Rightarrow> disk_read \<Rightarrow> u32 \<Rightarrow> u64 \<Rightarrow> u32 \<Rightarrow> 'a fs_scheme \<Rightarrow> (u32 \<times> 'a fs_scheme) run" where
  "load_head L read file fileSize current s =
     (if current < load32 (memory s) (KernelVirtualAddr L) then
        bind_run (map_new_page L (\<lambda>buffer s.
            let headCount = load32 (memory s) (KernelVirtualAddr L) - current;
                tailCount = BL_PAGE_SIZE - headCount;
                readCount = ucast (BL_MIN (ucast tailCount) fileSize);
                s = write_mem (\<lambda>m. BlFillMemory m buffer 0 headCount) s
            in bind_run (BlFsFileRead L read file (buffer + headCount) readCount 0 False s) (\<lambda>s.
                 ret (if readCount \<noteq> tailCount
                      then write_mem (\<lambda>m. BlFillMemory m (buffer + headCount + readCount) 0 (tailCount - readCount)) s else s)))
          current s) (\<lambda>s. ret (current + BL_PAGE_SIZE, s))
      else ret (current, s))"

partial_function (option) load_pages ::
    "'b dt_statics_scheme \<Rightarrow> disk_read \<Rightarrow> u32 \<Rightarrow> u32 \<Rightarrow> u32 \<Rightarrow> 'a fs_scheme \<Rightarrow> (u32 \<times> 'a fs_scheme) run" where
  "load_pages L read file alignedFileEnd current s =
     (if current < alignedFileEnd then
        bind_run (map_new_page L (\<lambda>buffer s.
            BlFsFileRead L read file buffer BL_PAGE_SIZE (ucast (current - load32 (memory s) (KernelVirtualAddr L))) True s)
          current s) (load_pages L read file alignedFileEnd (current + BL_PAGE_SIZE))
      else ret (current, s))"

definition load_tail ::
    "'b dt_statics_scheme \<Rightarrow> disk_read \<Rightarrow> u32 \<Rightarrow> u32 \<Rightarrow> u32 \<Rightarrow> 'a fs_scheme \<Rightarrow> (u32 \<times> 'a fs_scheme) run" where
  "load_tail L read file fileEnd current s =
     (if current < fileEnd then
        bind_run (map_new_page L (\<lambda>buffer s.
            let headCount = fileEnd - current; tailCount = BL_PAGE_SIZE - headCount
            in bind_run (BlFsFileRead L read file buffer headCount (ucast (current - load32 (memory s) (KernelVirtualAddr L))) False s) (\<lambda>s.
                 ret (write_mem (\<lambda>m. BlFillMemory m (buffer + headCount) 0 tailCount) s)))
          current s) (\<lambda>s. ret (current + BL_PAGE_SIZE, s))
      else ret (current, s))"

partial_function (option) zero_pages :: "'b dt_statics_scheme \<Rightarrow> u32 \<Rightarrow> u32 \<Rightarrow> 'a fs_scheme \<Rightarrow> 'a fs_scheme run" where
  "zero_pages L end_page current s =
     (if current < end_page then
        bind_run (map_new_page L (\<lambda>buffer s. ret (write_mem (\<lambda>m. BlFillMemory m buffer 0 BL_PAGE_SIZE) s)) current s)
          (zero_pages L end_page (current + BL_PAGE_SIZE))
      else ret s)"

definition load_image :: "'b dt_statics_scheme \<Rightarrow> disk_read \<Rightarrow> u32 \<Rightarrow> 'a fs_scheme \<Rightarrow> 'a fs_scheme run" where
  "load_image L read file s =
     (let fileSize = BlFsFileSize L file s;
          VirtualAddr = load32 (memory s) (KernelVirtualAddr L);
          MSize = load32 (memory s) (KernelMSize L)
      in if fileSize > ucast MSize then crash_with ''kernel file too large (0x%lx bytes)'' [Long fileSize]
         else
           let current = BL_ALIGN_DOWN VirtualAddr BL_PAGE_SIZE;
               fileEnd = ucast (ucast VirtualAddr + fileSize);
               alignedFileEnd = BL_ALIGN_DOWN fileEnd BL_PAGE_SIZE;
               end_page = BL_ALIGN_UP (VirtualAddr + MSize) BL_PAGE_SIZE
           in bind_run (load_head L read file fileSize current s) (\<lambda>(current, s).
              bind_run (load_pages L read file alignedFileEnd current s) (\<lambda>(current, s).
              bind_run (load_tail L read file fileEnd current s) (\<lambda>(current, s).
                zero_pages L end_page current s))))"

definition BiLoadKernel :: "'b boot_statics_scheme \<Rightarrow> disk_read \<Rightarrow> 'a fs_scheme \<Rightarrow> 'a fs_scheme run" where
  "BiLoadKernel L read s =
     bind_run (print_string (bytes ''Loading kernel from %s'' @ [10]) (BlKernelPath s) s) (\<lambda>s.
     bind_run (BlFsFind L read (BlKernelPath s) s) (\<lambda>(file, s).
       if file = 0 then crash ''failed to open kernel file''
       else
         bind_run (BlFsFileRead L read file (BlKernelHeader L) SIZEOF_BiKernelHeader 0 False s) (\<lambda>s.
         bind_run (check_kernel_header L s) (\<lambda>s.
         bind_run (load_image L read file s) (\<lambda>s.
           ret (BlFsFree L file s))))))"

section \<open>Options\<close>

definition add_chosen_string ::
    "'b boot_statics_scheme \<Rightarrow> string \<Rightarrow> u32 \<Rightarrow> 'a dt_scheme \<Rightarrow> 'a dt_scheme run" where
  "add_chosen_string L name value s =
     bind_run (BlDtFindOrCreateNode L 0 (literal L ''chosen'') s) (\<lambda>(chosen, s).
       BlDtAddPropertyString L chosen (literal L name) value s)"

text \<open>The initial ramdisk: the whole volume or a file, in memory.\<close>

definition load_initrd :: "'b boot_statics_scheme \<Rightarrow> disk_read \<Rightarrow> u32 \<Rightarrow> 'a dt_scheme \<Rightarrow> (u32 \<times> u32 \<times> 'a dt_scheme) run" where
  "load_initrd L read path s =
     Option.bind (BlCompareStrings (memory s) path (literal L ''$BootVolume'')) (\<lambda>c.
       if c = 0 then
         let sz = ucast (BL_MIN (BlRootPartitionSize s) 0xffffffff)
         in bind_run (BlAllocateHeap sz BL_PAGE_SIZE True s) (\<lambda>(ptr, s).
            bind_run (BlReadFromPartition L read ptr 0 sz True s) (\<lambda>s.
              ret (ptr, sz, s)))
       else
         bind_run (BlFsFind L read path s) (\<lambda>(file, s).
           if file = 0 then crash (''initrd does not exist'' @ [CHR 0x0A])
           else
             let sz = ucast (BL_MIN (BlFsFileSize L file s) 0xffffffff)
             in bind_run (BlAllocateHeap sz BL_PAGE_SIZE True s) (\<lambda>(ptr, s).
                bind_run (BlFsFileRead L read file ptr sz 0 True s) (\<lambda>s.
                  ret (ptr, sz, BlFsFree L file s)))))"

definition BiProcessConfig :: "'b boot_statics_scheme \<Rightarrow> disk_read \<Rightarrow> 'a dt_scheme \<Rightarrow> 'a dt_scheme run" where
  "BiProcessConfig L read s =
     bind_run (if BlStdoutPath s \<noteq> 0 then add_chosen_string L ''stdout-path'' (BlStdoutPath s) s else ret s) (\<lambda>s.
     bind_run
       (if BlInitrdPath s \<noteq> 0 then
          bind_run (print_string (bytes ''Loading initrd from %s'' @ [10]) (BlInitrdPath s) s) (\<lambda>s.
          bind_run (load_initrd L read (BlInitrdPath s) s) (\<lambda>(ptr, sz, s).
          bind_run (BlDtFindOrCreateNode L 0 (literal L ''chosen'') s) (\<lambda>(chosen, s).
          bind_run (BlDtAddPropertyU32 L chosen (literal L ''linux,initrd-start'') ptr s) (\<lambda>s.
            BlDtAddPropertyU32 L chosen (literal L ''linux,initrd-end'') (ptr + sz) s))))
        else ret s) (\<lambda>s.
       if BlCommandLine s \<noteq> 0 then add_chosen_string L ''bootargs'' (BlCommandLine s) s else ret s))"

section \<open>The boot\<close>

record BiTransitionData =
  entrypoint :: u32
  deviceTree :: u32

text \<open>The arguments of \<open>BlTransition\<close>: entry point, device tree, number of processors, minor version.\<close>

type_synonym transition = "u32 \<times> u32 \<times> u32 \<times> u32"

definition BiDoTransition :: "u32 \<Rightarrow> BiTransitionData \<Rightarrow> transition" where
  "BiDoTransition BxNumCpus data = (entrypoint data, deviceTree data, BxNumCpus, BI_PROTOCOL_MINOR)"

text \<open>
  The boot ends with the start on the other processors, which run from there on their own, and the boot processor's transition.
\<close>

type_synonym started = "(BiTransitionData, transition) kick option \<times> transition"

definition BlMain :: "'b boot_statics_scheme \<Rightarrow> disk_read \<Rightarrow> u32 \<Rightarrow> u32 \<Rightarrow> 'a dt_scheme \<Rightarrow> (started \<times> 'a dt_scheme) run" where
  "BlMain L read whami BxNumCpus s =
     bind_run (BlFindRootPartition L read s) (\<lambda>s.
     bind_run (BiProcessConfig L read s) (\<lambda>s.
     bind_run (BiLoadKernel L read s) (\<lambda>s.
     bind_run (BlGetMapping (BlPageTable L) (load32 (memory s) (KernelEntry L)) s) (\<lambda>entry.
     bind_run (BlDtBuildBlob L whami s) (\<lambda>(blob, s).
     bind_run (print (bytes ''Starting kernel'' @ [10]) [] s) (\<lambda>s.
       let transitionData = \<lparr>entrypoint = entry, deviceTree = blob\<rparr>
       in ret ((BxRunOnOtherCpus BxNumCpus (BiDoTransition BxNumCpus) transitionData, BiDoTransition BxNumCpus transitionData), s)))))))"

end
