(* ===== verification/A4x_Platform.thy ===== *)
theory A4x_Platform
  imports Kernel_Loader A4x_Disk
begin

text \<open>
  The a4x platform, \<^verbatim>\<open>bootloader/a4x/main.c\<close> with the structures of \<^verbatim>\<open>a4x.h\<close>: the memory and the devices the
  firmware's database lists go into the heap and the device tree, then the boot starts. The database lies in
  memory where the firmware says.
\<close>

section \<open>The firmware's structures\<close>

definition struct_FwPartition :: struct where
  "struct_FwPartition =
     [(''Label'', 8), (''BaseSector'', 4), (''SectorCount'', 4), (''BootInfo'', 4), (''Id'', 1), (''PartitionId'', 1), (''_pad'', 2)]"

definition struct_FwDisk :: struct where
  "struct_FwDisk = [(''Label'', 16), (''Partitions'', 9 * 24)]"

definition struct_FwBoard :: struct where
  "struct_FwBoard = [(''Address'', 4), (''Name'', 16), (''BoardId'', 4)]"

definition struct_FwFramebuffer :: struct where
  "struct_FwFramebuffer = [(''Address'', 4), (''Width'', 2), (''Height'', 2), (''Type'', 1), (''_pad'', 3)]"

definition struct_FwDeviceDatabase :: struct where
  "struct_FwDeviceDatabase =
     [(''TotalRamBytes'', 4), (''ProcessorCount'', 1), (''BootableCount'', 1), (''Padding'', 2), (''RamBanks'', 8 * 4),
      (''Disks'', 8 * 232), (''Amtsu'', 16 * 4), (''Boards'', 7 * 24), (''Processors'', 8 * 1), (''Framebuffer'', 12),
      (''Keyboard'', 1), (''MachineType'', 1)]"

definition FW_XR_STATION :: u8 where "FW_XR_STATION = 0"
definition FW_XR_MP :: u8 where "FW_XR_MP = 1"
definition FW_XR_FRAME :: u8 where "FW_XR_FRAME = 2"

definition BaseSector :: "mem \<Rightarrow> u32 \<Rightarrow> u32" where "BaseSector m part = load32 m (part + 8)"
definition SectorCount :: "mem \<Rightarrow> u32 \<Rightarrow> u32" where "SectorCount m part = load32 m (part + 12)"
definition PartitionDisk :: "mem \<Rightarrow> u32 \<Rightarrow> u8" where "PartitionDisk m part = m (part + 20)"

definition PageFrameCount :: "mem \<Rightarrow> u32 \<Rightarrow> nat \<Rightarrow> u32" where "PageFrameCount m db i = load32 m (db + 8 + 4 * of_nat i)"
definition DiskPartition :: "u32 \<Rightarrow> u8 \<Rightarrow> nat \<Rightarrow> u32" where
  "DiskPartition db disk i = db + 40 + 232 * ucast disk + 16 + 24 * of_nat i"
definition Board :: "u32 \<Rightarrow> nat \<Rightarrow> u32" where "Board db i = db + 1960 + 24 * of_nat i"
definition BoardAddress :: "mem \<Rightarrow> u32 \<Rightarrow> u32" where "BoardAddress m board = load32 m board"
definition BoardName :: "u32 \<Rightarrow> u32" where "BoardName board = board + 4"
definition BoardId :: "mem \<Rightarrow> u32 \<Rightarrow> u32" where "BoardId m board = load32 m (board + 20)"
definition Present :: "mem \<Rightarrow> u32 \<Rightarrow> nat \<Rightarrow> bool" where "Present m db i \<longleftrightarrow> m (db + 2128 + of_nat i) \<noteq> 0"
definition MachineType :: "mem \<Rightarrow> u32 \<Rightarrow> u8" where "MachineType m db = m (db + 2149)"

lemma fw_field_offsets:
  "BaseSector m part = load32 m (part + field_offset struct_FwPartition ''BaseSector'')"
  "SectorCount m part = load32 m (part + field_offset struct_FwPartition ''SectorCount'')"
  "PartitionDisk m part = m (part + field_offset struct_FwPartition ''Id'')"
  "PageFrameCount m db i = load32 m (db + field_offset struct_FwDeviceDatabase ''RamBanks'' + 4 * of_nat i)"
  "DiskPartition db disk i = db + field_offset struct_FwDeviceDatabase ''Disks'' + struct_size struct_FwDisk * ucast disk
     + field_offset struct_FwDisk ''Partitions'' + struct_size struct_FwPartition * of_nat i"
  "Board db i = db + field_offset struct_FwDeviceDatabase ''Boards'' + struct_size struct_FwBoard * of_nat i"
  "BoardName board = board + field_offset struct_FwBoard ''Name''"
  "BoardId m board = load32 m (board + field_offset struct_FwBoard ''BoardId'')"
  "Present m db i \<longleftrightarrow> m (db + field_offset struct_FwDeviceDatabase ''Processors'' + of_nat i) \<noteq> 0"
  "MachineType m db = m (db + field_offset struct_FwDeviceDatabase ''MachineType'')"
  "struct_size struct_FwFramebuffer = 12"
  by (simp_all add: BaseSector_def SectorCount_def PartitionDisk_def PageFrameCount_def DiskPartition_def Board_def BoardName_def
      BoardId_def Present_def MachineType_def struct_FwPartition_def struct_FwDisk_def struct_FwBoard_def
      struct_FwFramebuffer_def struct_FwDeviceDatabase_def struct_size_def)

section \<open>State\<close>

record a4x = dt +
  BxDeviceDatabase :: u32
  BxApiTable :: u32
  BxBootDisk :: u32
  BxNumCpus :: u32
  BxLsicPhandle :: u32
  BxAliasesNode :: u32
  BxSocNode :: u32

text \<open>The end of the image, the array of phandles, and the local text buffer of each function.\<close>

record a4x_statics = boot_statics +
  BxImageEnd :: u32
  BxCpuPhandles :: u32
  local_buffer :: "string \<Rightarrow> u32"

definition print_to_buffer :: "u32 \<Rightarrow> u32 \<Rightarrow> u8 list \<Rightarrow> va_arg list \<Rightarrow> 'a heap_scheme \<Rightarrow> 'a heap_scheme run" where
  "print_to_buffer buffer sz format args s =
     Option.bind (BlPrintArgsToBuffer buffer sz format args (memory s)) (\<lambda>(n, m). ret (s\<lparr>memory := m\<rparr>))"

definition BX_RAM_BANK_INTERVAL :: u32 where "BX_RAM_BANK_INTERVAL = 0x2000000"
definition BX_CPU_IRQ_INT :: u32 where "BX_CPU_IRQ_INT = 1"
definition BX_LSIC_BASE :: u32 where "BX_LSIC_BASE = 0xf8030000"
definition BX_LSIC_SIZE :: u32 where "BX_LSIC_SIZE = 0x100"
definition BX_RTC_BASE :: u32 where "BX_RTC_BASE = 0xf8000080"
definition BX_RTC_SIZE :: u32 where "BX_RTC_SIZE = 8"
definition BX_RTC_IRQ :: u32 where "BX_RTC_IRQ = 2"
definition BX_SERIAL_COUNT :: nat where "BX_SERIAL_COUNT = 2"
definition BX_SERIAL_SIZE :: u32 where "BX_SERIAL_SIZE = 8"
definition BX_SERIAL_BASE :: "u32 \<Rightarrow> u32" where "BX_SERIAL_BASE n = 0xf8000040 + n * BX_SERIAL_SIZE"
definition BX_SERIAL_IRQ :: "u32 \<Rightarrow> u32" where "BX_SERIAL_IRQ n = 4 + n"
definition BX_SERIAL_BAUD :: u32 where "BX_SERIAL_BAUD = 9600"
definition BX_DISKS_BASE :: u32 where "BX_DISKS_BASE = 0xf8000064"
definition BX_DISKS_SIZE :: u32 where "BX_DISKS_SIZE = 12"
definition BX_DISKS_IRQ :: u32 where "BX_DISKS_IRQ = 3"
definition BX_AMTSU_BASE :: u32 where "BX_AMTSU_BASE = 0xf80000c0"
definition BX_AMTSU_SIZE :: u32 where "BX_AMTSU_SIZE = 20"
definition BX_AMTSU_IRQ :: u32 where "BX_AMTSU_IRQ = 0x31"
definition BX_AMTSU_NIRQ :: u32 where "BX_AMTSU_NIRQ = 4"
definition BX_BOARD_SIZE :: u32 where "BX_BOARD_SIZE = 0x8000000"
definition BX_BOARD_IRQ :: "u32 \<Rightarrow> u32" where "BX_BOARD_IRQ n = 0x28 + n"

section \<open>Memory\<close>

text \<open>The loops over the eight banks run over the list of their indices.\<close>

fun add_memory_ranges :: "'b a4x_statics_scheme \<Rightarrow> nat list \<Rightarrow> 'a a4x_scheme \<Rightarrow> 'a a4x_scheme run" where
  "add_memory_ranges L [] s = ret s"
| "add_memory_ranges L (i # is) s =
     (let pages = PageFrameCount (memory s) (BxDeviceDatabase s) i
      in if pages = 0 then add_memory_ranges L is s
         else
           let bank = of_nat i * BX_RAM_BANK_INTERVAL;
               bank_end = bank + pages * 0x1000;
               bank = (if bank < BxImageEnd L then BxImageEnd L else bank)
           in if bank \<ge> bank_end then add_memory_ranges L is s
              else Option.bind (BlAddHeapRange bank (bank_end - bank) s) (add_memory_ranges L is))"

definition BxAddMemoryRanges :: "'b a4x_statics_scheme \<Rightarrow> 'a a4x_scheme \<Rightarrow> 'a a4x_scheme run" where
  "BxAddMemoryRanges L s =
     bind_run (print (bytes ''Initializing bootloader heap'' @ [10]) [] s) (add_memory_ranges L [0..<8])"

definition BxDtAddMemoryBank :: "'b a4x_statics_scheme \<Rightarrow> u32 \<Rightarrow> u32 \<Rightarrow> 'a a4x_scheme \<Rightarrow> 'a a4x_scheme run" where
  "BxDtAddMemoryBank L start end_addr s =
     (let buffer = local_buffer L ''BxDtAddMemoryBank''
      in bind_run (print_to_buffer buffer 32 (bytes ''memory@%zx'') [Word start] s) (\<lambda>s.
         bind_run (BlDtCreateNode L 0 buffer s) (\<lambda>(node, s).
         bind_run (BlDtAddPropertyString L node (literal L ''device_type'') (literal L ''memory'') s) (\<lambda>s.
           BlDtAddPropertyU32s L node (literal L ''reg'') [start, end_addr - start] s))))"

fun dt_add_memory :: "'b a4x_statics_scheme \<Rightarrow> nat list \<Rightarrow> u32 \<Rightarrow> u32 \<Rightarrow> 'a a4x_scheme \<Rightarrow> 'a a4x_scheme run" where
  "dt_add_memory L [] start end_addr s = (if start \<noteq> end_addr then BxDtAddMemoryBank L start end_addr s else ret s)"
| "dt_add_memory L (i # is) start end_addr s =
     (let pages = PageFrameCount (memory s) (BxDeviceDatabase s) i
      in if pages = 0 then dt_add_memory L is start end_addr s
         else
           let bank = of_nat i * BX_RAM_BANK_INTERVAL
           in if bank \<noteq> end_addr then
                bind_run (if start \<noteq> end_addr then BxDtAddMemoryBank L start end_addr s else ret s)
                  (dt_add_memory L is bank (bank + pages * 0x1000))
              else dt_add_memory L is start (bank + pages * 0x1000) s)"

definition BxDtAddMemory :: "'b a4x_statics_scheme \<Rightarrow> 'a a4x_scheme \<Rightarrow> 'a a4x_scheme run" where
  "BxDtAddMemory L s = dt_add_memory L [0..<8] 0 0 s"

section \<open>Processors\<close>

fun dt_add_cpus :: "'b a4x_statics_scheme \<Rightarrow> u32 \<Rightarrow> nat list \<Rightarrow> 'a a4x_scheme \<Rightarrow> 'a a4x_scheme run" where
  "dt_add_cpus L cpus [] s = ret s"
| "dt_add_cpus L cpus (i # is) s =
     (if \<not> Present (memory s) (BxDeviceDatabase s) i then dt_add_cpus L cpus is s
      else
        let buffer = local_buffer L ''BxDtAddCpus''
        in bind_run (print_to_buffer buffer 32 (bytes ''cpu@%u'') [Word (of_nat i)] s) (\<lambda>s.
           bind_run (BlDtCreateNode L cpus buffer s) (\<lambda>(cpu, s).
           let (phandle, s) = BlDtAllocPhandle s
           in bind_run (BlDtAddPropertyU32 L cpu (literal L ''phandle'') phandle s) (\<lambda>s.
              bind_run (BlDtAddPropertyString L cpu (literal L ''device_type'') (literal L ''cpu'') s) (\<lambda>s.
              bind_run (BlDtAddPropertyU32 L cpu (literal L ''reg'') (of_nat i) s) (\<lambda>s.
              bind_run (BlDtAddPropertyString L cpu (literal L ''status'') (literal L ''okay'') s) (\<lambda>s.
              bind_run (BlDtAddPropertyString L cpu (literal L ''compatible'') (literal L ''xrarch,xr17032'') s) (\<lambda>s.
              bind_run (BlDtAddProperty L cpu (literal L ''interrupt-controller'') 0 0 s) (\<lambda>s.
              bind_run (BlDtAddPropertyU32 L cpu (literal L ''#interrupt-cells'') 1 s) (\<lambda>s.
                dt_add_cpus L cpus is
                  (s\<lparr>memory := store32 (memory s) (BxCpuPhandles L + 4 * BxNumCpus s) phandle, BxNumCpus := BxNumCpus s + 1\<rparr>)))))))))))"

definition BxDtAddCpus :: "'b a4x_statics_scheme \<Rightarrow> 'a a4x_scheme \<Rightarrow> 'a a4x_scheme run" where
  "BxDtAddCpus L s =
     bind_run (BlDtCreateNode L 0 (literal L ''cpus'') s) (\<lambda>(cpus, s).
     bind_run (BlDtAddPropertyU32 L cpus (literal L ''#address-cells'') 1 s) (\<lambda>s.
     bind_run (BlDtAddPropertyU32 L cpus (literal L ''#size-cells'') 0 s) (\<lambda>s.
       dt_add_cpus L cpus [0..<8] s)))"

end
