(* ===== verification/A4x_Devices.thy ===== *)
theory A4x_Devices
  imports A4x_Platform
begin

text \<open>
  The devices of the a4x platform and its entry point, the second half of \<^verbatim>\<open>bootloader/a4x/main.c\<close>.
\<close>

section \<open>Devices\<close>

definition load_words :: "mem \<Rightarrow> u32 \<Rightarrow> nat \<Rightarrow> u32 list" where
  "load_words m a n = map (\<lambda>i. load32 m (a + 4 * of_nat i)) [0..<n]"

definition BxDtAddInterrupts :: "'b a4x_statics_scheme \<Rightarrow> u32 \<Rightarrow> u32 \<Rightarrow> u32 \<Rightarrow> 'a a4x_scheme \<Rightarrow> 'a a4x_scheme run" where
  "BxDtAddInterrupts L node irq count s =
     bind_run (BlDtAddPropertyU32 L node (literal L ''interrupt-parent'') (BxLsicPhandle s) s) (\<lambda>s.
       if count = 1 then BlDtAddPropertyU32 L node (literal L ''interrupts'') irq s
       else
         bind_run (BlAllocateHeap (4 * count) 4 False s) (\<lambda>(data, s).
         let s = s\<lparr>memory := fold (\<lambda>i m. store32 m (data + 4 * of_nat i) (irq + of_nat i)) [0..<unat count] (memory s)\<rparr>
         in bind_run (BlDtAddPropertyU32s L node (literal L ''interrupts'') (load_words (memory s) data (unat count)) s) (\<lambda>s.
              ret (BlFreeHeap data s))))"

text \<open>A format that starts with a string from memory: \<open>"%s@%zx"\<close>.\<close>

definition BxDtAddDevice ::
    "'b a4x_statics_scheme \<Rightarrow> u32 \<Rightarrow> u32 \<Rightarrow> u32 \<Rightarrow> u32 \<Rightarrow> u32 \<Rightarrow> u32 \<Rightarrow> 'a a4x_scheme \<Rightarrow> (u32 \<times> 'a a4x_scheme) run" where
  "BxDtAddDevice L name cid address sz irq nirq s =
     Option.bind (BlStringLength (memory s) name) (\<lambda>n.
     let buffer = local_buffer L ''BxDtAddDevice''
     in bind_run (print_to_buffer buffer 32 (bytes ''%s@%zx'') [Str (load_bytes (memory s) name (unat n)), Word address] s) (\<lambda>s.
        bind_run (BlDtCreateNode L (BxSocNode s) buffer s) (\<lambda>(node, s).
        bind_run (BlDtAddPropertyU32s L node (literal L ''reg'') [address, sz] s) (\<lambda>s.
        bind_run (BlDtAddPropertyString L node (literal L ''compatible'') cid s) (\<lambda>s.
        bind_run (BxDtAddInterrupts L node irq nirq s) (\<lambda>s.
          ret (node, s)))))))"

definition BxDtAddRtc :: "'b a4x_statics_scheme \<Rightarrow> 'a a4x_scheme \<Rightarrow> 'a a4x_scheme run" where
  "BxDtAddRtc L s =
     bind_run (BxDtAddDevice L (literal L ''rtc'') (literal L ''xrarch,rtc'') BX_RTC_BASE BX_RTC_SIZE BX_RTC_IRQ 1 s) (\<lambda>(node, s). ret s)"

fun dt_add_serial :: "'b a4x_statics_scheme \<Rightarrow> nat list \<Rightarrow> 'a a4x_scheme \<Rightarrow> 'a a4x_scheme run" where
  "dt_add_serial L [] s = ret s"
| "dt_add_serial L (i # is) s =
     bind_run (BxDtAddDevice L (literal L ''serial'') (literal L ''xrarch,serial'') (BX_SERIAL_BASE (of_nat i)) BX_SERIAL_SIZE
       (BX_SERIAL_IRQ (of_nat i)) 1 s) (\<lambda>(node, s).
     bind_run (BlDtAddPropertyU32 L node (literal L ''clock-frequency'') BX_SERIAL_BAUD s) (\<lambda>s.
     bind_run (BlDtAddPropertyU32 L node (literal L ''current-speed'') BX_SERIAL_BAUD s) (\<lambda>s.
     let alias = local_buffer L ''BxDtAddSerial''
     in bind_run (print_to_buffer alias 16 (bytes ''serial%zu'') [Word (of_nat i)] s) (\<lambda>s.
        bind_run (BlDtNodePath node s) (\<lambda>(path, s).
        bind_run (BlDtAddPropertyString L (BxAliasesNode s) alias path s) (\<lambda>s.
          dt_add_serial L is (BlFreeHeap path s)))))))"

definition BxDtAddSerial :: "'b a4x_statics_scheme \<Rightarrow> 'a a4x_scheme \<Rightarrow> 'a a4x_scheme run" where
  "BxDtAddSerial L s = dt_add_serial L [0..<BX_SERIAL_COUNT] s"

definition BxDtAddDisks :: "'b a4x_statics_scheme \<Rightarrow> 'a a4x_scheme \<Rightarrow> 'a a4x_scheme run" where
  "BxDtAddDisks L s =
     bind_run (BxDtAddDevice L (literal L ''disk-controller'') (literal L ''xrarch,disk-controller'') BX_DISKS_BASE BX_DISKS_SIZE BX_DISKS_IRQ 1 s)
       (\<lambda>(node, s). ret s)"

definition BxDtAddAmtsu :: "'b a4x_statics_scheme \<Rightarrow> 'a a4x_scheme \<Rightarrow> 'a a4x_scheme run" where
  "BxDtAddAmtsu L s =
     bind_run (BxDtAddDevice L (literal L ''amtsu'') (literal L ''xrarch,amtsu'') BX_AMTSU_BASE BX_AMTSU_SIZE BX_AMTSU_IRQ BX_AMTSU_NIRQ s)
       (\<lambda>(node, s). ret s)"

text \<open>The array the interrupt controller's property is made of: the processors' phandles, each with its interrupt.\<close>

definition lsic_data :: "'b a4x_statics_scheme \<Rightarrow> u32 \<Rightarrow> nat \<Rightarrow> mem \<Rightarrow> mem" where
  "lsic_data L data n =
     fold (\<lambda>i m. let m = store32 m (data + 4 * of_nat (i * 2)) (load32 m (BxCpuPhandles L + 4 * of_nat i))
                 in store32 m (data + 4 * of_nat (i * 2 + 1)) BX_CPU_IRQ_INT) [0..<n]"

definition BxDtAddLsic :: "'b a4x_statics_scheme \<Rightarrow> 'a a4x_scheme \<Rightarrow> 'a a4x_scheme run" where
  "BxDtAddLsic L s =
     (let (phandle, s) = BlDtAllocPhandle s; s = s\<lparr>BxLsicPhandle := phandle\<rparr>
      in bind_run (BlAllocateHeap (4 * (BxNumCpus s * 2)) 4 False s) (\<lambda>(data, s).
         let s = s\<lparr>memory := lsic_data L data (unat (BxNumCpus s)) (memory s)\<rparr>;
             buffer = local_buffer L ''BxDtAddLsic''
         in bind_run (print_to_buffer buffer 32 (bytes ''lsic@%zx'') [Word BX_LSIC_BASE] s) (\<lambda>s.
            bind_run (BlDtCreateNode L (BxSocNode s) buffer s) (\<lambda>(node, s).
            bind_run (BlDtAddPropertyU32 L node (literal L ''phandle'') (BxLsicPhandle s) s) (\<lambda>s.
            bind_run (BlDtAddPropertyU32s L node (literal L ''reg'') [BX_LSIC_BASE, BX_LSIC_SIZE] s) (\<lambda>s.
            bind_run (BlDtAddPropertyString L node (literal L ''compatible'') (literal L ''xrarch,lsic'') s) (\<lambda>s.
            bind_run (BlDtAddPropertyU32s L node (literal L ''interrupts-extended'')
                (load_words (memory s) data (unat (BxNumCpus s * 2))) s) (\<lambda>s.
            bind_run (BlDtAddProperty L node (literal L ''interrupt-controller'') 0 0 s) (\<lambda>s.
            bind_run (BlDtAddPropertyU32 L node (literal L ''#interrupt-cells'') 1 s) (\<lambda>s.
              ret (BlFreeHeap data s)))))))))))"

fun dt_add_boards :: "'b a4x_statics_scheme \<Rightarrow> nat list \<Rightarrow> 'a a4x_scheme \<Rightarrow> 'a a4x_scheme run" where
  "dt_add_boards L [] s = ret s"
| "dt_add_boards L (i # is) s =
     (let board = Board (BxDeviceDatabase s) i
      in if BoardId (memory s) board = 0 then dt_add_boards L is s
         else
           let buffer = local_buffer L ''BxDtAddBoards''
           in bind_run (print_to_buffer buffer 32 (bytes ''xrarch,expansion-%zx'') [Word (BoardId (memory s) board)] s) (\<lambda>s.
              bind_run (BxDtAddDevice L (literal L ''expansion-board'') buffer (BoardAddress (memory s) board) BX_BOARD_SIZE
                  (BX_BOARD_IRQ (of_nat i)) 1 s) (\<lambda>(node, s).
              bind_run (if memory s (BoardName board) \<noteq> 0
                  then BlDtAddPropertyString L node (literal L ''model'') (BoardName board) s else ret s)
                (dt_add_boards L is))))"

definition BxDtAddBoards :: "'b a4x_statics_scheme \<Rightarrow> 'a a4x_scheme \<Rightarrow> 'a a4x_scheme run" where
  "BxDtAddBoards L s = dt_add_boards L [0..<7] s"

definition BxDtCreateSocNode :: "'b a4x_statics_scheme \<Rightarrow> 'a a4x_scheme \<Rightarrow> 'a a4x_scheme run" where
  "BxDtCreateSocNode L s =
     bind_run (BlDtCreateNode L 0 (literal L ''soc'') s) (\<lambda>(node, s).
     let s = s\<lparr>BxSocNode := node\<rparr>
     in bind_run (BlDtAddPropertyU32 L (BxSocNode s) (literal L ''#address-cells'') 1 s) (\<lambda>s.
        bind_run (BlDtAddPropertyU32 L (BxSocNode s) (literal L ''#size-cells'') 1 s) (\<lambda>s.
        bind_run (BlDtAddPropertyString L (BxSocNode s) (literal L ''compatible'') (literal L ''simple-bus'') s) (\<lambda>s.
          BlDtAddProperty L (BxSocNode s) (literal L ''ranges'') 0 0 s))))"

section \<open>The entry point\<close>

text \<open>The names of the machines.\<close>

definition machine_model :: "u8 \<Rightarrow> string option" where
  "machine_model t =
     (if t = FW_XR_STATION then Some ''XR/station'' else if t = FW_XR_MP then Some ''XR/MP''
      else if t = FW_XR_FRAME then Some ''XR/frame'' else None)"

definition BxDtPopulate :: "'b a4x_statics_scheme \<Rightarrow> 'a a4x_scheme \<Rightarrow> 'a a4x_scheme run" where
  "BxDtPopulate L s =
     bind_run (print (bytes ''Populating device tree'' @ [10]) [] s) (\<lambda>s.
     bind_run (BlDtAddPropertyU32 L 0 (literal L ''#address-cells'') 1 s) (\<lambda>s.
     bind_run (BlDtAddPropertyU32 L 0 (literal L ''#size-cells'') 1 s) (\<lambda>s.
     bind_run (BlDtAddPropertyString L 0 (literal L ''compatible'') (literal L ''xrarch,xrcomputer'') s) (\<lambda>s.
     bind_run (case machine_model (MachineType (memory s) (BxDeviceDatabase s)) of
         None \<Rightarrow> crash ''unknown machine type''
       | Some model \<Rightarrow> BlDtAddPropertyString L 0 (literal L ''model'') (literal L model) s) (\<lambda>s.
     bind_run (BlDtCreateNode L 0 (literal L ''aliases'') s) (\<lambda>(node, s).
     let s = s\<lparr>BxAliasesNode := node\<rparr>
     in bind_run (BxDtAddMemory L s) (\<lambda>s.
        bind_run (BxDtAddCpus L s) (\<lambda>s.
        bind_run (BxDtCreateSocNode L s) (\<lambda>s.
        bind_run (BxDtAddLsic L s) (\<lambda>s.
        bind_run (BxDtAddRtc L s) (\<lambda>s.
        bind_run (BxDtAddSerial L s) (\<lambda>s.
        bind_run (BxDtAddDisks L s) (\<lambda>s.
        bind_run (BxDtAddAmtsu L s) (\<lambda>s.
          BxDtAddBoards L s))))))))))))))"

text \<open>
  The disk of the boot: the firmware's \<open>ReadDisk\<close> on the partition that spans the whole disk, whose size is
  read from the database at each request.
\<close>

definition boot_disk_read :: "(u32 \<Rightarrow> fw_read) \<Rightarrow> u32 \<Rightarrow> disk_read" where
  "boot_disk_read ReadDisk disk_partition buffer sector count m =
     BxReadFromDisk (ReadDisk disk_partition) (SectorCount m disk_partition) buffer sector count m"

definition BxMain ::
    "'b a4x_statics_scheme \<Rightarrow> (u32 \<Rightarrow> fw_read) \<Rightarrow> u32 \<Rightarrow> u32 \<Rightarrow> u32 \<Rightarrow> u32 \<Rightarrow> u32 \<Rightarrow> 'a a4x_scheme \<Rightarrow> (started \<times> 'a a4x_scheme) run" where
  "BxMain L ReadDisk whami deviceDatabase apiTable bootPartition args s =
     (let s = s\<lparr>BxDeviceDatabase := deviceDatabase, BxApiTable := apiTable,
                BiOptions := (BiOptions s)[3 := (BiOptions s ! 3)\<lparr>OptValue := args\<rparr>]\<rparr>;
          s = s\<lparr>BxBootDisk := DiskPartition deviceDatabase (PartitionDisk (memory s) bootPartition) 8\<rparr>
      in if BaseSector (memory s) (BxBootDisk s) \<noteq> 0
         then crash_with ''assertion failed: `%s` in %s at %s:%d''
           [Str (bytes ''BxBootDisk->BaseSector == 0''), Str (bytes ''BxMain''), Str (bytes ''a4x/main.c''), Word 287]
         else
           bind_run (BxAddMemoryRanges L s) (\<lambda>s.
           bind_run (BxDtPopulate L s) (\<lambda>s.
             BlMain L (boot_disk_read ReadDisk (BxBootDisk s)) whami (BxNumCpus s) s)))"

end
