(* ===== verification/Kernel_Image.thy ===== *)
theory Kernel_Image
  imports Kernel_Loader Page_Areas Inode_Read
begin

text \<open>
  What \<open>load_image\<close> leaves behind: every page of the kernel's image is mapped to memory of its own that holds the bytes of the
  file, and zeroes before and behind them. Allocations, mappings and reads through the cache alternate here, so the
  state between them is described by what each of the three components demands.
\<close>

section \<open>The state between the steps\<close>

text \<open>What reading changes besides its buffer, and what loading relies on in memory.\<close>

definition scratch :: "'b fs_statics_scheme \<Rightarrow> u32 set" where
  "scratch L = cache_span L \<union> span (local_value L) 4"

definition constants :: "'b dt_statics_scheme \<Rightarrow> u32 \<Rightarrow> u32 set" where
  "constants L file = span (BiSuperblock L) 236 \<union> span file 128 \<union> span (BlKernelHeader L) 32"

definition load_ready ::
    "'b dt_statics_scheme \<Rightarrow> (nat \<Rightarrow> u8) \<Rightarrow> u32 \<Rightarrow> nat \<Rightarrow> u32 \<Rightarrow> 'a fs_scheme \<Rightarrow> block list \<Rightarrow> u32 list \<Rightarrow> bool" where
  "load_ready L disk sectors h file s rs fs \<longleftrightarrow> heap_inv s rs fs \<and> tables_ok (memory s) (BlPageTable L) (foot rs)
     \<and> (\<exists>is. cache_inv L disk sectors s is) \<and> partition_ok sectors s \<and> geometry L h s
     \<and> scratch L \<inter> (foot rs \<union> table_span (memory s) (BlPageTable L)) = {}
     \<and> constants L file \<subseteq> kept_area (BlPageTable L) (memory s) rs - scratch L"

text \<open>What a step of loading keeps.\<close>

definition safe_area :: "'b dt_statics_scheme \<Rightarrow> mem \<Rightarrow> block list \<Rightarrow> u32 set" where
  "safe_area L m rs = kept_area (BlPageTable L) m rs - scratch L"

definition load_kept ::
    "'b dt_statics_scheme \<Rightarrow> 'a fs_scheme \<Rightarrow> block list \<Rightarrow> 'a fs_scheme \<Rightarrow> block list \<Rightarrow> bool" where
  "load_kept L s rs s' rs' \<longleftrightarrow> live_data rs' = live_data rs \<and> foot rs' \<subseteq> foot rs \<and> safe_area L (memory s) rs \<subseteq> safe_area L (memory s') rs'
     \<and> same_on (safe_area L (memory s) rs) (memory s) (memory s') \<and> BlRootPartition s' = BlRootPartition s"

lemma load_kept_refl: "load_kept L s rs s rs"
  by (simp add: load_kept_def)

lemma load_kept_trans: "load_kept L s rs s1 rs1 \<Longrightarrow> load_kept L s1 rs1 s2 rs2 \<Longrightarrow> load_kept L s rs s2 rs2"
  unfolding load_kept_def by (auto intro: same_on_trans same_on_mono)

lemma load_readyD:
  assumes "load_ready L disk sectors h file s rs fs"
  shows "heap_inv s rs fs" "tables_ok (memory s) (BlPageTable L) (foot rs)" "\<exists>is. cache_inv L disk sectors s is" "partition_ok sectors s"
    "geometry L h s" "scratch L \<inter> foot rs = {}" "scratch L \<inter> table_span (memory s) (BlPageTable L) = {}"
    "constants L file \<subseteq> safe_area L (memory s) rs"
  using assms by (auto simp: load_ready_def safe_area_def)

lemma geometry_same:
  assumes "geometry L h s" "same_on (span (BiSuperblock L) 236) (memory s) (memory s')" "disk.more s' = disk.more s"
  shows "geometry L h s'"
proof -
  have "same_on (span (BiSuperblock L + of_nat 24) 4) (memory s) (memory s')"
    by (rule same_on_mono [OF assms(2)]) (rule span_sub, simp_all)
  then have "BlockSizeShift L (memory s') = BlockSizeShift L (memory s)" by (simp add: BlockSizeShift_def load32_same_on)
  moreover have "BiBlockSize s' = BiBlockSize s" "BiIndirectionShift s' = BiIndirectionShift s"
    "BiIndirectionCount s' = BiIndirectionCount s" "BiIndirectionMask s' = BiIndirectionMask s"
    using assms(3) by (cases s; cases s'; simp)+
  ultimately show ?thesis using assms(1) by (simp add: geometry_def)
qed

lemma heap_more_parts:
  assumes "heap.more (s' :: 'a fs_scheme) = heap.more s"
  shows "BiBCache s' = BiBCache s" "BiBCacheUsed s' = BiBCacheUsed s" "BlRootPartition s' = BlRootPartition s" "disk.more s' = disk.more s"
  using assms by (cases s; cases s'; simp)+

text \<open>Allocating and mapping.\<close>

lemma mapping_load_kept:
  assumes ready: "load_ready L disk sectors h file s rs fs" and K: "mapping_kept (BlPageTable L) s rs s' rs' fs'"
  shows "load_ready L disk sectors h file s' rs' fs'" "load_kept L s rs s' rs'"
proof -
  note R = load_readyD [OF ready] and M = mapping_keptD [OF K] and P = heap_more_parts [OF mapping_keptD(6) [OF K]]
  have "scratch L \<subseteq> kept_area (BlPageTable L) (memory s) rs" using R(6,7) by (auto simp: kept_area_def)
  then have "same_on (cache_span L) (memory s) (memory s')" by (intro same_on_mono [OF M(5)]) (auto simp: scratch_def)
  then have cache: "\<exists>is. cache_inv L disk sectors s' is" using R(3) cache_inv_same(1) P(1,2) by blast
  have apart: "scratch L \<inter> (foot rs' \<union> table_span (memory s') (BlPageTable L)) = {}" using R(6,7) M(4,7) by blast
  have "constants L file \<subseteq> kept_area (BlPageTable L) (memory s) rs" using R(8) by (auto simp: safe_area_def)
  then have same: "same_on (constants L file) (memory s) (memory s')" by (rule same_on_mono [OF M(5)])
  have geo: "geometry L h s'" by (rule geometry_same [OF R(5) same_on_mono [OF same] P(4)]) (auto simp: constants_def)
  have const: "constants L file \<subseteq> kept_area (BlPageTable L) (memory s') rs' - scratch L" using R(8) M(8) by (auto simp: safe_area_def)
  show "load_ready L disk sectors h file s' rs' fs'"
    unfolding load_ready_def using M(1,2) cache R(4) P(3) geo apart const by (simp add: partition_ok_def)
  have "same_on (safe_area L (memory s) rs) (memory s) (memory s')" by (rule same_on_mono [OF M(5)]) (simp add: safe_area_def)
  then show "load_kept L s rs s' rs'" using M(3,4,8) P(3) by (auto simp: load_kept_def safe_area_def)
qed

section \<open>One page\<close>

text \<open>The area of a page that was just allocated, and what filling it has to do.\<close>

definition fresh_page :: "'b dt_statics_scheme \<Rightarrow> u32 \<Rightarrow> u32 \<Rightarrow> bool" where
  "fresh_page L file p \<longleftrightarrow> fits p 4096 \<and> 4096 dvd unat p \<and> span p 4096 \<inter> (scratch L \<union> constants L file) = {}"

definition fills ::
    "'b dt_statics_scheme \<Rightarrow> (nat \<Rightarrow> u8) \<Rightarrow> u32 \<Rightarrow> (u64 \<Rightarrow> u32 \<Rightarrow> bool) \<Rightarrow> u32 \<Rightarrow> u8 list \<Rightarrow> 'a fs_scheme \<Rightarrow> 'a fs_scheme run \<Rightarrow> bool" where
  "fills L disk sectors fails p bs s r \<longleftrightarrow> (r = crash ''failed to read from disk'' \<and> (\<exists>sector count. fails sector count))
     \<or> (\<exists>s'. r = ret s' \<and> reads L disk sectors (span p 4096 \<union> span (local_value L) 4) s s' \<and> holds (memory s') p bs)"

text \<open>A result of loading: a stop for lack of memory or a failed read, or the state with \<open>Q\<close>.\<close>

definition load_result ::
    "(u64 \<Rightarrow> u32 \<Rightarrow> bool) \<Rightarrow> 'r run \<Rightarrow> ('r \<Rightarrow> bool) \<Rightarrow> bool" where
  "load_result fails r Q \<longleftrightarrow> r = crash ''out of memory'' \<or> (r = crash ''failed to read from disk'' \<and> (\<exists>sector count. fails sector count))
     \<or> (\<exists>x. r = ret x \<and> Q x)"

lemma load_result_bind:
  assumes "load_result fails r Q" "\<And>x. Q x \<Longrightarrow> load_result fails (f x) Q'"
  shows "load_result fails (bind_run r f) Q'"
  using assms(1) unfolding load_result_def [of fails r]
proof (elim disjE exE conjE)
  fix x assume "r = ret x" "Q x"
  then show ?thesis using assms(2) by simp
qed (auto simp: load_result_def)

lemma load_result_mono: "load_result fails r Q \<Longrightarrow> (\<And>x. Q x \<Longrightarrow> Q' x) \<Longrightarrow> load_result fails r Q'"
  unfolding load_result_def by blast

lemma load_result_ret [simp]: "load_result fails (ret x) Q \<longleftrightarrow> Q x"
  by (simp add: load_result_def)

text \<open>\<open>v\<close> is mapped to a byte \<open>c\<close> that no later step changes.\<close>

definition shows_byte :: "'b dt_statics_scheme \<Rightarrow> 'a fs_scheme \<Rightarrow> block list \<Rightarrow> u32 \<Rightarrow> u8 \<Rightarrow> bool" where
  "shows_byte L s rs v c \<longleftrightarrow> (\<exists>q. translate (memory s) (BlPageTable L) v = Some q \<and> memory s q = c \<and> q \<in> safe_area L (memory s) rs)"

definition page_loaded ::
    "'b dt_statics_scheme \<Rightarrow> (nat \<Rightarrow> u8) \<Rightarrow> u32 \<Rightarrow> nat \<Rightarrow> u32 \<Rightarrow> u32 \<Rightarrow> u8 list \<Rightarrow> 'a fs_scheme \<Rightarrow> block list \<Rightarrow> 'a fs_scheme \<Rightarrow> bool" where
  "page_loaded L disk sectors h file current bs s rs s' \<longleftrightarrow> (\<exists>rs' fs'. load_ready L disk sectors h file s' rs' fs' \<and> load_kept L s rs s' rs'
     \<and> (\<forall>v. if v \<in> span current 4096 then shows_byte L s' rs' v (bs ! unat (v - current))
            else translate (memory s') (BlPageTable L) v = translate (memory s) (BlPageTable L) v))"

text \<open>The file and the header stay what they are.\<close>

lemma piece_same: "same_on (span a n) m m' \<Longrightarrow> i + k \<le> n \<Longrightarrow> n \<le> 2 ^ 32 \<Longrightarrow> same_on (span (a + of_nat i) k) m m'"
  using span_sub same_on_mono by metis

lemma BlFsFileSize_same:
  assumes "same_on (constants L file) (memory s) (memory s')"
  shows "BlFsFileSize L file s' = BlFsFileSize L file s"
proof -
  have sb: "same_on (span (BiSuperblock L) 236) (memory s) (memory s')" and i: "same_on (span file 128) (memory s) (memory s')"
    by (rule same_on_mono [OF assms], simp add: constants_def, blast)+
  from piece_same [OF sb, of 100 4] piece_same [OF i, of 4 4] piece_same [OF i, of 108 4] piece_same [OF i, of 0 2] have
    "WriteRequiredFeatures L (memory s') = WriteRequiredFeatures L (memory s)" "InodeSize (memory s') file = InodeSize (memory s) file"
    "SizeUpper (memory s') file = SizeUpper (memory s) file" "InodeMode (memory s') file = InodeMode (memory s) file"
    by (simp_all add: WriteRequiredFeatures_def InodeSize_def InodeMode_def SizeUpper_def load32_same_on load16_same_on)
  note same = this
  show ?thesis unfolding BlFsFileSize_def BiInodeSize_def same ..
qed

lemma header_same:
  assumes "same_on (constants L file) m m'"
  shows "load32 m' (KernelVirtualAddr L) = load32 m (KernelVirtualAddr L)" "load32 m' (KernelMSize L) = load32 m (KernelMSize L)"
proof -
  have h: "same_on (span (BlKernelHeader L) 32) m m'" by (rule same_on_mono [OF assms]) (simp add: constants_def)
  from piece_same [OF h, of 8 4] piece_same [OF h, of 12 4] show
    "load32 m' (KernelVirtualAddr L) = load32 m (KernelVirtualAddr L)" "load32 m' (KernelMSize L) = load32 m (KernelMSize L)"
    by (simp_all add: KernelVirtualAddr_def KernelMSize_def load32_same_on)
qed

text \<open>Writing is reading without a disk.\<close>

lemma reads_write:
  assumes "cache_inv L disk sectors s is" "same_outside W (memory s) (f (memory s))" "W \<inter> cache_span L = {}"
  shows "reads L disk sectors W s (write_mem f s)"
proof -
  have "cache_inv L disk sectors (write_mem f s) is"
    by (rule cache_inv_same(1) [OF assms(1)]) (use same_outside_on [OF assms(2,3)] in \<open>simp_all add: write_mem_def\<close>)
  moreover have "same_outside (W \<union> cache_span L) (memory s) (f (memory s))" by (rule same_outside_mono [OF assms(2)]) blast
  ultimately show ?thesis unfolding reads_def by (auto simp: write_mem_def besides_cache_def)
qed

text \<open>A file that can be read: its inode in memory, its size, its blocks in the partition.\<close>

definition file_ready ::
    "'b dt_statics_scheme \<Rightarrow> (nat \<Rightarrow> u8) \<Rightarrow> nat \<Rightarrow> nat \<Rightarrow> (nat \<Rightarrow> u32) \<Rightarrow> (nat \<Rightarrow> u32) \<Rightarrow> u32 \<Rightarrow> nat \<Rightarrow> 'a fs_scheme \<Rightarrow> bool" where
  "file_ready L P h Z D I file n s \<longleftrightarrow> inode_at (memory s) file D I \<and> unat (BlFsFileSize L file s) = n \<and> n < 2 ^ 32
     \<and> (\<forall>k. k * 2 ^ h < n \<longrightarrow> block_ok P h Z D I k)"

lemma file_ready_same:
  assumes "file_ready L P h Z D I file n s" "same_on (constants L file) (memory s) (memory s')"
  shows "file_ready L P h Z D I file n s'"
proof -
  have "same_on (span file 128) (memory s) (memory s')" by (rule same_on_mono [OF assms(2)]) (auto simp: constants_def)
  then show ?thesis using assms inode_at_same BlFsFileSize_same [OF assms(2)] by (auto simp: file_ready_def)
qed

context boot_disk
begin

text \<open>Reading into an area that is neither heap nor table.\<close>

lemma reads_load_kept:
  assumes ready: "load_ready L disk sectors h file s rs fs" and L: "fs_layout L" and r: "reads L disk sectors (W \<union> span (local_value L) 4) s s'"
    and W: "W \<inter> header_span (bases rs) = {}" "W \<inter> table_span (memory s) (BlPageTable L) = {}" "W \<inter> constants L file = {}"
  shows "load_ready L disk sectors h file s' rs fs" "translate (memory s') (BlPageTable L) v = translate (memory s) (BlPageTable L) v"
    "same_outside (W \<union> scratch L) (memory s) (memory s')" "BlRootPartition s' = BlRootPartition s"
    "table_span (memory s') (BlPageTable L) = table_span (memory s) (BlPageTable L)"
proof -
  note R = load_readyD [OF ready]
  have out: "same_outside (W \<union> scratch L) (memory s) (memory s')" and b: "besides_cache s' = besides_cache s"
    using r unfolding reads_def scratch_def by (simp_all add: ac_simps)
  show "same_outside (W \<union> scratch L) (memory s) (memory s')" by (rule out)
  have ord: "ordered 1 rs" using R(1) by (simp add: heap_inv_def)
  have hd: "(W \<union> scratch L) \<inter> header_span (bases rs) = {}" using W(1) R(6) header_span_in_foot [OF ord] by blast
  have tb: "(W \<union> scratch L) \<inter> table_span (memory s) (BlPageTable L) = {}" using W(2) R(7) by blast
  note H = heap_inv_write [OF R(1,2) out hd tb]
  have lists: "BlHeapRanges s' = BlHeapRanges s" "BlFreeRanges s' = BlFreeRanges s" using b by (simp_all add: besides_cache_def)
  have inv: "heap_inv s' rs fs" using H(1) lists by (auto simp: heap_inv_def heap_rep_def)
  have "(W \<union> span (local_value L) 4) \<inter> span (BiSuperblock L) 236 = {}"
    using W(3) L by (auto simp: constants_def fs_layout_def)
  from reads_keep [OF r R(5,4) L this] obtain is' where k: "cache_inv L disk sectors s' is'" "partition_ok sectors s'" "geometry L h s'"
    "BlRootPartition s' = BlRootPartition s" .
  show "translate (memory s') (BlPageTable L) v = translate (memory s) (BlPageTable L) v" by (rule H(3))
  show "BlRootPartition s' = BlRootPartition s" by (rule k(4))
  show "table_span (memory s') (BlPageTable L) = table_span (memory s) (BlPageTable L)" by (rule H(4))
  show "load_ready L disk sectors h file s' rs fs"
    unfolding load_ready_def using inv H(2) k R(6-8) by (auto simp: safe_area_def kept_area_def H(4))
qed

lemma map_new_page_spec:
  assumes ready: "load_ready L disk sectors h file s rs fs" and L: "fs_layout L" and al: "4096 dvd unat current" and len: "length bs = 4096"
    and fill: "\<And>p s1 rs1 fs1. load_ready L disk sectors h file s1 rs1 fs1 \<Longrightarrow> load_kept L s rs s1 rs1 \<Longrightarrow> fresh_page L file p \<Longrightarrow>
      fills L disk sectors fails p bs s1 (fill p s1)"
  shows "load_result fails (map_new_page L fill current s) (page_loaded L disk sectors h file current bs s rs)"
proof -
  let ?pt = "BlPageTable L"
  note R = load_readyD [OF ready]
  from heap_page_kept [OF R(1,2)] consider "heap_page s = crash ''out of memory''"
    | p s1 rs1 fs1 where "heap_page s = ret (p, s1)" "mapping_kept ?pt s rs s1 rs1 fs1" "4096 dvd unat p" "fits p 4096"
      "span p 4096 \<subseteq> foot rs - foot rs1" "span p 4096 \<inter> live_data rs = {}" "span p 4096 \<inter> table_span (memory s1) ?pt = {}"
      "\<forall>v. translate (memory s1) ?pt v = translate (memory s) ?pt v" by blast
  then show ?thesis
  proof cases
    case 1
    then show ?thesis by (simp add: load_result_def map_new_page_def)
  next
    case a: 2
    note K1 = mapping_load_kept [OF ready a(2)]
    note R1 = load_readyD [OF K1(1)]
    have out: "span p 4096 \<inter> kept_area ?pt (memory s) rs = {}" using a(5,6) by (auto simp: kept_area_def)
    have cons: "span p 4096 \<inter> constants L file = {}" using out R(8) by (auto simp: safe_area_def)
    have scr: "span p 4096 \<inter> scratch L = {}" using a(5) R(6) by blast
    have "fresh_page L file p" using a(3,4) cons scr by (auto simp: fresh_page_def)
    from fill [OF K1 this] consider "fill p s1 = crash ''failed to read from disk''" "\<exists>sector count. fails sector count"
      | s2 where "fill p s1 = ret s2" "reads L disk sectors (span p 4096 \<union> span (local_value L) 4) s1 s2" "holds (memory s2) p bs"
      unfolding fills_def by blast
    then show ?thesis
    proof cases
      case 1
      then show ?thesis using a(1) by (simp add: load_result_def map_new_page_def)
    next
      case b: 2
      have ord: "ordered 1 rs1" using R1(1) by (simp add: heap_inv_def)
      have hd: "span p 4096 \<inter> header_span (bases rs1) = {}" using header_span_in_foot [OF ord] a(5) by blast
      note K2 = reads_load_kept [OF K1(1) L b(2) hd a(7) cons]
      have page: "span p 4096 \<subseteq> safe_area L (memory s2) rs1" using a(5,7) scr K2(5) by (auto simp: safe_area_def kept_area_def)
      have same2: "safe_area L (memory s2) rs1 = safe_area L (memory s1) rs1" by (simp add: safe_area_def kept_area_def K2(5))
      have kept2: "load_kept L s rs s2 rs1"
      proof -
        have "(span p 4096 \<union> scratch L) \<inter> safe_area L (memory s) rs = {}" using out by (auto simp: safe_area_def)
        from same_outside_on [OF K2(3) this] K1(2) K2(4) show ?thesis
          unfolding load_kept_def same2 by (auto intro: same_on_trans)
      qed
      from BlMapPage_kept [OF load_readyD(1,2) [OF K2(1)] al a(3)]
      consider "BlMapPage ?pt current p s2 = crash ''out of memory''"
        | s3 rs3 fs3 where "BlMapPage ?pt current p s2 = ret s3" "mapping_kept ?pt s2 rs1 s3 rs3 fs3"
          "\<forall>v. translate (memory s3) ?pt v = (if v \<in> span current 4096 then Some (p + (v - current)) else translate (memory s2) ?pt v)" by blast
      then show ?thesis
      proof cases
        case 1
        then show ?thesis using a(1) b(1) by (simp add: load_result_def map_new_page_def)
      next
        case c: 2
        note K3 = mapping_load_kept [OF K2(1) c(2)]
        have "shows_byte L s3 rs3 v (bs ! unat (v - current))" if v: "v \<in> span current 4096" for v
        proof -
          let ?q = "p + (v - current)"
          have n: "unat (v - current) < 4096" using v by (simp add: span_def)
          then have q: "?q \<in> span p 4096" by (simp add: span_def)
          have "memory s2 ?q = bs ! unat (v - current)" using holds_nth [OF b(3), of "unat (v - current)"] n len by simp
          moreover have "memory s3 ?q = memory s2 ?q" "?q \<in> safe_area L (memory s3) rs3" using K3(2) q page by (auto simp: load_kept_def same_on_def)
          ultimately show ?thesis using c(3) v by (simp add: shows_byte_def)
        qed
        then have "page_loaded L disk sectors h file current bs s rs s3"
          unfolding page_loaded_def using K3(1) load_kept_trans [OF kept2 K3(2)] c(3) K2(2) a(8) by auto
        then show ?thesis using a(1) b(1) c(1) by (simp add: map_new_page_def)
      qed
    qed
  qed
qed

text \<open>Zeroes, a part of the file and zeroes again.\<close>

lemma fill_parts:
  fixes position :: u64
  assumes ready: "load_ready L disk sectors h file s rs fs" and L: "fs_layout L" and p: "fresh_page L file p"
    and P: "P = (\<lambda>k. disk (unat (Start (BlRootPartition s)) + k))" and fl: "file_ready L P h (psize s) D I file n s"
    and parts: "hc + rc + tc = 4096" and range: "unat position + rc \<le> n" and al: "byp \<longrightarrow> 512 dvd hc \<and> 512 dvd unat position \<and> 512 dvd rc"
  shows "fills L disk sectors fails p (replicate hc 0 @ map (file_byte P h D I) [unat position..<unat position + rc] @ replicate tc 0) s
    (bind_run (BlFsFileRead L read file (p + of_nat hc) (of_nat rc) position byp (write_mem (\<lambda>m. BlFillMemory m p 0 (of_nat hc)) s))
      (\<lambda>s. ret (write_mem (\<lambda>m. BlFillMemory m (p + of_nat hc + of_nat rc) 0 (of_nat tc)) s)))"
proof -
  let ?bs = "map (file_byte P h D I) [unat position..<unat position + rc]"
  let ?W = "span p 4096" let ?b = "p + of_nat hc" let ?c = "?b + of_nat rc"
  have fresh: "fits p 4096" "4096 dvd unat p" "?W \<inter> scratch L = {}" "?W \<inter> constants L file = {}" using p by (auto simp: fresh_page_def)
  have lt: "hc \<le> 4096" "rc \<le> 4096" "tc \<le> 4096" using parts by linarith+
  have u: "unat (of_nat hc :: u32) = hc" "unat (of_nat rc :: u32) = rc" "unat (of_nat tc :: u32) = tc"
    using lt by (simp_all add: unat_of_nat take_bit_eq_mod)
  have c: "?c = p + of_nat (hc + rc)" by simp
  have sub: "span p hc \<subseteq> ?W" "span ?b rc \<subseteq> ?W" "span ?c tc \<subseteq> ?W" "span p hc \<inter> span ?b rc = {}" "span p (hc + rc) \<inter> span ?c tc = {}"
    using parts span_mono [of hc 4096 p] span_sub [of hc rc 4096 p] span_sub [of "hc + rc" tc 4096 p]
      span_disjoint_off [of 0 hc hc rc p] span_disjoint_off [of 0 "hc + rc" "hc + rc" tc p] unfolding c by simp_all
  obtain "is" where inv: "cache_inv L disk sectors s is" using load_readyD(3) [OF ready] by blast
  let ?s1 = "write_mem (\<lambda>m. BlFillMemory m p 0 (of_nat hc)) s"
  have m1: "memory ?s1 = store_bytes (memory s) p (replicate hc 0)" by (simp add: write_mem_def BlFillMemory_store_bytes u)
  have cs: "cache_span L \<subseteq> scratch L" "span (local_value L) 4 \<subseteq> scratch L" by (auto simp: scratch_def)
  have r1: "reads L disk sectors ?W s ?s1"
  proof (rule reads_write [OF inv])
    show "same_outside ?W (memory s) (BlFillMemory (memory s) p 0 (of_nat hc))"
      using same_outside_mono [OF store_bytes_same_outside [of p "replicate hc 0" "memory s"], of ?W] sub(1) by (simp add: BlFillMemory_store_bytes u)
  qed (use fresh(3) cs in blast)
  have sbW: "?W \<inter> span (BiSuperblock L) 236 = {}" "?W \<inter> span file 128 = {}" using fresh(4) by (auto simp: constants_def)
  from reads_keep [OF r1 load_readyD(5,4) [OF ready] L sbW(1)] obtain is1 where k1: "cache_inv L disk sectors ?s1 is1" "partition_ok sectors ?s1"
    "geometry L h ?s1" "BlRootPartition ?s1 = BlRootPartition s" .
  have const: "same_on (constants L file) (memory s) (memory ?s1)"
    unfolding m1 by (rule same_outside_on [OF store_bytes_same_outside]) (use sub(1) fresh(4) in auto)
  note file1 = file_ready_same [OF fl const]
  have kc: "constants L file \<inter> scratch L = {}" using load_readyD(8) [OF ready] by (auto simp: safe_area_def)
  have apart: "read_apart L file ?b (unat (of_nat rc :: u32))"
    unfolding read_apart_def u using fits_sub [OF fresh(1), of hc rc] parts sub(2) fresh(3,4) cs kc by (auto simp: constants_def)
  have "file_read L disk sectors fails ?b ?bs ?s1 (BlFsFileRead L read file ?b (of_nat rc) position byp ?s1)"
  proof (cases "rc = 0")
    case True
    then have "BlFsFileRead L read file ?b (of_nat rc) position byp ?s1 = ret ?s1" by (simp add: BlFsFileRead_def)
    moreover have "reads L disk sectors (span ?b 0 \<union> span (local_value L) 4) ?s1 ?s1" using k1(1) by (auto simp: reads_def)
    ultimately show ?thesis using True by (simp add: file_read_def holds_def)
  next
    case False
    have size: "unat (BlFsFileSize L file ?s1) = n" "n < 2 ^ 32" using file1 by (simp_all add: file_ready_def)
    have "\<not> position \<ge> BlFsFileSize L file ?s1" using False range size by (simp add: word_le_nat_alt)
    moreover have "(of_nat rc :: u32) \<noteq> 0" using False u(2) by (metis unsigned_0)
    ultimately have run: "BlFsFileRead L read file ?b (of_nat rc) position byp ?s1 = BiReadFromInode L read file ?b (of_nat rc) position byp ?s1"
      using BlFsFileRead_cases [of L "file" ?s1] size by simp
    have "file_read L disk sectors fails ?b (map (file_byte P h D I) [unat position..<unat position + unat (of_nat rc :: u32)]) ?s1
        (BiReadFromInode L read file ?b (of_nat rc) position byp ?s1)"
    proof (rule BiReadFromInode_spec [OF L P k1 _ apart])
      show "inode_at (memory ?s1) file D I" using file1 by (simp add: file_ready_def)
      show "unat position + unat (of_nat rc :: u32) < 2 ^ 64" using range size(2) u(2) by simp
      show "block_ok P h (psize s) D I k" if "k * 2 ^ h < unat position + unat (of_nat rc :: u32)" for k
      proof -
        have "k * 2 ^ h < n" using that range u(2) by linarith
        then show ?thesis using fl by (simp add: file_ready_def)
      qed
      show "byp \<longrightarrow> 512 dvd unat ?b \<and> 512 dvd unat position \<and> 512 dvd unat (of_nat rc :: u32)"
      proof
        assume byp
        have "512 dvd (4096 :: nat)" by simp
        then have "512 dvd unat p" using fresh(2) dvd_trans by blast
        moreover have "unat ?b = unat p + hc \<or> rc = 0 \<and> hc = 4096"
          using unat_off [OF fresh(1), of hc] parts False by simp
        ultimately show "512 dvd unat ?b \<and> 512 dvd unat position \<and> 512 dvd unat (of_nat rc :: u32)"
          using al \<open>byp\<close> False u(2) by auto
      qed
    qed
    then show ?thesis unfolding run u .
  qed
  then consider "BlFsFileRead L read file ?b (of_nat rc) position byp ?s1 = crash ''failed to read from disk''" "\<exists>sector count. fails sector count"
    | s2 where "BlFsFileRead L read file ?b (of_nat rc) position byp ?s1 = ret s2" "reads L disk sectors (span ?b rc \<union> span (local_value L) 4) ?s1 s2"
      "holds (memory s2) ?b ?bs"
    unfolding file_read_def by auto
  then show ?thesis
  proof cases
    case 1
    then show ?thesis by (simp add: fills_def)
  next
    case r: 2
    let ?s3 = "write_mem (\<lambda>m. BlFillMemory m ?c 0 (of_nat tc)) s2"
    have m3: "memory ?s3 = store_bytes (memory s2) ?c (replicate tc 0)" by (simp add: write_mem_def BlFillMemory_store_bytes u)
    obtain is2 where inv2: "cache_inv L disk sectors s2 is2" using r(2) by (auto simp: reads_def)
    have out3: "same_outside (span ?c tc) (memory s2) (memory ?s3)"
      using store_bytes_same_outside [of ?c "replicate tc 0" "memory s2"] by (simp add: m3)
    have r3: "reads L disk sectors ?W s2 ?s3"
    proof (rule reads_write [OF inv2])
      show "same_outside ?W (memory s2) (BlFillMemory (memory s2) ?c 0 (of_nat tc))"
        using same_outside_mono [OF out3 sub(3)] by (simp add: write_mem_def)
    qed (use fresh(3) cs in blast)
    have all: "reads L disk sectors (?W \<union> span (local_value L) 4) s ?s3"
      by (rule reads_trans [OF reads_mono [OF r1] reads_trans [OF reads_mono [OF r(2)] reads_mono [OF r3]]]) (use sub(2) in blast)+
    have h1: "holds (memory ?s1) p (replicate hc 0)" unfolding m1 by (rule holds_store_bytes) (use lt in simp)
    have out2: "same_outside (span ?b rc \<union> scratch L) (memory ?s1) (memory s2)" using r(2) by (simp add: reads_def scratch_def ac_simps)
    have "same_on (span p hc) (memory ?s1) (memory s2)" by (rule same_outside_on [OF out2]) (use sub(1,4) fresh(3) in blast)
    then have "holds (memory s2) p (replicate hc 0)" by (intro holds_same [OF h1]) (use lt in simp_all)
    then have h2: "holds (memory s2) p (replicate hc 0 @ ?bs)" using r(3) by (simp add: holds_append)
    have "same_on (span p (hc + rc)) (memory s2) (memory ?s3)" by (rule same_outside_on [OF out3]) (use sub(5) in blast)
    then have "holds (memory ?s3) p (replicate hc 0 @ ?bs)" by (intro holds_same [OF h2]) (use lt in simp_all)
    moreover have "holds (memory ?s3) ?c (replicate tc 0)" unfolding m3 by (rule holds_store_bytes) (use lt in simp)
    ultimately have "holds (memory ?s3) p ((replicate hc 0 @ ?bs) @ replicate tc 0)" unfolding holds_append by (simp add: c add.assoc)
    then show ?thesis using all r(1) by (simp add: fills_def)
  qed
qed

end

end
