(* ===== verification/Image_Load.thy ===== *)
theory Image_Load
  imports Kernel_Image
begin

text \<open>
  The loops of \<open>load_image\<close>: each covers a range of virtual addresses with pages that show the kernel's bytes, and the ranges join
  to the image.
\<close>

section \<open>Ranges of virtual addresses\<close>

definition vrange :: "nat \<Rightarrow> nat \<Rightarrow> u32 set" where "vrange a b = {v. a \<le> unat v \<and> unat v < b}"

lemma vrange_page: "4096 dvd unat a \<Longrightarrow> span a 4096 = vrange (unat a) (unat a + 4096)"
proof -
  assume "4096 dvd unat a"
  then obtain k where k: "unat a = 4096 * k" by (auto elim: dvdE)
  then have "fits a 4096" using unat_lt32 [of a] by (simp add: fits_def)
  then show ?thesis by (auto simp: vrange_def span_fits)
qed

lemma vrange_join: "a \<le> b \<Longrightarrow> b \<le> c \<Longrightarrow> v \<in> vrange a c \<longleftrightarrow> v \<in> vrange a b \<or> v \<in> vrange b c"
  by (auto simp: vrange_def)

lemma vrange_empty [simp]: "v \<notin> vrange a a"
  by (simp add: vrange_def)

text \<open>The pages from \<open>a\<close> to \<open>b\<close> show the bytes \<open>C\<close>, everything else is translated as before.\<close>

definition loaded ::
    "'b dt_statics_scheme \<Rightarrow> (nat \<Rightarrow> u8) \<Rightarrow> u32 \<Rightarrow> nat \<Rightarrow> u32 \<Rightarrow> (u32 \<Rightarrow> u8) \<Rightarrow> nat \<Rightarrow> nat \<Rightarrow> 'a fs_scheme \<Rightarrow> block list \<Rightarrow> 'a fs_scheme \<Rightarrow> bool" where
  "loaded L disk sectors h file C a b s rs s' \<longleftrightarrow> (\<exists>rs' fs'. load_ready L disk sectors h file s' rs' fs' \<and> load_kept L s rs s' rs'
     \<and> (\<forall>v. if v \<in> vrange a b then shows_byte L s' rs' v (C v)
            else translate (memory s') (BlPageTable L) v = translate (memory s) (BlPageTable L) v))"

lemma loaded_nothing: "load_ready L disk sectors h file s rs fs \<Longrightarrow> loaded L disk sectors h file C a a s rs s"
  unfolding loaded_def by (intro exI [of _ rs] exI [of _ fs]) (simp add: load_kept_refl)

lemma shows_byte_kept:
  assumes "shows_byte L s rs v c" "load_kept L s rs s' rs'" "translate (memory s') (BlPageTable L) v = translate (memory s) (BlPageTable L) v"
  shows "shows_byte L s' rs' v c"
  using assms by (auto simp: shows_byte_def load_kept_def same_on_def)

lemma loaded_join:
  assumes a: "load_kept L s rs s1 rs1" "\<forall>v. if v \<in> vrange a b then shows_byte L s1 rs1 v (C v)
            else translate (memory s1) (BlPageTable L) v = translate (memory s) (BlPageTable L) v"
    and b: "loaded L disk sectors h file C b c s1 rs1 s2" and le: "a \<le> b" "b \<le> c"
  shows "loaded L disk sectors h file C a c s rs s2"
proof -
  obtain rs2 fs2 where B: "load_ready L disk sectors h file s2 rs2 fs2" "load_kept L s1 rs1 s2 rs2"
    "\<forall>v. if v \<in> vrange b c then shows_byte L s2 rs2 v (C v)
            else translate (memory s2) (BlPageTable L) v = translate (memory s1) (BlPageTable L) v"
    using b unfolding loaded_def by blast
  have "if v \<in> vrange a c then shows_byte L s2 rs2 v (C v)
      else translate (memory s2) (BlPageTable L) v = translate (memory s) (BlPageTable L) v" for v
    using a(2) [rule_format, of v] B(3) [rule_format, of v] shows_byte_kept [OF _ B(2)] vrange_join [OF le, of v]
    by (auto split: if_splits)
  then show ?thesis unfolding loaded_def using B(1) load_kept_trans [OF a(1) B(2)] by blast
qed

lemma load_then:
  assumes r: "load_result fails r (\<lambda>x. E x \<and> loaded L disk sectors h file C a b s rs (g x))" and le: "a \<le> b" "b \<le> c"
    and f: "\<And>x rs1 fs1. E x \<Longrightarrow> load_ready L disk sectors h file (g x) rs1 fs1 \<Longrightarrow> load_kept L s rs (g x) rs1 \<Longrightarrow>
      load_result fails (f x) (\<lambda>y. E' y \<and> loaded L disk sectors h file C b c (g x) rs1 (g' y))"
  shows "load_result fails (bind_run r f) (\<lambda>y. E' y \<and> loaded L disk sectors h file C a c s rs (g' y))"
proof (rule load_result_bind [OF r])
  fix x assume x: "E x \<and> loaded L disk sectors h file C a b s rs (g x)"
  then obtain rs1 fs1 where A: "load_ready L disk sectors h file (g x) rs1 fs1" "load_kept L s rs (g x) rs1"
    "\<forall>v. if v \<in> vrange a b then shows_byte L (g x) rs1 v (C v)
            else translate (memory (g x)) (BlPageTable L) v = translate (memory s) (BlPageTable L) v"
    unfolding loaded_def by blast
  show "load_result fails (f x) (\<lambda>y. E' y \<and> loaded L disk sectors h file C a c s rs (g' y))"
    by (rule load_result_mono [OF f [OF conjunct1 [OF x] A(1,2)]]) (use loaded_join [OF A(2,3) _ le] in blast)
qed

text \<open>One page.\<close>

lemma page_loaded_range:
  assumes "page_loaded L disk sectors h file current bs s rs s'" "4096 dvd unat current"
    and "\<And>v. v \<in> vrange (unat current) (unat current + 4096) \<Longrightarrow> bs ! unat (v - current) = C v"
  shows "loaded L disk sectors h file C (unat current) (unat current + 4096) s rs s'"
proof -
  have "(if v \<in> span current 4096 then shows_byte L s' rs' v (bs ! unat (v - current))
            else translate (memory s') (BlPageTable L) v = translate (memory s) (BlPageTable L) v)
    = (if v \<in> vrange (unat current) (unat current + 4096) then shows_byte L s' rs' v (C v)
            else translate (memory s') (BlPageTable L) v = translate (memory s) (BlPageTable L) v)" for v rs'
    using assms(3) [of v] by (simp add: vrange_page [OF assms(2)])
  then show ?thesis using assms(1) unfolding page_loaded_def loaded_def by simp
qed

section \<open>The kernel's bytes\<close>

definition kernel_byte :: "(nat \<Rightarrow> u8) \<Rightarrow> nat \<Rightarrow> (nat \<Rightarrow> u32) \<Rightarrow> (nat \<Rightarrow> u32) \<Rightarrow> nat \<Rightarrow> nat \<Rightarrow> u32 \<Rightarrow> u8" where
  "kernel_byte P h D I va n v = (if va \<le> unat v \<and> unat v < va + n then file_byte P h D I (unat v - va) else 0)"

text \<open>A page made of zeroes, \<open>rc\<close> bytes of the file and zeroes.\<close>

lemma kernel_page:
  assumes "hc + rc + tc = 4096" and a: "unat current + 4096 \<le> 2 ^ 32" and "rc = 0 \<longrightarrow> unat current + 4096 \<le> va \<or> va + n \<le> unat current \<or> n = 0"
    and "rc \<noteq> 0 \<longrightarrow> unat current + hc = va + off" "rc \<noteq> 0 \<longrightarrow> off + rc \<le> n" "rc \<noteq> 0 \<and> hc \<noteq> 0 \<longrightarrow> off = 0" "rc \<noteq> 0 \<and> tc \<noteq> 0 \<longrightarrow> off + rc = n"
    and v: "v \<in> vrange (unat current) (unat current + 4096)"
  shows "(replicate hc 0 @ map (file_byte P h D I) [off..<off + rc] @ replicate tc 0) ! unat (v - current) = kernel_byte P h D I va n v"
proof -
  have i: "unat (v - current) = unat v - unat current" using v by (subst unat_sub) (auto simp: vrange_def word_le_nat_alt)
  define k where "k = unat v - unat current"
  have k: "unat v = unat current + k" "k < 4096" using v by (auto simp: k_def vrange_def)
  consider "k < hc" | "hc \<le> k" "k < hc + rc" | "hc + rc \<le> k" by linarith
  then show ?thesis
    unfolding i k_def [symmetric]
  proof cases
    case 1
    then show "(replicate hc 0 @ map (file_byte P h D I) [off..<off + rc] @ replicate tc 0) ! k = kernel_byte P h D I va n v"
      using assms(1,3-6) k by (cases "rc = 0") (auto simp: nth_append kernel_byte_def)
  next
    case 2
    then have "va \<le> unat v" "unat v < va + n" "unat v - va = off + (k - hc)" using assms(4,5) k by auto
    then show "(replicate hc 0 @ map (file_byte P h D I) [off..<off + rc] @ replicate tc 0) ! k = kernel_byte P h D I va n v"
      using 2 by (auto simp: nth_append kernel_byte_def)
  next
    case 3
    then have "k - hc - rc < tc" using k assms(1) by linarith
    then show "(replicate hc 0 @ map (file_byte P h D I) [off..<off + rc] @ replicate tc 0) ! k = kernel_byte P h D I va n v"
      using 3 assms(1,3-7) k by (cases "rc = 0") (auto simp: nth_append kernel_byte_def)
  qed
qed

lemma unat_small: "k \<le> 4096 \<Longrightarrow> unat (of_nat k :: u32) = k"
  by (simp add: unat_of_nat take_bit_eq_mod)

lemma unat_BL_MIN: "unat (BL_MIN x y) = min (unat x) (unat y)"
  by (simp add: BL_MIN_def word_less_nat_alt word_le_nat_alt min_def)

lemma fill_nothing [simp]: "BlFillMemory m a v 0 = m" "write_mem (\<lambda>m. m) s = s"
  by (simp_all add: BlFillMemory_store_bytes write_mem_def)

lemma bind_run_ret [simp]: "bind_run r ret = r"
  by (cases r rule: run_cases) simp_all

section \<open>The loops\<close>

text \<open>Everything the loops rely on: \<open>rp\<close> is the partition, \<open>P\<close> its bytes, \<open>va\<close> the address the header gives and \<open>n\<close> the size of the file.\<close>

definition image_ready ::
    "'b dt_statics_scheme \<Rightarrow> (nat \<Rightarrow> u8) \<Rightarrow> u32 \<Rightarrow> nat \<Rightarrow> u32 \<Rightarrow> (nat \<Rightarrow> u32) \<Rightarrow> (nat \<Rightarrow> u32) \<Rightarrow> nat \<Rightarrow> u32 \<Rightarrow> BlPartition \<Rightarrow> 'a fs_scheme \<Rightarrow> block list \<Rightarrow> u32 list \<Rightarrow> bool" where
  "image_ready L disk sectors h file D I n va rp s rs fs \<longleftrightarrow> load_ready L disk sectors h file s rs fs
     \<and> file_ready L (\<lambda>k. disk (unat (Start rp) + k)) h (unat (PartSize rp)) D I file n s
     \<and> load32 (memory s) (KernelVirtualAddr L) = va \<and> BlRootPartition s = rp"

lemma load_kept_constants: "load_ready L disk sectors h file s rs fs \<Longrightarrow> load_kept L s rs s' rs' \<Longrightarrow> same_on (constants L file) (memory s) (memory s')"
  using load_readyD(8) same_on_mono unfolding load_kept_def by metis

lemma image_ready_kept:
  assumes "image_ready L disk sectors h file D I n va rp s rs fs" "load_ready L disk sectors h file s' rs' fs'" "load_kept L s rs s' rs'"
  shows "image_ready L disk sectors h file D I n va rp s' rs' fs'"
proof -
  have same: "same_on (constants L file) (memory s) (memory s')" using load_kept_constants [OF _ assms(3)] assms(1) by (auto simp: image_ready_def)
  show ?thesis using assms file_ready_same [OF _ same] header_same(1) [OF same] by (auto simp: image_ready_def load_kept_def)
qed

context boot_disk
begin

text \<open>A page that is filled with zeroes, a part of the file and zeroes.\<close>

lemma image_page:
  fixes position :: u64
  assumes ready: "image_ready L disk sectors h file D I n va rp s rs fs" and L: "fs_layout L" and al: "4096 dvd unat current"
    and parts: "hc + rc + tc = 4096" and range: "unat position + rc \<le> n" and byp: "byp \<longrightarrow> 512 dvd hc \<and> 512 dvd unat position \<and> 512 dvd rc"
    and bytes: "rc = 0 \<longrightarrow> unat current + 4096 \<le> unat va \<or> unat va + n \<le> unat current \<or> n = 0"
      "rc \<noteq> 0 \<longrightarrow> unat current + hc = unat va + unat position" "rc \<noteq> 0 \<and> hc \<noteq> 0 \<longrightarrow> unat position = 0"
      "rc \<noteq> 0 \<and> tc \<noteq> 0 \<longrightarrow> unat position + rc = n"
    and fill: "\<And>p s1. load32 (memory s1) (KernelVirtualAddr L) = va \<Longrightarrow> fill p s1 =
      bind_run (BlFsFileRead L read file (p + of_nat hc) (of_nat rc) position byp (write_mem (\<lambda>m. BlFillMemory m p 0 (of_nat hc)) s1))
      (\<lambda>s. ret (write_mem (\<lambda>m. BlFillMemory m (p + of_nat hc + of_nat rc) 0 (of_nat tc)) s))"
  shows "load_result fails (map_new_page L fill current s)
    (loaded L disk sectors h file (kernel_byte (\<lambda>k. disk (unat (Start rp) + k)) h D I (unat va) n) (unat current) (unat current + 4096) s rs)"
proof -
  let ?P = "\<lambda>k. disk (unat (Start rp) + k)"
  let ?bs = "replicate hc 0 @ map (file_byte ?P h D I) [unat position..<unat position + rc] @ replicate tc 0"
  have r: "load_ready L disk sectors h file s rs fs" using ready by (simp add: image_ready_def)
  have "load_result fails (map_new_page L fill current s) (page_loaded L disk sectors h file current ?bs s rs)"
  proof (rule map_new_page_spec [OF r L al])
    show "length ?bs = 4096" using parts by simp
    fix p s1 rs1 fs1
    assume r1: "load_ready L disk sectors h file s1 rs1 fs1" and k1: "load_kept L s rs s1 rs1" and p: "fresh_page L file p"
    from image_ready_kept [OF ready r1 k1] have i: "file_ready L ?P h (unat (PartSize rp)) D I file n s1"
      "load32 (memory s1) (KernelVirtualAddr L) = va" "BlRootPartition s1 = rp"
      by (simp_all add: image_ready_def)
    show "fills L disk sectors fails p ?bs s1 (fill p s1)"
      unfolding fill [OF i(2)] using fill_parts [OF r1 L p _ _ parts range byp, of ?P D I] i(1,3) by simp
  qed
  then show ?thesis
  proof (rule load_result_mono)
    have top: "unat current + 4096 \<le> 2 ^ 32" using al unat_lt32 [of current] by (auto elim!: dvdE)
    fix s' assume "page_loaded L disk sectors h file current ?bs s rs s'"
    then show "loaded L disk sectors h file (kernel_byte ?P h D I (unat va) n) (unat current) (unat current + 4096) s rs s'"
      by (rule page_loaded_range [OF _ al]) (use kernel_page [OF parts top bytes(1,2) _ bytes(3,4)] range in blast)
  qed
qed

abbreviation (input) image :: "BlPartition \<Rightarrow> nat \<Rightarrow> (nat \<Rightarrow> u32) \<Rightarrow> (nat \<Rightarrow> u32) \<Rightarrow> u32 \<Rightarrow> nat \<Rightarrow> u32 \<Rightarrow> u8" where
  "image rp h D I va n \<equiv> kernel_byte (\<lambda>k. disk (unat (Start rp) + k)) h D I (unat va) n"

lemma load_pages_spec:
  assumes L: "fs_layout L" and al: "4096 dvd unat aend" "512 dvd unat va" and aend: "unat aend \<le> unat va + n"
  shows "image_ready L disk sectors h file D I n va rp s rs fs \<Longrightarrow> 4096 dvd unat current \<Longrightarrow> unat va \<le> unat current \<Longrightarrow>
    load_result fails (load_pages L read file aend current s)
      (\<lambda>(c, s'). c = (if current < aend then aend else current)
        \<and> loaded L disk sectors h file (image rp h D I va n) (unat current) (max (unat current) (unat aend)) s rs s')"
proof (induction "unat aend - unat current" arbitrary: s rs fs current rule: less_induct)
  case less
  show ?case
  proof (cases "current < aend")
    case False
    then show ?thesis using less.prems loaded_nothing
      by (subst load_pages.simps) (auto simp: image_ready_def word_less_nat_alt max_def)
  next
    case True
    then have lt: "unat current < unat aend" by (simp add: word_less_nat_alt)
    obtain a b where ab: "unat aend = 4096 * a" "unat current = 4096 * b" using al(1) less.prems(2) by (auto elim!: dvdE)
    have next4: "unat current + 4096 \<le> unat aend" using lt ab by simp
    then have u: "unat (current + BL_PAGE_SIZE) = unat current + 4096"
      using unat_lt32 [of aend] by (simp add: unat_word_ariths paging_consts)
    have pos: "unat (current - va) = unat current - unat va" using less.prems(3) by (subst unat_sub) (simp_all add: word_le_nat_alt)
    have pos64: "unat (ucast (current - va) :: u64) = unat current - unat va" unfolding unat_ucast64 by (rule pos)
    have page: "load_result fails (map_new_page L (\<lambda>buffer s.
        BlFsFileRead L read file buffer BL_PAGE_SIZE (ucast (current - load32 (memory s) (KernelVirtualAddr L))) True s) current s)
      (loaded L disk sectors h file (image rp h D I va n) (unat current) (unat current + 4096) s rs)"
    proof (rule image_page [OF less.prems(1) L less.prems(2), where hc = 0 and rc = 4096 and tc = 0 and byp = True and position = "ucast (current - va)"])
      have "512 dvd (4096 :: nat)" by simp
      then have "512 dvd unat current" using less.prems(2) dvd_trans by blast
      then show "True \<longrightarrow> 512 dvd (0 :: nat) \<and> 512 dvd unat (ucast (current - va) :: u64) \<and> 512 dvd (4096 :: nat)"
        unfolding pos64 using al(2) by (simp add: dvd_diff_nat)
    qed (use next4 aend less.prems(3) in \<open>simp_all add: pos64 paging_consts\<close>)
    have eq: "load_pages L read file aend current s = bind_run (map_new_page L (\<lambda>buffer s.
        BlFsFileRead L read file buffer BL_PAGE_SIZE (ucast (current - load32 (memory s) (KernelVirtualAddr L))) True s) current s)
        (load_pages L read file aend (current + BL_PAGE_SIZE))"
      using True by (subst load_pages.simps) simp
    have "load_result fails (load_pages L read file aend current s)
      (\<lambda>y. fst y = aend \<and> loaded L disk sectors h file (image rp h D I va n) (unat current) (unat aend) s rs (snd y))"
      unfolding eq
    proof (rule load_then [where E = "\<lambda>_. True" and g = "\<lambda>x. x" and b = "unat current + 4096"])
      fix x rs1 fs1
      assume k: "load_ready L disk sectors h file x rs1 fs1" "load_kept L s rs x rs1"
      have "load_result fails (load_pages L read file aend (current + BL_PAGE_SIZE) x)
        (\<lambda>(c, s'). c = (if current + BL_PAGE_SIZE < aend then aend else current + BL_PAGE_SIZE)
          \<and> loaded L disk sectors h file (image rp h D I va n) (unat (current + BL_PAGE_SIZE)) (max (unat (current + BL_PAGE_SIZE)) (unat aend)) x rs1 s')"
      proof (rule less.hyps [OF _ image_ready_kept [OF less.prems(1) k]])
        show "unat aend - unat (current + BL_PAGE_SIZE) < unat aend - unat current" using u next4 by linarith
        show "4096 dvd unat (current + BL_PAGE_SIZE)" unfolding u using less.prems(2) by simp
        show "unat va \<le> unat (current + BL_PAGE_SIZE)" unfolding u using less.prems(3) by simp
      qed
      then show "load_result fails (load_pages L read file aend (current + BL_PAGE_SIZE) x)
        (\<lambda>y. fst y = aend \<and> loaded L disk sectors h file (image rp h D I va n) (unat current + 4096) (unat aend) x rs1 (snd y))"
        by (rule load_result_mono) (use next4 u in \<open>auto simp: word_less_nat_alt word_unat_eq_iff max_def split: if_splits\<close>)
    qed (use next4 page in simp_all)
    then show ?thesis using True next4 by (simp add: case_prod_unfold max_def)
  qed
qed

text \<open>The pages behind the file.\<close>

lemma zero_pages_spec:
  assumes L: "fs_layout L" and al: "4096 dvd unat aend"
  shows "image_ready L disk sectors h file D I n va rp s rs fs \<Longrightarrow> 4096 dvd unat current \<Longrightarrow> unat va + n \<le> unat current \<Longrightarrow>
    load_result fails (zero_pages L aend current s)
      (loaded L disk sectors h file (image rp h D I va n) (unat current) (max (unat current) (unat aend)) s rs)"
proof (induction "unat aend - unat current" arbitrary: s rs fs current rule: less_induct)
  case less
  show ?case
  proof (cases "current < aend")
    case False
    then show ?thesis using less.prems loaded_nothing
      by (subst zero_pages.simps) (auto simp: image_ready_def word_less_nat_alt max_def)
  next
    case True
    then have lt: "unat current < unat aend" by (simp add: word_less_nat_alt)
    obtain a b where ab: "unat aend = 4096 * a" "unat current = 4096 * b" using al(1) less.prems(2) by (auto elim!: dvdE)
    have next4: "unat current + 4096 \<le> unat aend" using lt ab by simp
    then have u: "unat (current + BL_PAGE_SIZE) = unat current + 4096"
      using unat_lt32 [of aend] by (simp add: unat_word_ariths paging_consts)
    have page: "load_result fails (map_new_page L (\<lambda>buffer s. ret (write_mem (\<lambda>m. BlFillMemory m buffer 0 BL_PAGE_SIZE) s)) current s)
      (loaded L disk sectors h file (image rp h D I va n) (unat current) (unat current + 4096) s rs)"
      by (rule image_page [OF less.prems(1) L less.prems(2), where hc = 4096 and rc = 0 and tc = 0 and byp = False and position = 0])
        (use less.prems(3) in \<open>simp_all add: paging_consts BlFsFileRead_def\<close>)
    have eq: "zero_pages L aend current s = bind_run (map_new_page L (\<lambda>buffer s. ret (write_mem (\<lambda>m. BlFillMemory m buffer 0 BL_PAGE_SIZE) s)) current s)
        (zero_pages L aend (current + BL_PAGE_SIZE))"
      using True by (subst zero_pages.simps) simp
    have "load_result fails (zero_pages L aend current s)
      (\<lambda>y. True \<and> loaded L disk sectors h file (image rp h D I va n) (unat current) (unat aend) s rs y)"
      unfolding eq
    proof (rule load_then [where E = "\<lambda>_. True" and g = "\<lambda>x. x" and b = "unat current + 4096"])
      fix x rs1 fs1
      assume k: "load_ready L disk sectors h file x rs1 fs1" "load_kept L s rs x rs1"
      have "load_result fails (zero_pages L aend (current + BL_PAGE_SIZE) x)
        (loaded L disk sectors h file (image rp h D I va n) (unat (current + BL_PAGE_SIZE)) (max (unat (current + BL_PAGE_SIZE)) (unat aend)) x rs1)"
      proof (rule less.hyps [OF _ image_ready_kept [OF less.prems(1) k]])
        show "unat aend - unat (current + BL_PAGE_SIZE) < unat aend - unat current" using u next4 by linarith
        show "4096 dvd unat (current + BL_PAGE_SIZE)" unfolding u using less.prems(2) by simp
        show "unat va + n \<le> unat (current + BL_PAGE_SIZE)" unfolding u using less.prems(3) by simp
      qed
      then show "load_result fails (zero_pages L aend (current + BL_PAGE_SIZE) x)
        (\<lambda>y. True \<and> loaded L disk sectors h file (image rp h D I va n) (unat current + 4096) (unat aend) x rs1 y)"
        by (rule load_result_mono) (use next4 u in \<open>simp add: max_def\<close>)
    qed (use next4 page in simp_all)
    then show ?thesis using next4 by (simp add: max_def)
  qed
qed

text \<open>The page the image starts in, if it does not start with a page.\<close>

lemma load_head_spec:
  fixes fileSize :: u64 and s :: "'a fs_scheme"
  assumes L: "fs_layout L" and ready: "image_ready L disk sectors h file D I n va rp s rs fs" and al: "4096 dvd unat current"
    and le: "unat current \<le> unat va" "unat va < unat current + 4096" and n: "unat fileSize = n" and top: "unat current + 4096 < 2 ^ 32"
  shows "load_result fails (load_head L read file fileSize current s)
      (\<lambda>y. fst y = (if current < va then current + BL_PAGE_SIZE else current)
        \<and> loaded L disk sectors h file (image rp h D I va n) (unat current) (if current < va then unat current + 4096 else unat current) s rs (snd y))"
proof (cases "current < va")
  case False
  have V: "load32 (memory s) (KernelVirtualAddr L) = va" and r: "load_ready L disk sectors h file s rs fs" using ready by (simp_all add: image_ready_def)
  show ?thesis using False loaded_nothing [OF r] by (simp add: load_head_def V)
next
  case True
  have V: "load32 (memory s) (KernelVirtualAddr L) = va" using ready by (simp add: image_ready_def)
  define hc where "hc = unat va - unat current"
  define rc where "rc = min (4096 - hc) n"
  have lt: "0 < hc" "hc < 4096" "rc \<le> 4096 - hc" using True le by (auto simp: hc_def rc_def word_less_nat_alt)
  have hcw: "va - current = of_nat hc" using le by (simp add: hc_def of_nat_diff)
  have tcw: "(BL_PAGE_SIZE :: u32) - of_nat hc = of_nat (4096 - hc)" using lt by (simp add: of_nat_diff paging_consts)
  have u64: "unat (ucast (of_nat (4096 - hc) :: u32) :: u64) = 4096 - hc" unfolding unat_ucast64 by (rule unat_small) simp
  have rcw: "(ucast (BL_MIN (ucast (of_nat (4096 - hc) :: u32)) fileSize) :: u32) = of_nat rc"
  proof -
    have "unat (BL_MIN (ucast (of_nat (4096 - hc) :: u32)) fileSize :: u64) = rc"
      unfolding unat_BL_MIN u64 n rc_def ..
    then show ?thesis by (metis of_nat_unat)
  qed
  have tail: "of_nat (4096 - hc) - of_nat rc = (of_nat (4096 - hc - rc) :: u32)" using lt by (simp add: of_nat_diff)
  have ne: "(of_nat rc :: u32) \<noteq> of_nat (4096 - hc) \<longleftrightarrow> rc \<noteq> 4096 - hc"
    using unat_small [of rc] unat_small [of "4096 - hc"] lt unfolding word_unat_eq_iff by simp
  let ?fill = "\<lambda>buffer s. let headCount = load32 (memory s) (KernelVirtualAddr L) - current;
                tailCount = BL_PAGE_SIZE - headCount;
                readCount = ucast (BL_MIN (ucast tailCount) fileSize);
                s = write_mem (\<lambda>m. BlFillMemory m buffer 0 headCount) s
            in bind_run (BlFsFileRead L read file (buffer + headCount) readCount 0 False s) (\<lambda>s.
                 ret (if readCount \<noteq> tailCount
                      then write_mem (\<lambda>m. BlFillMemory m (buffer + headCount + readCount) 0 (tailCount - readCount)) s else s))"
  have page: "load_result fails (map_new_page L ?fill current s)
      (loaded L disk sectors h file (image rp h D I va n) (unat current) (unat current + 4096) s rs)"
  proof (rule image_page [OF ready L al, where hc = hc and rc = rc and tc = "4096 - hc - rc" and byp = False and position = 0])
    fix p and s1 :: "'a fs_scheme" assume v: "load32 (memory s1) (KernelVirtualAddr L) = va"
    have eq: "(if (of_nat rc :: u32) \<noteq> of_nat (4096 - hc) then write_mem (\<lambda>m. BlFillMemory m (p + of_nat hc + of_nat rc) 0 (of_nat (4096 - hc - rc))) s2 else s2)
      = write_mem (\<lambda>m. BlFillMemory m (p + of_nat hc + of_nat rc) 0 (of_nat (4096 - hc - rc))) s2" for s2
      unfolding ne by simp
    show "?fill p s1 = bind_run (BlFsFileRead L read file (p + of_nat hc) (of_nat rc) 0 False (write_mem (\<lambda>m. BlFillMemory m p 0 (of_nat hc)) s1))
      (\<lambda>s. ret (write_mem (\<lambda>m. BlFillMemory m (p + of_nat hc + of_nat rc) 0 (of_nat (4096 - hc - rc))) s))"
      unfolding v hcw tcw rcw Let_def tail eq ..
  qed (use lt le in \<open>auto simp: hc_def rc_def min_def\<close>)
  have run: "load_head L read file fileSize current s = bind_run (map_new_page L ?fill current s) (\<lambda>s. ret (current + BL_PAGE_SIZE, s))"
    unfolding load_head_def V if_P [OF True] ..
  show ?thesis unfolding run by (rule load_result_bind [OF page]) (simp add: True)
qed

text \<open>The page the file ends in.\<close>

lemma load_tail_spec:
  assumes L: "fs_layout L" and ready: "image_ready L disk sectors h file D I n va rp s rs fs" and al: "4096 dvd unat current"
    and fe: "unat fileEnd = unat va + n" "unat fileEnd < unat current + 4096" and le: "current < fileEnd \<Longrightarrow> unat va \<le> unat current"
  shows "load_result fails (load_tail L read file fileEnd current s)
      (\<lambda>y. fst y = (if current < fileEnd then current + BL_PAGE_SIZE else current)
        \<and> loaded L disk sectors h file (image rp h D I va n) (unat current) (if current < fileEnd then unat current + 4096 else unat current) s rs (snd y))"
proof (cases "current < fileEnd")
  case False
  have r: "load_ready L disk sectors h file s rs fs" using ready by (simp add: image_ready_def)
  show ?thesis using False loaded_nothing [OF r] by (simp add: load_tail_def)
next
  case True
  define rc where "rc = unat fileEnd - unat current"
  have lt: "0 < rc" "rc < 4096" "unat current + rc = unat va + n" "unat va \<le> unat current"
    using True fe le by (auto simp: rc_def word_less_nat_alt)
  have rcw: "fileEnd - current = of_nat rc" using True by (simp add: rc_def of_nat_diff word_less_nat_alt)
  have tcw: "(BL_PAGE_SIZE :: u32) - of_nat rc = of_nat (4096 - rc)" using lt by (simp add: of_nat_diff paging_consts)
  have pos: "unat (current - va) = unat current - unat va" using lt by (subst unat_sub) (simp_all add: word_le_nat_alt)
  have pos64: "unat (ucast (current - va) :: u64) = unat current - unat va" unfolding unat_ucast64 by (rule pos)
  let ?fill = "\<lambda>buffer s. let headCount = fileEnd - current; tailCount = BL_PAGE_SIZE - headCount
            in bind_run (BlFsFileRead L read file buffer headCount (ucast (current - load32 (memory s) (KernelVirtualAddr L))) False s) (\<lambda>s.
                 ret (write_mem (\<lambda>m. BlFillMemory m (buffer + headCount) 0 tailCount) s))"
  have page: "load_result fails (map_new_page L ?fill current s)
      (loaded L disk sectors h file (image rp h D I va n) (unat current) (unat current + 4096) s rs)"
    by (rule image_page [OF ready L al, where hc = 0 and rc = rc and tc = "4096 - rc" and byp = False and position = "ucast (current - va)"])
      (use lt in \<open>auto simp: pos64 Let_def rcw tcw\<close>)
  have run: "load_tail L read file fileEnd current s = bind_run (map_new_page L ?fill current s) (\<lambda>s. ret (current + BL_PAGE_SIZE, s))"
    unfolding load_tail_def if_P [OF True] ..
  show ?thesis unfolding run by (rule load_result_bind [OF page]) (simp add: True)
qed

text \<open>The four loops one after the other.\<close>

lemma next_page: "4096 dvd a \<Longrightarrow> 4096 dvd b \<Longrightarrow> a < b \<Longrightarrow> a + 4096 \<le> (b :: nat)"
  by (elim dvdE) simp

lemma page_floor:
  fixes x :: u32
  shows "unat (BL_ALIGN_DOWN x BL_PAGE_SIZE) = unat x div 4096 * 4096" "unat x + 4095 < 2 ^ 32 \<Longrightarrow> unat (BL_ALIGN_UP x BL_PAGE_SIZE) = (unat x + 4095) div 4096 * 4096"
  using unat_BL_ALIGN_DOWN [of 12 x] unat_BL_ALIGN_UP [of 12 x] by (simp_all add: paging_consts)

lemma load_image_spec:
  fixes s :: "'a fs_scheme"
  assumes L: "fs_layout L" and ready: "image_ready L disk sectors h file D I n va rp s rs fs" and msize: "load32 (memory s) (KernelMSize L) = msize"
    and size: "n \<le> unat msize" "unat va + unat msize + 4096 \<le> 2 ^ 32" and va: "512 dvd unat va"
  shows "load_result fails (load_image L read file s)
    (loaded L disk sectors h file (image rp h D I va n) (unat va div 4096 * 4096) ((unat va + unat msize + 4095) div 4096 * 4096) s rs)"
proof -
  define sz where "sz = BlFsFileSize L file s"
  define c0 where "c0 = BL_ALIGN_DOWN va BL_PAGE_SIZE"
  define fe where "fe = (ucast (ucast va + sz) :: u32)"
  define ae where "ae = BL_ALIGN_DOWN fe BL_PAGE_SIZE"
  define ep where "ep = BL_ALIGN_UP (va + msize) BL_PAGE_SIZE"
  define c1 where "c1 = (if c0 < va then c0 + BL_PAGE_SIZE else c0)"
  define c2 where "c2 = (if c1 < ae then ae else c1)"
  define c3 where "c3 = (if c2 < fe then c2 + BL_PAGE_SIZE else c2)"
  have V: "load32 (memory s) (KernelVirtualAddr L) = va" and n: "unat sz = n" using ready by (auto simp: image_ready_def file_ready_def sz_def)
  have u0: "unat c0 = unat va div 4096 * 4096" by (simp only: c0_def page_floor)
  have "unat (ucast va + sz) = unat va + n" using size n by (subst unat_word_ariths) (simp add: unat_ucast64)
  then have ufe: "unat fe = unat va + n" using size by (simp add: fe_def unsigned_ucast_eq take_bit_eq_mod)
  have uae: "unat ae = unat fe div 4096 * 4096" by (simp only: ae_def page_floor)
  have "unat (va + msize) = unat va + unat msize" using size by (simp add: unat_word_ariths)
  then have uep: "unat ep = (unat va + unat msize + 4095) div 4096 * 4096" using page_floor(2) [of "va + msize"] size by (simp add: ep_def)
  have P: "unat (x + BL_PAGE_SIZE) = unat x + 4096" if "unat x + 4096 < 2 ^ 32" for x :: u32
    using that by (simp add: unat_word_ariths paging_consts)
  have lt0: "unat c0 \<le> unat va" "unat va < unat c0 + 4096" "unat c0 + 4096 < 2 ^ 32 \<or> unat c0 = unat va"
    unfolding u0 using size by (simp_all, linarith+)
  have top: "unat va + n + 4096 \<le> 2 ^ 32" using size by linarith
  have u1: "unat c1 = (if c0 < va then unat c0 + 4096 else unat c0)" using P [of c0] lt0 by (auto simp: c1_def word_less_nat_alt)
  have m: "4096 dvd unat c0" "4096 dvd unat ae" unfolding u0 uae by simp_all
  then have m1: "4096 dvd unat c1" unfolding u1 by simp
  have ge1: "unat va \<le> unat c1" unfolding u1 using lt0 by (auto simp: word_less_nat_alt)
  have u2: "unat c2 = max (unat c1) (unat ae)" by (auto simp: c2_def word_less_nat_alt)
  have m2: "4096 dvd unat c2" unfolding u2 using m m1 by (simp add: max_def)
  have "unat fe < unat ae + 4096" unfolding uae by linarith
  then have fe2: "unat fe < unat c2 + 4096" "unat ae \<le> unat fe" unfolding u2 by (simp_all add: uae)
  have u3: "unat c3 = (if c2 < fe then unat c2 + 4096 else unat c2)"
    using P [of c2] fe2 ufe top by (auto simp: c3_def word_less_nat_alt)
  have m3: "4096 dvd unat c3" unfolding u3 using m2 by simp
  have ge3: "unat va + n \<le> unat c3" using fe2 ufe by (auto simp: u3 word_less_nat_alt)
  have ep: "4096 dvd unat ep" "unat va + unat msize \<le> unat ep" unfolding uep by (simp, linarith)
  have le1: "unat c1 \<le> unat ep" using next_page [OF m(1) ep(1)] ep(2) lt0 unfolding u1 by (auto simp: word_less_nat_alt)
  have le2: "unat c2 \<le> unat ep" unfolding u2 using le1 fe2(2) ufe size ep(2) by simp
  have le3: "unat c3 \<le> unat ep" using next_page [OF m2 ep(1)] le2 ufe size ep(2) unfolding u3 by (auto simp: word_less_nat_alt)
  have order: "unat c0 \<le> unat c1" "unat c1 \<le> unat c2" "unat c2 \<le> unat c3" unfolding u3 u2 u1 by auto
  have run: "load_image L read file s =
      bind_run (load_head L read file sz c0 s) (\<lambda>y. bind_run (load_pages L read file ae (fst y) (snd y)) (\<lambda>y.
      bind_run (load_tail L read file fe (fst y) (snd y)) (\<lambda>y. zero_pages L ep (fst y) (snd y))))"
  proof -
    have "\<not> sz > ucast msize" using n size(1) by (simp add: word_less_nat_alt unat_ucast64)
    then show ?thesis unfolding load_image_def Let_def V msize sz_def [symmetric] if_not_P
      by (simp only: if_False c0_def [symmetric] fe_def [symmetric] ae_def [symmetric] ep_def [symmetric] case_prod_unfold)
  qed
  have head: "load_result fails (load_head L read file sz c0 s)
      (\<lambda>y. fst y = c1 \<and> loaded L disk sectors h file (image rp h D I va n) (unat c0) (unat c1) s rs (snd y))"
  proof (cases "unat c0 = unat va")
    case True
    then have "\<not> c0 < va" unfolding word_less_nat_alt by linarith
    moreover have "load_ready L disk sectors h file s rs fs" using ready by (simp add: image_ready_def)
    ultimately show ?thesis using loaded_nothing by (simp add: load_head_def V c1_def)
  next
    case False
    then have "unat c0 + 4096 < 2 ^ 32" using lt0(3) by simp
    from load_head_spec [OF L ready m(1) lt0(1,2) n this] show ?thesis unfolding c1_def [symmetric] u1 [symmetric] .
  qed
  have "load_result fails (load_image L read file s)
    (\<lambda>y. True \<and> loaded L disk sectors h file (image rp h D I va n) (unat c0) (unat ep) s rs y)"
    unfolding run
  proof (rule load_then [OF head])
    fix y rs1 fs1 assume y: "fst y = c1" "load_ready L disk sectors h file (snd y) rs1 fs1" "load_kept L s rs (snd y) rs1"
    note r1 = image_ready_kept [OF ready y(2,3)]
    have pages: "load_result fails (load_pages L read file ae (fst y) (snd y))
      (\<lambda>x. fst x = c2 \<and> loaded L disk sectors h file (image rp h D I va n) (unat c1) (unat c2) (snd y) rs1 (snd x))"
    proof -
      have "unat ae \<le> unat va + n" using fe2(2) ufe by simp
      from load_pages_spec [OF L m(2) va this r1 m1 ge1] show ?thesis
        unfolding y(1) u2 [symmetric] c2_def [symmetric] by (simp only: case_prod_unfold)
    qed
    show "load_result fails (bind_run (load_pages L read file ae (fst y) (snd y)) (\<lambda>y. bind_run (load_tail L read file fe (fst y) (snd y)) (\<lambda>y. zero_pages L ep (fst y) (snd y))))
      (\<lambda>x. True \<and> loaded L disk sectors h file (image rp h D I va n) (unat c1) (unat ep) (snd y) rs1 x)"
    proof (rule load_then [OF pages])
      fix y' rs2 fs2 assume y': "fst y' = c2" "load_ready L disk sectors h file (snd y') rs2 fs2" "load_kept L (snd y) rs1 (snd y') rs2"
      note r2 = image_ready_kept [OF r1 y'(2,3)]
      have tail: "load_result fails (load_tail L read file fe (fst y') (snd y'))
        (\<lambda>x. fst x = c3 \<and> loaded L disk sectors h file (image rp h D I va n) (unat c2) (unat c3) (snd y') rs2 (snd x))"
      proof -
        have "unat va \<le> unat c2" using ge1 order(2) by simp
        from load_tail_spec [OF L r2 m2 ufe fe2(1) this] show ?thesis unfolding y'(1) c3_def [symmetric] u3 [symmetric] .
      qed
      show "load_result fails (bind_run (load_tail L read file fe (fst y') (snd y')) (\<lambda>y. zero_pages L ep (fst y) (snd y)))
        (\<lambda>x. True \<and> loaded L disk sectors h file (image rp h D I va n) (unat c2) (unat ep) (snd y') rs2 x)"
      proof (rule load_then [OF tail])
        fix y'' rs3 fs3 assume y'': "fst y'' = c3" "load_ready L disk sectors h file (snd y'') rs3 fs3" "load_kept L (snd y') rs2 (snd y'') rs3"
        show "load_result fails (zero_pages L ep (fst y'') (snd y''))
          (\<lambda>x. True \<and> loaded L disk sectors h file (image rp h D I va n) (unat c3) (unat ep) (snd y'') rs3 x)"
          using zero_pages_spec [OF L ep(1) image_ready_kept [OF r2 y''(2,3)] m3 ge3] le3 unfolding y''(1) by (simp add: max_def)
      qed (use order le3 in simp_all)
    qed (use order le2 in simp_all)
  qed (use order le1 in simp_all)
  then show ?thesis unfolding u0 uep by simp
qed

end

end
