(* ===== verification/Image_Correct.thy ===== *)
theory Image_Correct
  imports Image_Load Root_Search Blob_Correct
begin

text \<open>
  The contract of the kernel loader: which headers are accepted, and what \<open>load_image\<close> leaves in the address space the kernel
  starts with.
\<close>

section \<open>The header\<close>

abbreviation (input) header_word :: "mem \<Rightarrow> u32 \<Rightarrow> nat" where "header_word m a \<equiv> unat (load32 m a)"

text \<open>A header as \<^verbatim>\<open>PROTOCOL.md\<close> describes it, in numbers.\<close>

definition header_valid :: "'b dt_statics_scheme \<Rightarrow> mem \<Rightarrow> bool" where
  "header_valid L m \<longleftrightarrow> load32 m (KernelMagic L) = BI_PROTOCOL_MAGIC \<and> load16 m (KernelMajorVersion L) = BI_PROTOCOL_MAJOR
     \<and> header_word m (KernelEntry L) \<in> {header_word m (KernelVirtualAddr L)..<header_word m (KernelVirtualAddr L) + header_word m (KernelMSize L)}"

text \<open>The area for the device tree, when the kernel asks for it: from the next page on, apart from the image.\<close>

definition dtb_start :: "'b dt_statics_scheme \<Rightarrow> mem \<Rightarrow> u32" where
  "dtb_start L m = BL_ALIGN_UP (load32 m (KernelDtbAddress L)) BL_PAGE_SIZE"

definition dtb_area_valid :: "'b dt_statics_scheme \<Rightarrow> mem \<Rightarrow> bool" where
  "dtb_area_valid L m \<longleftrightarrow> unat (dtb_start L m) < header_word m (KernelMaxDtbEnd L)
     \<and> {unat (dtb_start L m)..header_word m (KernelMaxDtbEnd L)}
       \<inter> {header_word m (KernelVirtualAddr L)..<header_word m (KernelVirtualAddr L) + header_word m (KernelMSize L)} = {}"

lemma ranges_apart:
  fixes v n a b :: u32
  assumes "unat v + unat n \<le> 2 ^ 32" "0 < unat n" "unat a < unat b"
  shows "\<not> BiRangesOverlap v (v + n - 1) a b \<longleftrightarrow> {unat a..unat b} \<inter> {unat v..<unat v + unat n} = {}"
proof -
  have "n \<noteq> 0" using assms(2) by auto
  then have n1: "unat (n - 1) = unat n - 1" by (simp add: unat_minus_one)
  have "unat (v + (n - 1)) = unat v + (unat n - 1)" using assms by (subst unat_word_ariths) (simp add: n1)
  then have e: "unat (v + n - 1) = unat v + unat n - 1" using assms(2) by (simp add: algebra_simps)
  have "\<not> BiRangesOverlap v (v + n - 1) a b \<longleftrightarrow> unat b < unat v \<or> unat v + unat n - 1 < unat a"
    by (auto simp: BiRangesOverlap_def word_le_nat_alt e)
  also have "\<dots> \<longleftrightarrow> {unat a..unat b} \<inter> {unat v..<unat v + unat n} = {}"
  proof
    assume "{unat a..unat b} \<inter> {unat v..<unat v + unat n} = {}"
    then have "max (unat a) (unat v) \<notin> {unat a..unat b} \<inter> {unat v..<unat v + unat n}" by simp
    then show "unat b < unat v \<or> unat v + unat n - 1 < unat a" using assms(2,3) by (auto simp: max_def split: if_splits)
  qed auto
  finally show ?thesis .
qed

lemma entry_inside:
  fixes e v n :: u32
  shows "e < v \<or> e - v \<ge> n \<longleftrightarrow> unat e \<notin> {unat v..<unat v + unat n}"
proof (cases "e < v")
  case True
  then show ?thesis by (simp add: word_less_nat_alt)
next
  case False
  then have "unat (e - v) = unat e - unat v" "unat v \<le> unat e" by (simp_all add: unat_sub word_less_nat_alt word_le_nat_alt not_less)
  then show ?thesis using False by (auto simp: word_le_nat_alt)
qed

definition header_mapped :: "'b dt_statics_scheme \<Rightarrow> mem \<Rightarrow> bool" where
  "header_mapped L m \<longleftrightarrow> load32 m (KernelFlags L) AND BL_FLAG_MAP_DTB \<noteq> 0"

lemma header_fields_apart:
  "load32 (store32 m (KernelDtbAddress L) v) (KernelMaxDtbEnd L) = load32 m (KernelMaxDtbEnd L)"
  using span_disjoint_off [of 24 4 28 4 "BlKernelHeader L"] by (intro load32_store32_disjoint) (simp add: KernelDtbAddress_def KernelMaxDtbEnd_def)

lemma check_kernel_header_spec:
  assumes "header_word (memory s) (KernelVirtualAddr L) + header_word (memory s) (KernelMSize L) \<le> 2 ^ 32"
  shows "check_kernel_header L s =
    (if load32 (memory s) (KernelMagic L) \<noteq> BI_PROTOCOL_MAGIC then crash ''invalid magic number''
     else if load16 (memory s) (KernelMajorVersion L) \<noteq> BI_PROTOCOL_MAJOR then crash ''unsupported major version''
     else if \<not> header_valid L (memory s) then crash ''kernel entry point outside kernel image''
     else if \<not> header_mapped L (memory s) then ret s
     else if \<not> unat (dtb_start L (memory s)) < header_word (memory s) (KernelMaxDtbEnd L) then crash ''device tree mapping area has negative size''
     else if \<not> dtb_area_valid L (memory s) then crash ''device tree mapping area overlaps kernel image''
     else ret (s\<lparr>memory := store32 (memory s) (KernelDtbAddress L) (dtb_start L (memory s))\<rparr>))"
proof -
  let ?m = "memory s"
  let ?v = "load32 ?m (KernelVirtualAddr L)" let ?n = "load32 ?m (KernelMSize L)"
  have id: "write_mem (\<lambda>m. m) s = s" for s :: "'a fs_scheme" by (simp add: write_mem_def)
  have overlap: "BiRangesOverlap ?v (?v + ?n - 1) (dtb_start L ?m) (load32 ?m (KernelMaxDtbEnd L)) \<longleftrightarrow> \<not> dtb_area_valid L ?m"
    if "header_valid L ?m" "unat (dtb_start L ?m) < header_word ?m (KernelMaxDtbEnd L)"
  proof -
    have "0 < unat ?n" using that(1) by (auto simp: header_valid_def intro: gr0I)
    from ranges_apart [OF assms this that(2)] that(2) show ?thesis unfolding dtb_area_valid_def by blast
  qed
  have entry: "header_valid L ?m \<longleftrightarrow> load32 ?m (KernelMagic L) = BI_PROTOCOL_MAGIC \<and> load16 ?m (KernelMajorVersion L) = BI_PROTOCOL_MAJOR
      \<and> \<not> (unat (load32 ?m (KernelEntry L)) \<notin> {unat ?v..<unat ?v + unat ?n})"
    by (simp add: header_valid_def)
  show ?thesis
    unfolding check_kernel_header_def BL_LE32_def fix_le_id id Let_def entry_inside header_mapped_def [symmetric]
      dtb_start_def [symmetric] write_mem_def
    using overlap entry by (simp add: header_fields_apart word_le_nat_alt not_less del: atLeastLessThan_iff)
qed

section \<open>Properties\<close>


text \<open>
  C6. Loading the kernel's image: a file larger than the image stops the boot. Otherwise, unless the heap has no room or the
  firmware fails a read, every page from the one of \<open>VirtualAddr\<close> to the end of the image is mapped, the bytes of the file
  appear from \<open>VirtualAddr\<close> on (through holes and all levels of indirection) and everything else in these pages is zero; all other
  addresses translate as before, live heap data and other memory are untouched, and the heap, the page tables and the block cache are in
  order.
\<close>

theorem load_image_correct:
  fixes s :: "'a fs_scheme"
  assumes fw: "firmware_disk ReadDisk disk sectors bad" and L: "fs_layout L" and ready: "load_ready L disk sectors h file s rs fs"
    and P: "P = (\<lambda>k. disk (unat (Start (BlRootPartition s)) + k))" and Z: "Z = unat (PartSize (BlRootPartition s))"
    and fl: "file_ready L P h Z D I file n s"
    and va: "va = header_word (memory s) (KernelVirtualAddr L)" "512 dvd va" and sz: "sz = header_word (memory s) (KernelMSize L)" "va + sz + 4096 \<le> 2 ^ 32"
  shows "if sz < n then load_image L (BxReadFromDisk ReadDisk sectors) file s
        = crash_with ''kernel file too large (0x%lx bytes)'' [Long (BlFsFileSize L file s)]
    else load_result (request_fails bad sectors) (load_image L (BxReadFromDisk ReadDisk sectors) file s)
      (\<lambda>s'. (\<exists>rs' fs'. load_ready L disk sectors h file s' rs' fs' \<and> live_data rs' = live_data rs \<and> foot rs' \<subseteq> foot rs)
        \<and> same_on (safe_area L (memory s) rs) (memory s) (memory s')
        \<and> (\<forall>v. if va div 4096 * 4096 \<le> unat v \<and> unat v < (va + sz + 4095) div 4096 * 4096
            then \<exists>q. translate (memory s') (BlPageTable L) v = Some q
              \<and> memory s' q = (if va \<le> unat v \<and> unat v < va + n then file_byte P h D I (unat v - va) else 0)
            else translate (memory s') (BlPageTable L) v = translate (memory s) (BlPageTable L) v))"
proof (cases "sz < n")
  case True
  have "unat (BlFsFileSize L file s) = n" using fl by (simp add: file_ready_def)
  then have "BlFsFileSize L file s > ucast (load32 (memory s) (KernelMSize L))" using True sz(1) by (simp add: word_less_nat_alt unat_ucast64)
  then show ?thesis using True by (simp add: load_image_def)
next
  case False
  let ?va = "load32 (memory s) (KernelVirtualAddr L)" let ?sz = "load32 (memory s) (KernelMSize L)"
  have "image_ready L disk sectors h file D I n ?va (BlRootPartition s) s rs fs" using ready fl by (simp add: image_ready_def P Z)
  from boot_disk.load_image_spec [OF firmware_disk.platform [OF fw] L this refl] False va sz
  have r: "load_result (request_fails bad sectors) (load_image L (BxReadFromDisk ReadDisk sectors) file s)
    (loaded L disk sectors h file (kernel_byte P h D I va n) (va div 4096 * 4096) ((va + sz + 4095) div 4096 * 4096) s rs)"
    by (simp add: P)
  show ?thesis
    unfolding if_not_P [OF False]
  proof (rule load_result_mono [OF r])
    fix s' assume "loaded L disk sectors h file (kernel_byte P h D I va n) (va div 4096 * 4096) ((va + sz + 4095) div 4096 * 4096) s rs s'"
    then obtain rs' fs' where k: "load_ready L disk sectors h file s' rs' fs'" "load_kept L s rs s' rs'"
      and b: "\<forall>v. if v \<in> vrange (va div 4096 * 4096) ((va + sz + 4095) div 4096 * 4096) then shows_byte L s' rs' v (kernel_byte P h D I va n v)
            else translate (memory s') (BlPageTable L) v = translate (memory s) (BlPageTable L) v"
      unfolding loaded_def by blast
    have "if va div 4096 * 4096 \<le> unat v \<and> unat v < (va + sz + 4095) div 4096 * 4096
            then \<exists>q. translate (memory s') (BlPageTable L) v = Some q
              \<and> memory s' q = (if va \<le> unat v \<and> unat v < va + n then file_byte P h D I (unat v - va) else 0)
            else translate (memory s') (BlPageTable L) v = translate (memory s) (BlPageTable L) v" for v
      using b [rule_format, of v] unfolding vrange_def mem_Collect_eq shows_byte_def kernel_byte_def by (auto split: if_splits)
    then show "(\<exists>rs' fs'. load_ready L disk sectors h file s' rs' fs' \<and> live_data rs' = live_data rs \<and> foot rs' \<subseteq> foot rs)
        \<and> same_on (safe_area L (memory s) rs) (memory s) (memory s')
        \<and> (\<forall>v. if va div 4096 * 4096 \<le> unat v \<and> unat v < (va + sz + 4095) div 4096 * 4096
            then \<exists>q. translate (memory s') (BlPageTable L) v = Some q
              \<and> memory s' q = (if va \<le> unat v \<and> unat v < va + n then file_byte P h D I (unat v - va) else 0)
            else translate (memory s') (BlPageTable L) v = translate (memory s) (BlPageTable L) v)"
      using k unfolding load_kept_def by blast
  qed
qed

section \<open>A kernel on a volume\<close>

text \<open>
  The superblock at \<open>0x4400\<close>, the header at \<open>0x4200\<close> (an image of 5120 bytes at \<open>0xC0000E00\<close>), the inode of a file of 1500 bytes
  at \<open>0x4600\<close> whose first block is block 1 and whose second a hole, and a free heap range above the page table.
\<close>

definition image_mem :: mem where
  "image_mem = fold (\<lambda>(a, v) m. store32 m a v)
     [(0x4418, 10), (0x4200, 0x584c5258), (0x4204, 0x20000), (0x4208, 0xC0000E00), (0x420C, 0x1400), (0x4210, 0xC0000E20), (0x4604, 1500), (0x4628, 1)]
     (memory page_heap)"

definition image_state :: "fs \<Rightarrow> fs" where
  "image_state s = s\<lparr>memory := image_mem, BlHeapRanges := BlHeapRanges page_heap, BlFreeRanges := BlFreeRanges page_heap,
     BiBCacheUsed := 0, BiBCache := BlListInit, BlRootPartition := \<lparr>Start = 512, PartSize = 8192\<rparr>,
     BiBlockSize := 1024, BiIndirectionShift := 8, BiIndirectionCount := 256, BiIndirectionMask := 255\<rparr>"

definition image_statics :: "dt_statics \<Rightarrow> dt_statics" where
  "image_statics L = L\<lparr>BiBCacheMeta := 0x1000, BiBCacheData := 0x30000, BiSuperblock := 0x4400, local_value := 0x4800,
     BlKernelHeader := 0x4200, BlPageTable := 0x8000\<rparr>"

lemma image_statics:
  "BiBCacheMeta (image_statics L) = 0x1000" "BiBCacheData (image_statics L) = 0x30000" "BiSuperblock (image_statics L) = 0x4400"
  "local_value (image_statics L) = 0x4800" "BlKernelHeader (image_statics L) = 0x4200" "BlPageTable (image_statics L) = 0x8000"
  by (simp_all add: image_statics_def)

lemma image_words:
  "load32 image_mem 0x4418 = 10" "load32 image_mem 0x4200 = 0x584c5258" "load32 image_mem 0x4208 = 0xC0000E00" "load32 image_mem 0x420C = 0x1400" "load32 image_mem 0x4604 = 1500"
  "load32 image_mem 0x4210 = 0xC0000E20" "load32 image_mem 0x4214 = 0" "load32 image_mem 0x4464 = 0"
  by (simp_all add: image_mem_def page_heap_low load32_apart)

lemma image_inode: "inode_at image_mem 0x4600 some_direct (\<lambda>_. 0)"
proof -
  have d: "load32 image_mem 0x4628 = 1" by (simp add: image_mem_def page_heap_low load32_apart)
  have z: "load32 image_mem (0x4600 + of_nat i) = 0" if "44 \<le> i" "i \<le> 124" for i
  proof -
    have "unat (0x4600 + of_nat i :: u32) = 0x4600 + i" using that by (simp add: unat_word_ariths unat_of_nat take_bit_eq_mod)
    then show ?thesis using that by (simp add: image_mem_def page_heap_low load32_apart)
  qed
  have "load32 image_mem (DirectBlock 0x4600 k) = some_direct k" if "k < 12" for k
  proof (cases "k = 0")
    case False
    then show ?thesis using z [of "40 + 4 * k"] that by (simp add: DirectBlock_def add.assoc)
  qed (simp add: DirectBlock_def d)
  moreover have "load32 image_mem (IndirectBlock 0x4600 k) = 0" if "k < 3" for k
    using z [of "88 + 4 * k"] that by (simp add: IndirectBlock_def add.assoc)
  ultimately show ?thesis by (simp add: inode_at_def)
qed

lemma image_heap:
  "heap_inv (page_heap\<lparr>memory := image_mem\<rparr>) [(0x10000, 0x20000, True)] [0x10000]"
  "tables_ok image_mem 0x8000 (foot [(0x10000, 0x20000, True)])" "table_span image_mem 0x8000 = span 0x8000 4096"
proof -
  have out: "same_outside (span 0x4000 0x1000) (memory page_heap) image_mem"
    unfolding image_mem_def fold_simps prod.case by (rule store32_span span_within same_on_refl | simp)+
  have "span 0x4000 0x1000 \<inter> header_span (bases [(0x10000, 0x20000, True)]) = {}"
    by (rule equals0I) (auto simp: header_span_def span_fits fits_def)
  moreover have "span 0x4000 0x1000 \<inter> table_span (memory page_heap) 0x8000 = {}"
    unfolding page_heap_table_span by (rule equals0I) (auto simp: span_fits fits_def)
  note heap_inv_write [OF page_heap_inv page_heap_tables out calculation this]
  then show "heap_inv (page_heap\<lparr>memory := image_mem\<rparr>) [(0x10000, 0x20000, True)] [0x10000]"
    "tables_ok image_mem 0x8000 (foot [(0x10000, 0x20000, True)])" "table_span image_mem 0x8000 = span 0x8000 4096"
    by (simp_all add: page_heap_table_span)
qed

lemma image_scratch: "x \<in> scratch (image_statics L) \<longleftrightarrow> unat x \<in> {0x1000..<0x1180} \<union> {0x30000..<0x40000} \<union> {0x4800..<0x4804}"
  by (auto simp: scratch_def cache_span_def image_statics span_fits fits_def)

lemma image_constants: "x \<in> constants (image_statics L) 0x4600 \<longleftrightarrow> unat x \<in> {0x4400..<0x44EC} \<union> {0x4600..<0x4680} \<union> {0x4200..<0x4220}"
  by (auto simp: constants_def image_statics span_fits fits_def)

lemma image_fs_layout: "fs_layout (image_statics L)"
proof -
  have "layout_ok (image_statics L)"
    using span_disjoint [of "0x1000" 384 "0x30000" 65536] by (simp add: layout_ok_def image_statics fits_def cache_consts)
  moreover have "cache_span (image_statics L) \<subseteq> {x. unat x < 0x2000 \<or> 0x30000 \<le> unat x}"
    by (auto simp: cache_span_def image_statics span_fits fits_def)
  moreover have "span 0x4800 4 \<subseteq> {x. 0x4800 \<le> unat x \<and> unat x < 0x4804}" "span 0x4400 236 \<subseteq> {x. 0x4400 \<le> unat x \<and> unat x < 0x44EC}"
    by (auto simp: span_fits fits_def)
  ultimately show ?thesis by (fastforce simp: fs_layout_def image_statics fits_def)
qed

lemma image_load_ready: "load_ready (image_statics L) disk 64 10 0x4600 (image_state s) [(0x10000, 0x20000, True)] [0x10000]"
proof -
  let ?rs = "[(0x10000, 0x20000, True)] :: block list"
  have "heap_inv (image_state s) ?rs [0x10000]" using image_heap(1) by (simp add: heap_inv_def heap_rep_def image_state_def)
  moreover have "cache_inv (image_statics L) disk 64 (image_state s) []" using BlListInit_rep by (simp add: cache_inv_def image_state_def)
  moreover have "partition_ok 64 (image_state s)" by (simp add: partition_ok_def image_state_def cache_consts)
  moreover have "geometry (image_statics L) 10 (image_state s)"
    by (simp add: geometry_def image_state_def BlockSizeShift_def image_statics image_words)
  moreover have "scratch (image_statics L) \<inter> (foot ?rs \<union> span 0x8000 4096) = {}"
    by (rule equals0I) (auto simp: image_scratch span_fits fits_def area_def word_le_nat_alt word_less_nat_alt)
  moreover have "constants (image_statics L) 0x4600 \<subseteq> kept_area 0x8000 image_mem ?rs - scratch (image_statics L)"
  proof
    fix x assume "x \<in> constants (image_statics L) 0x4600"
    then have "0x4200 \<le> unat x" "unat x < 0x4680" by (auto simp: image_constants)
    then show "x \<in> kept_area 0x8000 image_mem ?rs - scratch (image_statics L)"
      by (auto simp: kept_area_def image_heap(3) image_scratch span_fits fits_def area_def word_le_nat_alt word_less_nat_alt)
  qed
  ultimately show ?thesis
    using image_heap by (auto simp: load_ready_def image_statics image_state_def)
qed

lemma image_file: "file_ready (image_statics L) P 10 8192 some_direct (\<lambda>_. 0) 0x4600 1500 (image_state s)"
proof -
  have "unat (BlFsFileSize (image_statics L) 0x4600 (image_state s)) = 1500"
    by (simp add: BlFsFileSize_def BiInodeSize_def InodeSize_def WriteRequiredFeatures_def image_statics image_state_def image_words)
  moreover have "block_ok P 10 8192 some_direct (\<lambda>_. 0) k" if "k * 2 ^ 10 < 1500" for k
    using that by (auto simp: block_ok_def file_block_def)
  ultimately show ?thesis using image_inode by (simp add: file_ready_def image_state_def)
qed


theorem load_image_correct_witness:
  "\<forall>s L. load_result (request_fails (\<lambda>_ _. False) 64) (load_image (image_statics L) (BxReadFromDisk (served_disk of_nat) 64) 0x4600 (image_state s))
    (\<lambda>s'. (\<exists>q. translate (memory s') 0x8000 0xC0000E07 = Some q \<and> memory s' q = of_nat 1543)
      \<and> (\<exists>q. translate (memory s') 0x8000 0xC0001FFF = Some q \<and> memory s' q = 0)
      \<and> translate (memory s') 0x8000 0x1000 = translate image_mem 0x8000 0x1000)"
proof (intro allI)
  fix s L
  have rp: "BlRootPartition (image_state s) = \<lparr>Start = 512, PartSize = 8192\<rparr>" by (simp add: image_state_def)
  have w: "header_word (memory (image_state s)) (KernelVirtualAddr (image_statics L)) = 0xC0000E00"
    "header_word (memory (image_state s)) (KernelMSize (image_statics L)) = 0x1400"
    by (simp_all add: kernel_fields image_statics image_state_def image_words)
  have P: "(\<lambda>k. of_nat (512 + k)) = (\<lambda>k. of_nat (unat (Start (BlRootPartition (image_state s))) + k) :: u8)"
    and Z: "8192 = unat (PartSize (BlRootPartition (image_state s)))" unfolding rp by simp_all
  have m: "memory (image_state s) = image_mem" by (simp add: image_state_def)
  have T: "load_result (request_fails (\<lambda>_ _. False) 64) (load_image (image_statics L) (BxReadFromDisk (served_disk of_nat) 64) 0x4600 (image_state s)) Q"
    if "\<And>s'. \<forall>v. if 0xC0000E00 div 4096 * 4096 \<le> unat v \<and> unat v < (0xC0000E00 + 0x1400 + 4095) div 4096 * 4096
            then \<exists>q. translate (memory s') (BlPageTable (image_statics L)) v = Some q
              \<and> memory s' q = (if 0xC0000E00 \<le> unat v \<and> unat v < 0xC0000E00 + 1500
                  then file_byte (\<lambda>k. of_nat (512 + k)) 10 some_direct (\<lambda>_. 0) (unat v - 0xC0000E00) else 0)
            else translate (memory s') (BlPageTable (image_statics L)) v = translate (memory (image_state s)) (BlPageTable (image_statics L)) v \<Longrightarrow> Q s'" for Q
  proof -
    have no: "\<not> (0x1400::nat) < 1500" and d: "512 dvd (0xC0000E00::nat)" and e: "0xC0000E00 + 0x1400 + 4096 \<le> (2::nat) ^ 32" by simp_all
    show ?thesis
      using load_image_correct [OF served.firmware_disk_axioms image_fs_layout image_load_ready P Z image_file w(1) [symmetric] d w(2) [symmetric] e]
      unfolding if_not_P [OF no] by (rule load_result_mono) (elim conjE, erule that)
  qed
  have T': "load_result (request_fails (\<lambda>_ _. False) 64) (load_image (image_statics L) (BxReadFromDisk (served_disk of_nat) 64) 0x4600 (image_state s))
      (\<lambda>s'. \<forall>v. if 0xC0000E00 div 4096 * 4096 \<le> unat v \<and> unat v < (0xC0000E00 + 0x1400 + 4095) div 4096 * 4096
            then \<exists>q. translate (memory s') 0x8000 v = Some q
              \<and> memory s' q = (if 0xC0000E00 \<le> unat v \<and> unat v < 0xC0000E00 + 1500
                  then file_byte (\<lambda>k. of_nat (512 + k)) 10 some_direct (\<lambda>_. 0) (unat v - 0xC0000E00) else 0)
            else translate (memory s') 0x8000 v = translate image_mem 0x8000 v)"
    by (rule T) (simp only: image_statics m)
  show "load_result (request_fails (\<lambda>_ _. False) 64) (load_image (image_statics L) (BxReadFromDisk (served_disk of_nat) 64) 0x4600 (image_state s))
    (\<lambda>s'. (\<exists>q. translate (memory s') 0x8000 0xC0000E07 = Some q \<and> memory s' q = of_nat 1543)
      \<and> (\<exists>q. translate (memory s') 0x8000 0xC0001FFF = Some q \<and> memory s' q = 0)
      \<and> translate (memory s') 0x8000 0x1000 = translate image_mem 0x8000 0x1000)"
  proof (rule load_result_mono [OF T'])
    fix s' assume A: "\<forall>v. if 0xC0000E00 div 4096 * 4096 \<le> unat v \<and> unat v < (0xC0000E00 + 0x1400 + 4095) div 4096 * 4096
            then \<exists>q. translate (memory s') 0x8000 v = Some q
              \<and> memory s' q = (if 0xC0000E00 \<le> unat v \<and> unat v < 0xC0000E00 + 1500
                  then file_byte (\<lambda>k. of_nat (512 + k)) 10 some_direct (\<lambda>_. 0) (unat v - 0xC0000E00) else 0)
            else translate (memory s') 0x8000 v = translate image_mem 0x8000 v"
    have "file_byte (\<lambda>k. of_nat (512 + k)) 10 some_direct (\<lambda>_. 0) 7 = (of_nat 1543 :: u8)" by (simp add: file_byte_def file_block_def)
    then show "(\<exists>q. translate (memory s') 0x8000 0xC0000E07 = Some q \<and> memory s' q = of_nat 1543)
      \<and> (\<exists>q. translate (memory s') 0x8000 0xC0001FFF = Some q \<and> memory s' q = 0)
      \<and> translate (memory s') 0x8000 0x1000 = translate image_mem 0x8000 0x1000"
      using A [rule_format, of "0xC0000E07"] A [rule_format, of "0xC0001FFF"] A [rule_format, of "0x1000"] by simp
  qed
qed

end
