(* ===== verification/Installer.thy ===== *)
theory Installer
  imports Prelude
begin

text \<open>
  The installer, \<^verbatim>\<open>install-apt/install-apt.c\<close>: a program of the host that puts the boot loader's image between the
  partition table of a disk and its first partition. The host is little-endian. The system calls are calls of
  the standard library: \<open>sys\<close> says how the \<open>n\<close>th call goes, \<open>None\<close> for an error, otherwise the most bytes it moves.
\<close>

section \<open>The host\<close>

record host =
  disk_data :: "nat \<Rightarrow> u8"
  disk_len :: nat
  image_data :: "u8 list"
  calls :: nat

type_synonym sys = "nat \<Rightarrow> nat option"

text \<open>
  What a function ends with: nothing if it never ends, the message of an error exit or a result, and the host. \<open>UNDEFINED\<close> stands
  for behaviour that C leaves undefined.
\<close>

type_synonym 'a io = "((string + 'a) \<times> host) option"

definition die :: "string \<Rightarrow> host \<Rightarrow> 'a io" where "die message h = Some (Inl message, h)"
definition give :: "'a \<Rightarrow> host \<Rightarrow> 'a io" where "give x h = Some (Inr x, h)"
definition UNDEFINED :: string where "UNDEFINED = ''undefined''"

definition seq :: "'a io \<Rightarrow> ('a \<Rightarrow> host \<Rightarrow> 'b io) \<Rightarrow> 'b io" where
  "seq r f = Option.bind r (\<lambda>(x, h). case x of Inl message \<Rightarrow> die message h | Inr y \<Rightarrow> f y h)"

lemma seq_simps [simp]: "seq None f = None" "seq (die e h) f = die e h" "seq (give x h) f = f x h"
  by (simp_all add: seq_def die_def give_def)

lemma seq_mono [partial_function_mono]:
  assumes "mono_option B" "\<And>y h. mono_option (\<lambda>f. C y h f)"
  shows "mono_option (\<lambda>f. seq (B f) (\<lambda>y h. C y h f))"
  unfolding seq_def
proof (rule bind_mono [OF assms(1)])
  fix p :: "(string + 'c) \<times> host"
  obtain x h where p: "p = (x, h)" by (cases p)
  show "mono_option (\<lambda>f. case p of (Inl message, h) \<Rightarrow> die message h | (Inr y, h) \<Rightarrow> C y h f)"
    unfolding p using assms(2) by (cases x) (auto intro: option.const_mono)
qed

definition called :: "host \<Rightarrow> host" where "called h = h\<lparr>calls := calls h + 1\<rparr>"

text \<open>\<open>open\<close> and \<open>fstat\<close>; the latter gives the size of the image.\<close>

definition open_file :: "sys \<Rightarrow> string \<Rightarrow> host \<Rightarrow> unit io" where
  "open_file sys message h = (case sys (calls h) of None \<Rightarrow> die message (called h) | Some k \<Rightarrow> give () (called h))"

definition fstat :: "sys \<Rightarrow> host \<Rightarrow> nat io" where
  "fstat sys h = (case sys (calls h) of None \<Rightarrow> die ''failed to stat image'' (called h) | Some k \<Rightarrow> give (length (image_data h)) (called h))"

text \<open>\<open>pread\<close> and \<open>pwrite\<close>; \<open>None\<close> is the result -1. A write past the end makes the file longer.\<close>

definition disk_part :: "host \<Rightarrow> nat \<Rightarrow> nat \<Rightarrow> u8 list" where
  "disk_part h offset n = map (disk_data h) [offset..<min (disk_len h) (offset + n)]"

definition pread_disk :: "sys \<Rightarrow> nat \<Rightarrow> nat \<Rightarrow> host \<Rightarrow> u8 list option" where
  "pread_disk sys sz offset h = map_option (\<lambda>k. disk_part h offset (min k sz)) (sys (calls h))"

definition pread_image :: "sys \<Rightarrow> nat \<Rightarrow> nat \<Rightarrow> host \<Rightarrow> u8 list option" where
  "pread_image sys sz offset h = map_option (\<lambda>k. take (min k sz) (drop offset (image_data h))) (sys (calls h))"

definition put_bytes :: "(nat \<Rightarrow> u8) \<Rightarrow> nat \<Rightarrow> u8 list \<Rightarrow> nat \<Rightarrow> u8" where
  "put_bytes d offset bs p = (if offset \<le> p \<and> p < offset + length bs then bs ! (p - offset) else d p)"

definition pwrite_disk :: "sys \<Rightarrow> u8 list \<Rightarrow> nat \<Rightarrow> host \<Rightarrow> (nat \<times> host) option" where
  "pwrite_disk sys buffer offset h =
     (case sys (calls h) of None \<Rightarrow> None
      | Some k \<Rightarrow>
          let bs = take k buffer
          in Some (length bs, (called h)\<lparr>disk_data := put_bytes (disk_data h) offset bs, disk_len := max (disk_len h) (offset + length bs)\<rparr>))"

section \<open>Reading and writing\<close>

partial_function (option) ReadFully :: "sys \<Rightarrow> nat \<Rightarrow> nat \<Rightarrow> u8 list \<Rightarrow> host \<Rightarrow> u8 list io" where
  "ReadFully sys sz offset got h =
     (if sz = 0 then give got h
      else case pread_disk sys sz offset h of
        None \<Rightarrow> die ''read failed'' (called h)
      | Some bs \<Rightarrow> ReadFully sys (sz - length bs) (offset + length bs) (got @ bs) (called h))"

partial_function (option) WriteFully :: "sys \<Rightarrow> u8 list \<Rightarrow> nat \<Rightarrow> host \<Rightarrow> unit io" where
  "WriteFully sys buffer offset h =
     (if buffer = [] then give () h
      else case pwrite_disk sys buffer offset h of
        None \<Rightarrow> die ''write failed'' (called h)
      | Some (current, h) \<Rightarrow> WriteFully sys (drop current buffer) (offset + current) h)"

definition BUFFER_SIZE :: nat where "BUFFER_SIZE = 0x10000"

text \<open>After a failed read the code goes on with a count of -1 and writes from beyond its buffer.\<close>

partial_function (option) CopyData :: "sys \<Rightarrow> nat \<Rightarrow> nat \<Rightarrow> nat \<Rightarrow> host \<Rightarrow> unit io" where
  "CopyData sys sz srcPos dstPos h =
     (if sz = 0 then give () h
      else case pread_image sys (if BUFFER_SIZE \<le> sz then BUFFER_SIZE else sz) srcPos h of
        None \<Rightarrow> die UNDEFINED (called h)
      | Some bs \<Rightarrow>
          seq (WriteFully sys bs dstPos (called h)) (\<lambda>_ h.
            CopyData sys (sz - length bs) (srcPos + length bs) (dstPos + length bs) h))"

section \<open>The tables\<close>

definition APT_MAGIC :: u32 where "APT_MAGIC = 0x4e4d494d"
definition APT_BOOT_MAGIC :: u32 where "APT_BOOT_MAGIC = 0x796d6173"
definition APT_START_SECTOR :: u32 where "APT_START_SECTOR = 4"
definition APT_BOOT_SECTORS :: u32 where "APT_BOOT_SECTORS = 3"
definition MBR_SIGNATURE :: u16 where "MBR_SIGNATURE = 0xaa55"
definition SECTOR_SIZE :: nat where "SECTOR_SIZE = 512"
definition DEFAULT_AVAIL_SIZE :: nat where "DEFAULT_AVAIL_SIZE = 0x100000"
definition OsLogo :: "u8 list" where "OsLogo = replicate 512 0"

text \<open>Fields of a structure held as its bytes.\<close>

definition get16 :: "u8 list \<Rightarrow> nat \<Rightarrow> u16" where
  "get16 bs i = ucast (bs ! i) OR push_bit 8 (ucast (bs ! (i + 1)))"

definition get32 :: "u8 list \<Rightarrow> nat \<Rightarrow> u32" where
  "get32 bs i = ucast (bs ! i) OR push_bit 8 (ucast (bs ! (i + 1))) OR push_bit 16 (ucast (bs ! (i + 2))) OR push_bit 24 (ucast (bs ! (i + 3)))"

definition le_bytes :: "u32 \<Rightarrow> u8 list" where
  "le_bytes v = [ucast v, ucast (drop_bit 8 v), ucast (drop_bit 16 v), ucast (drop_bit 24 v)]"

text \<open>\<open>struct MbrPartition\<close> number \<open>i\<close>, at 446 of \<open>struct Mbr\<close>.\<close>

definition PartBootIndicator :: "u8 list \<Rightarrow> nat \<Rightarrow> u8" where "PartBootIndicator mbr i = mbr ! (446 + 16 * i)"
definition PartOsType :: "u8 list \<Rightarrow> nat \<Rightarrow> u8" where "PartOsType mbr i = mbr ! (446 + 16 * i + 4)"
definition PartStartingLba :: "u8 list \<Rightarrow> nat \<Rightarrow> u32" where "PartStartingLba mbr i = get32 mbr (446 + 16 * i + 8)"
definition PartSizeInLba :: "u8 list \<Rightarrow> nat \<Rightarrow> u32" where "PartSizeInLba mbr i = get32 mbr (446 + 16 * i + 12)"

text \<open>The loop over the partitions: none when an indicator is invalid.\<close>

fun scan_partitions :: "u8 list \<Rightarrow> nat list \<Rightarrow> u32 \<Rightarrow> u32 option" where
  "scan_partitions mbr [] aptPartitionEnd = Some aptPartitionEnd"
| "scan_partitions mbr (i # is) aptPartitionEnd =
     (if PartBootIndicator mbr i \<noteq> 0 \<and> PartBootIndicator mbr i \<noteq> 0x80 then None
      else if PartOsType mbr i = 0 \<or> PartSizeInLba mbr i = 0 then scan_partitions mbr is aptPartitionEnd
      else scan_partitions mbr is (if PartStartingLba mbr i < aptPartitionEnd then PartStartingLba mbr i else aptPartitionEnd))"

text \<open>\<open>struct AptOsRecord\<close> and the table: \<open>struct AptBootBlock\<close> over the first bytes of the old sector.\<close>

definition os_record :: "u8 list \<Rightarrow> u32 \<Rightarrow> u8 list" where
  "os_record name imageSectors =
     le_bytes APT_BOOT_MAGIC @ (name @ replicate (16 - length name) 0) @ le_bytes APT_BOOT_SECTORS @ le_bytes imageSectors"

definition apt_entry :: "u32 \<Rightarrow> u32 \<Rightarrow> u8 list" where
  "apt_entry SectorCount Status = replicate 8 0 @ le_bytes SectorCount @ le_bytes Status"

definition apt_boot_block :: "u32 \<Rightarrow> u8 list" where
  "apt_boot_block available =
     replicate 15 0 @ [0xff] @ apt_entry available 1 @ replicate (7 * 16) 0 @ le_bytes APT_MAGIC @ replicate 16 0"

definition new_mbr :: "u8 list \<Rightarrow> u32 \<Rightarrow> u8 list" where
  "new_mbr mbr available = apt_boot_block available @ drop 164 mbr"

lemma apt_sizes: "length name \<le> 16 \<Longrightarrow> length (os_record name n) = 28" "length (apt_boot_block n) = 164"
  by (simp_all add: os_record_def le_bytes_def apt_boot_block_def apt_entry_def)

section \<open>The program\<close>

text \<open>The writes, in the order of the code: the image, its header, and the table last.\<close>

definition write_all :: "sys \<Rightarrow> u8 list \<Rightarrow> u8 list \<Rightarrow> u32 \<Rightarrow> nat \<Rightarrow> u32 \<Rightarrow> host \<Rightarrow> unit io" where
  "write_all sys name mbr available st_size imageSectors h =
     seq (CopyData sys st_size 0 (unat (APT_START_SECTOR + APT_BOOT_SECTORS) * SECTOR_SIZE) h) (\<lambda>_ h.
     seq (WriteFully sys (os_record name imageSectors) (unat (APT_START_SECTOR + 1) * SECTOR_SIZE) h) (\<lambda>_ h.
     seq (WriteFully sys OsLogo (unat (APT_START_SECTOR + 2) * SECTOR_SIZE) h) (\<lambda>_ h.
       WriteFully sys (new_mbr mbr available) 0 h)))"

definition install_image :: "sys \<Rightarrow> u8 list \<Rightarrow> u8 list \<Rightarrow> u32 \<Rightarrow> host \<Rightarrow> unit io" where
  "install_image sys name mbr available h =
     seq (open_file sys ''failed to open image'' h) (\<lambda>_ h.
     seq (fstat sys h) (\<lambda>st_size h.
       let imageSectors = of_nat ((st_size + (SECTOR_SIZE - 1)) div SECTOR_SIZE);
           neededSectors = APT_BOOT_SECTORS + imageSectors
       in if neededSectors > available then die ''image too large for free area'' h
          else write_all sys name mbr available st_size imageSectors h))"

definition install_table :: "sys \<Rightarrow> u8 list \<Rightarrow> u8 list \<Rightarrow> host \<Rightarrow> unit io" where
  "install_table sys name mbr h =
     (if get16 mbr 510 \<noteq> MBR_SIGNATURE then die ''invalid mbr'' h
      else case scan_partitions mbr [0..<4] (of_nat (DEFAULT_AVAIL_SIZE div SECTOR_SIZE)) of
        None \<Rightarrow> die ''invalid mbr'' h
      | Some aptPartitionEnd \<Rightarrow>
          let aptPartitionStart = APT_START_SECTOR
          in if aptPartitionEnd \<le> aptPartitionStart then die ''no space on disk for apt'' h
             else install_image sys name mbr (aptPartitionEnd - aptPartitionStart) h)"

definition install_main :: "sys \<Rightarrow> u8 list list \<Rightarrow> host \<Rightarrow> unit io" where
  "install_main sys argv h =
     (if length argv \<noteq> 4 then die ''usage'' h
      else
        let name = argv ! 3
        in if length name > 15 then die ''name too long (must be at most 7 characters)'' h
           else
             seq (open_file sys ''failed to open disk'' h) (\<lambda>_ h.
             seq (ReadFully sys 512 0 [] h) (\<lambda>mbr h.
               install_table sys name mbr h)))"

end
