(* ===== verification/Installer_Correct.thy ===== *)
theory Installer_Correct
  imports Installer
begin

text \<open>
  What the installer leaves on the disk, at whatever point it stops: its writes stay in front of the
  partitions, and the new table is written only after everything it refers to.
\<close>

section \<open>Bytes of the disk\<close>

lemma put_bytes_Nil [simp]: "put_bytes d a [] = d"
  by (rule ext) (auto simp: put_bytes_def)

lemma put_bytes_append: "put_bytes (put_bytes d a xs) (a + length xs) ys = put_bytes d a (xs @ ys)"
  by (rule ext) (auto simp: put_bytes_def nth_append)

lemma put_bytes_outside: "p < a \<or> a + length bs \<le> p \<Longrightarrow> put_bytes d a bs p = d p"
  by (auto simp: put_bytes_def)

lemma put_bytes_inside: "i < length bs \<Longrightarrow> put_bytes d a bs (a + i) = bs ! i"
  by (simp add: put_bytes_def)

definition bytes_on :: "(nat \<Rightarrow> u8) \<Rightarrow> nat \<Rightarrow> u8 list \<Rightarrow> bool" where
  "bytes_on d a bs \<longleftrightarrow> (\<forall>i<length bs. d (a + i) = bs ! i)"

lemma bytes_on_put [simp]: "bytes_on (put_bytes d a bs) a bs"
  by (simp add: bytes_on_def put_bytes_inside)

lemma bytes_on_outside: "bytes_on d a bs \<Longrightarrow> a + length bs \<le> b \<or> b + length ys \<le> a \<Longrightarrow> bytes_on (put_bytes d b ys) a bs"
  by (auto simp: bytes_on_def put_bytes_def)

section \<open>The loops\<close>

lemma called_simps [simp]: "disk_data (called h) = disk_data h" "disk_len (called h) = disk_len h" "image_data (called h) = image_data h"
  "calls (called h) = calls h + 1"
  by (simp_all add: called_def)

lemma io_simps [simp]: "die e h = Some (r, h') \<longleftrightarrow> r = Inl e \<and> h' = h" "give x h = Some (r', h') \<longleftrightarrow> r' = Inr x \<and> h' = h"
  "die e h \<noteq> None" "give x h \<noteq> None"
  by (auto simp: die_def give_def)

text \<open>A write that stopped somewhere: a prefix is on the disk, all of it if it came back.\<close>

definition wrote :: "host \<Rightarrow> nat \<Rightarrow> u8 list \<Rightarrow> nat \<Rightarrow> host \<Rightarrow> bool" where
  "wrote h a bs n h' \<longleftrightarrow> n \<le> length bs \<and> disk_data h' = put_bytes (disk_data h) a (take n bs) \<and> image_data h' = image_data h"

lemma wrote_more: "wrote h a xs (length xs) h1 \<Longrightarrow> wrote h1 (a + length xs) ys n h' \<Longrightarrow> wrote h a (xs @ ys) (length xs + n) h'"
  by (auto simp: wrote_def put_bytes_append)

lemma WriteFully_raw:
  assumes "WriteFully sys bs a h = Some y"
  shows "\<exists>n. wrote h a bs n (snd y) \<and> (fst y = Inr () \<longrightarrow> n = length bs) \<and> fst y \<noteq> Inl UNDEFINED"
  using assms
proof (induction sys bs a h y rule: WriteFully.raw_induct [rotated 1, consumes 1, case_names 1])
  case (1 f sys bs a h y)
  show ?case
  proof (cases "bs = []")
    case True
    then show ?thesis using 1(2) by (cases y) (auto simp: wrote_def)
  next
    case False
    show ?thesis
    proof (cases "sys (calls h)")
      case None
      then show ?thesis using 1(2) False by (cases y) (auto simp: pwrite_disk_def wrote_def UNDEFINED_def)
    next
      case (Some k)
      define h1 where "h1 = (called h)\<lparr>disk_data := put_bytes (disk_data h) a (take k bs), disk_len := max (disk_len h) (a + length (take k bs))\<rparr>"
      have "f sys (drop (length (take k bs)) bs) (a + length (take k bs)) h1 = Some y"
        using 1(2) False Some by (simp add: pwrite_disk_def h1_def)
      from 1(1) [OF this] obtain n where n: "wrote h1 (a + length (take k bs)) (drop (length (take k bs)) bs) n (snd y)"
        "fst y = Inr () \<longrightarrow> n = length bs - length (take k bs)" "fst y \<noteq> Inl UNDEFINED"
        unfolding length_drop by blast
      have "wrote h a (take k bs) (length (take k bs)) h1" unfolding wrote_def take_all [OF order.refl] by (simp add: h1_def)
      from wrote_more [OF this n(1)] have "wrote h a (take k bs @ drop (length (take k bs)) bs) (length (take k bs) + n) (snd y)" .
      moreover have "take k bs @ drop (length (take k bs)) bs = bs" by (simp add: min_def)
      ultimately have "wrote h a bs (length (take k bs) + n) (snd y)" by simp
      then show ?thesis using n by (intro exI [of _ "length (take k bs) + n"]) auto
    qed
  qed
qed

lemma WriteFully_wrote:
  "WriteFully sys bs a h = Some (r, h') \<Longrightarrow> \<exists>n. wrote h a bs n h' \<and> (r = Inr () \<longrightarrow> n = length bs) \<and> r \<noteq> Inl UNDEFINED"
  using WriteFully_raw by fastforce

lemma CopyData_raw:
  assumes "CopyData sys sz src dst h = Some y" "src + sz \<le> length (image_data h)"
  shows "\<exists>n \<le> sz. wrote h dst (take sz (drop src (image_data h))) n (snd y) \<and> (fst y = Inr () \<longrightarrow> n = sz)"
  using assms
proof (induction sys sz src dst h y rule: CopyData.raw_induct [rotated 1, consumes 1, case_names 1])
  case (1 f sys sz src dst h y)
  let ?rest = "take sz (drop src (image_data h))"
  show ?case
  proof (cases "sz = 0 \<or> sys (calls h) = None")
    case True
    then show ?thesis using 1(2) by (cases y) (auto simp: wrote_def pread_image_def split: if_splits)
  next
    case False
    then obtain k where k: "sys (calls h) = Some k" by auto
    define bs where "bs = take (min k (if BUFFER_SIZE \<le> sz then BUFFER_SIZE else sz)) (drop src (image_data h))"
    have len: "length bs \<le> sz" and pre: "take (length bs) ?rest = bs" using 1(3) by (auto simp: bs_def min_def)
    have step: "seq (WriteFully sys bs dst (called h)) (\<lambda>_ h. f sys (sz - length bs) (src + length bs) (dst + length bs) h) = Some y"
      using 1(2) False k by (simp add: pread_image_def bs_def)
    then obtain r1 h1 where w: "WriteFully sys bs dst (called h) = Some (r1, h1)" by (cases "WriteFully sys bs dst (called h)") auto
    from WriteFully_wrote [OF w] obtain n where n: "wrote (called h) dst bs n h1" "r1 = Inr () \<longrightarrow> n = length bs" by auto
    show ?thesis
    proof (cases r1)
      case (Inl e)
      then have y: "y = (Inl e, h1)" using step w by (simp add: seq_def die_def)
      have "take n bs = take n ?rest" using n(1) pre by (metis min.absorb1 take_take wrote_def)
      moreover have "n \<le> length ?rest" using n(1) len 1(3) by (auto simp: wrote_def)
      ultimately show ?thesis using n(1) len unfolding y by (intro exI [of _ n]) (simp add: wrote_def)
    next
      case (Inr u)
      then have f: "f sys (sz - length bs) (src + length bs) (dst + length bs) h1 = Some y" and n': "n = length bs"
        using step w n(2) by (simp_all add: seq_def)
      have im: "image_data h1 = image_data h" using n(1) by (simp add: wrote_def)
      from 1(1) [OF f] 1(3) len im obtain j where j: "j \<le> sz - length bs"
        "wrote h1 (dst + length bs) (take (sz - length bs) (drop (src + length bs) (image_data h))) j (snd y)" "fst y = Inr () \<longrightarrow> j = sz - length bs" by auto
      have "wrote h dst bs (length bs) h1" using n(1) unfolding n' by (simp add: wrote_def)
      from wrote_more [OF this j(2)]
      have "wrote h dst (bs @ take (sz - length bs) (drop (src + length bs) (image_data h))) (length bs + j) (snd y)" .
      moreover have "bs @ take (sz - length bs) (drop (src + length bs) (image_data h)) = take (length bs) ?rest @ drop (length bs) ?rest"
        unfolding pre by (simp add: drop_take add.commute)
      ultimately have "wrote h dst ?rest (length bs + j) (snd y)" unfolding append_take_drop_id by (simp only:)
      then show ?thesis using j len by (intro exI [of _ "length bs + j"]) auto
    qed
  qed
qed

lemma ReadFully_raw:
  assumes "ReadFully sys sz a got h = Some y"
  shows "disk_data (snd y) = disk_data h \<and> image_data (snd y) = image_data h \<and> fst y \<noteq> Inl UNDEFINED
    \<and> (\<forall>bs. fst y = Inr bs \<longrightarrow> bs = got @ map (disk_data h) [a..<a + sz])"
  using assms
proof (induction sys sz a got h y rule: ReadFully.raw_induct [rotated 1, consumes 1, case_names 1])
  case (1 f sys sz a got h y)
  show ?case
  proof (cases "sz = 0 \<or> sys (calls h) = None")
    case True
    then show ?thesis using 1(2) by (cases y) (auto simp: pread_disk_def UNDEFINED_def split: if_splits)
  next
    case False
    then obtain k where k: "sys (calls h) = Some k" by auto
    define bs where "bs = disk_part h a (min k sz)"
    have "f sys (sz - length bs) (a + length bs) (got @ bs) (called h) = Some y"
      using 1(2) False k by (simp add: pread_disk_def bs_def)
    note IH = 1(1) [OF this]
    have len: "length bs \<le> sz" and b: "bs = map (disk_data h) [a..<a + length bs]"
      unfolding bs_def disk_part_def by (cases "disk_len h \<le> a"; auto simp: min_def)+
    have "map (disk_data h) [a..<a + sz] = bs @ map (disk_data h) [a + length bs..<a + sz]"
      using len b upt_add_eq_append [of a "a + length bs" "sz - length bs"] by simp
    then show ?thesis using IH len by simp
  qed
qed

section \<open>The order of the writes\<close>

text \<open>The first \<open>i\<close> writes of a list, and \<open>k\<close> bytes of the next one.\<close>

fun after_writes :: "(nat \<times> u8 list) list \<Rightarrow> nat \<Rightarrow> nat \<Rightarrow> (nat \<Rightarrow> u8) \<Rightarrow> nat \<Rightarrow> u8" where
  "after_writes [] i k d = d"
| "after_writes ((a, bs) # ws) 0 k d = put_bytes d a (take k bs)"
| "after_writes ((a, bs) # ws) (Suc i) k d = after_writes ws i k (put_bytes d a bs)"

definition sector0 :: "(nat \<Rightarrow> u8) \<Rightarrow> u8 list" where "sector0 d = map d [0..<512]"

definition apt_end :: "(nat \<Rightarrow> u8) \<Rightarrow> u32 option" where
  "apt_end d = scan_partitions (sector0 d) [0..<4] (of_nat (DEFAULT_AVAIL_SIZE div SECTOR_SIZE))"

definition image_sectors :: "u8 list \<Rightarrow> u32" where
  "image_sectors im = of_nat ((length im + (SECTOR_SIZE - 1)) div SECTOR_SIZE)"

lemma seqE:
  assumes "seq r f = Some (x, h')"
  obtains e where "r = Some (Inl e, h')" "x = Inl e" | y h1 where "r = Some (Inr y, h1)" "f y h1 = Some (x, h')"
proof (cases r)
  case None
  then show thesis using assms by simp
next
  case (Some p)
  obtain a h1 where p: "p = (a, h1)" by (cases p)
  show thesis
    by (cases a) (use assms that in \<open>auto simp: seq_def Some p\<close>)
qed

definition untouched :: "host \<Rightarrow> host \<Rightarrow> bool" where
  "untouched h h' \<longleftrightarrow> disk_data h' = disk_data h \<and> image_data h' = image_data h"

lemma untouched_calls: "open_file sys e h = Some (r, h') \<Longrightarrow> untouched h h'" "fstat sys h = Some (r', h') \<Longrightarrow> untouched h h'"
  "fstat sys h = Some (Inr n, h') \<Longrightarrow> n = length (image_data h)"
  by (auto simp: open_file_def fstat_def untouched_def split: option.splits)

lemma fstat_length: "fstat sys h = Some (Inr n, h') \<Longrightarrow> n = length (image_data h') \<and> untouched h h'"
  by (auto simp: fstat_def untouched_def split: option.splits)

lemma untouched_trans: "untouched h h1 \<Longrightarrow> untouched h1 h2 \<Longrightarrow> untouched h h2" "untouched h h"
  by (simp_all add: untouched_def)

lemma call_messages:
  "open_file sys e h = Some (Inl e', h') \<Longrightarrow> e' = e" "fstat sys h = Some (Inl e', h') \<Longrightarrow> e' = ''failed to stat image''"
  by (auto simp: open_file_def fstat_def split: option.splits)

lemma sectors_const: "unat (APT_START_SECTOR + APT_BOOT_SECTORS) * SECTOR_SIZE = 3584" "unat (APT_START_SECTOR + 1) * SECTOR_SIZE = 2560"
  "unat (APT_START_SECTOR + 2) * SECTOR_SIZE = 3072"
  by (simp_all add: APT_START_SECTOR_def APT_BOOT_SECTORS_def SECTOR_SIZE_def)

text \<open>What a stage after the checks leaves: nothing happened but for an error exit, or some of the writes.\<close>

definition stage_out :: "host \<Rightarrow> (nat \<times> u8 list) list \<Rightarrow> bool \<Rightarrow> string + unit \<Rightarrow> host \<Rightarrow> bool" where
  "stage_out h ws ok r h' \<longleftrightarrow> (\<exists>e. r = Inl e \<and> e \<noteq> UNDEFINED \<and> disk_data h' = disk_data h)
     \<or> ok \<and> (\<exists>i<4. \<exists>k. disk_data h' = after_writes ws i k (disk_data h) \<and> (r = Inr () \<longrightarrow> i = 3 \<and> k = 512) \<and> (i = 0 \<or> r \<noteq> Inl UNDEFINED))"

lemma stage_stopped: "e \<noteq> UNDEFINED \<Longrightarrow> untouched h h' \<Longrightarrow> stage_out h ws ok (Inl e) h'"
  by (simp add: stage_out_def untouched_def)

lemma stage_after: "untouched h h1 \<Longrightarrow> stage_out h1 ws ok r h' \<Longrightarrow> stage_out h ws ok r h'"
  by (simp add: stage_out_def untouched_def)

lemma stage_open:
  assumes "seq (open_file sys e h) f = Some (r, h')" "e \<noteq> UNDEFINED"
    "\<And>x h1. untouched h h1 \<Longrightarrow> f x h1 = Some (r, h') \<Longrightarrow> stage_out h1 ws ok r h'"
  shows "stage_out h ws ok r h'"
  using assms(1)
proof (cases rule: seqE)
  case (1 e')
  then show ?thesis using assms(2) untouched_calls(1) [OF 1(1)] call_messages(1) [OF 1(1)] by (simp add: stage_stopped)
next
  case (2 y h1)
  note U = untouched_calls(1) [OF 2(1)]
  show ?thesis by (rule stage_after [OF U assms(3) [OF U 2(2)]])
qed

lemma write_all_out:
  assumes run: "write_all sys name mbr available (length (image_data h)) n h = Some (r, h')" and mbr: "length mbr = 512"
  shows "stage_out h [(3584, image_data h), (2560, os_record name n), (3072, OsLogo), (0, new_mbr mbr available)] True r h'"
proof -
  have len: "length (new_mbr mbr available) = 512" using mbr by (simp add: new_mbr_def apt_sizes)
  let ?out = "\<lambda>i k r h'. disk_data h' = after_writes [(3584, image_data h), (2560, os_record name n), (3072, OsLogo), (0, new_mbr mbr available)] i k (disk_data h)
      \<and> (r = Inr () \<longrightarrow> i = 3 \<and> k = 512) \<and> (i = 0 \<or> r \<noteq> Inl UNDEFINED)"
  from run [unfolded write_all_def sectors_const] have "\<exists>i<4. \<exists>k. ?out i k r h'"
  proof (cases rule: seqE)
    case (1 e)
    from CopyData_raw [OF 1(1)] obtain k where "wrote h 3584 (image_data h) k h'" by auto
    then show ?thesis using 1(2) by (intro exI [of _ 0]) (auto simp: wrote_def)
  next
    case (2 y h1)
    from CopyData_raw [OF 2(1)] have c: "disk_data h1 = put_bytes (disk_data h) 3584 (image_data h)" by (auto simp: wrote_def)
    from 2(2) show ?thesis
    proof (cases rule: seqE)
      case (1 e)
      from WriteFully_wrote [OF 1(1)] obtain k where "wrote h1 2560 (os_record name n) k h'" "Inl e \<noteq> (Inl UNDEFINED :: string + unit)" by auto
      then show ?thesis using 1(2) c by (intro exI [of _ 1]) (auto simp: wrote_def)
    next
      case (2 y h2)
      from WriteFully_wrote [OF 2(1)] have c2: "disk_data h2 = put_bytes (disk_data h1) 2560 (os_record name n)" by (auto simp: wrote_def)
      from 2(2) show ?thesis
      proof (cases rule: seqE)
        case (1 e)
        from WriteFully_wrote [OF 1(1)] obtain k where "wrote h2 3072 OsLogo k h'" "Inl e \<noteq> (Inl UNDEFINED :: string + unit)" by auto
        then show ?thesis using 1(2) c c2 by (intro exI [of _ 2]) (auto simp: wrote_def numeral_2_eq_2)
      next
        case (2 y h3)
        from WriteFully_wrote [OF 2(1)] have c3: "disk_data h3 = put_bytes (disk_data h2) 3072 OsLogo" by (auto simp: wrote_def)
        from WriteFully_wrote [OF 2(2)] obtain k where "wrote h3 0 (new_mbr mbr available) k h'" "r = Inr () \<longrightarrow> k = 512" "r \<noteq> Inl UNDEFINED"
          unfolding len by auto
        then show ?thesis using c c2 c3 by (intro exI [of _ 3]) (auto simp: wrote_def numeral_3_eq_3)
      qed
    qed
  qed
  then show ?thesis by (auto simp: stage_out_def)
qed

lemma install_image_out:
  assumes "install_image sys name mbr available h = Some (r, h')" "length mbr = 512"
  shows "stage_out h [(3584, image_data h), (2560, os_record name (image_sectors (image_data h))), (3072, OsLogo), (0, new_mbr mbr available)]
    (APT_BOOT_SECTORS + image_sectors (image_data h) \<le> available) r h'"
proof (rule stage_open [OF assms(1) [unfolded install_image_def]])
  fix h1 assume U: "untouched h h1" and run: "seq (fstat sys h1) (\<lambda>st_size h.
       let imageSectors = of_nat ((st_size + (SECTOR_SIZE - 1)) div SECTOR_SIZE); neededSectors = APT_BOOT_SECTORS + imageSectors
       in if neededSectors > available then die ''image too large for free area'' h
          else write_all sys name mbr available st_size imageSectors h) = Some (r, h')"
  have im: "image_data h1 = image_data h" using U by (simp add: untouched_def)
  from run show "stage_out h1 [(3584, image_data h), (2560, os_record name (image_sectors (image_data h))), (3072, OsLogo), (0, new_mbr mbr available)]
    (APT_BOOT_SECTORS + image_sectors (image_data h) \<le> available) r h'"
  proof (cases rule: seqE)
    case (1 e)
    then show ?thesis using untouched_calls(2) [OF 1(1)] call_messages(2) [OF 1(1)] by (simp add: stage_stopped UNDEFINED_def)
  next
    case (2 n h2)
    from fstat_length [OF 2(1)] have n: "n = length (image_data h2)" and U2: "untouched h1 h2" and im2: "image_data h2 = image_data h"
      using im by (simp_all add: untouched_def)
    have sz: "of_nat ((n + (SECTOR_SIZE - 1)) div SECTOR_SIZE) = image_sectors (image_data h)" unfolding n im2 image_sectors_def ..
    show ?thesis
    proof (cases "APT_BOOT_SECTORS + image_sectors (image_data h) > available")
      case True
      then show ?thesis using 2(2) stage_stopped [OF _ U2] unfolding Let_def sz by (auto simp: UNDEFINED_def)
    next
      case False
      with 2(2) have "write_all sys name mbr available (length (image_data h2)) (image_sectors (image_data h)) h2 = Some (r, h')"
        unfolding Let_def sz by (simp add: n)
      from stage_after [OF U2 write_all_out [OF this assms(2)]] False show ?thesis unfolding im2 by (simp add: not_less)
    qed
  qed
qed (simp add: UNDEFINED_def)

text \<open>What the program demands of its arguments, the disk and the image.\<close>

definition accepted :: "u8 list list \<Rightarrow> host \<Rightarrow> u32 \<Rightarrow> bool" where
  "accepted argv h e \<longleftrightarrow> length argv = 4 \<and> length (argv ! 3) \<le> 15 \<and> get16 (sector0 (disk_data h)) 510 = MBR_SIGNATURE
     \<and> apt_end (disk_data h) = Some e \<and> APT_START_SECTOR < e
     \<and> APT_BOOT_SECTORS + image_sectors (image_data h) \<le> e - APT_START_SECTOR"

definition writes :: "u8 list list \<Rightarrow> host \<Rightarrow> u32 \<Rightarrow> (nat \<times> u8 list) list" where
  "writes argv h e = [(3584, image_data h), (2560, os_record (argv ! 3) (image_sectors (image_data h))), (3072, OsLogo),
     (0, new_mbr (sector0 (disk_data h)) (e - APT_START_SECTOR))]"

lemma install_out:
  assumes run: "install_main sys argv h = Some (r, h')"
  shows "\<exists>e. stage_out h (writes argv h e) (accepted argv h e) r h'"
proof (cases "length argv \<noteq> 4 \<or> length (argv ! 3) > 15")
  case True
  then show ?thesis using run stage_stopped [OF _ untouched_trans(2)] by (auto simp: install_main_def Let_def UNDEFINED_def split: if_splits)
next
  case args: False
  then have "seq (open_file sys ''failed to open disk'' h) (\<lambda>_ h. seq (ReadFully sys 512 0 [] h) (\<lambda>mbr h. install_table sys (argv ! 3) mbr h)) = Some (r, h')"
    using run by (simp add: install_main_def)
  then show ?thesis
  proof (cases rule: seqE)
    case (1 e)
    then show ?thesis using untouched_calls(1) [OF 1(1)] call_messages(1) [OF 1(1)] stage_stopped [of "''failed to open disk''" h h'] by (auto simp: UNDEFINED_def)
  next
    case (2 y h1)
    note U1 = untouched_calls(1) [OF 2(1)]
    from 2(2) show ?thesis
    proof (cases rule: seqE)
      case (1 e)
      from ReadFully_raw [OF 1(1)] have "untouched h1 h'" "e \<noteq> UNDEFINED" by (simp_all add: untouched_def)
      then show ?thesis using 1(2) untouched_trans(1) [OF U1] by (auto intro: stage_stopped)
    next
      case (2 mbr h2)
      from ReadFully_raw [OF 2(1)] U1 have U2: "untouched h h2" and mbr: "mbr = sector0 (disk_data h)"
        by (simp_all add: untouched_def sector0_def)
      have stopped: ?thesis if "install_table sys (argv ! 3) mbr h2 = die e h2" "e \<noteq> UNDEFINED" for e
        using that 2(2) stage_stopped [OF that(2) U2] by (auto simp: die_def)
      show ?thesis
      proof (cases "get16 mbr 510 = MBR_SIGNATURE \<and> (\<exists>e. apt_end (disk_data h) = Some e \<and> APT_START_SECTOR < e)")
        case False
        then show ?thesis
          by (intro stopped [of "if get16 mbr 510 = MBR_SIGNATURE \<and> apt_end (disk_data h) \<noteq> None then ''no space on disk for apt'' else ''invalid mbr''"])
            (auto simp: install_table_def apt_end_def mbr UNDEFINED_def not_less split: option.splits)
      next
        case True
        then obtain e where sig: "get16 (sector0 (disk_data h)) 510 = MBR_SIGNATURE" and e: "apt_end (disk_data h) = Some e" "APT_START_SECTOR < e"
          unfolding mbr by blast
        have gt: "\<not> e \<le> APT_START_SECTOR" using e(2) by (simp add: not_le)
        have "install_image sys (argv ! 3) mbr (e - APT_START_SECTOR) h2 = Some (r, h')"
          using 2(2) sig e(1) unfolding install_table_def apt_end_def mbr Let_def by (simp add: if_not_P [OF gt])
        from stage_after [OF U2 install_image_out [OF this]] have
          "stage_out h (writes argv h e) (APT_BOOT_SECTORS + image_sectors (image_data h) \<le> e - APT_START_SECTOR) r h'"
          using U2 by (simp add: mbr sector0_def writes_def untouched_def)
        moreover have "accepted argv h e \<longleftrightarrow> APT_BOOT_SECTORS + image_sectors (image_data h) \<le> e - APT_START_SECTOR"
          using args sig e by (simp add: accepted_def)
        ultimately have "stage_out h (writes argv h e) (accepted argv h e) r h'" by simp
        then show ?thesis by (rule exI)
      qed
    qed
  qed
qed

section \<open>Termination\<close>

text \<open>Every call that succeeds moves something; no call fails.\<close>

definition progress :: "sys \<Rightarrow> bool" where "progress sys \<longleftrightarrow> (\<forall>n k. sys n = Some k \<longrightarrow> 0 < k)"
definition no_error :: "sys \<Rightarrow> bool" where "no_error sys \<longleftrightarrow> (\<forall>n. sys n \<noteq> None)"

definition ends :: "sys \<Rightarrow> 'a io \<Rightarrow> bool" where
  "ends sys r \<longleftrightarrow> r \<noteq> None \<and> (no_error sys \<longrightarrow> (\<exists>x h. r = Some (Inr x, h)))"

lemma ends_seq:
  assumes "ends sys r" "\<And>x h. r = Some (Inr x, h) \<Longrightarrow> ends sys (f x h)"
  shows "ends sys (seq r f)"
proof (cases r)
  case None
  then show ?thesis using assms(1) by (simp add: ends_def)
next
  case (Some p)
  then obtain a h where "r = Some (a, h)" by (cases p) auto
  then show ?thesis using assms by (cases a) (auto simp: ends_def seq_def)
qed

lemma ends_die: "\<not> no_error sys \<Longrightarrow> ends sys (die e h)" and ends_give [simp]: "ends sys (give x h)"
  by (simp_all add: ends_def die_def give_def)

lemma no_errorD: "sys n = None \<Longrightarrow> \<not> no_error sys"
  by (auto simp: no_error_def)

lemma ends_open: "ends sys (open_file sys e h)" "ends sys (fstat sys h)"
  by (auto simp: open_file_def fstat_def ends_die no_errorD split: option.splits)

lemma WriteFully_ends: "progress sys \<Longrightarrow> ends sys (WriteFully sys bs a h)"
proof (induction "length bs" arbitrary: bs a h rule: less_induct)
  case less
  show ?case
  proof (cases "bs = []")
    case True
    then show ?thesis by (subst WriteFully.simps) simp
  next
    case False
    show ?thesis
    proof (cases "sys (calls h)")
      case None
      then show ?thesis using False by (subst WriteFully.simps) (simp add: pwrite_disk_def ends_die no_errorD)
    next
      case (Some k)
      then have "0 < k" using less.prems by (auto simp: progress_def)
      then have "length (drop (length (take k bs)) bs) < length bs" using False by (cases bs) auto
      from less.hyps [OF this less.prems] show ?thesis
        using False Some by (subst WriteFully.simps) (simp add: pwrite_disk_def)
    qed
  qed
qed

lemma CopyData_ends: "progress sys \<Longrightarrow> src + sz \<le> length (image_data h) \<Longrightarrow> ends sys (CopyData sys sz src dst h)"
proof (induction sz arbitrary: src dst h rule: less_induct)
  case (less sz)
  show ?case
  proof (cases "sz = 0")
    case True
    then show ?thesis by (subst CopyData.simps) simp
  next
    case False
    show ?thesis
    proof (cases "sys (calls h)")
      case None
      then show ?thesis using False by (subst CopyData.simps) (simp add: pread_image_def ends_die no_errorD)
    next
      case (Some k)
      define bs where "bs = take (min k (if BUFFER_SIZE \<le> sz then BUFFER_SIZE else sz)) (drop src (image_data h))"
      have "0 < k" using Some less.prems by (auto simp: progress_def)
      then have b: "0 < length bs" "length bs \<le> sz" using False less.prems(2) by (auto simp: bs_def BUFFER_SIZE_def)
      have step: "CopyData sys sz src dst h = seq (WriteFully sys bs dst (called h)) (\<lambda>_ h.
          CopyData sys (sz - length bs) (src + length bs) (dst + length bs) h)"
        using False Some by (subst CopyData.simps) (simp add: pread_image_def bs_def)
      show ?thesis unfolding step
      proof (rule ends_seq [OF WriteFully_ends [OF less.prems(1)]])
        fix x h1 assume "WriteFully sys bs dst (called h) = Some (Inr x, h1)"
        from WriteFully_wrote [OF this] have "image_data h1 = image_data h" by (auto simp: wrote_def)
        then show "ends sys (CopyData sys (sz - length bs) (src + length bs) (dst + length bs) h1)"
          using less.prems b(2) False by (intro less.IH diff_less [OF b(1)]) simp_all
      qed
    qed
  qed
qed

lemma ReadFully_ends: "progress sys \<Longrightarrow> a + sz \<le> disk_len h \<Longrightarrow> ends sys (ReadFully sys sz a got h)"
proof (induction sz arbitrary: a got h rule: less_induct)
  case (less sz)
  show ?case
  proof (cases "sz = 0")
    case True
    then show ?thesis by (subst ReadFully.simps) simp
  next
    case False
    show ?thesis
    proof (cases "sys (calls h)")
      case None
      then show ?thesis using False by (subst ReadFully.simps) (simp add: pread_disk_def ends_die no_errorD)
    next
      case (Some k)
      then have "0 < k" using less.prems by (auto simp: progress_def)
      then have b: "length (disk_part h a (min k sz)) = min k sz" "0 < min k sz" using False less.prems(2) by (auto simp: disk_part_def)
      have "ends sys (ReadFully sys (sz - min k sz) (a + min k sz) (got @ disk_part h a (min k sz)) (called h))"
        by (rule less.IH) (use b less.prems False in auto)
      then show ?thesis using False Some b by (subst ReadFully.simps) (simp add: pread_disk_def)
    qed
  qed
qed

text \<open>A disk without a whole first sector is read for ever.\<close>

lemma ReadFully_short: "no_error sys \<Longrightarrow> disk_len h < a + sz \<Longrightarrow> sz \<noteq> 0 \<Longrightarrow> ReadFully sys sz a got h = None"
proof (rule ccontr)
  assume ne: "no_error sys" and short: "disk_len h < a + sz" "sz \<noteq> 0" and "ReadFully sys sz a got h \<noteq> None"
  then obtain y where "ReadFully sys sz a got h = Some y" by auto
  then show False
    using ne short
  proof (induction sys sz a got h y rule: ReadFully.raw_induct [rotated 1, consumes 1, case_names 1])
    case (1 f sys sz a got h y)
    obtain k where k: "sys (calls h) = Some k" using no_errorD [of sys "calls h"] 1(3) by (cases "sys (calls h)") auto
    let ?bs = "disk_part h a (min k sz)"
    have "f sys (sz - length ?bs) (a + length ?bs) (got @ ?bs) (called h) = Some y"
      using 1 k by (simp add: pread_disk_def)
    moreover have "length ?bs \<le> disk_len h - a" "length ?bs \<le> sz" by (auto simp: disk_part_def)
    ultimately show False using 1 by (auto intro!: 1(1))
  qed
qed

definition returns :: "'a io \<Rightarrow> bool" where "returns r \<longleftrightarrow> r \<noteq> None"

lemma returns_intros:
  "returns (die e h)" "(c \<Longrightarrow> returns a) \<Longrightarrow> (\<not> c \<Longrightarrow> returns b) \<Longrightarrow> returns (if c then a else b)"
  "returns a \<Longrightarrow> (\<And>x. returns (f x)) \<Longrightarrow> returns (case v of None \<Rightarrow> a | Some x \<Rightarrow> f x)"
  "returns r \<Longrightarrow> (\<And>x h. r = Some (Inr x, h) \<Longrightarrow> returns (g x h)) \<Longrightarrow> returns (seq r g)"
  unfolding returns_def by (simp, simp, simp split: option.split, cases r, auto simp: seq_def die_def split: sum.splits)

lemma ends_returns: "ends sys r \<Longrightarrow> returns r"
  by (simp add: ends_def returns_def)

lemma write_all_ends: "progress sys \<Longrightarrow> n = length (image_data h) \<Longrightarrow> ends sys (write_all sys name mbr available n k h)"
  unfolding write_all_def by (intro ends_seq WriteFully_ends CopyData_ends) simp_all

lemma install_returns:
  assumes "progress sys" "512 \<le> disk_len h"
  shows "install_main sys argv h \<noteq> None"
proof -
  note o = returns_intros(4) [OF ends_returns [OF ends_open(1)]]
  have read: "returns (ReadFully sys 512 0 [] h1)" if "open_file sys e h = Some (Inr x, h1)" for e x h1
  proof -
    have "disk_len h1 = disk_len h" using that by (auto simp: open_file_def split: option.splits)
    then show ?thesis using ends_returns [OF ReadFully_ends [OF assms(1)]] assms(2) by simp
  qed
  have "returns (install_image sys name mbr available h1)" for name mbr available h1
    unfolding install_image_def Let_def
    by (intro o returns_intros(1,2) returns_intros(4) [OF ends_returns [OF ends_open(2)]] ends_returns [OF write_all_ends [OF assms(1)]])
      (use fstat_length in blast)
  then have "returns (install_table sys name mbr h1)" for name mbr h1
    unfolding install_table_def Let_def by (intro returns_intros(1-3))
  then have "returns (install_main sys argv h)"
    unfolding install_main_def Let_def by (intro returns_intros(1,2) o returns_intros(4) [OF read])
  then show ?thesis by (simp add: returns_def)
qed

lemma install_never_returns:
  assumes "no_error sys" "disk_len h < 512" "length argv = 4" "length (argv ! 3) \<le> 15"
  shows "install_main sys argv h = None"
proof -
  obtain k where "sys (calls h) = Some k" using assms(1) by (auto simp: no_error_def)
  then have "open_file sys e h = give () (called h)" for e by (simp add: open_file_def)
  then show ?thesis using ReadFully_short [OF assms(1), of "called h" 0 512] assms(2-4) by (simp add: install_main_def)
qed

text \<open>With everything in order the program succeeds.\<close>

lemma install_succeeds:
  assumes sys: "progress sys" "no_error sys" and len: "512 \<le> disk_len h" and acc: "accepted argv h e"
  obtains h' where "install_main sys argv h = Some (Inr (), h')"
proof -
  have image: "ends sys (install_image sys (argv ! 3) mbr (e - APT_START_SECTOR) h1)" if "image_data h1 = image_data h" for mbr h1
    unfolding install_image_def
  proof (intro ends_seq [OF ends_open(1)] ends_seq [OF ends_open(2)])
    fix x h2 n h3 assume o: "open_file sys ''failed to open image'' h1 = Some (Inr x, h2)" and f: "fstat sys h2 = Some (Inr n, h3)"
    have n: "n = length (image_data h3)" "image_data h3 = image_data h"
      using fstat_length [OF f] untouched_calls(1) [OF o] that by (simp_all add: untouched_def)
    have sz: "of_nat ((n + (SECTOR_SIZE - 1)) div SECTOR_SIZE) = image_sectors (image_data h)" unfolding n image_sectors_def ..
    show "ends sys (let imageSectors = of_nat ((n + (SECTOR_SIZE - 1)) div SECTOR_SIZE); neededSectors = APT_BOOT_SECTORS + imageSectors
       in if neededSectors > e - APT_START_SECTOR then die ''image too large for free area'' h3
          else write_all sys (argv ! 3) mbr (e - APT_START_SECTOR) n imageSectors h3)"
      using write_all_ends [OF sys(1) n(1)] acc unfolding Let_def sz accepted_def not_less [symmetric] by simp
  qed
  have "ends sys (seq (open_file sys ''failed to open disk'' h) (\<lambda>_ h. seq (ReadFully sys 512 0 [] h) (\<lambda>mbr h. install_table sys (argv ! 3) mbr h)))"
  proof (intro ends_seq [OF ends_open(1)] ends_seq [OF ReadFully_ends [OF sys(1)]])
    fix x h1 mbr h2 assume o: "open_file sys ''failed to open disk'' h = Some (Inr x, h1)"
    then have h1: "disk_data h1 = disk_data h" "image_data h1 = image_data h" "disk_len h1 = disk_len h"
      by (auto simp: open_file_def split: option.splits)
    then show "0 + 512 \<le> disk_len h1" using len by simp
    assume "ReadFully sys 512 0 [] h1 = Some (Inr mbr, h2)"
    from ReadFully_raw [OF this] h1 have mbr: "mbr = sector0 (disk_data h)" "image_data h2 = image_data h" by (simp_all add: sector0_def)
    have "install_table sys (argv ! 3) mbr h2 = install_image sys (argv ! 3) mbr (e - APT_START_SECTOR) h2"
      using acc unfolding install_table_def accepted_def apt_end_def mbr not_le [symmetric] by simp
    then show "ends sys (install_table sys (argv ! 3) mbr h2)" using image [OF mbr(2)] by simp
  qed
  moreover have "install_main sys argv h =
      seq (open_file sys ''failed to open disk'' h) (\<lambda>_ h. seq (ReadFully sys 512 0 [] h) (\<lambda>mbr h. install_table sys (argv ! 3) mbr h))"
    using acc by (simp add: install_main_def accepted_def)
  ultimately show thesis using that sys(2) by (auto simp: ends_def)
qed

section \<open>What the writes touch\<close>

definition used_partition :: "u8 list \<Rightarrow> nat \<Rightarrow> bool" where
  "used_partition mbr i \<longleftrightarrow> PartOsType mbr i \<noteq> 0 \<and> PartSizeInLba mbr i \<noteq> 0"

lemma scan_bound:
  "scan_partitions mbr is e = Some e' \<Longrightarrow> e' \<le> e \<and> (\<forall>i\<in>set is. used_partition mbr i \<longrightarrow> e' \<le> PartStartingLba mbr i)"
proof (induction "is" arbitrary: e)
  case (Cons i "is")
  let ?e = "if used_partition mbr i \<and> PartStartingLba mbr i < e then PartStartingLba mbr i else e"
  have "scan_partitions mbr is ?e = Some e'" using Cons.prems by (auto simp: used_partition_def split: if_splits)
  from Cons.IH [OF this] show ?case by (auto split: if_splits)
qed simp

text \<open>The image and everything in front of it lie below the first partition, unless the count of sectors wraps.\<close>

lemma accepted_space:
  assumes "accepted argv h e" "length (image_data h) < 2 ^ 40"
  shows "3584 + length (image_data h) \<le> 512 * unat e"
proof -
  let ?n = "(length (image_data h) + 511) div 512"
  have n: "?n < 2 ^ 32" using assms(2) by (simp add: div_less_iff_less_mult)
  have le: "APT_BOOT_SECTORS + image_sectors (image_data h) \<le> e - APT_START_SECTOR" and gt: "APT_START_SECTOR < e"
    and e: "e \<le> of_nat (DEFAULT_AVAIL_SIZE div SECTOR_SIZE)"
    using assms(1) scan_bound [of "sector0 (disk_data h)" "[0..<4]"] by (auto simp: accepted_def apt_end_def)
  have u: "unat (image_sectors (image_data h)) = ?n" unfolding image_sectors_def SECTOR_SIZE_def using n by (simp add: unat_of_nat take_bit_eq_mod)
  have "unat (APT_BOOT_SECTORS + image_sectors (image_data h)) \<le> unat (e - APT_START_SECTOR)" using le by (simp add: word_le_nat_alt)
  moreover have "unat (e - APT_START_SECTOR) = unat e - 4" using gt by (subst unat_sub) (simp_all add: APT_START_SECTOR_def)
  moreover have "unat (APT_BOOT_SECTORS + image_sectors (image_data h)) = 3 + ?n"
  proof -
    have "?n \<le> (2 ^ 40 + 511) div 512" using assms(2) by (intro div_le_mono) simp
    then have lt: "3 + ?n < 2 ^ 32" by simp
    have "APT_BOOT_SECTORS + image_sectors (image_data h) = of_nat (3 + ?n)"
      by (simp add: APT_BOOT_SECTORS_def image_sectors_def SECTOR_SIZE_def)
    then show ?thesis using lt by (simp only: unat_of_nat take_bit_eq_mod len_of_numeral_defs) simp
  qed
  ultimately have "3 + ?n \<le> unat e - 4" by simp
  moreover have "4 < unat e" using gt by (simp add: word_less_nat_alt APT_START_SECTOR_def)
  ultimately have "7 + ?n \<le> unat e" by linarith
  moreover have "length (image_data h) \<le> 512 * ?n" by linarith
  ultimately show ?thesis by linarith
qed

lemma after_writes_outside: "(\<forall>(a, bs)\<in>set ws. p < a \<or> a + length bs \<le> p) \<Longrightarrow> after_writes ws i k d p = d p"
  by (induction ws i k d rule: after_writes.induct) (auto simp: put_bytes_outside)

text \<open>The new table repeats the old sector behind the boot block.\<close>

lemma new_mbr_tail: "164 \<le> p \<Longrightarrow> p < 512 \<Longrightarrow> new_mbr (sector0 d) n ! p = d p" "length (new_mbr (sector0 d) n) = 512"
  by (simp_all add: new_mbr_def nth_append apt_sizes sector0_def)

lemma writes_changed:
  assumes name: "length (argv ! 3) \<le> 15" and i: "i < 4" and changed: "after_writes (writes argv h e) i k (disk_data h) p \<noteq> disk_data h p"
  shows "p < 164 \<or> 2560 \<le> p \<and> p < 3584 + length (image_data h)"
proof (rule ccontr)
  assume p: "\<not> (p < 164 \<or> 2560 \<le> p \<and> p < 3584 + length (image_data h))"
  let ?ws = "[(3584, image_data h), (2560, os_record (argv ! 3) (image_sectors (image_data h))), (3072, OsLogo)]"
  let ?new = "new_mbr (sector0 (disk_data h)) (e - APT_START_SECTOR)"
  have out: "\<forall>(a, bs)\<in>set ?ws. p < a \<or> a + length bs \<le> p" using p apt_sizes(1) [of "argv ! 3"] name by (auto simp: OsLogo_def)
  have split: "after_writes (writes argv h e) i k (disk_data h) = (if i < 3 then after_writes ?ws i k (disk_data h)
      else put_bytes (put_bytes (put_bytes (put_bytes (disk_data h) 3584 (image_data h)) 2560 (os_record (argv ! 3) (image_sectors (image_data h)))) 3072 OsLogo) 0 (take k ?new))"
    using i by (auto simp: writes_def less_Suc_eq numeral_eq_Suc)
  have "after_writes (writes argv h e) i k (disk_data h) p = disk_data h p"
  proof (cases "i < 3")
    case True
    then show ?thesis unfolding split using after_writes_outside [OF out] by simp
  next
    case False
    have "put_bytes (put_bytes (put_bytes (disk_data h) 3584 (image_data h)) 2560 (os_record (argv ! 3) (image_sectors (image_data h)))) 3072 OsLogo p = disk_data h p"
      using out by (simp add: put_bytes_outside)
    then show ?thesis unfolding split using False p new_mbr_tail(1) [where p = p] new_mbr_tail(2) by (auto simp: put_bytes_def)
  qed
  with changed show False by simp
qed

lemma writes_in_place:
  assumes "length im = n" "length r = 28" "length g = 512" "length t \<le> 512"
  shows "bytes_on (put_bytes (put_bytes (put_bytes (put_bytes d 3584 im) 2560 r) 3072 g) 0 t) 3584 im
    \<and> bytes_on (put_bytes (put_bytes (put_bytes (put_bytes d 3584 im) 2560 r) 3072 g) 0 t) 3072 g
    \<and> bytes_on (put_bytes (put_bytes (put_bytes (put_bytes d 3584 im) 2560 r) 3072 g) 0 t) 2560 r"
  using assms
    bytes_on_outside [OF bytes_on_outside [OF bytes_on_outside [OF bytes_on_put [of d 3584 im], of 2560 r], of 3072 g], of 0 t]
    bytes_on_outside [OF bytes_on_put [of "put_bytes (put_bytes d 3584 im) 2560 r" 3072 g], of 0 t]
    bytes_on_outside [OF bytes_on_outside [OF bytes_on_put [of "put_bytes d 3584 im" 2560 r], of 3072 g], of 0 t]
  by simp

section \<open>Properties\<close>

text \<open>
  C17. Whatever happens, however the system calls end, the installer changes nothing but the boot block at the front of
  the first sector and the area from sector 5 to the end of the image; and if it changes anything at all, this area ends
  below every partition in use. So a partition of the old table is never touched, and the old table's entries stay. (An image of
  a terabyte or more would wrap the count of sectors; \<open>UNDEFINED\<close> is a failed read of the image.)
\<close>

theorem installer_keeps_partitions:
  assumes run: "install_main sys argv h = Some (r, h')" and defined: "r \<noteq> Inl UNDEFINED" and im: "length (image_data h) < 2 ^ 40"
  shows "(\<forall>p. disk_data h' p \<noteq> disk_data h p \<longrightarrow> p < 164 \<or> 2560 \<le> p \<and> p < 3584 + length (image_data h))
    \<and> (disk_data h' \<noteq> disk_data h \<longrightarrow> (\<forall>i<4. used_partition (sector0 (disk_data h)) i \<longrightarrow>
        3584 + length (image_data h) \<le> 512 * unat (PartStartingLba (sector0 (disk_data h)) i)))"
proof -
  obtain e where "stage_out h (writes argv h e) (accepted argv h e) r h'" using install_out [OF run] by blast
  then consider "disk_data h' = disk_data h"
    | i k where "accepted argv h e" "i < 4" "disk_data h' = after_writes (writes argv h e) i k (disk_data h)"
    unfolding stage_out_def by blast
  then show ?thesis
  proof cases
    case (2 i k)
    have "length (argv ! 3) \<le> 15" and "apt_end (disk_data h) = Some e" using 2(1) by (simp_all add: accepted_def)
    moreover have "3584 + length (image_data h) \<le> 512 * unat e" by (rule accepted_space [OF 2(1) im])
    moreover have "512 * unat e \<le> 512 * unat (PartStartingLba (sector0 (disk_data h)) i)"
      if "i < 4" "used_partition (sector0 (disk_data h)) i" for i
      using scan_bound [of "sector0 (disk_data h)" "[0..<4]"] calculation(2) that by (auto simp: apt_end_def word_le_nat_alt)
    ultimately show ?thesis using writes_changed [OF _ 2(2), of argv h e k] unfolding 2(3) by (meson order.trans)
  qed simp
qed

text \<open>
  C18. The table is written last: as soon as one byte of the first sector differs from before, the image, its header and the
  logo are complete on the disk. An installation that stops early is invisible.
\<close>

theorem installer_table_last:
  assumes run: "install_main sys argv h = Some (r, h')" and defined: "r \<noteq> Inl UNDEFINED"
    and changed: "p < 512" "disk_data h' p \<noteq> disk_data h p"
  shows "bytes_on (disk_data h') 3584 (image_data h) \<and> bytes_on (disk_data h') 3072 OsLogo
    \<and> bytes_on (disk_data h') 2560 (os_record (argv ! 3) (image_sectors (image_data h)))"
proof -
  obtain e where "stage_out h (writes argv h e) (accepted argv h e) r h'" using install_out [OF run] by blast
  with changed(2) obtain i k where a: "accepted argv h e" "i < 4" and w: "disk_data h' = after_writes (writes argv h e) i k (disk_data h)"
    unfolding stage_out_def by auto
  let ?ws = "[(3584, image_data h), (2560, os_record (argv ! 3) (image_sectors (image_data h))), (3072, OsLogo)]"
  let ?new = "new_mbr (sector0 (disk_data h)) (e - APT_START_SECTOR)"
  have len: "length (os_record (argv ! 3) (image_sectors (image_data h))) = 28" "length OsLogo = 512" "length (take k ?new) \<le> 512"
    using a(1) apt_sizes(1) [of "argv ! 3"] new_mbr_tail(2) by (simp_all add: accepted_def OsLogo_def)
  have "after_writes ?ws i k (disk_data h) p = disk_data h p" by (rule after_writes_outside) (use changed(1) in auto)
  moreover have "after_writes (writes argv h e) i k (disk_data h) = after_writes ?ws i k (disk_data h)" if "i < 3"
    using that by (auto simp: writes_def less_Suc_eq numeral_eq_Suc)
  ultimately have "i = 3" using a(2) w changed(2) by (cases "i < 3") auto
  then have d: "disk_data h' = put_bytes (put_bytes (put_bytes (put_bytes (disk_data h) 3584 (image_data h)) 2560
      (os_record (argv ! 3) (image_sectors (image_data h)))) 3072 OsLogo) 0 (take k ?new)"
    using w by (simp add: writes_def numeral_3_eq_3)
  show ?thesis unfolding d by (rule writes_in_place) (use len in simp_all)
qed


text \<open>
  C19. On a disk with a valid table that leaves room for the image the installation succeeds when no system call fails, however
  few bytes each call moves, and everything is in place: the image, its header, the logo, the new boot block, and
  behind it the old partition table.
\<close>

theorem installer_succeeds:
  assumes "progress sys" "no_error sys" "512 \<le> disk_len h" "accepted argv h e"
  shows "\<exists>h'. install_main sys argv h = Some (Inr (), h') \<and> bytes_on (disk_data h') 3584 (image_data h)
    \<and> bytes_on (disk_data h') 2560 (os_record (argv ! 3) (image_sectors (image_data h))) \<and> bytes_on (disk_data h') 3072 OsLogo
    \<and> bytes_on (disk_data h') 0 (apt_boot_block (e - APT_START_SECTOR)) \<and> (\<forall>p. 164 \<le> p \<and> p < 512 \<longrightarrow> disk_data h' p = disk_data h p)"
proof -
  obtain h' where run: "install_main sys argv h = Some (Inr (), h')" using install_succeeds [OF assms] .
  obtain e' where "stage_out h (writes argv h e') (accepted argv h e') (Inr ()) h'" using install_out [OF run] by blast
  then have "accepted argv h e'" and w: "disk_data h' = after_writes (writes argv h e') 3 512 (disk_data h)" by (auto simp: stage_out_def)
  then have e: "e' = e" using assms(4) by (simp add: accepted_def)
  let ?new = "new_mbr (sector0 (disk_data h)) (e - APT_START_SECTOR)"
  have len: "length (os_record (argv ! 3) (image_sectors (image_data h))) = 28" "length OsLogo = 512" "length ?new = 512"
    using assms(4) apt_sizes(1) [of "argv ! 3"] new_mbr_tail(2) by (simp_all add: accepted_def OsLogo_def)
  have d: "disk_data h' = put_bytes (put_bytes (put_bytes (put_bytes (disk_data h) 3584 (image_data h)) 2560
      (os_record (argv ! 3) (image_sectors (image_data h)))) 3072 OsLogo) 0 ?new"
    using w len by (simp add: writes_def numeral_3_eq_3 e)
  have "bytes_on (disk_data h') 0 ?new" unfolding d by simp
  then have "bytes_on (disk_data h') 0 (apt_boot_block (e - APT_START_SECTOR))" "\<forall>p. 164 \<le> p \<and> p < 512 \<longrightarrow> disk_data h' p = disk_data h p"
    using new_mbr_tail(1) [where d = "disk_data h" and n = "e - APT_START_SECTOR"] len(3)
    by (auto simp: bytes_on_def new_mbr_def nth_append apt_sizes)
  moreover have "bytes_on (disk_data h') 3584 (image_data h) \<and> bytes_on (disk_data h') 3072 OsLogo
    \<and> bytes_on (disk_data h') 2560 (os_record (argv ! 3) (image_sectors (image_data h)))"
    unfolding d by (rule writes_in_place) (use len in simp_all)
  ultimately show ?thesis using run by blast
qed

section \<open>Witnesses\<close>

text \<open>A disk with one Linux partition from sector 64 on, an image of three bytes and the name \<open>xr\<close>.\<close>

definition host0 :: host where
  "host0 = \<lparr>disk_data = (\<lambda>_. 0)(450 := 0x83, 454 := 64, 458 := 8, 510 := 0x55, 511 := 0xaa), disk_len = 65536, image_data = [1, 2, 3], calls = 0\<rparr>"

definition argv0 :: "u8 list list" where "argv0 = [[], [], [], [120, 114]]"
definition sys0 :: sys where "sys0 n = Some 512"

lemma sys0: "progress sys0" "no_error sys0"
  by (simp_all add: progress_def no_error_def sys0_def)

lemma host0: "disk_len host0 = 65536" "image_data host0 = [1, 2, 3]"
  by (simp_all add: host0_def)

lemma sector0_nth: "i < 512 \<Longrightarrow> sector0 d ! i = d i"
  by (simp add: sector0_def)

lemma accepted0: "accepted argv0 host0 64"
proof -
  have sig: "get16 (sector0 (disk_data host0)) 510 = MBR_SIGNATURE"
    by (simp add: get16_def sector0_nth host0_def MBR_SIGNATURE_def)
  have parts: "[0..<4] = [0, Suc 0, 2, 3 :: nat]" by (simp add: upt_conv_Cons)
  have "apt_end (disk_data host0) = Some 64"
    unfolding apt_end_def parts
    by (simp add: PartBootIndicator_def PartOsType_def PartStartingLba_def PartSizeInLba_def get32_def sector0_nth host0_def
        DEFAULT_AVAIL_SIZE_def SECTOR_SIZE_def)
  then show ?thesis
    unfolding accepted_def using sig
    by (simp add: argv0_def host0 APT_START_SECTOR_def APT_BOOT_SECTORS_def image_sectors_def SECTOR_SIZE_def)
qed

lemma run0: "\<exists>h'. install_main sys0 argv0 host0 = Some (Inr (), h')"
  using install_succeeds [OF sys0 _ accepted0] host0(1) by auto

lemma installer_keeps_partitions_witness:
  "\<exists>h'. install_main sys0 argv0 host0 = Some (Inr (), h')
    \<and> disk_data h' 450 = 0x83 \<and> disk_data h' (512 * 64) = disk_data host0 (512 * 64)"
proof -
  obtain h' where run: "install_main sys0 argv0 host0 = Some (Inr (), h')" using run0 by blast
  from installer_keeps_partitions [OF run] have "p < 164 \<or> 2560 \<le> p \<and> p < 3587" if "disk_data h' p \<noteq> disk_data host0 p" for p
    using that by (simp add: host0)
  from this [of 450] this [of "512 * 64"] have "disk_data h' 450 = disk_data host0 450" "disk_data h' (512 * 64) = disk_data host0 (512 * 64)" by auto
  then show ?thesis using run by (intro exI [of _ h']) (simp add: host0_def)
qed

lemma installer_table_last_witness:
  "\<exists>h'. install_main sys0 argv0 host0 = Some (Inr (), h') \<and> disk_data h' 15 \<noteq> disk_data host0 15 \<and> bytes_on (disk_data h') 3584 [1, 2, 3]"
proof -
  obtain h' where run: "install_main sys0 argv0 host0 = Some (Inr (), h')" using run0 by blast
  obtain e where "stage_out host0 (writes argv0 host0 e) (accepted argv0 host0 e) (Inr ()) h'" using install_out [OF run] by blast
  then have "disk_data h' = after_writes (writes argv0 host0 e) 3 512 (disk_data host0)" by (auto simp: stage_out_def)
  then have "disk_data h' 15 = take 512 (new_mbr (sector0 (disk_data host0)) (e - APT_START_SECTOR)) ! 15"
    by (simp add: writes_def numeral_3_eq_3 put_bytes_def new_mbr_tail(2))
  then have changed: "disk_data h' 15 \<noteq> disk_data host0 15"
    by (simp add: new_mbr_def apt_boot_block_def nth_append host0_def)
  from installer_table_last [OF run _ _ changed] run changed show ?thesis by (intro exI [of _ h']) (simp add: host0)
qed


lemma installer_succeeds_witness:
  "\<exists>h'. install_main sys0 argv0 host0 = Some (Inr (), h') \<and> bytes_on (disk_data h') 3584 [1, 2, 3]
    \<and> bytes_on (disk_data h') 0 (apt_boot_block 60)"
  using installer_succeeds [OF sys0 _ accepted0] by (auto simp: host0 APT_START_SECTOR_def)

end
