(* ===== verification/Tree_Update.thy ===== *)
theory Tree_Update
  imports Blob_Correct "HOL-Library.Multiset"
begin

text \<open>
  Changing a device tree in memory. The objects of a tree (nodes, names, arrays of properties, data) lie apart, which
  is counted by address, so that an update of one node leaves the others what they are.
\<close>

section \<open>Segments\<close>

text \<open>Areas of memory, as address and length; how many of them an address belongs to.\<close>

type_synonym seg = "u32 \<times> nat"

definition cover :: "seg multiset \<Rightarrow> u32 \<Rightarrow> nat" where
  "cover M x = size {#g \<in># M. x \<in> span (fst g) (snd g)#}"

definition separate :: "seg multiset \<Rightarrow> bool" where
  "separate M \<longleftrightarrow> (\<forall>x. cover M x \<le> 1) \<and> (\<forall>g\<in>#M. fits (fst g) (snd g))"

definition covered :: "seg multiset \<Rightarrow> u32 set" where
  "covered M = (\<Union>g\<in>set_mset M. span (fst g) (snd g))"

lemma cover_simps [simp]:
  "cover {#} x = 0" "cover (add_mset g M) x = (if x \<in> span (fst g) (snd g) then 1 else 0) + cover M x"
  "cover (M + N) x = cover M x + cover N x"
  by (simp_all add: cover_def)

lemma covered_simps [simp]:
  "covered {#} = {}" "covered (add_mset g M) = span (fst g) (snd g) \<union> covered M" "covered (M + N) = covered M \<union> covered N"
  by (auto simp: covered_def)

lemma cover_pos: "0 < cover M x \<longleftrightarrow> x \<in> covered M"
  by (induction M) auto

lemma separate_union: "separate (M + N) \<longleftrightarrow> separate M \<and> separate N \<and> covered M \<inter> covered N = {}"
proof
  assume l: "separate (M + N)"
  have le: "cover M x + cover N x \<le> 1" for x using l by (simp add: separate_def)
  have "x \<notin> covered N" if "x \<in> covered M" for x
    using that le [of x] unfolding cover_pos [symmetric] by linarith
  moreover have "cover M x \<le> 1" "cover N x \<le> 1" for x using le [of x] by linarith+
  ultimately show "separate M \<and> separate N \<and> covered M \<inter> covered N = {}" using l by (auto simp: separate_def)
next
  assume r: "separate M \<and> separate N \<and> covered M \<inter> covered N = {}"
  have "cover M x + cover N x \<le> 1" for x
  proof (cases "x \<in> covered M")
    case True
    then have "x \<notin> covered N" using r by blast
    then have "cover N x = 0" using cover_pos [of N x] by simp
    then show ?thesis using r by (simp add: separate_def)
  next
    case False
    then have "cover M x = 0" using cover_pos [of M x] by simp
    then show ?thesis using r by (simp add: separate_def)
  qed
  then show "separate (M + N)" using r by (auto simp: separate_def)
qed

lemma separate_add: "separate (add_mset g M) \<longleftrightarrow> fits (fst g) (snd g) \<and> separate M \<and> span (fst g) (snd g) \<inter> covered M = {}"
  using separate_union [of "{#g#}" M] by (auto simp: separate_def [of "{#g#}"])

lemma separate_empty [simp]: "separate {#}"
  by (simp add: separate_def)

section \<open>The objects of a tree\<close>

definition node_segs :: "mem \<Rightarrow> u32 \<Rightarrow> u8 list \<Rightarrow> dt_prop list \<Rightarrow> seg multiset" where
  "node_segs m a nm ps = {#(a, 32), (NodeName m a, length nm + 1), (NodeProperties m a, 12 * length ps)#}
     + mset (map (\<lambda>p. (dp_at p, length (dp_data p))) ps)"

fun tree_segs :: "mem \<Rightarrow> dt_node \<Rightarrow> seg multiset" where
  "tree_segs m (DtNode a nm ps ks) = node_segs m a nm ps + sum_list (map (tree_segs m) ks)"

fun subtrees :: "dt_node \<Rightarrow> dt_node list" where
  "subtrees (DtNode a nm ps ks) = DtNode a nm ps ks # concat (map subtrees ks)"

fun update_node :: "u32 \<Rightarrow> (dt_node \<Rightarrow> dt_node) \<Rightarrow> dt_node \<Rightarrow> dt_node" where
  "update_node a f (DtNode b nm ps ks) = (if b = a then f (DtNode b nm ps ks) else DtNode b nm ps (map (update_node a f) ks))"

lemma addrs_subtrees: "addrs t = map dn_addr (subtrees t)"
  by (induction t) (simp add: map_concat comp_def cong: map_cong)

lemma self_subtree [simp]: "t \<in> set (subtrees t)"
  by (cases t) simp

lemma subtree_trans: "x \<in> set (subtrees y) \<Longrightarrow> y \<in> set (subtrees z) \<Longrightarrow> x \<in> set (subtrees z)"
  by (induction z) auto

lemma subtree_addrs: "x \<in> set (subtrees t) \<Longrightarrow> set (addrs x) \<subseteq> set (addrs t)"
  unfolding addrs_subtrees using subtree_trans by auto

lemma addrs_kids: "distinct (addrs (DtNode a nm ps ks)) \<Longrightarrow> k \<in> set ks \<Longrightarrow> distinct (addrs k)"
  by (simp add: distinct_concat_iff)

lemma kid_addr: "k \<in> set ks \<Longrightarrow> x \<in> set (addrs k) \<Longrightarrow> x \<in> set (addrs (DtNode a nm ps ks))"
  by auto

lemma root_not_below:
  assumes "distinct (addrs t)" "x \<in> set (subtrees t)" "x \<noteq> t"
  shows "dn_addr t \<notin> set (addrs x)"
proof (cases t)
  case (DtNode a nm ps ks)
  then obtain k where "k \<in> set ks" "x \<in> set (subtrees k)" using assms by auto
  then show ?thesis using subtree_addrs [of x k] assms(1) DtNode by auto
qed

lemma kids_apart:
  assumes "distinct (addrs (DtNode a nm ps ks))" "k \<in> set ks" "l \<in> set ks" "k \<noteq> l"
  shows "set (addrs k) \<inter> set (addrs l) = {}"
proof -
  obtain xs ys where ks: "ks = xs @ k # ys" using split_list [OF assms(2)] by blast
  then have "l \<in> set xs \<or> l \<in> set ys" using assms(3,4) by auto
  then show ?thesis using assms(1) by (fastforce simp: ks)
qed

lemma kids_distinct: "distinct (addrs (DtNode a nm ps ks)) \<Longrightarrow> distinct ks"
proof (induction ks)
  case (Cons k ks)
  have "k \<notin> set ks"
  proof
    assume "k \<in> set ks"
    moreover have "dn_addr k \<in> set (addrs k)" by (cases k) simp
    ultimately show False using Cons.prems by auto
  qed
  with Cons show ?case by simp
qed simp

lemma subtree_unique:
  assumes "distinct (addrs t)" "x \<in> set (subtrees t)" "y \<in> set (subtrees t)" "dn_addr x = dn_addr y"
  shows "x = y"
  using assms distinct_map [of dn_addr "subtrees t"] inj_on_eq_iff unfolding addrs_subtrees by metis

text \<open>The node of an address, and the rest.\<close>

lemma update_node_outside: "a \<notin> set (addrs t) \<Longrightarrow> update_node a f t = t"
  by (induction t) (auto intro: map_idI)

lemma update_node_addr: "(\<And>x. dn_addr (f x) = dn_addr x) \<Longrightarrow> dn_addr (update_node a f t) = dn_addr t"
  by (cases t) simp

lemma tree_segs_kid: "k \<in> set ks \<Longrightarrow> tree_segs m k \<subseteq># sum_list (map (tree_segs m) ks)"
  by (induction ks) (auto intro: subset_mset.add_increasing subset_mset.add_increasing2)

lemma node_segs_frame:
  assumes "NodeName m' a = NodeName m a" "NodeProperties m' a = NodeProperties m a"
  shows "node_segs m' a nm ps = node_segs m a nm ps"
  using assms by (simp add: node_segs_def)

section \<open>What a tree depends on\<close>

definition own_area :: "mem \<Rightarrow> u32 \<Rightarrow> u8 list \<Rightarrow> dt_prop list \<Rightarrow> u32 set" where
  "own_area m a nm ps = covered (node_segs m a nm ps) - span (NodeLink a) 8"

lemma own_fields:
  "span a 4 \<inter> span (NodeLink a) 8 = {}" "span (a + 12) 20 \<inter> span (NodeLink a) 8 = {}" "span a 4 \<subseteq> span a 32" "span (a + 12) 20 \<subseteq> span a 32"
  using span_disjoint_off [of 0 4 4 8 a] span_disjoint_off [of 4 8 12 20 a] span_sub_numeral [of "num.Bit0 (num.Bit0 (num.Bit1 num.One))" 20 32 a] span_mono [of 4 32 a]
  by (auto simp: NodeLink_def)

lemma span_in_segs: "(b, n) \<in># M \<Longrightarrow> span b n \<subseteq> covered M"
  by (force simp: covered_def)

lemma covered_mono: "M \<subseteq># N \<Longrightarrow> covered M \<subseteq> covered N"
  unfolding covered_def by (rule UN_mono) (auto dest: mset_subset_eqD)

lemma separate_mono: "separate N \<Longrightarrow> M \<subseteq># N \<Longrightarrow> separate M"
  using separate_union [of M "N - M"] subset_mset.add_diff_inverse [of M N] by simp

lemma link_own: "span (NodeLink a) 8 \<subseteq> span a 32"
  using link_span [of a "span a 32"] by simp

lemma node_segs_parts:
  assumes "separate (node_segs m a nm ps)"
  shows "span a 4 \<union> span (a + 12) 20 \<subseteq> own_area m a nm ps" "span (NodeName m a) (length nm + 1) \<subseteq> own_area m a nm ps"
    "span (NodeProperties m a) (12 * length ps) \<subseteq> own_area m a nm ps" "p \<in> set ps \<Longrightarrow> span (dp_at p) (length (dp_data p)) \<subseteq> own_area m a nm ps"
proof -
  let ?P = "{#(NodeName m a, length nm + 1), (NodeProperties m a, 12 * length ps)#} + mset (map (\<lambda>p. (dp_at p, length (dp_data p))) ps)"
  have e: "node_segs m a nm ps = add_mset (a, 32) ?P" by (simp add: node_segs_def)
  have d: "span a 32 \<inter> covered ?P = {}" using assms unfolding e separate_add by simp
  have sub: "A \<subseteq> own_area m a nm ps" if "A \<subseteq> covered ?P" for A
    using that d link_own [of a] unfolding own_area_def e covered_simps by auto
  show "span a 4 \<union> span (a + 12) 20 \<subseteq> own_area m a nm ps"
    using own_fields [of a] unfolding own_area_def e covered_simps by auto
  show "span (NodeName m a) (length nm + 1) \<subseteq> own_area m a nm ps" "span (NodeProperties m a) (12 * length ps) \<subseteq> own_area m a nm ps"
    "p \<in> set ps \<Longrightarrow> span (dp_at p) (length (dp_data p)) \<subseteq> own_area m a nm ps"
    by (rule sub, force simp: covered_def)+
qed

lemma node_fields_keep:
  assumes "same_on (span a 4 \<union> span (a + 12) 20) m m'"
  shows "NodeParent m' a = NodeParent m a" "NodeName m' a = NodeName m a" "NodeProperties m' a = NodeProperties m a"
    "NumberOfProperties m' a = NumberOfProperties m a" "load_list m' (NodeChildren a) = load_list m (NodeChildren a)"
proof -
  have w: "load32 m' (a + 12 + of_nat i) = load32 m (a + 12 + of_nat i)" if "i + 4 \<le> 20" for i
    by (rule load32_same_on, rule same_on_mono [OF assms]) (use span_sub [OF that, of "a + 12"] in auto)
  from w [of 0] w [of 4] w [of 8] w [of 12] w [of 16] show "NodeName m' a = NodeName m a" "NodeProperties m' a = NodeProperties m a"
    "NumberOfProperties m' a = NumberOfProperties m a" "load_list m' (NodeChildren a) = load_list m (NodeChildren a)"
    by (simp_all add: NodeName_def NodeProperties_def NumberOfProperties_def load_list_def NodeChildren_def add.assoc)
  show "NodeParent m' a = NodeParent m a"
    unfolding NodeParent_def by (rule load32_same_on, rule same_on_mono [OF assms]) simp
qed

lemma bytes_at_keep:
  assumes "bytes_at R m a bs" "same_on (span a (length bs)) m m'" "R \<subseteq> R'"
  shows "bytes_at R' m' a bs"
  using assms holds_same [of m a bs m'] fits_le by (auto simp: bytes_at_def)

lemma prop_rep_keep:
  assumes "prop_rep R m q p" "same_on (span q 12 \<union> span (dp_at p) (length (dp_data p))) m m'" "R \<subseteq> R'"
  shows "prop_rep R' m' q p"
proof -
  have w: "load32 m' (q + of_nat i) = load32 m (q + of_nat i)" if "i + 4 \<le> 12" for i
    by (rule load32_same_on, rule same_on_mono [OF assms(2)]) (use span_sub [OF that, of q] in auto)
  have d: "same_on (span (dp_at p) (length (dp_data p))) m m'" by (rule same_on_mono [OF assms(2)]) simp
  from w [of 0] w [of 4] w [of 8] show ?thesis
    using assms(1,3) bytes_at_keep [OF _ d assms(3)] by (auto simp: prop_rep_def PropName_def PropData_def PropSize_def)
qed

lemma props_fit:
  assumes "i < length ps" "fits q (12 * length ps)"
  shows "span (q + 12 * of_nat i) 12 \<subseteq> span q (12 * length ps)"
proof -
  have "12 * i + 12 \<le> 12 * length ps" using assms(1) by simp
  from span_sub [OF this fits_le [OF assms(2)], of q] show ?thesis by simp
qed

section \<open>Trees that a change does not touch\<close>

lemma node_rep_keep:
  assumes rep: "node_rep R m par a nm ps kids" and sep: "separate (node_segs m a nm ps)"
    and same: "same_on (own_area m a nm ps \<union> node_span (NodeLink ` set kids)) m m'" and R: "R \<subseteq> R'"
  shows "node_rep R' m' par a nm ps kids" "node_segs m' a nm ps = node_segs m a nm ps"
proof -
  have own: "same_on A m m'" if "A \<subseteq> own_area m a nm ps" for A by (rule same_on_mono [OF same]) (use that in blast)
  note parts = node_segs_parts [OF sep]
  note fields = node_fields_keep [OF own [OF parts(1)]]
  have fits: "fits (NodeProperties m a) (12 * length ps)" using sep by (simp add: separate_def node_segs_def)
  have "prop_rep R' m' (NodeProperties m a + 12 * of_nat i) (ps ! i)" if i: "i < length ps" for i
  proof (rule prop_rep_keep [OF _ own R])
    show "prop_rep R m (NodeProperties m a + 12 * of_nat i) (ps ! i)" using rep i by (simp add: node_rep_def)
    show "span (NodeProperties m a + 12 * of_nat i) 12 \<union> span (dp_at (ps ! i)) (length (dp_data (ps ! i))) \<subseteq> own_area m a nm ps"
      using props_fit [OF i fits] parts(3) parts(4) [OF nth_mem [OF i]] by blast
  qed
  moreover have "bytes_at R' m' (NodeName m a) (nm @ [0])"
    using rep by (intro bytes_at_keep [OF _ own R]) (use parts(2) in \<open>simp_all add: node_rep_def\<close>)
  moreover have "list_rep m' (load_list m (NodeChildren a)) (map NodeLink kids)"
  proof (rule bl.rep_frame)
    show "list_rep m (load_list m (NodeChildren a)) (map NodeLink kids)" using rep by (simp add: node_rep_def)
    show "same_on (node_span (set (map NodeLink kids))) m m'" by (rule same_on_mono [OF same]) simp
  qed
  moreover have "a \<noteq> 0" "span a 32 \<subseteq> R'" "NodeParent m a = par" "name_ok nm" "unat (NumberOfProperties m a) = length ps"
    "\<forall>k\<in>set kids. span k 32 \<subseteq> R'"
    using rep R unfolding node_rep_def by (simp_all, blast+)
  ultimately show "node_rep R' m' par a nm ps kids" unfolding node_rep_def fields by simp
  show "node_segs m' a nm ps = node_segs m a nm ps" by (rule node_segs_frame [OF fields(2,3)])
qed

lemma separate_node:
  assumes "separate (tree_segs m (DtNode a nm ps ks))"
  shows "separate (node_segs m a nm ps)" "k \<in> set ks \<Longrightarrow> separate (tree_segs m k)"
    "k \<in> set ks \<Longrightarrow> covered (tree_segs m k) \<inter> covered (node_segs m a nm ps) = {}"
    "k \<in> set ks \<Longrightarrow> l \<in> set ks \<Longrightarrow> k \<noteq> l \<Longrightarrow> covered (tree_segs m k) \<inter> covered (tree_segs m l) = {}"
proof -
  let ?S = "sum_list (map (tree_segs m) ks)"
  have s: "separate (node_segs m a nm ps)" "separate ?S" "covered (node_segs m a nm ps) \<inter> covered ?S = {}"
    using assms by (simp_all add: separate_union)
  show "separate (node_segs m a nm ps)" by (rule s(1))
  show "k \<in> set ks \<Longrightarrow> separate (tree_segs m k)" by (rule separate_mono [OF s(2) tree_segs_kid])
  show "k \<in> set ks \<Longrightarrow> covered (tree_segs m k) \<inter> covered (node_segs m a nm ps) = {}"
    using s(3) covered_mono [OF tree_segs_kid, of k ks m] by blast
  assume kl: "k \<in> set ks" "l \<in> set ks" "k \<noteq> l"
  obtain xs ys where ks: "ks = xs @ k # ys" using split_list [OF kl(1)] by blast
  with kl have "l \<in> set (xs @ ys)" by auto
  then have "tree_segs m l \<subseteq># sum_list (map (tree_segs m) (xs @ ys))" by (rule tree_segs_kid)
  then have "covered (tree_segs m l) \<subseteq> covered (sum_list (map (tree_segs m) (xs @ ys)))" by (rule covered_mono)
  moreover have "?S = tree_segs m k + sum_list (map (tree_segs m) (xs @ ys))" by (simp add: ks)
  ultimately have "covered (tree_segs m l) \<subseteq> covered (sum_list (map (tree_segs m) (xs @ ys)))"
    "covered (tree_segs m k) \<inter> covered (sum_list (map (tree_segs m) (xs @ ys))) = {}"
    using s(2) separate_union [of "tree_segs m k" "sum_list (map (tree_segs m) (xs @ ys))"] by simp_all
  then show "covered (tree_segs m k) \<inter> covered (tree_segs m l) = {}" by blast
qed

lemma node_in_segs: "span (dn_addr t) 32 \<subseteq> covered (tree_segs m t)"
  by (cases t) (auto simp: node_segs_def)

lemma tree_rep_keep:
  "tree_rep R m par t \<Longrightarrow> separate (tree_segs m t) \<Longrightarrow> R \<subseteq> R' \<Longrightarrow>
     same_on (covered (tree_segs m t) - span (NodeLink (dn_addr t)) 8) m m' \<Longrightarrow> tree_rep R' m' par t \<and> tree_segs m' t = tree_segs m t"
proof (induction t arbitrary: par)
  case (DtNode a nm ps ks)
  note S = separate_node [OF DtNode.prems(2)]
  have link: "span (NodeLink a) 8 \<subseteq> covered (node_segs m a nm ps)" using link_own [of a] by (auto simp: node_segs_def)
  have sub: "covered (tree_segs m k) \<subseteq> covered (tree_segs m (DtNode a nm ps ks)) - span (NodeLink a) 8" if "k \<in> set ks" for k
    using S(3) [OF that] link covered_mono [OF tree_segs_kid [OF that], of m] by auto
  have kid: "tree_rep R' m' a k \<and> tree_segs m' k = tree_segs m k" if k: "k \<in> set ks" for k
  proof (rule DtNode.IH [OF k _ S(2) [OF k] DtNode.prems(3)])
    show "tree_rep R m a k" using DtNode.prems(1) k by simp
    show "same_on (covered (tree_segs m k) - span (NodeLink (dn_addr k)) 8) m m'"
      by (rule same_on_mono [OF DtNode.prems(4)]) (use sub [OF k] in auto)
  qed
  have "node_span (NodeLink ` set (map dn_addr ks)) \<subseteq> covered (tree_segs m (DtNode a nm ps ks)) - span (NodeLink a) 8"
    using sub node_in_segs link_own unfolding node_span_def by fastforce
  then have "same_on (own_area m a nm ps \<union> node_span (NodeLink ` set (map dn_addr ks))) m m'"
    by (intro same_on_mono [OF DtNode.prems(4)]) (auto simp: own_area_def)
  note N = node_rep_keep [OF _ S(1) this DtNode.prems(3)]
  have "map (tree_segs m') ks = map (tree_segs m) ks" using kid by simp
  then have "sum_list (map (tree_segs m') ks) = sum_list (map (tree_segs m) ks)" by (rule arg_cong)
  then show ?case using N(1) N(2) DtNode.prems(1) kid by auto
qed

section \<open>Changing one node\<close>

lemma subtree_segs: "x \<in> set (subtrees t) \<Longrightarrow> tree_segs m x \<subseteq># tree_segs m t"
proof (induction t)
  case (DtNode a nm ps ks)
  show ?case
  proof (cases "x = DtNode a nm ps ks")
    case False
    then obtain k where k: "k \<in> set ks" "x \<in> set (subtrees k)" using DtNode.prems by auto
    have "tree_segs m x \<subseteq># sum_list (map (tree_segs m) ks)"
      using DtNode.IH [OF k] tree_segs_kid [OF k(1)] by (rule subset_mset.order_trans)
    then show ?thesis by (simp add: subset_mset.add_increasing)
  qed simp
qed

lemma subtree_kid:
  assumes "x \<in> set (subtrees (DtNode a nm ps ks))" "x \<noteq> DtNode a nm ps ks"
  obtains k where "k \<in> set ks" "x \<in> set (subtrees k)"
  using assms by auto

lemma below_apart:
  assumes sep: "separate (tree_segs m t)" and x: "x \<in> set (subtrees t)" "x \<noteq> t"
  shows "span (dn_addr t) 32 \<inter> covered (tree_segs m x) = {}"
proof (cases t)
  case (DtNode a nm ps ks)
  obtain k where k: "k \<in> set ks" "x \<in> set (subtrees k)" by (rule subtree_kid [OF x [unfolded DtNode]])
  have "covered (tree_segs m x) \<subseteq> covered (tree_segs m k)" by (rule covered_mono [OF subtree_segs [OF k(2)]])
  moreover have "span a 32 \<subseteq> covered (node_segs m a nm ps)" by (auto simp: node_segs_def)
  ultimately show ?thesis using separate_node(3) [OF sep [unfolded DtNode] k(1)] DtNode by auto
qed

lemma update_addr:
  assumes "distinct (addrs t)" "x \<in> set (subtrees t)" "dn_addr (f x) = dn_addr x"
  shows "dn_addr (update_node (dn_addr x) f t) = dn_addr t"
proof (cases "dn_addr t = dn_addr x")
  case True
  then have "t = x" using subtree_unique [OF assms(1) self_subtree assms(2)] by blast
  then show ?thesis using assms(3) by (cases x) simp
qed (cases t, simp)

lemma sum_list_one_changed:
  fixes g h :: "'b \<Rightarrow> 'a::comm_monoid_add"
  shows "k \<in> set ks \<Longrightarrow> distinct ks \<Longrightarrow> (\<And>l. l \<in> set ks \<Longrightarrow> l \<noteq> k \<Longrightarrow> g l = h l) \<Longrightarrow>
    sum_list (map g ks) + h k = sum_list (map h ks) + g k"
proof (induction ks)
  case (Cons l ks)
  show ?case
  proof (cases "l = k")
    case True
    then have "map g ks = map h ks" using Cons.prems by auto
    then have "sum_list (map g ks) = sum_list (map h ks)" by (rule arg_cong)
    then show ?thesis using True by (simp add: ac_simps)
  next
    case False
    then have "sum_list (map g ks) + h k = sum_list (map h ks) + g k" "g l = h l" using Cons by auto
    then have "g l + (sum_list (map g ks) + h k) = h l + (sum_list (map h ks) + g k)" by simp
    then show ?thesis by (simp add: add.assoc)
  qed
qed simp

lemma cancel_middle: "A + B = C + D \<Longrightarrow> D + E = B + F \<Longrightarrow> A + E = C + F"
  for A B C D E F :: "'a::cancel_comm_monoid_add"
proof -
  assume "A + B = C + D" "D + E = B + F"
  then have "(A + E) + B = (C + F) + B" by (metis add.assoc add.commute)
  then show ?thesis by simp
qed

text \<open>The links of the children of a node above \<open>x\<close> lie outside \<open>x\<close>, but for its own.\<close>

lemma kid_link:
  assumes sep: "separate (tree_segs m (DtNode a nm ps ks))" and k: "k \<in> set ks" and k0: "k0 \<in> set ks" "x \<in> set (subtrees k0)"
  shows "span (NodeLink (dn_addr k)) 8 \<subseteq> covered (tree_segs m (DtNode a nm ps ks)) - covered (tree_segs m x) - span (NodeLink a) 8
    \<or> k = x \<and> span (NodeLink (dn_addr x)) 8 \<inter> span (NodeLink a) 8 = {}"
proof -
  note S = separate_node [OF sep]
  have xk0: "covered (tree_segs m x) \<subseteq> covered (tree_segs m k0)" by (rule covered_mono [OF subtree_segs [OF k0(2)]])
  have linka: "span (NodeLink a) 8 \<subseteq> covered (node_segs m a nm ps)" using link_own [of a] by (auto simp: node_segs_def)
  have linkk: "span (NodeLink (dn_addr k)) 8 \<inter> span (NodeLink a) 8 = {}"
    using link_own [of "dn_addr k"] node_in_segs [of k m] S(3) [OF k] linka by blast
  have sub: "span (dn_addr k) 32 \<subseteq> covered (tree_segs m (DtNode a nm ps ks))"
    using node_in_segs [of k m] covered_mono [OF tree_segs_kid [OF k], of m] by auto
  consider "k = x" | "k \<noteq> x" "k = k0" | "k \<noteq> k0" by blast
  then have "k = x \<or> span (dn_addr k) 32 \<inter> covered (tree_segs m x) = {}"
  proof cases
    case 2
    then show ?thesis using below_apart [OF S(2) [OF k0(1)] k0(2)] by auto
  next
    case 3
    then show ?thesis using S(4) [OF k k0(1)] node_in_segs [of k m] xk0 by blast
  qed simp
  then show ?thesis using linkk sub link_own [of "dn_addr k"] by blast
qed

lemma tree_update:
  assumes rep: "tree_rep R m par t" and sep: "separate (tree_segs m t)" and dist: "distinct (addrs t)" and x: "x \<in> set (subtrees t)"
    and f: "dn_addr (f x) = dn_addr x" and R: "R \<subseteq> R'" and here: "\<And>par. tree_rep R m par x \<Longrightarrow> tree_rep R' m' par (f x)"
    and same: "same_on (covered (tree_segs m t) - covered (tree_segs m x) \<union> (span (NodeLink (dn_addr x)) 8 - span (NodeLink (dn_addr t)) 8)) m m'"
  shows "tree_rep R' m' par (update_node (dn_addr x) f t)
    \<and> tree_segs m' (update_node (dn_addr x) f t) + tree_segs m x = tree_segs m t + tree_segs m' (f x)"
  using rep sep dist x same
proof (induction t arbitrary: par)
  case (DtNode a nm ps ks)
  let ?t = "DtNode a nm ps ks" let ?u = "update_node (dn_addr x) f"
  show ?case
  proof (cases "x = ?t")
    case True
    then have "?u ?t = f x" by simp
    then show ?thesis using here [of par] DtNode.prems(1) True by (simp add: add.commute)
  next
    case False
    obtain k0 where k0: "k0 \<in> set ks" "x \<in> set (subtrees k0)" by (rule subtree_kid [OF DtNode.prems(4) False])
    note S = separate_node [OF DtNode.prems(2)] and L = kid_link [OF DtNode.prems(2) _ k0]
    have linka: "span (NodeLink a) 8 \<subseteq> covered (node_segs m a nm ps)" using link_own [of a] by (auto simp: node_segs_def)
    have ax: "dn_addr x \<in> set (addrs k0)" using k0(2) by (simp add: addrs_subtrees)
    then have na: "dn_addr x \<noteq> a" using DtNode.prems(3) k0(1) by auto
    have xk0: "covered (tree_segs m x) \<subseteq> covered (tree_segs m k0)" by (rule covered_mono [OF subtree_segs [OF k0(2)]])
    have kt: "covered (tree_segs m k) \<subseteq> covered (tree_segs m ?t)" if "k \<in> set ks" for k
      using covered_mono [OF tree_segs_kid [OF that], of m] by auto
    have other: "?u k = k \<and> tree_rep R' m' a k \<and> tree_segs m' k = tree_segs m k" if k: "k \<in> set ks" "k \<noteq> k0" for k
    proof -
      have "dn_addr x \<notin> set (addrs k)" using kids_apart [OF DtNode.prems(3) k(1) k0(1) k(2)] ax by blast
      moreover have "same_on (covered (tree_segs m k) - span (NodeLink (dn_addr k)) 8) m m'"
        by (rule same_on_mono [OF DtNode.prems(5)]) (use S(4) [OF k(1) k0(1) k(2)] xk0 kt [OF k(1)] in blast)
      moreover have "tree_rep R m a k" using DtNode.prems(1) k(1) by simp
      ultimately show ?thesis using tree_rep_keep [OF _ S(2) [OF k(1)] R, of a m'] update_node_outside [of "dn_addr x" k f] by blast
    qed
    have "span (NodeLink (dn_addr x)) 8 - span (NodeLink (dn_addr k0)) 8 \<subseteq> covered (tree_segs m k0) - span (NodeLink a) 8"
      using S(3) [OF k0(1)] link_own [of "dn_addr x"] node_in_segs [of x m] xk0 linka by blast
    then have "same_on (covered (tree_segs m k0) - covered (tree_segs m x) \<union> (span (NodeLink (dn_addr x)) 8 - span (NodeLink (dn_addr k0)) 8)) m m'"
      by (intro same_on_mono [OF DtNode.prems(5)]) (use kt [OF k0(1)] in auto)
    from DtNode.IH [OF k0(1) _ S(2) [OF k0(1)] addrs_kids [OF DtNode.prems(3) k0(1)] k0(2) this, of a] DtNode.prems(1) k0(1)
    have here0: "tree_rep R' m' a (?u k0)" "tree_segs m' (?u k0) + tree_segs m x = tree_segs m k0 + tree_segs m' (f x)" by auto
    have "node_span (NodeLink ` set (map dn_addr ks)) \<subseteq> covered (tree_segs m ?t) - covered (tree_segs m x)
        \<union> (span (NodeLink (dn_addr x)) 8 - span (NodeLink (dn_addr ?t)) 8)"
      using L unfolding node_span_def by fastforce
    moreover have "own_area m a nm ps \<subseteq> covered (tree_segs m ?t) - covered (tree_segs m x)" using S(3) [OF k0(1)] xk0 by (auto simp: own_area_def)
    ultimately have "same_on (own_area m a nm ps \<union> node_span (NodeLink ` set (map dn_addr ks))) m m'"
      by (intro same_on_mono [OF DtNode.prems(5)]) blast
    note N = node_rep_keep [OF _ S(1) this R]
    have "dn_addr (?u k) = dn_addr k" if "k \<in> set ks" for k
      using update_addr [OF addrs_kids [OF DtNode.prems(3) k0(1)] k0(2), of f] f other that by (cases "k = k0") auto
    then have addr: "map (dn_addr \<circ> ?u) ks = map dn_addr ks" by simp
    have "tree_rep R' m' a (?u k)" if "k \<in> set ks" for k using that here0 other by (cases "k = k0") auto
    then have reps: "tree_rep R' m' par (?u ?t)" using N(1) [of par] DtNode.prems(1) na by (simp add: addr)
    have "sum_list (map (\<lambda>k. tree_segs m' (?u k)) ks) + tree_segs m k0 = sum_list (map (tree_segs m) ks) + tree_segs m' (?u k0)"
      by (rule sum_list_one_changed [OF k0(1) kids_distinct [OF DtNode.prems(3)]]) (use other in simp)
    then have "sum_list (map (\<lambda>k. tree_segs m' (?u k)) ks) + tree_segs m x = sum_list (map (tree_segs m) ks) + tree_segs m' (f x)"
      by (rule cancel_middle [OF _ here0(2)])
    then show ?thesis using reps N(2) [of par] DtNode.prems(1) na by (simp add: comp_def add.assoc)
  qed
qed

text \<open>The area a tree is said to lie in may be any that holds its objects.\<close>

lemma bytes_at_region: "bytes_at R m a bs \<Longrightarrow> span a (length bs) \<subseteq> R' \<Longrightarrow> bytes_at R' m a bs"
  by (simp add: bytes_at_def)

lemma node_rep_region:
  assumes rep: "node_rep R m par a nm ps kids" and sep: "separate (node_segs m a nm ps)"
    and sub: "covered (node_segs m a nm ps) \<subseteq> R'" "\<forall>k\<in>set kids. span k 32 \<subseteq> R'"
  shows "node_rep R' m par a nm ps kids"
proof -
  have parts: "span a 32 \<subseteq> R'" "span (NodeName m a) (length nm + 1) \<subseteq> R'" "span (NodeProperties m a) (12 * length ps) \<subseteq> R'"
    using sub(1) by (auto simp: node_segs_def)
  have data: "span (dp_at p) (length (dp_data p)) \<subseteq> R'" if "p \<in> set ps" for p
    using that sub(1) by (force simp: node_segs_def covered_def)
  have fits: "fits (NodeProperties m a) (12 * length ps)" using sep by (simp add: separate_def node_segs_def)
  have "prop_rep R' m (NodeProperties m a + 12 * of_nat i) (ps ! i)" if i: "i < length ps" for i
  proof -
    have "prop_rep R m (NodeProperties m a + 12 * of_nat i) (ps ! i)" using rep i by (simp add: node_rep_def)
    then show ?thesis using props_fit [OF i fits] parts(3) data [OF nth_mem [OF i]] by (auto simp: prop_rep_def bytes_at_def)
  qed
  then show ?thesis using rep parts sub(2) by (auto simp: node_rep_def bytes_at_def)
qed

lemma tree_rep_region: "tree_rep R m par t \<Longrightarrow> separate (tree_segs m t) \<Longrightarrow> covered (tree_segs m t) \<subseteq> R' \<Longrightarrow> tree_rep R' m par t"
proof (induction t arbitrary: par)
  case (DtNode a nm ps ks)
  note S = separate_node [OF DtNode.prems(2)]
  have sub: "covered (tree_segs m k) \<subseteq> R'" if "k \<in> set ks" for k
    using covered_mono [OF tree_segs_kid [OF that], of m] DtNode.prems(3) by auto
  have "node_rep R' m par a nm ps (map dn_addr ks)"
  proof (rule node_rep_region [OF _ S(1)])
    show "node_rep R m par a nm ps (map dn_addr ks)" using DtNode.prems(1) by simp
    show "covered (node_segs m a nm ps) \<subseteq> R'" using DtNode.prems(3) by simp
    show "\<forall>k\<in>set (map dn_addr ks). span k 32 \<subseteq> R'" using sub node_in_segs by fastforce
  qed
  moreover have "tree_rep R' m a k" if "k \<in> set ks" for k
    using DtNode.IH [OF that _ S(2) [OF that] sub [OF that], of a] DtNode.prems(1) that by simp
  ultimately show ?case by simp
qed

section \<open>The table of strings\<close>

definition string_segs :: "mem \<Rightarrow> dt_string list \<Rightarrow> seg multiset" where
  "string_segs m es = sum_list (map (\<lambda>e. {#(fst e, 16), (StringData m (fst e), length (snd e) + 1)#}) es)"

lemma string_segs_simps [simp]:
  "string_segs m [] = {#}" "string_segs m (e # es) = {#(fst e, 16), (StringData m (fst e), length (snd e) + 1)#} + string_segs m es"
  "string_segs m (xs @ ys) = string_segs m xs + string_segs m ys"
  by (simp_all add: string_segs_def)

lemma string_segs_in: "e \<in> set es \<Longrightarrow> {#(fst e, 16), (StringData m (fst e), length (snd e) + 1)#} \<subseteq># string_segs m es"
proof (induction es)
  case (Cons x es)
  show ?case
  proof (cases "e = x")
    case False
    then have "{#(fst e, 16), (StringData m (fst e), length (snd e) + 1)#} \<subseteq># string_segs m es" using Cons by simp
    then show ?thesis unfolding string_segs_simps by (rule subset_mset.add_increasing [rotated]) simp
  qed simp
qed simp

lemma entry_covered:
  assumes "e \<in> set es"
  shows "span (fst e) 16 \<subseteq> covered (string_segs m es)" "span (StringData m (fst e)) (length (snd e) + 1) \<subseteq> covered (string_segs m es)"
  using covered_mono [OF string_segs_in [OF assms, of m]] by simp_all

lemma strings_region:
  assumes "strings_rep R m T bk" "span T (8 * length bk) \<subseteq> R'" "covered (string_segs m (concat bk)) \<subseteq> R'"
  shows "strings_rep R' m T bk"
proof -
  have "entry_rep R' m e" if e: "e \<in> set (concat bk)" for e
    using assms(1,3) that entry_covered [OF e, of m] span_mono [of 12 16 "fst e"]
    by (auto simp: strings_rep_def entry_rep_def bytes_at_def)
  with assms(1,2) show ?thesis by (simp add: strings_rep_def)
qed

lemma strings_keep:
  assumes rep: "strings_rep R m T bk" and same: "same_on (span T (8 * length bk) \<union> covered (string_segs m (concat bk))) m m'"
  shows "strings_rep UNIV m' T bk" "string_segs m' (concat bk) = string_segs m (concat bk)"
proof -
  let ?C = "span T (8 * length bk) \<union> covered (string_segs m (concat bk))"
  have C: "strings_rep ?C m T bk" by (rule strings_region [OF rep]) auto
  note C' = strings_rep_frame [OF C same]
  then show "strings_rep UNIV m' T bk" by (rule strings_region) auto
  have "StringData m' (fst e) = StringData m (fst e)" if e: "e \<in> set (concat bk)" for e
  proof -
    have "span (fst e) 12 \<subseteq> ?C" using entry_covered(1) [OF e, of m] span_mono [of 12 16 "fst e"] by auto
    from load32_field [OF this same, of "num.Bit0 (num.Bit0 (num.Bit0 num.One))"] show ?thesis by (simp add: StringData_def)
  qed
  then show "string_segs m' (concat bk) = string_segs m (concat bk)" unfolding string_segs_def by (intro arg_cong [where f = sum_list] map_cong) simp_all
qed

lemma rsv_keep:
  assumes "rsv_rep R m P rsv" "same_on (span P (16 * length rsv)) m m'"
  shows "rsv_rep UNIV m' P rsv"
  using rsv_rep_frame [of "span P (16 * length rsv)" m P rsv m'] assms by (simp add: rsv_rep_def)

end
