(* ===== verification/Tree_Build.thy ===== *)
theory Tree_Build
  imports Tree_Update Config_Load
begin

text \<open>
  Building the device tree: what the builder keeps true of memory, heap and statics (\<open>dt_inv\<close>), that such a tree can be written out, and
  adding a child to a node of the tree the memory stands for.
\<close>

section \<open>Objects on the heap\<close>

text \<open>An object in a heap range of its own, or the null pointer for none.\<close>

definition in_heap :: "block list \<Rightarrow> seg \<Rightarrow> bool" where
  "in_heap rs g \<longleftrightarrow> (if snd g = 0 then fst g = 0
     else \<exists>e. (fst g - 24, e) \<in> live rs \<and> unat (fst g) + snd g \<le> unat e \<and> unat e < unat (fst g) + (snd g + 3) div 4 * 4 + 24)"

lemma in_heap_span:
  assumes "in_heap rs g"
  shows "span (fst g) (snd g) \<subseteq> live_data rs"
proof (cases "snd g = 0")
  case False
  then obtain e where e: "(fst g - 24, e) \<in> live rs" "unat (fst g) + snd g \<le> unat e" using assms by (auto simp: in_heap_def)
  then show ?thesis using span_area [of "fst g" "fst g" "snd g" e] live_data_area [OF e(1)] by auto
qed simp

lemma in_heap_mono: "in_heap rs g \<Longrightarrow> live rs \<subseteq> live rs' \<Longrightarrow> in_heap rs' g"
  by (auto simp: in_heap_def split: if_splits)

lemma live_data_mono: "live rs \<subseteq> live rs' \<Longrightarrow> live_data rs \<subseteq> live_data rs'"
  by (auto simp: live_data_def)

lemma allocated_segment:
  assumes "allocated False rs p (rounded n) rs'" "0 < n" "unat n \<le> 2 ^ 32 - 28"
  shows "in_heap rs' (p, unat n)" "fits p (unat n)" "span p (unat n) \<inter> live_data rs = {}" "span p (unat n) \<subseteq> foot rs"
    "live rs \<subseteq> live rs'" "foot rs' \<subseteq> foot rs" "live_data rs \<subseteq> live_data rs'" "p \<noteq> 0"
proof -
  have n0: "0 < unat n" using assms(2) by (simp add: unat_gt_0 word_neq_0_conv [symmetric])
  note r = round_size(2) [OF assms(3)]
  have a: "fits p (rounded n)" "span p (rounded n) \<subseteq> foot rs" "span p (rounded n) \<inter> live_data rs = {}" "foot rs' \<subseteq> foot rs" "p \<noteq> 0"
    using assms(1) by (simp_all add: allocated_def)
  obtain e where e: "live rs' = insert (p - 24, e) (live rs)" "unat p + rounded n \<le> unat e" "unat e < unat p + rounded n + 24"
    using assms(1) by (auto simp: allocated_def)
  then show "in_heap rs' (p, unat n)" using n0 r by (auto simp: in_heap_def rounded_def)
  show "fits p (unat n)" using a(1) r by (simp add: fits_def)
  show "span p (unat n) \<inter> live_data rs = {}" "span p (unat n) \<subseteq> foot rs" using a(2,3) span_mono [OF r, of p] by blast+
  show "live rs \<subseteq> live rs'" using e(1) by blast
  then show "live_data rs \<subseteq> live_data rs'" by (rule live_data_mono)
qed (use assms(1) in \<open>simp_all add: allocated_def\<close>)

text \<open>Writing to data.\<close>

lemma heap_inv_data:
  assumes "heap_inv s rs fs" "same_outside W (memory s) m" "W \<subseteq> live_data rs \<union> - foot rs"
  shows "heap_inv (s\<lparr>memory := m\<rparr>) rs fs"
proof -
  have ord: "ordered 1 rs" using assms(1) by (simp add: heap_inv_def)
  have "W \<inter> header_span (bases rs) = {}" using assms(3) header_span_in_foot [OF ord] header_span_foot [OF ord] by blast
  then show ?thesis using heap_inv_same_headers [OF assms(1) same_outside_on [OF assms(2)]] by blast
qed

lemma data_kept_trans:
  assumes "data_kept rs s s1" "data_kept rs1 s1 s2" "live_data rs \<subseteq> live_data rs1" "foot rs1 \<subseteq> foot rs"
  shows "data_kept rs s s2"
proof -
  have "same_on (live_data rs \<union> - foot rs) (memory s1) (memory s2)"
    by (rule same_on_mono [of "live_data rs1 \<union> - foot rs1"]) (use assms(2-4) in \<open>auto simp: data_kept_def\<close>)
  then show ?thesis using assms(1,2) same_on_trans by (auto simp: data_kept_def)
qed

lemma data_kept_write:
  assumes "data_kept rs s s1" "same_outside W (memory s1) m" "W \<subseteq> foot rs - live_data rs"
  shows "data_kept rs s (s1\<lparr>memory := m\<rparr>)"
proof -
  have "same_on (live_data rs \<union> - foot rs) (memory s1) m" by (rule same_outside_on [OF assms(2)]) (use assms(3) in blast)
  then show ?thesis using assms(1) same_on_trans by (auto simp: data_kept_def)
qed

section \<open>Strings\<close>

lemma c_string_of_holds: "c_string m a bs \<Longrightarrow> holds m a (bs @ [0]) \<and> 0 \<notin> set bs"
proof (induction bs arbitrary: a)
  case (Cons b bs)
  then have "holds m (a + 1) (bs @ [0]) \<and> 0 \<notin> set bs" by auto
  with Cons.prems show ?case by (auto simp: holds_Cons)
qed (simp add: holds_Cons)

text \<open>A string that a caller passes: in memory that allocations leave alone.\<close>

definition given :: "block list \<Rightarrow> mem \<Rightarrow> u32 \<Rightarrow> u8 list \<Rightarrow> bool" where
  "given rs m a nm \<longleftrightarrow> c_string m a nm \<and> fits a (length nm + 1) \<and> length nm + 1 \<le> 2 ^ 32 - 28
     \<and> span a (length nm + 1) \<subseteq> live_data rs \<union> - foot rs"

lemma givenD:
  assumes "given rs m a nm"
  shows "BlStringLength m a = Some (of_nat (length nm))" "holds m a (nm @ [0])" "0 \<notin> set nm" "name_ok nm" "length nm + 1 \<le> 2 ^ 32 - 28"
    "length nm + 1 < 2 ^ 32"
  using assms c_string_of_holds [of m a nm] by (auto simp: given_def name_ok_def BlStringLength_c_string)

lemma given_later:
  assumes "given rs m a nm" "same_on (live_data rs \<union> - foot rs) m m'" "live_data rs \<subseteq> live_data rs'" "foot rs' \<subseteq> foot rs"
  shows "given rs' m' a nm"
proof -
  have "same_on (span a (length nm + 1)) m m'" by (rule same_on_mono [OF assms(2)]) (use assms(1) in \<open>simp add: given_def\<close>)
  then have "holds m' a (nm @ [0])" using holds_same [OF givenD(2) [OF assms(1)]] givenD(6) [OF assms(1)] by simp
  then have "c_string m' a nm" using c_string_holds givenD(3) [OF assms(1)] by blast
  then show ?thesis using assms(1,3,4) by (auto simp: given_def)
qed

lemma BlDuplicateString_spec:
  assumes inv: "heap_inv s rs fs" and g: "given rs (memory s) str nm"
  shows "BlDuplicateString str s = crash ''out of memory'' \<or> (\<exists>p s' rs' fs'. BlDuplicateString str s = ret (p, s') \<and> heap_inv s' rs' fs'
    \<and> allocated False rs p (rounded (of_nat (length nm + 1))) rs' \<and> data_kept rs s s' \<and> holds (memory s') p (nm @ [0]))"
proof -
  let ?n = "of_nat (length nm + 1) :: u32"
  note G = givenD [OF g]
  have n: "unat ?n = length nm + 1" using G(6) by (rule unat_of_nat32)
  have "?n \<noteq> 0" using n by auto
  then have "alloc_request ?n 1 False 0" using n G(5) by (simp add: alloc_request_def)
  from BlAllocateHeap_spec [OF inv this]
  have "BlAllocateHeap ?n 1 False s = crash ''out of memory'' \<or> (\<exists>p s' rs' fs'. BlAllocateHeap ?n 1 False s = ret (p, s') \<and> heap_inv s' rs' fs'
    \<and> allocated False rs p (rounded ?n) rs' \<and> data_kept rs s s')" by blast
  moreover have op: "BlDuplicateString str s = bind_run (BlAllocateHeap ?n 1 False s) (\<lambda>(mem, s).
       ret (mem, s\<lparr>memory := BlCopyMemory (memory s) mem str ?n\<rparr>))"
    by (simp add: BlDuplicateString_def G(1) add.commute)
  ultimately show ?thesis
  proof (elim disjE exE conjE)
    fix p s1 rs1 fs1
    assume A: "BlAllocateHeap ?n 1 False s = ret (p, s1)" "heap_inv s1 rs1 fs1" "allocated False rs p (rounded ?n) rs1" "data_kept rs s s1"
    have n0: "0 < ?n" using n by (simp add: word_less_nat_alt)
    have sp: "span str (length nm + 1) \<subseteq> live_data rs \<union> - foot rs" using g by (simp add: given_def)
    have d: "span p (length nm + 1) \<inter> span str (length nm + 1) = {}" "fits p (length nm + 1)" "fits str (length nm + 1)"
      using allocated_segment(2-4) [OF A(3) n0] n G(5) sp g by (auto simp: given_def)
    have "same_on (span str (length nm + 1)) (memory s) (memory s1)" by (rule same_on_mono [OF _ sp]) (use A(4) in \<open>simp add: data_kept_def\<close>)
    then have h: "load_bytes (memory s1) str (length nm + 1) = nm @ [0]"
      using holds_same [OF G(2)] G(6) by (simp add: holds_def)
    have "BlCopyMemory (memory s1) p str ?n = store_bytes (memory s1) p (nm @ [0])"
      using memcpy_store_bytes [of p ?n str "memory s1"] d unfolding n BlCopyMemory_def h by simp
    then have run: "BlDuplicateString str s = ret (p, s1\<lparr>memory := store_bytes (memory s1) p (nm @ [0])\<rparr>)"
      unfolding op A(1) by simp
    have le: "length (nm @ [0 :: u8]) \<le> rounded ?n" "0 < rounded ?n" using round_size(2) [of ?n] n G(5) by auto
    note F = store_fresh [OF A(2-4) le(2,1)]
    have "data_kept rs s (s1\<lparr>memory := store_bytes (memory s1) p (nm @ [0])\<rparr>)" using F(3) A(4) by (simp add: data_kept_def)
    then show ?thesis using run F(1,2) A(3)
      by (intro disjI2 exI [of _ p] exI [of _ "s1\<lparr>memory := store_bytes (memory s1) p (nm @ [0])\<rparr>"] exI [of _ rs1] exI [of _ fs1]) simp
  qed simp
qed

section \<open>The builder's invariant\<close>

text \<open>The hash of a name, as a function of its bytes.\<close>

fun hash_bytes :: "u32 \<Rightarrow> u8 list \<Rightarrow> u32" where
  "hash_bytes h [] = h"
| "hash_bytes h (b # bs) = hash_bytes ((h XOR ucast b) * 0x01000193) bs"

abbreviation name_hash :: "u8 list \<Rightarrow> u32" where "name_hash nm \<equiv> hash_bytes 0x811c9dc5 nm"

lemma BlDtHash_c_string: "c_string m a bs \<Longrightarrow> BlDtHash m a = Some (name_hash bs)"
proof -
  have "c_string m a bs \<Longrightarrow> hash_from m a h = Some (hash_bytes h bs)" for h
    by (induction bs arbitrary: a h) (simp_all add: hash_from.simps)
  then show "c_string m a bs \<Longrightarrow> BlDtHash m a = Some (name_hash bs)" by (simp add: BlDtHash_def)
qed

text \<open>The hash table: a power of two of buckets, each name once and in the bucket of its hash.\<close>

definition table_inv :: "'a dt_scheme \<Rightarrow> dt_string list list \<Rightarrow> bool" where
  "table_inv s bk \<longleftrightarrow> strings_rep UNIV (memory s) (BlDtStrings s) bk \<and> unat (BlDtStringsCapacity s) = length bk
     \<and> unat (BlDtStringsCount s) = length (concat bk) \<and> unat (BlDtStringsSize s) = length (strs_bytes (concat bk))
     \<and> distinct (map snd (concat bk)) \<and> (bk = [] \<or> (\<exists>k. length bk = 2 ^ k))
     \<and> (\<forall>i<length bk. \<forall>e\<in>set (bk ! i). unat (name_hash (snd e)) mod length bk = i)"

definition dt_segs :: "'a dt_scheme \<Rightarrow> dt_node \<Rightarrow> dt_string list list \<Rightarrow> (u64 \<times> u64) list \<Rightarrow> seg multiset" where
  "dt_segs s t bk rsv = tree_segs (memory s) t + string_segs (memory s) (concat bk)
     + {#(BlDtStrings s, 8 * length bk), (BlDtRsvMem s, 16 * length rsv)#}"

text \<open>The statics among them: the root node and its name, inside \<open>S\<close>.\<close>

definition root_segs :: "'b dt_statics_scheme \<Rightarrow> mem \<Rightarrow> seg multiset" where
  "root_segs L m = {#(BlDtRootNode L, 32), (NodeName m (BlDtRootNode L), 1)#}"

definition dt_inv ::
    "'b dt_statics_scheme \<Rightarrow> u32 set \<Rightarrow> 'a dt_scheme \<Rightarrow> block list \<Rightarrow> u32 list \<Rightarrow> dt_node \<Rightarrow> dt_string list list \<Rightarrow> (u64 \<times> u64) list \<Rightarrow> bool" where
  "dt_inv L S s rs fs t bk rsv \<longleftrightarrow> heap_inv s rs fs \<and> S \<inter> foot rs = {}
     \<and> tree_rep UNIV (memory s) 0 t \<and> dn_addr t = BlDtRootNode L \<and> distinct (addrs t)
     \<and> separate (dt_segs s t bk rsv) \<and> covered (root_segs L (memory s)) \<subseteq> S
     \<and> (\<exists>H. dt_segs s t bk rsv = root_segs L (memory s) + H \<and> (\<forall>g\<in>#H. in_heap rs g))
     \<and> table_inv s bk \<and> (\<forall>p\<in>set (props_of t). (dp_entry p, dp_name p) \<in> set (concat bk))
     \<and> unat (BlDtStructureSize s) = node_size (fdt_of t) + 4
     \<and> rsv_rep UNIV (memory s) (BlDtRsvMem s) rsv \<and> unat (BlDtRsvMemCount s) = length rsv"

lemma dt_inv_area:
  assumes "dt_inv L S s rs fs t bk rsv"
  shows "covered (dt_segs s t bk rsv) \<subseteq> live_data rs \<union> S" "S \<inter> live_data rs = {}"
proof -
  obtain H where H: "dt_segs s t bk rsv = root_segs L (memory s) + H" "\<forall>g\<in>#H. in_heap rs g" using assms by (auto simp: dt_inv_def)
  have "covered H \<subseteq> live_data rs" using H(2) in_heap_span unfolding covered_def by blast
  then show "covered (dt_segs s t bk rsv) \<subseteq> live_data rs \<union> S" using assms unfolding H(1) by (auto simp: dt_inv_def)
  have "ordered 1 rs" using assms by (simp add: dt_inv_def heap_inv_def)
  then show "S \<inter> live_data rs = {}" using assms live_data_in_foot by (auto simp: dt_inv_def)
qed

text \<open>Such a tree can be written out: the invariant gives what the blob is built from.\<close>

lemma separate_entries:
  assumes "separate (string_segs m es)"
  shows "distinct (map fst es)" "e \<in> set es \<Longrightarrow> f \<in> set es \<Longrightarrow> fst e \<noteq> fst f \<Longrightarrow> span (fst e) 16 \<inter> span (fst f) 16 = {}"
proof -
  show "distinct (map fst es)" using assms
  proof (induction es)
    case (Cons e es)
    have "fst e \<noteq> fst f" if f: "f \<in> set es" for f
    proof
      assume "fst e = fst f"
      then have "span (fst e) 16 \<subseteq> covered (string_segs m es)" using entry_covered(1) [OF f, of m] by simp
      moreover have "fst e \<in> span (fst e) 16" by simp
      moreover have "span (fst e) 16 \<inter> covered (string_segs m es) = {}" using Cons.prems by (auto simp: separate_add)
      ultimately show False by blast
    qed
    then have "fst e \<notin> fst ` set es" by auto
    then show ?case using Cons by (simp add: separate_add)
  qed simp
  show "e \<in> set es \<Longrightarrow> f \<in> set es \<Longrightarrow> fst e \<noteq> fst f \<Longrightarrow> span (fst e) 16 \<inter> span (fst f) 16 = {}" using assms
  proof (induction es)
    case (Cons x es)
    have "span (fst x) 16 \<inter> covered (string_segs m es) = {}" "separate (string_segs m es)"
      using Cons.prems(4) by (auto simp: separate_add)
    then show ?case using Cons entry_covered(1) [of _ es m] by (auto; blast)
  qed simp
qed

lemma separate_entry_data:
  "separate (string_segs m es) \<Longrightarrow> e \<in> set es \<Longrightarrow> f \<in> set es \<Longrightarrow> span (StringData m (fst e)) (length (snd e) + 1) \<inter> span (fst f) 16 = {}"
proof (induction es)
  case (Cons x es)
  have "(span (fst x) 16 \<union> span (StringData m (fst x)) (length (snd x) + 1)) \<inter> covered (string_segs m es) = {}" "separate (string_segs m es)"
    "span (fst x) 16 \<inter> span (StringData m (fst x)) (length (snd x) + 1) = {}"
    using Cons.prems(1) by (auto simp: separate_add)
  note x = this
  consider "e = x" "f = x" | "e = x" "f \<in> set es" | "f = x" "e \<in> set es" | "e \<in> set es" "f \<in> set es"
    using Cons.prems by auto
  then show ?case
  proof cases
    case 2
    then show ?thesis using x(1) entry_covered(1) [OF 2(2), of m] by blast
  next
    case 3
    then show ?thesis using x(1) entry_covered(2) [OF 3(2), of m] by blast
  qed (use x Cons.IH in auto)
qed simp

lemma dt_inv_ok:
  assumes "dt_inv L S s rs fs t bk rsv"
  shows "dt_ok (BlDtRootNode L) (live_data rs \<union> S - ids_span (concat bk)) s t bk rsv"
    "live_data rs \<union> S - ids_span (concat bk) \<union> ids_span (concat bk) \<subseteq> live_data rs \<union> - foot rs"
proof -
  let ?R = "live_data rs \<union> S - ids_span (concat bk)" let ?es = "concat bk"
  have I: "heap_inv s rs fs" "S \<inter> foot rs = {}" "tree_rep UNIV (memory s) 0 t" "dn_addr t = BlDtRootNode L" "distinct (addrs t)"
    "separate (dt_segs s t bk rsv)" "table_inv s bk" "\<forall>p\<in>set (props_of t). (dp_entry p, dp_name p) \<in> set ?es"
    "unat (BlDtStructureSize s) = node_size (fdt_of t) + 4" "rsv_rep UNIV (memory s) (BlDtRsvMem s) rsv" "unat (BlDtRsvMemCount s) = length rsv"
    using assms by (simp_all add: dt_inv_def)
  have T: "strings_rep UNIV (memory s) (BlDtStrings s) bk" using I(7) by (simp add: table_inv_def)
  have sep: "separate (tree_segs (memory s) t)" "separate (string_segs (memory s) ?es)"
    "covered (tree_segs (memory s) t) \<inter> covered (string_segs (memory s) ?es) = {}"
    "span (BlDtStrings s) (8 * length bk) \<inter> (covered (tree_segs (memory s) t) \<union> covered (string_segs (memory s) ?es)) = {}"
    "span (BlDtRsvMem s) (16 * length rsv) \<inter> (covered (tree_segs (memory s) t) \<union> covered (string_segs (memory s) ?es)) = {}"
    using I(6) by (auto simp: dt_segs_def separate_union separate_add Int_Un_distrib)
  have in_entry: "span (fst e + 12) 4 \<subseteq> span (fst e) 16" "span (fst e) 12 \<inter> span (fst e + 12) 4 = {}" for e :: dt_string
    using span_sub_numeral [of "num.Bit0 (num.Bit0 (num.Bit1 num.One))" 4 16 "fst e"] span_disjoint_off [of 0 12 12 4 "fst e"] by simp_all
  have ids: "ids_span ?es \<subseteq> covered (string_segs (memory s) ?es)"
    using entry_covered(1) in_entry(1) unfolding ids_span_def by blast
  have other: "span (fst e) 12 \<inter> ids_span ?es = {}" "span (StringData (memory s) (fst e)) (length (snd e) + 1) \<inter> ids_span ?es = {}"
    if e: "e \<in> set ?es" for e
  proof -
    have "span (fst e) 12 \<inter> span (fst f + 12) 4 = {}" "span (StringData (memory s) (fst e)) (length (snd e) + 1) \<inter> span (fst f + 12) 4 = {}"
      if f: "f \<in> set ?es" for f
      using separate_entries(2) [OF sep(2) e f] separate_entry_data [OF sep(2) e f] in_entry span_mono [of 12 16 "fst e"]
      by (cases "fst e = fst f"; fastforce)+
    then show "span (fst e) 12 \<inter> ids_span ?es = {}" "span (StringData (memory s) (fst e)) (length (snd e) + 1) \<inter> ids_span ?es = {}"
      unfolding ids_span_def by blast+
  qed
  have ids_apart: "ids_apart ?R {} ?es"
    using separate_entries [OF sep(2)] in_entry unfolding ids_apart_def ids_span_def by (auto; blast)
  note A = dt_inv_area [OF assms]
  have "covered (tree_segs (memory s) t) \<subseteq> ?R" using A(1) sep(3) ids by (auto simp: dt_segs_def)
  then have tree: "tree_rep ?R (memory s) 0 t" by (rule tree_rep_region [OF I(3) sep(1)])
  have "entry_rep ?R (memory s) e" if e: "e \<in> set ?es" for e
  proof -
    have "span (fst e) 12 \<union> span (StringData (memory s) (fst e)) (length (snd e) + 1) \<subseteq> live_data rs \<union> S"
      using A(1) entry_covered [OF e, of "memory s"] span_mono [of 12 16 "fst e"] by (auto simp: dt_segs_def)
    then show ?thesis using T e other [OF e] by (auto simp: strings_rep_def entry_rep_def bytes_at_def)
  qed
  moreover have "span (BlDtStrings s) (8 * length bk) \<subseteq> ?R" "span (BlDtRsvMem s) (16 * length rsv) \<subseteq> ?R"
    using A(1) sep(4,5) ids by (auto simp: dt_segs_def)
  ultimately have "strings_rep ?R (memory s) (BlDtStrings s) bk" "rsv_rep ?R (memory s) (BlDtRsvMem s) rsv"
    using T I(10) by (simp_all add: strings_rep_def rsv_rep_def)
  then show "dt_ok (BlDtRootNode L) ?R s t bk rsv"
    using tree ids_apart I by (simp add: dt_ok_def strings_ok_def table_inv_def)
  have "covered (string_segs (memory s) ?es) \<subseteq> live_data rs \<union> S" using A(1) by (auto simp: dt_segs_def)
  then show "?R \<union> ids_span ?es \<subseteq> live_data rs \<union> - foot rs" using ids I(2) by blast
qed

section \<open>Lists whose heads lie in memory\<close>

lemma load_store_list: "load_list (store_list m c l) c = l"
  using span_disjoint_off [of 0 4 4 4 c] by (simp add: load_list_def store_list_def load32_store32_disjoint Int_commute)

lemma store_list_out: "same_outside (span c 8) m (store_list m c l)"
  unfolding store_list_def
  by (rule same_on_trans [OF same_outside_mono [OF store32_same_outside] same_outside_mono [OF store32_same_outside]]) (rule span_8_parts)+

lemma list_append_spec:
  assumes rep: "list_rep m (load_list m c) ns" and new: "addable node ns" and c: "span c 8 \<inter> node_span (insert node (set ns)) = {}"
  shows "list_rep (list_append c node m) (load_list (list_append c node m) c) (ns @ [node])"
    "same_outside (span c 8 \<union> node_span (insert node (set ns))) m (list_append c node m)"
proof -
  obtain l m1 where op: "BlListInsertBefore (load_list m c) 0 node m = (l, m1)" by fastforce
  note A = bl.append [OF rep new op]
  have e: "list_append c node m = store_list m1 c l" by (simp add: list_append_def op)
  have "same_on (node_span (set (ns @ [node]))) m1 (store_list m1 c l)" by (rule same_outside_on [OF store_list_out]) (use c in simp)
  from bl.rep_frame [OF A(1) this] show "list_rep (list_append c node m) (load_list (list_append c node m) c) (ns @ [node])"
    by (simp add: e load_store_list)
  show "same_outside (span c 8 \<union> node_span (insert node (set ns))) m (list_append c node m)"
    unfolding e by (rule same_on_trans [OF same_outside_mono [OF A(2)] same_outside_mono [OF store_list_out]]) auto
qed

lemma list_push_spec:
  assumes rep: "list_rep m (load_list m c) ns" and new: "addable node ns" and c: "span c 8 \<inter> node_span (insert node (set ns)) = {}"
  shows "list_rep (list_push c node m) (load_list (list_push c node m) c) (node # ns)"
    "same_outside (span c 8 \<union> node_span (insert node (set ns))) m (list_push c node m)"
proof -
  obtain l m1 where op: "BlListInsertAfter (load_list m c) 0 node m = (l, m1)" by fastforce
  note A = bl.push [OF rep new op]
  have e: "list_push c node m = store_list m1 c l" by (simp add: list_push_def op)
  have "same_on (node_span (set (node # ns))) m1 (store_list m1 c l)" by (rule same_outside_on [OF store_list_out]) (use c in simp)
  from bl.rep_frame [OF A(1) this] show "list_rep (list_push c node m) (load_list (list_push c node m) c) (node # ns)"
    by (simp add: e load_store_list)
  show "same_outside (span c 8 \<union> node_span (insert node (set ns))) m (list_push c node m)"
    unfolding e by (rule same_on_trans [OF same_outside_mono [OF A(2)] same_outside_mono [OF store_list_out]]) auto
qed

section \<open>Sums over a tree with one node changed\<close>

lemma additive_update:
  fixes g :: "dt_node \<Rightarrow> 'a::cancel_comm_monoid_add"
  assumes g: "\<And>a nm ps ks. g (DtNode a nm ps ks) = c a nm ps + sum_list (map g ks)"
    and "distinct (addrs t)" "x \<in> set (subtrees t)"
  shows "g (update_node (dn_addr x) f t) + g x = g t + g (f x)"
  using assms(2,3)
proof (induction t)
  case (DtNode a nm ps ks)
  let ?t = "DtNode a nm ps ks" let ?u = "update_node (dn_addr x) f"
  show ?case
  proof (cases "x = ?t")
    case False
    obtain k0 where k0: "k0 \<in> set ks" "x \<in> set (subtrees k0)" by (rule subtree_kid [OF DtNode.prems(2) False])
    have ax: "dn_addr x \<in> set (addrs k0)" using k0(2) by (simp add: addrs_subtrees)
    then have na: "dn_addr x \<noteq> a" using DtNode.prems(1) k0(1) by auto
    have "?u k = k" if "k \<in> set ks" "k \<noteq> k0" for k
      using kids_apart [OF DtNode.prems(1) that(1) k0(1) that(2)] ax by (intro update_node_outside) blast
    then have "sum_list (map (\<lambda>k. g (?u k)) ks) + g k0 = sum_list (map g ks) + g (?u k0)"
      by (intro sum_list_one_changed [OF k0(1) kids_distinct [OF DtNode.prems(1)]]) simp
    from cancel_middle [OF this DtNode.IH [OF k0(1) addrs_kids [OF DtNode.prems(1) k0(1)] k0(2)]] show ?thesis
      using na by (simp add: g comp_def add.assoc)
  qed (simp add: add.commute)
qed

lemma update_sums:
  assumes "distinct (addrs t)" "x \<in> set (subtrees t)"
  shows "mset (addrs (update_node (dn_addr x) f t)) + mset (addrs x) = mset (addrs t) + mset (addrs (f x))"
    "mset (props_of (update_node (dn_addr x) f t)) + mset (props_of x) = mset (props_of t) + mset (props_of (f x))"
    "node_size (fdt_of (update_node (dn_addr x) f t)) + node_size (fdt_of x) = node_size (fdt_of t) + node_size (fdt_of (f x))"
proof -
  show "mset (addrs (update_node (dn_addr x) f t)) + mset (addrs x) = mset (addrs t) + mset (addrs (f x))"
    by (rule additive_update [where g = "\<lambda>t. mset (addrs t)" and c = "\<lambda>a nm ps. {#a#}", OF _ assms])
      (simp add: mset_concat comp_def)
  show "mset (props_of (update_node (dn_addr x) f t)) + mset (props_of x) = mset (props_of t) + mset (props_of (f x))"
    by (rule additive_update [where g = "\<lambda>t. mset (props_of t)" and c = "\<lambda>a nm ps. mset ps", OF _ assms])
      (simp add: mset_concat comp_def)
  show "node_size (fdt_of (update_node (dn_addr x) f t)) + node_size (fdt_of x) = node_size (fdt_of t) + node_size (fdt_of (f x))"
    by (rule additive_update [where g = "\<lambda>t. node_size (fdt_of t)"
          and c = "\<lambda>a nm ps. node_size (Fdt nm (map (\<lambda>p. (dp_name p, dp_data p)) ps) [])", OF _ assms]) (simp add: comp_def)
qed

lemma subtree_rep: "tree_rep R m par t \<Longrightarrow> x \<in> set (subtrees t) \<Longrightarrow> \<exists>par. tree_rep R m par x"
  by (induction t arbitrary: par) auto

section \<open>A new child\<close>

fun add_kid :: "dt_node \<Rightarrow> dt_node \<Rightarrow> dt_node" where
  "add_kid y (DtNode a nm ps ks) = DtNode a nm ps (ks @ [y])"

lemma dn_addr_add_kid [simp]: "dn_addr (add_kid y x) = dn_addr x"
  by (cases x) simp

definition links_area :: "u32 \<Rightarrow> dt_node list \<Rightarrow> u32 set" where
  "links_area p ks = span (NodeChildren p) 8 \<union> node_span (NodeLink ` dn_addr ` set ks)"

text \<open>The fields of a node apart from its link and its list of children.\<close>

lemma node_fields_parts:
  assumes "same_on (span a 4 \<union> span (a + 12) 4 \<union> span (a + 24) 8) m m'"
  shows "NodeParent m' a = NodeParent m a" "NodeName m' a = NodeName m a" "NodeProperties m' a = NodeProperties m a"
    "NumberOfProperties m' a = NumberOfProperties m a"
proof -
  have "same_on (span a 4) m m'" "same_on (span (a + 12) 4) m m'" by (rule same_on_mono [OF assms], blast)+
  moreover have "same_on (span (a + 24) 4) m m'" "same_on (span (a + 28) 4) m m'"
    using span_8_parts(1,2) [of "a + 24"] by (intro same_on_mono [OF assms]; simp add: add.assoc; blast)+
  ultimately show "NodeParent m' a = NodeParent m a" "NodeName m' a = NodeName m a" "NodeProperties m' a = NodeProperties m a"
    "NumberOfProperties m' a = NumberOfProperties m a"
    by (simp_all add: NodeParent_def NodeName_def NodeProperties_def NumberOfProperties_def load32_same_on)
qed

lemma node_parts_apart:
  "span a 4 \<inter> span (NodeChildren a) 8 = {}" "span (a + 12) 4 \<inter> span (NodeChildren a) 8 = {}" "span (a + 24) 8 \<inter> span (NodeChildren a) 8 = {}"
  "span (NodeLink a) 8 \<inter> span (NodeChildren a) 8 = {}" "span a 4 \<union> span (a + 12) 4 \<union> span (a + 24) 8 \<union> span (NodeChildren a) 8 \<subseteq> span a 32"
  "(span a 4 \<union> span (a + 12) 4 \<union> span (a + 24) 8) \<inter> span (NodeLink a) 8 = {}"
proof -
  note d = span_disjoint_off [of _ _ _ _ a] and i = span_sub [of _ _ 32 a]
  from d [of 0 4 16 8] d [of 12 4 16 8] d [of 16 8 24 8] d [of 4 8 16 8] i [of 0 4] i [of 12 4] i [of 24 8] i [of 16 8] d [of 0 4 4 8] d [of 4 8 12 4] d [of 4 8 24 8]
  show "span a 4 \<inter> span (NodeChildren a) 8 = {}" "span (a + 12) 4 \<inter> span (NodeChildren a) 8 = {}" "span (a + 24) 8 \<inter> span (NodeChildren a) 8 = {}"
    "span (NodeLink a) 8 \<inter> span (NodeChildren a) 8 = {}" "span a 4 \<union> span (a + 12) 4 \<union> span (a + 24) 8 \<union> span (NodeChildren a) 8 \<subseteq> span a 32"
    "(span a 4 \<union> span (a + 12) 4 \<union> span (a + 24) 8) \<inter> span (NodeLink a) 8 = {}"
    by (auto simp: NodeChildren_def NodeLink_def)
qed

lemma node_payload:
  assumes "separate (node_segs m a nm ps)"
  shows "span (NodeName m a) (length nm + 1) \<subseteq> covered (node_segs m a nm ps) - span a 32"
    "span (NodeProperties m a) (12 * length ps) \<subseteq> covered (node_segs m a nm ps) - span a 32"
    "p \<in> set ps \<Longrightarrow> span (dp_at p) (length (dp_data p)) \<subseteq> covered (node_segs m a nm ps) - span a 32"
proof -
  let ?P = "{#(NodeName m a, length nm + 1), (NodeProperties m a, 12 * length ps)#} + mset (map (\<lambda>p. (dp_at p, length (dp_data p))) ps)"
  have e: "node_segs m a nm ps = add_mset (a, 32) ?P" by (simp add: node_segs_def)
  have d: "span a 32 \<inter> covered ?P = {}" using assms unfolding e separate_add by simp
  have sub: "A \<subseteq> covered (node_segs m a nm ps) - span a 32" if "A \<subseteq> covered ?P" for A
    using that d unfolding e covered_simps by auto
  show "span (NodeName m a) (length nm + 1) \<subseteq> covered (node_segs m a nm ps) - span a 32"
    "span (NodeProperties m a) (12 * length ps) \<subseteq> covered (node_segs m a nm ps) - span a 32"
    "p \<in> set ps \<Longrightarrow> span (dp_at p) (length (dp_data p)) \<subseteq> covered (node_segs m a nm ps) - span a 32"
    by (rule sub, force simp: covered_def)+
qed

lemma node_rep_new_list:
  assumes rep: "node_rep UNIV m par a nm ps kids" and sep: "separate (node_segs m a nm ps)"
    and own: "same_on (covered (node_segs m a nm ps) - span (NodeChildren a) 8) m m'"
    and fields: "NodeParent m' a = NodeParent m a" "NodeName m' a = NodeName m a" "NodeProperties m' a = NodeProperties m a"
      "NumberOfProperties m' a = NumberOfProperties m a"
    and list: "list_rep m' (load_list m' (NodeChildren a)) (map NodeLink kids')"
  shows "node_rep UNIV m' par a nm ps kids'"
proof -
  note P = node_payload [OF sep]
  have keep: "same_on A m m'" if "A \<subseteq> covered (node_segs m a nm ps) - span a 32" for A
    by (rule same_on_mono [OF own]) (use that node_parts_apart(5) [of a] in blast)
  have fits: "fits (NodeProperties m a) (12 * length ps)" using sep by (simp add: separate_def node_segs_def)
  have "prop_rep UNIV m' (NodeProperties m a + 12 * of_nat i) (ps ! i)" if i: "i < length ps" for i
  proof (rule prop_rep_keep [OF _ keep order_refl])
    show "prop_rep UNIV m (NodeProperties m a + 12 * of_nat i) (ps ! i)" using rep i by (simp add: node_rep_def)
    show "span (NodeProperties m a + 12 * of_nat i) 12 \<union> span (dp_at (ps ! i)) (length (dp_data (ps ! i))) \<subseteq> covered (node_segs m a nm ps) - span a 32"
      using props_fit [OF i fits] P(2) P(3) [OF nth_mem [OF i]] by blast
  qed
  moreover have "bytes_at UNIV m' (NodeName m a) (nm @ [0])"
    using rep by (intro bytes_at_keep [OF _ keep order_refl]) (use P(1) in \<open>simp_all add: node_rep_def\<close>)
  ultimately show ?thesis using rep list by (simp add: node_rep_def fields)
qed

lemma tree_add_kid:
  assumes rep: "tree_rep UNIV m par t" and sep: "separate (tree_segs m t)" and dist: "distinct (addrs t)"
    and x: "DtNode p nm ps ks \<in> set (subtrees t)"
    and same: "same_on (covered (tree_segs m t) - links_area p ks) m m'"
    and list: "list_rep m' (load_list m' (NodeChildren p)) (map NodeLink (map dn_addr ks @ [dn_addr y]))" and y: "tree_rep UNIV m' p y"
  shows "tree_rep UNIV m' par (update_node p (add_kid y) t)"
    "tree_segs m' (update_node p (add_kid y) t) = tree_segs m t + tree_segs m' y"
proof -
  let ?x = "DtNode p nm ps ks"
  have xt: "covered (tree_segs m ?x) \<subseteq> covered (tree_segs m t)" by (rule covered_mono [OF subtree_segs [OF x]])
  have sx: "separate (tree_segs m ?x)" by (rule separate_mono [OF sep subtree_segs [OF x]])
  note S = separate_node [OF sx] and P = node_parts_apart [of p]
  have p32: "span p 32 \<subseteq> covered (node_segs m p nm ps)" by (auto simp: node_segs_def)
  have kids: "node_span (NodeLink ` dn_addr ` set ks) \<inter> covered (node_segs m p nm ps) = {}"
    "node_span (NodeLink ` dn_addr ` set ks) \<subseteq> covered (tree_segs m ?x)"
    using S(3) link_own node_in_segs covered_mono [OF tree_segs_kid] unfolding node_span_def by fastforce+
  have W: "links_area p ks \<subseteq> covered (tree_segs m ?x)" using P(5) p32 kids(2) by (auto simp: links_area_def)
  have own: "same_on (covered (node_segs m p nm ps) - span (NodeChildren p) 8) m m'"
    by (rule same_on_mono [OF same]) (use kids(1) xt in \<open>auto simp: links_area_def\<close>)
  have fields: "NodeParent m' p = NodeParent m p" "NodeName m' p = NodeName m p" "NodeProperties m' p = NodeProperties m p"
    "NumberOfProperties m' p = NumberOfProperties m p"
    by (rule node_fields_parts, rule same_on_mono [OF own]; use P p32 in blast)+
  have kid: "tree_rep UNIV m' p k \<and> tree_segs m' k = tree_segs m k" if k: "k \<in> set ks" "tree_rep UNIV m p k" for k
  proof (rule tree_rep_keep [OF k(2) S(2) [OF k(1)] order_refl])
    have "covered (tree_segs m k) \<inter> span (NodeLink (dn_addr l)) 8 = {}" if "l \<in> set ks" "l \<noteq> k" for l
      using S(4) [OF k(1) that(1)] that(2) node_in_segs [of l m] link_own [of "dn_addr l"] by blast
    then have "(covered (tree_segs m k) - span (NodeLink (dn_addr k)) 8) \<inter> node_span (NodeLink ` dn_addr ` set ks) = {}"
      unfolding node_span_def by fastforce
    moreover have "covered (tree_segs m k) \<inter> span (NodeChildren p) 8 = {}" using S(3) [OF k(1)] p32 P(5) by blast
    moreover have "covered (tree_segs m k) \<subseteq> covered (tree_segs m t)" using covered_mono [OF tree_segs_kid [OF k(1)], of m] xt by auto
    ultimately have "covered (tree_segs m k) - span (NodeLink (dn_addr k)) 8 \<subseteq> covered (tree_segs m t) - links_area p ks"
      by (auto simp: links_area_def)
    then show "same_on (covered (tree_segs m k) - span (NodeLink (dn_addr k)) 8) m m'" by (rule same_on_mono [OF same])
  qed
  have here: "tree_rep UNIV m' par (add_kid y ?x) \<and> tree_segs m' (add_kid y ?x) = tree_segs m ?x + tree_segs m' y"
    if "tree_rep UNIV m par ?x" for par
  proof -
    have r: "node_rep UNIV m par p nm ps (map dn_addr ks)" and k: "\<forall>k\<in>set ks. tree_rep UNIV m p k" using that by simp_all
    note n = node_rep_new_list [OF r S(1) own fields list]
    have "map (tree_segs m') ks = map (tree_segs m) ks" using kid k by simp
    then have "sum_list (map (tree_segs m') ks) = sum_list (map (tree_segs m) ks)" by (rule arg_cong)
    then show ?thesis using n kid k y node_segs_frame [OF fields(2,3)] by (auto simp: add.assoc)
  qed
  have same': "same_on (covered (tree_segs m t) - covered (tree_segs m ?x) \<union> (span (NodeLink (dn_addr ?x)) 8 - span (NodeLink (dn_addr t)) 8)) m m'"
  proof (rule same_on_mono [OF same], rule Un_least)
    show "covered (tree_segs m t) - covered (tree_segs m ?x) \<subseteq> covered (tree_segs m t) - links_area p ks" using W by blast
    have "span (NodeLink p) 8 \<inter> links_area p ks = {}"
      using P(4) kids(1) p32 link_own [of p] by (auto simp: links_area_def)
    then show "span (NodeLink (dn_addr ?x)) 8 - span (NodeLink (dn_addr t)) 8 \<subseteq> covered (tree_segs m t) - links_area p ks"
      using link_own [of p] p32 xt by auto
  qed
  obtain par0 where p0: "tree_rep UNIV m par0 ?x" using subtree_rep [OF rep x] by blast
  have "\<And>par. tree_rep UNIV m par ?x \<Longrightarrow> tree_rep UNIV m' par (add_kid y ?x)" using here by blast
  from tree_update [where f = "add_kid y", OF rep sep dist x dn_addr_add_kid order_refl this same']
  have T: "tree_rep UNIV m' par (update_node p (add_kid y) t)"
    "tree_segs m' (update_node p (add_kid y) t) + tree_segs m ?x = tree_segs m t + tree_segs m' (add_kid y ?x)" by simp_all
  show "tree_rep UNIV m' par (update_node p (add_kid y) t)" by (rule T(1))
  show "tree_segs m' (update_node p (add_kid y) t) = tree_segs m t + tree_segs m' y"
    using T(2) here [OF p0] by (simp add: ac_simps del: tree_segs.simps add_kid.simps)
qed

end
