(* ===== verification/Tree_Nodes.thy ===== *)
theory Tree_Nodes
  imports Tree_Build
begin

text \<open>\<open>BlDtCreateNode\<close> and \<open>BlDtFindNode\<close>: a node is added as the last child, a child is found by its name.\<close>

lemma heap_inv_structure [simp]: "heap_inv (s\<lparr>BlDtStructureSize := n\<rparr>) rs fs = heap_inv s rs fs"
  by (simp add: heap_inv_def heap_rep_def)

section \<open>A fresh node\<close>

definition init_node :: "u32 \<Rightarrow> u32 \<Rightarrow> mem \<Rightarrow> mem" where
  "init_node a d m = store32 (store32 (store_list (store32 m (a + 12) d) (NodeChildren a) BlListInit) (a + 24) 0) (a + 28) 0"

lemma init_node_fields:
  "NodeParent (init_node a d m) a = load32 m a" "NodeName (init_node a d m) a = d" "load_list (init_node a d m) (NodeChildren a) = BlListInit"
  "NodeProperties (init_node a d m) a = 0" "NumberOfProperties (init_node a d m) a = 0"
proof -
  note apart = span_disjoint_off [of _ 4 _ 4 a]
  from apart [of 0 12] apart [of 0 16] apart [of 0 20] apart [of 0 24] apart [of 0 28] apart [of 12 16] apart [of 12 20] apart [of 12 24] apart [of 12 28]
    apart [of 16 20] apart [of 16 24] apart [of 16 28] apart [of 20 24] apart [of 20 28] apart [of 24 28]
  show "NodeParent (init_node a d m) a = load32 m a" "NodeName (init_node a d m) a = d" "load_list (init_node a d m) (NodeChildren a) = BlListInit"
    "NodeProperties (init_node a d m) a = 0" "NumberOfProperties (init_node a d m) a = 0"
    by (simp_all add: init_node_def NodeParent_def NodeName_def load_list_def store_list_def NodeProperties_def NumberOfProperties_def NodeChildren_def
        BlListInit_def load32_store32_disjoint Int_commute add.assoc)
qed

lemma init_node_out: "same_outside (span a 32) m (init_node a d m)"
proof -
  note i = span_sub [of _ _ 32 a]
  have s: "span (a + 12) 4 \<subseteq> span a 32" "span (NodeChildren a) 8 \<subseteq> span a 32" "span (a + 24) 4 \<subseteq> span a 32" "span (a + 28) 4 \<subseteq> span a 32"
    using i [of 12 4] i [of 16 8] i [of 24 4] i [of 28 4] by (simp_all add: NodeChildren_def)
  show ?thesis unfolding init_node_def
    by (intro same_on_trans [OF _ same_outside_mono [OF store32_same_outside s(4)]] same_on_trans [OF _ same_outside_mono [OF store32_same_outside s(3)]]
        same_on_trans [OF _ same_outside_mono [OF store_list_out s(2)]] same_outside_mono [OF store32_same_outside s(1)])
qed

lemma fresh_tree:
  assumes "NodeParent m a = p" "NodeName m a = d" "load_list m (NodeChildren a) = BlListInit" "NodeProperties m a = 0" "NumberOfProperties m a = 0"
    and "a \<noteq> 0" "holds m d (nm @ [0])" "0 \<notin> set nm" "fits d (length nm + 1)"
  shows "tree_rep UNIV m p (DtNode a nm [] [])" "tree_segs m (DtNode a nm [] []) = {#(a, 32), (d, length nm + 1), (0, 0)#}"
proof -
  have "name_ok nm" using assms(8) by (simp add: name_ok_def)
  then show "tree_rep UNIV m p (DtNode a nm [] [])" using assms BlListInit_rep [of m] by (simp add: node_rep_def bytes_at_def)
qed (simp add: node_segs_def assms(2,4))

section \<open>Creating a node\<close>

text \<open>Where the two objects of a new node go.\<close>

lemma create_alloc:
  fixes s :: "'a dt_scheme"
  assumes inv: "heap_inv s rs fs" and g: "given rs (memory s) name nm"
    and par: "p = (if parent = 0 then BlDtRootNode L else parent)"
  shows "BlDtCreateNode L parent name s = crash ''out of memory''
    \<or> (\<exists>a d s' rs' fs'. BlDtCreateNode L parent name s =
        (let m = list_append (NodeChildren p) (NodeLink a) (init_node a d (memory s'))
         in Option.bind (BlStringLength m (NodeName m a)) (\<lambda>len.
              ret (a, s'\<lparr>memory := m, BlDtStructureSize := BlDtStructureSize s' + BL_DT_NODE_SIZE len\<rparr>)))
      \<and> heap_inv s' rs' fs' \<and> data_kept rs s s' \<and> live rs \<subseteq> live rs' \<and> foot rs' \<subseteq> foot rs \<and> in_heap rs' (a, 32) \<and> in_heap rs' (d, length nm + 1)
      \<and> fits a 32 \<and> a \<noteq> 0 \<and> fits d (length nm + 1) \<and> load32 (memory s') a = p \<and> holds (memory s') d (nm @ [0])
      \<and> span a 32 \<inter> span d (length nm + 1) = {} \<and> span a 32 \<union> span d (length nm + 1) \<subseteq> foot rs - live_data rs)"
proof -
  note G = givenD [OF g]
  have "alloc_request SIZEOF_BlDtNode 4 False 2" by (simp add: alloc_request_def SIZEOF_BlDtNode_def)
  from BlAllocateHeap_spec [OF inv this] have A: "BlAllocateHeap SIZEOF_BlDtNode 4 False s = crash ''out of memory''
    \<or> (\<exists>a s' rs' fs'. BlAllocateHeap SIZEOF_BlDtNode 4 False s = ret (a, s') \<and> heap_inv s' rs' fs' \<and> allocated False rs a (rounded 32) rs' \<and> data_kept rs s s')"
    unfolding SIZEOF_BlDtNode_def by blast
  then show ?thesis
  proof (elim disjE exE conjE)
    fix a s1 rs1 fs1
    assume s1: "BlAllocateHeap SIZEOF_BlDtNode 4 False s = ret (a, s1)" "heap_inv s1 rs1 fs1" "allocated False rs a (rounded 32) rs1" "data_kept rs s s1"
    note a = allocated_segment [OF s1(3)]
    have a: "in_heap rs1 (a, 32)" "fits a 32" "span a 32 \<inter> live_data rs = {}" "span a 32 \<subseteq> foot rs" "live rs \<subseteq> live rs1" "foot rs1 \<subseteq> foot rs"
      "live_data rs \<subseteq> live_data rs1" "a \<noteq> 0"
      using a by simp_all
    let ?s1 = "s1\<lparr>memory := store32 (memory s1) a p\<rparr>"
    have a4: "span a 4 \<subseteq> span a 32" by (rule span_mono) simp
    have al: "span a 32 \<subseteq> live_data rs1" using in_heap_span [OF a(1)] by simp
    have inv1: "heap_inv ?s1 rs1 fs1" by (rule heap_inv_data [OF s1(2) store32_same_outside]) (use a4 al in blast)
    have k1: "data_kept rs s ?s1" by (rule data_kept_write [OF s1(4) store32_same_outside]) (use a4 a(3,4) in blast)
    have "given rs1 (memory ?s1) name nm" by (rule given_later [OF g _ a(7,6)]) (use k1 in \<open>simp add: data_kept_def\<close>)
    from BlDuplicateString_spec [OF inv1 this] show ?thesis
    proof (elim disjE exE conjE)
      fix d s2 rs2 fs2
      assume s2: "BlDuplicateString name ?s1 = ret (d, s2)" "heap_inv s2 rs2 fs2" "allocated False rs1 d (rounded (of_nat (length nm + 1))) rs2"
        "data_kept rs1 ?s1 s2" "holds (memory s2) d (nm @ [0])"
      have n: "unat (of_nat (length nm + 1) :: u32) = length nm + 1" using G(6) by (rule unat_of_nat32)
      then have "0 < (of_nat (length nm + 1) :: u32)" by (simp add: word_less_nat_alt)
      note d = allocated_segment [OF s2(3) this, unfolded n, OF G(5)]
      have "load32 (memory s2) a = load32 (memory ?s1) a"
        by (rule load32_same_on, rule same_on_mono [of "live_data rs1 \<union> - foot rs1"]) (use s2(4) a4 al in \<open>auto simp: data_kept_def\<close>)
      then have pa: "load32 (memory s2) a = p" by simp
      have "BlDtCreateNode L parent name s = (let m = list_append (NodeChildren p) (NodeLink a) (init_node a d (memory s2))
         in Option.bind (BlStringLength m (NodeName m a)) (\<lambda>len.
              ret (a, s2\<lparr>memory := m, BlDtStructureSize := BlDtStructureSize s2 + BL_DT_NODE_SIZE len\<rparr>)))"
        by (simp add: BlDtCreateNode_def par [symmetric] s1(1) s2(1) init_node_def)
      moreover have "data_kept rs s s2" by (rule data_kept_trans [OF k1 s2(4) a(7,6)])
      moreover have "span a 32 \<inter> span d (length nm + 1) = {}" using d(3) al by blast
      ultimately show ?thesis
        using s2(2,5) pa a d(1,2,5,6) in_heap_mono [OF a(1) d(5)] subset_trans [OF a(5) d(5)] subset_trans [OF d(6) a(6)] subset_trans [OF d(4) a(6)]
          d(3) by (intro disjI2 exI [of _ a] exI [of _ d] exI [of _ s2] exI [of _ rs2] exI [of _ fs2]) auto
    qed (simp add: BlDtCreateNode_def par [symmetric] s1(1))
  qed (simp add: BlDtCreateNode_def)
qed

text \<open>The invariant after a change of the tree that adds objects.\<close>

definition statics_kept :: "'a dt_scheme \<Rightarrow> 'a dt_scheme \<Rightarrow> bool" where
  "statics_kept s s' \<longleftrightarrow> BlDtStrings s' = BlDtStrings s \<and> BlDtStringsCount s' = BlDtStringsCount s \<and> BlDtStringsCapacity s' = BlDtStringsCapacity s
     \<and> BlDtStringsSize s' = BlDtStringsSize s \<and> BlDtRsvMem s' = BlDtRsvMem s \<and> BlDtRsvMemCount s' = BlDtRsvMemCount s"

definition table_area :: "'a dt_scheme \<Rightarrow> dt_string list list \<Rightarrow> (u64 \<times> u64) list \<Rightarrow> u32 set" where
  "table_area s bk rsv = span (BlDtStrings s) (8 * length bk) \<union> covered (string_segs (memory s) (concat bk)) \<union> span (BlDtRsvMem s) (16 * length rsv)"

lemma dt_inv_tree:
  fixes s s' :: "'a dt_scheme"
  assumes I: "dt_inv L S s rs fs t bk rsv"
    and heap: "heap_inv s' rs' fs'" "foot rs' \<subseteq> foot rs" "live rs \<subseteq> live rs'"
    and tree: "tree_rep UNIV (memory s') 0 t'" "dn_addr t' = BlDtRootNode L" "distinct (addrs t')"
    and segs: "tree_segs (memory s') t' = tree_segs (memory s) t + N" "\<forall>g\<in>#N. in_heap rs' g" "separate N" "covered N \<inter> (live_data rs \<union> S) = {}"
    and same: "same_on (table_area s bk rsv) (memory s) (memory s')" "NodeName (memory s') (BlDtRootNode L) = NodeName (memory s) (BlDtRootNode L)"
    and rest: "statics_kept s s'" "\<forall>p\<in>set (props_of t'). (dp_entry p, dp_name p) \<in> set (concat bk)"
      "unat (BlDtStructureSize s') = node_size (fdt_of t') + 4"
  shows "dt_inv L S s' rs' fs' t' bk rsv"
proof -
  have T: "strings_rep UNIV (memory s) (BlDtStrings s) bk" and R: "rsv_rep UNIV (memory s) (BlDtRsvMem s) rsv"
    using I by (simp_all add: dt_inv_def table_inv_def)
  have K: "strings_rep UNIV (memory s') (BlDtStrings s) bk" "string_segs (memory s') (concat bk) = string_segs (memory s) (concat bk)"
    by (rule strings_keep [OF T], rule same_on_mono [OF same(1)], auto simp: table_area_def)+
  have R': "rsv_rep UNIV (memory s') (BlDtRsvMem s) rsv" by (rule rsv_keep [OF R], rule same_on_mono [OF same(1)]) (auto simp: table_area_def)
  have e: "dt_segs s' t' bk rsv = dt_segs s t bk rsv + N"
    using rest(1) by (simp add: dt_segs_def segs(1) K(2) statics_kept_def ac_simps)
  have sep: "separate (dt_segs s' t' bk rsv)"
    using I segs(3,4) dt_inv_area(1) [OF I] unfolding e separate_union by (auto simp: dt_inv_def)
  have r: "root_segs L (memory s') = root_segs L (memory s)" by (simp add: root_segs_def same(2))
  obtain H where H: "dt_segs s t bk rsv = root_segs L (memory s) + H" "\<forall>g\<in>#H. in_heap rs g" using I by (auto simp: dt_inv_def)
  have "\<exists>H. dt_segs s' t' bk rsv = root_segs L (memory s') + H \<and> (\<forall>g\<in>#H. in_heap rs' g)"
    by (rule exI [of _ "H + N"]) (use H segs(2) in_heap_mono [OF _ heap(3)] in \<open>auto simp: e r add.assoc\<close>)
  moreover have "table_inv s' bk" using I K(1) rest(1) by (simp add: dt_inv_def table_inv_def statics_kept_def)
  moreover have "S \<inter> foot rs' = {}" using I heap(2) by (auto simp: dt_inv_def)
  ultimately show ?thesis using I heap(1) tree sep r R' rest by (simp add: dt_inv_def statics_kept_def)
qed

lemma dt_inv_tables:
  assumes "dt_inv L S s rs fs t bk rsv"
  shows "table_area s bk rsv \<subseteq> live_data rs \<union> S" "covered (tree_segs (memory s) t) \<inter> table_area s bk rsv = {}"
    "separate (tree_segs (memory s) t)" "covered (tree_segs (memory s) t) \<subseteq> live_data rs \<union> S" "live_data rs \<union> S \<subseteq> live_data rs \<union> - foot rs"
proof -
  have sep: "separate (dt_segs s t bk rsv)" using assms by (simp add: dt_inv_def)
  then show "covered (tree_segs (memory s) t) \<inter> table_area s bk rsv = {}" "separate (tree_segs (memory s) t)"
    by (auto simp: dt_segs_def table_area_def separate_union separate_add)
  show "table_area s bk rsv \<subseteq> live_data rs \<union> S" "covered (tree_segs (memory s) t) \<subseteq> live_data rs \<union> S"
    using dt_inv_area(1) [OF assms] by (auto simp: dt_segs_def table_area_def)
  show "live_data rs \<union> S \<subseteq> live_data rs \<union> - foot rs" using assms by (auto simp: dt_inv_def)
qed

text \<open>Two nodes of a tree lie apart.\<close>

lemma separate_two:
  assumes "separate M" "g \<in># M" "h \<in># M" "g \<noteq> h"
  shows "span (fst g) (snd g) \<inter> span (fst h) (snd h) = {}"
proof -
  obtain N where N: "M = add_mset g N" using multi_member_split [OF assms(2)] by blast
  then have "h \<in># N" using assms(3,4) by simp
  then have "span (fst h) (snd h) \<subseteq> covered N" by (auto simp: covered_def)
  then show ?thesis using assms(1) unfolding N separate_add by blast
qed

lemma node_in_tree_segs: "a \<in> set (addrs t) \<Longrightarrow> (a, 32) \<in># tree_segs m t"
proof (induction t)
  case (DtNode b nm ps ks)
  show ?case
  proof (cases "a = b")
    case False
    then obtain k where k: "k \<in> set ks" "a \<in> set (addrs k)" using DtNode.prems by auto
    then show ?thesis using DtNode.IH mset_subset_eqD [OF tree_segs_kid [OF k(1), of m]] by auto
  qed (simp add: node_segs_def)
qed

lemma tree_nodes_apart:
  "separate (tree_segs m t) \<Longrightarrow> a \<in> set (addrs t) \<Longrightarrow> b \<in> set (addrs t) \<Longrightarrow> a \<noteq> b \<Longrightarrow> span a 32 \<inter> span b 32 = {}"
  using separate_two [OF _ node_in_tree_segs node_in_tree_segs, of m t a b] by simp

lemma kid_in_tree: "DtNode p nm ps ks \<in> set (subtrees t) \<Longrightarrow> k \<in> set ks \<Longrightarrow> dn_addr k \<in> set (addrs t)"
  using subtree_trans [of k "DtNode p nm ps ks" t] by (force simp: addrs_subtrees)

lemma node_addr_in: "x \<in> set (subtrees t) \<Longrightarrow> dn_addr x \<in> set (addrs t)"
  by (simp add: addrs_subtrees)

lemma links_area_apart:
  assumes sep: "separate (tree_segs m t)" and x: "DtNode p nm ps ks \<in> set (subtrees t)" and b: "b \<in> set (addrs t)"
  shows "span (b + 12) 4 \<inter> links_area p ks = {}"
proof -
  have o: "span (b + 12) 4 \<subseteq> span b 32" "span (b + 12) 4 \<inter> span (NodeLink b) 8 = {}" "span (b + 12) 4 \<inter> span (NodeChildren b) 8 = {}"
    using node_parts_apart [of b] by auto
  have pt: "p \<in> set (addrs t)" using node_addr_in [OF x] by simp
  have "span (b + 12) 4 \<inter> span (NodeChildren p) 8 = {}"
    using o tree_nodes_apart [OF sep b pt] node_parts_apart(5) [of p] by (cases "b = p") auto
  moreover have "span (b + 12) 4 \<inter> span (NodeLink c) 8 = {}" if c: "c \<in> dn_addr ` set ks" for c
  proof (cases "b = c")
    case False
    have "c \<in> set (addrs t)" using kid_in_tree [OF x] c by auto
    then show ?thesis using o tree_nodes_apart [OF sep b _ False] link_own [of c] by blast
  qed (use o in simp)
  ultimately show ?thesis by (auto simp: links_area_def node_span_def)
qed

lemma links_area_in:
  assumes x: "DtNode p nm ps ks \<in> set (subtrees t)"
  shows "links_area p ks \<subseteq> covered (tree_segs m t)"
proof -
  have n: "span b 32 \<subseteq> covered (tree_segs m t)" if "b \<in> set (addrs t)" for b
    using node_in_tree_segs [OF that, of m] by (force simp: covered_def)
  have "span (NodeChildren p) 8 \<subseteq> covered (tree_segs m t)" using node_parts_apart(5) [of p] n [OF node_addr_in [OF x]] by auto
  moreover have "span (NodeLink c) 8 \<subseteq> covered (tree_segs m t)" if "c \<in> dn_addr ` set ks" for c
    using n [of c] kid_in_tree [OF x] that link_own [of c] by auto
  ultimately show ?thesis by (auto simp: links_area_def node_span_def)
qed

lemma addable_apart:
  assumes "nodes_apart (set ns)" "\<And>n. n \<in> set ns \<Longrightarrow> span node 8 \<inter> span n 8 = {}" "node \<noteq> 0"
  shows "addable node ns"
proof -
  have "node \<notin> set ns"
  proof
    assume "node \<in> set ns"
    moreover have "node \<in> span node 8" by simp
    ultimately show False using assms(2) [of node] by blast
  qed
  moreover have "span a 8 \<inter> span b 8 = {}" if "a \<in> insert node (set ns)" "b \<in> insert node (set ns)" "a \<noteq> b" for a b
    using that assms(1) assms(2) [of a] assms(2) [of b] unfolding nodes_apart_def by blast
  ultimately show ?thesis using assms(1,3) unfolding addable_def nodes_apart_def by blast
qed

text \<open>Linking the fresh node into the list of its parent.\<close>

lemma link_kid:
  assumes rep: "tree_rep UNIV m0 0 t" and sep: "separate (tree_segs m0 t)" and x: "DtNode p nmp ps ks \<in> set (subtrees t)"
    and same: "same_on (links_area p ks) m0 m1" and a: "fits a 32" "span a 32 \<inter> covered (tree_segs m0 t) = {}"
  defines "m2 \<equiv> list_append (NodeChildren p) (NodeLink a) m1"
  shows "list_rep m2 (load_list m2 (NodeChildren p)) (map NodeLink (map dn_addr ks @ [a]))"
    "same_outside (links_area p ks \<union> span (NodeLink a) 8) m1 m2"
proof -
  let ?ns = "map NodeLink (map dn_addr ks)"
  obtain par where "tree_rep UNIV m0 par (DtNode p nmp ps ks)" using subtree_rep [OF rep x] by blast
  then have l0: "list_rep m0 (load_list m0 (NodeChildren p)) ?ns" by (simp add: node_rep_def)
  have L: "load_list m1 (NodeChildren p) = load_list m0 (NodeChildren p)"
    by (rule load_list_frame [OF order_refl]) (rule same_on_mono [OF same], simp add: links_area_def)
  have l1: "list_rep m1 (load_list m1 (NodeChildren p)) ?ns" unfolding L
    by (rule bl.rep_frame [OF l0]) (rule same_on_mono [OF same], simp add: links_area_def image_image)
  have in_t: "links_area p ks \<subseteq> covered (tree_segs m0 t)" by (rule links_area_in [OF x])
  have la: "span (NodeLink a) 8 \<inter> links_area p ks = {}" using link_own [of a] a(2) in_t by blast
  have "unat (NodeLink a) = unat a + 4" using a(1) by (simp add: NodeLink_def fits_def unat_word_ariths)
  then have nz: "NodeLink a \<noteq> 0" by auto
  have disj: "span (NodeLink a) 8 \<inter> span n 8 = {}" if "n \<in> set ?ns" for n
    using la that by (auto simp: links_area_def node_span_def)
  have add: "addable (NodeLink a) ?ns"
    by (rule addable_apart [OF _ _ nz]) (use bl.rep_nodes [OF l1] disj in blast)+
  have pt: "p \<in> set (addrs t)" using node_addr_in [OF x] by simp
  have pk: "span (NodeChildren p) 8 \<inter> span (NodeLink c) 8 = {}" if c: "c \<in> dn_addr ` set ks" for c
  proof (cases "c = p")
    case True
    then show ?thesis using node_parts_apart(4) [of p] by auto
  next
    case False
    have "c \<in> set (addrs t)" using kid_in_tree [OF x] c by auto
    then show ?thesis using tree_nodes_apart [OF sep _ pt False] link_own [of c] node_parts_apart(5) [of p] by auto
  qed
  have "span (NodeChildren p) 8 \<inter> node_span (insert (NodeLink a) (set ?ns)) = {}"
    using pk la by (auto simp: node_span_def links_area_def)
  note A = list_append_spec [OF l1 add this, folded m2_def]
  show "list_rep m2 (load_list m2 (NodeChildren p)) (map NodeLink (map dn_addr ks @ [a]))" using A(1) by simp
  show "same_outside (links_area p ks \<union> span (NodeLink a) 8) m1 m2"
    by (rule same_outside_mono [OF A(2)]) (auto simp: links_area_def node_span_def)
qed

lemma create_linked:
  fixes s s2 :: "'a dt_scheme"
  assumes I: "dt_inv L S s rs fs t bk rsv" and x: "DtNode p nmp ps ks \<in> set (subtrees t)"
    and s2: "heap_inv s2 rs2 fs2" "data_kept rs s s2" "live rs \<subseteq> live rs2" "foot rs2 \<subseteq> foot rs"
    and a: "in_heap rs2 (a, 32)" "fits a 32" "a \<noteq> 0" "load32 (memory s2) a = p"
    and d: "in_heap rs2 (d, length nm + 1)" "fits d (length nm + 1)" "holds (memory s2) d (nm @ [0])" "0 \<notin> set nm"
    and fresh: "span a 32 \<inter> span d (length nm + 1) = {}" "span a 32 \<union> span d (length nm + 1) \<subseteq> foot rs - live_data rs"
    and size: "BlDtStructureSize s' = BlDtStructureSize s2 + BL_DT_NODE_SIZE (of_nat (length nm))"
      "node_size (fdt_of t) + 12 + up4 (length nm + 1) < 2 ^ 32"
  defines "m \<equiv> list_append (NodeChildren p) (NodeLink a) (init_node a d (memory s2))"
  assumes s': "s' = s2\<lparr>memory := m, BlDtStructureSize := BlDtStructureSize s'\<rparr>"
  shows "NodeName m a = d" "holds m d (nm @ [0])"
    "dt_inv L S s' rs2 fs2 (update_node p (add_kid (DtNode a nm [] [])) t) bk rsv"
    "same_on (live_data rs \<union> - foot rs - links_area p ks) (memory s) m"
proof -
  let ?y = "DtNode a nm [] []" let ?K = "live_data rs \<union> - foot rs"
  note T = dt_inv_tables [OF I]
  have rep: "tree_rep UNIV (memory s) 0 t" and dist: "distinct (addrs t)" and root: "dn_addr t = BlDtRootNode L"
    using I by (simp_all add: dt_inv_def)
  have W: "links_area p ks \<subseteq> covered (tree_segs (memory s) t)" by (rule links_area_in [OF x])
  have new_t: "span a 32 \<union> span d (length nm + 1) \<subseteq> - (live_data rs \<union> S)" using fresh(2) T(5) by blast
  have k1: "same_on ?K (memory s) (init_node a d (memory s2))"
    by (rule same_on_trans [OF _ same_outside_on [OF init_node_out]]) (use s2(2) fresh(2) in \<open>auto simp: data_kept_def\<close>)
  have a_t: "span a 32 \<inter> covered (tree_segs (memory s) t) = {}" using new_t T(4) by blast
  have "same_on (links_area p ks) (memory s) (init_node a d (memory s2))" by (rule same_on_mono [OF k1]) (use W T(4,5) in blast)
  note A = link_kid [OF rep T(3) x this a(2) a_t, folded m_def]
  have link_a: "span (NodeLink a) 8 \<inter> ?K = {}" using link_own [of a] fresh(2) by blast
  show kept: "same_on (?K - links_area p ks) (memory s) m"
    by (rule same_on_trans [OF same_on_mono [OF k1] same_outside_on [OF A(2)]]) (use link_a in blast)+
  have Wa: "(links_area p ks \<union> span (NodeLink a) 8) \<inter> (span a 4 \<union> span (a + 12) 4 \<union> span (a + 24) 8 \<union> span (NodeChildren a) 8) = {}"
    using node_parts_apart [of a] W a_t by blast
  have own: "same_on (span a 4 \<union> span (a + 12) 4 \<union> span (a + 24) 8 \<union> span (NodeChildren a) 8) (init_node a d (memory s2)) m"
    by (rule same_outside_on [OF A(2) Wa])
  note N = node_fields_parts [OF same_on_mono [OF own], of a]
  have f: "NodeParent m a = p" "NodeName m a = d" "NodeProperties m a = 0" "NumberOfProperties m a = 0"
    using N init_node_fields [of a d "memory s2"] a(4) by auto
  have fc: "load_list m (NodeChildren a) = BlListInit"
    using load_list_frame [OF order_refl same_on_mono [OF own], of "NodeChildren a"] init_node_fields(3) [of a d "memory s2"] by simp
  show "NodeName m a = d" by (rule f(2))
  have "same_on (span d (length nm + 1)) (memory s2) m"
    by (rule same_on_trans [OF same_outside_on [OF init_node_out] same_outside_on [OF A(2)]])
      (use fresh(1) W new_t T(4) link_own [of a] in blast)+
  then show h: "holds m d (nm @ [0])" using holds_same [OF d(3)] fits_le [OF d(2)] by simp
  note Y = fresh_tree [OF f(1,2) fc f(3,4) a(3) h d(4,2)]
  have same: "same_on (covered (tree_segs (memory s) t) - links_area p ks) (memory s) m"
    by (rule same_on_mono [OF kept]) (use T(4,5) in blast)
  have list: "list_rep m (load_list m (NodeChildren p)) (map NodeLink (map dn_addr ks @ [dn_addr ?y]))" using A(1) by simp
  note U = tree_add_kid [OF rep T(3) dist x same list Y(1)]
  have y_t: "a \<notin> set (addrs t)"
  proof
    assume "a \<in> set (addrs t)"
    from span_in_segs [OF node_in_tree_segs [OF this], of "memory s"] a_t have "span a 32 = {}" by blast
    moreover have "a \<in> span a 32" by simp
    ultimately show False by simp
  qed
  note sums = update_sums [OF dist x, of "add_kid ?y", simplified]
  show "dt_inv L S s' rs2 fs2 (update_node p (add_kid ?y) t) bk rsv"
  proof (rule dt_inv_tree [OF I _ s2(4,3)])
    have mem: "memory s' = m" by (subst s') simp
    show "tree_rep UNIV (memory s') 0 (update_node p (add_kid ?y) t)"
      "tree_segs (memory s') (update_node p (add_kid ?y) t) = tree_segs (memory s) t + {#(a, 32), (d, length nm + 1), (0, 0)#}"
      using U Y(2) by (simp_all add: mem)
    show "dn_addr (update_node p (add_kid ?y) t) = BlDtRootNode L" using update_node_addr [of "add_kid ?y"] root by simp
    have "mset (addrs (update_node p (add_kid ?y) t)) = add_mset a (mset (addrs t))" using sums(1) by simp
    then show "distinct (addrs (update_node p (add_kid ?y) t))"
      using dist y_t mset_eq_imp_distinct_iff [of _ "a # addrs t"] by simp
    show "\<forall>g\<in>#{#(a, 32), (d, length nm + 1), (0, 0)#}. in_heap rs2 g" using a(1) d(1) by (simp add: in_heap_def)
    show "separate {#(a, 32), (d, length nm + 1), (0, 0)#}" using a(2) d(2) fresh(1) by (simp add: separate_add fits_def Int_commute)
    show "covered {#(a, 32), (d, length nm + 1), (0, 0)#} \<inter> (live_data rs \<union> S) = {}" using new_t by auto
    show "same_on (table_area s bk rsv) (memory s) (memory s')"
      unfolding mem by (rule same_on_mono [OF kept]) (use T W in blast)
    have rt: "BlDtRootNode L \<in> set (addrs t)" using node_addr_in [OF self_subtree, of t] root by simp
    have "span (BlDtRootNode L) 32 \<subseteq> covered (tree_segs (memory s) t)" using node_in_segs [of t "memory s"] root by simp
    then have "span (BlDtRootNode L + 12) 4 \<subseteq> ?K - links_area p ks"
      using links_area_apart [OF T(3) x rt] node_parts_apart(5) [of "BlDtRootNode L"] T(4,5) by blast
    from load32_same_on [OF same_on_mono [OF kept this]] show "NodeName (memory s') (BlDtRootNode L) = NodeName (memory s) (BlDtRootNode L)"
      by (simp add: NodeName_def mem)
    have more: "heap.more s2 = heap.more s" using s2(2) by (simp add: data_kept_def)
    show "statics_kept s s'" by (subst s') (simp add: statics_kept_def heap_more_dt [OF more])
    have "mset (props_of (update_node p (add_kid ?y) t)) = mset (props_of t)" using sums(2) by simp
    then have "set (props_of (update_node p (add_kid ?y) t)) = set (props_of t)" by (rule mset_eq_setD)
    then show "\<forall>q\<in>set (props_of (update_node p (add_kid ?y) t)). (dp_entry q, dp_name q) \<in> set (concat bk)" using I by (simp add: dt_inv_def)
    have "same_outside (links_area p ks \<union> span (NodeLink a) 8 \<union> span a 32) (memory s2) m"
      by (rule same_on_trans [OF same_outside_mono [OF init_node_out] same_outside_mono [OF A(2)]]) auto
    moreover have "links_area p ks \<union> span (NodeLink a) 8 \<union> span a 32 \<subseteq> live_data rs2 \<union> - foot rs2"
      using W T(4,5) s2(4) live_data_mono [OF s2(3)] in_heap_span [OF a(1), simplified] link_own [of a] by blast
    ultimately have "heap_inv (s2\<lparr>memory := m\<rparr>) rs2 fs2" by (rule heap_inv_data [OF s2(1)])
    then show "heap_inv s' rs2 fs2" by (subst s') simp
    have st: "BlDtStructureSize s2 = BlDtStructureSize s" using more by (rule heap_more_dt)
    have sz: "unat (BlDtStructureSize s) = node_size (fdt_of t) + 4" using I by (simp add: dt_inv_def)
    have grow: "node_size (fdt_of (update_node p (add_kid ?y) t)) = node_size (fdt_of t) + (8 + up4 (length nm + 1))" using sums(3) by simp
    have "up4 (length nm + 1) < 2 ^ 32" using size(2) by simp
    from align_up4 [OF this] have b: "BL_DT_NODE_SIZE (of_nat (length nm)) = of_nat (8 + up4 (length nm + 1))"
      by (simp add: BL_DT_NODE_SIZE_def add.commute)
    have "BlDtStructureSize s' = of_nat (node_size (fdt_of t) + 4 + (8 + up4 (length nm + 1)))"
      unfolding size(1) st b using of_nat_unat_eq [OF sz] by simp
    then show "unat (BlDtStructureSize s') = node_size (fdt_of (update_node p (add_kid ?y) t)) + 4"
      unfolding grow using size(2) by (simp only: unat_of_nat32)
  qed
qed

text \<open>What a builder's step leaves alone besides the builder's own objects.\<close>

definition builder_kept ::
    "'a dt_scheme \<Rightarrow> block list \<Rightarrow> dt_node \<Rightarrow> dt_string list list \<Rightarrow> (u64 \<times> u64) list \<Rightarrow> 'a dt_scheme \<Rightarrow> block list \<Rightarrow> bool" where
  "builder_kept s rs t bk rsv s' rs' \<longleftrightarrow> foot rs' \<subseteq> foot rs
     \<and> live_data rs - covered (dt_segs s t bk rsv) \<subseteq> live_data rs'
     \<and> same_on (live_data rs \<union> - foot rs - covered (dt_segs s t bk rsv)) (memory s) (memory s')"

lemma BlDtCreateNode_spec:
  fixes s :: "'a dt_scheme"
  assumes I: "dt_inv L S s rs fs t bk rsv" and x: "DtNode p pnm ps ks \<in> set (subtrees t)" and par: "p = (if parent = 0 then BlDtRootNode L else parent)"
    and g: "given rs (memory s) name nm" and size: "node_size (fdt_of t) + 12 + up4 (length nm + 1) < 2 ^ 32"
  shows "BlDtCreateNode L parent name s = crash ''out of memory''
    \<or> (\<exists>a s' rs' fs'. BlDtCreateNode L parent name s = ret (a, s') \<and> dt_inv L S s' rs' fs' (update_node p (add_kid (DtNode a nm [] [])) t) bk rsv
      \<and> builder_kept s rs t bk rsv s' rs')"
proof -
  have inv: "heap_inv s rs fs" using I by (simp add: dt_inv_def)
  note G = givenD [OF g]
  from create_alloc [OF inv g par] show ?thesis
  proof (elim disjE exE conjE)
    fix a d rs2 fs2 and s2 :: "'a dt_scheme"
    let ?m = "list_append (NodeChildren p) (NodeLink a) (init_node a d (memory s2))"
    let ?s' = "s2\<lparr>memory := ?m, BlDtStructureSize := BlDtStructureSize s2 + BL_DT_NODE_SIZE (of_nat (length nm))\<rparr>"
    assume run: "BlDtCreateNode L parent name s = (let m = ?m in Option.bind (BlStringLength m (NodeName m a)) (\<lambda>len.
          ret (a, s2\<lparr>memory := m, BlDtStructureSize := BlDtStructureSize s2 + BL_DT_NODE_SIZE len\<rparr>)))"
      and s2: "heap_inv s2 rs2 fs2" "data_kept rs s s2" "live rs \<subseteq> live rs2" "foot rs2 \<subseteq> foot rs"
      and a: "in_heap rs2 (a, 32)" "fits a 32" "a \<noteq> 0" "load32 (memory s2) a = p"
      and d: "in_heap rs2 (d, length nm + 1)" "fits d (length nm + 1)" "holds (memory s2) d (nm @ [0])"
      and fresh: "span a 32 \<inter> span d (length nm + 1) = {}" "span a 32 \<union> span d (length nm + 1) \<subseteq> foot rs - live_data rs"
    note C = create_linked [OF I x s2 a d G(3) fresh _ size, of ?s', simplified]
    have "c_string ?m d nm" using c_string_holds G(3) C(2) by blast
    then have "BlStringLength ?m (NodeName ?m a) = Some (of_nat (length nm))" unfolding C(1) by (rule BlStringLength_c_string)
    then have "BlDtCreateNode L parent name s = ret (a, ?s')" by (simp add: run)
    moreover have "builder_kept s rs t bk rsv ?s' rs2"
      using C(4) links_area_in [OF x, of "memory s"] s2(4) live_data_mono [OF s2(3)]
      by (auto simp: builder_kept_def dt_segs_def intro: same_on_mono)
    ultimately show ?thesis using C(3) by blast
  qed simp
qed

section \<open>Finding a node\<close>

text \<open>The first child of a name, or none.\<close>

definition find_kid :: "u8 list \<Rightarrow> dt_node list \<Rightarrow> u32" where
  "find_kid nm ks = (case find (\<lambda>k. dn_name k = nm) ks of None \<Rightarrow> 0 | Some k \<Rightarrow> dn_addr k)"

lemma find_kid_simps [simp]: "find_kid nm [] = 0" "find_kid nm (k # ks) = (if dn_name k = nm then dn_addr k else find_kid nm ks)"
  by (simp_all add: find_kid_def)

lemma tree_name:
  assumes "tree_rep R m par k"
  shows "c_string m (NodeName m (dn_addr k)) (dn_name k)" "dn_addr k \<noteq> 0"
  using assms by (cases k; auto simp: node_rep_def bytes_at_def name_ok_def intro: c_string_holds)+

lemma BlCompareStrings_eq:
  assumes "c_string m a xs" "c_string m b ys"
  obtains r where "BlCompareStrings m a b = Some r" "r = 0 \<longleftrightarrow> xs = ys"
  using strcmp_c_string [OF assms] by (auto simp: BlCompareStrings_def)

lemma find_child_from:
  assumes rep: "node_rep R m par p pnm ps (map dn_addr ks)" and kids: "\<forall>k\<in>set ks. tree_rep R m p k" and name: "c_string m name nm"
  shows "ks = xs @ ys \<Longrightarrow> find_child m name (first_addr ys) = Some (find_kid nm ys)"
proof (induction ys arbitrary: xs)
  case (Cons k ys)
  have k: "tree_rep R m p k" using kids Cons.prems by simp
  obtain r where r: "BlCompareStrings m (NodeName m (dn_addr k)) name = Some r" "r = 0 \<longleftrightarrow> dn_name k = nm"
    by (rule BlCompareStrings_eq [OF tree_name(1) [OF k] name])
  have "SiblingNext m (dn_addr k) = first_addr ys" by (rule first_kid(2) [OF rep Cons.prems])
  moreover have "find_child m name (first_addr ys) = Some (find_kid nm ys)" by (rule Cons.IH [of "xs @ [k]"]) (simp add: Cons.prems)
  moreover have "first_addr (k # ys) = dn_addr k" by (simp add: first_addr_def)
  ultimately show ?case using r tree_name(2) [OF k] by (subst find_child.simps) simp
qed (simp add: first_addr_def find_child.simps)

lemma BlDtFindNode_spec:
  fixes s :: "'a dt_scheme"
  assumes rep: "tree_rep R (memory s) 0 t" and x: "DtNode p pnm ps ks \<in> set (subtrees t)" and name: "c_string (memory s) name nm"
    and par: "p = (if parent = 0 then BlDtRootNode L else parent)"
  shows "BlDtFindNode L parent name s = Some (find_kid nm ks)"
proof -
  obtain par where n: "node_rep R (memory s) par p pnm ps (map dn_addr ks)" and k: "\<forall>k\<in>set ks. tree_rep R (memory s) p k"
    using subtree_rep [OF rep x] by auto
  have "find_child (memory s) name (first_addr ks) = Some (find_kid nm ks)" by (rule find_child_from [OF n k name, of "[]"]) simp
  then show ?thesis using first_kid(1) [OF n] by (simp add: BlDtFindNode_def par [symmetric])
qed

section \<open>Finding or creating\<close>

lemma find_kid_none: "(\<forall>k\<in>set ks. dn_addr k \<noteq> 0) \<Longrightarrow> find_kid nm ks = 0 \<longleftrightarrow> nm \<notin> dn_name ` set ks"
  by (induction ks) auto

lemma find_kid_found: "nm \<in> dn_name ` set ks \<Longrightarrow> \<exists>k\<in>set ks. dn_name k = nm \<and> find_kid nm ks = dn_addr k"
  by (induction ks) auto

text \<open>
  C7. Find or create: under the builder's invariant, with a parent in the tree and a name that allocations leave alone, a child that
  already has the name is returned and nothing changes. Otherwise the heap is exhausted, or the node returned is a new last child of the parent
  with that name, no properties and no children; the rest of the tree is as it was, the invariant (a well-formed tree, table, heap,
  and the size the blob will take) holds again, and memory outside the builder's own objects is kept.
\<close>

theorem BlDtFindOrCreateNode_correct:
  fixes s :: "'a dt_scheme"
  assumes I: "dt_inv L S s rs fs t bk rsv" and x: "DtNode p pnm ps ks \<in> set (subtrees t)" and par: "p = (if parent = 0 then BlDtRootNode L else parent)"
    and g: "given rs (memory s) name nm" and size: "node_size (fdt_of t) + 12 + up4 (length nm + 1) < 2 ^ 32"
  shows "if nm \<in> dn_name ` set ks
    then \<exists>k\<in>set ks. dn_name k = nm \<and> BlDtFindOrCreateNode L parent name s = ret (dn_addr k, s)
    else BlDtFindOrCreateNode L parent name s = crash ''out of memory''
      \<or> (\<exists>a s' rs' fs'. BlDtFindOrCreateNode L parent name s = ret (a, s') \<and> a \<notin> set (addrs t)
          \<and> dt_inv L S s' rs' fs' (update_node p (add_kid (DtNode a nm [] [])) t) bk rsv \<and> builder_kept s rs t bk rsv s' rs')"
proof -
  have rep: "tree_rep UNIV (memory s) 0 t" and dist: "distinct (addrs t)" using I by (simp_all add: dt_inv_def)
  have name: "c_string (memory s) name nm" using g by (simp add: given_def)
  have find: "BlDtFindOrCreateNode L parent name s = (if find_kid nm ks = 0 then BlDtCreateNode L parent name s else ret (find_kid nm ks, s))"
    by (simp add: BlDtFindOrCreateNode_def BlDtFindNode_spec [OF rep x name par])
  obtain q where "tree_rep UNIV (memory s) q (DtNode p pnm ps ks)" using subtree_rep [OF rep x] by blast
  then have kids: "\<forall>k\<in>set ks. dn_addr k \<noteq> 0" using tree_name(2) by auto
  have fresh: "a \<notin> set (addrs t)" if "dt_inv L S s' rs' fs' (update_node p (add_kid (DtNode a nm [] [])) t) bk rsv" for a rs' fs' and s' :: "'a dt_scheme"
  proof -
    have "distinct (addrs (update_node p (add_kid (DtNode a nm [] [])) t))" using that by (simp add: dt_inv_def)
    moreover have "mset (addrs (update_node p (add_kid (DtNode a nm [] [])) t)) = mset (a # addrs t)"
      using update_sums(1) [OF dist x, of "add_kid (DtNode a nm [] [])"] by simp
    ultimately show ?thesis using mset_eq_imp_distinct_iff [of _ "a # addrs t"] by simp
  qed
  show ?thesis
  proof (cases "nm \<in> dn_name ` set ks")
    case True
    then show ?thesis using find_kid_found [OF True] kids find by auto
  next
    case False
    then have "find_kid nm ks = 0" using find_kid_none [OF kids] by blast
    then show ?thesis using BlDtCreateNode_spec [OF I x par g size] fresh False unfolding find by (simp only: if_True if_False refl) blast
  qed
qed

end
