(* ===== verification/Tree_Start.thy ===== *)
theory Tree_Start
  imports Tree_Nodes
begin

text \<open>The device tree as it is linked, and a node created in it on a concrete heap.\<close>

lemma fits_one: "fits a (Suc 0)"
  using unat_lt32 [of a] by (simp add: fits_def)

section \<open>The tree at the start\<close>

text \<open>The statics as they are linked: a root with an empty name, no child and no property, and an empty table.\<close>

lemma dt_inv_init:
  assumes heap: "heap_inv s rs fs" and S: "S \<inter> foot rs = {}" "covered (root_segs L (memory s)) \<subseteq> S" "separate (root_segs L (memory s))"
    and root: "NodeParent (memory s) r = 0" "load_list (memory s) (NodeChildren r) = BlListInit" "NodeProperties (memory s) r = 0"
      "NumberOfProperties (memory s) r = 0" "memory s (NodeName (memory s) r) = 0" "r \<noteq> 0" "BlDtRootNode L = r"
  shows "dt_inv L S (dt_init s) rs fs (DtNode r [] [] []) [] []"
proof -
  have "heap_inv (dt_init s) rs fs = heap_inv s rs fs" by (simp add: dt_init_def heap_inv_def heap_rep_def)
  moreover have "tree_rep UNIV (memory s) 0 (DtNode r [] [] [])"
    using root BlListInit_rep [of "memory s"] by (simp add: node_rep_def bytes_at_def name_ok_def holds_Cons fits_one)
  moreover have "dt_segs (dt_init s) (DtNode r [] [] []) [] [] = root_segs L (memory s) + {#(0, 0), (0, 0), (0, 0)#}"
    using root by (simp add: dt_segs_def root_segs_def node_segs_def dt_init_def string_segs_def)
  moreover have "fits (0 :: u32) 0" by (simp add: fits_def)
  ultimately show ?thesis
    using heap S root unfolding dt_inv_def
    by (auto simp: dt_init_def separate_add table_inv_def strings_rep_def rsv_rep_def in_heap_def separate_union up4_def)
qed

definition start_mem :: mem where
  "start_mem = fold (\<lambda>(a, v) m. store32 m a v) [(0x400C, 0x4040), (0x4080, 0x757063)] (memory page_heap)"

definition start_state :: "'a dt_scheme \<Rightarrow> 'a dt_scheme" where
  "start_state s = dt_init (s\<lparr>memory := start_mem, BlHeapRanges := BlHeapRanges page_heap, BlFreeRanges := BlFreeRanges page_heap\<rparr>)"

definition start_root :: dt_node where "start_root = DtNode 0x4000 [] [] []"

lemma start_words:
  "load32 start_mem 0x4000 = 0" "load32 start_mem 0x400C = 0x4040" "load32 start_mem 0x4010 = 0" "load32 start_mem 0x4014 = 0"
  "load32 start_mem 0x4018 = 0" "load32 start_mem 0x401C = 0"
  by (simp_all add: start_mem_def page_heap_low load32_apart)

lemma start_names: "c_string start_mem 0x4080 (bytes ''cpu'')" "start_mem 0x4040 = 0"
  by (simp_all add: bytes_def start_mem_def store32_byte page_heap_zero)

lemma start_inv:
  fixes s :: "'a dt_scheme"
  shows "dt_inv (tree_statics L) (span 0x4000 0x41) (start_state s) [(0x10000, 0x20000, True)] [0x10000] start_root [] []"
proof -
  have out: "same_outside (span 0x4000 0x100) (memory page_heap) start_mem"
    unfolding start_mem_def fold_simps prod.case by (rule store32_span span_within same_on_refl | simp)+
  have "span 0x4000 0x100 \<inter> header_span (bases [(0x10000, 0x20000, True)]) = {}"
    by (rule equals0I) (auto simp: header_span_def span_fits fits_def)
  moreover have "span 0x4000 0x100 \<inter> table_span (memory page_heap) 0x8000 = {}"
    unfolding page_heap_table_span by (rule equals0I) (auto simp: span_fits fits_def)
  note heap_inv_write [OF page_heap_inv page_heap_tables out calculation this]
  then have inv: "heap_inv (s\<lparr>memory := start_mem, BlHeapRanges := BlHeapRanges page_heap, BlFreeRanges := BlFreeRanges page_heap\<rparr>)
      [(0x10000, 0x20000, True)] [0x10000]"
    by (simp add: heap_inv_def heap_rep_def)
  have R: "root_segs (tree_statics L) start_mem = {#(0x4000, 32), (0x4040, 1)#}"
    by (simp add: root_segs_def tree_statics_def NodeName_def start_words)
  show ?thesis unfolding start_state_def start_root_def
  proof (rule dt_inv_init [OF inv])
    show "span 0x4000 0x41 \<inter> foot [(0x10000, 0x20000, True)] = {}"
      by (rule equals0I) (auto simp: span_fits fits_def area_def word_le_nat_alt)
    show "BlDtRootNode (tree_statics L) = 0x4000" by (simp add: tree_statics_def)
  qed (simp_all add: R start_words start_names NodeParent_def NodeName_def NodeProperties_def NumberOfProperties_def NodeChildren_def load_list_def BlListInit_def
      separate_add span_within fits_def disjoint_iff span_fits)
qed

lemma start_given: "given [(0x10000, 0x20000, True)] start_mem 0x4080 (bytes ''cpu'')"
proof -
  have "span 0x4080 4 \<subseteq> - foot [(0x10000, 0x20000, True)]" by (auto simp: span_fits fits_def area_def word_le_nat_alt)
  moreover have "length (bytes ''cpu'') + 1 = 4" by (simp add: bytes_def)
  ultimately show ?thesis using start_names(1) by (auto simp: given_def fits_def)
qed

definition start_dt :: dt where
  "start_dt = start_state \<lparr>memory = memory page_heap, BlHeapRanges = BlListInit, BlFreeRanges = BlListInit, BiOptions = [], console = [],
     BiBCacheUsed = 0, BiBCache = BlListInit, BlRootPartition = \<lparr>Start = 0, PartSize = 0\<rparr>, BiBlockSize = 0, BiBgdtLocation = 0, BiInodeShift = 0,
     BiIndirectionShift = 0, BiIndirectionCount = 0, BiIndirectionMask = 0, BlDtRsvMem = 0, BlDtRsvMemCount = 0, BlDtStrings = 0,
     BlDtStringsCount = 0, BlDtStringsCapacity = 0, BlDtStringsSize = 0, BlDtStructureSize = 0, next_phandle = 0\<rparr>"

definition start_statics :: dt_statics where
  "start_statics = tree_statics \<lparr>BiBCacheMeta = 0, BiBCacheData = 0, BiSuperblock = 0, BiRoot = 0, local_groupDescriptor = 0,
     local_value = 0, local_entry = 0, BlDtRootNode = 0, BlKernelHeader = 0, BlPageTable = 0\<rparr>"

text \<open>Evaluating the allocator where the first free range has room.\<close>

lemma first_range_ret:
  assumes "Head (BlFreeRanges s) = b + 8" "b \<noteq> 0" "b + 8 \<noteq> 0" "RangeEnd (memory s) b = e" "sz \<noteq> 0"
    "al = (if q < HEAP_ALIGNMENT then HEAP_ALIGNMENT else q)" "n = BL_ALIGN_UP sz HEAP_ALIGNMENT" "v = BL_ALIGN_UP (b + 24) al"
    "\<not> v + n < v - 24" "\<not> v - 24 < b" "\<not> e \<le> v + n"
  shows "BlAllocateHeap sz q False s = ret (v, carve b False (v - 24) (v + n) s)"
  using assms(1-5,9-) unfolding BlAllocateHeap_def assms(6-8) by (simp add: Let_def BL_CONTAINER_def alloc_from.simps [of _ _ _ b] SIZEOF_HeapRange_def)


text \<open>The creation at work: the first free range has room for both objects.\<close>

declare strlen_from.simps [code]

lemma start_alloc:
  "case BlAllocateHeap SIZEOF_BlDtNode 4 False start_dt of
     Some (Inr (a, s)) \<Rightarrow> Head (BlFreeRanges s) = 0x10038 + 8 \<and> (let m = store32 (memory s) a 0x4000 in
       RangeEnd m 0x10038 = 0x20000 \<and> BlStringLength m 0x4080 = Some 3)
   | _ \<Rightarrow> False"
  by code_simp

lemma start_create: "BlDtCreateNode start_statics 0 0x4080 start_dt \<noteq> crash ''out of memory''"
proof -
  obtain a s where A: "BlAllocateHeap SIZEOF_BlDtNode 4 False start_dt = ret (a, s)" "Head (BlFreeRanges s) = 0x10038 + 8"
    "RangeEnd (store32 (memory s) a 0x4000) 0x10038 = 0x20000" "BlStringLength (store32 (memory s) a 0x4000) 0x4080 = Some 3"
    using start_alloc by (auto simp: ret_def Let_def split: option.splits sum.splits)
  have "BL_ALIGN_UP 0x10050 4 = (0x10050 :: u32)" "BL_ALIGN_UP 4 4 = (4 :: u32)" by code_simp+
  then have "BlAllocateHeap 4 1 False (s\<lparr>memory := store32 (memory s) a 0x4000\<rparr>)
      = ret (0x10050, carve 0x10038 False 0x10038 0x10054 (s\<lparr>memory := store32 (memory s) a 0x4000\<rparr>))"
    using A by (subst first_range_ret [where b = "0x10038" and e = "0x20000" and v = "0x10050" and n = 4]) (simp_all add: HEAP_ALIGNMENT_def)
  moreover have "BlDtRootNode start_statics = 0x4000" by (simp add: start_statics_def tree_statics_def)
  moreover have "Option.bind x (\<lambda>l. ret (f l)) \<noteq> crash c" for x :: "u32 option" and f :: "u32 \<Rightarrow> u32 \<times> dt" and c
    by (cases x) (simp_all add: crash_def ret_def)
  ultimately show ?thesis using A by (simp add: BlDtCreateNode_def BlDuplicateString_def Let_def)
qed

theorem BlDtFindOrCreateNode_correct_witness:
  "\<exists>a s' rs' fs'. BlDtFindOrCreateNode start_statics 0 0x4080 start_dt = ret (a, s') \<and> a \<noteq> 0x4000
    \<and> dt_inv start_statics (span 0x4000 0x41) s' rs' fs' (DtNode 0x4000 [] [] [DtNode a (bytes ''cpu'') [] []]) [] []"
proof -
  have I: "dt_inv start_statics (span 0x4000 0x41) start_dt [(0x10000, 0x20000, True)] [0x10000] start_root [] []"
    unfolding start_statics_def start_dt_def by (rule start_inv)
  have x: "DtNode 0x4000 [] [] [] \<in> set (subtrees start_root)" by (simp add: start_root_def)
  have par: "0x4000 = (if 0 = 0 then BlDtRootNode start_statics else 0)" by (simp add: start_statics_def tree_statics_def)
  have g: "given [(0x10000, 0x20000, True)] (memory start_dt) 0x4080 (bytes ''cpu'')"
    using start_given by (simp add: start_dt_def start_state_def dt_init_def)
  have size: "node_size (fdt_of start_root) + 12 + up4 (length (bytes ''cpu'') + 1) < 2 ^ 32"
    by (simp add: start_root_def up4_def bytes_def)
  have "tree_rep UNIV (memory start_dt) 0 start_root" "c_string (memory start_dt) 0x4080 (bytes ''cpu'')" using I g by (simp_all add: dt_inv_def given_def)
  then have "BlDtFindNode start_statics 0 0x4080 start_dt = Some 0" using BlDtFindNode_spec [OF _ x _ par] by simp
  then have "BlDtFindOrCreateNode start_statics 0 0x4080 start_dt \<noteq> crash ''out of memory''"
    using start_create by (simp add: BlDtFindOrCreateNode_def)
  then show ?thesis using BlDtFindOrCreateNode_correct [OF I x par g size] by (auto simp: start_root_def)
qed

end
