(* ===== verification/Heap_Objects.thy ===== *)
theory Heap_Objects
  imports Tree_Build
begin

text \<open>
  Steps that replace some objects on the heap by others. All other live ranges stay, with their contents, and the new objects lie in
  ranges of their own, so that what is known of objects elsewhere is kept without looking at the step again.
\<close>

section \<open>Ranges and their owners\<close>

definition owned :: "seg multiset \<Rightarrow> block list \<Rightarrow> (u32 \<times> u32) set" where
  "owned M rs = {r \<in> live rs. \<exists>g\<in>#M. 0 < snd g \<and> fst r = fst g - 24}"

text \<open>The memory apart from the objects: ranges of others, and what the heap does not cover.\<close>

abbreviation others :: "seg multiset \<Rightarrow> block list \<Rightarrow> u32 set" where
  "others M rs \<equiv> data_of (live rs - owned M rs) \<union> - foot rs"

definition replaces :: "seg multiset \<Rightarrow> 'a heap_scheme \<Rightarrow> block list \<Rightarrow> seg multiset \<Rightarrow> 'a heap_scheme \<Rightarrow> block list \<Rightarrow> bool" where
  "replaces M s rs M' s' rs' \<longleftrightarrow> foot rs' \<subseteq> foot rs \<and> live rs - owned M rs \<subseteq> live rs'
     \<and> same_on (others M rs) (memory s) (memory s')
     \<and> separate M' \<and> (\<forall>g\<in>#M'. in_heap rs' g) \<and> owned M' rs' \<inter> (live rs - owned M rs) = {}"

lemma owned_simps [simp]: "owned {#} rs = {}" "owned (M + N) rs = owned M rs \<union> owned N rs"
  "owned (add_mset g M) rs = {r \<in> live rs. 0 < snd g \<and> fst r = fst g - 24} \<union> owned M rs"
  by (auto simp: owned_def)

lemma owned_live: "owned M rs \<subseteq> live rs"
  by (auto simp: owned_def)

lemma live_areas_apart:
  assumes inv: "heap_inv s rs fs" and l: "(b, e) \<in> live rs" "(c, d) \<in> live rs" "b \<noteq> c"
  shows "area (b + 24) e \<inter> area (c + 24) d = {}"
proof -
  have ord: "ordered 1 rs" using inv by (simp add: heap_inv_def)
  have m: "(b, e, False) \<in> set rs" "(c, d, False) \<in> set rs" using l by (auto simp: live_def)
  obtain xs ys where rs: "rs = xs @ (b, e, False) # ys" using split_list [OF m(1)] by blast
  have "(c, d, False) \<in> set (xs @ ys)" using m(2) l(3) by (auto simp: rs)
  then have "area c d \<subseteq> foot xs \<union> foot ys" by (force simp: foot_def)
  moreover have "area b e \<inter> (foot xs \<union> foot ys) = {}" by (rule area_foot_disjoint [OF ord [unfolded rs]]) simp_all
  moreover have "area (b + 24) e \<subseteq> area b e" "area (c + 24) d \<subseteq> area c d"
    using live_bounds(5) [OF inv l(1)] live_bounds(5) [OF inv l(2)] by (auto simp: area_def word_le_nat_alt)
  ultimately show ?thesis by blast
qed

lemma in_heap_block:
  assumes "in_heap rs g" "0 < snd g"
  obtains e where "(fst g - 24, e) \<in> live rs" "span (fst g) (snd g) \<subseteq> area (fst g - 24 + 24) e"
proof -
  obtain e where e: "(fst g - 24, e) \<in> live rs" "unat (fst g) + snd g \<le> unat e" using assms by (auto simp: in_heap_def)
  then show ?thesis using span_area [of "fst g" "fst g" "snd g" e] by (intro that) simp_all
qed

text \<open>The data of ranges nobody owns is not covered by the objects.\<close>

lemma owned_apart:
  assumes inv: "heap_inv s rs fs" and M: "\<forall>g\<in>#M. in_heap rs g"
  shows "data_of (live rs - owned M rs) \<inter> covered M = {}"
proof -
  have "area (b + 24) e \<inter> span (fst g) (snd g) = {}" if be: "(b, e) \<in> live rs - owned M rs" and g: "g \<in># M" for b e g
  proof (cases "snd g = 0")
    case False
    then obtain d where d: "(fst g - 24, d) \<in> live rs" "span (fst g) (snd g) \<subseteq> area (fst g - 24 + 24) d"
      using in_heap_block [of rs g] M g by auto
    have "b \<noteq> fst g - 24" using be g False by (auto simp: owned_def)
    from live_areas_apart [OF inv _ d(1) this] d(2) be show ?thesis by blast
  qed simp
  then show ?thesis by (fastforce simp: data_of_def covered_def)
qed

lemma owned_data: "\<forall>g\<in>#M. in_heap rs g \<Longrightarrow> covered M \<subseteq> live_data rs"
  using in_heap_span unfolding covered_def by blast

lemma replaces_others:
  assumes r: "replaces M s rs M' s' rs'" and inv: "heap_inv s' rs' fs'"
  shows "covered M' \<inter> others M rs = {}" "others M rs \<subseteq> others M' rs'" "same_on (others M rs) (memory s) (memory s')"
proof -
  have sub: "live rs - owned M rs \<subseteq> live rs' - owned M' rs'" and ft: "foot rs' \<subseteq> foot rs" and h: "\<forall>g\<in>#M'. in_heap rs' g"
    using r by (auto simp: replaces_def)
  then show o: "others M rs \<subseteq> others M' rs'" using data_of_mono [OF sub] by blast
  have "ordered 1 rs'" using inv by (simp add: heap_inv_def)
  then have "covered M' \<subseteq> foot rs'" using owned_data [OF h] live_data_in_foot by blast
  then show "covered M' \<inter> others M rs = {}" using owned_apart [OF inv h] data_of_mono [OF sub] ft by blast
  show "same_on (others M rs) (memory s) (memory s')" using r by (simp add: replaces_def)
qed

lemma others_kept: "heap_inv s rs fs \<Longrightarrow> others M rs \<subseteq> live_data rs \<union> - foot rs"
  using data_of_mono [of "live rs - owned M rs" "live rs"] by (auto simp: live_data_data_of)

text \<open>A string outside the objects.\<close>

definition given_in :: "u32 set \<Rightarrow> mem \<Rightarrow> u32 \<Rightarrow> u8 list \<Rightarrow> bool" where
  "given_in K m a nm \<longleftrightarrow> c_string m a nm \<and> fits a (length nm + 1) \<and> length nm + 1 \<le> 2 ^ 32 - 28 \<and> span a (length nm + 1) \<subseteq> K"

lemma given_in_mono: "given_in K m a nm \<Longrightarrow> K \<subseteq> K' \<Longrightarrow> given_in K' m a nm"
  by (auto simp: given_in_def)

lemma given_in_given: "given_in K m a nm \<Longrightarrow> K \<subseteq> live_data rs \<union> - foot rs \<Longrightarrow> given rs m a nm"
  by (auto simp: given_in_def given_def)

lemma given_in_same:
  assumes "given_in K m a nm" "same_on K m m'"
  shows "given_in K m' a nm"
proof -
  have s: "same_on (span a (length nm + 1)) m m'" by (rule same_on_mono [OF assms(2)]) (use assms(1) in \<open>simp add: given_in_def\<close>)
  have h: "holds m a (nm @ [0])" "0 \<notin> set nm" "length nm + 1 < 2 ^ 32" using assms(1) c_string_of_holds [of m a nm] by (auto simp: given_in_def)
  have "holds m' a (nm @ [0])" using holds_same [OF h(1)] s h(3) by simp
  then show ?thesis using assms(1) c_string_holds h(2) by (auto simp: given_in_def)
qed

lemma given_inD: "given_in K m a nm \<Longrightarrow> c_string m a nm" "given_in K m a nm \<Longrightarrow> BlStringLength m a = Some (of_nat (length nm))"
  by (auto simp: given_in_def BlStringLength_c_string)

section \<open>Steps in sequence, and beside other objects\<close>

lemma replaces_trans:
  assumes a: "replaces M s rs M1 s1 rs1" and b: "replaces M1 s1 rs1 M2 s2 rs2"
  shows "replaces M s rs M2 s2 rs2"
proof -
  have sub: "live rs - owned M rs \<subseteq> live rs1 - owned M1 rs1" using a by (auto simp: replaces_def)
  have "data_of (live rs - owned M rs) \<union> - foot rs \<subseteq> data_of (live rs1 - owned M1 rs1) \<union> - foot rs1"
    using data_of_mono [OF sub] a by (auto simp: replaces_def)
  then have "same_on (data_of (live rs - owned M rs) \<union> - foot rs) (memory s) (memory s2)"
    using a b same_on_mono same_on_trans unfolding replaces_def by meson
  then show ?thesis using a b sub by (auto simp: replaces_def)
qed

lemma replaces_frame:
  assumes r: "replaces M s rs M' s' rs'" and inv: "heap_inv s rs fs" "heap_inv s' rs' fs'"
    and O: "\<forall>g\<in>#Fr. in_heap rs g" and sep: "separate Fr" "covered M \<inter> covered Fr = {}"
  shows "replaces (M + Fr) s rs (M' + Fr) s' rs'" "same_on (covered Fr) (memory s) (memory s')"
proof -
  have free: "owned Fr rs \<inter> owned M rs = {}"
  proof -
    have "\<not> (g \<in># M \<and> h \<in># Fr \<and> 0 < snd g \<and> 0 < snd h \<and> fst g = fst h)" for g h
    proof
      assume "g \<in># M \<and> h \<in># Fr \<and> 0 < snd g \<and> 0 < snd h \<and> fst g = fst h"
      then have "fst g \<in> covered M \<inter> covered Fr" by (force simp: covered_def)
      then show False using sep(2) by blast
    qed
    moreover have "fst g = fst h" if "fst g - 24 = fst h - 24" for g h :: seg using that by simp
    ultimately show ?thesis unfolding owned_def by fastforce
  qed
  have sub: "owned Fr rs \<subseteq> live rs - owned M rs" using free owned_live by blast
  have kept: "live rs - owned M rs \<subseteq> live rs'" using r by (simp add: replaces_def)
  have in': "in_heap rs' h" if h: "h \<in># Fr" for h
  proof (cases "snd h = 0")
    case False
    have "in_heap rs h" using O h by blast
    then obtain e where e: "(fst h - 24, e) \<in> live rs" "unat (fst h) + snd h \<le> unat e" "unat e < unat (fst h) + (snd h + 3) div 4 * 4 + 24"
      using False by (auto simp: in_heap_def)
    then have "(fst h - 24, e) \<in> owned Fr rs" using h False by (auto simp: owned_def)
    then show ?thesis using e False sub kept by (auto simp: in_heap_def)
  qed (use O h in \<open>auto simp: in_heap_def\<close>)
  have own_same: "owned Fr rs' \<subseteq> owned Fr rs"
  proof
    fix r assume "r \<in> owned Fr rs'"
    then obtain b e h where r: "r = (b, e)" "(b, e) \<in> live rs'" "h \<in># Fr" "0 < snd h" "b = fst h - 24" by (cases r) (auto simp: owned_def)
    have "in_heap rs h" using O r(3) by blast
    then obtain d where d: "(b, d) \<in> live rs" using r(4,5) by (auto simp: in_heap_def)
    then have "(b, d) \<in> owned Fr rs" using r by (auto simp: owned_def)
    moreover then have "(b, d) \<in> live rs'" using sub kept by blast
    ultimately show "r \<in> owned Fr rs" using live_unique [OF inv(2) r(2)] r(1) by auto
  qed
  have cov: "covered Fr \<subseteq> data_of (live rs - owned M rs)"
  proof -
    have "span (fst h) (snd h) \<subseteq> data_of (live rs - owned M rs)" if h: "h \<in># Fr" for h
    proof (cases "snd h = 0")
      case False
      then obtain e where e: "(fst h - 24, e) \<in> live rs" "span (fst h) (snd h) \<subseteq> area (fst h - 24 + 24) e"
        using in_heap_block [of rs h] O h by auto
      then have "(fst h - 24, e) \<in> owned Fr rs" using h False by (auto simp: owned_def)
      then have "(fst h - 24, e) \<in> live rs - owned M rs" using sub by blast
      then show ?thesis using e(2) unfolding data_of_def by fastforce
    qed simp
    then show ?thesis unfolding covered_def by blast
  qed
  have "span (fst g) (snd g) \<inter> span (fst h) (snd h) = {}" if g: "g \<in># M'" and h: "h \<in># Fr" for g h
  proof (cases "snd g = 0 \<or> snd h = 0")
    case False
    have "in_heap rs' g" using r g by (simp add: replaces_def)
    then obtain d where d: "(fst g - 24, d) \<in> live rs'" "span (fst g) (snd g) \<subseteq> area (fst g - 24 + 24) d"
      using in_heap_block [of rs' g] False by auto
    obtain e where e: "(fst h - 24, e) \<in> live rs'" "span (fst h) (snd h) \<subseteq> area (fst h - 24 + 24) e"
      using in_heap_block [of rs' h] in' [OF h] False by auto
    have "(fst h - 24, e) \<in> owned Fr rs'" using e(1) h False by (auto simp: owned_def)
    then have "(fst h - 24, e) \<in> owned Fr rs" using own_same by blast
    then have "(fst h - 24, e) \<in> live rs - owned M rs" using sub by blast
    moreover have "(fst g - 24, d) \<in> owned M' rs'" using d(1) g False by (auto simp: owned_def)
    ultimately have "fst g - 24 \<noteq> fst h - 24" using live_unique [OF inv(2) d(1)] e(1) r by (auto simp: replaces_def)
    from live_areas_apart [OF inv(2) d(1) e(1) this] d(2) e(2) show ?thesis by blast
  qed auto
  then have disj: "covered M' \<inter> covered Fr = {}" unfolding covered_def by blast
  show same: "same_on (covered Fr) (memory s) (memory s')"
    by (rule same_on_mono [of "data_of (live rs - owned M rs) \<union> - foot rs"]) (use r cov in \<open>auto simp: replaces_def\<close>)
  show "replaces (M + Fr) s rs (M' + Fr) s' rs'" unfolding replaces_def
  proof (intro conjI)
    have less: "live rs - owned (M + Fr) rs \<subseteq> live rs - owned M rs" by auto
    then show "live rs - owned (M + Fr) rs \<subseteq> live rs'" using kept by blast
    show "same_on (data_of (live rs - owned (M + Fr) rs) \<union> - foot rs) (memory s) (memory s')"
      by (rule same_on_mono [of "data_of (live rs - owned M rs) \<union> - foot rs"]) (use r data_of_mono [OF less] in \<open>auto simp: replaces_def\<close>)
    show "separate (M' + Fr)" using r sep(1) disj by (simp add: replaces_def separate_union)
    show "\<forall>g\<in>#M' + Fr. in_heap rs' g" using r in' by (auto simp: replaces_def)
    show "owned (M' + Fr) rs' \<inter> (live rs - owned (M + Fr) rs) = {}" using r own_same by (auto simp: replaces_def)
  qed (use r in \<open>simp add: replaces_def\<close>)
qed

section \<open>Single steps\<close>

lemma heap_inv_alike:
  "memory s' = memory s \<Longrightarrow> BlHeapRanges s' = BlHeapRanges s \<Longrightarrow> BlFreeRanges s' = BlFreeRanges s \<Longrightarrow> heap_inv s' rs fs = heap_inv s rs fs"
  by (simp add: heap_inv_def heap_rep_def)

lemma in_heap_0 [simp]: "in_heap rs (p, 0) \<longleftrightarrow> p = 0"
  by (simp add: in_heap_def)

lemma in_heapD:
  assumes inv: "heap_inv s rs fs" and g: "in_heap rs (p, n)" "0 < n"
  obtains e where "(p - 24, e) \<in> live rs" "unat p + n \<le> unat e" "unat e < unat p + (n + 3) div 4 * 4 + 24" "fits p n" "p \<noteq> 0" "24 \<le> unat p"
    "unat (p - 24) + 24 = unat p"
proof -
  obtain e where e: "(p - 24, e) \<in> live rs" "unat p + n \<le> unat e" "unat e < unat p + (n + 3) div 4 * 4 + 24"
    using g by (auto simp: in_heap_def)
  note b = live_bounds [OF inv e(1)]
  have "unat p = unat (p - 24) + 24" using b(5) by simp
  moreover have "fits p n" using e(2) unat_lt32 [of e] by (simp add: fits_def)
  moreover have "p \<noteq> 0" using b(6) by simp
  ultimately show ?thesis using e by (intro that) simp_all
qed

lemma heap_segs_fit: "heap_inv s rs fs \<Longrightarrow> in_heap rs g \<Longrightarrow> fits (fst g) (snd g)"
proof (cases "snd g = 0")
  case False
  assume "heap_inv s rs fs" "in_heap rs g"
  then show ?thesis using in_heapD [of s rs fs "fst g" "snd g"] False by simp metis
qed (use unat_lt32 [of "fst g"] in \<open>simp add: fits_def\<close>)

text \<open>Writing to objects.\<close>

lemma replaces_write:
  assumes inv: "heap_inv s rs fs" and M: "separate M" "\<forall>g\<in>#M. in_heap rs g" and out: "same_outside W (memory s) m" "W \<subseteq> covered M"
  shows "heap_inv (s\<lparr>memory := m\<rparr>) rs fs" "replaces M s rs M (s\<lparr>memory := m\<rparr>) rs"
proof -
  have W: "W \<subseteq> live_data rs" using owned_data [OF M(2)] out(2) by blast
  show "heap_inv (s\<lparr>memory := m\<rparr>) rs fs" by (rule heap_inv_data [OF inv out(1)]) (use W in blast)
  have "ordered 1 rs" using inv by (simp add: heap_inv_def)
  then have "W \<inter> - foot rs = {}" using W live_data_in_foot by blast
  moreover have "W \<inter> data_of (live rs - owned M rs) = {}" using owned_apart [OF inv M(2)] out(2) by blast
  ultimately have "same_on (data_of (live rs - owned M rs) \<union> - foot rs) (memory s) m" by (intro same_outside_on [OF out(1)]) blast
  then show "replaces M s rs M (s\<lparr>memory := m\<rparr>) rs" using M by (auto simp: replaces_def)
qed

text \<open>Allocating an object.\<close>

lemma new_object:
  assumes inv: "heap_inv s' rs' fs'" and A: "allocated False rs p (rounded n) rs'" "0 < n" "unat n \<le> 2 ^ 32 - 28"
    and keep: "same_on (live_data rs \<union> - foot rs) (memory s) (memory s')"
  shows "replaces {#} s rs {#(p, unat n)#} s' rs'"
proof -
  note a = allocated_segment [OF A]
  have n: "0 < unat n" using A(2) by (simp add: word_less_nat_alt)
  have "(p - 24, e) \<notin> live rs" for e
  proof
    assume l: "(p - 24, e) \<in> live rs"
    obtain d where d: "(p - 24, d) \<in> live rs'" "span p (unat n) \<subseteq> area (p - 24 + 24) d"
      by (rule in_heap_block [OF a(1)]) (use n in simp_all)
    have "e = d" using live_unique [OF inv _ d(1)] l a(5) by blast
    then have "span p (unat n) \<subseteq> live_data rs" using live_data_area [OF l] d(2) by simp
    then have "span p (unat n) = {}" using a(3) by blast
    moreover have "p \<in> span p (unat n)" using n by simp
    ultimately show False by simp
  qed
  then have "owned {#(p, unat n)#} rs' \<inter> live rs = {}" by (auto simp: owned_def)
  then show ?thesis using a keep n by (simp add: replaces_def separate_add live_data_data_of)
qed

lemma alloc_object:
  fixes s :: "'a heap_scheme"
  assumes inv: "heap_inv s rs fs" and n: "unat n \<le> 2 ^ 32 - 28" and k: "alignment = 2 ^ k" "k < 32"
  shows "BlAllocateHeap n alignment False s = crash ''out of memory'' \<or> (\<exists>p s' rs' fs'. BlAllocateHeap n alignment False s = ret (p, s')
    \<and> heap_inv s' rs' fs' \<and> replaces {#} s rs {#(p, unat n)#} s' rs' \<and> heap.more s' = heap.more s)"
proof (cases "n = 0")
  case True
  have "replaces {#} s rs {#(0, 0)#} s rs" by (simp add: replaces_def separate_add fits_def)
  then show ?thesis using inv True by (auto simp: BlAllocateHeap_def)
next
  case False
  then have "alloc_request n alignment False k" "0 < n" using n k by (simp_all add: alloc_request_def word_neq_0_conv)
  from BlAllocateHeap_spec [OF inv this(1)] new_object [OF _ _ this(2) n] show ?thesis unfolding data_kept_def by meson
qed

text \<open>Freeing and resizing one.\<close>

lemma free_object:
  fixes s :: "'a heap_scheme"
  assumes inv: "heap_inv s rs fs" and g: "in_heap rs (p, n)"
  shows "\<exists>rs' fs'. heap_inv (BlFreeHeap p s) rs' fs' \<and> replaces {#(p, n)#} s rs {#} (BlFreeHeap p s) rs' \<and> heap.more (BlFreeHeap p s) = heap.more s"
proof (cases "n = 0")
  case True
  then have "p = 0" using g by simp
  then show ?thesis using inv True by (auto simp: BlFreeHeap_def replaces_def)
next
  case False
  then have "0 < n" by simp
  then obtain e where e: "(p - 24, e) \<in> live rs" by (rule in_heapD [OF inv g])
  have o: "owned {#(p, n)#} rs = {(p - 24, e)}" 
  proof (rule Set.set_eqI)
    show "r \<in> owned {#(p, n)#} rs \<longleftrightarrow> r \<in> {(p - 24, e)}" for r
      using e False live_unique [OF inv e, of "snd r"] by (cases r) (auto simp: owned_def)
  qed
  obtain rs' fs' where F: "heap_inv (BlFreeHeap p s) rs' fs'" "live rs' = live rs - {(p - 24, e)}" "foot rs' = foot rs" "data_kept rs s (BlFreeHeap p s)"
    using BlFreeHeap_spec [OF inv e] unfolding diff_add_cancel by blast
  have "same_on (data_of (live rs - {(p - 24, e)}) \<union> - foot rs) (memory s) (memory (BlFreeHeap p s))"
    by (rule same_on_mono [of "live_data rs \<union> - foot rs"])
      (use F(4) data_of_mono [of "live rs - {(p - 24, e)}" "live rs"] in \<open>auto simp: data_kept_def live_data_data_of\<close>)
  then show ?thesis using F o by (auto simp: replaces_def data_kept_def)
qed

lemma load_bytes_take: "k \<le> n \<Longrightarrow> load_bytes m a n = load_bytes m' a' n \<Longrightarrow> load_bytes m a k = load_bytes m' a' k"
proof -
  assume k: "k \<le> n" and e: "load_bytes m a n = load_bytes m' a' n"
  have "load_bytes m a n = load_bytes m a k @ load_bytes m (a + of_nat k) (n - k)" for m a
    using load_bytes_add [of m a k "n - k"] k by simp
  then show "load_bytes m a k = load_bytes m' a' k" using e by simp
qed

lemma resize_object:
  fixes s :: "'a heap_scheme"
  assumes inv: "heap_inv s rs fs" and g: "in_heap rs (p, n)" and n: "4 dvd n" "n \<le> n'" "n' \<le> n + 24" "4 dvd n'" "0 < n'" "n' \<le> 2 ^ 32 - 28"
    and k: "alignment = 2 ^ k" "k < 32" and sz: "unat newSize = n'"
  shows "BlResizeHeap p newSize alignment s = crash ''out of memory'' \<or> (\<exists>p' s' rs' fs'. BlResizeHeap p newSize alignment s = ret (p', s')
    \<and> heap_inv s' rs' fs' \<and> replaces {#(p, n)#} s rs {#(p', n')#} s' rs' \<and> load_bytes (memory s') p' n = load_bytes (memory s) p n
    \<and> heap.more s' = heap.more s)"
proof (cases "n = 0")
  case True
  then have p: "p = 0" using g by simp
  have "replaces {#(0, 0)#} s rs M s' rs' \<longleftrightarrow> replaces {#} s rs M s' rs'" for M s' rs' by (simp add: replaces_def)
  then show ?thesis using alloc_object [OF inv _ k, of newSize] n(6) unfolding p True sz by (auto simp: BlResizeHeap_def)
next
  case False
  then have "0 < n" by simp
  then obtain e where e: "(p - 24, e) \<in> live rs" "unat p + n \<le> unat e" "unat e < unat p + (n + 3) div 4 * 4 + 24" "unat (p - 24) + 24 = unat p"
    by (rule in_heapD [OF inv g])
  have o: "owned {#(p, n)#} rs = {(p - 24, e)}"
  proof (rule Set.set_eqI)
    show "r \<in> owned {#(p, n)#} rs \<longleftrightarrow> r \<in> {(p - 24, e)}" for r
      using e(1) False live_unique [OF inv e(1), of "snd r"] by (cases r) (auto simp: owned_def)
  qed
  have n4: "(n + 3) div 4 * 4 = n" "rounded newSize = n'" using n(1,4) sz by (auto simp: rounded_def)
  have req: "alloc_request newSize alignment False k" using n k sz by (auto simp: alloc_request_def)
  have "unat e - unat (p - 24) - 24 < n' + 24" "n' \<le> unat e - unat (p - 24)" using e n n4(1) by linarith+
  then have rr: "resize_request (p - 24, e) newSize" by (simp add: resize_request_def n4)
  consider "BlResizeHeap p newSize alignment s = crash ''out of memory''"
    | p' s' rs' fs' where "BlResizeHeap p newSize alignment s = ret (p', s')" "heap_inv s' rs' fs'" "resized rs (p - 24, e) n' s p' rs' s'"
    using BlResizeHeap_spec [OF inv e(1) req rr] unfolding n4 diff_add_cancel by blast
  then show ?thesis
  proof cases
    case 2
    obtain e' where R: "live rs' = insert (p' - 24, e') (live rs - {(p - 24, e)})" "unat p' + n' \<le> unat e'" "unat e' < unat p' + n' + 24" "foot rs' \<subseteq> foot rs"
      "\<forall>d. (p' - 24, d) \<notin> live rs - {(p - 24, e)}" "load_bytes (memory s') p' (min n' (unat e - unat p)) = load_bytes (memory s) p (min n' (unat e - unat p))"
      "same_on (data_of (live rs - {(p - 24, e)}) \<union> - foot rs) (memory s) (memory s')" "heap.more s' = heap.more s"
      using 2(3) e(4) unfolding resized_def by auto
    have "load_bytes (memory s') p' n = load_bytes (memory s) p n" by (rule load_bytes_take [OF _ R(6)]) (use e n in simp)
    moreover have in': "in_heap rs' (p', n')" using R(1-3) n by (auto simp: in_heap_def)
    moreover have "fits p' n'" using heap_segs_fit [OF 2(2) in'] by simp
    moreover have "owned {#(p', n')#} rs' \<inter> (live rs - {(p - 24, e)}) = {}" using R(5) by (auto simp: owned_def)
    ultimately show ?thesis using 2(1,2) R o by (intro disjI2 exI [of _ p'] exI [of _ s'] exI [of _ rs'] exI [of _ fs']) (auto simp: replaces_def separate_add)
  qed simp
qed

end
