(* ===== verification/String_Table.thy ===== *)
theory String_Table
  imports Tree_Build
begin

text \<open>
  The table of interned names: looking a name up, adding it, and moving all entries to a larger table. The table keeps every name
  once, in the bucket of its hash, so a lookup finds a name exactly if it is there.
\<close>

section \<open>Entries in memory\<close>

definition entries_ok :: "mem \<Rightarrow> dt_string list \<Rightarrow> bool" where
  "entries_ok m es \<longleftrightarrow> separate (string_segs m es) \<and> (\<forall>e\<in>set es. entry_rep UNIV m e)"

lemma entry_node: "span (fst e) 8 \<subseteq> span (fst e) 16" "span (fst e + 8) 4 \<inter> span (fst e) 8 = {}" "span (fst e + 8) 4 \<subseteq> span (fst e) 16"
  for e :: dt_string
  using span_disjoint_off [of 0 8 8 4 "fst e"] span_sub [of 8 4 16 "fst e"] by (simp_all add: span_mono Int_commute)

lemma entries_frame:
  assumes ok: "entries_ok m es" and out: "same_outside (W \<union> node_span (fst ` set es)) m m'" and W: "W \<inter> covered (string_segs m es) = {}"
  shows "entries_ok m' es" "string_segs m' es = string_segs m es"
    "e \<in> set es \<Longrightarrow> StringData m' (fst e) = StringData m (fst e) \<and> c_string m' (StringData m' (fst e)) (snd e)"
proof -
  have sep: "separate (string_segs m es)" using ok by (simp add: entries_ok_def)
  have e: "StringData m' (fst e) = StringData m (fst e) \<and> entry_rep UNIV m' e" if e: "e \<in> set es" for e
  proof -
    have in16: "span (fst e) 16 \<subseteq> covered (string_segs m es)" "span (StringData m (fst e)) (length (snd e) + 1) \<subseteq> covered (string_segs m es)"
      using entry_covered [OF e] by simp_all
    have n: "span (fst e + 8) 4 \<inter> span (fst f) 8 = {}" "span (StringData m (fst e)) (length (snd e) + 1) \<inter> span (fst f) 8 = {}" if f: "f \<in> set es" for f
      using separate_entries(2) [OF sep e f] separate_entry_data [OF sep e f] entry_node [of e] entry_node(1) [of f]
      by (cases "fst e = fst f"; fastforce)+
    have "span (fst e + 8) 4 \<inter> (W \<union> node_span (fst ` set es)) = {}" "span (StringData m (fst e)) (length (snd e) + 1) \<inter> (W \<union> node_span (fst ` set es)) = {}"
      using n W in16 entry_node(3) [of e] unfolding node_span_def by blast+
    then have s: "same_on (span (fst e + 8) 4) m m'" "same_on (span (StringData m (fst e)) (length (snd e) + 1)) m m'"
      using same_outside_on [OF out] by blast+
    have d: "StringData m' (fst e) = StringData m (fst e)" using load32_same_on [OF s(1)] by (simp add: StringData_def)
    have "entry_rep UNIV m e" using ok e by (simp add: entries_ok_def)
    then show ?thesis using d bytes_at_keep [of UNIV m _ "snd e @ [0]" m' UNIV] s(2) by (auto simp: entry_rep_def)
  qed
  show segs: "string_segs m' es = string_segs m es"
    unfolding string_segs_def using e by (intro arg_cong [where f = sum_list] map_cong) auto
  show "entries_ok m' es" using e sep segs by (simp add: entries_ok_def)
  show "e \<in> set es \<Longrightarrow> StringData m' (fst e) = StringData m (fst e) \<and> c_string m' (StringData m' (fst e)) (snd e)"
    using e [of e] by (auto simp: entry_rep_def bytes_at_def name_ok_def intro: c_string_holds)
qed

lemma entry_string:
  assumes "entries_ok m es" "e \<in> set es"
  shows "c_string m (StringData m (fst e)) (snd e)" "fst e \<noteq> 0"
  using assms by (auto simp: entries_ok_def entry_rep_def bytes_at_def name_ok_def intro: c_string_holds)

section \<open>Buckets\<close>

definition buckets_at :: "mem \<Rightarrow> u32 \<Rightarrow> dt_string list list \<Rightarrow> bool" where
  "buckets_at m T nb \<longleftrightarrow> (\<forall>i<length nb. list_rep m (load_list m (T + 8 * of_nat i)) (map fst (nb ! i)))"

definition push_entry :: "dt_string \<Rightarrow> dt_string list list \<Rightarrow> dt_string list list" where
  "push_entry e nb = (let j = unat (name_hash (snd e)) mod length nb in nb[j := e # nb ! j])"

lemma mset_concat_update: "j < length nb \<Longrightarrow> mset (concat (nb[j := e # nb ! j])) = add_mset e (mset (concat nb))"
proof (induction nb arbitrary: j)
  case (Cons b nb)
  then show ?case by (cases j) simp_all
qed simp

lemma push_entry_props:
  assumes "nb \<noteq> []"
  shows "length (push_entry e nb) = length nb" "mset (concat (push_entry e nb)) = add_mset e (mset (concat nb))"
proof -
  have "unat (name_hash (snd e)) mod length nb < length nb" using assms by simp
  then show "length (push_entry e nb) = length nb" "mset (concat (push_entry e nb)) = add_mset e (mset (concat nb))"
    using mset_concat_update [of "unat (name_hash (snd e)) mod length nb" nb e] by (simp_all add: push_entry_def Let_def)
qed

lemma bucket_mask:
  assumes "N = 2 ^ k" "k < 32"
  shows "(h :: u32) AND (of_nat N - 1) = of_nat (unat h mod N)"
proof -
  have "of_nat N - 1 = (mask k :: u32)" using assms by (simp add: mask_eq_exp_minus_1)
  then have "h AND (of_nat N - 1) = take_bit k h" by (simp add: take_bit_eq_mask)
  moreover have "unat (take_bit k h) = unat h mod N" unfolding assms(1) take_bit_eq_mod [symmetric] by (rule unsigned_take_bit_eq)
  ultimately have "unat (h AND (of_nat N - 1)) = unat h mod N" by simp
  moreover have "unat h mod N < 2 ^ 32" using unat_lt32 [of h] by (metis mod_less_eq_dividend order_le_less_trans)
  ultimately show ?thesis by (simp add: word_unat_eq_iff unat_of_nat32)
qed

text \<open>Pushing one entry onto its bucket.\<close>

definition moving :: "dt_string list \<Rightarrow> mem \<Rightarrow> u32 \<Rightarrow> dt_string list list \<Rightarrow> bool" where
  "moving E m T nb \<longleftrightarrow> entries_ok m E \<and> fits T (8 * length nb) \<and> span T (8 * length nb) \<inter> covered (string_segs m E) = {}
     \<and> (\<exists>k<32. length nb = 2 ^ k) \<and> buckets_at m T nb \<and> set (concat nb) \<subseteq> set E \<and> distinct (map fst (concat nb))"

lemma moving_nodes:
  assumes "moving E m T nb"
  shows "nodes_apart (fst ` set E)" "span T (8 * length nb) \<inter> node_span (fst ` set E) = {}"
proof -
  have sep: "separate (string_segs m E)" using assms by (simp add: moving_def entries_ok_def)
  have "span (fst e) 8 \<inter> span (fst f) 8 = {}" if "e \<in> set E" "f \<in> set E" "fst e \<noteq> fst f" for e f
    using separate_entries(2) [OF sep that] entry_node(1) [of e] entry_node(1) [of f] by blast
  moreover have ok: "entries_ok m E" using assms by (simp add: moving_def)
  have "fst e \<noteq> 0" if "e \<in> set E" for e by (rule entry_string(2) [OF ok that])
  ultimately show "nodes_apart (fst ` set E)" unfolding nodes_apart_def by force
  have "node_span (fst ` set E) \<subseteq> covered (string_segs m E)"
    using entry_covered(1) [of _ E m] entry_node(1) unfolding node_span_def by blast
  then show "span T (8 * length nb) \<inter> node_span (fst ` set E) = {}" using assms by (auto simp: moving_def)
qed

lemma concat_nth: "i < length nb \<Longrightarrow> set (nb ! i) \<subseteq> set (concat nb)"
  using nth_mem by fastforce

lemma distinct_buckets:
  assumes "distinct (map fst (concat nb))" "i < length nb" "j < length nb" "i \<noteq> j"
  shows "fst ` set (nb ! i) \<inter> fst ` set (nb ! j) = {}"
  using assms
proof (induction nb arbitrary: i j)
  case (Cons b nb)
  have tl: "fst ` set b \<inter> fst ` set (concat nb) = {}" "distinct (map fst (concat nb))" using Cons.prems(1) by auto
  show ?case
  proof (cases i)
    case 0
    then obtain j' where j': "j = Suc j'" "j' < length nb" using Cons.prems(3,4) by (cases j) auto
    have "fst ` set (nb ! j') \<subseteq> fst ` set (concat nb)" using concat_nth [OF j'(2)] by (rule image_mono)
    then show ?thesis using 0 j' tl(1) by auto
  next
    case (Suc i')
    then have i': "i' < length nb" using Cons.prems(2) by simp
    have "fst ` set (nb ! i') \<subseteq> fst ` set (concat nb)" using concat_nth [OF i'] by (rule image_mono)
    then show ?thesis using Suc i' tl Cons.prems(3,4) Cons.IH [of i'] by (cases j) auto
  qed
qed simp

lemma heads_apart:
  assumes "i < N" "j < N" "i \<noteq> j" "fits T (8 * N)"
  shows "span (T + 8 * of_nat i) 8 \<inter> span (T + 8 * of_nat j) 8 = {}"
proof -
  have "8 * N \<le> 2 ^ 32" by (rule fits_le [OF assms(4)])
  then show ?thesis
    using span_disjoint_off [of "8 * i" 8 "8 * j" 8 T] span_disjoint_off [of "8 * j" 8 "8 * i" 8 T] assms(1-3)
    by (cases "i < j") (auto simp: Int_commute)
qed

lemma node_spans_apart:
  assumes "nodes_apart N" "A \<subseteq> N" "B \<subseteq> N" "A \<inter> B = {}"
  shows "node_span A \<inter> node_span B = {}"
proof -
  have "span x 8 \<inter> span y 8 = {}" if "x \<in> A" "y \<in> B" for x y
  proof -
    have "x \<in> N" "y \<in> N" "x \<noteq> y" using that assms(2-4) by auto
    then show ?thesis using assms(1) by (simp add: nodes_apart_def)
  qed
  then show ?thesis unfolding node_span_def by blast
qed

lemma push_bucket:
  assumes M: "moving E m T nb" and e: "e \<in> set E" "fst e \<notin> fst ` set (concat nb)"
  defines "m' \<equiv> list_push (T + 8 * (name_hash (snd e) AND (of_nat (length nb) - 1))) (fst e) m"
  shows "moving E m' T (push_entry e nb)" "same_outside (span T (8 * length nb) \<union> node_span (fst ` set (e # concat nb))) m m'"
proof -
  let ?N = "length nb" let ?j = "unat (name_hash (snd e)) mod ?N" let ?c = "T + 8 * of_nat ?j"
  have ok: "entries_ok m E" and T: "fits T (8 * ?N)" "span T (8 * ?N) \<inter> covered (string_segs m E) = {}" and b: "buckets_at m T nb"
    and sub: "set (concat nb) \<subseteq> set E" and d: "distinct (map fst (concat nb))" using M by (simp_all add: moving_def)
  obtain k where k: "k < 32" "?N = 2 ^ k" using M by (auto simp: moving_def)
  then have N0: "0 < ?N" by simp
  then have j: "?j < ?N" by simp
  have m': "m' = list_push ?c (fst e) m" by (simp add: m'_def bucket_mask [OF k(2,1)])
  note nodes = moving_nodes [OF M]
  have l: "list_rep m (load_list m ?c) (map fst (nb ! ?j))" using b j by (simp add: buckets_at_def)
  have in_b: "fst ` set (nb ! ?j) \<subseteq> fst ` set (concat nb)" using concat_nth [OF j] by (rule image_mono)
  have "nodes_apart (insert (fst e) (set (map fst (nb ! ?j))))"
    by (rule nodes_apart_mono [OF nodes(1)]) (use e(1) in_b image_mono [OF sub, of fst] in auto)
  moreover have "fst e \<notin> set (map fst (nb ! ?j))" using e(2) in_b by auto
  ultimately have add: "addable (fst e) (map fst (nb ! ?j))" by (simp add: addable_def)
  have head: "span ?c 8 \<subseteq> span T (8 * ?N)" by (rule bucket_span [OF j T(1)])
  have inE: "insert (fst e) (set (map fst (nb ! ?j))) \<subseteq> fst ` set E" using e(1) in_b image_mono [OF sub, of fst] by auto
  then have used: "node_span (insert (fst e) (set (map fst (nb ! ?j)))) \<subseteq> node_span (fst ` set E)" unfolding node_span_def by blast
  have "span ?c 8 \<inter> node_span (insert (fst e) (set (map fst (nb ! ?j)))) = {}" using head used nodes(2) by blast
  note P = list_push_spec [OF l add this, folded m']
  have "node_span (insert (fst e) (set (map fst (nb ! ?j)))) \<subseteq> node_span (fst ` set (e # concat nb))"
    unfolding node_span_def by (rule UN_mono) (use in_b in auto)
  then show out: "same_outside (span T (8 * ?N) \<union> node_span (fst ` set (e # concat nb))) m m'"
    by (intro same_outside_mono [OF P(2)]) (use head in blast)
  have "same_outside (span T (8 * ?N) \<union> node_span (fst ` set E)) m m'" by (rule same_outside_mono [OF P(2)]) (use head used in blast)
  note F = entries_frame [OF ok this T(2)]
  have new: "list_rep m' (load_list m' (T + 8 * of_nat i)) (map fst (push_entry e nb ! i))" if i: "i < ?N" for i
  proof (cases "i = ?j")
    case True
    then show ?thesis using P(1) j by (simp add: push_entry_def Let_def)
  next
    case False
    have heads: "span (T + 8 * of_nat i) 8 \<inter> span ?c 8 = {}" by (rule heads_apart [OF i j False T(1)])
    have "fst ` set (nb ! i) \<inter> fst ` set (nb ! ?j) = {}" by (rule distinct_buckets [OF d i j False])
    moreover have in_i: "fst ` set (nb ! i) \<subseteq> fst ` set (concat nb)" using concat_nth [OF i] by (rule image_mono)
    ultimately have apart: "fst ` set (nb ! i) \<inter> insert (fst e) (set (map fst (nb ! ?j))) = {}" using e(2) by auto
    let ?W = "span ?c 8 \<union> node_span (insert (fst e) (set (map fst (nb ! ?j))))"
    have li: "list_rep m (load_list m (T + 8 * of_nat i)) (map fst (nb ! i))" using b i by (simp add: buckets_at_def)
    have iE: "fst ` set (nb ! i) \<subseteq> fst ` set E" using in_i image_mono [OF sub, of fst] by blast
    have hi: "span (T + 8 * of_nat i) 8 \<subseteq> span T (8 * ?N)" by (rule bucket_span [OF i T(1)])
    have "?W \<inter> span (T + 8 * of_nat i) 8 = {}" using heads used nodes(2) hi by blast
    from load_list_frame [OF order_refl same_outside_on [OF P(2) this]] have L: "load_list m' (T + 8 * of_nat i) = load_list m (T + 8 * of_nat i)" .
    have "node_span (insert (fst e) (set (map fst (nb ! ?j)))) \<inter> node_span (fst ` set (nb ! i)) = {}"
      by (rule node_spans_apart [OF nodes(1) inE iE]) (use apart in blast)
    moreover have "span ?c 8 \<inter> node_span (fst ` set (nb ! i)) = {}" using head nodes(2) UN_mono [OF iE order_refl] unfolding node_span_def by fast
    ultimately have "?W \<inter> node_span (set (map fst (nb ! i))) = {}" by (simp add: Int_Un_distrib2)
    from bl.rep_frame_outside [OF li P(2) this] show ?thesis using False i by (simp add: L push_entry_def Let_def)
  qed
  have nb: "nb \<noteq> []" using N0 by auto
  note pp = push_entry_props [OF nb, of e]
  have "mset (map fst (concat (push_entry e nb))) = mset (map fst (e # concat nb))" using pp(2) by (simp add: mset_map)
  then have "distinct (map fst (concat (push_entry e nb)))" using mset_eq_imp_distinct_iff [of _ "map fst (e # concat nb)"] e(2) d by simp
  moreover have "set (concat (push_entry e nb)) = insert e (set (concat nb))" using mset_eq_setD [of "concat (push_entry e nb)" "e # concat nb"] pp(2) by simp
  ultimately show "moving E m' T (push_entry e nb)"
    using F(1,2) T k sub e(1) new unfolding moving_def pp(1) buckets_at_def by auto
qed

section \<open>Moving all entries\<close>

fun next_chain :: "mem \<Rightarrow> u32 list \<Rightarrow> bool" where
  "next_chain m [] \<longleftrightarrow> True"
| "next_chain m (n # ns) \<longleftrightarrow> NodeNext m n = head_or ns 0 \<and> next_chain m ns"

lemma links_next: "links m p ns 0 \<Longrightarrow> next_chain m ns"
  by (induction ns arbitrary: p) auto

lemma next_chain_frame: "next_chain m ns \<Longrightarrow> same_on (node_span (set ns)) m m' \<Longrightarrow> next_chain m' ns"
proof (induction ns)
  case (Cons n ns)
  have "NodeNext m' n = NodeNext m n" by (rule node_fields_same_on(2) [OF Cons.prems(2)]) simp
  moreover have "same_on (node_span (set ns)) m m'" by (rule same_on_mono [OF Cons.prems(2)]) (auto simp: node_span_def)
  ultimately show ?case using Cons by simp
qed simp

definition hashed :: "dt_string list list \<Rightarrow> bool" where
  "hashed nb \<longleftrightarrow> (\<forall>i<length nb. \<forall>e\<in>set (nb ! i). unat (name_hash (snd e)) mod length nb = i)"

lemma push_entry_length [simp]: "length (push_entry e nb) = length nb"
  by (simp add: push_entry_def Let_def)

lemma push_entry_hashed: "hashed nb \<Longrightarrow> hashed (push_entry e nb)"
  unfolding hashed_def push_entry_length
proof (intro allI impI ballI)
  fix i x assume h: "\<forall>i<length nb. \<forall>e\<in>set (nb ! i). unat (name_hash (snd e)) mod length nb = i" and i: "i < length nb"
    and x: "x \<in> set (push_entry e nb ! i)"
  have "0 < length nb" using i by (cases nb) simp_all
  then have "unat (name_hash (snd e)) mod length nb < length nb" by simp
  then have "x \<in> set (nb ! i) \<or> x = e \<and> i = unat (name_hash (snd e)) mod length nb"
    using x i by (auto simp: push_entry_def Let_def nth_list_update split: if_splits)
  then show "unat (name_hash (snd x)) mod length nb = i" using h i by blast
qed

lemma fold_push:
  "nb \<noteq> [] \<Longrightarrow> length (fold push_entry es nb) = length nb \<and> mset (concat (fold push_entry es nb)) = mset es + mset (concat nb)
    \<and> (hashed nb \<longrightarrow> hashed (fold push_entry es nb))"
proof (induction es arbitrary: nb)
  case (Cons e es)
  have ne: "push_entry e nb \<noteq> []" using Cons.prems push_entry_length [of e nb] by (metis length_0_conv)
  show ?case using Cons.IH [OF ne] push_entry_props(2) [OF Cons.prems, of e] push_entry_hashed [of nb e] by simp
qed simp

lemma rehash_bucket_spec:
  "moving E m T nb \<Longrightarrow> next_chain m (map fst es) \<Longrightarrow> set es \<subseteq> set E \<Longrightarrow> distinct (map fst (es @ concat nb)) \<Longrightarrow>
    \<exists>m'. rehash_bucket T (of_nat (length nb)) (head_or (map fst es) 0) m = Some m' \<and> moving E m' T (fold push_entry es nb)
      \<and> same_outside (span T (8 * length nb) \<union> node_span (fst ` set (es @ concat nb))) m m'"
proof (induction es arbitrary: m nb)
  case Nil
  then show ?case by (subst rehash_bucket.simps) simp
next
  case (Cons e es)
  let ?N = "length nb"
  let ?m1 = "list_push (T + 8 * (name_hash (snd e) AND (of_nat ?N - 1))) (fst e) m"
  have ok: "entries_ok m E" and e: "e \<in> set E" "fst e \<notin> fst ` set (concat nb)" and nb: "nb \<noteq> []"
    using Cons.prems by (auto simp: moving_def)
  note str = entry_string [OF ok e(1)] and nodes = moving_nodes [OF Cons.prems(1)]
  note P = push_bucket [OF Cons.prems(1) e]
  have next_e: "StringNext m (fst e) = head_or (map fst es) 0" using Cons.prems(2) by (simp add: StringNext_def BL_CONTAINER_def)
  have inE: "fst ` set es \<subseteq> fst ` set E" "fst ` set (e # concat nb) \<subseteq> fst ` set E"
    using Cons.prems(1,3) e(1) by (auto simp: moving_def image_iff; force)+
  have "node_span (fst ` set (e # concat nb)) \<inter> node_span (fst ` set es) = {}"
  proof (rule node_spans_apart [OF nodes(1) inE(2,1)])
    have "fst ` set es \<inter> fst ` set (concat nb) = {}" "fst e \<notin> fst ` set es" using Cons.prems(4) by simp_all
    then show "fst ` set (e # concat nb) \<inter> fst ` set es = {}" by (simp only: list.set image_insert) blast
  qed
  moreover have "node_span (fst ` set es) \<subseteq> node_span (fst ` set E)" unfolding node_span_def by (rule UN_mono [OF inE(1) order_refl])
  ultimately have "(span T (8 * ?N) \<union> node_span (fst ` set (e # concat nb))) \<inter> node_span (fst ` set es) = {}" using nodes(2) by blast
  from same_outside_on [OF P(2) this] have chain: "next_chain ?m1 (map fst es)"
    using next_chain_frame [of m "map fst es" ?m1] Cons.prems(2) by simp
  have ms: "mset (concat (push_entry e nb)) = mset (e # concat nb)" using push_entry_props(2) [OF nb] by simp
  have d: "distinct (map fst (es @ concat (push_entry e nb)))"
  proof -
    have "mset (map fst (es @ concat (push_entry e nb))) = mset (map fst (e # es @ concat nb))" using ms by (simp add: mset_map)
    from mset_eq_imp_distinct_iff [OF this] show ?thesis using Cons.prems(4) by simp
  qed
  have "set es \<subseteq> set E" using Cons.prems(3) by simp
  from Cons.IH [OF P(1) chain this d] obtain m' where m': "rehash_bucket T (of_nat ?N) (head_or (map fst es) 0) ?m1 = Some m'"
    "moving E m' T (fold push_entry es (push_entry e nb))"
    "same_outside (span T (8 * ?N) \<union> node_span (fst ` set (es @ concat (push_entry e nb)))) ?m1 m'" by auto
  have "set (concat (push_entry e nb)) = insert e (set (concat nb))" using mset_eq_setD [OF ms] by simp
  then have "same_outside (span T (8 * ?N) \<union> node_span (fst ` set ((e # es) @ concat nb))) m m'"
    by (intro same_on_trans [OF same_outside_mono [OF P(2)] same_outside_mono [OF m'(3)]]) (auto simp: node_span_def)
  moreover have "rehash_bucket T (of_nat ?N) (fst e) m = Some m'"
    using str m'(1) next_e BlDtHash_c_string [OF str(1)] by (subst rehash_bucket.simps) (simp add: SIZEOF_BlList_def Let_def)
  ultimately show ?case using m'(2) by auto
qed

lemma container_0: "BL_CONTAINER 0 x = x"
  by (simp add: BL_CONTAINER_def)

lemma rehash_from_spec:
  assumes T: "fits T (8 * cap)" "span T (8 * cap) \<inter> (span T' (8 * N) \<union> node_span (fst ` set E)) = {}" "cap < 2 ^ 29"
  shows "moving E m T' nb \<Longrightarrow> length nb = N \<Longrightarrow> i + length rest = cap \<Longrightarrow>
    \<forall>j<length rest. list_rep m (load_list m (T + 8 * of_nat (i + j))) (map fst (rest ! j)) \<Longrightarrow>
    set (concat rest) \<subseteq> set E \<Longrightarrow> distinct (map fst (concat rest @ concat nb)) \<Longrightarrow>
    \<exists>m'. rehash_from T (of_nat cap) T' (of_nat N) (of_nat i) m = Some m' \<and> moving E m' T' (fold push_entry (concat rest) nb)
      \<and> same_outside (span T' (8 * N) \<union> node_span (fst ` set E)) m m'"
proof (induction rest arbitrary: m nb i)
  case Nil
  then show ?case by (subst rehash_from.simps) simp
next
  case (Cons es rest)
  have i: "i < cap" using Cons.prems(3) by simp
  have l: "list_rep m (load_list m (T + 8 * of_nat i)) (map fst es)" using Cons.prems(4) by fastforce
  then have chain: "next_chain m (map fst es)" and head: "load32 m (T + 8 * of_nat i) = head_or (map fst es) 0"
    using links_next by (auto simp: list_rep_def load_list_def)
  have apart: "fst ` set es \<inter> fst ` set (concat nb) = {}" "fst ` set (concat rest) \<inter> fst ` set es = {}"
    "fst ` set (concat rest) \<inter> fst ` set (concat nb) = {}" "distinct (map fst es)" "distinct (map fst (concat nb))"
    using Cons.prems(6) by (simp_all only: concat.simps map_append distinct_append set_append set_map append_assoc image_Un) blast+
  then have dist: "distinct (map fst (es @ concat nb))" and sub: "set es \<subseteq> set E" using Cons.prems(5) by simp_all
  obtain m1 where m1: "rehash_bucket T' (of_nat N) (head_or (map fst es) 0) m = Some m1" "moving E m1 T' (fold push_entry es nb)"
    "same_outside (span T' (8 * N) \<union> node_span (fst ` set (es @ concat nb))) m m1"
    using rehash_bucket_spec [OF Cons.prems(1) chain sub dist] Cons.prems(2) by auto
  have nbE: "set (concat nb) \<subseteq> set E" and N0: "nb \<noteq> []" using Cons.prems(1) by (auto simp: moving_def)
  note F = fold_push [OF N0, of es]
  have inE: "fst ` set (es @ concat nb) \<subseteq> fst ` set E" "fst ` set (concat rest) \<subseteq> fst ` set E"
    using sub nbE Cons.prems(5) by (simp_all add: image_Un image_mono)
  have out: "same_outside (span T' (8 * N) \<union> node_span (fst ` set E)) m m1"
    by (rule same_outside_mono [OF m1(3)]) (use node_span_mono [OF inE(1)] in blast)
  have lists: "list_rep m1 (load_list m1 (T + 8 * of_nat (Suc i + j))) (map fst (rest ! j))" if j: "j < length rest" for j
  proof -
    let ?a = "T + 8 * of_nat (Suc i + j)"
    have old: "list_rep m (load_list m ?a) (map fst (rest ! j))" using Cons.prems(4) j by fastforce
    have "span ?a 8 \<subseteq> span T (8 * cap)" by (rule bucket_span [OF _ T(1)]) (use j Cons.prems(3) in simp)
    then have "(span T' (8 * N) \<union> node_span (fst ` set E)) \<inter> span ?a 8 = {}" using T(2) by blast
    from load_list_frame [OF order_refl same_outside_on [OF out this]] have L: "load_list m1 ?a = load_list m ?a" .
    have rj: "fst ` set (rest ! j) \<subseteq> fst ` set (concat rest)" using concat_nth [OF j] by (rule image_mono)
    have "fst ` set (concat rest) \<inter> fst ` set (es @ concat nb) = {}" unfolding set_append image_Un using apart by blast
    then have "node_span (fst ` set (es @ concat nb)) \<inter> node_span (fst ` set (rest ! j)) = {}"
      using rj inE by (intro node_spans_apart [OF moving_nodes(1) [OF Cons.prems(1)]]) blast+
    moreover have "span T' (8 * N) \<inter> node_span (fst ` set (rest ! j)) = {}"
      using moving_nodes(2) [OF Cons.prems(1)] node_span_mono [OF subset_trans [OF rj inE(2)]] Cons.prems(2) by blast
    ultimately have "(span T' (8 * N) \<union> node_span (fst ` set (es @ concat nb))) \<inter> node_span (set (map fst (rest ! j))) = {}" by auto
    from bl.rep_frame_outside [OF old m1(3) this] show ?thesis unfolding L .
  qed
  have d: "distinct (map fst (concat rest @ concat (fold push_entry es nb)))"
  proof -
    have "mset (map fst (concat rest @ concat (fold push_entry es nb))) = mset (map fst (concat (es # rest) @ concat nb))" using F by (simp add: mset_map)
    from mset_eq_imp_distinct_iff [OF this] show ?thesis using Cons.prems(6) by simp
  qed
  have IH: "length (fold push_entry es nb) = N" "Suc i + length rest = cap" "set (concat rest) \<subseteq> set E"
    using F Cons.prems(2,3,5) by simp_all
  from Cons.IH [OF m1(2) IH(1,2) _ IH(3) d] lists obtain m' where m': "rehash_from T (of_nat cap) T' (of_nat N) (of_nat (Suc i)) m1 = Some m'"
    "moving E m' T' (fold push_entry (concat rest) (fold push_entry es nb))" "same_outside (span T' (8 * N) \<union> node_span (fst ` set E)) m1 m'" by blast
  have "(of_nat i :: u32) < of_nat cap" using i T(3) by (simp add: word_less_nat_alt unat_of_nat32)
  then have "rehash_from T (of_nat cap) T' (of_nat N) (of_nat i) m = Some m'"
    using m1(1) m'(1) head by (subst rehash_from.simps) (simp add: SIZEOF_BlList_def container_0 add.commute)
  moreover have "same_outside (span T' (8 * N) \<union> node_span (fst ` set E)) m m'" by (rule same_on_trans [OF out m'(3)])
  ultimately show ?case using m'(2) by auto
qed

end
