(* ===== verification/String_Get.thy ===== *)
theory String_Get
  imports Heap_Objects String_Table Tree_Nodes
begin

text \<open>
  \<open>BlDtGetString\<close>: the entry of a name, found in the table or added to it, after the table has grown if it was three quarters full. On the heap it
  replaces the objects of the table by those of the new table and leaves everything else alone.
\<close>

section \<open>The table and its objects\<close>

definition table_segs :: "mem \<Rightarrow> u32 \<Rightarrow> dt_string list list \<Rightarrow> seg multiset" where
  "table_segs m T bk = add_mset (T, 8 * length bk) (string_segs m (concat bk))"

abbreviation name_segs :: "'a dt_scheme \<Rightarrow> dt_string list list \<Rightarrow> seg multiset" where
  "name_segs s bk \<equiv> table_segs (memory s) (BlDtStrings s) bk"

lemma string_segs_mset: "mset es = mset es' \<Longrightarrow> string_segs m es = string_segs m es'"
proof -
  assume e: "mset es = mset es'"
  have "string_segs m es = (\<Sum>e\<in>#mset es. {#(fst e, 16), (StringData m (fst e), length (snd e) + 1)#})" for es
    by (simp add: string_segs_def sum_mset_sum_list flip: mset_map)
  then show ?thesis by (simp only: e)
qed

definition table_at :: "mem \<Rightarrow> u32 \<Rightarrow> dt_string list list \<Rightarrow> bool" where
  "table_at m T bk \<longleftrightarrow> moving (concat bk) m T bk \<and> hashed bk \<and> distinct (map snd (concat bk))"

lemma table_moving:
  assumes t: "table_inv s bk" and sep: "separate (name_segs s bk)" and ne: "bk \<noteq> []"
  shows "table_at (memory s) (BlDtStrings s) bk"
proof -
  have S: "separate (string_segs (memory s) (concat bk))" "fits (BlDtStrings s) (8 * length bk)"
    "span (BlDtStrings s) (8 * length bk) \<inter> covered (string_segs (memory s) (concat bk)) = {}"
    using sep by (simp_all add: table_segs_def separate_add)
  obtain k where k: "length bk = 2 ^ k" using t ne by (auto simp: table_inv_def)
  have "8 * 2 ^ k \<le> (2 :: nat) ^ 32" using fits_le [OF S(2)] by (simp add: k)
  moreover have "(0 :: nat) < 2 ^ k" by simp
  ultimately have "(2 :: nat) ^ k < 2 ^ 32" by linarith
  then have "k < 32" by (rule power_less_imp_less_exp [rotated]) simp
  moreover have rep: "strings_rep UNIV (memory s) (BlDtStrings s) bk" and h: "hashed bk" and d: "distinct (map snd (concat bk))"
    using t by (simp_all add: table_inv_def hashed_def)
  moreover have "entries_ok (memory s) (concat bk)" using S(1) rep unfolding entries_ok_def strings_rep_def by blast
  moreover have "buckets_at (memory s) (BlDtStrings s) bk" using rep by (simp add: strings_rep_def buckets_at_def)
  ultimately show ?thesis unfolding table_at_def moving_def
    by (intro conjI exI [of _ k]) (use S(2,3) k separate_entries(1) [OF S(1)] in \<open>simp_all only: order_refl\<close>)
qed

lemma table_atD:
  assumes "table_at m T bk"
  shows "strings_rep UNIV m T bk" "separate (table_segs m T bk)" "\<exists>k<32. length bk = 2 ^ k" "bk \<noteq> []"
    "\<forall>i<length bk. \<forall>e\<in>set (bk ! i). unat (name_hash (snd e)) mod length bk = i" "distinct (map snd (concat bk))"
  using assms by (auto simp: table_at_def moving_def entries_ok_def strings_rep_def buckets_at_def table_segs_def separate_add hashed_def)

lemma table_at_keep:
  assumes "table_at m T bk" "same_on (covered (table_segs m T bk)) m m'"
  shows "table_at m' T bk" "table_segs m' T bk = table_segs m T bk"
proof -
  have rep: "strings_rep UNIV m T bk" by (rule table_atD [OF assms(1)])
  have same: "same_on (span T (8 * length bk) \<union> covered (string_segs m (concat bk))) m m'"
    using assms(2) by (simp add: table_segs_def)
  note K = strings_keep [OF rep same]
  then show segs: "table_segs m' T bk = table_segs m T bk" by (simp add: table_segs_def)
  show "table_at m' T bk" using assms(1) K
    by (auto simp: table_at_def moving_def entries_ok_def strings_rep_def buckets_at_def)
qed

lemma find_SomeD: "find P xs = Some x \<Longrightarrow> x \<in> set xs \<and> P x"
  by (induction xs) (auto split: if_splits)

section \<open>Looking a name up\<close>

lemma find_string_list:
  assumes str: "c_string m str nm"
  shows "next_chain m (map fst es) \<Longrightarrow> (\<forall>e\<in>set es. c_string m (StringData m (fst e)) (snd e) \<and> fst e \<noteq> 0) \<Longrightarrow>
    find_string m str (head_or (map fst es) 0) = Some (case find (\<lambda>e. snd e = nm) es of None \<Rightarrow> 0 | Some e \<Rightarrow> fst e)"
proof (induction es)
  case (Cons e es)
  have e: "c_string m (StringData m (fst e)) (snd e)" "fst e \<noteq> 0" using Cons.prems(2) by simp_all
  obtain r where r: "BlCompareStrings m (StringData m (fst e)) str = Some r" "r = 0 \<longleftrightarrow> snd e = nm"
    by (rule BlCompareStrings_eq [OF e(1) str])
  have "StringNext m (fst e) = head_or (map fst es) 0" using Cons.prems(1) by (simp add: StringNext_def container_0)
  then show ?case using Cons r e(2) by (subst find_string.simps) simp
qed (simp add: find_string.simps)

definition lookup_name :: "u8 list \<Rightarrow> dt_string list list \<Rightarrow> u32" where
  "lookup_name nm bk = (case find (\<lambda>e. snd e = nm) (concat bk) of None \<Rightarrow> 0 | Some e \<Rightarrow> fst e)"

lemma find_in_bucket:
  assumes h: "hashed bk" and d: "distinct (map snd (concat bk))" and ne: "bk \<noteq> []"
  shows "find (\<lambda>e. snd e = nm) (bk ! (unat (name_hash nm) mod length bk)) = find (\<lambda>e. snd e = nm) (concat bk)"
proof -
  let ?i = "unat (name_hash nm) mod length bk"
  have i: "?i < length bk" using ne by simp
  have in_i: "e \<in> set (bk ! ?i)" if e: "e \<in> set (concat bk)" "snd e = nm" for e
  proof -
    obtain b where "b \<in> set bk" "e \<in> set b" using e(1) by auto
    then obtain j where j: "j < length bk" "e \<in> set (bk ! j)" by (metis in_set_conv_nth)
    then show ?thesis using h e(2) by (auto simp: hashed_def)
  qed
  have uniq: "e = e'" if "e \<in> set (concat bk)" "e' \<in> set (concat bk)" "snd e = snd e'" for e e'
    using d that by (metis distinct_map inj_onD)
  show ?thesis
  proof (cases "find (\<lambda>e. snd e = nm) (concat bk)")
    case None
    then have "find (\<lambda>e. snd e = nm) (bk ! ?i) = None" using concat_nth [OF i] unfolding find_None_iff by blast
    then show ?thesis using None by simp
  next
    case (Some e)
    then have e: "e \<in> set (concat bk)" "snd e = nm" using find_SomeD by fast+
    obtain e' where e': "find (\<lambda>e. snd e = nm) (bk ! ?i) = Some e'"
      using in_i [OF e] e(2) find_None_iff [of "\<lambda>e. snd e = nm" "bk ! ?i"] by blast
    then have "e' \<in> set (concat bk)" "snd e' = nm" using concat_nth [OF i] find_SomeD [OF e'] by blast+
    then show ?thesis using Some e' uniq [OF e(1)] e(2) by simp
  qed
qed

lemma find_string_table:
  assumes T: "table_at m T bk" and str: "c_string m str nm" and cap: "unat cap = length bk"
  shows "find_string m str (BL_CONTAINER 0 (load32 m (T + SIZEOF_BlList * (name_hash nm AND (cap - 1))))) = Some (lookup_name nm bk)"
proof -
  let ?i = "unat (name_hash nm) mod length bk"
  note D = table_atD [OF T]
  obtain k where k: "k < 32" "length bk = 2 ^ k" using D(3) by blast
  have cap': "cap = of_nat (length bk)" using cap by (metis word_unat_eq_iff unat_of_nat32 unat_lt32)
  have i: "?i < length bk" using D(4) by simp
  have ok: "entries_ok m (concat bk)" and b: "buckets_at m T bk" and h: "hashed bk" using T by (simp_all add: table_at_def moving_def)
  have l: "list_rep m (load_list m (T + 8 * of_nat ?i)) (map fst (bk ! ?i))" using b i by (simp add: buckets_at_def)
  then have "next_chain m (map fst (bk ! ?i))" and head: "load32 m (T + 8 * of_nat ?i) = head_or (map fst (bk ! ?i)) 0"
    using links_next by (auto simp: list_rep_def load_list_def)
  moreover have "\<forall>e\<in>set (bk ! ?i). c_string m (StringData m (fst e)) (snd e) \<and> fst e \<noteq> 0"
    using entry_string [OF ok] concat_nth [OF i] by blast
  ultimately have "find_string m str (head_or (map fst (bk ! ?i)) 0) = Some (lookup_name nm bk)"
    using find_string_list [OF str] find_in_bucket [OF h D(6,4)] by (simp add: lookup_name_def)
  then show ?thesis using head by (simp add: bucket_mask [OF k(2,1)] cap' SIZEOF_BlList_def container_0)
qed

lemma lookup_name_iff:
  assumes "table_at m T bk"
  shows "lookup_name nm bk \<noteq> 0 \<longleftrightarrow> nm \<in> snd ` set (concat bk)" "lookup_name nm bk \<noteq> 0 \<Longrightarrow> (lookup_name nm bk, nm) \<in> set (concat bk)"
proof -
  have nz: "fst e \<noteq> 0" if "e \<in> set (concat bk)" for e
    using assms entry_string(2) [OF _ that] by (auto simp: table_at_def moving_def)
  have "(case find (\<lambda>e. snd e = nm) (concat bk) of None \<Rightarrow> nm \<notin> snd ` set (concat bk) | Some e \<Rightarrow> e \<in> set (concat bk) \<and> snd e = nm)"
  proof (cases "find (\<lambda>e. snd e = nm) (concat bk)")
    case None
    then have "nm \<notin> snd ` set (concat bk)" unfolding find_None_iff by (auto simp del: set_concat)
    then show ?thesis using None by simp
  next
    case (Some e)
    then show ?thesis using find_SomeD [OF Some] by simp
  qed
  then show "lookup_name nm bk \<noteq> 0 \<longleftrightarrow> nm \<in> snd ` set (concat bk)" "lookup_name nm bk \<noteq> 0 \<Longrightarrow> (lookup_name nm bk, nm) \<in> set (concat bk)"
    using nz unfolding lookup_name_def by (auto split: option.splits simp del: set_concat; force)+
qed

section \<open>Growing\<close>

lemma moving_mset:
  assumes "moving E m T nb" "mset (concat nb) = mset E"
  shows "moving (concat nb) m T nb"
proof -
  have "set (concat nb) = set E" using assms(2) by (rule mset_eq_setD)
  then show ?thesis using assms(1) string_segs_mset [OF assms(2), of m] by (simp add: moving_def entries_ok_def)
qed

lemma zero_lists:
  assumes i: "i < N" and N: "8 * N \<le> 2 ^ 32"
  shows "load_list (store_bytes m T (replicate (8 * N) 0)) (T + 8 * of_nat i) = \<lparr>Head = 0, Tail = 0\<rparr>"
proof -
  let ?m = "store_bytes m T (replicate (8 * N) 0)"
  have h: "holds ?m T (replicate (8 * N) 0)" using load_store_bytes [of "replicate (8 * N) (0 :: u8)" m T] N by (simp add: holds_def)
  have z: "?m (T + of_nat j) = 0" if "j < 8 * N" for j using holds_nth [OF h, of j] that by simp
  have w: "load32 ?m (T + of_nat j) = 0" if "j + 4 \<le> 8 * N" for j
  proof -
    have "?m (T + of_nat j + of_nat d) = 0" if "d < 4" for d using z [of "j + d"] that \<open>j + 4 \<le> 8 * N\<close> by (simp add: add.assoc)
    from this [of 0] this [of 1] this [of 2] this [of 3] show ?thesis by (simp add: load32_def)
  qed
  have "load32 ?m (T + 8 * of_nat i) = 0" using w [of "8 * i"] i by simp
  moreover have "load32 ?m (T + 8 * of_nat i + 4) = 0" using w [of "8 * i + 4"] i by (simp add: add.assoc)
  ultimately show ?thesis by (simp add: load_list_def)
qed

lemma table_start:
  assumes T: "fits T (8 * N)" "N = 2 ^ k" "k < 32" and ok: "entries_ok m E" "span T (8 * N) \<inter> covered (string_segs m E) = {}"
  shows "moving E (store_bytes m T (replicate (8 * N) 0)) T (replicate N [])"
    "string_segs (store_bytes m T (replicate (8 * N) 0)) E = string_segs m E"
proof -
  let ?m = "store_bytes m T (replicate (8 * N) 0)"
  have "same_outside (span T (8 * N) \<union> node_span (fst ` set E)) m ?m"
    by (rule same_outside_mono [OF store_bytes_same_outside]) simp
  note F = entries_frame [OF ok(1) this ok(2)]
  show "string_segs ?m E = string_segs m E" by (rule F(2))
  have "buckets_at ?m T (replicate N [])" using zero_lists [OF _ fits_le [OF T(1)]] by (simp add: buckets_at_def list_rep_def nodes_apart_def)
  then show "moving E ?m T (replicate N [])" using F T ok(2) by (auto simp: moving_def)
qed

lemma rehashed:
  assumes ok: "entries_ok m (concat bk)" and old: "\<forall>i<length bk. list_rep m (load_list m (T + 8 * of_nat i)) (map fst (bk ! i))"
    "distinct (map snd (concat bk))" "length bk < 2 ^ 29"
    and N: "N = 2 ^ k" "k < 32"
    and sep: "separate (add_mset (T', 8 * N) (table_segs m T bk))"
  shows "\<exists>m' nb. rehash_from T (of_nat (length bk)) T' (of_nat N) 0 (store_bytes m T' (replicate (8 * N) 0)) = Some m' \<and> table_at m' T' nb
    \<and> length nb = N \<and> mset (concat nb) = mset (concat bk) \<and> table_segs m' T' nb = add_mset (T', 8 * N) (string_segs m (concat bk))
    \<and> same_outside (span T' (8 * N) \<union> covered (string_segs m (concat bk))) m m'"
proof -
  let ?E = "concat bk" let ?m = "store_bytes m T' (replicate (8 * N) 0)"
  have S: "fits T' (8 * N)" "span T' (8 * N) \<inter> span T (8 * length bk) = {}" "span T' (8 * N) \<inter> covered (string_segs m ?E) = {}"
    "fits T (8 * length bk)" "span T (8 * length bk) \<inter> covered (string_segs m ?E) = {}" "separate (string_segs m ?E)"
    using sep by (auto simp: table_segs_def separate_add)
  note M = table_start [OF S(1) N ok S(3)]
  have nodes: "node_span (fst ` set ?E) \<subseteq> covered (string_segs m ?E)"
    using entry_covered(1) [of _ ?E m] entry_node(1) unfolding node_span_def by blast
  have out1: "same_outside (span T' (8 * N)) m ?m" using store_bytes_same_outside [of T' "replicate (8 * N) 0" m] by simp
  have apart: "span T (8 * length bk) \<inter> (span T' (8 * N) \<union> node_span (fst ` set ?E)) = {}" using S(2,5) nodes by blast
  have lists: "\<forall>j<length bk. list_rep ?m (load_list ?m (T + 8 * of_nat (0 + j))) (map fst (bk ! j))"
  proof (intro allI impI)
    fix j assume j: "j < length bk"
    have "span (T + 8 * of_nat j) 8 \<subseteq> span T (8 * length bk)" by (rule bucket_span [OF j S(4)])
    then have "span T' (8 * N) \<inter> span (T + 8 * of_nat j) 8 = {}" using S(2) by blast
    from load_list_frame [OF order_refl same_outside_on [OF out1 this]] have L: "load_list ?m (T + 8 * of_nat j) = load_list m (T + 8 * of_nat j)" .
    have "node_span (set (map fst (bk ! j))) \<subseteq> node_span (fst ` set ?E)" by (rule node_span_mono) (use concat_nth [OF j] in auto)
    then have "span T' (8 * N) \<inter> node_span (set (map fst (bk ! j))) = {}" using S(3) nodes by blast
    from bl.rep_frame_outside [OF _ out1 this] old(1) j show "list_rep ?m (load_list ?m (T + 8 * of_nat (0 + j))) (map fst (bk ! j))" by (simp add: L)
  qed
  have d: "distinct (map fst (concat bk @ concat (replicate N [])))" using separate_entries(1) [OF S(6)] by simp
  obtain m' where m': "rehash_from T (of_nat (length bk)) T' (of_nat N) (of_nat 0) ?m = Some m'" "moving ?E m' T' (fold push_entry ?E (replicate N []))"
    "same_outside (span T' (8 * N) \<union> node_span (fst ` set ?E)) ?m m'"
    using rehash_from_spec [OF S(4) apart old(3) M(1) length_replicate _ lists order_refl d] by auto
  let ?nb = "fold push_entry ?E (replicate N [])"
  have "replicate N ([] :: dt_string list) \<noteq> []" using N(1) by simp
  from fold_push [OF this, of ?E] have nb: "length ?nb = N" "mset (concat ?nb) = mset ?E" "hashed ?nb" by (simp_all add: hashed_def [of "replicate N []"])
  have ok': "entries_ok ?m ?E" using M(1) by (simp add: moving_def)
  have "span T' (8 * N) \<inter> covered (string_segs ?m ?E) = {}" using S(3) M(2) by simp
  note F = entries_frame [OF ok' m'(3) this]
  have "mset (map snd (concat ?nb)) = mset (map snd ?E)" using nb(2) by simp
  then have "distinct (map snd (concat ?nb))" using old(2) mset_eq_imp_distinct_iff by blast
  then have "table_at m' T' ?nb" using moving_mset [OF m'(2) nb(2)] nb(3) by (simp add: table_at_def)
  moreover have "table_segs m' T' ?nb = add_mset (T', 8 * N) (string_segs m ?E)"
    using string_segs_mset [OF nb(2), of m'] F(2) M(2) by (simp add: table_segs_def nb(1))
  moreover have "same_outside (span T' (8 * N) \<union> covered (string_segs m ?E)) m m'"
    by (rule same_on_trans [OF same_outside_mono [OF out1] same_outside_mono [OF m'(3)]]) (use nodes in auto)
  ultimately show ?thesis using m'(1) nb(1,2) by auto
qed

text \<open>Statics of the builder that a step on the table does not touch.\<close>

definition dt_rest :: "'a dt_scheme \<Rightarrow> u32 \<times> u32 \<times> u32" where
  "dt_rest s = (BlDtRsvMem s, BlDtRsvMemCount s, BlDtStructureSize s)"

lemma grow_strings_spec:
  fixes s :: "'a dt_scheme"
  assumes inv: "heap_inv s rs fs" and t: "table_inv s bk" and own: "separate (name_segs s bk)" "\<forall>g\<in>#name_segs s bk. in_heap rs g"
    and cap: "length bk \<le> 2 ^ 25"
  shows "grow_strings s = crash ''out of memory'' \<or> (\<exists>s' rs' fs' nb. grow_strings s = ret s' \<and> heap_inv s' rs' fs'
    \<and> replaces (name_segs s bk) s rs (name_segs s' nb) s' rs' \<and> table_at (memory s') (BlDtStrings s') nb
    \<and> mset (concat nb) = mset (concat bk) \<and> unat (BlDtStringsCapacity s') = length nb
    \<and> BlDtStringsCount s' = BlDtStringsCount s \<and> BlDtStringsSize s' = BlDtStringsSize s \<and> dt_rest s' = dt_rest s)"
proof -
  let ?N = "if length bk = 0 then 8 else 2 * length bk" let ?n = "of_nat (8 * ?N) :: u32"
  let ?E = "string_segs (memory s) (concat bk)"
  have capw: "BlDtStringsCapacity s = of_nat (length bk)" using t of_nat_unat_eq [of "BlDtStringsCapacity s"] by (simp add: table_inv_def)
  have nz: "BlDtStringsCapacity s \<noteq> 0 \<longleftrightarrow> length bk \<noteq> 0" using t by (auto simp: table_inv_def unat_eq_0 [symmetric])
  have new: "(if BlDtStringsCapacity s \<noteq> 0 then BlDtStringsCapacity s * 2 else 8) = (of_nat ?N :: u32)" using nz capw by simp
  have N: "?N \<le> 2 ^ 26" using cap by simp
  have n: "unat ?n = 8 * ?N" by (rule unat_of_nat32) (use N in simp)
  obtain k where k: "?N = 2 ^ k"
  proof (cases "length bk = 0")
    case False
    then obtain j where "length bk = 2 ^ j" using t by (auto simp: table_inv_def)
    then show ?thesis using that [of "Suc j"] by simp
  qed (use that [of 3] in simp)
  have "(2 :: nat) ^ k < 2 ^ 32" using N unfolding k by simp
  then have k32: "k < 32" by (rule power_less_imp_less_exp [rotated]) simp
  have rep: "strings_rep UNIV (memory s) (BlDtStrings s) bk" "distinct (map snd (concat bk))" using t by (simp_all add: table_inv_def)
  have sz: "SIZEOF_BlList * of_nat ?N = ?n" "of_nat ?N * SIZEOF_BlList = ?n" by (simp_all add: SIZEOF_BlList_def)
  have "unat ?n \<le> 2 ^ 32 - 28" "(4 :: u32) = 2 ^ 2" "(2 :: nat) < 32" using n N by simp_all
  from alloc_object [OF inv this] show ?thesis
  proof (elim disjE exE conjE)
    fix T rs1 fs1 and s1 :: "'a dt_scheme"
    assume A: "BlAllocateHeap ?n 4 False s = ret (T, s1)" "heap_inv s1 rs1 fs1" "replaces {#} s rs {#(T, unat ?n)#} s1 rs1"
      "heap.more s1 = heap.more s"
    note more = heap_more_dt [OF A(4)]
    let ?old = "name_segs s bk" let ?all = "add_mset (T, 8 * ?N) ?old"
    have "covered {#} \<inter> covered ?old = {}" by simp
    note F = replaces_frame [OF A(3) [unfolded n] inv A(2) own(2,1) this]
    have all: "separate ?all" "\<forall>g\<in>#?all. in_heap rs1 g" using F(1) by (simp_all add: replaces_def)
    have "same_on (span (BlDtStrings s) (8 * length bk) \<union> covered ?E) (memory s) (memory s1)" using F(2) by (simp add: table_segs_def)
    note K = strings_keep [OF rep(1) this]
    have old: "table_segs (memory s1) (BlDtStrings s) bk = ?old" using K(2) by (simp add: table_segs_def)
    have "entries_ok (memory s1) (concat bk)"
      using K own(1) by (auto simp: entries_ok_def strings_rep_def table_segs_def separate_add)
    moreover have "\<forall>i<length bk. list_rep (memory s1) (load_list (memory s1) (BlDtStrings s + 8 * of_nat i)) (map fst (bk ! i))"
      using K(1) by (simp add: strings_rep_def)
    moreover have "length bk < 2 ^ 29" using cap by simp
    ultimately obtain m nb where R: "rehash_from (BlDtStrings s) (of_nat (length bk)) T (of_nat ?N) 0 (store_bytes (memory s1) T (replicate (8 * ?N) 0)) = Some m"
      "table_at m T nb" "length nb = ?N" "mset (concat nb) = mset (concat bk)" "table_segs m T nb = add_mset (T, 8 * ?N) ?E"
      "same_outside (span T (8 * ?N) \<union> covered ?E) (memory s1) m"
      using rehashed [OF _ _ rep(2) _ k k32, of "memory s1" "BlDtStrings s" T] all(1) unfolding old K(2) by blast
    have "span T (8 * ?N) \<union> covered ?E \<subseteq> covered ?all" by (auto simp: table_segs_def)
    note W = replaces_write [OF A(2) all R(6) this]
    let ?s3 = "s1\<lparr>memory := m\<rparr>"
    have "in_heap rs1 (BlDtStrings s, 8 * length bk)" using all(2) by (simp add: table_segs_def)
    from free_object [OF W(1) this] obtain rs4 fs4 where G: "heap_inv (BlFreeHeap (BlDtStrings s) ?s3) rs4 fs4"
      "replaces {#(BlDtStrings s, 8 * length bk)#} ?s3 rs1 {#} (BlFreeHeap (BlDtStrings s) ?s3) rs4"
      "heap.more (BlFreeHeap (BlDtStrings s) ?s3) = heap.more ?s3" by blast
    let ?keep = "add_mset (T, 8 * ?N) ?E" let ?s4 = "BlFreeHeap (BlDtStrings s) ?s3"
    have split: "?all = {#(BlDtStrings s, 8 * length bk)#} + ?keep" by (simp add: table_segs_def)
    have "\<forall>g\<in>#?keep. in_heap rs1 g" "separate ?keep" "covered {#(BlDtStrings s, 8 * length bk)#} \<inter> covered ?keep = {}"
      using all unfolding split separate_union by simp_all
    note H = replaces_frame [OF G(2) W(1) G(1) this]
    have "same_on (covered (table_segs m T nb)) m (memory ?s4)" using H(2) by (simp add: R(5))
    note T = table_at_keep [OF R(2) this]
    note more4 = heap_more_dt [OF G(3)]
    let ?s' = "?s4\<lparr>BlDtStrings := T, BlDtStringsCapacity := of_nat ?N\<rparr>"
    have "grow_strings s = ret ?s'"
    proof -
      have "BlFillMemory (memory s1) T 0 ?n = store_bytes (memory s1) T (replicate (8 * ?N) 0)" unfolding BlFillMemory_store_bytes n ..
      then show ?thesis unfolding grow_strings_def new Let_def sz A(1) using R(1) more capw by simp
    qed
    moreover have "replaces ?old s rs (name_segs ?s' nb) ?s' rs4"
    proof -
      have "replaces ?old s rs ?all s1 rs1" using F(1) by simp
      from replaces_trans [OF replaces_trans [OF this W(2)]] H(1)
      have "replaces ?old s rs ?keep ?s4 rs4" unfolding split by simp
      then show ?thesis using T(2) R(5) by (simp add: replaces_def)
    qed
    moreover have "heap_inv ?s' rs4 fs4 = heap_inv ?s4 rs4 fs4" by (rule heap_inv_alike) simp_all
    moreover have "unat (of_nat ?N :: u32) = length nb" unfolding R(3) by (rule unat_of_nat32) (use N in simp)
    ultimately show ?thesis using T(1) R(3,4) G(1) more more4
      by (intro disjI2 exI [of _ ?s'] exI [of _ rs4] exI [of _ fs4] exI [of _ nb]) (simp add: dt_rest_def)
  qed (unfold grow_strings_def new Let_def sz, simp)
qed

section \<open>Adding a name\<close>

lemma strs_length: "length (strs_bytes es) = (\<Sum>e\<in>#mset es. length (snd e) + 1)"
  by (induction es) simp_all

lemma table_inv_at:
  assumes "table_at (memory s) (BlDtStrings s) bk" "unat (BlDtStringsCapacity s) = length bk" "unat (BlDtStringsCount s) = length (concat bk)"
    "unat (BlDtStringsSize s) = length (strs_bytes (concat bk))"
  shows "table_inv s bk"
  using table_atD [OF assms(1)] assms(2-4) by (auto simp: table_inv_def)

lemma duplicate_object:
  fixes s :: "'a heap_scheme"
  assumes inv: "heap_inv s rs fs" and g: "given rs (memory s) str nm"
  shows "BlDuplicateString str s = crash ''out of memory'' \<or> (\<exists>d s' rs' fs'. BlDuplicateString str s = ret (d, s') \<and> heap_inv s' rs' fs'
    \<and> replaces {#} s rs {#(d, length nm + 1)#} s' rs' \<and> holds (memory s') d (nm @ [0]) \<and> heap.more s' = heap.more s)"
proof -
  note G = givenD [OF g]
  have n: "unat (of_nat (length nm + 1) :: u32) = length nm + 1" using G(6) by (rule unat_of_nat32)
  then have "0 < (of_nat (length nm + 1) :: u32)" "unat (of_nat (length nm + 1) :: u32) \<le> 2 ^ 32 - 28" using G(5) by (simp_all add: word_less_nat_alt)
  from BlDuplicateString_spec [OF inv g] new_object [OF _ _ this] show ?thesis unfolding data_kept_def n by meson
qed

lemma push_new:
  assumes t: "table_at m T bk" and sep: "separate ({#(e, 16), (d, length nm + 1)#} + table_segs m T bk)"
    and str: "holds m d (nm @ [0])" "0 \<notin> set nm" and e: "e \<noteq> 0" and new: "nm \<notin> snd ` set (concat bk)"
  defines "m' \<equiv> list_push (T + 8 * (name_hash nm AND (of_nat (length bk) - 1))) e (store32 m (e + 8) d)"
  defines "nb \<equiv> push_entry (e, nm) bk"
  shows "table_at m' T nb" "mset (concat nb) = add_mset (e, nm) (mset (concat bk))" "length nb = length bk"
    "table_segs m' T nb = {#(e, 16), (d, length nm + 1)#} + table_segs m T bk"
    "same_outside (covered ({#(e, 16), (d, length nm + 1)#} + table_segs m T bk)) m m'"
proof -
  let ?m2 = "store32 m (e + 8) d" let ?E = "(e, nm) # concat bk" let ?es = "string_segs m (concat bk)"
  have S: "span e 16 \<inter> span d (length nm + 1) = {}" "span e 16 \<inter> covered (table_segs m T bk) = {}" "fits d (length nm + 1)"
    "span d (length nm + 1) \<inter> covered (table_segs m T bk) = {}" "separate (table_segs m T bk)" "fits e 16"
    using sep by (auto simp: separate_add)
  have e8: "span (e + 8) 4 \<subseteq> span e 16" using span_sub [of 8 4 16 e] by simp
  have out2: "same_outside (span (e + 8) 4) m ?m2" by (rule store32_same_outside)
  have same2: "same_on (covered (table_segs m T bk)) m ?m2" by (rule same_outside_on [OF out2]) (use e8 S(2) in blast)
  note K = table_at_keep [OF t same2]
  have data: "StringData ?m2 e = d" by (simp add: StringData_def)
  have segs: "string_segs ?m2 ?E = {#(e, 16), (d, length nm + 1)#} + ?es"
    using K(2) data by (simp add: table_segs_def)
  have "same_on (span d (length nm + 1)) m ?m2" by (rule same_outside_on [OF out2]) (use e8 S(1) in blast)
  then have "holds ?m2 d (nm @ [0])" using holds_same [OF str(1)] fits_le [OF S(3)] by simp
  then have ent: "entry_rep UNIV ?m2 (e, nm)" using e str(2) S(3) data by (simp add: entry_rep_def bytes_at_def name_ok_def)
  have M0: "moving (concat bk) ?m2 T bk" and h: "hashed bk" using K(1) by (simp_all add: table_at_def)
  have sep2: "separate (string_segs ?m2 ?E)" "span T (8 * length bk) \<inter> covered (string_segs ?m2 ?E) = {}"
    using sep unfolding segs by (auto simp: table_segs_def separate_add)
  have ok2: "entries_ok ?m2 ?E" using sep2(1) ent M0 unfolding entries_ok_def moving_def by simp
  have M: "moving ?E ?m2 T bk" using M0 ok2 sep2(2) unfolding moving_def by auto
  have fresh: "e \<notin> fst ` set (concat bk)"
  proof
    assume "e \<in> fst ` set (concat bk)"
    then obtain x where "x \<in> set (concat bk)" "e = fst x" by blast
    then have "span e 16 \<subseteq> covered (table_segs m T bk)" using entry_covered(1) [of x "concat bk" m] by (auto simp: table_segs_def)
    then have "span e 16 = {}" using S(2) by blast
    moreover have "e \<in> span e 16" by simp
    ultimately show False by simp
  qed
  have in_E: "(e, nm) \<in> set ?E" by simp
  have fresh': "fst (e, nm) \<notin> fst ` set (concat bk)" using fresh by simp
  note P = push_bucket [OF M in_E fresh', unfolded fst_conv snd_conv, folded m'_def nb_def]
  have ne: "bk \<noteq> []" by (rule table_atD(4) [OF t])
  show ms: "mset (concat nb) = add_mset (e, nm) (mset (concat bk))" and len: "length nb = length bk"
    using push_entry_props [OF ne, of "(e, nm)"] by (simp_all add: nb_def)
  have "distinct (map snd ?E)" using new table_atD(6) [OF t] by simp
  moreover have "mset (map snd (concat nb)) = mset (map snd ?E)" using ms by simp
  ultimately have "distinct (map snd (concat nb))" using mset_eq_imp_distinct_iff by blast
  moreover have ms': "mset (concat nb) = mset ?E" using ms by simp
  ultimately show "table_at m' T nb" using moving_mset [OF P(1) ms'] push_entry_hashed [OF h, of "(e, nm)"] by (simp add: table_at_def nb_def)
  note F = entries_frame [OF ok2 P(2) sep2(2)]
  show "table_segs m' T nb = {#(e, 16), (d, length nm + 1)#} + table_segs m T bk"
    using string_segs_mset [OF ms', of m'] F(2) segs by (simp add: table_segs_def len)
  have "node_span (fst ` set ?E) \<subseteq> covered (string_segs ?m2 ?E)"
    using entry_covered(1) [of _ ?E ?m2] entry_node(1) unfolding node_span_def by blast
  then show "same_outside (covered ({#(e, 16), (d, length nm + 1)#} + table_segs m T bk)) m m'"
    unfolding segs by (intro same_on_trans [OF same_outside_mono [OF out2] same_outside_mono [OF P(2)]]) (use e8 in \<open>auto simp: table_segs_def\<close>)
qed

lemma add_string_spec:
  fixes s :: "'a dt_scheme"
  assumes inv: "heap_inv s rs fs" and t: "table_at (memory s) (BlDtStrings s) bk" and own: "\<forall>g\<in>#name_segs s bk. in_heap rs g"
    and cap: "unat (BlDtStringsCapacity s) = length bk" and gi: "given_in (others (name_segs s bk) rs) (memory s) str nm" and new: "nm \<notin> snd ` set (concat bk)"
    and count: "unat (BlDtStringsCount s) = length (concat bk)" "length (concat bk) + 1 < 2 ^ 32"
    and size: "unat (BlDtStringsSize s) = length (strs_bytes (concat bk))" "length (strs_bytes (concat bk)) + length nm + 1 < 2 ^ 32"
  shows "add_string str (name_hash nm) s = crash ''out of memory'' \<or> (\<exists>e s' rs' fs' nb. add_string str (name_hash nm) s = ret (e, s')
    \<and> heap_inv s' rs' fs' \<and> replaces (name_segs s bk) s rs (name_segs s' nb) s' rs' \<and> table_inv s' nb
    \<and> mset (concat nb) = add_mset (e, nm) (mset (concat bk)) \<and> dt_rest s' = dt_rest s)"
proof -
  have g: "given rs (memory s) str nm" by (rule given_in_given [OF gi others_kept [OF inv]])
  note D = table_atD [OF t] and G = givenD [OF g]
  let ?T = "BlDtStrings s" let ?old = "name_segs s bk"
  have capw: "BlDtStringsCapacity s = of_nat (length bk)" using of_nat_unat_eq [OF cap] by simp
  have "unat SIZEOF_BlDtString \<le> 2 ^ 32 - 28" "(4 :: u32) = 2 ^ 2" "(2 :: nat) < 32" by (simp_all add: SIZEOF_BlDtString_def)
  from alloc_object [OF inv this] show ?thesis
  proof (elim disjE exE conjE)
    fix e rs1 fs1 and s1 :: "'a dt_scheme"
    assume A: "BlAllocateHeap SIZEOF_BlDtString 4 False s = ret (e, s1)" "heap_inv s1 rs1 fs1" "replaces {#} s rs {#(e, unat SIZEOF_BlDtString)#} s1 rs1"
      "heap.more s1 = heap.more s"
    have "same_on (live_data rs \<union> - foot rs) (memory s) (memory s1)" "live_data rs \<subseteq> live_data rs1" "foot rs1 \<subseteq> foot rs"
      using A(3) live_data_mono by (auto simp: replaces_def live_data_data_of)
    from given_later [OF g this] have g1: "given rs1 (memory s1) str nm" .
    from duplicate_object [OF A(2) g1] show ?thesis
    proof (elim disjE exE conjE)
      fix d rs2 fs2 and s2 :: "'a dt_scheme"
      assume B: "BlDuplicateString str s1 = ret (d, s2)" "heap_inv s2 rs2 fs2" "replaces {#} s1 rs1 {#(d, length nm + 1)#} s2 rs2"
        "holds (memory s2) d (nm @ [0])" "heap.more s2 = heap.more s1"
      let ?new = "{#(e, 16), (d, length nm + 1)#}"
      have e16: "unat SIZEOF_BlDtString = 16" by (simp add: SIZEOF_BlDtString_def)
      note R1 = replaces_frame [OF A(3) [unfolded e16] inv A(2) own D(2), simplified]
      have M1: "\<forall>g\<in>#add_mset (e, 16) ?old. in_heap rs1 g" "separate (add_mset (e, 16) ?old)" using R1(1) by (simp_all add: replaces_def)
      note R2 = replaces_frame [OF B(3) A(2) B(2) M1, simplified]
      have all: "separate (?new + ?old)" "\<forall>g\<in>#?new + ?old. in_heap rs2 g" using R2(1) by (simp_all add: replaces_def add_mset_commute)
      have "same_on (covered ?old) (memory s) (memory s2)" by (rule same_on_trans [OF R1(2) same_on_mono [OF R2(2)]]) simp
      note K = table_at_keep [OF t this]
      have e: "e \<noteq> 0" using all(2) in_heapD [OF B(2), of e 16] by auto
      have "separate (?new + table_segs (memory s2) ?T bk)" using all(1) by (simp only: K(2))
      note P = push_new [OF K(1) this B(4) G(3) e new, unfolded K(2)]
      let ?m = "list_push (?T + 8 * (name_hash nm AND (of_nat (length bk) - 1))) e (store32 (memory s2) (e + 8) d)"
      let ?nb = "push_entry (e, nm) bk" let ?s3 = "s2\<lparr>memory := ?m\<rparr>"
      note W = replaces_write [OF B(2) all P(5) order_refl]
      let ?s' = "?s3\<lparr>BlDtStringsCount := BlDtStringsCount s2 + 1, BlDtStringsSize := BlDtStringsSize s2 + (of_nat (length nm) + 1)\<rparr>"
      have "replaces (add_mset (e, 16) ?old) s1 rs1 (?new + ?old) s2 rs2" using R2(1) by (simp add: add_mset_commute)
      from replaces_trans [OF R1(1) replaces_trans [OF this W(2)]] have step: "replaces ?old s rs (?new + ?old) ?s3 rs2" .
      have "BlStringLength ?m str = Some (of_nat (length nm))"
        using given_inD(2) [OF given_in_same [OF gi replaces_others(3) [OF step W(1)]]] by simp
      moreover note more = heap_more_dt [OF A(4)] heap_more_dt [OF B(5)]
      ultimately have run: "add_string str (name_hash nm) s = ret (e, ?s')"
        by (simp add: add_string_def A(1) B(1) Let_def SIZEOF_BlList_def capw)
      have inv': "heap_inv ?s' rs2 fs2 = heap_inv ?s3 rs2 fs2" by (rule heap_inv_alike) simp_all
      have segs: "name_segs ?s' ?nb = ?new + ?old" using P(4) more by simp
      have "table_inv ?s' ?nb"
      proof (rule table_inv_at)
        show "table_at (memory ?s') (BlDtStrings ?s') ?nb" using P(1) more by simp
        show "unat (BlDtStringsCapacity ?s') = length ?nb" using cap P(3) more by simp
        have "size (mset (concat ?nb)) = length (concat bk) + 1" unfolding P(2) by simp
        then have len: "length (concat ?nb) = length (concat bk) + 1" by (simp only: size_mset)
        have c: "BlDtStringsCount ?s' = of_nat (length (concat bk) + 1)" using of_nat_unat_eq [OF count(1)] more by (simp add: add.commute)
        show "unat (BlDtStringsCount ?s') = length (concat ?nb)" by (simp only: c len unat_of_nat32 [OF count(2)])
        have len: "length (strs_bytes (concat ?nb)) = length (strs_bytes (concat bk)) + length nm + 1" unfolding strs_length P(2) by simp
        have c: "BlDtStringsSize ?s' = of_nat (length (strs_bytes (concat bk)) + length nm + 1)"
          using of_nat_unat_eq [OF size(1)] more by (simp add: add.commute add.left_commute)
        show "unat (BlDtStringsSize ?s') = length (strs_bytes (concat ?nb))" by (simp only: c len unat_of_nat32 [OF size(2)])
      qed
      moreover have "replaces ?old s rs (name_segs ?s' ?nb) ?s' rs2" using step unfolding segs by (simp add: replaces_def)
      moreover have "dt_rest ?s' = dt_rest s" using more by (simp add: dt_rest_def)
      ultimately show ?thesis using run P(2) W(1) inv'
        by (intro disjI2 exI [of _ e] exI [of _ ?s'] exI [of _ rs2] exI [of _ fs2] exI [of _ ?nb]) (simp only: simp_thms)
    qed (simp add: add_string_def A(1))
  qed (simp add: add_string_def)
qed

section \<open>Getting a name\<close>

lemma lookup_name_spec:
  assumes t: "table_inv s bk" and sep: "separate (name_segs s bk)" and str: "c_string (memory s) str nm"
  shows "(if BlDtStringsCount s \<noteq> 0
      then let bucket = name_hash nm AND (BlDtStringsCapacity s - 1)
           in find_string (memory s) str (BL_CONTAINER 0 (load32 (memory s) (BlDtStrings s + SIZEOF_BlList * bucket)))
      else Some 0) = Some (lookup_name nm bk)"
    "lookup_name nm bk \<noteq> 0 \<longleftrightarrow> nm \<in> snd ` set (concat bk)" "lookup_name nm bk \<noteq> 0 \<Longrightarrow> (lookup_name nm bk, nm) \<in> set (concat bk)"
proof -
  have count: "unat (BlDtStringsCount s) = length (concat bk)" "unat (BlDtStringsCapacity s) = length bk" using t by (simp_all add: table_inv_def)
  have zero: "BlDtStringsCount s = 0 \<longleftrightarrow> concat bk = []" using count(1) by (auto simp: unat_eq_0 [symmetric])
  have none: "lookup_name nm bk = 0" if "concat bk = []" using that by (simp add: lookup_name_def del: concat_eq_Nil_conv)
  have T: "table_at (memory s) (BlDtStrings s) bk" if "concat bk \<noteq> []" using table_moving [OF t sep] that by (cases "bk = []") simp_all
  show "(if BlDtStringsCount s \<noteq> 0
      then let bucket = name_hash nm AND (BlDtStringsCapacity s - 1)
           in find_string (memory s) str (BL_CONTAINER 0 (load32 (memory s) (BlDtStrings s + SIZEOF_BlList * bucket)))
      else Some 0) = Some (lookup_name nm bk)"
    using zero none find_string_table [OF T str count(2)] by (cases "concat bk = []") (simp_all only: Let_def if_True if_False simp_thms)
  show "lookup_name nm bk \<noteq> 0 \<longleftrightarrow> nm \<in> snd ` set (concat bk)"
  proof (cases "concat bk = []")
    case True
    then show ?thesis using none by (simp only: list.set image_empty empty_iff simp_thms)
  qed (rule lookup_name_iff [OF T])
  show "lookup_name nm bk \<noteq> 0 \<Longrightarrow> (lookup_name nm bk, nm) \<in> set (concat bk)"
    using none lookup_name_iff(2) [OF T] by blast
qed

lemma BlDtGetString_spec:
  fixes s :: "'a dt_scheme"
  assumes inv: "heap_inv s rs fs" and t: "table_inv s bk" and own: "separate (name_segs s bk)" "\<forall>g\<in>#name_segs s bk. in_heap rs g"
    and gi: "given_in (others (name_segs s bk) rs) (memory s) str nm"
    and size: "length (concat bk) < 2 ^ 24" "length (strs_bytes (concat bk)) + length nm + 1 < 2 ^ 32"
  shows "if nm \<in> snd ` set (concat bk)
    then \<exists>e. (e, nm) \<in> set (concat bk) \<and> BlDtGetString str s = ret (e, s)
    else BlDtGetString str s = crash ''out of memory'' \<or> (\<exists>e s' rs' fs' nb. BlDtGetString str s = ret (e, s')
      \<and> heap_inv s' rs' fs' \<and> replaces (name_segs s bk) s rs (name_segs s' nb) s' rs' \<and> table_inv s' nb
      \<and> mset (concat nb) = add_mset (e, nm) (mset (concat bk)) \<and> dt_rest s' = dt_rest s)"
proof -
  have str: "c_string (memory s) str nm" by (rule given_inD [OF gi])
  note L = lookup_name_spec [OF t own(1) str]
  have T: "unat (BlDtStringsCapacity s) = length bk" "unat (BlDtStringsCount s) = length (concat bk)"
    "unat (BlDtStringsSize s) = length (strs_bytes (concat bk))" using t by (simp_all add: table_inv_def)
  let ?full = "BlDtStringsCount s \<ge> BlDtStringsCapacity s - BlDtStringsCapacity s div 4"
  have run: "BlDtGetString str s = (if lookup_name nm bk \<noteq> 0 then ret (lookup_name nm bk, s)
      else if ?full then bind_run (grow_strings s) (add_string str (name_hash nm)) else add_string str (name_hash nm) s)"
    unfolding BlDtGetString_def BlDtHash_c_string [OF str] by (simp only: Option.bind.bind_lunit L(1))
  show ?thesis
  proof (cases "nm \<in> snd ` set (concat bk)")
    case True
    then show ?thesis using L(2,3) unfolding run by auto
  next
    case new: False
    have full: "?full \<longleftrightarrow> length bk - length bk div 4 \<le> length (concat bk)"
    proof -
      have "unat (BlDtStringsCapacity s - BlDtStringsCapacity s div 4) = length bk - length bk div 4"
        using T(1) by (simp add: unat_sub32 word_le_nat_alt unat_div)
      then show ?thesis using T(2) by (simp add: word_le_nat_alt)
    qed
    have count: "length (concat bk) + 1 < 2 ^ 32" using size(1) by simp
    show ?thesis
    proof (cases ?full)
      case True
      then have "length bk \<le> 2 ^ 25" using full size(1) by simp
      from grow_strings_spec [OF inv t own this] show ?thesis
      proof (elim disjE exE conjE)
        fix rs1 fs1 nb and s1 :: "'a dt_scheme"
        assume G: "grow_strings s = ret s1" "heap_inv s1 rs1 fs1" "replaces (name_segs s bk) s rs (name_segs s1 nb) s1 rs1"
          "table_at (memory s1) (BlDtStrings s1) nb" "mset (concat nb) = mset (concat bk)" "unat (BlDtStringsCapacity s1) = length nb"
          "BlDtStringsCount s1 = BlDtStringsCount s" "BlDtStringsSize s1 = BlDtStringsSize s" "dt_rest s1 = dt_rest s"
        note O = replaces_others [OF G(3,2)]
        have gi1: "given_in (others (name_segs s1 nb) rs1) (memory s1) str nm" by (rule given_in_mono [OF given_in_same [OF gi O(3)] O(2)])
        have "set (concat nb) = set (concat bk)" "length (concat nb) = length (concat bk)" "length (strs_bytes (concat nb)) = length (strs_bytes (concat bk))"
          using mset_eq_setD [OF G(5)] mset_eq_length [OF G(5)] by (simp_all only: strs_length G(5))
        moreover have "\<forall>g\<in>#name_segs s1 nb. in_heap rs1 g" using G(3) by (simp add: replaces_def)
        ultimately have "add_string str (name_hash nm) s1 = crash ''out of memory'' \<or> (\<exists>e s' rs' fs' nb'. add_string str (name_hash nm) s1 = ret (e, s')
          \<and> heap_inv s' rs' fs' \<and> replaces (name_segs s1 nb) s1 rs1 (name_segs s' nb') s' rs' \<and> table_inv s' nb'
          \<and> mset (concat nb') = add_mset (e, nm) (mset (concat nb)) \<and> dt_rest s' = dt_rest s1)"
          using add_string_spec [OF G(2,4) _ G(6) gi1] new T(2,3) count size(2) G(7,8) by simp
        moreover have "BlDtGetString str s = add_string str (name_hash nm) s1" using True new L(2) G(1) by (simp add: run)
        ultimately show ?thesis using new G(5,9) replaces_trans [OF G(3)] by (simp only: if_False) metis
      qed (use True new L(2) in \<open>simp add: run\<close>)
    next
      case False
      then have "bk \<noteq> []" using full by auto
      from table_moving [OF t own(1) this] add_string_spec [OF inv _ own(2) T(1) gi new T(2) count T(3) size(2)] False new L(2)
      show ?thesis by (simp only: run if_False simp_thms)
    qed
  qed
qed

text \<open>
  C8. Interning a name: in a table of fewer than \<open>2 ^ 24\<close> names whose objects lie in ranges of the heap of their own, a name that is there is found and
  nothing changes. A name that is not there is added, after the table has been moved to one of twice the size if it was three quarters full;
  the table then holds the old names and the new one, each once, and everything on the heap and outside it
  other than the table's own objects is kept. Otherwise the heap is exhausted.
\<close>

theorem BlDtGetString_correct:
  fixes s :: "'a dt_scheme"
  assumes inv: "heap_inv s rs fs" and t: "table_inv s bk" and own: "separate (name_segs s bk)" "\<forall>g\<in>#name_segs s bk. in_heap rs g"
    and gi: "given_in (others (name_segs s bk) rs) (memory s) str nm"
    and size: "length (concat bk) < 2 ^ 24" "length (strs_bytes (concat bk)) + length nm + 1 < 2 ^ 32"
  shows "if nm \<in> snd ` set (concat bk)
    then \<exists>e. (e, nm) \<in> set (concat bk) \<and> BlDtGetString str s = ret (e, s)
    else BlDtGetString str s = crash ''out of memory'' \<or> (\<exists>e s' rs' fs' nb. BlDtGetString str s = ret (e, s')
      \<and> heap_inv s' rs' fs' \<and> replaces (name_segs s bk) s rs (name_segs s' nb) s' rs' \<and> table_inv s' nb
      \<and> mset (concat nb) = add_mset (e, nm) (mset (concat bk)) \<and> dt_rest s' = dt_rest s)"
  by (rule BlDtGetString_spec [OF inv t own gi size])

end
