(* ===== verification/Names_Start.thy ===== *)
theory Names_Start
  imports Tree_Start String_Get
begin

text \<open>A concrete heap that holds a table with one name, and a property of the root being added there.\<close>

section \<open>The heap\<close>

definition names_words :: "(u32 \<times> u32) list" where
  "names_words = [(0x10004, 0x10020), (0x10010, 0x10020), (0x10018, 0x10038), (0x1001C, 0x10038),
     (0x10020, 0x10000), (0x10024, 0x10048), (0x10030, 0x10048), (0x10040, 0x10060),
     (0x10048, 0x10020), (0x1004C, 0x10064), (0x10058, 0x10064), (0x10060, 0x757063),
     (0x10064, 0x10048), (0x10074, 0x20000), (0x10078, 1), (0x400C, 0x4040), (0x4080, 0x757063)]"

definition names_mem :: mem where
  "names_mem = fold (\<lambda>(a, v) m. store32 m a v) names_words (\<lambda>_. 0)"

definition names_ranges :: "block list" where
  "names_ranges = [(0x10000, 0x10020, False), (0x10020, 0x10048, False), (0x10048, 0x10064, False), (0x10064, 0x20000, True)]"

definition names_table :: "dt_string list list" where "names_table = [[(0x10038, bytes ''cpu'')]]"

definition names_state :: "'a dt_scheme \<Rightarrow> 'a dt_scheme" where
  "names_state s = s\<lparr>memory := names_mem, BlHeapRanges := \<lparr>Head = 0x10000, Tail = 0x10064\<rparr>, BlFreeRanges := \<lparr>Head = 0x1006C, Tail = 0x1006C\<rparr>,
     BlDtStrings := 0x10018, BlDtStringsCount := 1, BlDtStringsCapacity := 1, BlDtStringsSize := 4, BlDtRsvMem := 0, BlDtRsvMemCount := 0,
     BlDtStructureSize := 16, next_phandle := 0\<rparr>"

lemma load32_zero [simp]: "load32 (\<lambda>_. 0) a = 0"
  by (simp add: load32_def)

lemma names_load:
  "load32 names_mem 0x10000 = 0" "load32 names_mem 0x10004 = 0x10020" "load32 names_mem 0x10010 = 0x10020"
  "load32 names_mem 0x10018 = 0x10038" "load32 names_mem 0x1001C = 0x10038"
  "load32 names_mem 0x10020 = 0x10000" "load32 names_mem 0x10024 = 0x10048" "load32 names_mem 0x10030 = 0x10048"
  "load32 names_mem 0x10038 = 0" "load32 names_mem 0x1003C = 0" "load32 names_mem 0x10040 = 0x10060"
  "load32 names_mem 0x10048 = 0x10020" "load32 names_mem 0x1004C = 0x10064" "load32 names_mem 0x10058 = 0x10064"
  "load32 names_mem 0x10064 = 0x10048" "load32 names_mem 0x10068 = 0" "load32 names_mem 0x1006C = 0" "load32 names_mem 0x10070 = 0" "load32 names_mem 0x10074 = 0x20000"
  "load32 names_mem 0x4000 = 0" "load32 names_mem 0x400C = 0x4040" "load32 names_mem 0x4010 = 0" "load32 names_mem 0x4014 = 0" "load32 names_mem 0x4018 = 0"
  "load32 names_mem 0x401C = 0"
  by (simp_all add: names_mem_def names_words_def load32_apart)

lemma names_bytes:
  "names_mem 0x10014 = 0" "names_mem 0x10034 = 0" "names_mem 0x1005C = 0" "names_mem 0x10078 = 1" "names_mem 0x4040 = 0"
  "holds names_mem 0x10060 (bytes ''cpu'' @ [0])" "c_string names_mem 0x4080 (bytes ''cpu'')"
  by (simp_all add: names_mem_def names_words_def store32_byte holds_Cons bytes_def)

lemma names_heap: "heap_inv (names_state s) names_ranges [0x10064]"
  by (simp add: heap_inv_def heap_rep_def headers_ok_def list_rep_def nodes_apart_def names_state_def names_ranges_def block_at_def
      RangeEnd_def RangeFree_def NodePrev_def NodeNext_def FreeNode_def names_load names_bytes fits_def span_within disjoint_iff span_fits)

lemma names_spans:
  "span 0x4080 4 \<subseteq> - foot names_ranges" "span 0x4000 0x41 \<inter> foot names_ranges = {}"
  by (auto simp: names_ranges_def span_fits fits_def area_def word_le_nat_alt)

lemma cpu_length: "length (bytes ''cpu'') = 3"
  by (simp add: bytes_def)

lemma names_segs: "name_segs (names_state s) names_table = {#(0x10018, 8), (0x10038, 16), (0x10060, 4)#}"
  by (simp add: names_state_def names_table_def table_segs_def StringData_def names_load cpu_length)

lemma names_own: "separate (name_segs (names_state s) names_table)" "\<forall>g\<in>#name_segs (names_state s) names_table. in_heap names_ranges g"
  unfolding names_segs by (simp_all add: separate_add fits_def disjoint_iff span_fits in_heap_def names_ranges_def)

lemma names_table_inv: "table_inv (names_state s) names_table"
proof -
  have "entry_rep UNIV names_mem (0x10038, bytes ''cpu'')"
    using names_bytes(6) by (simp add: entry_rep_def StringData_def names_load bytes_at_def fits_def cpu_length) (simp add: name_ok_def bytes_def)
  moreover have "list_rep names_mem (load_list names_mem 0x10018) [0x10038]"
    by (simp add: list_rep_def load_list_def NodePrev_def NodeNext_def names_load nodes_apart_def fits_def)
  moreover have "\<exists>k. (1 :: nat) = 2 ^ k" by (rule exI [of _ 0]) simp
  ultimately show ?thesis
    by (simp add: table_inv_def names_state_def names_table_def strings_rep_def fits_def cpu_length)
qed

lemma names_given: "given_in (others (name_segs (names_state s) names_table) names_ranges) (memory (names_state s)) 0x4080 (bytes ''cpu'')"
  using names_spans(1) names_bytes(7) by (auto simp: given_in_def names_state_def fits_def cpu_length)

theorem BlDtGetString_correct_witness: "\<forall>s. BlDtGetString 0x4080 (names_state s) = ret (0x10038, names_state s)"
proof
  fix s :: "'a dt_scheme"
  have "length (concat names_table) < 2 ^ 24" "length (strs_bytes (concat names_table)) + length (bytes ''cpu'') + 1 < 2 ^ 32"
    by (simp_all add: names_table_def cpu_length)
  from BlDtGetString_correct [OF names_heap names_table_inv names_own names_given this] show "BlDtGetString 0x4080 (names_state s) = ret (0x10038, names_state s)"
    by (simp add: names_table_def)
qed

end
