(* ===== verification/Tree_Property.thy ===== *)
theory Tree_Property
  imports String_Get
begin

text \<open>
  Adding a property: the node's array grows by one entry, the name is interned, and the entry is filled in. Between these steps the node counts an entry that
  is not there yet; afterwards the tree has the property and the builder's invariant holds again.
\<close>

section \<open>A node with one property more\<close>

fun with_prop :: "dt_prop \<Rightarrow> dt_node \<Rightarrow> dt_node" where
  "with_prop pr (DtNode a nm ps ks) = DtNode a nm (ps @ [pr]) ks"

lemma dn_addr_with_prop [simp]: "dn_addr (with_prop pr x) = dn_addr x"
  by (cases x) simp

lemma prop_moved:
  assumes rep: "prop_rep UNIV m (P + 12 * of_nat i) pr" and i: "i < n" and n: "12 * n \<le> 2 ^ 32"
    and copy: "load_bytes m' P' (12 * n) = load_bytes m P (12 * n)" and data: "same_on (span (dp_at pr) (length (dp_data pr))) m m'"
  shows "prop_rep UNIV m' (P' + 12 * of_nat i) pr"
proof -
  have b: "m' (P' + of_nat j) = m (P + of_nat j)" if "j < 12 * n" for j
    using arg_cong [OF copy, of "\<lambda>l. l ! j"] that by simp
  have w: "load32 m' (P' + of_nat j) = load32 m (P + of_nat j)" if "j + 4 \<le> 12 * n" for j
  proof -
    have "m' (P' + of_nat j + of_nat d) = m (P + of_nat j + of_nat d)" if "d < 4" for d
      using b [of "j + d"] that \<open>j + 4 \<le> 12 * n\<close> by (simp add: add.assoc)
    from this [of 0] this [of 1] this [of 2] this [of 3] show ?thesis by (simp add: load32_def)
  qed
  have "load32 m' (P' + 12 * of_nat i) = load32 m (P + 12 * of_nat i)" "load32 m' (P' + 12 * of_nat i + 4) = load32 m (P + 12 * of_nat i + 4)"
    "load32 m' (P' + 12 * of_nat i + 8) = load32 m (P + 12 * of_nat i + 8)"
    using w [of "12 * i"] w [of "12 * i + 4"] w [of "12 * i + 8"] i by (simp_all add: add.assoc)
  moreover have "bytes_at UNIV m' (dp_at pr) (dp_data pr)"
    using rep by (intro bytes_at_keep [OF _ data order_refl]) (simp add: prop_rep_def)
  ultimately show ?thesis using rep by (simp add: prop_rep_def PropName_def PropData_def PropSize_def)
qed

lemma node_new_prop:
  assumes rep: "node_rep UNIV m par a nm ps kids" and sep: "separate (node_segs m a nm ps)"
    and same: "same_on (covered (node_segs m a nm ps) - span (a + 24) 8 - span (NodeProperties m a) (12 * length ps) \<union> node_span (NodeLink ` set kids)) m m'"
    and fields: "NodeProperties m' a = P" "unat (NumberOfProperties m' a) = length ps + 1"
    and copy: "load_bytes m' P (12 * length ps) = load_bytes m (NodeProperties m a) (12 * length ps)"
    and new: "prop_rep UNIV m' (P + 12 * of_nat (length ps)) pr"
  shows "node_rep UNIV m' par a nm (ps @ [pr]) kids"
    "node_segs m' a nm (ps @ [pr]) + {#(NodeProperties m a, 12 * length ps)#}
      = node_segs m a nm ps + {#(P, 12 * (length ps + 1)), (dp_at pr, length (dp_data pr))#}"
proof -
  let ?P = "span (NodeProperties m a) (12 * length ps)"
  let ?Q = "{#(a, 32), (NodeName m a, length nm + 1)#} + mset (map (\<lambda>p. (dp_at p, length (dp_data p))) ps)"
  have e: "node_segs m a nm ps = add_mset (NodeProperties m a, 12 * length ps) ?Q" by (simp add: node_segs_def add_mset_commute)
  have S: "?P \<inter> covered ?Q = {}" "span a 32 \<inter> span (NodeName m a) (length nm + 1) = {}"
    "span a 32 \<inter> covered (mset (map (\<lambda>p. (dp_at p, length (dp_data p))) ps)) = {}" "fits (NodeProperties m a) (12 * length ps)"
  proof -
    have q: "separate ?Q" "?P \<inter> covered ?Q = {}" "fits (NodeProperties m a) (12 * length ps)" using sep unfolding e separate_add by simp_all
    then show "?P \<inter> covered ?Q = {}" "fits (NodeProperties m a) (12 * length ps)" by simp_all
    have "span a 32 \<inter> covered (add_mset (NodeName m a, length nm + 1) (mset (map (\<lambda>p. (dp_at p, length (dp_data p))) ps))) = {}"
      using q(1) separate_add by fastforce
    then show "span a 32 \<inter> span (NodeName m a) (length nm + 1) = {}"
      "span a 32 \<inter> covered (mset (map (\<lambda>p. (dp_at p, length (dp_data p))) ps)) = {}" by auto
  qed
  have 24: "span (a + 24) 8 \<subseteq> span a 32" using span_sub [of 24 8 32 a] by simp
  have keep: "same_on A m m'" if "A \<subseteq> covered (node_segs m a nm ps)" "A \<inter> ?P = {}" "A \<inter> span (a + 24) 8 = {}" for A
    by (rule same_on_mono [OF same]) (use that in blast)
  have own: "span a 32 \<subseteq> covered ?Q" "span (NodeName m a) (length nm + 1) \<subseteq> covered ?Q" by auto
  have Q: "covered ?Q \<subseteq> covered (node_segs m a nm ps)" unfolding e by simp
  note f = node_parts_apart [of a]
  have at0: "same_on (span a 4) m m'" "same_on (span (a + 12) 4) m m'" "same_on (span (NodeChildren a) 8) m m'"
    using span_disjoint_off [of 0 4 24 8 a] span_disjoint_off [of 12 4 24 8 a] span_disjoint_off [of 16 8 24 8 a] f(5) own(1) Q S(1)
    by (intro keep; auto simp: NodeChildren_def; blast)+
  have F: "NodeParent m' a = NodeParent m a" "NodeName m' a = NodeName m a" "load_list m' (NodeChildren a) = load_list m (NodeChildren a)"
    using load32_same_on [OF at0(1)] load32_same_on [OF at0(2)] load_list_frame [OF order_refl at0(3)] by (simp_all add: NodeParent_def NodeName_def)
  have "same_on (span (NodeName m a) (length nm + 1)) m m'"
    by (rule keep) (use own(2) Q S(1,2) 24 in blast)+
  then have name: "bytes_at UNIV m' (NodeName m a) (nm @ [0])"
    using rep bytes_at_keep [of UNIV m "NodeName m a" "nm @ [0]" m' UNIV] by (simp add: node_rep_def)
  have props: "prop_rep UNIV m' (P + 12 * of_nat i) ((ps @ [pr]) ! i)" if i: "i < length ps + 1" for i
  proof (cases "i = length ps")
    case False
    then have i: "i < length ps" using i by simp
    let ?d = "span (dp_at (ps ! i)) (length (dp_data (ps ! i)))"
    have "?d \<subseteq> covered (mset (map (\<lambda>p. (dp_at p, length (dp_data p))) ps))" using nth_mem [OF i] by (force simp: covered_def)
    then have "same_on ?d m m'" by (intro keep) (use Q S(1,3) 24 in \<open>auto; blast\<close>)+
    from prop_moved [OF _ i fits_le [OF S(4)] copy this] rep i show ?thesis by (simp add: node_rep_def nth_append)
  qed (use new in simp)
  have "list_rep m (load_list m (NodeChildren a)) (map NodeLink kids)" using rep by (simp add: node_rep_def)
  moreover have "same_on (node_span (set (map NodeLink kids))) m m'" by (rule same_on_mono [OF same]) simp
  ultimately have "list_rep m' (load_list m (NodeChildren a)) (map NodeLink kids)" by (rule bl.rep_frame)
  then show "node_rep UNIV m' par a nm (ps @ [pr]) kids" using rep name props F fields by (simp add: node_rep_def)
  show "node_segs m' a nm (ps @ [pr]) + {#(NodeProperties m a, 12 * length ps)#}
      = node_segs m a nm ps + {#(P, 12 * (length ps + 1)), (dp_at pr, length (dp_data pr))#}"
    by (simp add: node_segs_def F fields)
qed

lemma tree_new_prop:
  assumes rep: "tree_rep UNIV m par t" and sep: "separate (tree_segs m t)" and dist: "distinct (addrs t)"
    and x: "DtNode a nm ps ks \<in> set (subtrees t)"
    and same: "same_on (covered (tree_segs m t) - span (a + 24) 8 - span (NodeProperties m a) (12 * length ps)) m m'"
    and fields: "NodeProperties m' a = P" "unat (NumberOfProperties m' a) = length ps + 1"
    and copy: "load_bytes m' P (12 * length ps) = load_bytes m (NodeProperties m a) (12 * length ps)"
    and new: "prop_rep UNIV m' (P + 12 * of_nat (length ps)) pr"
  shows "tree_rep UNIV m' par (update_node a (with_prop pr) t)"
    "tree_segs m' (update_node a (with_prop pr) t) + {#(NodeProperties m a, 12 * length ps)#}
      = tree_segs m t + {#(P, 12 * (length ps + 1)), (dp_at pr, length (dp_data pr))#}"
proof -
  let ?x = "DtNode a nm ps ks" let ?A = "span (a + 24) 8 \<union> span (NodeProperties m a) (12 * length ps)"
  have xt: "covered (tree_segs m ?x) \<subseteq> covered (tree_segs m t)" by (rule covered_mono [OF subtree_segs [OF x]])
  have sx: "separate (tree_segs m ?x)" by (rule separate_mono [OF sep subtree_segs [OF x]])
  note S = separate_node [OF sx]
  have A: "?A \<subseteq> covered (node_segs m a nm ps)" using span_sub [of 24 8 32 a] by (auto simp: node_segs_def)
  have kid: "tree_rep UNIV m' a k \<and> tree_segs m' k = tree_segs m k" if k: "k \<in> set ks" "tree_rep UNIV m a k" for k
  proof (rule tree_rep_keep [OF k(2) S(2) [OF k(1)] order_refl])
    have "covered (tree_segs m k) \<subseteq> covered (tree_segs m t)" using covered_mono [OF tree_segs_kid [OF k(1)], of m] xt by auto
    then show "same_on (covered (tree_segs m k) - span (NodeLink (dn_addr k)) 8) m m'"
      by (intro same_on_mono [OF same]) (use S(3) [OF k(1)] A in blast)
  qed
  have links: "node_span (NodeLink ` set (map dn_addr ks)) \<subseteq> covered (tree_segs m ?x) - ?A"
  proof -
    have "span (NodeLink (dn_addr k)) 8 \<subseteq> covered (tree_segs m ?x) - ?A" if k: "k \<in> set ks" for k
    proof -
      have "span (NodeLink (dn_addr k)) 8 \<subseteq> covered (tree_segs m k)" using link_own [of "dn_addr k"] node_in_segs [of k m] by blast
      moreover have "covered (tree_segs m k) \<subseteq> covered (tree_segs m ?x)" using covered_mono [OF tree_segs_kid [OF k], of m] by auto
      moreover have "covered (tree_segs m k) \<inter> ?A = {}" using S(3) [OF k] A by blast
      ultimately show ?thesis by blast
    qed
    then show ?thesis unfolding node_span_def by auto
  qed
  have nx: "covered (node_segs m a nm ps) \<subseteq> covered (tree_segs m ?x)" by simp
  have own: "same_on (covered (node_segs m a nm ps) - span (a + 24) 8 - span (NodeProperties m a) (12 * length ps)
      \<union> node_span (NodeLink ` set (map dn_addr ks))) m m'"
    by (rule same_on_mono [OF same]) (use links nx xt in blast)
  have here: "tree_rep UNIV m' par (with_prop pr ?x) \<and> tree_segs m' (with_prop pr ?x) + {#(NodeProperties m a, 12 * length ps)#}
      = tree_segs m ?x + {#(P, 12 * (length ps + 1)), (dp_at pr, length (dp_data pr))#}"
    if "tree_rep UNIV m par ?x" for par
  proof -
    have r: "node_rep UNIV m par a nm ps (map dn_addr ks)" and k: "\<forall>k\<in>set ks. tree_rep UNIV m a k" using that by simp_all
    note n = node_new_prop [OF r S(1) own fields copy new]
    have "map (tree_segs m') ks = map (tree_segs m) ks" using kid k by simp
    then have e: "sum_list (map (tree_segs m') ks) = sum_list (map (tree_segs m) ks)" by (rule arg_cong)
    have "tree_segs m' (with_prop pr ?x) + {#(NodeProperties m a, 12 * length ps)#}
        = node_segs m' a nm (ps @ [pr]) + {#(NodeProperties m a, 12 * length ps)#} + sum_list (map (tree_segs m) ks)"
      by (simp add: e)
    also have "\<dots> = tree_segs m ?x + {#(P, 12 * (length ps + 1)), (dp_at pr, length (dp_data pr))#}" unfolding n(2) by simp
    finally show ?thesis using n(1) kid k by simp
  qed
  have link: "span (NodeLink a) 8 \<subseteq> covered (tree_segs m t) - ?A"
  proof -
    have "span (NodeLink a) 8 \<inter> span (a + 24) 8 = {}" using span_disjoint_off [of 4 8 24 8 a] by (simp add: NodeLink_def)
    moreover have "span a 32 \<inter> span (NodeProperties m a) (12 * length ps) = {}" using S(1) by (auto simp: node_segs_def separate_add)
    moreover have "span a 32 \<subseteq> covered (tree_segs m t)" using xt nx by (auto simp: node_segs_def)
    ultimately show ?thesis using link_own [of a] by blast
  qed
  have same': "same_on (covered (tree_segs m t) - covered (tree_segs m ?x) \<union> (span (NodeLink (dn_addr ?x)) 8 - span (NodeLink (dn_addr t)) 8)) m m'"
    by (rule same_on_mono [OF same]) (use link nx A in auto)
  obtain par0 where p0: "tree_rep UNIV m par0 ?x" using subtree_rep [OF rep x] by blast
  have "\<And>par. tree_rep UNIV m par ?x \<Longrightarrow> tree_rep UNIV m' par (with_prop pr ?x)" using here by blast
  from tree_update [where f = "with_prop pr", OF rep sep dist x dn_addr_with_prop order_refl this same']
  have T: "tree_rep UNIV m' par (update_node a (with_prop pr) t)"
    "tree_segs m' (update_node a (with_prop pr) t) + tree_segs m ?x = tree_segs m t + tree_segs m' (with_prop pr ?x)" by simp_all
  show "tree_rep UNIV m' par (update_node a (with_prop pr) t)" by (rule T(1))
  have "tree_segs m' (update_node a (with_prop pr) t) + {#(NodeProperties m a, 12 * length ps)#} + tree_segs m ?x
      = tree_segs m t + {#(P, 12 * (length ps + 1)), (dp_at pr, length (dp_data pr))#} + tree_segs m ?x"
    using T(2) here [OF p0] by (simp add: ac_simps del: tree_segs.simps with_prop.simps)
  then show "tree_segs m' (update_node a (with_prop pr) t) + {#(NodeProperties m a, 12 * length ps)#}
      = tree_segs m t + {#(P, 12 * (length ps + 1)), (dp_at pr, length (dp_data pr))#}"
    by (rule add_right_imp_eq)
qed

section \<open>The builder's objects\<close>

lemma others_apart:
  assumes "heap_inv s rs fs" "\<forall>g\<in>#M. in_heap rs g"
  shows "others M rs \<inter> covered M = {}"
proof -
  have "ordered 1 rs" using assms(1) by (simp add: heap_inv_def)
  then show ?thesis using owned_apart [OF assms] owned_data [OF assms(2)] live_data_in_foot by blast
qed

lemma others_antimono: "M \<subseteq># N \<Longrightarrow> others N rs \<subseteq> others M rs"
proof -
  assume "M \<subseteq># N"
  then have "owned M rs \<subseteq> owned N rs" unfolding owned_def by (auto dest: mset_subset_eqD)
  then have "live rs - owned N rs \<subseteq> live rs - owned M rs" by blast
  then show ?thesis using data_of_mono by blast
qed

text \<open>The objects on the heap: those of the tree but for the root, the table, and the reserved ranges.\<close>

definition tree_objects :: "'b dt_statics_scheme \<Rightarrow> mem \<Rightarrow> dt_node \<Rightarrow> seg multiset" where
  "tree_objects L m t = tree_segs m t - root_segs L m"

abbreviation rsv_seg :: "'a dt_scheme \<Rightarrow> (u64 \<times> u64) list \<Rightarrow> seg" where
  "rsv_seg s rsv \<equiv> (BlDtRsvMem s, 16 * length rsv)"

definition objects :: "'b dt_statics_scheme \<Rightarrow> 'a dt_scheme \<Rightarrow> dt_node \<Rightarrow> dt_string list list \<Rightarrow> (u64 \<times> u64) list \<Rightarrow> seg multiset" where
  "objects L s t bk rsv = tree_objects L (memory s) t + name_segs s bk + {#rsv_seg s rsv#}"

lemma dt_segs_tables: "dt_segs s t bk rsv = tree_segs (memory s) t + name_segs s bk + {#rsv_seg s rsv#}"
  by (simp add: dt_segs_def table_segs_def)

lemma separate_same_place:
  assumes "separate M" "(a, Suc k) \<in># M" "(a, Suc l) \<in># M"
  shows "k = l"
proof (rule ccontr)
  assume "k \<noteq> l"
  then have "(a, Suc k) \<noteq> (a, Suc l)" by simp
  from separate_two [OF assms this] have "span a (Suc k) \<inter> span a (Suc l) = {}" by simp
  moreover have "a \<in> span a (Suc k)" "a \<in> span a (Suc l)" by simp_all
  ultimately show False by blast
qed

lemma root_in_tree:
  assumes I: "dt_inv L S s rs fs t bk rsv"
  shows "root_segs L (memory s) \<subseteq># tree_segs (memory s) t"
proof -
  let ?m = "memory s"
  obtain r nm ps ks where t: "t = DtNode r nm ps ks" by (cases t)
  have "dn_addr t = BlDtRootNode L" and sep: "separate (dt_segs s t bk rsv)" using I by (simp_all add: dt_inv_def)
  then have r: "r = BlDtRootNode L" by (simp add: t)
  obtain H where H: "dt_segs s t bk rsv = root_segs L ?m + H" using I by (auto simp: dt_inv_def)
  have "(NodeName ?m r, Suc 0) \<in># dt_segs s t bk rsv" unfolding H by (simp add: root_segs_def r)
  moreover have "(NodeName ?m r, Suc (length nm)) \<in># dt_segs s t bk rsv" by (simp add: dt_segs_def t node_segs_def)
  ultimately have "nm = []" using separate_same_place [OF sep] by fastforce
  then show ?thesis by (simp add: t r root_segs_def node_segs_def)
qed

lemma dt_objects:
  assumes I: "dt_inv L S s rs fs t bk rsv"
  shows "tree_segs (memory s) t = root_segs L (memory s) + tree_objects L (memory s) t"
    "dt_segs s t bk rsv = root_segs L (memory s) + objects L s t bk rsv"
    "separate (objects L s t bk rsv)" "\<forall>g\<in>#objects L s t bk rsv. in_heap rs g"
    "covered (root_segs L (memory s)) \<inter> covered (objects L s t bk rsv) = {}" "covered (root_segs L (memory s)) \<subseteq> - foot rs"
    "separate (root_segs L (memory s))"
proof -
  let ?m = "memory s"
  show T: "tree_segs ?m t = root_segs L ?m + tree_objects L ?m t"
    unfolding tree_objects_def by (rule subset_mset.add_diff_inverse [OF root_in_tree [OF I], symmetric])
  then show D: "dt_segs s t bk rsv = root_segs L ?m + objects L s t bk rsv" by (simp add: dt_segs_tables objects_def)
  have "separate (dt_segs s t bk rsv)" using I by (simp add: dt_inv_def)
  then show "separate (objects L s t bk rsv)" "covered (root_segs L ?m) \<inter> covered (objects L s t bk rsv) = {}" "separate (root_segs L ?m)"
    unfolding D separate_union by simp_all
  obtain H where H: "dt_segs s t bk rsv = root_segs L ?m + H" "\<forall>g\<in>#H. in_heap rs g" using I by (auto simp: dt_inv_def)
  have "H = objects L s t bk rsv" using H(1) D by simp
  then show "\<forall>g\<in>#objects L s t bk rsv. in_heap rs g" using H(2) by simp
  show "covered (root_segs L ?m) \<subseteq> - foot rs" using I by (auto simp: dt_inv_def)
qed

text \<open>A node and its array of properties among the objects.\<close>

lemma node_objects:
  assumes I: "dt_inv L S s rs fs t bk rsv" and x: "DtNode p pnm ps ks \<in> set (subtrees t)"
  obtains R where "tree_objects L (memory s) t = add_mset (NodeProperties (memory s) p, 12 * length ps) R"
    "span p 32 \<subseteq> covered (root_segs L (memory s)) \<or> (p, 32) \<in># R" "span p 32 \<inter> span (NodeProperties (memory s) p) (12 * length ps) = {}"
proof -
  let ?m = "memory s" let ?a = "(NodeProperties (memory s) p, 12 * length ps)"
  note D = dt_objects [OF I]
  have sub: "node_segs ?m p pnm ps \<subseteq># tree_segs ?m t" using subtree_segs [OF x, of ?m] by (simp add: subset_mset.order_trans [OF mset_subset_eq_add_left])
  then have tree: "?a \<in># tree_segs ?m t" "(p, 32) \<in># tree_segs ?m t" 
    by (intro mset_subset_eqD [OF sub]; simp add: node_segs_def)+
  have "12 * n \<noteq> 32" "12 * n \<noteq> 1" for n :: nat by presburger+
  then have no: "?a \<notin># root_segs L ?m" by (auto simp: root_segs_def)
  then have "?a \<in># tree_objects L ?m t" using tree(1) unfolding D(1) by simp
  then obtain R where R: "tree_objects L ?m t = add_mset ?a R" by (rule mset_add)
  have "?a \<noteq> (p, 32)" using \<open>12 * length ps \<noteq> 32\<close> by simp
  then have "(p, 32) \<in># root_segs L ?m \<or> (p, 32) \<in># R" using tree(2) unfolding D(1) R by auto
  moreover have "span p 32 \<subseteq> covered (root_segs L ?m)" if "(p, 32) \<in># root_segs L ?m" by (rule span_in_segs [OF that])
  moreover have "span p 32 \<inter> span (NodeProperties ?m p) (12 * length ps) = {}"
    using separate_two [OF dt_inv_tables(3) [OF I] tree(2,1)] \<open>?a \<noteq> (p, 32)\<close> by force
  ultimately show ?thesis using R that by blast
qed

section \<open>The array grows\<close>

text \<open>What is kept from the start until the entry is filled in: all objects but the old array, apart from the two fields of the node that say where the array is.\<close>

definition grown :: "'b dt_statics_scheme \<Rightarrow> 'a dt_scheme \<Rightarrow> block list \<Rightarrow> u32 \<Rightarrow> nat \<Rightarrow> seg multiset \<Rightarrow> u32 \<Rightarrow> 'a dt_scheme \<Rightarrow> block list \<Rightarrow> bool" where
  "grown L s rs p n Fr P s' rs' \<longleftrightarrow> (let m = memory s; m' = memory s'; M = add_mset (NodeProperties m p, 12 * n) Fr; M' = add_mset (P, 12 * (n + 1)) Fr in
     separate M' \<and> (\<forall>g\<in>#M'. in_heap rs' g) \<and> foot rs' \<subseteq> foot rs
     \<and> same_on (covered Fr \<union> covered (root_segs L m) - span (p + 24) 8) m m'
     \<and> NodeProperties m' p = P \<and> NumberOfProperties m' p = of_nat (n + 1) \<and> load_bytes m' P (12 * n) = load_bytes m (NodeProperties m p) (12 * n)
     \<and> others M rs \<subseteq> others M' rs' \<and> same_on (others M rs - covered (root_segs L m)) m m' \<and> heap.more s' = heap.more s)"

lemma grow_array:
  fixes s :: "'a dt_scheme"
  assumes inv: "heap_inv s rs fs" and M: "separate (add_mset (NodeProperties (memory s) p, 12 * n) Fr)"
      "\<forall>g\<in>#add_mset (NodeProperties (memory s) p, 12 * n) Fr. in_heap rs g"
    and root: "covered (root_segs L (memory s)) \<subseteq> - foot rs"
    and p: "span p 32 \<subseteq> covered (root_segs L (memory s)) \<or> (p, 32) \<in># Fr" "span p 32 \<inter> span (NodeProperties (memory s) p) (12 * n) = {}"
    and n: "unat (NumberOfProperties (memory s) p) = n" "12 * (n + 1) \<le> 2 ^ 32 - 28"
  defines "s1 \<equiv> s\<lparr>memory := store32 (memory s) (p + 28) (NumberOfProperties (memory s) p + 1)\<rparr>"
  shows "BlResizeHeap (NodeProperties (memory s1) p) (SIZEOF_BlDtProperty * NumberOfProperties (memory s1) p) 4 s1 = crash ''out of memory''
    \<or> (\<exists>P s2 rs' fs'. BlResizeHeap (NodeProperties (memory s1) p) (SIZEOF_BlDtProperty * NumberOfProperties (memory s1) p) 4 s1 = ret (P, s2)
      \<and> heap_inv (s2\<lparr>memory := store32 (memory s2) (p + 24) P\<rparr>) rs' fs' \<and> grown L s rs p n Fr P (s2\<lparr>memory := store32 (memory s2) (p + 24) P\<rparr>) rs')"
proof -
  let ?m = "memory s" let ?m1 = "memory s1" let ?P = "NodeProperties ?m p" let ?root = "covered (root_segs L ?m)"
  have parts: "span (p + 28) 4 \<subseteq> span (p + 24) 8" "span (p + 24) 4 \<subseteq> span (p + 24) 8" "span (p + 24) 8 \<subseteq> span p 32"
    "span (p + 24) 4 \<inter> span (p + 28) 4 = {}"
    using span_8_parts [of "p + 24"] span_sub [of 24 8 32 p] span_disjoint_off [of 24 4 28 4 p] by (simp_all add: add.assoc)
  have M1: "separate Fr" "\<forall>g\<in>#Fr. in_heap rs g" "in_heap rs (?P, 12 * n)" "span ?P (12 * n) \<inter> covered Fr = {}"
    using M by (simp_all add: separate_add)
  have here: "span p 32 \<subseteq> ?root \<union> covered Fr" using p(1) span_in_segs by blast
  have apart: "others (add_mset (?P, 12 * n) Fr) rs \<inter> covered (add_mset (?P, 12 * n) Fr) = {}" by (rule others_apart [OF inv M(2)])
  have "ordered 1 rs" using inv by (simp add: heap_inv_def)
  then have heap: "covered Fr \<subseteq> live_data rs" "live_data rs \<subseteq> foot rs" using owned_data [OF M1(2)] live_data_in_foot by blast+
  have out1: "same_outside (span (p + 28) 4) ?m ?m1" by (simp add: s1_def store32_same_outside)
  have inv1: "heap_inv s1 rs fs" unfolding s1_def
    by (rule heap_inv_data [OF inv store32_same_outside]) (use parts here heap root in blast)
  have num: "NumberOfProperties ?m p + 1 = of_nat (n + 1)" using of_nat_unat_eq [OF n(1)] by (simp add: add.commute)
  have P1: "NodeProperties ?m1 p = ?P" "NumberOfProperties ?m1 p = of_nat (n + 1)"
    using parts(4) num by (simp_all add: s1_def NodeProperties_def NumberOfProperties_def load32_store32_disjoint Int_commute)
  have sz: "SIZEOF_BlDtProperty * of_nat (n + 1) = of_nat (12 * (n + 1))" by (simp add: SIZEOF_BlDtProperty_def)
  have un: "unat (of_nat (12 * (n + 1)) :: u32) = 12 * (n + 1)" by (rule unat_of_nat32) (use n(2) in simp)
  have R: "4 dvd 12 * n" "12 * n \<le> 12 * (n + 1)" "12 * (n + 1) \<le> 12 * n + 24" "4 dvd 12 * (n + 1)" "0 < 12 * (n + 1)" "(4 :: u32) = 2 ^ 2" "(2 :: nat) < 32"
    by simp_all
  have run: "BlResizeHeap (NodeProperties ?m1 p) (SIZEOF_BlDtProperty * NumberOfProperties ?m1 p) 4 s1 = BlResizeHeap ?P (of_nat (12 * (n + 1))) 4 s1"
    by (simp only: P1 sz)
  from resize_object [OF inv1 M1(3) R(1-5) n(2) R(6,7) un] show ?thesis
  proof (elim disjE exE conjE)
    fix P rs' fs' and s2 :: "'a dt_scheme"
    assume A: "BlResizeHeap ?P (of_nat (12 * (n + 1))) 4 s1 = ret (P, s2)" "heap_inv s2 rs' fs'"
      "replaces {#(?P, 12 * n)#} s1 rs {#(P, 12 * (n + 1))#} s2 rs'" "load_bytes (memory s2) P (12 * n) = load_bytes ?m1 ?P (12 * n)" "heap.more s2 = heap.more s1"
    let ?m2 = "memory s2" let ?m3 = "store32 (memory s2) (p + 24) P" let ?M' = "add_mset (P, 12 * (n + 1)) Fr"
    have "covered {#(?P, 12 * n)#} \<inter> covered Fr = {}" using M1(4) by simp
    note F = replaces_frame [OF A(3) inv1 A(2) M1(2,1) this, simplified]
    note O = replaces_others [OF F(1) A(2)]
    have M': "separate ?M'" "\<forall>g\<in>#?M'. in_heap rs' g" and ft: "foot rs' \<subseteq> foot rs" using F(1) by (simp_all add: replaces_def)
    have new: "covered Fr \<subseteq> live_data rs'" "span P (12 * (n + 1)) \<subseteq> live_data rs'" "span P (12 * (n + 1)) \<inter> covered Fr = {}"
      using owned_data [OF M'(2)] M'(1) by (simp_all add: separate_add)
    have "ordered 1 rs'" using A(2) by (simp add: heap_inv_def)
    then have "live_data rs' \<subseteq> foot rs" using live_data_in_foot ft by blast
    then have Pp: "span (p + 24) 4 \<inter> span P (12 * (n + 1)) = {}" using parts here new root by blast
    have out3: "same_outside (span (p + 24) 4) ?m2 ?m3" by (rule store32_same_outside)
    have "heap_inv (s2\<lparr>memory := ?m3\<rparr>) rs' fs'"
      by (rule heap_inv_data [OF A(2) out3]) (use parts here new root ft in blast)
    moreover have k2: "same_on (covered Fr \<union> ?root) ?m1 ?m2"
    proof -
      have "same_on (others (add_mset (?P, 12 * n) Fr) rs) ?m1 ?m2" by (rule O(3))
      then have "same_on ?root ?m1 ?m2" by (rule same_on_mono) (use root in blast)
      then show ?thesis using F(2) by (auto simp: same_on_def)
    qed
    moreover have "same_on (covered Fr \<union> ?root - span (p + 24) 8) ?m ?m3"
      by (rule same_on_trans [OF same_outside_on [OF out1] same_on_trans [OF same_on_mono [OF k2] same_outside_on [OF out3]]]) (use parts in blast)+
    moreover have "NodeProperties ?m3 p = P" by (simp add: NodeProperties_def)
    moreover have "NumberOfProperties ?m3 p = of_nat (n + 1)"
    proof -
      have "same_on (span (p + 28) 4) ?m1 ?m3"
        by (rule same_on_trans [OF same_on_mono [OF k2] same_outside_on [OF out3]]) (use parts here in blast)+
      then show ?thesis using P1(2) by (simp add: NumberOfProperties_def load32_same_on)
    qed
    moreover have "load_bytes ?m3 P (12 * n) = load_bytes ?m ?P (12 * n)"
    proof -
      have le: "12 * n \<le> 2 ^ 32" using n(2) by simp
      have "span P (12 * n) \<subseteq> span P (12 * (n + 1))" by (rule span_mono) simp
      then have "load_bytes ?m3 P (12 * n) = load_bytes ?m2 P (12 * n)"
        by (intro load_bytes_same_on same_outside_on [OF out3]) (use Pp le in auto)
      moreover have "load_bytes ?m1 ?P (12 * n) = load_bytes ?m ?P (12 * n)"
        by (intro load_bytes_same_on same_outside_on [OF out1]) (use p(2) parts le in auto)
      ultimately show ?thesis using A(4) by simp
    qed
    moreover have "same_on (others (add_mset (?P, 12 * n) Fr) rs - ?root) ?m ?m3"
    proof -
      have "span (p + 24) 8 \<inter> (others (add_mset (?P, 12 * n) Fr) rs - ?root) = {}" using parts(3) here apart by auto
      then show ?thesis
        by (intro same_on_trans [OF same_outside_on [OF out1] same_on_trans [OF same_on_mono [OF O(3)] same_outside_on [OF out3]]]) (use parts in blast)+
    qed
    moreover have "heap.more (s2\<lparr>memory := ?m3\<rparr>) = heap.more s" using A(5) by (simp add: s1_def)
    moreover have "others (add_mset (?P, 12 * n) Fr) rs \<subseteq> others ?M' rs'" using O(2) by (simp add: algebra_simps)
    moreover have mem: "memory (s2\<lparr>memory := ?m3\<rparr>) = ?m3" by simp
    ultimately have "heap_inv (s2\<lparr>memory := ?m3\<rparr>) rs' fs'" "grown L s rs p n Fr P (s2\<lparr>memory := ?m3\<rparr>) rs'"
      unfolding grown_def Let_def mem using M' ft by - (assumption, (intro conjI; assumption))
    moreover have "BlResizeHeap (NodeProperties ?m1 p) (SIZEOF_BlDtProperty * NumberOfProperties ?m1 p) 4 s1 = ret (P, s2)" by (simp only: run A(1))
    ultimately show ?thesis by blast
  qed (simp only: run simp_thms)
qed

section \<open>The name is interned\<close>

definition table_fields :: "'a dt_scheme \<Rightarrow> u32 \<times> u32 \<times> u32 \<times> u32" where
  "table_fields s = (BlDtStrings s, BlDtStringsCount s, BlDtStringsCapacity s, BlDtStringsSize s)"

lemma table_keep:
  fixes s s' :: "'a dt_scheme"
  assumes t: "table_inv s bk" and same: "same_on (covered (name_segs s bk)) (memory s) (memory s')" and f: "table_fields s' = table_fields s"
  shows "table_inv s' bk" "name_segs s' bk = name_segs s bk"
proof -
  have rep: "strings_rep UNIV (memory s) (BlDtStrings s) bk" using t by (simp add: table_inv_def)
  have "same_on (span (BlDtStrings s) (8 * length bk) \<union> covered (string_segs (memory s) (concat bk))) (memory s) (memory s')"
    using same by (simp add: table_segs_def)
  from strings_keep [OF rep this] show "table_inv s' bk" "name_segs s' bk = name_segs s bk"
    using t f by (simp_all add: table_inv_def table_segs_def table_fields_def)
qed

text \<open>How far the table of names may have grown after \<open>nm\<close> was looked up.\<close>

definition names_grown :: "dt_string list list \<Rightarrow> u8 list \<Rightarrow> dt_string list list \<Rightarrow> bool" where
  "names_grown bk nm nb \<longleftrightarrow> set (concat bk) \<subseteq> set (concat nb) \<and> length (concat nb) \<le> length (concat bk) + 1
     \<and> length (strs_bytes (concat nb)) \<le> length (strs_bytes (concat bk)) + length nm + 1"

lemma names_grown_refl: "names_grown bk nm bk"
  by (simp add: names_grown_def)

lemma names_grown_add:
  assumes "mset (concat nb) = add_mset (e, nm) (mset (concat bk))"
  shows "names_grown bk nm nb"
proof -
  have "mset (concat nb) = mset ((e, nm) # concat bk)" using assms by simp
  from mset_eq_setD [OF this] mset_eq_length [OF this] show ?thesis by (auto simp: names_grown_def strs_length assms)
qed

lemma get_string_step:
  fixes s :: "'a dt_scheme"
  assumes inv: "heap_inv s rs fs" and t: "table_inv s bk" and own: "separate (name_segs s bk + Fr)" "\<forall>g\<in>#name_segs s bk + Fr. in_heap rs g"
    and gi: "given_in (others (name_segs s bk + Fr) rs) (memory s) str nm"
    and size: "length (concat bk) < 2 ^ 24" "length (strs_bytes (concat bk)) + length nm + 1 < 2 ^ 32"
  shows "BlDtGetString str s = crash ''out of memory'' \<and> nm \<notin> snd ` set (concat bk) \<or> (\<exists>e s' rs' fs' nb. BlDtGetString str s = ret (e, s')
    \<and> heap_inv s' rs' fs' \<and> replaces (name_segs s bk + Fr) s rs (name_segs s' nb + Fr) s' rs' \<and> same_on (covered Fr) (memory s) (memory s')
    \<and> table_inv s' nb \<and> (e, nm) \<in> set (concat nb) \<and> names_grown bk nm nb \<and> dt_rest s' = dt_rest s)"
proof -
  have sep: "separate (name_segs s bk)" "separate Fr" "covered (name_segs s bk) \<inter> covered Fr = {}"
    and h: "\<forall>g\<in>#name_segs s bk. in_heap rs g" "\<forall>g\<in>#Fr. in_heap rs g"
    using own by (simp_all add: separate_union)
  have "others (name_segs s bk + Fr) rs \<subseteq> others (name_segs s bk) rs" by (rule others_antimono) simp
  note G = BlDtGetString_spec [OF inv t sep(1) h(1) given_in_mono [OF gi this] size]
  show ?thesis
  proof (cases "nm \<in> snd ` set (concat bk)")
    case True
    then obtain e where e: "(e, nm) \<in> set (concat bk)" "BlDtGetString str s = ret (e, s)" using G by auto
    have "replaces (name_segs s bk + Fr) s rs (name_segs s bk + Fr) s rs" using own by (auto simp: replaces_def)
    then show ?thesis using e inv t same_on_refl names_grown_refl by blast
  next
    case False
    then have "BlDtGetString str s = crash ''out of memory'' \<or> (\<exists>e s' rs' fs' nb. BlDtGetString str s = ret (e, s')
      \<and> heap_inv s' rs' fs' \<and> replaces (name_segs s bk) s rs (name_segs s' nb) s' rs' \<and> table_inv s' nb
      \<and> mset (concat nb) = add_mset (e, nm) (mset (concat bk)) \<and> dt_rest s' = dt_rest s)"
      using G by (simp only: if_False)
    then show ?thesis
    proof (elim disjE exE conjE)
      fix e rs' fs' nb and s' :: "'a dt_scheme"
      assume A: "BlDtGetString str s = ret (e, s')" "heap_inv s' rs' fs'" "replaces (name_segs s bk) s rs (name_segs s' nb) s' rs'" "table_inv s' nb"
        "mset (concat nb) = add_mset (e, nm) (mset (concat bk))" "dt_rest s' = dt_rest s"
      have "set (concat nb) = insert (e, nm) (set (concat bk))" using mset_eq_setD [of "concat nb" "(e, nm) # concat bk"] A(5) by simp
      then have "(e, nm) \<in> set (concat nb)" "names_grown bk nm nb" using names_grown_add [OF A(5)] by blast+
      then show ?thesis using A(1,2,4,6) replaces_frame [OF A(3) inv A(2) h(2) sep(2,3)] by blast
    qed (use False in simp)
  qed
qed

section \<open>The entry is filled in\<close>

lemma filled_entry:
  fixes e :: u32
  assumes dat: "holds m dat ds" "fits dat (length ds)" "span dat (length ds) \<inter> span q 12 = {}" and sz: "unat sz = length ds"
  defines "m' \<equiv> store32 (store32 (store32 m q e) (q + 4) dat) (q + 8) sz"
  shows "same_outside (span q 12) m m'" "prop_rep UNIV m' q (DtProp e nm dat ds)"
proof -
  have s: "span q 4 \<subseteq> span q 12" "span (q + 4) 4 \<subseteq> span q 12" "span (q + 8) 4 \<subseteq> span q 12"
    "span (q + 4) 4 \<inter> span q 4 = {}" "span (q + 8) 4 \<inter> span q 4 = {}" "span (q + 8) 4 \<inter> span (q + 4) 4 = {}"
    using span_sub [of 0 4 12 q] span_sub [of 4 4 12 q] span_sub [of 8 4 12 q] span_disjoint_off [of 0 4 4 4 q] span_disjoint_off [of 0 4 8 4 q]
      span_disjoint_off [of 4 4 8 4 q] by (simp_all add: Int_commute)
  show out: "same_outside (span q 12) m m'" unfolding m'_def
    by (intro same_on_trans [OF same_outside_mono [OF store32_same_outside s(1)] same_on_trans [OF same_outside_mono [OF store32_same_outside s(2)]
          same_outside_mono [OF store32_same_outside s(3)]]])
  have "holds m' dat ds" using holds_same [OF dat(1) same_outside_on [OF out]] dat(2,3) fits_le [OF dat(2)] by (simp add: Int_commute)
  moreover have "PropName m' q = e" "PropData m' q = dat" "PropSize m' q = sz"
    using s by (simp_all add: m'_def PropName_def PropData_def PropSize_def load32_store32_disjoint)
  ultimately show "prop_rep UNIV m' q (DtProp e nm dat ds)" using dat(2) sz by (simp add: prop_rep_def bytes_at_def)
qed

text \<open>The sizes a property adds.\<close>

lemma prop_sums:
  fixes pr :: dt_prop
  assumes dist: "distinct (addrs t)" and x: "DtNode p pnm ps ks \<in> set (subtrees t)"
  defines "t' \<equiv> update_node p (with_prop pr) t"
  shows "mset (addrs t') = mset (addrs t)" "set (props_of t') = insert pr (set (props_of t))"
    "node_size (fdt_of t') = node_size (fdt_of t) + (12 + up4 (length (dp_data pr)))"
proof -
  note U = update_sums [OF dist x, of "with_prop pr", unfolded dt_node.sel, folded t'_def]
  show "mset (addrs t') = mset (addrs t)" using U(1) by simp
  have "mset (props_of t') = add_mset pr (mset (props_of t))" using U(2) by simp
  then show "set (props_of t') = insert pr (set (props_of t))" using mset_eq_setD [of "props_of t'" "pr # props_of t"] by simp
  show "node_size (fdt_of t') = node_size (fdt_of t) + (12 + up4 (length (dp_data pr)))" using U(3) by simp
qed

lemma prop_filled:
  fixes s s3 s4 :: "'a dt_scheme"
  assumes I: "dt_inv L S s rs fs t bk rsv" and x: "DtNode p pnm ps ks \<in> set (subtrees t)"
    and R: "tree_objects L (memory s) t = add_mset (NodeProperties (memory s) p, 12 * length ps) R"
    and p: "span p 32 \<subseteq> covered (root_segs L (memory s)) \<or> (p, 32) \<in># R"
    and G: "grown L s rs p (length ps) (add_mset (dat, length ds) (R + name_segs s bk + {#rsv_seg s rsv#})) P s3 rs2"
    and n: "12 * (length ps + 1) \<le> 2 ^ 32 - 28"
    and s4: "heap_inv s4 rs4 fs4" "foot rs4 \<subseteq> foot rs2" "separate (name_segs s4 nb + F2)" "\<forall>g\<in>#name_segs s4 nb + F2. in_heap rs4 g"
      "same_on (covered F2 \<union> covered (root_segs L (memory s))) (memory s3) (memory s4)" "table_inv s4 nb" "(e, nm) \<in> set (concat nb)"
      "set (concat bk) \<subseteq> set (concat nb)" "dt_rest s4 = dt_rest s3"
    and F2: "F2 = add_mset (dat, length ds) (add_mset (P, 12 * (length ps + 1)) (R + {#rsv_seg s rsv#}))"
    and dat: "holds (memory s) dat ds" "unat sz = length ds"
    and size: "node_size (fdt_of t) + 16 + up4 (length ds) < 2 ^ 32"
  defines "q \<equiv> P + 12 * of_nat (length ps)"
  defines "m \<equiv> store32 (store32 (store32 (memory s4) q e) (q + 4) dat) (q + 8) sz"
  defines "s5 \<equiv> s4\<lparr>memory := m, BlDtStructureSize := BlDtStructureSize s4 + BL_DT_PROP_SIZE sz\<rparr>"
  defines "t' \<equiv> update_node p (with_prop (DtProp e nm dat ds)) t"
  shows "dt_inv L S s5 rs4 fs4 t' nb rsv" "objects L s5 t' nb rsv = name_segs s4 nb + F2" "same_outside (span q 12) (memory s4) m"
    "span q 12 \<subseteq> covered F2"
proof -
  let ?m0 = "memory s" let ?P0 = "NodeProperties ?m0 p" let ?n = "length ps" let ?root = "root_segs L ?m0"
  let ?pr = "DtProp e nm dat ds"
  note D = dt_objects [OF I]
  have obj: "objects L s t bk rsv = add_mset (?P0, 12 * ?n) (R + name_segs s bk + {#rsv_seg s rsv#})" by (simp add: objects_def R)
  have rep: "tree_rep UNIV ?m0 0 t" and dist: "distinct (addrs t)" and rt: "dn_addr t = BlDtRootNode L" using I by (simp_all add: dt_inv_def)
  have G': "same_on (covered (R + {#rsv_seg s rsv#}) \<union> span dat (length ds) \<union> covered ?root - span (p + 24) 8) ?m0 (memory s3)"
      "NodeProperties (memory s3) p = P" "NumberOfProperties (memory s3) p = of_nat (?n + 1)"
      "load_bytes (memory s3) P (12 * ?n) = load_bytes ?m0 ?P0 (12 * ?n)" "foot rs2 \<subseteq> foot rs" "heap.more s3 = heap.more s"
    using G unfolding grown_def Let_def by (auto intro: same_on_mono)
  note more = heap_more_dt [OF G'(6)]
  have F: "separate F2" "\<forall>g\<in>#F2. in_heap rs4 g" using s4(3,4) by (simp_all add: separate_union)
  have parts: "fits dat (length ds)" "span dat (length ds) \<inter> span P (12 * (?n + 1)) = {}" "fits P (12 * (?n + 1))"
    "span P (12 * (?n + 1)) \<inter> covered (R + {#rsv_seg s rsv#}) = {}"
    using F(1) unfolding F2 by (auto simp: separate_add)
  have q: "span q 12 \<subseteq> span P (12 * (?n + 1))" using props_fit [of ?n "ps @ [?pr]" P] parts(3) by (simp add: q_def)
  then show qF: "span q 12 \<subseteq> covered F2" unfolding F2 by auto
  have "ordered 1 rs4" using s4(1) by (simp add: heap_inv_def)
  then have heap4: "covered F2 \<subseteq> live_data rs4" "live_data rs4 \<subseteq> foot rs4" "covered (name_segs s4 nb) \<subseteq> live_data rs4"
  proof -
    have "\<forall>g\<in>#name_segs s4 nb. in_heap rs4 g" using s4(4) by simp
    then show "covered (name_segs s4 nb) \<subseteq> live_data rs4" by (rule owned_data)
    show "covered F2 \<subseteq> live_data rs4" by (rule owned_data [OF F(2)])
    show "live_data rs4 \<subseteq> foot rs4" by (rule live_data_in_foot) fact
  qed
  have root: "covered ?root \<inter> live_data rs4 = {}" using D(6) heap4(2) s4(2) G'(5) by blast
  have datm: "holds (memory s4) dat ds"
  proof -
    have "span dat (length ds) \<subseteq> covered F2" unfolding F2 by simp
    then have k: "same_on (span dat (length ds)) (memory s3) (memory s4)" by (rule same_on_mono [OF s4(5) le_supI1])
    have "span dat (length ds) \<inter> covered (R + {#rsv_seg s rsv#}) = {}" using F(1) unfolding F2 separate_add by auto
    moreover have "span dat (length ds) \<subseteq> live_data rs4" using heap4(1) unfolding F2 by simp
    ultimately have "span p 32 \<inter> span dat (length ds) = {}" using p root span_in_segs [of p 32 R] by auto
    moreover have "span (p + 24) 8 \<subseteq> span p 32" using span_sub [of 24 8 32 p] by simp
    ultimately have "same_on (span dat (length ds)) ?m0 (memory s3)" by (intro same_on_mono [OF G'(1)]) blast
    from holds_same [OF dat(1) same_on_trans [OF this k]] fits_le [OF parts(1)] show ?thesis by simp
  qed
  have dq: "span dat (length ds) \<inter> span q 12 = {}" using parts(2) q by blast
  note E = filled_entry(1) [OF datm parts(1) dq dat(2), of e, folded m_def] filled_entry(2) [OF datm parts(1) dq dat(2), of e nm, folded m_def]
  show "same_outside (span q 12) (memory s4) m" by (rule E(1))
  have qR: "span q 12 \<inter> (covered (R + {#rsv_seg s rsv#}) \<union> covered ?root) = {}" using q parts(4) qF heap4(1) root by blast
  have R2: "covered (R + {#rsv_seg s rsv#}) \<subseteq> covered F2" unfolding F2 by auto
  have k3: "same_on (covered (R + {#rsv_seg s rsv#}) \<union> covered ?root) (memory s3) m"
    by (rule same_on_trans [OF same_on_mono [OF s4(5)] same_outside_on [OF E(1) qR]]) (use R2 in blast)
  have k0: "same_on (covered (R + {#rsv_seg s rsv#}) \<union> covered ?root - span (p + 24) 8) ?m0 m"
    by (rule same_on_trans [OF same_on_mono [OF G'(1)] same_on_mono [OF k3]]) auto
  have here: "span p 32 \<subseteq> covered (R + {#rsv_seg s rsv#}) \<union> covered ?root" using p span_in_segs [of p 32 R] by auto
  have off: "span (p + 24) 4 \<subseteq> span p 32" "span (p + 28) 4 \<subseteq> span p 32" "span (p + 24) 8 \<subseteq> span p 32"
    using span_sub [of 24 4 32 p] span_sub [of 28 4 32 p] span_sub [of 24 8 32 p] by simp_all
  have f: "NodeProperties m p = P" "NumberOfProperties m p = of_nat (?n + 1)"
    using G'(2,3) load32_same_on [OF same_on_mono [OF k3, of "span (p + 24) 4"]] load32_same_on [OF same_on_mono [OF k3, of "span (p + 28) 4"]] here off
    by (auto simp: NodeProperties_def NumberOfProperties_def)
  have "unat (of_nat (?n + 1) :: u32) = ?n + 1" by (rule unat_of_nat32) (use n in simp)
  then have f2: "unat (NumberOfProperties m p) = ?n + 1" by (simp only: f(2))
  have le: "12 * ?n \<le> 2 ^ 32" using n by simp
  have copy: "load_bytes m P (12 * ?n) = load_bytes ?m0 ?P0 (12 * ?n)"
  proof -
    have "span P (12 * ?n) \<inter> span q 12 = {}"
      using span_disjoint_off [of 0 "12 * ?n" "12 * ?n" 12 P] n by (simp add: q_def)
    moreover have "span P (12 * ?n) \<subseteq> covered F2" using span_mono [of "12 * ?n" "12 * (?n + 1)" P] unfolding F2 by auto
    ultimately have "same_on (span P (12 * ?n)) (memory s3) m"
      by (intro same_on_trans [OF same_on_mono [OF s4(5)] same_outside_on [OF E(1)]]) blast+
    from load_bytes_same_on [OF this le] G'(4) show ?thesis by simp
  qed
  have tree: "covered (tree_segs ?m0 t) - span (p + 24) 8 - span ?P0 (12 * ?n) \<subseteq> covered (R + {#rsv_seg s rsv#}) \<union> covered ?root - span (p + 24) 8"
    unfolding D(1) R by auto
  note T = tree_new_prop [OF rep dt_inv_tables(3) [OF I] dist x same_on_mono [OF k0 tree] f(1) f2 copy E(2) [unfolded q_def], folded t'_def]
  have segs: "tree_segs m t' = ?root + add_mset (dat, length ds) (add_mset (P, 12 * (?n + 1)) R)"
  proof -
    have "tree_segs m t' + {#(?P0, 12 * ?n)#} = ?root + add_mset (dat, length ds) (add_mset (P, 12 * (?n + 1)) R) + {#(?P0, 12 * ?n)#}"
      using T(2) unfolding D(1) R by (simp add: ac_simps add_mset_commute)
    then show ?thesis by (rule add_right_imp_eq)
  qed
  have "span (BlDtRootNode L + 12) 4 \<subseteq> covered ?root - span (p + 24) 8"
  proof -
    have r32: "span (BlDtRootNode L) 32 \<subseteq> covered ?root" by (simp add: root_segs_def)
    have in_r: "span (BlDtRootNode L + 12) 4 \<subseteq> span (BlDtRootNode L) 32" using span_sub [of 12 4 32 "BlDtRootNode L"] by simp
    have pt: "p \<in> set (addrs t)" "BlDtRootNode L \<in> set (addrs t)" using node_addr_in [OF x] node_addr_in [OF self_subtree, of t] rt by simp_all
    have "span (BlDtRootNode L + 12) 4 \<inter> span (p + 24) 8 = {}"
    proof (cases "p = BlDtRootNode L")
      case True
      then show ?thesis using span_disjoint_off [of 12 4 24 8 p] by simp
    next
      case False
      then show ?thesis using tree_nodes_apart [OF dt_inv_tables(3) [OF I] pt] in_r off(3) by blast
    qed
    then show ?thesis using r32 in_r by blast
  qed
  then have "NodeName m (BlDtRootNode L) = NodeName ?m0 (BlDtRootNode L)"
    using load32_same_on [OF same_on_mono [OF k0]] unfolding NodeName_def by blast
  then have r: "root_segs L m = ?root" by (simp add: root_segs_def)
  have mem: "memory s5 = m" by (simp add: s5_def)
  have "same_on (covered (name_segs s4 nb)) (memory s4) (memory s5)"
    unfolding mem by (rule same_outside_on [OF E(1)]) (use s4(3) qF in \<open>auto simp: separate_union\<close>)
  note N = table_keep [OF s4(6) this]
  have stat: "table_fields s5 = table_fields s4" by (simp add: s5_def table_fields_def)
  have rest: "BlDtRsvMem s5 = BlDtRsvMem s" "BlDtRsvMemCount s5 = BlDtRsvMemCount s" "BlDtStructureSize s4 = BlDtStructureSize s"
    using s4(9) more by (simp_all add: s5_def dt_rest_def)
  have tobj: "tree_objects L m t' = add_mset (dat, length ds) (add_mset (P, 12 * (?n + 1)) R)" by (simp add: tree_objects_def segs r)
  show objs: "objects L s5 t' nb rsv = name_segs s4 nb + F2"
    unfolding objects_def mem tobj N(2) [OF stat, unfolded mem] rest(1) F2 by (simp add: ac_simps)
  have D5: "dt_segs s5 t' nb rsv = root_segs L m + (name_segs s4 nb + F2)"
  proof -
    have "tree_segs m t' = root_segs L m + tree_objects L m t'" using segs tobj r by simp
    then have "dt_segs s5 t' nb rsv = root_segs L m + objects L s5 t' nb rsv" by (simp add: dt_segs_tables objects_def mem)
    then show ?thesis by (simp only: objs)
  qed
  note U = prop_sums [OF dist x, of ?pr, folded t'_def]
  show "dt_inv L S s5 rs4 fs4 t' nb rsv" unfolding dt_inv_def
  proof (intro conjI)
    have "heap_inv (s4\<lparr>memory := m\<rparr>) rs4 fs4" by (rule heap_inv_data [OF s4(1) E(1)]) (use qF heap4(1) in blast)
    moreover have "heap_inv s5 rs4 fs4 = heap_inv (s4\<lparr>memory := m\<rparr>) rs4 fs4" by (rule heap_inv_alike) (simp_all add: s5_def)
    ultimately show "heap_inv s5 rs4 fs4" by simp
    show "S \<inter> foot rs4 = {}" using I s4(2) G'(5) by (auto simp: dt_inv_def)
    show "tree_rep UNIV (memory s5) 0 t'" using T(1) by (simp only: mem)
    show "dn_addr t' = BlDtRootNode L" using update_node_addr [of "with_prop ?pr"] rt by (simp add: t'_def)
    show "distinct (addrs t')" using mset_eq_imp_distinct_iff [OF U(1)] dist by simp
    show "separate (dt_segs s5 t' nb rsv)"
    proof -
      have "covered (name_segs s4 nb + F2) \<subseteq> live_data rs4" using heap4(1,3) by simp
      then have "covered ?root \<inter> covered (name_segs s4 nb + F2) = {}" using root by blast
      then show ?thesis unfolding D5 r separate_union [of ?root] using D(7) s4(3) by blast
    qed
    show "covered (root_segs L (memory s5)) \<subseteq> S" using I by (simp add: mem r dt_inv_def)
    show "\<exists>H. dt_segs s5 t' nb rsv = root_segs L (memory s5) + H \<and> (\<forall>g\<in>#H. in_heap rs4 g)" using D5 s4(4) mem by blast
    show "table_inv s5 nb" by (rule N(1) [OF stat])
    show "\<forall>p\<in>set (props_of t'). (dp_entry p, dp_name p) \<in> set (concat nb)"
      using I s4(7,8) unfolding U(2) dt_inv_def by (auto simp del: set_concat)
    show "unat (BlDtStructureSize s5) = node_size (fdt_of t') + 4"
    proof -
      have "up4 (length ds) < 2 ^ 32" using size by simp
      moreover have "length ds < 2 ^ 32" using dat(2) unat_lt32 [of sz] by simp
      then have szw: "sz = of_nat (length ds)" using of_nat_unat_eq [OF dat(2)] by simp
      ultimately have b: "BL_DT_PROP_SIZE sz = of_nat (12 + up4 (length ds))" unfolding szw BL_DT_PROP_SIZE_def by (simp add: align_up4)
      have c: "unat (BlDtStructureSize s) = node_size (fdt_of t) + 4" using I by (simp add: dt_inv_def)
      have "BlDtStructureSize s5 = of_nat (node_size (fdt_of t) + 4 + (12 + up4 (length ds)))"
        unfolding s5_def using b rest(3) of_nat_unat_eq [OF c] by simp
      moreover have "unat (of_nat (node_size (fdt_of t) + 4 + (12 + up4 (length ds))) :: u32) = node_size (fdt_of t) + 4 + (12 + up4 (length ds))"
        by (rule unat_of_nat32) (use size in simp)
      ultimately show ?thesis unfolding U(3) by simp
    qed
    have rsv_in: "span (BlDtRsvMem s) (16 * length rsv) \<subseteq> covered (R + {#rsv_seg s rsv#}) \<union> covered ?root - span (p + 24) 8"
    proof -
      have "span (BlDtRsvMem s) (16 * length rsv) \<inter> covered (tree_segs ?m0 t) = {}" using dt_inv_tables(2) [OF I] by (auto simp: table_area_def)
      moreover have "span (p + 24) 8 \<subseteq> covered (tree_segs ?m0 t)" using off(3) p span_in_segs [of p 32 R] unfolding D(1) R by auto
      ultimately show ?thesis by auto
    qed
    have "rsv_rep UNIV ?m0 (BlDtRsvMem s) rsv" using I by (simp add: dt_inv_def)
    from rsv_keep [OF this same_on_mono [OF k0 rsv_in]] show "rsv_rep UNIV (memory s5) (BlDtRsvMem s5) rsv" by (simp only: mem rest(1))
    show "unat (BlDtRsvMemCount s5) = length rsv" using I by (simp add: rest(2) dt_inv_def)
  qed
qed

section \<open>Adding a property\<close>

text \<open>What a step of the builder that turns the objects \<open>M\<close> into \<open>M'\<close> leaves alone: all memory but them and the root node.\<close>

definition builder_step ::
    "'b dt_statics_scheme \<Rightarrow> 'a dt_scheme \<Rightarrow> block list \<Rightarrow> seg multiset \<Rightarrow> 'a dt_scheme \<Rightarrow> block list \<Rightarrow> seg multiset \<Rightarrow> bool" where
  "builder_step L s rs M s' rs' M' \<longleftrightarrow> foot rs' \<subseteq> foot rs \<and> others M rs \<subseteq> others M' rs'
     \<and> same_on (others M rs - covered (root_segs L (memory s))) (memory s) (memory s')"

text \<open>Making room for one more entry, the first thing it does.\<close>

abbreviation more_entries :: "u32 \<Rightarrow> 'a dt_scheme \<Rightarrow> (u32 \<times> 'a dt_scheme) run" where
  "more_entries p s \<equiv> (let s1 = s\<lparr>memory := store32 (memory s) (p + 28) (NumberOfProperties (memory s) p + 1)\<rparr>
     in BlResizeHeap (NodeProperties (memory s1) p) (SIZEOF_BlDtProperty * NumberOfProperties (memory s1) p) 4 s1)"

lemma BlDtDoAddProperty_spec:
  fixes s :: "'a dt_scheme"
  assumes I: "dt_inv L S s rs fs t bk rsv" and x: "DtNode p pnm ps ks \<in> set (subtrees t)" and par: "p = (if parent = 0 then BlDtRootNode L else parent)"
    and obj: "separate (add_mset (dat, length ds) (objects L s t bk rsv))" "in_heap rs (dat, length ds)"
    and dat: "holds (memory s) dat ds" "unat sz = length ds"
    and gi: "given_in (others (add_mset (dat, length ds) (objects L s t bk rsv)) rs - covered (root_segs L (memory s))) (memory s) name nm"
    and n: "12 * (length ps + 1) \<le> 2 ^ 32 - 28"
    and names: "length (concat bk) < 2 ^ 24" "length (strs_bytes (concat bk)) + length nm + 1 < 2 ^ 32"
    and size: "node_size (fdt_of t) + 16 + up4 (length ds) < 2 ^ 32"
  shows "BlDtDoAddProperty L parent name dat sz s = crash ''out of memory'' \<and> (nm \<in> snd ` set (concat bk) \<longrightarrow> more_entries p s = crash ''out of memory'')
    \<or> (\<exists>e s' rs' fs' nb. BlDtDoAddProperty L parent name dat sz s = ret s'
    \<and> dt_inv L S s' rs' fs' (update_node p (with_prop (DtProp e nm dat ds)) t) nb rsv \<and> names_grown bk nm nb
    \<and> builder_step L s rs (add_mset (dat, length ds) (objects L s t bk rsv)) s' rs' (objects L s' (update_node p (with_prop (DtProp e nm dat ds)) t) nb rsv))"
proof -
  let ?m = "memory s" let ?P0 = "NodeProperties ?m p" let ?n = "length ps" let ?root = "root_segs L ?m"
  note D = dt_objects [OF I]
  have inv: "heap_inv s rs fs" using I by (simp add: dt_inv_def)
  obtain R where R: "tree_objects L ?m t = add_mset (?P0, 12 * ?n) R" "span p 32 \<subseteq> covered ?root \<or> (p, 32) \<in># R"
    "span p 32 \<inter> span ?P0 (12 * ?n) = {}" by (rule node_objects [OF I x])
  let ?Fr = "add_mset (dat, length ds) (R + name_segs s bk + {#rsv_seg s rsv#})"
  have M: "add_mset (dat, length ds) (objects L s t bk rsv) = add_mset (?P0, 12 * ?n) ?Fr" by (simp add: objects_def R(1) add_mset_commute)
  have own: "separate (add_mset (?P0, 12 * ?n) ?Fr)" "\<forall>g\<in>#add_mset (?P0, 12 * ?n) ?Fr. in_heap rs g"
    using obj D(4) unfolding M [symmetric] by simp_all
  have pFr: "span p 32 \<subseteq> covered ?root \<or> (p, 32) \<in># ?Fr" using R(2) by auto
  have "tree_rep UNIV ?m 0 t" using I by (simp add: dt_inv_def)
  then obtain q where "tree_rep UNIV ?m q (DtNode p pnm ps ks)" using subtree_rep [OF _ x] by blast
  then have num: "unat (NumberOfProperties ?m p) = ?n" by (simp add: node_rep_def)
  let ?s1 = "s\<lparr>memory := store32 ?m (p + 28) (NumberOfProperties ?m p + 1)\<rparr>"
  let ?resize = "BlResizeHeap (NodeProperties (memory ?s1) p) (SIZEOF_BlDtProperty * NumberOfProperties (memory ?s1) p) 4 ?s1"
  from grow_array [OF inv own D(6) pFr R(3) num n] show ?thesis
  proof (elim disjE exE conjE)
    assume "?resize = crash ''out of memory''"
    then show ?thesis by (simp only: BlDtDoAddProperty_def Let_def par [symmetric] bind_run_simps simp_thms)
  next
    fix P rs2 fs2 and s2 :: "'a dt_scheme"
    let ?s3 = "s2\<lparr>memory := store32 (memory s2) (p + 24) P\<rparr>"
    assume A: "?resize = ret (P, s2)" "heap_inv ?s3 rs2 fs2" "grown L s rs p ?n ?Fr P ?s3 rs2"
    let ?F2 = "add_mset (dat, length ds) (add_mset (P, 12 * (?n + 1)) (R + {#rsv_seg s rsv#}))"
    have G: "separate (add_mset (P, 12 * (?n + 1)) ?Fr)" "\<forall>g\<in>#add_mset (P, 12 * (?n + 1)) ?Fr. in_heap rs2 g" "foot rs2 \<subseteq> foot rs"
      "same_on (covered ?Fr \<union> covered ?root - span (p + 24) 8) ?m (memory ?s3)" "NodeProperties (memory ?s3) p = P"
      "others (add_mset (?P0, 12 * ?n) ?Fr) rs \<subseteq> others (add_mset (P, 12 * (?n + 1)) ?Fr) rs2"
      "same_on (others (add_mset (?P0, 12 * ?n) ?Fr) rs - covered ?root) ?m (memory ?s3)" "heap.more ?s3 = heap.more s"
      using A(3) unfolding grown_def Let_def by - (elim conjE, assumption)+
    note more = heap_more_dt [OF G(8)]
    have "covered (name_segs s bk) \<inter> span (p + 24) 8 = {}"
    proof -
      have "span (p + 24) 8 \<subseteq> span p 32" using span_sub [of 24 8 32 p] by simp
      moreover have "span p 32 \<subseteq> covered (tree_segs ?m t)" unfolding D(1) R(1) using R(2) span_in_segs [of p 32 R] by auto
      moreover have "covered (tree_segs ?m t) \<inter> covered (name_segs s bk) = {}"
        using I by (simp add: dt_inv_def dt_segs_tables separate_union separate_add)
      ultimately show ?thesis by blast
    qed
    then have "same_on (covered (name_segs s bk)) ?m (memory ?s3)" by (intro same_on_mono [OF G(4)]) auto
    moreover have "table_inv s bk" using I by (simp add: dt_inv_def)
    moreover have "table_fields ?s3 = table_fields s" using more by (simp add: table_fields_def)
    ultimately have T: "table_inv ?s3 bk" "name_segs ?s3 bk = name_segs s bk" using table_keep by blast+
    have split: "name_segs ?s3 bk + ?F2 = add_mset (P, 12 * (?n + 1)) ?Fr" unfolding T(2) by (simp add: ac_simps)
    have own3: "separate (name_segs ?s3 bk + ?F2)" "\<forall>g\<in>#name_segs ?s3 bk + ?F2. in_heap rs2 g" unfolding split by (rule G)+
    have "others (add_mset (?P0, 12 * ?n) ?Fr) rs - covered ?root \<subseteq> others (name_segs ?s3 bk + ?F2) rs2" unfolding split using G(6) by blast
    from given_in_mono [OF given_in_same [OF gi [unfolded M] G(7)] this]
    have gi3: "given_in (others (name_segs ?s3 bk + ?F2) rs2) (memory ?s3) name nm" .
    from get_string_step [OF A(2) T(1) own3 gi3 names] show ?thesis
    proof (elim disjE exE conjE)
      assume c: "BlDtGetString name ?s3 = crash ''out of memory''" "nm \<notin> snd ` set (concat bk)"
      show ?thesis by (simp only: BlDtDoAddProperty_def Let_def par [symmetric] A(1) c bind_run_simps prod.case simp_thms)
    next
      fix e rs4 fs4 nb and s4 :: "'a dt_scheme"
      assume B: "BlDtGetString name ?s3 = ret (e, s4)" "heap_inv s4 rs4 fs4" "replaces (name_segs ?s3 bk + ?F2) ?s3 rs2 (name_segs s4 nb + ?F2) s4 rs4"
        "same_on (covered ?F2) (memory ?s3) (memory s4)" "table_inv s4 nb" "(e, nm) \<in> set (concat nb)" "names_grown bk nm nb" "dt_rest s4 = dt_rest ?s3"
      have grown: "set (concat bk) \<subseteq> set (concat nb)" using B(7) by (simp add: names_grown_def)
      note O = replaces_others [OF B(3,2)]
      have "same_on (covered ?root) (memory ?s3) (memory s4)" by (rule same_on_mono [OF O(3)]) (use D(6) G(3) in blast)
      then have k: "same_on (covered ?F2 \<union> covered ?root) (memory ?s3) (memory s4)" using B(4) by (auto simp: same_on_def)
      have own4: "foot rs4 \<subseteq> foot rs2" "separate (name_segs s4 nb + ?F2)" "\<forall>g\<in>#name_segs s4 nb + ?F2. in_heap rs4 g" using B(3) unfolding replaces_def by blast+
      note E = prop_filled [OF I x R(1,2) A(3) n B(2) own4 k B(5,6) grown B(8) refl dat size]
      have Pn: "NodeProperties (memory s4) p = P"
      proof -
        have "span (p + 24) 4 \<subseteq> span p 32" using span_sub [of 24 4 32 p] by simp
        then have "span (p + 24) 4 \<subseteq> covered ?F2 \<union> covered ?root" using R(2) span_in_segs [of p 32 R] by auto
        from load32_same_on [OF same_on_mono [OF k this]] G(5) show ?thesis by (simp only: NodeProperties_def)
      qed
      have idx: "SIZEOF_BlDtProperty * NumberOfProperties ?m p = 12 * of_nat ?n" using of_nat_unat_eq [OF num] by (simp add: SIZEOF_BlDtProperty_def)
      let ?q = "P + 12 * of_nat ?n"
      let ?m5 = "store32 (store32 (store32 (memory s4) ?q e) (?q + 4) dat) (?q + 8) sz"
      let ?s5 = "s4\<lparr>memory := ?m5, BlDtStructureSize := BlDtStructureSize s4 + BL_DT_PROP_SIZE sz\<rparr>"
      have run: "BlDtDoAddProperty L parent name dat sz s = ret ?s5"
        by (simp only: BlDtDoAddProperty_def Let_def par [symmetric] A(1) B(1) Pn idx bind_run_simps prod.case)
      have "builder_step L s rs (add_mset (dat, length ds) (objects L s t bk rsv)) ?s5 rs4 (objects L ?s5 (update_node p (with_prop (DtProp e nm dat ds)) t) nb rsv)"
        unfolding builder_step_def E(2) M
      proof (intro conjI)
        show "foot rs4 \<subseteq> foot rs" using own4(1) G(3) by blast
        show O': "others (add_mset (?P0, 12 * ?n) ?Fr) rs \<subseteq> others (name_segs s4 nb + ?F2) rs4" using G(6) O(2) unfolding split by blast
        have "others (name_segs s4 nb + ?F2) rs4 \<inter> covered (name_segs s4 nb + ?F2) = {}" by (rule others_apart [OF B(2) own4(3)])
        then have no: "span ?q 12 \<inter> others (add_mset (?P0, 12 * ?n) ?Fr) rs = {}" using O' E(4) by auto
        have "same_on (others (add_mset (?P0, 12 * ?n) ?Fr) rs) (memory ?s3) (memory s4)" by (rule same_on_mono [OF O(3)]) (use G(6) in \<open>simp only: split\<close>)
        then have "same_on (others (add_mset (?P0, 12 * ?n) ?Fr) rs - covered ?root) (memory ?s3) (memory s4)" by (rule same_on_mono) blast
        moreover have "same_on (others (add_mset (?P0, 12 * ?n) ?Fr) rs - covered ?root) (memory s4) ?m5" by (rule same_outside_on [OF E(3)]) (use no in blast)
        ultimately have "same_on (others (add_mset (?P0, 12 * ?n) ?Fr) rs - covered ?root) ?m ?m5" using G(7) same_on_trans by blast
        then show "same_on (others (add_mset (?P0, 12 * ?n) ?Fr) rs - covered ?root) ?m (memory ?s5)" by simp
      qed
      then show ?thesis using run E(1) B(7) by blast
    qed
  qed
qed

end
