(* ===== verification/Tree_Values.thy ===== *)
theory Tree_Values
  imports Names_Start Tree_Property
begin

text \<open>
  The functions that add a property with a value of their own: bytes copied from memory, words written in big-endian order, strings one after
  the other. Each takes a new buffer from the heap, fills it, and hands it to \<^verbatim>\<open>BlDtDoAddProperty\<close>.
\<close>

section \<open>A buffer for the value\<close>

text \<open>The invariant is kept while the heap changes around the builder's objects.\<close>

lemma dt_kept:
  fixes s s' :: "'a dt_scheme"
  assumes I: "dt_inv L S s rs fs t bk rsv" and inv: "heap_inv s' rs' fs'" "foot rs' \<subseteq> foot rs" "\<forall>g\<in>#objects L s t bk rsv. in_heap rs' g"
    and same: "same_on (covered (objects L s t bk rsv) \<union> covered (root_segs L (memory s))) (memory s) (memory s')" and more: "heap.more s' = heap.more s"
  shows "dt_inv L S s' rs' fs' t bk rsv" "objects L s' t bk rsv = objects L s t bk rsv" "root_segs L (memory s') = root_segs L (memory s)"
proof -
  let ?m = "memory s" let ?m' = "memory s'"
  note D = dt_objects [OF I]
  note M = heap_more_dt [OF more]
  have sep: "separate (tree_segs ?m t)" and tr: "tree_rep UNIV ?m 0 t" and tb: "table_inv s bk" and rv: "rsv_rep UNIV ?m (BlDtRsvMem s) rsv"
    using I dt_inv_tables(3) [OF I] by (simp_all add: dt_inv_def)
  have all: "covered (objects L s t bk rsv) \<union> covered (root_segs L ?m)
      = covered (tree_segs ?m t) \<union> covered (name_segs s bk) \<union> span (BlDtRsvMem s) (16 * length rsv)"
    unfolding D(1) objects_def by auto
  have T: "tree_rep UNIV ?m' 0 t \<and> tree_segs ?m' t = tree_segs ?m t"
    by (rule tree_rep_keep [OF tr sep order_refl same_on_mono [OF same]]) (auto simp: all)
  have N: "table_inv s' bk" "name_segs s' bk = name_segs s bk"
    by (rule table_keep [OF tb same_on_mono [OF same]]; use M in \<open>auto simp: all table_fields_def\<close>)+
  have R: "rsv_rep UNIV ?m' (BlDtRsvMem s) rsv" by (rule rsv_keep [OF rv same_on_mono [OF same]]) (auto simp: all)
  have "span (BlDtRootNode L + 12) 4 \<subseteq> span (BlDtRootNode L) 32" using span_sub [of 12 4 32 "BlDtRootNode L"] by simp
  then have "same_on (span (BlDtRootNode L + 12) 4) ?m ?m'" by (intro same_on_mono [OF same]) (auto simp: root_segs_def)
  then show r: "root_segs L ?m' = root_segs L ?m" using load32_same_on by (simp add: root_segs_def NodeName_def)
  show "objects L s' t bk rsv = objects L s t bk rsv" using T N(2) M by (simp add: objects_def tree_objects_def r)
  have e: "dt_segs s' t bk rsv = dt_segs s t bk rsv" using T N(2) M by (simp add: dt_segs_tables)
  show "dt_inv L S s' rs' fs' t bk rsv"
    unfolding dt_inv_def e r using I inv T N(1) R M D(2) by (auto simp: dt_inv_def)
qed

lemma value_buffer:
  fixes s s1 :: "'a dt_scheme"
  assumes I: "dt_inv L S s rs fs t bk rsv" and A: "heap_inv s1 rs1 fs1" "replaces {#} s rs {#(q, length ds)#} s1 rs1" "heap.more s1 = heap.more s"
    and len: "length ds < 2 ^ 32"
  defines "s2 \<equiv> s1\<lparr>memory := store_bytes (memory s1) q ds\<rparr>" and "M \<equiv> objects L s t bk rsv"
  shows "dt_inv L S s2 rs1 fs1 t bk rsv" "objects L s2 t bk rsv = M" "root_segs L (memory s2) = root_segs L (memory s)"
    "separate (add_mset (q, length ds) M)" "in_heap rs1 (q, length ds)" "holds (memory s2) q ds"
    "builder_step L s rs M s2 rs1 (add_mset (q, length ds) M)"
proof -
  note D = dt_objects [OF I]
  have inv: "heap_inv s rs fs" using I by (simp add: dt_inv_def)
  have ft: "foot rs1 \<subseteq> foot rs" using A(2) by (simp add: replaces_def)
  have F: "replaces M s rs (add_mset (q, length ds) M) s1 rs1" "same_on (covered M) (memory s) (memory s1)"
    using replaces_frame [OF A(2) inv A(1) D(4,3)] by (simp_all add: M_def)
  have own: "separate (add_mset (q, length ds) M)" "\<forall>g\<in>#add_mset (q, length ds) M. in_heap rs1 g" using F(1) by (simp_all add: replaces_def)
  have out: "same_outside (span q (length ds)) (memory s1) (store_bytes (memory s1) q ds)" by (rule store_bytes_same_outside)
  have "span q (length ds) \<subseteq> covered (add_mset (q, length ds) M)" by simp
  note W = replaces_write [OF A(1) own out this]
  have R: "replaces M s rs (add_mset (q, length ds) M) s2 rs1" using replaces_trans [OF F(1) W(2)] by (simp add: s2_def)
  have I2: "heap_inv s2 rs1 fs1" using W(1) by (simp add: s2_def)
  note O = replaces_others [OF R I2]
  have "same_on (covered M) (memory s1) (memory s2)" unfolding s2_def
    using same_outside_on [OF out] own(1) by (simp add: separate_add)
  moreover have "same_on (covered (root_segs L (memory s))) (memory s) (memory s2)"
    by (rule same_on_mono [OF O(3)]) (use D(6) in \<open>auto simp: M_def\<close>)
  ultimately have same: "same_on (covered M \<union> covered (root_segs L (memory s))) (memory s) (memory s2)" using F(2) by (auto simp: same_on_def)
  have more: "heap.more s2 = heap.more s" using A(3) by (simp add: s2_def)
  have h: "\<forall>g\<in>#objects L s t bk rsv. in_heap rs1 g" using own(2) by (simp add: M_def)
  show "dt_inv L S s2 rs1 fs1 t bk rsv" "objects L s2 t bk rsv = M" "root_segs L (memory s2) = root_segs L (memory s)"
    using dt_kept [OF I I2 ft h same [unfolded M_def] more] by (simp_all add: M_def)
  show "separate (add_mset (q, length ds) M)" "in_heap rs1 (q, length ds)" using own by simp_all
  show "holds (memory s2) q ds" using holds_store_bytes [of ds "memory s1" q] len by (simp add: s2_def)
  show "builder_step L s rs M s2 rs1 (add_mset (q, length ds) M)"
    unfolding builder_step_def using ft O(2) same_on_mono [OF O(3) Diff_subset] by (intro conjI)
qed

section \<open>The value is added\<close>

text \<open>What a function that adds the property \<open>nm\<close> with value \<open>ds\<close> to the node \<open>p\<close> leaves behind.\<close>

definition property_added ::
    "'b dt_statics_scheme \<Rightarrow> u32 set \<Rightarrow> 'a dt_scheme \<Rightarrow> block list \<Rightarrow> dt_node \<Rightarrow> dt_string list list \<Rightarrow> (u64 \<times> u64) list
      \<Rightarrow> u32 \<Rightarrow> u8 list \<Rightarrow> u8 list \<Rightarrow> 'a dt_scheme \<Rightarrow> bool" where
  "property_added L S s rs t bk rsv p nm ds s' \<longleftrightarrow> (\<exists>e q rs' fs' nb.
     dt_inv L S s' rs' fs' (update_node p (with_prop (DtProp e nm q ds)) t) nb rsv \<and> names_grown bk nm nb
     \<and> builder_step L s rs (objects L s t bk rsv) s' rs' (objects L s' (update_node p (with_prop (DtProp e nm q ds)) t) nb rsv))"

text \<open>What is asked of the arguments: the node is in the tree, the name is not among the builder's objects, and nothing overflows.\<close>

definition addable ::
    "'b dt_statics_scheme \<Rightarrow> 'a dt_scheme \<Rightarrow> block list \<Rightarrow> dt_node \<Rightarrow> dt_string list list \<Rightarrow> (u64 \<times> u64) list \<Rightarrow> u32 \<Rightarrow> u32 \<Rightarrow> u8 list \<Rightarrow> nat \<Rightarrow> bool" where
  "addable L s rs t bk rsv p name nm k \<longleftrightarrow> (\<exists>pnm ps ks. DtNode p pnm ps ks \<in> set (subtrees t) \<and> 12 * (length ps + 1) \<le> 2 ^ 32 - 28)
     \<and> given_in (others (objects L s t bk rsv) rs - covered (root_segs L (memory s))) (memory s) name nm
     \<and> length (concat bk) < 2 ^ 24 \<and> length (strs_bytes (concat bk)) + length nm + 1 < 2 ^ 32
     \<and> k \<le> 2 ^ 32 - 28 \<and> node_size (fdt_of t) + 16 + up4 k < 2 ^ 32"

lemma builder_step_trans:
  assumes a: "builder_step L s rs M s1 rs1 M1" and b: "builder_step L s1 rs1 M1 s2 rs2 M2" and r: "root_segs L (memory s1) = root_segs L (memory s)"
  shows "builder_step L s rs M s2 rs2 M2"
proof -
  have "same_on (others M rs - covered (root_segs L (memory s))) (memory s1) (memory s2)"
    by (rule same_on_mono [of "others M1 rs1 - covered (root_segs L (memory s1))"]) (use a b r in \<open>auto simp: builder_step_def\<close>)
  then show ?thesis using a b same_on_trans unfolding builder_step_def by blast
qed

lemma add_value:
  fixes s s1 :: "'a dt_scheme"
  assumes I: "dt_inv L S s rs fs t bk rsv" and ok: "addable L s rs t bk rsv p name nm (length ds)"
    and par: "p = (if parent = 0 then BlDtRootNode L else parent)"
    and A: "heap_inv s1 rs1 fs1" "replaces {#} s rs {#(q, length ds)#} s1 rs1" "heap.more s1 = heap.more s" and sz: "unat sz = length ds"
  shows "BlDtDoAddProperty L parent name q sz (s1\<lparr>memory := store_bytes (memory s1) q ds\<rparr>) = crash ''out of memory''
      \<and> (nm \<in> snd ` set (concat bk) \<longrightarrow> more_entries p (s1\<lparr>memory := store_bytes (memory s1) q ds\<rparr>) = crash ''out of memory'')
    \<or> (\<exists>s'. BlDtDoAddProperty L parent name q sz (s1\<lparr>memory := store_bytes (memory s1) q ds\<rparr>) = ret s'
      \<and> property_added L S s rs t bk rsv p nm ds s')"
proof -
  let ?s2 = "s1\<lparr>memory := store_bytes (memory s1) q ds\<rparr>"
  obtain pnm ps ks where x: "DtNode p pnm ps ks \<in> set (subtrees t)" and n: "12 * (length ps + 1) \<le> 2 ^ 32 - 28"
    using ok by (auto simp: addable_def)
  have gi: "given_in (others (objects L s t bk rsv) rs - covered (root_segs L (memory s))) (memory s) name nm"
    and b: "length (concat bk) < 2 ^ 24" "length (strs_bytes (concat bk)) + length nm + 1 < 2 ^ 32" "node_size (fdt_of t) + 16 + up4 (length ds) < 2 ^ 32"
    using ok by (simp_all add: addable_def)
  have "length ds < 2 ^ 32" using sz unat_lt32 [of sz] by simp
  note B = value_buffer [OF I A this]
  have "others (objects L s t bk rsv) rs \<subseteq> others (add_mset (q, length ds) (objects L s t bk rsv)) rs1"
    and same: "same_on (others (objects L s t bk rsv) rs - covered (root_segs L (memory s))) (memory s) (memory ?s2)"
    using B(7) by (simp_all add: builder_step_def)
  then have "others (objects L s t bk rsv) rs - covered (root_segs L (memory s))
      \<subseteq> others (add_mset (q, length ds) (objects L ?s2 t bk rsv)) rs1 - covered (root_segs L (memory ?s2))"
    unfolding B(2,3) by blast
  note gi2 = given_in_mono [OF given_in_same [OF gi same] this]
  from BlDtDoAddProperty_spec [OF B(1) x par _ B(5,6) sz gi2 n b] B(4)
  have "BlDtDoAddProperty L parent name q sz ?s2 = crash ''out of memory'' \<and> (nm \<in> snd ` set (concat bk) \<longrightarrow> more_entries p ?s2 = crash ''out of memory'') \<or> (\<exists>e s' rs' fs' nb. BlDtDoAddProperty L parent name q sz ?s2 = ret s'
    \<and> dt_inv L S s' rs' fs' (update_node p (with_prop (DtProp e nm q ds)) t) nb rsv \<and> names_grown bk nm nb
    \<and> builder_step L ?s2 rs1 (add_mset (q, length ds) (objects L s t bk rsv)) s' rs' (objects L s' (update_node p (with_prop (DtProp e nm q ds)) t) nb rsv))"
    unfolding B(2) by blast
  then show ?thesis unfolding property_added_def using builder_step_trans [OF B(7) _ B(3)] by meson
qed

text \<open>The buffer comes from the heap.\<close>

lemma alloc_value:
  fixes s :: "'a dt_scheme"
  assumes I: "dt_inv L S s rs fs t bk rsv" and ok: "addable L s rs t bk rsv p name nm (length ds)"
    and par: "p = (if parent = 0 then BlDtRootNode L else parent)" and sz: "unat sz = length ds" and al: "alignment = 2 ^ k" "k < 32"
    and fill: "\<And>q s1 rs1 fs1. heap_inv s1 rs1 fs1 \<Longrightarrow> replaces {#} s rs {#(q, length ds)#} s1 rs1 \<Longrightarrow>
      f (q, s1) = BlDtDoAddProperty L parent name q sz (s1\<lparr>memory := store_bytes (memory s1) q ds\<rparr>)"
  shows "bind_run (BlAllocateHeap sz alignment False s) f = crash ''out of memory''
    \<or> (\<exists>s'. bind_run (BlAllocateHeap sz alignment False s) f = ret s' \<and> property_added L S s rs t bk rsv p nm ds s')"
proof -
  have inv: "heap_inv s rs fs" using I by (simp add: dt_inv_def)
  have "unat sz \<le> 2 ^ 32 - 28" using ok sz by (simp add: addable_def)
  from alloc_object [OF inv this al] show ?thesis
  proof (elim disjE exE conjE)
    fix q rs1 fs1 and s1 :: "'a dt_scheme"
    assume A: "BlAllocateHeap sz alignment False s = ret (q, s1)" "heap_inv s1 rs1 fs1" "replaces {#} s rs {#(q, unat sz)#} s1 rs1" "heap.more s1 = heap.more s"
    show ?thesis unfolding A(1) bind_run_simps fill [OF A(2) A(3) [unfolded sz]]
      using add_value [OF I ok par A(2) A(3) [unfolded sz] A(4) sz] by blast
  qed simp
qed

section \<open>Bytes, words and strings\<close>

lemma kept_by_alloc:
  fixes s s1 :: "'a dt_scheme"
  assumes r: "replaces {#} s rs {#(q, n)#} s1 rs1" and inv: "heap_inv s1 rs1 fs1"
  shows "same_on (live_data rs \<union> - foot rs) (memory s) (memory s1)" "span q n \<inter> (live_data rs \<union> - foot rs) = {}" "fits q n"
  using replaces_others [OF r inv] r by (simp_all add: live_data_data_of replaces_def separate_add)

lemma copy_kept:
  assumes a: "fits q (unat n)" "fits d (unat n)" "span q (unat n) \<inter> span d (unat n) = {}" and h: "holds m d ds" "unat n = length ds"
  shows "BlCopyMemory m q d n = store_bytes m q ds"
  using memcpy_store_bytes [OF a, of m] h by (simp add: BlCopyMemory_def holds_def)

lemma copy_value:
  fixes s s1 :: "'a dt_scheme"
  assumes A: "heap_inv s1 rs1 fs1" "replaces {#} s rs {#(q, length ds)#} s1 rs1" and sz: "unat sz = length ds"
    and data: "holds (memory s) data ds" "fits data (length ds)" "span data (length ds) \<subseteq> live_data rs \<union> - foot rs"
  shows "BlCopyMemory (memory s1) q data sz = store_bytes (memory s1) q ds"
proof -
  note K = kept_by_alloc [OF A(2,1)]
  have "length ds \<le> 2 ^ 32" using sz unat_lt32 [of sz] by simp
  note holds_same [OF data(1) same_on_mono [OF K(1) data(3)] this]
  from copy_kept [OF _ _ _ this sz] K(2,3) data(2,3) sz show ?thesis by auto
qed

text \<open>
  C11. Adding a property whose value are bytes in memory, outside the free part of the heap: either the heap is exhausted,
  or the node of the tree has one property more, after the others, with the name and a copy of the bytes. The rest of the tree is as it was,
  the builder's invariant holds again (nodes, arrays, names and values lie apart, every name is in the table, the counted size is that of the
  blob), the table of names has grown by at most this name, and no memory but the builder's objects and the root node has changed.
\<close>

theorem BlDtAddProperty_correct:
  fixes s :: "'a dt_scheme"
  assumes I: "dt_inv L S s rs fs t bk rsv" and ok: "addable L s rs t bk rsv p name nm (length ds)"
    and par: "p = (if parent = 0 then BlDtRootNode L else parent)" and sz: "unat sz = length ds"
    and data: "holds (memory s) data ds" "fits data (length ds)" "span data (length ds) \<subseteq> live_data rs \<union> - foot rs"
  shows "BlDtAddProperty L parent name data sz s = crash ''out of memory''
    \<or> (\<exists>s'. BlDtAddProperty L parent name data sz s = ret s' \<and> property_added L S s rs t bk rsv p nm ds s')"
  unfolding BlDtAddProperty_def
proof (rule alloc_value [where k = 0, OF I ok par sz]; (simp only: prod.case)?)
  fix q rs1 fs1 and s1 :: "'a dt_scheme"
  assume A: "heap_inv s1 rs1 fs1" "replaces {#} s rs {#(q, length ds)#} s1 rs1"
  show "BlDtDoAddProperty L parent name q sz (s1\<lparr>memory := BlCopyMemory (memory s1) q data sz\<rparr>)
      = BlDtDoAddProperty L parent name q sz (s1\<lparr>memory := store_bytes (memory s1) q ds\<rparr>)" by (simp only: copy_value [OF A sz data])
qed simp_all

lemma store_be32s_bytes: "4 * length ws \<le> 2 ^ 32 \<Longrightarrow> store_be32s m a ws = store_bytes m a (words_bytes ws)"
proof (induction ws arbitrary: m a)
  case (Cons w ws)
  then have "store_be32s m a (w # ws) = store_bytes (store_bytes m a (be32 w)) (a + of_nat (length (be32 w))) (words_bytes ws)"
    by (simp add: store32_be32)
  also have "\<dots> = store_bytes m a (be32 w @ words_bytes ws)" by (rule store_bytes_append) (use Cons.prems in simp)
  finally show ?case by (simp add: words_bytes_def)
qed (simp add: words_bytes_def)

text \<open>
  C10. Adding a property whose value are words: as above, and the value is the words in big-endian order, each in four bytes.
\<close>

theorem BlDtAddPropertyU32s_correct:
  fixes s :: "'a dt_scheme"
  assumes I: "dt_inv L S s rs fs t bk rsv" and ok: "addable L s rs t bk rsv p name nm (4 * length ws)"
    and par: "p = (if parent = 0 then BlDtRootNode L else parent)"
  shows "BlDtAddPropertyU32s L parent name ws s = crash ''out of memory''
    \<or> (\<exists>s'. BlDtAddPropertyU32s L parent name ws s = ret s' \<and> property_added L S s rs t bk rsv p nm (words_bytes ws) s')"
proof -
  have k: "4 * length ws \<le> 2 ^ 32 - 28" using ok by (simp add: addable_def)
  have e: "4 * of_nat (length ws) = (of_nat (4 * length ws) :: u32)" "of_nat (length ws) * 4 = (of_nat (4 * length ws) :: u32)" by simp_all
  have "unat (of_nat (4 * length ws) :: u32) = 4 * length ws" by (rule unat_of_nat32) (use k in simp)
  then have sz: "unat (of_nat (4 * length ws) :: u32) = length (words_bytes ws)" by simp
  have ok': "addable L s rs t bk rsv p name nm (length (words_bytes ws))" using ok by simp
  have fill: "store_be32s m q ws = store_bytes m q (words_bytes ws)" for m q by (rule store_be32s_bytes) (use k in simp)
  show ?thesis unfolding BlDtAddPropertyU32s_def Let_def e fill
    by (rule alloc_value [where k = 2, OF I ok' par sz]) (simp_all only: prod.case, simp_all)
qed

text \<open>Strings one after the other, each with its NUL.\<close>

abbreviation joined :: "u8 list list \<Rightarrow> u8 list" where
  "joined nms \<equiv> concat (map (\<lambda>nm. nm @ [0]) nms)"

lemma strings_size_sum:
  "list_all2 (given rs m) data nms \<Longrightarrow> strings_size m data z = Some (z + of_nat (length (joined nms)))"
proof (induction data nms arbitrary: z rule: list_all2_induct)
  case (Cons a as nm nms)
  then show ?case using givenD(1) [OF Cons.hyps(1)] by (simp add: ac_simps)
qed simp

lemma copy_one:
  assumes g: "given rs m a nm" and fit: "fits q (length (pre @ nm @ [0]))" "length (pre @ nm @ [0]) < 2 ^ 32"
    and apart: "span q (length (pre @ nm @ [0])) \<inter> (live_data rs \<union> - foot rs) = {}"
  shows "BlStringLength (store_bytes m q pre) a = Some (of_nat (length nm))"
    "BlCopyMemory (store_bytes m q pre) (q + of_nat (length pre)) a (of_nat (length nm) + 1) = store_bytes m q (pre @ nm @ [0])"
proof -
  note G = givenD [OF g]
  let ?n = "of_nat (length nm) + 1 :: u32"
  have n: "unat ?n = length (nm @ [0 :: u8])" using unat_of_nat32 [of "length nm + 1"] G(6) by (simp add: add.commute)
  have src: "span a (length nm + 1) \<subseteq> live_data rs \<union> - foot rs" "fits a (length nm + 1)" using g by (simp_all add: given_def)
  have "span q (length pre) \<subseteq> span q (length (pre @ nm @ [0]))" by (rule span_mono) simp
  then have "same_on (span a (length nm + 1)) m (store_bytes m q pre)"
    by (intro same_outside_on [OF store_bytes_same_outside]) (use src(1) apart in blast)
  then have h: "holds (store_bytes m q pre) a (nm @ [0])" using holds_same [OF G(2)] G(6) by simp
  then have "c_string (store_bytes m q pre) a nm" using c_string_holds G(3) by blast
  then show "BlStringLength (store_bytes m q pre) a = Some (of_nat (length nm))" by (rule BlStringLength_c_string)
  have dst: "span (q + of_nat (length pre)) (length nm + 1) \<subseteq> span q (length (pre @ nm @ [0]))" "fits (q + of_nat (length pre)) (length nm + 1)"
    using span_sub [of "of_nat (length pre)" "length nm + 1" "length (pre @ nm @ [0])" q] fit unat_of_nat32 [of "length pre"]
    by (auto simp: fits_def unat_word_ariths unat_of_nat)
  have "BlCopyMemory (store_bytes m q pre) (q + of_nat (length pre)) a ?n = store_bytes (store_bytes m q pre) (q + of_nat (length pre)) (nm @ [0])"
    by (rule copy_kept [OF _ _ _ h n]) (use n dst src apart in auto)
  also have "\<dots> = store_bytes m q (pre @ nm @ [0])" by (rule store_bytes_append) (use fit(2) in simp)
  finally show "BlCopyMemory (store_bytes m q pre) (q + of_nat (length pre)) a ?n = store_bytes m q (pre @ nm @ [0])" .
qed

lemma copy_strings_joined:
  "list_all2 (given rs m) data nms \<Longrightarrow> fits q (length (pre @ joined nms)) \<Longrightarrow> length (pre @ joined nms) < 2 ^ 32 \<Longrightarrow>
     span q (length (pre @ joined nms)) \<inter> (live_data rs \<union> - foot rs) = {} \<Longrightarrow>
     copy_strings (store_bytes m q pre) q data (of_nat (length pre)) = Some (store_bytes m q (pre @ joined nms), of_nat (length (pre @ joined nms)))"
proof (induction data nms arbitrary: pre rule: list_all2_induct)
  case (Cons a as nm nms)
  let ?pre = "pre @ nm @ [0]"
  have e: "pre @ joined (nm # nms) = ?pre @ joined nms" by simp
  have le: "length ?pre \<le> length (?pre @ joined nms)" by simp
  have one: "fits q (length ?pre)" "length ?pre < 2 ^ 32" using Cons.prems(1,2) le unfolding e fits_def by linarith+
  have "span q (length ?pre) \<subseteq> span q (length (?pre @ joined nms))" by (rule span_mono [OF le])
  then have "span q (length ?pre) \<inter> (live_data rs \<union> - foot rs) = {}" using Cons.prems(3) unfolding e by blast
  note C = copy_one [OF Cons.hyps(1) one this]
  have l: "of_nat (length pre) + (of_nat (length nm) + 1) = (of_nat (length ?pre) :: u32)" by (simp add: ac_simps)
  show ?case unfolding copy_strings.simps C bind.simps l e by (rule Cons.IH) (use Cons.prems in \<open>simp_all only: e\<close>)
qed simp

lemma strings_value:
  fixes s s1 :: "'a dt_scheme"
  assumes A: "heap_inv s1 rs1 fs1" "replaces {#} s rs {#(q, length (joined nms))#} s1 rs1" and k: "length (joined nms) < 2 ^ 32"
    and strs: "list_all2 (given rs (memory s)) data nms"
  shows "copy_strings (memory s1) q data 0 = Some (store_bytes (memory s1) q (joined nms), of_nat (length (joined nms)))"
proof -
  note K = kept_by_alloc [OF A(2,1)]
  have "given rs (memory s1) a nm" if "given rs (memory s) a nm" for a nm by (rule given_later [OF that K(1)]) simp_all
  then have "list_all2 (given rs (memory s1)) data nms" using list_all2_mono [OF strs] by blast
  from copy_strings_joined [OF this, of q "[]"] K(2,3) k show ?thesis by simp
qed

text \<open>
  C9. Adding a property whose value are strings: as above, and the value is the strings in the order given, each followed by its NUL; without strings it is empty.
\<close>

theorem BlDtAddPropertyStrings_correct:
  fixes s :: "'a dt_scheme"
  assumes I: "dt_inv L S s rs fs t bk rsv" and ok: "addable L s rs t bk rsv p name nm (length (joined nms))"
    and par: "p = (if parent = 0 then BlDtRootNode L else parent)" and strs: "list_all2 (given rs (memory s)) data nms"
  shows "BlDtAddPropertyStrings L parent name data s = crash ''out of memory''
    \<or> (\<exists>s'. BlDtAddPropertyStrings L parent name data s = ret s' \<and> property_added L S s rs t bk rsv p nm (joined nms) s')"
proof -
  have k: "length (joined nms) < 2 ^ 32" using ok by (simp add: addable_def)
  let ?n = "of_nat (length (joined nms)) :: u32"
  have sz: "unat ?n = length (joined nms)" by (rule unat_of_nat32 [OF k])
  have size: "strings_size (memory s) data 0 = Some ?n" using strings_size_sum [OF strs, of 0] by simp
  show ?thesis unfolding BlDtAddPropertyStrings_def size bind.simps
  proof (rule alloc_value [where k = 0, OF I ok par sz]; (simp only: prod.case)?)
    fix q rs1 fs1 and s1 :: "'a dt_scheme"
    assume A: "heap_inv s1 rs1 fs1" "replaces {#} s rs {#(q, length (joined nms))#} s1 rs1"
    from strings_value [OF A k strs]
    show "Option.bind (copy_strings (memory s1) q data 0) (\<lambda>(m, sz). BlDtDoAddProperty L parent name q sz (s1\<lparr>memory := m\<rparr>))
        = BlDtDoAddProperty L parent name q ?n (s1\<lparr>memory := store_bytes (memory s1) q (joined nms)\<rparr>)" by simp
  qed simp_all
qed

section \<open>On a concrete heap\<close>

text \<open>The heap of \<open>names_state\<close>, the root without properties: the next property is called ``cpu'', a name of the table.\<close>

lemma names_dt_inv:
  "dt_inv (tree_statics L) (span 0x4000 0x41) (names_state s) names_ranges [0x10064] start_root names_table []"
proof -
  have m: "memory (names_state s) = names_mem" "BlDtStrings (names_state s) = 0x10018" "BlDtRsvMem (names_state s) = 0" "BlDtRsvMemCount (names_state s) = 0"
    "BlDtStructureSize (names_state s) = 16" by (simp_all add: names_state_def)
  have root: "root_segs (tree_statics L) names_mem = {#(0x4000, 32), (0x4040, 1)#}"
    by (simp add: root_segs_def tree_statics_def NodeName_def names_load)
  have tree: "tree_segs names_mem start_root = {#(0x4000, 32), (0x4040, 1), (0, 0)#}"
    by (simp add: start_root_def node_segs_def NodeName_def NodeProperties_def names_load)
  have D: "dt_segs (names_state s) start_root names_table [] = {#(0x4000, 32), (0x4040, 1)#} + ({#(0, 0), (0, 0)#} + name_segs (names_state s) names_table)"
    by (simp add: dt_segs_tables tree m)
  have rep: "tree_rep UNIV names_mem 0 start_root"
    using BlListInit_rep [of names_mem] names_bytes(5)
    by (simp add: start_root_def node_rep_def NodeParent_def NodeName_def NodeChildren_def NodeProperties_def NumberOfProperties_def load_list_def BlListInit_def
        names_load bytes_at_def name_ok_def holds_Cons fits_one)
  have sep: "separate (dt_segs (names_state s) start_root names_table [])"
    unfolding D names_segs by (simp add: separate_add fits_def disjoint_iff span_fits)
  have "covered {#(0x4000 :: u32, 32), (0x4040, 1)#} \<subseteq> span 0x4000 0x41" by (auto simp: span_fits fits_def)
  moreover have "fits (0 :: u32) 0" by (simp add: fits_def)
  moreover have "in_heap names_ranges (0, 0)" by (simp add: in_heap_def)
  then have "\<forall>g\<in>#{#(0, 0), (0, 0)#} + name_segs (names_state s) names_table. in_heap names_ranges g"
    using names_own(2) by (simp only: set_mset_union set_mset_add_mset_insert set_mset_empty) blast
  then have "\<exists>H. dt_segs (names_state s) start_root names_table [] = {#(0x4000, 32), (0x4040, 1)#} + H \<and> (\<forall>g\<in>#H. in_heap names_ranges g)"
    using D by blast
  ultimately show ?thesis
    unfolding dt_inv_def m root using names_heap [of s] names_spans(2) rep sep names_table_inv [of s]
    by (simp add: start_root_def tree_statics_def rsv_rep_def up4_def)
qed

lemma names_addable: "addable (tree_statics L) (names_state s) names_ranges start_root names_table [] 0x4000 0x4080 (bytes ''cpu'') 4"
proof -
  have "span 0x4080 4 \<inter> covered (root_segs (tree_statics L) names_mem) = {}"
    by (simp add: root_segs_def tree_statics_def NodeName_def names_load disjoint_iff span_fits fits_def)
  then have "span 0x4080 4 \<subseteq> others (objects (tree_statics L) (names_state s) start_root names_table []) names_ranges
      - covered (root_segs (tree_statics L) names_mem)"
    using names_spans(1) by blast
  then have "given_in (others (objects (tree_statics L) (names_state s) start_root names_table []) names_ranges
      - covered (root_segs (tree_statics L) (memory (names_state s)))) (memory (names_state s)) 0x4080 (bytes ''cpu'')"
    using names_bytes(7) by (simp add: given_in_def names_state_def fits_def cpu_length)
  then show ?thesis by (simp add: addable_def start_root_def names_table_def cpu_length up4_def)
qed

lemma names_given_cpu: "given names_ranges (memory (names_state s)) 0x4080 (bytes ''cpu'')"
  using names_spans(1) names_bytes(7) by (auto simp: given_def names_state_def fits_def cpu_length)

text \<open>There is room in the only free range, first for the value and then for the array.\<close>

lemma load32_upd: "unat a + 1 \<le> unat b \<or> unat b + 4 \<le> unat a \<Longrightarrow> unat b + 4 \<le> 2 ^ 32 \<Longrightarrow> load32 (m(a := v)) b = load32 m b"
  by (rule load32_same_on) (auto simp: same_on_def span_fits fits_def)

definition value_state :: "'a dt_scheme \<Rightarrow> 'a dt_scheme" where
  "value_state s = carve 0x10064 False 0x10064 0x10080 (names_state s)"

lemma value_state_words:
  "Head (BlFreeRanges (value_state s)) = 0x10088" "load32 (memory (value_state s)) 0x10090 = 0x20000"
  "load32 (memory (value_state s)) 0x4018 = 0" "load32 (memory (value_state s)) 0x401C = 0"
  by (simp_all add: value_state_def carve_def write_End_def write_Free_def set_RangeEnd_def set_RangeFree_def heap_insert_def free_insert_def
      FreeNode_def BlListInsertAfter_def BlListRemove_def RangePrev_def NodePrev_def NodeNext_def set_NodePrev_def set_NodeNext_def BL_CONTAINER_def
      heap_remove_def free_remove_def names_state_def RangeEnd_def SIZEOF_HeapRange_def names_load load32_apart load32_upd)

lemma value_state_alloc: "al \<in> {1, 4} \<Longrightarrow> BlAllocateHeap 4 al False (names_state s) = ret (0x1007C, value_state s)"
  unfolding value_state_def
  by (subst first_range_ret [where b = "0x10064" and e = "0x20000" and v = "0x1007C" and n = 4 and al = 4])
    (auto simp: names_state_def RangeEnd_def names_load HEAP_ALIGNMENT_def BL_ALIGN_UP_def)

lemma value_state_room:
  assumes "length ds = 4"
  shows "more_entries 0x4000 ((value_state s)\<lparr>memory := store_bytes (memory (value_state s)) 0x1007C ds\<rparr>) \<noteq> crash ''out of memory''"
proof -
  have w: "load32 (store_bytes (memory (value_state s)) 0x1007C ds) b = load32 (memory (value_state s)) b" if "b \<in> {0x10090, 0x4018, 0x401C}" for b
    by (rule load32_same_on [OF same_outside_on [OF store_bytes_same_outside]]) (use that assms in \<open>auto simp: span_fits fits_def\<close>)
  have "BL_ALIGN_UP 12 4 = (12 :: u32)" "BL_ALIGN_UP 0x10098 4 = (0x10098 :: u32)" by (simp_all add: BL_ALIGN_UP_def)
  then show ?thesis
    by (simp add: Let_def NodeProperties_def NumberOfProperties_def load32_apart w value_state_words BlResizeHeap_def SIZEOF_BlDtProperty_def HEAP_ALIGNMENT_def
        first_range_ret [where b = "0x10080" and e = "0x20000" and v = "0x10098" and n = 12 and al = 4] RangeEnd_def)
qed

lemma value_taken:
  fixes s :: "'a dt_scheme"
  obtains rs1 fs1 where "heap_inv (value_state s) rs1 fs1" "replaces {#} (names_state s) names_ranges {#(0x1007C, 4)#} (value_state s) rs1"
    "heap.more (value_state s) = heap.more (names_state s)"
proof -
  have "unat (4 :: u32) \<le> 2 ^ 32 - 28" "(4 :: u32) = 2 ^ 2" "(2 :: nat) < 32" by simp_all
  from alloc_object [OF names_heap this, of s] show ?thesis using value_state_alloc [of 4 s] that by (auto simp: crash_def ret_def)
qed

lemma names_root: "0x4000 = (if 0 = 0 then BlDtRootNode (tree_statics L) else 0)"
  by (simp add: tree_statics_def)

lemma value_added:
  fixes s :: "'a dt_scheme"
  assumes l: "length ds = 4"
  shows "BlDtDoAddProperty (tree_statics L) 0 0x4080 0x1007C 4 ((value_state s)\<lparr>memory := store_bytes (memory (value_state s)) 0x1007C ds\<rparr>)
    \<noteq> crash ''out of memory''"
proof -
  obtain rs1 fs1 where "heap_inv (value_state s) rs1 fs1" "replaces {#} (names_state s) names_ranges {#(0x1007C, length ds)#} (value_state s) rs1"
    "heap.more (value_state s) = heap.more (names_state s)" using value_taken [of s] unfolding l by blast
  note add_value [OF names_dt_inv names_addable [folded l] names_root this, of 4 L]
  moreover have "bytes ''cpu'' \<in> snd ` set (concat names_table)" by (simp add: names_table_def)
  moreover note value_state_room [OF l, of s]
  ultimately show ?thesis using l by (auto simp: ret_def crash_def)
qed

theorem BlDtAddPropertyU32s_correct_witness:
  "\<forall>s L. \<exists>s'. BlDtAddPropertyU32s (tree_statics L) 0 0x4080 [7] (names_state s) = ret s'
    \<and> property_added (tree_statics L) (span 0x4000 0x41) (names_state s) names_ranges start_root names_table [] 0x4000 (bytes ''cpu'') [0, 0, 0, 7] s'"
proof (intro allI)
  fix s :: "'a dt_scheme" and L
  have w: "words_bytes [7] = [0, 0, 0, 7]" by (simp add: words_bytes_def be32_def)
  have ok: "addable (tree_statics L) (names_state s) names_ranges start_root names_table [] 0x4000 0x4080 (bytes ''cpu'') (4 * length [7 :: u32])"
    using names_addable [of L s] by simp
  have "BlDtAddPropertyU32s (tree_statics L) 0 0x4080 [7] (names_state s)
      = BlDtDoAddProperty (tree_statics L) 0 0x4080 0x1007C 4 ((value_state s)\<lparr>memory := store_bytes (memory (value_state s)) 0x1007C [0, 0, 0, 7]\<rparr>)"
    using store_be32s_bytes [of "[7]"] w by (simp add: BlDtAddPropertyU32s_def value_state_alloc)
  then have "BlDtAddPropertyU32s (tree_statics L) 0 0x4080 [7] (names_state s) \<noteq> crash ''out of memory''" using value_added [of "[0, 0, 0, 7]" L s] by simp
  then show "\<exists>s'. BlDtAddPropertyU32s (tree_statics L) 0 0x4080 [7] (names_state s) = ret s'
    \<and> property_added (tree_statics L) (span 0x4000 0x41) (names_state s) names_ranges start_root names_table [] 0x4000 (bytes ''cpu'') [0, 0, 0, 7] s'"
    using BlDtAddPropertyU32s_correct [OF names_dt_inv ok names_root, unfolded w] by blast
qed

theorem BlDtAddProperty_correct_witness:
  "\<forall>s L. \<exists>s'. BlDtAddProperty (tree_statics L) 0 0x4080 0x4080 4 (names_state s) = ret s'
    \<and> property_added (tree_statics L) (span 0x4000 0x41) (names_state s) names_ranges start_root names_table [] 0x4000 (bytes ''cpu'') (bytes ''cpu'' @ [0]) s'"
proof (intro allI)
  fix s :: "'a dt_scheme" and L
  let ?ds = "bytes ''cpu'' @ [0]"
  have l: "length ?ds = 4" by (simp add: cpu_length)
  note G = names_given_cpu [of s]
  have d: "holds (memory (names_state s)) 0x4080 ?ds" "fits 0x4080 (length ?ds)" "span 0x4080 (length ?ds) \<subseteq> live_data names_ranges \<union> - foot names_ranges"
    using givenD(2) [OF G] G by (simp_all add: given_def)
  have u: "unat (4 :: u32) = length ?ds" using l by simp
  have "BlAllocateHeap 4 1 False (names_state s) = ret (0x1007C, value_state s)" by (rule value_state_alloc) simp
  moreover have "BlCopyMemory (memory (value_state s)) 0x1007C 0x4080 4 = store_bytes (memory (value_state s)) 0x1007C ?ds"
    by (rule value_taken [of s, folded l]) (rule copy_value [OF _ _ u d])
  ultimately have "BlDtAddProperty (tree_statics L) 0 0x4080 0x4080 4 (names_state s)
      = BlDtDoAddProperty (tree_statics L) 0 0x4080 0x1007C 4 ((value_state s)\<lparr>memory := store_bytes (memory (value_state s)) 0x1007C ?ds\<rparr>)"
    by (simp add: BlDtAddProperty_def)
  then have "BlDtAddProperty (tree_statics L) 0 0x4080 0x4080 4 (names_state s) \<noteq> crash ''out of memory''" using value_added [OF l, of L s] by simp
  then show "\<exists>s'. BlDtAddProperty (tree_statics L) 0 0x4080 0x4080 4 (names_state s) = ret s'
    \<and> property_added (tree_statics L) (span 0x4000 0x41) (names_state s) names_ranges start_root names_table [] 0x4000 (bytes ''cpu'') ?ds s'"
    using BlDtAddProperty_correct [OF names_dt_inv names_addable [folded l] names_root u d] by blast
qed

theorem BlDtAddPropertyStrings_correct_witness:
  "\<forall>s L. \<exists>s'. BlDtAddPropertyStrings (tree_statics L) 0 0x4080 [0x4080] (names_state s) = ret s'
    \<and> property_added (tree_statics L) (span 0x4000 0x41) (names_state s) names_ranges start_root names_table [] 0x4000 (bytes ''cpu'') (bytes ''cpu'' @ [0]) s'"
proof (intro allI)
  fix s :: "'a dt_scheme" and L
  have l: "length (joined [bytes ''cpu'']) = 4" and k: "length (joined [bytes ''cpu'']) < 2 ^ 32" by (simp_all add: cpu_length)
  have j: "joined [bytes ''cpu''] = bytes ''cpu'' @ [0]" by simp
  have g: "list_all2 (given names_ranges (memory (names_state s))) [0x4080] [bytes ''cpu'']" using names_given_cpu [of s] by simp
  have "copy_strings (memory (value_state s)) 0x1007C [0x4080] 0 = Some (store_bytes (memory (value_state s)) 0x1007C (joined [bytes ''cpu'']), of_nat (length (joined [bytes ''cpu''])))"
    by (rule value_taken [of s, folded l]) (rule strings_value [OF _ _ k g])
  moreover have "strings_size (memory (names_state s)) [0x4080] 0 = Some 4" using strings_size_sum [OF g, of 0] l by simp
  moreover have "BlAllocateHeap 4 1 False (names_state s) = ret (0x1007C, value_state s)" by (rule value_state_alloc) simp
  moreover have "of_nat (4 :: nat) = (4 :: u32)" by simp
  ultimately have "BlDtAddPropertyStrings (tree_statics L) 0 0x4080 [0x4080] (names_state s)
      = BlDtDoAddProperty (tree_statics L) 0 0x4080 0x1007C 4 ((value_state s)\<lparr>memory := store_bytes (memory (value_state s)) 0x1007C (joined [bytes ''cpu''])\<rparr>)"
    unfolding l by (simp only: BlDtAddPropertyStrings_def bind.simps bind_run_simps prod.case)
  then have "BlDtAddPropertyStrings (tree_statics L) 0 0x4080 [0x4080] (names_state s) \<noteq> crash ''out of memory''" using value_added [OF l, of L s] by simp
  then show "\<exists>s'. BlDtAddPropertyStrings (tree_statics L) 0 0x4080 [0x4080] (names_state s) = ret s'
    \<and> property_added (tree_statics L) (span 0x4000 0x41) (names_state s) names_ranges start_root names_table [] 0x4000 (bytes ''cpu'') (bytes ''cpu'' @ [0]) s'"
    using BlDtAddPropertyStrings_correct [OF names_dt_inv names_addable [folded l] names_root g, unfolded j] by blast
qed

end
