(* ===== verification/Spec2Isabelle.thy ===== *)
theory Spec2Isabelle
  imports Paging_Map Config_Load Blob_Correct Root_Search A4x_Devices Image_Correct Installer_Correct Tree_Values
begin

text \<open>
  The xrlinux boot loader, \<^verbatim>\<open>bootloader/\<close>, and its installer, \<^verbatim>\<open>install-apt/\<close>. The boot loader runs from the
  firmware of a 32-bit little-endian machine, collects memory into a heap, finds the root partition, reads its configuration and the
  kernel from an ext2 volume, describes the machine in a device tree, maps the kernel and starts it on all processors. This library
  models the components bottom-up and proves what each one promises to the next.

  State. The machine's memory is a function from 32-bit addresses to bytes (\<open>mem\<close>, \<open>Prelude\<close>), and every structure the
  code keeps in memory stays bytes there: pointers are addresses, fields are loads and stores at their
  offsets. Static variables are fields of one record that grows along the
  components, \<open>heap\<close>, \<open>config\<close>, \<open>disk\<close>, \<open>fs\<close>, \<open>dt\<close>, \<open>a4x\<close>; an operation works on every extension of the record it needs, so the
  components compose without translation. Addresses the linker or the stack give (static arrays, local
  structures) are parameters, the records \<open>statics\<close>, \<open>fs_statics\<close>, \<open>dt_statics\<close>, \<open>boot_statics\<close>, \<open>a4x_statics\<close>, each an extension of the one before.
  An operation that may end the program or not
  return gives a \<open>run\<close>: \<open>None\<close> for code that does not return (or is undefined), \<open>crash msg\<close> for \<open>BlCrash\<close>, \<open>ret x\<close>
  for a return. Loops that need an invariant to end are partial functions, and the contracts prove that they end.

  Parts, in the order of the imports (theories, then the source):

  \<^item> \<open>Prelude\<close>: words, memory, spans of addresses, outcomes, structure layouts.
  \<^item> \<open>Compiler\<close>, \<^verbatim>\<open>compiler.h\<close>: alignment, byte order, trailing zeroes. Aligning up is the least multiple
    above or wraps to zero.
  \<^item> \<open>Intrinsics\<close>, \<^verbatim>\<open>intrinsics.c\<close>: the byte loops behind copying, filling, comparing and measuring, against lists of bytes.
  \<^item> \<open>Linked_List\<close>, \<^verbatim>\<open>list.h\<close>: the intrusive list. The locale \<open>node_list\<close> is its contract (the sequence
    a list stands for, and that nothing but node bytes is written); the heap and the block cache use only
    that contract.
  \<^item> \<open>Heap\<close>, \<^verbatim>\<open>memory.c\<close>: the allocator. \<open>Heap_Rep\<close> relates the headers in memory to a list of ranges,
    \<open>Heap_Inv\<close> has the invariant (ordered, apart, coalesced, lists consistent), \<open>Heap_Alloc\<close>,
    \<open>Heap_Free\<close>, \<open>Heap_Add\<close> and \<open>Heap_Resize\<close> the contract of each operation, \<open>Heap_Concrete\<close> concrete heaps and two
    behaviours outside the contracts.
  \<^item> \<open>Paging\<close>, \<open>Paging_Map\<close>, \<^verbatim>\<open>paging.c\<close>: two-level page tables. The locale \<open>page_source\<close> is what mapping needs of
    an allocator, interpreted on the heap; a mapping changes the translation of exactly one page.
  \<^item> \<open>Logging\<close>, \<open>Printing\<close>, \<^verbatim>\<open>logging.c\<close>: formatted printing to a callback, against a specification that
    computes the output; digits read back as the number.
  \<^item> \<open>Config\<close>, \<open>Config_Parse\<close>, \<open>Config_Load\<close>, \<^verbatim>\<open>config.c\<close>: the configuration file. A reference parser on byte lists
    says what a file means; the loader, with all its scans, allocations and messages, computes exactly that.
  \<^item> \<open>Partition\<close>, \<open>Disk_Cache\<close>, \<open>Disk_Read\<close>, \<^verbatim>\<open>partition.c\<close>: the block cache and reads of the root partition. The locale
    \<open>boot_disk\<close> is the platform's promise about \<open>BxReadFromDisk\<close>; in it the cache is proved to be
    a least-recently-used cache whose buffers hold the bytes of the disk, and reads to fill their buffer with them.
  \<^item> \<open>A4x_Disk\<close>, \<^verbatim>\<open>a4x/a4x.c\<close>: \<open>BxReadFromDisk\<close> on the firmware's \<open>ReadDisk\<close>; the locale \<open>firmware_disk\<close> states
    what is relied on of the firmware, and is a sublocale of \<open>boot_disk\<close>.
  \<^item> \<open>Filesystem\<close>, \<open>File_Read\<close>, \<open>Inode_Read\<close>, \<^verbatim>\<open>filesystem.c\<close>: the ext2 reader. The bytes of a file are defined from the block tree over
    the bytes of the partition; reading from an inode yields them for block sizes of 1, 2 and 4 KiB. Mounting,
    directories and path lookup are modelled without a contract of their own.
  \<^item> \<open>Root_Partition\<close>, \<open>Root_Search\<close>, the rest of \<^verbatim>\<open>partition.c\<close>: the search for the root partition, against the bytes of the disk: which
    table is refused, which partition is chosen, where the search stops.
  \<^item> \<open>Device_Tree\<close>, \<open>Device_Blob\<close>, \<^verbatim>\<open>dt.c\<close>: the device tree. Two developments meet at \<open>tree_rep\<close> (\<open>Blob_Walk\<close>), which relates the nodes in
    memory to a tree that knows their addresses, and \<open>fdt_of\<close>, which forgets them.
      Writing it: \<open>Fdt_Format\<close> is the format on byte lists with a reader that inverts it; \<open>Blob_Strings\<close>, \<open>Blob_Walk\<close> and \<open>Blob_Build\<close>
    prove that strings, structure and header are written by that format; \<open>Page_Areas\<close> maps runs of pages; \<open>Blob_Correct\<close>
    joins them: the blob reads back as the tree.
      Building it: \<open>Tree_Update\<close> counts the objects of a tree by address, so that changing one node leaves the others; \<open>Tree_Build\<close> has the
    invariant \<open>dt_inv\<close> of the builder (which implies what the writer asks for, \<open>dt_inv_ok\<close>); \<open>Tree_Nodes\<close> finds and creates nodes;
    \<open>Heap_Objects\<close> reasons about steps that replace objects on the heap and leave all others; \<open>String_Table\<close> and \<open>String_Get\<close> intern names,
    rehashing included; \<open>Tree_Property\<close> and \<open>Tree_Values\<close> add properties. \<open>Tree_Start\<close> and \<open>Names_Start\<close> are concrete heaps
    on which these run; the statics as they are linked satisfy the invariant.
  \<^item> \<open>Kernel_Loader\<close>, \<^verbatim>\<open>main.c\<close> and the headers of the protocol: header check, options, image and transition. \<open>Kernel_Image\<close> and
    \<open>Image_Load\<close> carry the loops of \<open>load_image\<close> over alternating allocations, mappings and reads; \<open>Image_Correct\<close> proves which headers are
    accepted and that the pages of the image show the bytes of the file and zeroes around them, and nothing else is remapped.
  \<^item> \<open>Other_Cpus\<close>, \<^verbatim>\<open>a4x/a4x.c\<close>: the start on the other processors, an inductive step relation over all interleavings, with
    load-linked and store-conditional; the boot processor's frame is not touched after it returned, and all counted in.
  \<^item> \<open>A4x_Platform\<close>, \<open>A4x_Devices\<close>, \<^verbatim>\<open>a4x/main.c\<close>: memory, processors and devices from the firmware's database, and the entry
    point. These are modelled without a contract of their own.
  \<^item> \<open>Installer\<close>, \<open>Installer_Correct\<close>, \<^verbatim>\<open>install-apt.c\<close>: the installer over an oracle for the system calls: which parts of the disk it may
    write and in which order, that it succeeds, and when it ends.

  Refinement. A contract relates what an operation does to memory to a value of the abstract structure: ranges (heap), a sequence of nodes
  (lists), a map from pages (paging), the settings of a file (configuration), the bytes of a disk or a file (cache, partition, ext2), a tree
  with addresses (device tree). It names the memory the operation may change, so contracts compose by disjointness of address sets.

  Bounds. Requests to the allocator are non-zero and at most \<open>2 ^ 32 - 28\<close> bytes (above, the size wraps around, see
  \<open>Heap_Concrete\<close>); a configuration file is non-empty and at most \<open>2 ^ 32 - 32\<close> bytes; files are read at positions below \<open>2 ^ 64\<close>. The
  kernel's image ends at or below \<open>2 ^ 32 - 4096\<close> and starts at a multiple of the sector size, which the bypassed cache asks for; outside these bounds
  the code misbehaves. A device tree's structure and strings stay below \<open>2 ^ 32\<close> bytes each, its names below \<open>2 ^ 24\<close>; the
  blob has at most \<open>2 ^ 32 - 4096\<close> bytes. The installer's image is below \<open>2 ^ 40\<close> bytes. No definition uses fuel: loops that need an
  invariant to end are partial functions that are proved to return.

  Not modelled: the firmware and the system calls (parameters, with what is relied on in \<open>firmware_disk\<close> and in the installer's oracle), the
  assembly that enters the kernel (represented by its arguments), fields and prototypes in headers that no code
  uses, and the build system with its patches.
\<close>

end
